(* ===== verification/Prelude.thy ===== *)
theory Prelude
  imports Main "HOL-Library.Word"
begin

text \<open>
  Shared vocabulary of the development: octets and machine integers as words, the
  exceptions the C++ code can throw, results as sums (\<open>Inl\<close> the exception), stateful
  actions as functions that return a result and the state that is left behind, and the
  lemmas about them that every component uses.
\<close>

unbundle bit_operations_syntax

section \<open>Machine integers and octets\<close>

type_synonym octet = "8 word"
type_synonym octets = "octet list"
type_synonym u16 = "16 word"
type_synonym u32 = "32 word"
type_synonym u64 = "64 word"
type_synonym i32 = "32 word"
type_synonym i64 = "64 word"

text \<open>
  \<open>i32\<close> and \<open>i64\<close> are the two's complement readings of the same words: \<open>sint\<close> reads
  the value, \<open>scast\<close> widens as C++ does for a signed source, \<open>signed_drop_bit\<close> is
  \<^verbatim>\<open>>>\<close> on a signed operand.
\<close>

section \<open>Exceptions and results\<close>

text \<open>
  One constructor per exception class thrown by the code. \<open>Undefined_Behaviour\<close> marks an
  execution that C++ gives no meaning to (a null dereference, a shift past the width, an
  out-of-range access): the model reports it instead of inventing a value.
\<close>

datatype exn =
    Eof_Error
  | Horace_Error string
  | Endpoint_Error string
  | Runtime_Error string
  | Invalid_Argument string
  | Out_Of_Range string
  | Logic_Error string
  | Syslog_Error string
  | Ntp_Error string
  | Libc_Error nat
  | Terminate_Exception
  | Bad_Cast
  | Bad_Array_New_Length
  | Undefined_Behaviour string

type_synonym 'a result = "exn + 'a"

definition bindE :: "'a result \<Rightarrow> ('a \<Rightarrow> 'b result) \<Rightarrow> 'b result" where
  "bindE m f = (case m of Inl e \<Rightarrow> Inl e | Inr x \<Rightarrow> f x)"

definition assertE :: "bool \<Rightarrow> exn \<Rightarrow> unit result" where
  "assertE c e = (if c then Inr () else Inl e)"

lemma bindE_simps [simp]:
  "bindE (Inl e) f = Inl e"
  "bindE (Inr x) f = f x"
  by (simp_all add: bindE_def)

lemma bindE_eq_Inr [simp]: "bindE m f = Inr y \<longleftrightarrow> (\<exists>x. m = Inr x \<and> f x = Inr y)"
  by (cases m) auto

lemma bindE_eq_Inl: "bindE m f = Inl e \<longleftrightarrow> m = Inl e \<or> (\<exists>x. m = Inr x \<and> f x = Inl e)"
  by (cases m) auto

lemma bindE_split:
  "P (bindE m f) \<longleftrightarrow> (\<forall>e. m = Inl e \<longrightarrow> P (Inl e)) \<and> (\<forall>x. m = Inr x \<longrightarrow> P (f x))"
  by (cases m) auto

lemma bindE_assoc: "bindE (bindE m f) g = bindE m (\<lambda>x. bindE (f x) g)"
  by (cases m) auto

lemma bindE_cong [fundef_cong]:
  "m = m' \<Longrightarrow> (\<And>x. m' = Inr x \<Longrightarrow> f x = f' x) \<Longrightarrow> bindE m f = bindE m' f'"
  by (cases m') auto

lemma assertE_simps [simp]:
  "assertE True e = Inr ()"
  "assertE False e = Inl e"
  by (simp_all add: assertE_def)

lemma assertE_eq_Inr [simp]: "assertE c e = Inr u \<longleftrightarrow> c"
  by (simp add: assertE_def)

section \<open>Stateful actions\<close>

text \<open>
  A C++ member function that may throw leaves the object in the state it had reached when
  the exception was raised. An action therefore returns its result and that state.
\<close>

type_synonym ('s, 'a) act = "'s \<Rightarrow> 'a result \<times> 's"

definition returnS :: "'a \<Rightarrow> ('s, 'a) act" where
  "returnS x = (\<lambda>s. (Inr x, s))"

definition throwS :: "exn \<Rightarrow> ('s, 'a) act" where
  "throwS e = (\<lambda>s. (Inl e, s))"

definition liftS :: "'a result \<Rightarrow> ('s, 'a) act" where
  "liftS r = (\<lambda>s. (r, s))"

definition getS :: "('s \<Rightarrow> 'a) \<Rightarrow> ('s, 'a) act" where
  "getS f = (\<lambda>s. (Inr (f s), s))"

definition modifyS :: "('s \<Rightarrow> 's) \<Rightarrow> ('s, unit) act" where
  "modifyS f = (\<lambda>s. (Inr (), f s))"

definition bindS :: "('s, 'a) act \<Rightarrow> ('a \<Rightarrow> ('s, 'b) act) \<Rightarrow> ('s, 'b) act" where
  "bindS m f = (\<lambda>s. case m s of (Inl e, s') \<Rightarrow> (Inl e, s') | (Inr x, s') \<Rightarrow> f x s')"

definition seqS :: "('s, unit) act \<Rightarrow> ('s, 'b) act \<Rightarrow> ('s, 'b) act" where
  "seqS m n = bindS m (\<lambda>_. n)"

named_theorems act_simps \<open>unfolding equations of the action combinators\<close>

lemmas act_defs [act_simps] =
  returnS_def throwS_def liftS_def getS_def modifyS_def bindS_def seqS_def

lemma run_result: "fst p = x \<Longrightarrow> p = (x, snd p)"
  by (cases p) simp

lemma seqS_Inr:
  "seqS m n s = (Inr x, s') \<longleftrightarrow> (\<exists>s1. m s = (Inr (), s1) \<and> n s1 = (Inr x, s'))"
  by (auto simp: act_simps split: prod.splits sum.splits)

lemma bindS_Inr:
  "bindS m f s = (Inr x, s') \<longleftrightarrow> (\<exists>y s1. m s = (Inr y, s1) \<and> f y s1 = (Inr x, s'))"
  by (auto simp: act_simps split: prod.splits sum.splits)

lemma returnS_Inr: "returnS x s = (Inr y, s') \<longleftrightarrow> x = y \<and> s = s'"
  by (simp add: returnS_def)

text \<open>
  How actions are evaluated: the rest of a sequence is looked at once the state before it is known.
\<close>

fun continue :: "('a \<Rightarrow> ('s, 'b) act) \<Rightarrow> 'a result \<times> 's \<Rightarrow> 'b result \<times> 's" where
  "continue f (Inl e, s) = (Inl e, s)"
| "continue f (Inr x, s) = f x s"

lemma act_code [code]:
  "returnS x s = (Inr x, s)" "throwS e s = (Inl e, s)" "liftS r s = (r, s)" "getS h s = (Inr (h s), s)"
  "modifyS g s = (Inr (), g s)" "bindS m f s = continue f (m s)" "seqS m' n s = continue (\<lambda>_. n) (m' s)"
  by (simp_all add: act_simps split: prod.split sum.split)

lemmas act_Inr = seqS_Inr bindS_Inr returnS_def throwS_def liftS_def getS_def modifyS_def

section \<open>Signed arithmetic\<close>

text \<open>
  The value of an operation on \<^verbatim>\<open>int\<close> or on a signed type of 64 bits; C++ gives no meaning to an overflow.
\<close>

definition int_result :: "int \<Rightarrow> int result" where
  "int_result n = (if - (2 ^ 31) \<le> n \<and> n < 2 ^ 31 then Inr n else Inl (Undefined_Behaviour ''signed overflow''))"

definition long_result :: "int \<Rightarrow> int result" where
  "long_result n = (if - (2 ^ 63) \<le> n \<and> n < 2 ^ 63 then Inr n else Inl (Undefined_Behaviour ''signed overflow''))"

section \<open>Octets and characters\<close>

definition char_of_octet :: "octet \<Rightarrow> char" where
  "char_of_octet b = char_of (unat b)"

definition octet_of_char :: "char \<Rightarrow> octet" where
  "octet_of_char c = of_char c"

lemma unat_octet_of_char: "unat (octet_of_char c) = of_char c"
proof -
  have "octet_of_char c = of_nat (of_char c :: nat)"
    by (simp add: octet_of_char_def of_nat_of_char)
  moreover have "(of_char c :: nat) < 256"
    by (rule nat_of_char_less_256)
  ultimately show ?thesis
    by (simp add: unat_of_nat)
qed

lemma char_of_octet_of_char [simp]: "char_of_octet (octet_of_char c) = c"
  by (simp add: char_of_octet_def unat_octet_of_char)

lemma unat_octet_lt: "unat (b :: octet) < 256"
proof -
  have "unat b < 2 ^ LENGTH(8)"
    by (rule unsigned_less)
  then show ?thesis
    by simp
qed

lemma octet_of_char_of_octet [simp]: "octet_of_char (char_of_octet b) = b"
proof -
  have "unat (octet_of_char (char_of_octet b)) = unat b mod 256"
    by (simp add: char_of_octet_def unat_octet_of_char)
  also have "\<dots> = unat b"
    by (simp add: unat_octet_lt)
  finally show ?thesis
    by (simp add: word_unat_eq_iff)
qed

section \<open>Bit masks\<close>

named_theorems mask_bits \<open>bits of the literal masks the code uses\<close>

text \<open>
  The simplifier reads a bit of a word literal off the integer it denotes, so the
  masks are described there.
\<close>

lemma bit_0xff [mask_bits]: "bit (0xff :: int) n \<longleftrightarrow> n < 8"
proof -
  have "(0xff :: int) = mask 8"
    by (simp add: mask_eq_exp_minus_1)
  then show ?thesis
    by (simp only: bit_mask_iff) simp
qed

lemma bit_0x7f [mask_bits]: "bit (0x7f :: int) n \<longleftrightarrow> n < 7"
proof -
  have "(0x7f :: int) = mask 7"
    by (simp add: mask_eq_exp_minus_1)
  then show ?thesis
    by (simp only: bit_mask_iff) simp
qed

lemma bit_0x3f [mask_bits]: "bit (0x3f :: int) n \<longleftrightarrow> n < 6"
proof -
  have "(0x3f :: int) = mask 6"
    by (simp add: mask_eq_exp_minus_1)
  then show ?thesis
    by (simp only: bit_mask_iff) simp
qed

lemma bit_0x80 [mask_bits]: "bit (0x80 :: int) n \<longleftrightarrow> n = 7"
proof -
  have "(0x80 :: int) = 2 ^ 7"
    by simp
  then show ?thesis
    by (simp only: bit_exp_iff) auto
qed

lemma bit_0x40 [mask_bits]: "bit (0x40 :: int) n \<longleftrightarrow> n = 6"
proof -
  have "(0x40 :: int) = 2 ^ 6"
    by simp
  then show ?thesis
    by (simp only: bit_exp_iff) auto
qed

lemma and_0x80_eq_0: "(b :: octet) AND 0x80 = 0 \<longleftrightarrow> \<not> bit b 7"
proof
  assume "b AND 0x80 = 0"
  then have "\<not> bit (b AND 0x80) 7"
    by simp
  then show "\<not> bit b 7"
    by (simp add: bit_and_iff mask_bits)
next
  assume "\<not> bit b 7"
  then show "b AND 0x80 = 0"
    by (intro bit_word_eqI) (auto simp: bit_and_iff mask_bits)
qed

lemma drop_bit_0_mono: "drop_bit m v = 0 \<Longrightarrow> m \<le> n \<Longrightarrow> drop_bit n (v :: 'a::len word) = 0"
  by (metis drop_bit_drop_bit drop_bit_of_0 le_add_diff_inverse2)

section \<open>Decimal and hexadecimal text\<close>

text \<open>
  What \<^verbatim>\<open>std::to_string\<close> and \<^verbatim>\<open>operator<<\<close> print for integers, and two hexadecimal digits
  as \<^verbatim>\<open>std::setw(2)\<close> with the fill character \<^verbatim>\<open>0\<close> does.
\<close>

definition digit_char :: "nat \<Rightarrow> char" where
  "digit_char d = char_of (48 + d)"

definition hex_digit :: "nat \<Rightarrow> char" where
  "hex_digit d = (if d < 10 then char_of (48 + d) else char_of (87 + d))"

fun dec_nat :: "nat \<Rightarrow> string" where
  "dec_nat n = (if n < 10 then [digit_char n] else dec_nat (n div 10) @ [digit_char (n mod 10)])"

declare dec_nat.simps [simp del]

definition dec_int :: "int \<Rightarrow> string" where
  "dec_int i = (if i < 0 then CHR ''-'' # dec_nat (nat (- i)) else dec_nat (nat i))"

definition hex_octet :: "octet \<Rightarrow> string" where
  "hex_octet b = [hex_digit (unat b div 16), hex_digit (unat b mod 16)]"

definition pad_left :: "nat \<Rightarrow> char \<Rightarrow> string \<Rightarrow> string" where
  "pad_left n c s = replicate (n - length s) c @ s"

section \<open>Two's complement readings\<close>

lemma bit_63_iff: "bit (v :: 64 word) 63 \<longleftrightarrow> 2 ^ 63 \<le> uint v"
proof -
  have "uint v div 2 ^ 63 = of_bool (2 ^ 63 \<le> uint v)"
    using unsigned_less[of v, where ?'a = int] by (auto simp: div_pos_pos_trivial int_div_pos_eq[of _ _ 1 "uint v - 2 ^ 63"])
  moreover have "bit v 63 = bit (uint v) 63"
    by (simp add: bit_uint_iff)
  ultimately show ?thesis
    by (simp add: bit_iff_odd)
qed

lemma sint_64: "sint (v :: 64 word) = (if uint v < 2 ^ 63 then uint v else uint v - 2 ^ 64)"
proof -
  have "sint v = signed_take_bit 63 (uint v)"
    by (simp add: sint_uint)
  also have "\<dots> = take_bit 64 (uint v) - 2 ^ 64 * of_bool (bit (uint v) 63)"
    by (simp add: signed_take_bit_eq_take_bit_minus)
  also have "take_bit 64 (uint v) = uint v"
    using unsigned_less[of v, where ?'a = int] by (intro take_bit_int_eq_self) simp_all
  also have "bit (uint v) 63 \<longleftrightarrow> bit v 63"
    by (simp add: bit_uint_iff)
  finally show ?thesis
    by (simp add: bit_63_iff)
qed

lemma unat_of_nat_64: "n < 2 ^ 64 \<Longrightarrow> unat (of_nat n :: u64) = n"
  unfolding unsigned_of_nat by (simp add: take_bit_nat_eq_self_iff)

lemma bit_of_nat_high: "n < 2 ^ m \<Longrightarrow> m \<le> k \<Longrightarrow> \<not> bit (of_nat n :: 'a::len word) k"
proof -
  assume "n < 2 ^ m" and "m \<le> k"
  then have "n < 2 ^ k"
    by (meson order_less_le_trans one_le_numeral power_increasing)
  then show ?thesis
    unfolding bit_of_nat_iff by (simp add: bit_iff_odd)
qed

section \<open>Reading decimal text\<close>

text \<open>
  \<^verbatim>\<open>std::string::find\<close> for one character, and \<^verbatim>\<open>isspace\<close> in the C locale.
\<close>

fun find_char :: "char \<Rightarrow> string \<Rightarrow> nat option" where
  "find_char c [] = None"
| "find_char c (d # s) = (if d = c then Some 0 else map_option Suc (find_char c s))"

lemma find_char_append: "c \<notin> set s \<Longrightarrow> find_char c (s @ c # t) = Some (length s)"
  by (induction s) auto

lemma find_char_None: "c \<notin> set s \<Longrightarrow> find_char c s = None"
  by (induction s) auto

definition is_space :: "char \<Rightarrow> bool" where
  "is_space c \<longleftrightarrow> c = CHR '' '' \<or> (9 \<le> (of_char c :: nat) \<and> (of_char c :: nat) \<le> 13)"

definition is_digit :: "char \<Rightarrow> bool" where
  "is_digit c \<longleftrightarrow> 48 \<le> (of_char c :: nat) \<and> (of_char c :: nat) \<le> 57"

definition digit_val :: "char \<Rightarrow> nat" where
  "digit_val c = of_char c - 48"

definition dec_val :: "string \<Rightarrow> nat" where
  "dec_val s = foldl (\<lambda>n c. n * 10 + digit_val c) 0 s"

lemma of_char_digit_char: "d < 10 \<Longrightarrow> (of_char (digit_char d) :: nat) = 48 + d"
  by (simp add: digit_char_def)

lemma digit_char_facts [simp]:
  "d < 10 \<Longrightarrow> is_digit (digit_char d)"
  "d < 10 \<Longrightarrow> digit_val (digit_char d) = d"
  by (simp_all add: is_digit_def digit_val_def of_char_digit_char)

lemma digit_val_less: "is_digit c \<Longrightarrow> digit_val c < 10"
  by (auto simp: is_digit_def digit_val_def)

lemma digit_char_val: "is_digit c \<Longrightarrow> digit_char (digit_val c) = c"
  by (simp add: is_digit_def digit_val_def digit_char_def)

lemma dec_val_snoc [simp]: "dec_val (s @ [c]) = dec_val s * 10 + digit_val c"
  by (simp add: dec_val_def)

lemma dec_val_Nil [simp]: "dec_val [] = 0"
  by (simp add: dec_val_def)

lemma dec_val_single [simp]: "dec_val [c] = digit_val c"
  by (simp add: dec_val_def)

lemma dec_val_bound: "list_all is_digit s \<Longrightarrow> dec_val s < 10 ^ length s"
proof (induction s rule: rev_induct)
  case (snoc c s)
  then show ?case
    using digit_val_less[of c] by (simp add: list_all_iff)
qed simp

lemma dec_val_append: "dec_val (s @ t) = dec_val s * 10 ^ length t + dec_val t"
proof (induction t rule: rev_induct)
  case (snoc c t)
  then show ?case
    by (simp flip: append_assoc add: algebra_simps)
qed simp

lemma dec_val_Cons: "dec_val (c # s) = digit_val c * 10 ^ length s + dec_val s"
  using dec_val_append[of "[c]" s] by simp

lemma dec_nat_digits [simp]: "list_all is_digit (dec_nat n)"
proof (induction n rule: dec_nat.induct)
  case (1 n)
  then show ?case
    by (subst dec_nat.simps) simp
qed

lemma dec_val_dec_nat [simp]: "dec_val (dec_nat n) = n"
proof (induction n rule: dec_nat.induct)
  case (1 n)
  then show ?case
    by (subst dec_nat.simps) simp
qed

lemma dec_nat_not_Nil [simp]: "dec_nat n \<noteq> []"
  by (subst dec_nat.simps) simp

lemma dec_nat_inject [simp]: "dec_nat m = dec_nat n \<longleftrightarrow> m = n"
  by (metis dec_val_dec_nat)

lemma dec_nat_leading:
  "0 < n \<Longrightarrow> digit_val (hd (dec_nat n)) \<noteq> 0"
proof (induction n rule: dec_nat.induct)
  case (1 n)
  show ?case
  proof (cases "n < 10")
    case True
    with "1.prems" show ?thesis
      by (subst dec_nat.simps) simp
  next
    case False
    with "1.IH" show ?thesis
      by (subst dec_nat.simps) simp
  qed
qed

lemma dec_nat_length:
  assumes "0 < n"
  shows "10 ^ (length (dec_nat n) - 1) \<le> n" and "n < 10 ^ length (dec_nat n)"
proof -
  show "n < 10 ^ length (dec_nat n)"
    using dec_val_bound[OF dec_nat_digits, of n] by simp
  obtain c s where cs: "dec_nat n = c # s"
    using dec_nat_not_Nil by (meson neq_Nil_conv)
  then have "digit_val c \<noteq> 0"
    using dec_nat_leading[OF assms] by simp
  then have "10 ^ length s \<le> digit_val c * 10 ^ length s"
    by simp
  also have "\<dots> \<le> n"
    using dec_val_dec_nat[of n] cs by (simp add: dec_val_Cons)
  finally show "10 ^ (length (dec_nat n) - 1) \<le> n"
    by (simp add: cs)
qed

lemma dec_val_zeros [simp]: "dec_val (replicate k (CHR ''0'') @ s) = dec_val s"
proof -
  have "dec_val (replicate k (CHR ''0'')) = 0"
    by (induction k) (simp_all add: dec_val_Cons digit_val_def)
  then show ?thesis
    by (simp add: dec_val_append)
qed

text \<open>
  Text of digits with no superfluous zero in front is what is printed for its value.
\<close>

lemma dec_nat_dec_val:
  "list_all is_digit s \<Longrightarrow> s \<noteq> [] \<Longrightarrow> (digit_val (hd s) \<noteq> 0 \<or> length s = 1) \<Longrightarrow> dec_nat (dec_val s) = s"
proof (induction s rule: rev_induct)
  case (snoc c s)
  have c: "digit_val c < 10" "digit_char (digit_val c) = c"
    using snoc.prems(1) by (simp_all add: digit_val_less digit_char_val)
  show ?case
  proof (cases "s = []")
    case True
    with c show ?thesis
      by (subst dec_nat.simps) simp
  next
    case False
    then obtain d t where dt: "s = d # t"
      by (meson neq_Nil_conv)
    with snoc.prems have "digit_val d \<noteq> 0"
      by simp
    then have "dec_val s \<noteq> 0"
      by (simp add: dt dec_val_Cons)
    moreover have "dec_nat (dec_val s) = s"
      using snoc False by simp
    ultimately show ?thesis
      using c by (subst dec_nat.simps) simp
  qed
qed simp

section \<open>C strings\<close>

text \<open>
  \<^verbatim>\<open>strstr\<close>: the first place where a C string occurs in another.
\<close>

fun strstr :: "string \<Rightarrow> string \<Rightarrow> nat option" where
  "strstr [] needle = (if needle = [] then Some 0 else None)"
| "strstr (c # cs) needle =
     (if take (length needle) (c # cs) = needle then Some 0 else map_option Suc (strstr cs needle))"

lemma strstr_less: "strstr s n = Some k \<Longrightarrow> n \<noteq> [] \<Longrightarrow> k < length s"
  by (induction s n arbitrary: k rule: strstr.induct) (auto split: if_splits)

end
