(* ===== verification/Octet_Stream.thy ===== *)
theory Octet_Stream
  imports Prelude
begin

text \<open>
  The public reading and writing operations of \<^verbatim>\<open>octet_reader\<close> and \<^verbatim>\<open>octet_writer\<close>
  (\<^verbatim>\<open>horace/octet_reader.cc\<close>, \<^verbatim>\<open>horace/octet_writer.cc\<close>) over the sequence of octets that
  is still to be read, or that has been handed to the writer. \<open>Octet_Buffer\<close> shows that the
  buffered classes behave like this sequence.
\<close>

section \<open>Reading\<close>

definition read_octet :: "octets \<Rightarrow> (octet \<times> octets) result" where
  "read_octet bs = (case bs of [] \<Rightarrow> Inl Eof_Error | b # bs' \<Rightarrow> Inr (b, bs'))"

definition read_octets :: "nat \<Rightarrow> octets \<Rightarrow> (octets \<times> octets) result" where
  "read_octets n bs = (if n \<le> length bs then Inr (take n bs, drop n bs) else Inl Eof_Error)"

fun read_unsigned_loop :: "nat \<Rightarrow> u64 \<Rightarrow> octets \<Rightarrow> (u64 \<times> octets) result" where
  "read_unsigned_loop 0 r bs = Inr (r, bs)"
| "read_unsigned_loop (Suc w) r bs =
     (if drop_bit 56 r \<noteq> 0 then Inl (Runtime_Error ''integer overflow'')
      else bindE (read_octet bs) (\<lambda>(b, bs').
        read_unsigned_loop w (push_bit 8 r OR ucast b) bs'))"

definition read_unsigned :: "nat \<Rightarrow> octets \<Rightarrow> (u64 \<times> octets) result" where
  "read_unsigned width bs = read_unsigned_loop width 0 bs"

text \<open>
  A left shift of a negative value is undefined up to C++17, the standard that the program is
  compiled for.
\<close>

fun read_signed_loop :: "nat \<Rightarrow> i64 \<Rightarrow> octets \<Rightarrow> (i64 \<times> octets) result" where
  "read_signed_loop 0 r bs = Inr (r, bs)"
| "read_signed_loop (Suc w) r bs =
     (if signed_drop_bit 1 (signed_drop_bit 55 r + 1) \<noteq> 0
      then Inl (Runtime_Error ''integer overflow'')
      else if bit r 63 then Inl (Undefined_Behaviour ''shift'')
      else bindE (read_octet bs) (\<lambda>(b, bs').
        read_signed_loop w (push_bit 8 r OR ucast b) bs'))"

fun read_signed :: "nat \<Rightarrow> octets \<Rightarrow> (i64 \<times> octets) result" where
  "read_signed 0 bs = Inr (0, bs)"
| "read_signed (Suc w) bs =
     bindE (read_octet bs) (\<lambda>(b, bs').
       read_signed_loop w (ucast (b AND 0x7f) - ucast (b AND 0x80)) bs')"

definition read_string :: "u64 \<Rightarrow> octets \<Rightarrow> (string \<times> octets) result" where
  "read_string n bs =
     (if 2 ^ 63 \<le> n then Inl Bad_Array_New_Length
      else bindE (read_octets (unat n) bs) (\<lambda>(xs, bs'). Inr (map char_of_octet xs, bs')))"

section \<open>Writing\<close>

fun be_octets :: "u64 \<Rightarrow> nat \<Rightarrow> octets" where
  "be_octets v 0 = []"
| "be_octets v (Suc n) = ucast (drop_bit (8 * n) v AND 0xff) # be_octets v n"

text \<open>
  The source shifts by \<^verbatim>\<open>(width - 1) * 8\<close>, which C++ defines only below 64.
\<close>

definition write_unsigned :: "u64 \<Rightarrow> nat \<Rightarrow> octets result" where
  "write_unsigned v width =
     (if width \<le> 8 then Inr (be_octets v width) else Inl (Undefined_Behaviour ''shift''))"

definition write_signed :: "i64 \<Rightarrow> nat \<Rightarrow> octets result" where
  "write_signed v width =
     (if width \<le> 8 then Inr (be_octets v width) else Inl (Undefined_Behaviour ''shift''))"

definition write_string :: "string \<Rightarrow> octets" where
  "write_string s = map octet_of_char s"

section \<open>Consumption\<close>

lemma read_octet_Cons [simp]: "read_octet (b # bs) = Inr (b, bs)"
  by (simp add: read_octet_def)

lemma read_octet_Nil [simp]: "read_octet [] = Inl Eof_Error"
  by (simp add: read_octet_def)

lemma read_octet_eq_Inr [simp]: "read_octet bs = Inr (b, bs') \<longleftrightarrow> bs = b # bs'"
  by (cases bs) auto

lemma read_octets_eq_Inr: "read_octets n bs = Inr (xs, bs') \<longleftrightarrow> bs = xs @ bs' \<and> length xs = n"
  by (auto simp: read_octets_def)

lemma read_octets_append [simp]: "length xs = n \<Longrightarrow> read_octets n (xs @ bs) = Inr (xs, bs)"
  by (simp add: read_octets_def)

lemma read_unsigned_loop_consumes:
  "read_unsigned_loop w r bs = Inr (v, bs') \<Longrightarrow> length bs = w + length bs'"
  by (induction w r bs rule: read_unsigned_loop.induct) (auto split: if_splits)

lemma read_signed_loop_consumes:
  "read_signed_loop w r bs = Inr (v, bs') \<Longrightarrow> length bs = w + length bs'"
  by (induction w r bs rule: read_signed_loop.induct) (auto split: if_splits)

lemma read_unsigned_consumes: "read_unsigned w bs = Inr (v, bs') \<Longrightarrow> length bs = w + length bs'"
  by (auto simp: read_unsigned_def dest: read_unsigned_loop_consumes)

lemma read_signed_consumes: "read_signed w bs = Inr (v, bs') \<Longrightarrow> length bs = w + length bs'"
  by (cases w) (auto dest: read_signed_loop_consumes)

lemma read_string_consumes: "read_string n bs = Inr (s, bs') \<Longrightarrow> length bs = unat n + length bs'"
  by (auto simp: read_string_def read_octets_eq_Inr split: if_splits)

lemma length_be_octets [simp]: "length (be_octets v n) = n"
  by (induction n) auto

section \<open>Round trips of the fixed-width integers\<close>

lemma be_octets_step:
  "push_bit 8 (drop_bit (8 * Suc n) v) OR ucast (ucast (drop_bit (8 * n) v AND 0xff) :: octet)
     = (drop_bit (8 * n) v :: u64)"
proof (rule bit_word_eqI)
  fix m assume m: "m < LENGTH(64)"
  show "bit (push_bit 8 (drop_bit (8 * Suc n) v)
      OR ucast (ucast (drop_bit (8 * n) v AND 0xff) :: octet)) m = bit (drop_bit (8 * n) v) m"
  proof (cases "m < 8")
    case True
    then show ?thesis
      using m by (auto simp: bit_simps mask_bits)
  next
    case False
    then obtain k where "m = 8 + k"
      by (metis le_Suc_ex not_less)
    then show ?thesis
      using m by (auto simp: bit_simps mask_bits ac_simps)
  qed
qed

lemma read_unsigned_loop_be_octets:
  "k \<le> 8 \<Longrightarrow> read_unsigned_loop k (drop_bit (8 * k) v) (be_octets v k @ rest) = Inr (v, rest)"
proof (induction k)
  case 0
  then show ?case by simp
next
  case (Suc k)
  have "drop_bit 56 (drop_bit (8 * Suc k) v) = 0"
    by (rule bit_word_eqI) (simp add: bit_simps)
  then show ?case
    using Suc be_octets_step[of k v] by simp
qed

lemma read_unsigned_be_octets:
  assumes "k \<le> 8" and "drop_bit (8 * k) v = 0"
  shows "read_unsigned k (be_octets v k @ rest) = Inr (v, rest)"
  using read_unsigned_loop_be_octets[OF assms(1), of v rest] assms(2)
  by (simp add: read_unsigned_def)

text \<open>
  The first octet of a signed integer is sign-extended from bit 7, and each later step keeps
  the value an arithmetic right shift of the whole.
\<close>

lemma sign_extend_octet:
  "(ucast (b AND 0x7f :: octet) :: i64) - ucast (b AND 0x80) = scast b"
proof -
  show ?thesis
  proof (cases "bit b 7")
    case True
    have "b AND 0x80 = 0x80"
      using True by (intro bit_word_eqI) (auto simp: bit_simps mask_bits)
    moreover have "scast b = (ucast (b AND 0x7f) :: i64) OR NOT (mask 7)"
      using True by (intro bit_word_eqI) (auto simp: bit_simps mask_bits)
    moreover have "(ucast (b AND 0x7f) :: i64) AND NOT (mask 7) = 0"
      by (intro bit_word_eqI) (auto simp: bit_simps mask_bits)
    moreover have "- (0x80 :: i64) = NOT (mask 7)"
      by (simp add: mask_eq_exp_minus_1)
    ultimately show ?thesis
      by (simp add: disjunctive_add_eq_or [symmetric])
  next
    case False
    then have "b AND 0x80 = 0"
      by (simp add: and_0x80_eq_0)
    moreover have "ucast (b AND 0x7f) = (scast b :: i64)"
      using False by (intro bit_word_eqI) (auto simp: bit_simps mask_bits min_def split: if_splits)
    ultimately show ?thesis
      by simp
  qed
qed

definition sign_word :: "i64 \<Rightarrow> i64" where
  "sign_word v = (if bit v 63 then - 1 else 0)"

lemma bit_sign_word [bit_simps]: "bit (sign_word v) n \<longleftrightarrow> n < 64 \<and> bit v 63"
  by (simp add: sign_word_def)

lemma signed_drop_bit_1_eq_0:
  assumes "w = sign_word v"
  shows "signed_drop_bit 1 (w + 1 :: i64) = 0"
proof (cases "bit v 63")
  case True
  with assms show ?thesis
    by (simp add: sign_word_def)
next
  case False
  with assms have "w + 1 = 1"
    by (simp add: sign_word_def)
  moreover have "signed_drop_bit 1 (1 :: i64) = 0"
    by simp
  ultimately show ?thesis
    by simp
qed

lemma signed_drop_bit_large:
  assumes "63 \<le> m"
  shows "signed_drop_bit m v = sign_word (v :: i64)"
proof (rule bit_word_eqI)
  fix n assume n: "n < LENGTH(64)"
  from assms consider "m + n = 63" | "64 - m \<le> n"
    by linarith
  then show "bit (signed_drop_bit m v) n = bit (sign_word v) n"
    using n by cases (auto simp: bit_simps)
qed

lemma signed_drop_bit_add:
  "signed_drop_bit m (signed_drop_bit n v) = signed_drop_bit (m + n) (v :: i64)"
  by (rule bit_word_eqI) (auto simp: bit_simps ac_simps)

lemma be_octets_signed_step:
  assumes "n \<le> 6"
  shows "push_bit 8 (signed_drop_bit (8 * Suc n) v)
    OR ucast (ucast (drop_bit (8 * n) v AND 0xff) :: octet) = (signed_drop_bit (8 * n) v :: i64)"
proof (rule bit_word_eqI)
  fix m assume m: "m < LENGTH(64)"
  show "bit (push_bit 8 (signed_drop_bit (8 * Suc n) v)
      OR ucast (ucast (drop_bit (8 * n) v AND 0xff) :: octet)) m = bit (signed_drop_bit (8 * n) v) m"
  proof (cases "m < 8")
    case True
    with assms m show ?thesis
      by (auto simp: bit_simps mask_bits)
  next
    case False
    then obtain k where k: "m = 8 + k"
      by (metis le_Suc_ex not_less)
    with m show ?thesis
      by (auto simp: bit_simps mask_bits ac_simps)
  qed
qed

lemma bit_63_signed_drop_bit [simp]: "bit (signed_drop_bit n (v :: i64)) 63 = bit v 63"
  by (cases n) (auto simp: bit_signed_drop_bit_iff)

lemma read_signed_loop_be_octets:
  "k \<le> 7 \<Longrightarrow> read_signed_loop k (signed_drop_bit (8 * k) v) (be_octets v k @ rest)
     = (if bit v 63 \<and> 0 < k then Inl (Undefined_Behaviour ''shift'') else Inr (v, rest))"
proof (induction k)
  case 0
  then show ?case by simp
next
  case (Suc k)
  have "signed_drop_bit 55 (signed_drop_bit (8 * Suc k) v) = sign_word v"
    by (simp add: signed_drop_bit_add signed_drop_bit_large)
  then have "signed_drop_bit 1 (signed_drop_bit 55 (signed_drop_bit (8 * Suc k) v) + 1) = 0"
    by (rule signed_drop_bit_1_eq_0)
  then show ?case
    using Suc be_octets_signed_step[of k v] by simp
qed

lemma read_signed_be_octets:
  assumes "Suc k \<le> 8" and fits: "signed_drop_bit (8 * k + 7) v = sign_word v"
  shows "read_signed (Suc k) (be_octets v (Suc k) @ rest)
    = (if bit v 63 \<and> 0 < k then Inl (Undefined_Behaviour ''shift'') else Inr (v, rest))"
proof -
  let ?b = "ucast (drop_bit (8 * k) v AND 0xff) :: octet"
  have "scast ?b = (signed_drop_bit (8 * k) v :: i64)"
  proof (rule bit_word_eqI)
    fix m assume m: "m < LENGTH(64)"
    have same: "bit v (8 * k + i) \<longleftrightarrow> bit v 63" if "7 \<le> i" "8 * k + i < 64" for i
    proof -
      have "bit (signed_drop_bit (8 * k + 7) v) (i - 7) = bit (sign_word v) (i - 7)"
        by (simp add: fits)
      with that show ?thesis
        by (auto simp: bit_simps split: if_splits)
    qed
    show "bit (scast ?b :: i64) m = bit (signed_drop_bit (8 * k) v) m"
      using m assms(1) same[of m] same[of 7]
      by (cases "m < 7") (auto simp: bit_simps mask_bits min_def)
  qed
  then show ?thesis
    using assms(1) read_signed_loop_be_octets[of k v rest] by (simp add: sign_extend_octet)
qed

section \<open>The interface of an encoding\<close>

text \<open>
  What a reader relies on: decoding an encoding gives the value back and leaves exactly the
  octets that follow. Values can then be told apart in a stream without separators.
\<close>

locale codec =
  fixes enc :: "'a \<Rightarrow> octets"
    and dec :: "octets \<Rightarrow> ('a \<times> octets) result"
    and ok :: "'a \<Rightarrow> bool"
  assumes dec_enc: "ok x \<Longrightarrow> dec (enc x @ rest) = Inr (x, rest)"
begin

lemma prefix_free:
  assumes "ok x" and "ok y" and "enc x @ r = enc y @ s"
  shows "x = y \<and> r = s"
proof -
  have "dec (enc x @ r) = Inr (x, r)"
    by (rule dec_enc[OF assms(1)])
  moreover have "dec (enc y @ s) = Inr (y, s)"
    by (rule dec_enc[OF assms(2)])
  ultimately have "(Inr (x, r) :: ('a \<times> octets) result) = Inr (y, s)"
    unfolding assms(3) by (rule trans[OF sym])
  then show ?thesis
    by simp
qed

lemma dec_enc_end: "ok x \<Longrightarrow> dec (enc x) = Inr (x, [])"
  using dec_enc[of x "[]"] by simp

lemma enc_inject: "ok x \<Longrightarrow> ok y \<Longrightarrow> enc x = enc y \<longleftrightarrow> x = y"
  using prefix_free[of x y "[]" "[]"] by auto

lemma enc_not_Nil: "ok x \<Longrightarrow> (\<And>y r. dec [] \<noteq> Inr (y, r)) \<Longrightarrow> enc x \<noteq> []"
  using dec_enc_end[of x] by auto

lemma stream_inject:
  assumes "list_all ok xs" and "list_all ok ys" and "concat (map enc xs) = concat (map enc ys)"
    and "\<And>x r. dec [] \<noteq> Inr (x, r)"
  shows "xs = ys"
  using assms(1-3)
proof (induction xs arbitrary: ys)
  case Nil
  then show ?case
    using enc_not_Nil[OF _ assms(4)] by (cases ys) auto
next
  case (Cons x xs)
  then obtain y ys' where ys: "ys = y # ys'"
    using enc_not_Nil[OF _ assms(4), of x] by (cases ys) auto
  with Cons.prems have "x = y \<and> concat (map enc xs) = concat (map enc ys')"
    by (intro prefix_free) auto
  with Cons ys show ?case
    by auto
qed

end

end
