(* ===== verification/File_Descriptor.thy ===== *)
theory File_Descriptor
  imports Prelude
begin

text \<open>
  Blocking input and output over file descriptors: \<^verbatim>\<open>horace/file_descriptor.cc\<close>,
  \<^verbatim>\<open>horace/socket_descriptor.cc\<close> and the polling of \<^verbatim>\<open>horace/terminate_flag.cc\<close>. The kernel is
  not part of the repository: its answers, in the order of the system calls, are an argument
  (the trace). A function returns \<open>None\<close> while the trace given has no answer for its next call,
  that is, while it is blocked. The lemmas state what is written for each trace.
\<close>

section \<open>The answers of the kernel\<close>

text \<open>
  \<open>Sys_Data\<close> answers \<^verbatim>\<open>read\<close> and \<^verbatim>\<open>recv\<close>, \<open>Sys_Count k\<close> answers \<^verbatim>\<open>write\<close> and \<^verbatim>\<open>send\<close>: the kernel takes
  \<open>k\<close> octets, or all that it is given where these are fewer. \<open>Sys_Fail\<close> is a return of -1 with that \<^verbatim>\<open>errno\<close>, and \<open>Sys_Poll events terminating revents\<close> answers a \<^verbatim>\<open>poll\<close>
  for the events of \<open>events\<close> and for the pipe of the terminate flag.
\<close>

datatype sys_answer =
    Sys_Data octets
  | Sys_Count nat
  | Sys_Fail nat
  | Sys_Poll nat bool nat

type_synonym trace = "sys_answer list"

definition EINTR :: nat where "EINTR = 4"
definition EAGAIN :: nat where "EAGAIN = 11"
definition EWOULDBLOCK :: nat where "EWOULDBLOCK = 11"
definition POLLIN :: nat where "POLLIN = 1"
definition POLLOUT :: nat where "POLLOUT = 4"
definition POLLERR :: nat where "POLLERR = 8"

lemmas errno_constants = EINTR_def EAGAIN_def EWOULDBLOCK_def
lemmas poll_constants = POLLIN_def POLLOUT_def POLLERR_def

section \<open>Waiting\<close>

text \<open>
  \<^verbatim>\<open>terminate_flag::poll\<close> retries when a signal interrupts it; the terminate flag takes
  precedence over the descriptor. \<open>fd_wait\<close> is \<^verbatim>\<open>file_descriptor::wait\<close>: the argument \<open>so_error\<close> is
  \<open>None\<close> for a plain descriptor, and for a socket the error that \<^verbatim>\<open>handle_pollerror\<close> obtains.
\<close>

fun tf_poll :: "nat \<Rightarrow> trace \<Rightarrow> (nat result \<times> trace) option" where
  "tf_poll events (Sys_Fail e # es) =
     (if e \<noteq> EINTR then Some (Inl (Libc_Error e), es) else tf_poll events es)"
| "tf_poll events (Sys_Poll m term revents # es) =
     (if m \<noteq> events then None
      else if term then Some (Inl Terminate_Exception, es)
      else Some (Inr revents, es))"
| "tf_poll events _ = None"

definition fd_wait :: "nat option \<Rightarrow> nat \<Rightarrow> trace \<Rightarrow> (nat result \<times> trace) option" where
  "fd_wait so_error events es =
     (case tf_poll events es of
        None \<Rightarrow> None
      | Some (Inl x, es') \<Rightarrow> Some (Inl x, es')
      | Some (Inr revents, es') \<Rightarrow>
          (if revents AND POLLERR \<noteq> 0
           then (case so_error of None \<Rightarrow> Some (Inr revents, es') | Some e \<Rightarrow> Some (Inl (Libc_Error e), es'))
           else Some (Inr revents, es')))"

lemma tf_poll_shrinks: "tf_poll events es = Some (r, es') \<Longrightarrow> length es' < length es"
  by (induction events es rule: tf_poll.induct) (auto split: if_splits)

lemma fd_wait_shrinks: "fd_wait so events es = Some (r, es') \<Longrightarrow> length es' < length es"
  by (auto simp: fd_wait_def split: option.splits prod.splits sum.splits if_splits
      dest: tf_poll_shrinks)

section \<open>Reading\<close>

text \<open>
  \<^verbatim>\<open>read\<close>, \<^verbatim>\<open>recv\<close> and \<^verbatim>\<open>recvmsg\<close> are one loop that differs in the events it waits for.
\<close>

function fd_receive :: "nat option \<Rightarrow> nat \<Rightarrow> trace \<Rightarrow> (octets result \<times> trace) option" where
  "fd_receive so events es =
     (case es of
        Sys_Data xs # es1 \<Rightarrow> Some (Inr xs, es1)
      | Sys_Fail e # es1 \<Rightarrow>
          (if e = EWOULDBLOCK \<or> e = EAGAIN
           then (case fd_wait so events es1 of
                   None \<Rightarrow> None
                 | Some (Inl x, es2) \<Rightarrow> Some (Inl x, es2)
                 | Some (Inr _, es2) \<Rightarrow> fd_receive so events es2)
           else Some (Inl (Libc_Error e), es1))
      | _ \<Rightarrow> None)"
  by pat_completeness auto
termination
  by (relation "measure (\<lambda>(so, events, es). length es)") (auto dest: fd_wait_shrinks)

declare fd_receive.simps [simp del]

definition fd_read :: "trace \<Rightarrow> (octets result \<times> trace) option" where
  "fd_read = fd_receive None POLLIN"

definition socket_recv :: "nat \<Rightarrow> trace \<Rightarrow> (octets result \<times> trace) option" where
  "socket_recv so_error = fd_receive (Some so_error) POLLOUT"

definition socket_recvmsg :: "nat \<Rightarrow> trace \<Rightarrow> (octets result \<times> trace) option" where
  "socket_recvmsg so_error = fd_receive (Some so_error) POLLIN"

section \<open>Writing\<close>

text \<open>
  \<open>ptr\<close> is the offset of the pointer from the start of the buffer. When a call would block, the
  loop waits (as \<open>fd_wait\<close> does: \<open>so\<close> is its \<open>so_error\<close>) and then still advances by the -1 the call returned: \<open>ptr\<close> steps back by one and
  \<open>nbyte\<close> grows by one.
\<close>

function fd_write_loop ::
  "nat option \<Rightarrow> octets \<Rightarrow> int \<Rightarrow> nat \<Rightarrow> octets \<Rightarrow> trace \<Rightarrow> ((unit result \<times> octets) \<times> trace) option" where
  "fd_write_loop so buf ptr nbyte sink es =
     (if nbyte = 0 then Some ((Inr (), sink), es)
      else if ptr < 0 \<or> int (length buf) < ptr + int nbyte
      then Some ((Inl (Undefined_Behaviour ''buffer''), sink), es)
      else (case es of
          Sys_Count k # es1 \<Rightarrow>
            (let count = min k nbyte in
             fd_write_loop so buf (ptr + int count) (nbyte - count) (sink @ take count (drop (nat ptr) buf)) es1)
        | Sys_Fail e # es1 \<Rightarrow>
            (if e = EWOULDBLOCK \<or> e = EAGAIN
             then (case fd_wait so POLLOUT es1 of
                     None \<Rightarrow> None
                   | Some (Inl x, es2) \<Rightarrow> Some ((Inl x, sink), es2)
                   | Some (Inr _, es2) \<Rightarrow> fd_write_loop so buf (ptr - 1) (nbyte + 1) sink es2)
             else Some ((Inl (Libc_Error e), sink), es1))
        | _ \<Rightarrow> None))"
  by pat_completeness auto
termination
  by (relation "measure (\<lambda>(so, buf, ptr, nbyte, sink, es). length es)") (auto dest: fd_wait_shrinks)

declare fd_write_loop.simps [simp del]

definition fd_write :: "nat option \<Rightarrow> octets \<Rightarrow> octets \<Rightarrow> trace \<Rightarrow> ((unit result \<times> octets) \<times> trace) option" where
  "fd_write so buf sink es = fd_write_loop so buf 0 (length buf) sink es"

text \<open>
  \<^verbatim>\<open>send\<close> returns the number of octets that one call took.
\<close>

function socket_send :: "nat \<Rightarrow> trace \<Rightarrow> (nat result \<times> trace) option" where
  "socket_send so es =
     (case es of
        Sys_Count k # es1 \<Rightarrow> Some (Inr k, es1)
      | Sys_Fail e # es1 \<Rightarrow>
          (if e = EWOULDBLOCK \<or> e = EAGAIN
           then (case fd_wait (Some so) POLLOUT es1 of
                   None \<Rightarrow> None
                 | Some (Inl x, es2) \<Rightarrow> Some (Inl x, es2)
                 | Some (Inr _, es2) \<Rightarrow> socket_send so es2)
           else Some (Inl (Libc_Error e), es1))
      | _ \<Rightarrow> None)"
  by pat_completeness auto
termination
  by (relation "measure (\<lambda>(so, es). length es)") (auto dest: fd_wait_shrinks)

declare socket_send.simps [simp del]

text \<open>
  \<^verbatim>\<open>flock\<close>: \<open>Some e\<close> is a failure with that \<^verbatim>\<open>errno\<close>.
\<close>

definition fd_lock :: "nat option \<Rightarrow> bool result" where
  "fd_lock r = (case r of
       None \<Rightarrow> Inr True
     | Some e \<Rightarrow> (if e = EWOULDBLOCK \<or> e = EAGAIN then Inr False else Inl (Libc_Error e)))"

section \<open>What a write leaves behind\<close>

lemma fd_write_loop_blocking:
  "sum_list ks = nbyte \<Longrightarrow> \<forall>k \<in> set ks. 0 < k \<Longrightarrow> ptr + nbyte = length buf \<Longrightarrow>
     fd_write_loop so buf (int ptr) nbyte sink (map Sys_Count ks @ es)
       = Some ((Inr (), sink @ drop ptr buf), es)"
proof (induction ks arbitrary: ptr nbyte sink)
  case Nil
  then show ?case
    by (simp add: fd_write_loop.simps)
next
  case (Cons k ks)
  then have k: "0 < k" "k \<le> nbyte" "sum_list ks = nbyte - k" "ptr + k + (nbyte - k) = length buf"
    by auto
  then have "fd_write_loop so buf (int ptr) nbyte sink (map Sys_Count (k # ks) @ es)
      = fd_write_loop so buf (int (ptr + k)) (nbyte - k) (sink @ take k (drop ptr buf))
          (map Sys_Count ks @ es)"
    using Cons.prems(3) k(2) by (subst fd_write_loop.simps) (simp add: min_absorb1)
  also have "\<dots> = Some ((Inr (), (sink @ take k (drop ptr buf)) @ drop (ptr + k) buf), es)"
    using Cons.prems(2) k by (intro Cons.IH) auto
  finally have "fd_write_loop so buf (int ptr) nbyte sink (map Sys_Count (k # ks) @ es)
      = Some ((Inr (), sink @ (take k (drop ptr buf) @ drop (ptr + k) buf)), es)"
    by simp
  also have "take k (drop ptr buf) @ drop (ptr + k) buf = drop ptr buf"
    by (metis append_take_drop_id drop_drop add.commute)
  finally show ?case
    by simp
qed

lemma fd_write_blocking:
  assumes "sum_list ks = length buf" and "\<forall>k \<in> set ks. 0 < k"
  shows "fd_write so buf sink (map Sys_Count ks @ es) = Some ((Inr (), sink @ buf), es)"
  using fd_write_loop_blocking[of ks "length buf" 0 buf so sink es] assms by (simp add: fd_write_def)

text \<open>
  What \<^verbatim>\<open>write\<close> answers for a descriptor that has not been made non-blocking: it takes some of the octets,
  or fails, but not because it would block. Then the file grows by a prefix of the buffer, which is all of
  it where the loop ends without an exception. The answer at the end is the one that takes all that is left.
\<close>

definition blocking_answer :: "sys_answer \<Rightarrow> bool" where
  "blocking_answer a = (case a of Sys_Count k \<Rightarrow> True | Sys_Fail e \<Rightarrow> e \<noteq> EAGAIN \<and> e \<noteq> EWOULDBLOCK | _ \<Rightarrow> False)"

definition count_answer :: "sys_answer \<Rightarrow> bool" where
  "count_answer a = (case a of Sys_Count k \<Rightarrow> True | _ \<Rightarrow> False)"

lemma count_is_blocking: "list_all count_answer es \<Longrightarrow> list_all blocking_answer es"
  by (auto simp: list_all_iff count_answer_def blocking_answer_def split: sys_answer.splits)

lemma fd_write_loop_answers:
  assumes "list_all blocking_answer es" and "ptr + nbyte = length buf"
  shows "\<exists>r n es'. fd_write_loop so buf (int ptr) nbyte sink (es @ [Sys_Count (length buf)])
      = Some ((r, sink @ take n (drop ptr buf)), es')
    \<and> (r = Inr () \<longrightarrow> nbyte \<le> n) \<and> (list_all count_answer es \<longrightarrow> r = Inr ())
    \<and> (es' = [] \<or> (\<exists>xs ys. es' = ys @ [Sys_Count (length buf)] \<and> es = xs @ ys))"
  using assms
proof (induction es arbitrary: ptr nbyte sink)
  case Nil
  then show ?case
    by (cases "nbyte = 0") (auto simp: fd_write_loop.simps min_absorb2 intro: exI[of _ 0] exI[of _ nbyte])
next
  case (Cons a es)
  show ?case
  proof (cases "nbyte = 0")
    case True
    then show ?thesis
      by (simp add: fd_write_loop.simps)
  next
    case False
    note step = fd_write_loop.simps[of so buf "int ptr" nbyte sink "(a # es) @ [Sys_Count (length buf)]"]
    show ?thesis
    proof (cases a)
      case (Sys_Count k)
      let ?c = "min k nbyte"
      have p: "ptr + ?c + (nbyte - ?c) = length buf"
        using Cons.prems(2) by simp
      from Cons.IH[OF _ p, of "sink @ take ?c (drop ptr buf)"] Cons.prems(1) obtain r n es' where
        r: "fd_write_loop so buf (int (ptr + ?c)) (nbyte - ?c) (sink @ take ?c (drop ptr buf))
            (es @ [Sys_Count (length buf)])
          = Some ((r, (sink @ take ?c (drop ptr buf)) @ take n (drop (ptr + ?c) buf)), es')"
        "r = Inr () \<longrightarrow> nbyte - ?c \<le> n" "list_all count_answer es \<longrightarrow> r = Inr ()"
        "es' = [] \<or> (\<exists>xs ys. es' = ys @ [Sys_Count (length buf)] \<and> es = xs @ ys)"
        by auto
      have "take ?c (drop ptr buf) @ take n (drop (ptr + ?c) buf) = take (?c + n) (drop ptr buf)"
        by (simp add: take_add add.commute[of ptr])
      moreover have "fd_write_loop so buf (int ptr) nbyte sink ((a # es) @ [Sys_Count (length buf)])
          = fd_write_loop so buf (int (ptr + ?c)) (nbyte - ?c) (sink @ take ?c (drop ptr buf))
              (es @ [Sys_Count (length buf)])"
        using False Cons.prems(2) by (subst step) (simp add: Sys_Count Let_def)
      ultimately have "fd_write_loop so buf (int ptr) nbyte sink ((a # es) @ [Sys_Count (length buf)])
          = Some ((r, sink @ take (?c + n) (drop ptr buf)), es')"
        using r(1) by simp
      moreover have "es' = [] \<or> (\<exists>xs ys. es' = ys @ [Sys_Count (length buf)] \<and> a # es = xs @ ys)"
        using r(4) by (metis append_Cons)
      ultimately show ?thesis
        using r(2,3) by (intro exI[of _ r] exI[of _ "?c + n"] exI[of _ es']) auto
    next
      case (Sys_Fail e)
      with Cons.prems have "e \<noteq> EAGAIN \<and> e \<noteq> EWOULDBLOCK"
        by (simp add: blocking_answer_def)
      with False Cons.prems(2) have "fd_write_loop so buf (int ptr) nbyte sink ((a # es) @ [Sys_Count (length buf)])
          = Some ((Inl (Libc_Error e), sink @ take 0 (drop ptr buf)), es @ [Sys_Count (length buf)])"
        by (subst step) (simp add: Sys_Fail)
      then show ?thesis
        by (intro exI[of _ "Inl (Libc_Error e)"] exI[of _ 0] exI[of _ "es @ [Sys_Count (length buf)]"])
          (auto simp: Sys_Fail count_answer_def intro: exI[of _ "[Sys_Fail e]"])
    qed (use Cons.prems in \<open>auto simp: blocking_answer_def\<close>)
  qed
qed

lemma fd_write_again_first:
  assumes "buf \<noteq> []" and "revents AND POLLERR = 0"
  shows "fd_write so buf sink (Sys_Fail EAGAIN # Sys_Poll POLLOUT False revents # es)
    = Some ((Inl (Undefined_Behaviour ''buffer''), sink), es)"
  using assms by (simp add: fd_write_def fd_wait_def fd_write_loop.simps errno_constants)

lemma fd_write_again_later:
  assumes "0 < k" and "k < length buf" and "revents AND POLLERR = 0"
  shows "fd_write so buf sink (Sys_Count k # Sys_Fail EAGAIN # Sys_Poll POLLOUT False revents
       # Sys_Count (length buf - k + 1) # es)
    = Some ((Inr (), sink @ take k buf @ drop (k - 1) buf), es)"
proof -
  have "fd_write so buf sink (Sys_Count k # Sys_Fail EAGAIN # Sys_Poll POLLOUT False revents
       # Sys_Count (length buf - k + 1) # es)
    = fd_write_loop so buf (int k) (length buf - k) (sink @ take k buf)
        (Sys_Fail EAGAIN # Sys_Poll POLLOUT False revents # Sys_Count (length buf - k + 1) # es)"
    using assms by (auto simp: fd_write_def fd_write_loop.simps[of so buf 0])
  also have "\<dots> = fd_write_loop so buf (int k - 1) (length buf - k + 1) (sink @ take k buf)
        (Sys_Count (length buf - k + 1) # es)"
    using assms by (subst fd_write_loop.simps) (simp add: fd_wait_def errno_constants)
  also have "\<dots> = Some ((Inr (), sink @ take k buf @ drop (k - 1) buf), es)"
    using assms by (subst fd_write_loop.simps) (simp add: fd_write_loop.simps nat_diff_distrib)
  finally show ?thesis .
qed

section \<open>Properties\<close>

text \<open>
  Writing to a descriptor that always takes at least one octet transfers the whole buffer in
  order, however the kernel splits it.
\<close>

lemma fd_write_complete:
  assumes "sum_list ks = length buf" and "\<forall>k \<in> set ks. 0 < k"
  shows "fd_write so buf sink (map Sys_Count ks @ es) = Some ((Inr (), sink @ buf), es)"
  by (rule fd_write_blocking[OF assms])

theorem fd_write_complete_witness:
  "fd_write None [1, 2, 3] [] (map Sys_Count [1, 2] @ []) = Some ((Inr (), [] @ [1, 2, 3]), [])"
  by (rule fd_write_complete) simp_all

text \<open>
  A write that would block is retried from the wrong place: \<^verbatim>\<open>ptr += count\<close> has already moved
  back by one. After \<open>k\<close> octets the octet before the boundary is sent twice.
\<close>

lemma fd_write_again_duplicates:
  assumes "0 < k" and "k < length buf" and "revents AND POLLERR = 0"
  shows "fd_write so buf sink (Sys_Count k # Sys_Fail EAGAIN # Sys_Poll POLLOUT False revents
       # Sys_Count (length buf - k + 1) # es)
    = Some ((Inr (), sink @ take k buf @ drop (k - 1) buf), es)"
  by (rule fd_write_again_later[OF assms])

theorem fd_write_again_duplicates_witness:
  "fd_write None [1, 2, 3] [] (Sys_Count 1 # Sys_Fail EAGAIN # Sys_Poll POLLOUT False POLLOUT
       # Sys_Count (length [1, 2, 3 :: octet] - 1 + 1) # [])
    = Some ((Inr (), [] @ take 1 [1, 2, 3] @ drop (1 - 1) [1, 2, 3]), [])"
  by (rule fd_write_again_duplicates) (simp_all add: POLLOUT_def POLLERR_def)

end
