(* ===== verification/Octet_Buffer.thy ===== *)
theory Octet_Buffer
  imports Octet_Stream File_Descriptor "HOL-Library.Sublist"
begin

text \<open>
  The buffering of \<^verbatim>\<open>octet_reader\<close> and \<^verbatim>\<open>octet_writer\<close> (\<^verbatim>\<open>horace/octet_reader.cc\<close>,
  \<^verbatim>\<open>horace/octet_writer.cc\<close>) over a source or sink that the derived class supplies through
  \<^verbatim>\<open>_read_direct\<close> and \<^verbatim>\<open>_write_direct\<close>. The lemmas show that the buffered operations refine the
  operations of \<open>Octet_Stream\<close> on the unread octets, and that a writer hands over exactly what
  was written to it, in order, or where the sink fails a prefix of it.
\<close>

section \<open>The reader\<close>

text \<open>
  \<open>buf_size\<close> is \<^verbatim>\<open>_limit - _buffer\<close> and \<open>unread\<close> the octets from \<^verbatim>\<open>_ptr\<close> to \<^verbatim>\<open>_end\<close>. The argument
  \<open>rd\<close> is \<^verbatim>\<open>_read_direct\<close>.
\<close>

record 'd octet_reader =
  buf_size :: nat
  unread :: octets
  source :: 'd

definition refill :: "(nat \<Rightarrow> ('d, octets) act) \<Rightarrow> ('d octet_reader, unit) act" where
  "refill rd r =
     (case rd (buf_size r) (source r) of
        (Inl e, d) \<Rightarrow> (Inl e, r\<lparr>source := d\<rparr>)
      | (Inr xs, d) \<Rightarrow>
          (if xs = [] then (Inl Eof_Error, r\<lparr>source := d\<rparr>)
           else (Inr (), r\<lparr>unread := xs, source := d\<rparr>)))"

definition reader_octet :: "(nat \<Rightarrow> ('d, octets) act) \<Rightarrow> ('d octet_reader, octet) act" where
  "reader_octet rd r =
     (case (if unread r = [] then refill rd r else (Inr (), r)) of
        (Inl e, r') \<Rightarrow> (Inl e, r')
      | (Inr _, r') \<Rightarrow> (Inr (hd (unread r')), r'\<lparr>unread := tl (unread r')\<rparr>))"

function reader_loop ::
  "(nat \<Rightarrow> ('d, octets) act) \<Rightarrow> nat \<Rightarrow> octets \<Rightarrow> ('d octet_reader, octets) act" where
  "reader_loop rd nbyte acc r =
     (if nbyte = 0 then (Inr acc, r)
      else if unread r \<noteq> [] then
        (let n = (if nbyte < length (unread r) then nbyte else length (unread r)) in
         reader_loop rd (nbyte - n) (acc @ take n (unread r)) (r\<lparr>unread := drop n (unread r)\<rparr>))
      else if buf_size r \<le> nbyte * 2 then
        (case rd nbyte (source r) of
           (Inl e, d) \<Rightarrow> (Inl e, r\<lparr>source := d\<rparr>)
         | (Inr xs, d) \<Rightarrow>
             (if xs = [] then (Inl Eof_Error, r\<lparr>source := d\<rparr>)
              else reader_loop rd (nbyte - length xs) (acc @ xs) (r\<lparr>source := d\<rparr>)))
      else
        (case refill rd r of
           (Inl e, r') \<Rightarrow> (Inl e, r')
         | (Inr _, r') \<Rightarrow> reader_loop rd nbyte acc r'))"
  by pat_completeness auto
termination
  by (relation "measure (\<lambda>(rd, nbyte, acc, r). 2 * nbyte + (if unread r = [] then 1 else 0))")
    (auto simp: refill_def Let_def length_greater_0_conv[symmetric] simp del: length_greater_0_conv
      split: if_splits prod.splits sum.splits)

declare reader_loop.simps [simp del]

definition reader_octets :: "(nat \<Rightarrow> ('d, octets) act) \<Rightarrow> nat \<Rightarrow> ('d octet_reader, octets) act" where
  "reader_octets rd nbyte r =
     (if nbyte \<le> length (unread r)
      then (Inr (take nbyte (unread r)), r\<lparr>unread := drop nbyte (unread r)\<rparr>)
      else reader_loop rd nbyte [] r)"

text \<open>
  The constructor with no buffer, the one over given octets, and the default \<^verbatim>\<open>_read_direct\<close>.
\<close>

definition empty_reader :: "unit octet_reader" where
  "empty_reader = \<lparr>buf_size = 0, unread = [], source = ()\<rparr>"

definition memory_reader :: "nat \<Rightarrow> octets \<Rightarrow> unit octet_reader" where
  "memory_reader sz xs = \<lparr>buf_size = sz, unread = xs, source = ()\<rparr>"

definition no_read_direct :: "nat \<Rightarrow> (unit, octets) act" where
  "no_read_direct n d = (Inl Eof_Error, d)"

section \<open>The writer\<close>

text \<open>
  \<open>wbuf\<close> is the content of the buffer, from \<^verbatim>\<open>_buffer\<close> to \<^verbatim>\<open>_ptr\<close>; \<open>wr\<close> is \<^verbatim>\<open>_write_direct\<close>. Writing an
  octet where there is no buffer stores through a null pointer.
\<close>

record 'd octet_writer =
  wbuf_size :: nat
  wbuf :: octets
  sink :: 'd

definition writer_flush :: "(octets \<Rightarrow> ('d, unit) act) \<Rightarrow> ('d octet_writer, unit) act" where
  "writer_flush wr w =
     (if wbuf w \<noteq> [] then
        (case wr (wbuf w) (sink w) of
           (Inl e, d) \<Rightarrow> (Inl e, w\<lparr>sink := d\<rparr>)
         | (Inr _, d) \<Rightarrow> (Inr (), w\<lparr>wbuf := [], sink := d\<rparr>))
      else (Inr (), w))"

definition writer_octet :: "(octets \<Rightarrow> ('d, unit) act) \<Rightarrow> octet \<Rightarrow> ('d octet_writer, unit) act" where
  "writer_octet wr b w =
     (case (if length (wbuf w) = wbuf_size w then writer_flush wr w else (Inr (), w)) of
        (Inl e, w') \<Rightarrow> (Inl e, w')
      | (Inr _, w') \<Rightarrow>
          (if wbuf_size w' = 0 then (Inl (Undefined_Behaviour ''null pointer''), w')
           else (Inr (), w'\<lparr>wbuf := wbuf w' @ [b]\<rparr>)))"

definition writer_octets_slow ::
  "(octets \<Rightarrow> ('d, unit) act) \<Rightarrow> octets \<Rightarrow> ('d octet_writer, unit) act" where
  "writer_octets_slow wr xs w =
     (if length xs \<le> wbuf_size w - length (wbuf w) then (Inr (), w\<lparr>wbuf := wbuf w @ xs\<rparr>)
      else (case writer_flush wr w of
          (Inl e, w') \<Rightarrow> (Inl e, w')
        | (Inr _, w') \<Rightarrow>
            (if wbuf_size w' - length (wbuf w') \<le> length xs * 2
             then (case wr xs (sink w') of (r, d) \<Rightarrow> (r, w'\<lparr>sink := d\<rparr>))
             else (Inr (), w'\<lparr>wbuf := wbuf w' @ xs\<rparr>))))"

definition writer_octets ::
  "(octets \<Rightarrow> ('d, unit) act) \<Rightarrow> octets \<Rightarrow> ('d octet_writer, unit) act" where
  "writer_octets wr xs w =
     (if length xs \<le> wbuf_size w - length (wbuf w) then (Inr (), w\<lparr>wbuf := wbuf w @ xs\<rparr>)
      else writer_octets_slow wr xs w)"

text \<open>
  What is written to an octet writer is a sequence of calls of \<^verbatim>\<open>write(char)\<close> and \<^verbatim>\<open>write(buf, nbyte)\<close>.
\<close>

datatype put = Put_Octet octet | Put_Octets octets

fun put_octets :: "put \<Rightarrow> octets" where
  "put_octets (Put_Octet b) = [b]"
| "put_octets (Put_Octets xs) = xs"

fun writer_put :: "(octets \<Rightarrow> ('d, unit) act) \<Rightarrow> put \<Rightarrow> ('d octet_writer, unit) act" where
  "writer_put wr (Put_Octet b) = writer_octet wr b"
| "writer_put wr (Put_Octets xs) = writer_octets wr xs"

fun writer_puts :: "(octets \<Rightarrow> ('d, unit) act) \<Rightarrow> put list \<Rightarrow> ('d octet_writer, unit) act" where
  "writer_puts wr [] w = (Inr (), w)"
| "writer_puts wr (p # ps) w =
     (case writer_put wr p w of
        (Inl e, w') \<Rightarrow> (Inl e, w')
      | (Inr _, w') \<Rightarrow> writer_puts wr ps w')"

definition no_write_direct :: "octets \<Rightarrow> (unit, unit) act" where
  "no_write_direct xs d = (Inl Eof_Error, d)"

section \<open>The interface to a source\<close>

text \<open>
  \<open>pending\<close> is what the source still has to give. A read of a positive number of octets gives at
  most that many, from the front, and none only at the end.
\<close>

locale octet_source =
  fixes rd :: "nat \<Rightarrow> ('d, octets) act"
    and pending :: "'d \<Rightarrow> octets"
  assumes rd_data: "rd n d = (Inr xs, d') \<Longrightarrow> pending d = xs @ pending d'"
    and rd_bound: "rd n d = (Inr xs, d') \<Longrightarrow> length xs \<le> n"
    and rd_end: "rd n d = (Inr [], d') \<Longrightarrow> 0 < n \<Longrightarrow> pending d = []"
    and rd_error: "rd n d = (Inl Eof_Error, d') \<Longrightarrow> pending d = []"
begin

definition unread_octets :: "'d octet_reader \<Rightarrow> octets" where
  "unread_octets r = unread r @ pending (source r)"

lemma refill_ok:
  "refill rd r = (Inr u, r') \<Longrightarrow> unread r = [] \<Longrightarrow>
     unread_octets r' = unread_octets r \<and> unread r' \<noteq> [] \<and> buf_size r' = buf_size r"
  by (auto simp: refill_def unread_octets_def split: prod.splits sum.splits if_splits dest: rd_data)

lemma refill_eof:
  "refill rd r = (Inl Eof_Error, r') \<Longrightarrow> 0 < buf_size r \<Longrightarrow> pending (source r) = []"
  by (auto simp: refill_def split: prod.splits sum.splits if_splits dest: rd_end rd_error)

lemma reader_octet_refines:
  assumes "reader_octet rd r = (Inr b, r')"
  shows "read_octet (unread_octets r) = Inr (b, unread_octets r')"
proof (cases "unread r")
  case Nil
  with assms obtain r1 where "refill rd r = (Inr (), r1)" "b = hd (unread r1)"
    "r' = r1\<lparr>unread := tl (unread r1)\<rparr>"
    by (auto simp: reader_octet_def split: prod.splits sum.splits)
  with refill_ok[OF this(1) Nil] show ?thesis
    by (cases "unread r1") (auto simp: unread_octets_def)
next
  case (Cons c cs)
  with assms show ?thesis
    by (auto simp: reader_octet_def unread_octets_def)
qed

lemma reader_octet_eof:
  assumes "reader_octet rd r = (Inl Eof_Error, r')" and "0 < buf_size r"
  shows "read_octet (unread_octets r) = Inl Eof_Error"
proof (cases "unread r")
  case Nil
  with assms have "refill rd r = (Inl Eof_Error, r')"
    by (auto simp: reader_octet_def split: prod.splits sum.splits)
  from refill_eof[OF this assms(2)] Nil show ?thesis
    by (simp add: unread_octets_def)
next
  case (Cons c cs)
  with assms show ?thesis
    by (simp add: reader_octet_def)
qed

lemma reader_loop_refines:
  "reader_loop rd nbyte acc r = (Inr xs, r') \<Longrightarrow>
     \<exists>ys. xs = acc @ ys \<and> length ys = nbyte \<and> unread_octets r = ys @ unread_octets r'"
proof (induction "2 * nbyte + (if unread r = [] then 1 else 0)" arbitrary: nbyte acc r rule: less_induct)
  case less
  note step = less.prems[unfolded reader_loop.simps[of rd nbyte acc r]]
  consider (none) "nbyte = 0" | (buffer) "0 < nbyte" "unread r \<noteq> []"
    | (direct) "0 < nbyte" "unread r = []" "buf_size r \<le> nbyte * 2"
    | (fill) "0 < nbyte" "unread r = []" "\<not> buf_size r \<le> nbyte * 2"
    by auto
  then show ?case
  proof cases
    case none
    with step show ?thesis
      by simp
  next
    case buffer
    define n where "n = (if nbyte < length (unread r) then nbyte else length (unread r))"
    have n: "0 < n" "n \<le> nbyte" "n \<le> length (unread r)"
      using buffer by (auto simp: n_def)
    have "2 * (nbyte - n) + 1 < 2 * nbyte"
      using n(1,2) by linarith
    then have meas: "2 * (nbyte - n) + (if unread (r\<lparr>unread := drop n (unread r)\<rparr>) = [] then 1 else 0)
        < 2 * nbyte + (if unread r = [] then 1 else 0)"
      by auto
    from step buffer have "reader_loop rd (nbyte - n) (acc @ take n (unread r))
        (r\<lparr>unread := drop n (unread r)\<rparr>) = (Inr xs, r')"
      by (simp add: n_def Let_def)
    from less.hyps[OF meas this] buffer n obtain ys where
      "xs = (acc @ take n (unread r)) @ ys" "length ys = nbyte - n"
      "unread_octets (r\<lparr>unread := drop n (unread r)\<rparr>) = ys @ unread_octets r'"
      by auto
    moreover have "unread_octets r = take n (unread r) @ unread_octets (r\<lparr>unread := drop n (unread r)\<rparr>)"
      by (simp add: unread_octets_def)
    ultimately show ?thesis
      using n by (intro exI[of _ "take n (unread r) @ ys"]) simp
  next
    case direct
    with step obtain zs d where zs: "rd nbyte (source r) = (Inr zs, d)" "zs \<noteq> []"
      and rec: "reader_loop rd (nbyte - length zs) (acc @ zs) (r\<lparr>source := d\<rparr>) = (Inr xs, r')"
      by (auto split: prod.splits sum.splits if_splits)
    have "length zs \<le> nbyte"
      by (rule rd_bound[OF zs(1)])
    with less.hyps[OF _ rec] direct zs(2) obtain ys where
      "xs = (acc @ zs) @ ys" "length ys = nbyte - length zs"
      "unread_octets (r\<lparr>source := d\<rparr>) = ys @ unread_octets r'"
      by (auto simp flip: length_greater_0_conv)
    with rd_data[OF zs(1)] direct \<open>length zs \<le> nbyte\<close> show ?thesis
      by (intro exI[of _ "zs @ ys"]) (simp add: unread_octets_def)
  next
    case fill
    with step obtain r1 where r1: "refill rd r = (Inr (), r1)"
      and rec: "reader_loop rd nbyte acc r1 = (Inr xs, r')"
      by (auto split: prod.splits sum.splits)
    from refill_ok[OF r1 fill(2)] less.hyps[OF _ rec] fill show ?thesis
      by simp
  qed
qed

lemma reader_octets_refines:
  assumes "reader_octets rd n r = (Inr xs, r')"
  shows "read_octets n (unread_octets r) = Inr (xs, unread_octets r')"
proof (cases "n \<le> length (unread r)")
  case True
  with assms show ?thesis
    by (auto simp: reader_octets_def read_octets_def unread_octets_def)
next
  case False
  with assms reader_loop_refines[of n "[]" r xs r'] show ?thesis
    by (simp add: reader_octets_def)
qed

lemma reader_loop_eof:
  "reader_loop rd nbyte acc r = (Inl Eof_Error, r') \<Longrightarrow> length (unread_octets r) < nbyte"
proof (induction "2 * nbyte + (if unread r = [] then 1 else 0)" arbitrary: nbyte acc r rule: less_induct)
  case less
  note step = less.prems[unfolded reader_loop.simps[of rd nbyte acc r]]
  consider (none) "nbyte = 0" | (buffer) "0 < nbyte" "unread r \<noteq> []"
    | (direct) "0 < nbyte" "unread r = []" "buf_size r \<le> nbyte * 2"
    | (fill) "0 < nbyte" "unread r = []" "\<not> buf_size r \<le> nbyte * 2"
    by auto
  then show ?case
  proof cases
    case none
    with step show ?thesis
      by simp
  next
    case buffer
    define n where "n = (if nbyte < length (unread r) then nbyte else length (unread r))"
    have n: "0 < n" "n \<le> nbyte" "n \<le> length (unread r)"
      using buffer by (auto simp: n_def)
    have "2 * (nbyte - n) + 1 < 2 * nbyte"
      using n(1,2) by linarith
    then have meas: "2 * (nbyte - n) + (if unread (r\<lparr>unread := drop n (unread r)\<rparr>) = [] then 1 else 0)
        < 2 * nbyte + (if unread r = [] then 1 else 0)"
      by auto
    from step buffer have "reader_loop rd (nbyte - n) (acc @ take n (unread r))
        (r\<lparr>unread := drop n (unread r)\<rparr>) = (Inl Eof_Error, r')"
      by (simp add: n_def Let_def)
    from less.hyps[OF meas this] buffer n show ?thesis
      by (auto simp: unread_octets_def)
  next
    case direct
    show ?thesis
    proof (cases "\<exists>zs d. rd nbyte (source r) = (Inr zs, d) \<and> zs \<noteq> []")
      case True
      with step direct obtain zs d where zs: "rd nbyte (source r) = (Inr zs, d)" "zs \<noteq> []"
        and rec: "reader_loop rd (nbyte - length zs) (acc @ zs) (r\<lparr>source := d\<rparr>) = (Inl Eof_Error, r')"
        by auto
      with less.hyps[OF _ rec] direct rd_bound[OF zs(1)] rd_data[OF zs(1)] show ?thesis
        by (auto simp: unread_octets_def simp flip: length_greater_0_conv)
    next
      case False
      with step direct have "pending (source r) = []"
        by (auto split: prod.splits sum.splits if_splits dest: rd_error rd_end)
      with direct show ?thesis
        by (simp add: unread_octets_def)
    qed
  next
    case fill
    show ?thesis
    proof (cases "fst (refill rd r)")
      case (Inl e)
      with step fill have "refill rd r = (Inl Eof_Error, r')"
        by (auto split: prod.splits)
      with refill_eof[OF this] fill show ?thesis
        by (simp add: unread_octets_def)
    next
      case (Inr u)
      with step fill obtain r1 where r1: "refill rd r = (Inr (), r1)"
        and rec: "reader_loop rd nbyte acc r1 = (Inl Eof_Error, r')"
        by (auto split: prod.splits)
      from refill_ok[OF r1 fill(2)] less.hyps[OF _ rec] fill show ?thesis
        by simp
    qed
  qed
qed

lemma reader_octets_eof:
  assumes "reader_octets rd n r = (Inl Eof_Error, r')"
  shows "read_octets n (unread_octets r) = Inl Eof_Error"
  using assms reader_loop_eof[of n "[]" r r']
  by (auto simp: reader_octets_def read_octets_def split: if_splits)

end

lemma writer_flush_size: "writer_flush wr w = (x, w') \<Longrightarrow> wbuf_size w' = wbuf_size w"
  by (auto simp: writer_flush_def split: if_splits prod.splits sum.splits)

lemma writer_octet_size: "writer_octet wr b w = (x, w') \<Longrightarrow> wbuf_size w' = wbuf_size w"
  by (auto simp: writer_octet_def dest!: writer_flush_size split: if_splits prod.splits sum.splits)

lemma writer_octets_size: "writer_octets wr xs w = (x, w') \<Longrightarrow> wbuf_size w' = wbuf_size w"
  by (auto simp: writer_octets_def writer_octets_slow_def dest!: writer_flush_size
      split: if_splits prod.splits sum.splits)

lemma writer_put_size: "writer_put wr p w = (x, w') \<Longrightarrow> wbuf_size w' = wbuf_size w"
  by (cases p) (auto dest: writer_octet_size writer_octets_size)

lemma writer_puts_size: "writer_puts wr ps w = (x, w') \<Longrightarrow> wbuf_size w' = wbuf_size w"
  by (induction ps arbitrary: w) (auto split: prod.splits sum.splits dest: writer_put_size)

text \<open>
  A property of the sink that every call of \<^verbatim>\<open>_write_direct\<close> keeps holds after any number of writes.
\<close>

lemma writer_flush_keeps:
  "(\<And>xs d. P (snd (wr xs d)) = P d) \<Longrightarrow> writer_flush wr w = (x, w') \<Longrightarrow> P (sink w') = P (sink w)"
  by (auto simp: writer_flush_def split: if_splits prod.splits sum.splits) (metis snd_conv)+

lemma writer_put_keeps:
  assumes "\<And>xs d. P (snd (wr xs d)) = P d" and "writer_put wr p w = (x, w')"
  shows "P (sink w') = P (sink w)"
proof -
  note flush = writer_flush_keeps[where P = P and wr = wr, OF assms(1)]
  have direct: "wr xs d = (y, d') \<Longrightarrow> P d' = P d" for xs d y d'
    using assms(1)[of xs d] by simp
  show ?thesis
    using assms(2) flush direct
    by (cases p) (auto simp: writer_octet_def writer_octets_def writer_octets_slow_def
        split: if_splits prod.splits sum.splits)
qed

lemma writer_puts_keeps:
  assumes "\<And>xs d. P (snd (wr xs d)) = P d"
  shows "writer_puts wr ps w = (x, w') \<Longrightarrow> P (sink w') = P (sink w)"
proof (induction ps arbitrary: w)
  case (Cons p ps)
  then show ?case
    using writer_put_keeps[where P = P and wr = wr, OF assms] by (auto split: prod.splits sum.splits)
qed simp

section \<open>The interface to a sink\<close>

text \<open>
  \<open>written\<close> is what has been handed over to a sink so far. While the sink is as \<open>ok\<close> says, a call of
  \<open>wr\<close> appends all of its octets, or fails after some of them.
\<close>

locale octet_sink =
  fixes wr :: "octets \<Rightarrow> ('d, unit) act"
    and written :: "'d \<Rightarrow> octets"
    and ok :: "'d \<Rightarrow> bool"
  assumes wr_data: "ok d \<Longrightarrow> wr xs d = (Inr (), d') \<Longrightarrow> written d' = written d @ xs"
    and wr_part: "ok d \<Longrightarrow> wr xs d = (Inl e, d') \<Longrightarrow> \<exists>ys. prefix ys xs \<and> written d' = written d @ ys"
    and wr_ok: "ok d \<Longrightarrow> wr xs d = (r, d') \<Longrightarrow> ok d'"
begin

definition handed_over :: "'d octet_writer \<Rightarrow> octets" where
  "handed_over w = written (sink w) @ wbuf w"

definition writer_ok :: "'d octet_writer \<Rightarrow> bool" where
  "writer_ok w \<longleftrightarrow> ok (sink w) \<and> length (wbuf w) \<le> wbuf_size w"

text \<open>
  A write of \<open>xs\<close> that took the writer from \<open>w\<close> to \<open>w'\<close>.
\<close>

definition wrote :: "unit result \<Rightarrow> octets \<Rightarrow> 'd octet_writer \<Rightarrow> 'd octet_writer \<Rightarrow> bool" where
  "wrote r xs w w' \<longleftrightarrow>
     (case r of
        Inr _ \<Rightarrow> writer_ok w' \<and> handed_over w' = handed_over w @ xs
          \<and> prefix (written (sink w)) (written (sink w'))
      | Inl e \<Rightarrow> \<exists>ys. prefix ys (wbuf w @ xs) \<and> written (sink w') = written (sink w) @ ys)"

lemma flush_ok:
  assumes "writer_flush wr w = (Inr u, w')" and "writer_ok w"
  shows "handed_over w' = handed_over w \<and> wbuf w' = [] \<and> wbuf_size w' = wbuf_size w
     \<and> written (sink w') = handed_over w \<and> writer_ok w'"
proof (cases "wbuf w = []")
  case True
  with assms show ?thesis
    by (simp add: writer_flush_def handed_over_def)
next
  case False
  with assms(1) obtain d where d: "wr (wbuf w) (sink w) = (Inr (), d)" "w' = w\<lparr>wbuf := [], sink := d\<rparr>"
    by (auto simp: writer_flush_def split: prod.splits sum.splits)
  with assms(2) wr_data[OF _ d(1)] wr_ok[OF _ d(1)] show ?thesis
    by (simp add: handed_over_def writer_ok_def)
qed

lemma flush_part:
  assumes "writer_flush wr w = (Inl e, w')" and "writer_ok w"
  shows "\<exists>ys. prefix ys (wbuf w) \<and> written (sink w') = written (sink w) @ ys"
  using assms by (auto simp: writer_flush_def writer_ok_def split: if_splits prod.splits sum.splits dest!: wr_part)

lemma writer_octet_wrote:
  assumes "writer_octet wr b w = (r, w')" and "writer_ok w"
  shows "wrote r [b] w w'"
proof (cases "length (wbuf w) = wbuf_size w")
  case True
  show ?thesis
  proof (cases "writer_flush wr w")
    case (Pair q w1)
    show ?thesis
    proof (cases q)
      case (Inl e)
      with True assms(1) Pair flush_part[of w e w1] assms(2) show ?thesis
        by (auto simp: writer_octet_def wrote_def intro: prefix_prefix)
    next
      case (Inr u)
      with True Pair assms(1) flush_ok[of w u w1] assms(2) show ?thesis
        by (auto simp: writer_octet_def wrote_def handed_over_def writer_ok_def split: if_splits)
    qed
  qed
next
  case False
  with assms show ?thesis
    by (auto simp: writer_octet_def wrote_def handed_over_def writer_ok_def split: if_splits)
qed

lemma writer_octets_wrote:
  assumes "writer_octets wr xs w = (r, w')" and "writer_ok w"
  shows "wrote r xs w w'"
proof (cases "length xs \<le> wbuf_size w - length (wbuf w)")
  case True
  with assms show ?thesis
    by (auto simp: writer_octets_def wrote_def handed_over_def writer_ok_def)
next
  case False
  then have slow: "writer_octets_slow wr xs w = (r, w')"
    using assms(1) by (simp add: writer_octets_def)
  show ?thesis
  proof (cases "writer_flush wr w")
    case (Pair q w1)
    show ?thesis
    proof (cases q)
      case (Inl e)
      with False slow Pair flush_part[of w e w1] assms(2) show ?thesis
        by (auto simp: writer_octets_slow_def wrote_def intro: prefix_prefix)
    next
      case (Inr u)
      with Pair have "writer_flush wr w = (Inr u, w1)"
        by simp
      note f = flush_ok[OF this assms(2)]
      show ?thesis
      proof (cases "wbuf_size w1 \<le> length xs * 2")
        case True
        with slow False Pair Inr f obtain d where d: "wr xs (sink w1) = (r, d)" "w' = w1\<lparr>sink := d\<rparr>"
          by (auto simp: writer_octets_slow_def split: prod.splits)
        with f wr_ok[OF _ d(1)] have "writer_ok w'"
          by (simp add: writer_ok_def)
        with d f wr_data[of "sink w1" xs d] wr_part[of "sink w1" xs _ d] show ?thesis
          by (cases r) (auto simp: wrote_def handed_over_def writer_ok_def)
      next
        case False
        with slow \<open>\<not> length xs \<le> wbuf_size w - length (wbuf w)\<close> Pair Inr f show ?thesis
          by (auto simp: writer_octets_slow_def wrote_def handed_over_def writer_ok_def)
      qed
    qed
  qed
qed

lemma writer_put_wrote:
  "writer_put wr p w = (r, w') \<Longrightarrow> writer_ok w \<Longrightarrow> wrote r (put_octets p) w w'"
  by (cases p) (auto intro: writer_octet_wrote writer_octets_wrote)

lemma writer_puts_wrote:
  "writer_puts wr ps w = (r, w') \<Longrightarrow> writer_ok w \<Longrightarrow> wrote r (concat (map put_octets ps)) w w'"
proof (induction ps arbitrary: w)
  case Nil
  then show ?case
    by (auto simp: wrote_def)
next
  case (Cons p ps)
  obtain q w1 where w1: "writer_put wr p w = (q, w1)"
    by fastforce
  note p = writer_put_wrote[OF w1 Cons.prems(2)]
  show ?case
  proof (cases q)
    case (Inl e)
    with Cons.prems(1) w1 p show ?thesis
      by (auto simp: wrote_def) (metis append.assoc prefix_prefix)
  next
    case (Inr u)
    with Cons.prems(1) w1 have rest: "writer_puts wr ps w1 = (r, w')"
      by simp
    from p Inr have ok: "writer_ok w1" "handed_over w1 = handed_over w @ put_octets p"
      and "prefix (written (sink w)) (written (sink w1))"
      by (simp_all add: wrote_def)
    then obtain zs where zs: "written (sink w1) = written (sink w) @ zs"
      by (auto simp: prefix_def)
    with ok(2) have part: "wbuf w @ put_octets p = zs @ wbuf w1"
      by (simp add: handed_over_def)
    from Cons.IH[OF rest ok(1)] show ?thesis
    proof (cases r)
      case (Inl e)
      with Cons.IH[OF rest ok(1)] obtain ys where ys: "prefix ys (wbuf w1 @ concat (map put_octets ps))"
        "written (sink w') = written (sink w1) @ ys"
        by (auto simp: wrote_def)
      have "prefix (zs @ ys) (zs @ wbuf w1 @ concat (map put_octets ps))"
        using ys(1) by simp
      also have "zs @ wbuf w1 @ concat (map put_octets ps) = wbuf w @ concat (map put_octets (p # ps))"
        using part by simp
      finally show ?thesis
        using ys(2) zs Inl by (auto simp: wrote_def)
    next
      case (Inr u)
      with Cons.IH[OF rest ok(1)] ok zs show ?thesis
        by (auto simp: wrote_def dest: append_prefixD)
    qed
  qed
qed

lemma writer_puts_ok:
  "writer_puts wr ps w = (Inr u, w') \<Longrightarrow> writer_ok w \<Longrightarrow>
     writer_ok w' \<and> handed_over w' = handed_over w @ concat (map put_octets ps)"
  using writer_puts_wrote[of ps w "Inr u" w'] by (simp add: wrote_def)

lemma writer_octets_ok:
  "writer_octets wr xs w = (Inr u, w') \<Longrightarrow> writer_ok w \<Longrightarrow>
     writer_ok w' \<and> handed_over w' = handed_over w @ xs"
  using writer_octets_wrote[of xs w "Inr u" w'] by (simp add: wrote_def)

end

section \<open>Sources and sinks of the program\<close>

text \<open>
  A reader over octets in memory has the default \<^verbatim>\<open>_read_direct\<close>. \<^verbatim>\<open>file_octet_reader\<close> calls
  \<^verbatim>\<open>file_descriptor::read\<close>; here the kernel has the pieces of a list ready, and answers a call
  for \<open>n\<close> octets with at most \<open>n\<close> octets from the front of the first piece.
\<close>

interpretation memory: octet_source no_read_direct "\<lambda>_. []"
  by unfold_locales (simp_all add: no_read_direct_def)

fun kernel_read :: "nat \<Rightarrow> octets list \<Rightarrow> octets \<times> octets list" where
  "kernel_read n [] = ([], [])"
| "kernel_read n (c # cs) = (if c = [] then kernel_read n cs else (take n c, drop n c # cs))"

definition file_read_direct :: "nat \<Rightarrow> (octets list, octets) act" where
  "file_read_direct n cs =
     (case fd_read [Sys_Data (fst (kernel_read n cs))] of
        Some (r, _) \<Rightarrow> (r, snd (kernel_read n cs))
      | None \<Rightarrow> (Inl Eof_Error, cs))"

lemma file_read_direct_eq: "file_read_direct n cs = (Inr (fst (kernel_read n cs)), snd (kernel_read n cs))"
  by (simp add: file_read_direct_def fd_read_def fd_receive.simps)

lemma kernel_read_spec:
  "concat cs = fst (kernel_read n cs) @ concat (snd (kernel_read n cs))
     \<and> length (fst (kernel_read n cs)) \<le> n
     \<and> (fst (kernel_read n cs) = [] \<longrightarrow> 0 < n \<longrightarrow> concat cs = [])"
  by (induction n cs rule: kernel_read.induct) (auto simp flip: append_assoc)

interpretation os_file: octet_source file_read_direct concat
proof
  show "concat d = xs @ concat d'" if "file_read_direct n d = (Inr xs, d')" for n d xs d'
    using that kernel_read_spec[of d n] by (auto simp: file_read_direct_eq)
  show "length xs \<le> n" if "file_read_direct n d = (Inr xs, d')" for n d xs d'
    using that kernel_read_spec[of d n] by (auto simp: file_read_direct_eq)
  show "concat d = []" if "file_read_direct n d = (Inr [], d')" "0 < n" for n d d'
    using that kernel_read_spec[of d n] unfolding file_read_direct_eq by (metis fst_conv sum.inject(2))
  show "concat d = []" if "file_read_direct n d = (Inl Eof_Error, d')" for n d d'
    using that by (simp add: file_read_direct_eq)
qed

text \<open>
  \<^verbatim>\<open>file_octet_writer\<close> calls \<^verbatim>\<open>file_descriptor::write\<close>. Behind the descriptor is what the kernel has taken
  of it so far, and its answers to the coming calls; where they end, it takes all of every further
  write. \<open>kf_error\<close> is the error that a wait would find and throw, if the descriptor is a socket. A list that does not fit the calls is no behaviour of the kernel, and marked.
\<close>

record kernel_file =
  kf_content :: octets
  kf_answers :: trace
  kf_error :: "nat option"

definition file_write_direct :: "octets \<Rightarrow> (kernel_file, unit) act" where
  "file_write_direct xs f =
     (case fd_write (kf_error f) xs (kf_content f) (kf_answers f @ [Sys_Count (length xs)]) of
        Some ((r, content), es) \<Rightarrow> (r, f\<lparr>kf_content := content, kf_answers := butlast es\<rparr>)
      | None \<Rightarrow> (Inl (Undefined_Behaviour ''answers''), f))"

definition blocking_file :: "kernel_file \<Rightarrow> bool" where
  "blocking_file f \<longleftrightarrow> list_all blocking_answer (kf_answers f)"

definition counting_file :: "kernel_file \<Rightarrow> bool" where
  "counting_file f \<longleftrightarrow> list_all count_answer (kf_answers f)"

lemma counting_is_blocking: "counting_file f \<Longrightarrow> blocking_file f"
  by (simp add: counting_file_def blocking_file_def count_is_blocking)

lemma file_write_direct_cases:
  assumes "blocking_file f"
  obtains r n f' where "file_write_direct xs f = (r, f')" and "kf_content f' = kf_content f @ take n xs"
    and "r = Inr () \<longrightarrow> length xs \<le> n" and "counting_file f \<longrightarrow> r = Inr ()"
    and "\<exists>as. kf_answers f = as @ kf_answers f'"
proof -
  have "\<exists>r n es'. fd_write (kf_error f) xs (kf_content f) (kf_answers f @ [Sys_Count (length xs)])
      = Some ((r, kf_content f @ take n xs), es')
    \<and> (r = Inr () \<longrightarrow> length xs \<le> n) \<and> (list_all count_answer (kf_answers f) \<longrightarrow> r = Inr ())
    \<and> (es' = [] \<or> (\<exists>as bs. es' = bs @ [Sys_Count (length xs)] \<and> kf_answers f = as @ bs))"
    using fd_write_loop_answers[of "kf_answers f" 0 "length xs" xs "kf_error f" "kf_content f"] assms
    by (simp add: fd_write_def blocking_file_def)
  then obtain r n es' where
    w: "fd_write (kf_error f) xs (kf_content f) (kf_answers f @ [Sys_Count (length xs)])
      = Some ((r, kf_content f @ take n xs), es')"
    "r = Inr () \<longrightarrow> length xs \<le> n" "list_all count_answer (kf_answers f) \<longrightarrow> r = Inr ()"
    "es' = [] \<or> (\<exists>as bs. es' = bs @ [Sys_Count (length xs)] \<and> kf_answers f = as @ bs)"
    by blast
  show ?thesis
  proof (rule that)
    show "file_write_direct xs f = (r, f\<lparr>kf_content := kf_content f @ take n xs, kf_answers := butlast es'\<rparr>)"
      by (simp add: file_write_direct_def w(1))
    show "\<exists>as. kf_answers f = as @ kf_answers (f\<lparr>kf_content := kf_content f @ take n xs, kf_answers := butlast es'\<rparr>)"
      using w(4) by auto
  qed (use w(2,3) in \<open>simp_all add: counting_file_def\<close>)
qed

lemma file_write_keeps_answers:
  assumes "blocking_file f" and "file_write_direct xs f = (r, f')"
  shows "blocking_file f'" and "counting_file f \<Longrightarrow> counting_file f'"
proof -
  obtain as where as: "kf_answers f = as @ kf_answers f'"
    using file_write_direct_cases[OF assms(1), of xs] assms(2) by (metis prod.inject)
  then show "blocking_file f'" and "counting_file f \<Longrightarrow> counting_file f'"
    using assms(1) by (simp_all add: blocking_file_def counting_file_def)
qed

interpretation os_file: octet_sink file_write_direct kf_content blocking_file
proof
  fix d xs d' assume ok: "blocking_file d" and w: "file_write_direct xs d = (Inr (), d')"
  obtain r n f' where f': "file_write_direct xs d = (r, f')" "kf_content f' = kf_content d @ take n xs"
    "r = Inr () \<longrightarrow> length xs \<le> n"
    by (rule file_write_direct_cases[OF ok, of xs]) blast
  with w show "kf_content d' = kf_content d @ xs"
    by simp
next
  fix d xs e d' assume ok: "blocking_file d" and w: "file_write_direct xs d = (Inl e, d')"
  obtain r n f' where f': "file_write_direct xs d = (r, f')" "kf_content f' = kf_content d @ take n xs"
    by (rule file_write_direct_cases[OF ok, of xs]) blast
  with w show "\<exists>ys. prefix ys xs \<and> kf_content d' = kf_content d @ ys"
    by (intro exI[of _ "take n xs"]) (simp add: take_is_prefix)
qed (rule file_write_keeps_answers(1))

interpretation no_sink: octet_sink no_write_direct "\<lambda>_. []" "\<lambda>_. True"
  by unfold_locales (auto simp: no_write_direct_def)

section \<open>Properties\<close>

text \<open>
  Reading through a buffer of any size from a descriptor gives the same octets as reading
  the stream directly, however the kernel cuts it into pieces, and fails at the end of the
  stream only where a direct read would.
\<close>

lemma buffered_read_refines:
  "case reader_octets file_read_direct n r of
     (Inr xs, r') \<Rightarrow> read_octets n (os_file.unread_octets r) = Inr (xs, os_file.unread_octets r')
   | (Inl e, r') \<Rightarrow> (if e = Eof_Error then read_octets n (os_file.unread_octets r) = Inl Eof_Error else True)"
  using os_file.reader_octets_refines[of n r] os_file.reader_octets_eof[of n r]
  by (auto split: prod.splits sum.splits)

text \<open>
  C21: any sequence of writes, of single octets and of blocks, through a buffer of any size to a
  descriptor that has not been made non-blocking loses, repeats and reorders nothing, however many
  octets the kernel takes at a time. If all of them succeed, what is in the file and then in the buffer
  is what was there before followed by what was written; if the kernel reports an error, what was added
  to the file is a prefix of that. (A write that would block is retried from the wrong place: for these
  answers see \<open>fd_write_again_duplicates\<close>.)
\<close>

theorem buffered_write_refines:
  assumes "writer_puts file_write_direct ps w = (r, w')" and "length (wbuf w) \<le> wbuf_size w"
    and "list_all blocking_answer (kf_answers (sink w))"
  shows "case r of
     Inr _ \<Rightarrow> kf_content (sink w') @ wbuf w' = kf_content (sink w) @ wbuf w @ concat (map put_octets ps)
   | Inl e \<Rightarrow> (\<exists>ys. prefix ys (wbuf w @ concat (map put_octets ps))
       \<and> kf_content (sink w') = kf_content (sink w) @ ys)"
proof -
  have "os_file.writer_ok w"
    using assms(2,3) by (simp add: os_file.writer_ok_def blocking_file_def)
  from os_file.writer_puts_wrote[OF assms(1) this] show ?thesis
    by (auto simp: os_file.wrote_def os_file.handed_over_def split: sum.splits)
qed

text \<open>
  A buffer of four octets over a file of two: the kernel takes one octet, none, and then all; or it
  reports that the disk is full after two.
\<close>

theorem buffered_write_refines_witness:
  "[1, 2, 3, 4, 5, 6, 7] @ [8] = [1, 2] @ [3 :: octet] @ concat (map put_octets [Put_Octet 4, Put_Octets [5, 6, 7], Put_Octet 8])
   \<and> (\<exists>ys. prefix ys ([3] @ concat (map put_octets [Put_Octets [4, 5, 6, 7 :: octet]])) \<and> [1, 2, 3, 4] = [1, 2] @ ys)"
proof -
  have "writer_puts file_write_direct [Put_Octet 4, Put_Octets [5, 6, 7], Put_Octet 8] \<lparr>wbuf_size = 4, wbuf = [3],
        sink = \<lparr>kf_content = [1, 2], kf_answers = [Sys_Count 1, Sys_Count 0], kf_error = None\<rparr>\<rparr>
      = (Inr (), \<lparr>wbuf_size = 4, wbuf = [8], sink = \<lparr>kf_content = [1, 2, 3, 4, 5, 6, 7], kf_answers = [], kf_error = None\<rparr>\<rparr>)"
    by code_simp
  from buffered_write_refines[OF this] have a:
    "[1, 2, 3, 4, 5, 6, 7] @ [8] = [1, 2] @ [3 :: octet] @ concat (map put_octets [Put_Octet 4, Put_Octets [5, 6, 7], Put_Octet 8])"
    by (simp add: blocking_answer_def)
  have "writer_puts file_write_direct [Put_Octets [4, 5, 6, 7]] \<lparr>wbuf_size = 4, wbuf = [3],
        sink = \<lparr>kf_content = [1, 2], kf_answers = [Sys_Count 2, Sys_Count 1, Sys_Fail 28], kf_error = None\<rparr>\<rparr>
      = (Inl (Libc_Error 28), \<lparr>wbuf_size = 4, wbuf = [], sink = \<lparr>kf_content = [1, 2, 3, 4], kf_answers = [], kf_error = None\<rparr>\<rparr>)"
    by code_simp
  from buffered_write_refines[OF this] a show ?thesis
    by (simp add: blocking_answer_def errno_constants)
qed

end
