(* ===== verification/Attribute.thy ===== *)
theory Attribute
  imports Octet_Stream "HOL-Library.Multiset"
begin

text \<open>
  Attributes and attribute lists (\<^verbatim>\<open>horace/attribute.h\<close>, the attribute classes and
  \<^verbatim>\<open>horace/attribute_list.cc\<close>): the data, the reserved identifiers, equality, the canonical
  order, insertion, search and the human-readable form. The lemmas show that equality is
  structural, that the canonical order is the documented one and a linear order, and that
  insertion builds the stable sort of what was inserted. Encoding is in \<open>Attribute_Codec\<close>.
\<close>

section \<open>Attributes\<close>

text \<open>
  One constructor per class; \<^verbatim>\<open>binary_attribute\<close> and \<^verbatim>\<open>binary_ref_attribute\<close> differ only in
  who owns the content, so both are \<open>Binary\<close>. Attribute identifiers are C++ \<^verbatim>\<open>int\<close>s.
\<close>

datatype attribute =
    Compound i32 "attribute list"
  | Unsigned_Integer i32 u64
  | Signed_Integer i32 i64
  | Binary i32 octets
  | String_Attr i32 string
  | Timestamp i32 i64 i64
  | Boolean i32 bool
  | Unrecognised i32 octets

fun attrid :: "attribute \<Rightarrow> i32" where
  "attrid (Compound i _) = i"
| "attrid (Unsigned_Integer i _) = i"
| "attrid (Signed_Integer i _) = i"
| "attrid (Binary i _) = i"
| "attrid (String_Attr i _) = i"
| "attrid (Timestamp i _ _) = i"
| "attrid (Boolean i _) = i"
| "attrid (Unrecognised i _) = i"

definition type_compound :: i32 where "type_compound = 0"
definition type_unsigned_integer :: i32 where "type_unsigned_integer = 1"
definition type_signed_integer :: i32 where "type_signed_integer = 2"
definition type_binary :: i32 where "type_binary = 3"
definition type_string :: i32 where "type_string = 4"
definition type_timestamp :: i32 where "type_timestamp = 5"
definition type_boolean :: i32 where "type_boolean = 6"

definition attrid_protocol :: i32 where "attrid_protocol = - 1"
definition attrid_attr_def :: i32 where "attrid_attr_def = - 2"
definition attrid_attr_id :: i32 where "attrid_attr_id = - 3"
definition attrid_attr_label :: i32 where "attrid_attr_label = - 4"
definition attrid_chan_def :: i32 where "attrid_chan_def = - 5"
definition attrid_chan_id :: i32 where "attrid_chan_id = - 6"
definition attrid_chan_label :: i32 where "attrid_chan_label = - 7"
definition attrid_type :: i32 where "attrid_type = - 8"
definition attrid_source :: i32 where "attrid_source = - 9"
definition attrid_seqnum :: i32 where "attrid_seqnum = - 10"
definition attrid_ts :: i32 where "attrid_ts = - 11"
definition attrid_time_system :: i32 where "attrid_time_system = - 12"
definition attrid_message :: i32 where "attrid_message = - 13"
definition attrid_hash :: i32 where "attrid_hash = - 14"
definition attrid_hash_alg :: i32 where "attrid_hash_alg = - 15"
definition attrid_sig :: i32 where "attrid_sig = - 16"
definition attrid_sig_alg :: i32 where "attrid_sig_alg = - 17"
definition attrid_sig_pubkey :: i32 where "attrid_sig_pubkey = - 18"

named_theorems wire_constants \<open>the reserved identifiers and content types\<close>

lemmas attrid_constants [wire_constants] =
  attrid_protocol_def attrid_attr_def_def attrid_attr_id_def attrid_attr_label_def
  attrid_chan_def_def attrid_chan_id_def attrid_chan_label_def attrid_type_def
  attrid_source_def attrid_seqnum_def attrid_ts_def attrid_time_system_def
  attrid_message_def attrid_hash_def attrid_hash_alg_def attrid_sig_def
  attrid_sig_alg_def attrid_sig_pubkey_def

lemmas type_constants [wire_constants] =
  type_compound_def type_unsigned_integer_def type_signed_integer_def type_binary_def
  type_string_def type_timestamp_def type_boolean_def

section \<open>Construction\<close>

text \<open>
  The constructors that can fail: a timestamp from seconds and nanoseconds, or from a
  \<^verbatim>\<open>timespec\<close>. Only the upper bound of the nanoseconds is tested.
\<close>

definition timestamp_attribute :: "i32 \<Rightarrow> i64 \<Rightarrow> i64 \<Rightarrow> attribute result" where
  "timestamp_attribute i sec nsec =
     (if 2000000000 \<le> sint nsec
      then Inl (Horace_Error ''invalid nsec field in timestamp attribute'')
      else Inr (Timestamp i sec nsec))"

section \<open>Equality\<close>

text \<open>
  The virtual \<^verbatim>\<open>operator==\<close>, one definition per class: the identifiers are compared first, then
  the dynamic type of the right-hand side is tested, then the contents. \<open>attr_list_eq\<close> and
  \<open>attr_list_prefix\<close> are \<^verbatim>\<open>operator==\<close> and \<^verbatim>\<open>operator<=\<close> on attribute lists.
\<close>

named_theorems leaf_defs \<open>the operations of the attribute classes without nested attributes\<close>

definition unsigned_integer_eq :: "i32 \<Rightarrow> u64 \<Rightarrow> attribute \<Rightarrow> bool" where [leaf_defs]:
  "unsigned_integer_eq i v b = (if i \<noteq> attrid b then False else
     (case b of Unsigned_Integer _ w \<Rightarrow> v = w | _ \<Rightarrow> False))"

definition signed_integer_eq :: "i32 \<Rightarrow> i64 \<Rightarrow> attribute \<Rightarrow> bool" where [leaf_defs]:
  "signed_integer_eq i v b = (if i \<noteq> attrid b then False else
     (case b of Signed_Integer _ w \<Rightarrow> v = w | _ \<Rightarrow> False))"

definition binary_eq :: "i32 \<Rightarrow> octets \<Rightarrow> attribute \<Rightarrow> bool" where [leaf_defs]:
  "binary_eq i xs b = (if i \<noteq> attrid b then False else
     (case b of Binary _ ys \<Rightarrow> (if length xs \<noteq> length ys then False else xs = ys) | _ \<Rightarrow> False))"

definition string_eq :: "i32 \<Rightarrow> string \<Rightarrow> attribute \<Rightarrow> bool" where [leaf_defs]:
  "string_eq i s b = (if i \<noteq> attrid b then False else
     (case b of String_Attr _ t \<Rightarrow> s = t | _ \<Rightarrow> False))"

definition timestamp_eq :: "i32 \<Rightarrow> i64 \<Rightarrow> i64 \<Rightarrow> attribute \<Rightarrow> bool" where [leaf_defs]:
  "timestamp_eq i s n b = (if i \<noteq> attrid b then False else
     (case b of Timestamp _ s' n' \<Rightarrow> s = s' \<and> n = n' | _ \<Rightarrow> False))"

definition boolean_eq :: "i32 \<Rightarrow> bool \<Rightarrow> attribute \<Rightarrow> bool" where [leaf_defs]:
  "boolean_eq i v b = (if i \<noteq> attrid b then False else
     (case b of Boolean _ w \<Rightarrow> v = w | _ \<Rightarrow> False))"

definition unrecognised_eq :: "i32 \<Rightarrow> octets \<Rightarrow> attribute \<Rightarrow> bool" where [leaf_defs]:
  "unrecognised_eq i xs b = (if i \<noteq> attrid b then False else
     (case b of Unrecognised _ ys \<Rightarrow> (if length xs \<noteq> length ys then False else xs = ys)
      | _ \<Rightarrow> False))"

fun attr_eq :: "attribute \<Rightarrow> attribute \<Rightarrow> bool"
  and attrs_match :: "attribute list \<Rightarrow> attribute list \<Rightarrow> bool" where
  "attr_eq (Compound i xs) b = (if i \<noteq> attrid b then False else
     (case b of Compound _ ys \<Rightarrow> (if length xs \<noteq> length ys then False else attrs_match xs ys)
      | _ \<Rightarrow> False))"
| "attr_eq (Unsigned_Integer i v) b = unsigned_integer_eq i v b"
| "attr_eq (Signed_Integer i v) b = signed_integer_eq i v b"
| "attr_eq (Binary i xs) b = binary_eq i xs b"
| "attr_eq (String_Attr i s) b = string_eq i s b"
| "attr_eq (Timestamp i s n) b = timestamp_eq i s n b"
| "attr_eq (Boolean i v) b = boolean_eq i v b"
| "attr_eq (Unrecognised i xs) b = unrecognised_eq i xs b"
| "attrs_match [] ys = True"
| "attrs_match (x # xs) [] = False"
| "attrs_match (x # xs) (y # ys) = (if \<not> attr_eq x y then False else attrs_match xs ys)"

definition attr_list_eq :: "attribute list \<Rightarrow> attribute list \<Rightarrow> bool" where
  "attr_list_eq xs ys = (if length xs \<noteq> length ys then False else attrs_match xs ys)"

definition attr_list_prefix :: "attribute list \<Rightarrow> attribute list \<Rightarrow> bool" where
  "attr_list_prefix xs ys = (if length ys < length xs then False else attrs_match xs ys)"

lemma attr_eq_iff: "attr_eq a b \<longleftrightarrow> a = b"
  and attrs_match_iff: "attrs_match xs ys \<longleftrightarrow> take (length xs) ys = xs"
proof (induction a b and xs ys rule: attr_eq_attrs_match.induct)
  case (1 i xs b)
  then show ?case
    by (cases b) auto
qed (auto simp: leaf_defs split: attribute.splits)

section \<open>The canonical order\<close>

text \<open>
  \<^verbatim>\<open>attrid_less\<close> maps an identifier to a 64-bit key whose unsigned order is the canonical one.
\<close>

definition order_key :: "i32 \<Rightarrow> u64" where
  "order_key i =
     (let ident = scast i :: u64 in - (ident XOR (drop_bit 1 (drop_bit 63 ident - 1))))"

definition attrid_less :: "attribute \<Rightarrow> attribute \<Rightarrow> bool" where
  "attrid_less l r \<longleftrightarrow> order_key (attrid l) < order_key (attrid r)"

section \<open>Attribute lists\<close>

text \<open>
  \<^verbatim>\<open>std::upper_bound\<close> gives the position of the first element that is greater than the new
  one. The vector of owned pointers only serves the destructor and is not modelled.
\<close>

definition attr_insert :: "attribute \<Rightarrow> attribute list \<Rightarrow> attribute list" where
  "attr_insert a as =
     takeWhile (\<lambda>x. \<not> attrid_less a x) as @ a # dropWhile (\<lambda>x. \<not> attrid_less a x) as"

fun attr_contains :: "i32 \<Rightarrow> attribute list \<Rightarrow> bool" where
  "attr_contains i [] = False"
| "attr_contains i (a # as) = (if attrid a = i then True else attr_contains i as)"

fun find_one_loop :: "i32 \<Rightarrow> attribute option \<Rightarrow> attribute list \<Rightarrow> attribute result" where
  "find_one_loop i found [] =
     (case found of
        None \<Rightarrow> Inl (Horace_Error (''expected attribute (ID='' @ dec_int (sint i) @ '')''))
      | Some a \<Rightarrow> Inr a)"
| "find_one_loop i found (a # as) =
     (if attrid a = i
      then (case found of
          Some _ \<Rightarrow>
            Inl (Horace_Error (''unexpected multiple attributes (ID='' @ dec_int (sint i) @ '')''))
        | None \<Rightarrow> find_one_loop i (Some a) as)
      else find_one_loop i found as)"

definition find_one :: "i32 \<Rightarrow> attribute list \<Rightarrow> attribute result" where
  "find_one i as = find_one_loop i None as"

text \<open>
  The \<^verbatim>\<open>dynamic_cast\<close> to a reference in \<^verbatim>\<open>find_one<T>\<close>, one function for each \<^verbatim>\<open>T\<close> in use.
\<close>

fun as_compound :: "attribute \<Rightarrow> attribute list result" where
  "as_compound (Compound _ as) = Inr as"
| "as_compound _ = Inl Bad_Cast"

fun as_unsigned_integer :: "attribute \<Rightarrow> u64 result" where
  "as_unsigned_integer (Unsigned_Integer _ v) = Inr v"
| "as_unsigned_integer _ = Inl Bad_Cast"

fun as_signed_integer :: "attribute \<Rightarrow> i64 result" where
  "as_signed_integer (Signed_Integer _ v) = Inr v"
| "as_signed_integer _ = Inl Bad_Cast"

fun as_string :: "attribute \<Rightarrow> string result" where
  "as_string (String_Attr _ s) = Inr s"
| "as_string _ = Inl Bad_Cast"

fun as_timestamp :: "attribute \<Rightarrow> (i64 \<times> i64) result" where
  "as_timestamp (Timestamp _ s n) = Inr (s, n)"
| "as_timestamp _ = Inl Bad_Cast"

fun as_binary :: "attribute \<Rightarrow> octets result" where
  "as_binary (Binary _ bs) = Inr bs"
| "as_binary _ = Inl Bad_Cast"

lemma as_attribute_eq_Inr [simp]:
  "as_compound a = Inr xs \<longleftrightarrow> (\<exists>i. a = Compound i xs)"
  "as_unsigned_integer a = Inr v \<longleftrightarrow> (\<exists>i. a = Unsigned_Integer i v)"
  "as_signed_integer a = Inr w \<longleftrightarrow> (\<exists>i. a = Signed_Integer i w)"
  "as_string a = Inr s \<longleftrightarrow> (\<exists>i. a = String_Attr i s)"
  "as_timestamp a = Inr ts \<longleftrightarrow> (\<exists>i. a = Timestamp i (fst ts) (snd ts))"
  "as_binary a = Inr bs \<longleftrightarrow> (\<exists>i. a = Binary i bs)"
  by (cases a; auto)+

section \<open>Human-readable form\<close>

text \<open>
  \<^verbatim>\<open>operator<<\<close> for attribute lists does not return the stream it is declared to return: using
  it, as a compound attribute does, is undefined.
\<close>

definition unsigned_integer_text :: "i32 \<Rightarrow> u64 \<Rightarrow> string" where [leaf_defs]:
  "unsigned_integer_text i v = ''attr'' @ dec_int (sint i) @ ''('' @ dec_nat (unat v) @ '')''"

definition signed_integer_text :: "i32 \<Rightarrow> i64 \<Rightarrow> string" where [leaf_defs]:
  "signed_integer_text i v = ''attr'' @ dec_int (sint i) @ ''('' @ dec_int (sint v) @ '')''"

definition binary_text :: "i32 \<Rightarrow> octets \<Rightarrow> string" where [leaf_defs]:
  "binary_text i bs = ''attr'' @ dec_int (sint i) @ ''('' @ concat (map hex_octet bs) @ '')''"

definition string_text :: "i32 \<Rightarrow> string \<Rightarrow> string" where [leaf_defs]:
  "string_text i s = ''attr'' @ dec_int (sint i) @ ''('' @ s @ '')''"

definition timestamp_text :: "i32 \<Rightarrow> i64 \<Rightarrow> i64 \<Rightarrow> string" where [leaf_defs]:
  "timestamp_text i s n = ''attr'' @ dec_int (sint i) @ ''('' @ dec_int (sint s) @ ''.''
     @ pad_left 9 (CHR ''0'') (dec_int (sint n)) @ '')''"

definition boolean_text :: "i32 \<Rightarrow> bool \<Rightarrow> string" where [leaf_defs]:
  "boolean_text i b = ''attr'' @ dec_int (sint i) @ ''('' @ (if b then ''1'' else ''0'') @ '')''"

definition unrecognised_text :: "i32 \<Rightarrow> octets \<Rightarrow> string" where [leaf_defs]:
  "unrecognised_text i bs = ''attr'' @ dec_int (sint i) @ ''('' @ concat (map hex_octet bs) @ '')''"

fun attr_text :: "attribute \<Rightarrow> string result" where
  "attr_text (Compound i as) = Inl (Undefined_Behaviour ''missing return'')"
| "attr_text (Unsigned_Integer i v) = Inr (unsigned_integer_text i v)"
| "attr_text (Signed_Integer i v) = Inr (signed_integer_text i v)"
| "attr_text (Binary i bs) = Inr (binary_text i bs)"
| "attr_text (String_Attr i s) = Inr (string_text i s)"
| "attr_text (Timestamp i s n) = Inr (timestamp_text i s n)"
| "attr_text (Boolean i b) = Inr (boolean_text i b)"
| "attr_text (Unrecognised i bs) = Inr (unrecognised_text i bs)"

section \<open>The canonical order is the documented one\<close>

lemma order_key_neg: "bit i 31 \<Longrightarrow> order_key i = - scast i"
proof -
  assume i: "bit i 31"
  then have "drop_bit 63 (scast i :: u64) = 1"
    by (intro bit_word_eqI) (auto simp: bit_simps min_def bit_1_iff dest: bit_imp_le_length)
  then show ?thesis
    by (simp add: order_key_def)
qed

lemma order_key_nonneg: "\<not> bit i 31 \<Longrightarrow> order_key i = 2 ^ 63 + 1 + ucast i"
proof -
  assume i: "\<not> bit i 31"
  have high: "n < 31" if "bit i n" for n
    using bit_imp_le_length[OF that] that i by (cases "n = 31") auto
  then have u: "(scast i :: u64) = ucast i"
    using i by (intro bit_word_eqI) (auto simp: bit_simps min_def dest: high)
  have "drop_bit 63 (ucast i :: u64) = 0"
    by (intro bit_word_eqI) (auto simp: bit_simps dest: bit_imp_le_length)
  moreover have "drop_bit 1 (0 - 1 :: u64) = mask 63"
    by (simp add: mask_eq_exp_minus_1)
  ultimately have "order_key i = - (ucast i XOR mask 63)"
    by (simp only: order_key_def u Let_def)
  moreover have "(ucast i :: u64) XOR mask 63 = mask 63 - ucast i"
  proof -
    have "(ucast i XOR mask 63) AND (ucast i :: u64) = 0"
      using i by (intro bit_word_eqI) (auto simp: bit_simps dest: bit_imp_le_length)
    then have "(ucast i XOR mask 63) + (ucast i :: u64) = (ucast i XOR mask 63) OR ucast i"
      by (rule disjunctive_add_eq_or)
    also have "\<dots> = mask 63"
      by (intro bit_word_eqI) (auto simp: bit_simps dest: bit_imp_le_length)
    finally show ?thesis
      by (simp add: eq_diff_eq)
  qed
  ultimately show ?thesis
    by (simp add: mask_eq_exp_minus_1)
qed

lemma i32_sign: "bit (i :: i32) 31 \<longleftrightarrow> sint i < 0"
  using bit_last_iff[of i] by simp

lemma i32_range: "- (2 ^ 31) \<le> sint (i :: i32)" "sint (i :: i32) < 2 ^ 31"
  using sint_greater_eq[of i] sint_less[of i] by simp_all

lemma scast_i32: "(scast (i :: i32) :: u64) = word_of_int (sint i)"
  by (rule scast_eq)

lemma uint_word_of_int_small: "0 \<le> k \<Longrightarrow> k < 2 ^ 64 \<Longrightarrow> uint (word_of_int k :: u64) = k"
  unfolding uint_word_of_int_eq by (rule take_bit_int_eq_self) simp_all

lemma uint_order_key:
  "uint (order_key i) = (if sint i < 0 then - sint i else 2 ^ 63 + 1 + sint i)"
proof (cases "sint i < 0")
  case True
  then have "order_key i = word_of_int (- sint i)"
    by (metis order_key_neg i32_sign scast_i32 of_int_minus)
  moreover have "uint (word_of_int (- sint i) :: u64) = - sint i"
    using True i32_range[of i] by (intro uint_word_of_int_small) simp_all
  ultimately show ?thesis
    using True by (simp only: if_True)
next
  case False
  then have "uint i = sint i"
    using i32_range[of i] unfolding uint_sint by (intro take_bit_int_eq_self) simp_all
  then have "(ucast i :: u64) = word_of_int (sint i)"
    by (simp add: ucast_eq)
  then have "order_key i = word_of_int (2 ^ 63 + 1 + sint i)"
    using False by (simp add: order_key_nonneg i32_sign)
  moreover have "uint (word_of_int (2 ^ 63 + 1 + sint i) :: u64) = 2 ^ 63 + 1 + sint i"
    using False i32_range[of i] by (intro uint_word_of_int_small) simp_all
  ultimately show ?thesis
    using False by (simp only: if_False)
qed

lemma attrid_less_iff:
  "attrid_less l r \<longleftrightarrow>
     (if sint (attrid l) < 0 then 0 \<le> sint (attrid r) \<or> sint (attrid r) < sint (attrid l)
      else 0 \<le> sint (attrid r) \<and> sint (attrid l) < sint (attrid r))"
  unfolding attrid_less_def word_less_def uint_order_key
  using i32_range[of "attrid l"] i32_range[of "attrid r"] by auto

lemma order_key_inject [simp]: "order_key i = order_key j \<longleftrightarrow> i = j"
proof
  assume "order_key i = order_key j"
  then have "uint (order_key i) = uint (order_key j)"
    by simp
  then have "sint i = sint j"
    unfolding uint_order_key using i32_range[of i] i32_range[of j] by (auto split: if_splits)
  then show "i = j"
    by (rule iffD2[OF word_eq_iff_signed])
qed simp

text \<open>
  Identifiers under the canonical order are a linear order of the library's class, so that its
  stable sort applies.
\<close>

datatype canonical = Canonical (canonical_id: i32)

instantiation canonical :: linorder
begin

definition less_eq_canonical :: "canonical \<Rightarrow> canonical \<Rightarrow> bool" where
  "less_eq_canonical a b \<longleftrightarrow> order_key (canonical_id a) \<le> order_key (canonical_id b)"

definition less_canonical :: "canonical \<Rightarrow> canonical \<Rightarrow> bool" where
  "less_canonical a b \<longleftrightarrow> order_key (canonical_id a) < order_key (canonical_id b)"

instance
  by standard (auto simp: less_eq_canonical_def less_canonical_def less_le intro: canonical.expand)

end

definition attr_key :: "attribute \<Rightarrow> canonical" where
  "attr_key a = Canonical (attrid a)"

lemma attrid_less_key: "attrid_less a b \<longleftrightarrow> attr_key a < attr_key b"
  by (simp add: attrid_less_def attr_key_def less_canonical_def)

section \<open>Insertion builds the stable sort\<close>

lemma set_attr_insert [simp]: "set (attr_insert a as) = insert a (set as)"
  unfolding attr_insert_def
  by (metis Un_insert_right list.simps(15) set_append takeWhile_dropWhile_id)

lemma mset_attr_insert: "mset (attr_insert a as) = add_mset a (mset as)"
  unfolding attr_insert_def
  by (metis mset.simps(2) mset_append takeWhile_dropWhile_id union_mset_add_mset_right)

lemma sorted_attr_insert:
  assumes "sorted (map attr_key as)"
  shows "sorted (map attr_key (attr_insert a as))"
  using assms
proof (induction as)
  case (Cons x as)
  show ?case
  proof (cases "attrid_less a x")
    case True
    with Cons.prems show ?thesis
      by (auto simp: attr_insert_def attrid_less_key)
  next
    case False
    with Cons have "sorted (map attr_key (x # attr_insert a as))"
      by (auto simp: attrid_less_key)
    with False show ?thesis
      by (simp add: attr_insert_def)
  qed
qed (simp add: attr_insert_def)

lemma filter_attr_insert:
  assumes "sorted (map attr_key as)"
  shows "filter (\<lambda>x. attr_key x = k) (attr_insert a as)
    = filter (\<lambda>x. attr_key x = k) (as @ [a])"
  using assms
proof (induction as)
  case (Cons x as)
  show ?case
  proof (cases "attrid_less a x")
    case True
    with Cons.prems have "\<forall>y \<in> set (x # as). attr_key a < attr_key y"
      by (auto simp: attrid_less_key)
    then have "filter (\<lambda>y. attr_key y = attr_key a) (x # as) = []"
      by (metis (mono_tags, lifting) filter_False order_less_irrefl)
    with True show ?thesis
      by (cases "k = attr_key a") (auto simp: attr_insert_def)
  next
    case False
    with Cons show ?thesis
      by (auto simp: attr_insert_def)
  qed
qed (simp add: attr_insert_def)

lemma attr_inserts_sort:
  "foldl (\<lambda>as a. attr_insert a as) [] xs = sort_key attr_key xs"
proof (induction xs rule: rev_induct)
  case (snoc a xs)
  let ?s = "sort_key attr_key xs"
  have "sort_key attr_key (xs @ [a]) = attr_insert a ?s"
  proof (rule properties_for_sort_key)
    show "mset (attr_insert a ?s) = mset (xs @ [a])"
      by (simp add: mset_attr_insert)
    show "sorted (map attr_key (attr_insert a ?s))"
      by (simp add: sorted_attr_insert)
    show "filter (\<lambda>x. attr_key k = attr_key x) (attr_insert a ?s)
        = filter (\<lambda>x. attr_key k = attr_key x) (xs @ [a])" if "k \<in> set (attr_insert a ?s)" for k
      using filter_attr_insert[of ?s "attr_key k" a] sort_key_stable[of attr_key "attr_key k" xs]
      by (simp add: eq_commute)
  qed
  with snoc show ?case
    by simp
qed simp

lemma attr_insert_last:
  "sorted (map attr_key (as @ [a])) \<Longrightarrow> attr_insert a as = as @ [a]"
  by (auto simp: attr_insert_def attrid_less_key sorted_append not_less
      takeWhile_eq_all_conv dropWhile_eq_Nil_conv)

section \<open>Search\<close>

lemma attr_contains_iff: "attr_contains i as \<longleftrightarrow> i \<in> attrid ` set as"
  by (induction as) auto

lemma find_one_loop_some:
  "find_one_loop i (Some a) as =
     (if attr_contains i as
      then Inl (Horace_Error (''unexpected multiple attributes (ID='' @ dec_int (sint i) @ '')''))
      else Inr a)"
  by (induction as) auto

lemma find_one_iff:
  "find_one i as = Inr a \<longleftrightarrow> filter (\<lambda>x. attrid x = i) as = [a]"
proof -
  have "find_one_loop i None as = Inr a \<longleftrightarrow> filter (\<lambda>x. attrid x = i) as = [a]"
    by (induction as) (auto simp: find_one_loop_some attr_contains_iff filter_empty_conv image_iff)
  then show ?thesis
    by (simp add: find_one_def)
qed

lemma find_one_Inl_iff:
  "(\<exists>e. find_one i as = Inl e) \<longleftrightarrow> length (filter (\<lambda>x. attrid x = i) as) \<noteq> 1"
proof -
  have "(\<exists>e. find_one i as = Inl e) \<longleftrightarrow> (\<nexists>a. find_one i as = Inr a)"
    by (metis Inl_Inr_False obj_sumE)
  then show ?thesis
    by (simp add: find_one_iff length_Suc_conv)
qed

lemma find_one_attrid: "find_one i as = Inr a \<Longrightarrow> attrid a = i \<and> a \<in> set as"
  unfolding find_one_iff by (metis (mono_tags, lifting) filter_eq_Cons_iff in_set_conv_decomp)

lemma find_one_ids:
  "find_one i as = Inr (Signed_Integer j v) \<Longrightarrow> j = i"
  "find_one i as = Inr (Unsigned_Integer j w) \<Longrightarrow> j = i"
  "find_one i as = Inr (String_Attr j s) \<Longrightarrow> j = i"
  "find_one i as = Inr (Timestamp j t n) \<Longrightarrow> j = i"
  "find_one i as = Inr (Binary j bs) \<Longrightarrow> j = i"
  by (auto dest: find_one_attrid)

lemma attr_insert_split: "\<exists>xs ys. as = xs @ ys \<and> attr_insert a as = xs @ a # ys"
  unfolding attr_insert_def by (metis takeWhile_dropWhile_id)

lemma find_one_insert_other: "attrid a \<noteq> i \<Longrightarrow> find_one i (attr_insert a as) = Inr b \<longleftrightarrow> find_one i as = Inr b"
  using attr_insert_split[of as a] by (auto simp: find_one_iff)

lemma find_one_insert_new:
  assumes "\<not> attr_contains (attrid a) as"
  shows "find_one (attrid a) (attr_insert a as) = Inr a"
proof -
  have "filter (\<lambda>x. attrid x = attrid a) as = []"
    using assms by (auto simp: attr_contains_iff filter_empty_conv image_iff eq_commute)
  with attr_insert_split[of as a] show ?thesis
    by (auto simp: find_one_iff)
qed

lemma attr_contains_insert [simp]:
  "attr_contains i (attr_insert a as) \<longleftrightarrow> attrid a = i \<or> attr_contains i as"
  by (auto simp: attr_contains_iff)

section \<open>Properties\<close>

text \<open>
  The order in which attributes are kept, and so written and hashed, is the documented one:
  negative identifiers come first, in descending order, then the others in ascending order.
\<close>

lemma attrid_less_documented:
  "attrid_less l r \<longleftrightarrow>
     (if sint (attrid l) < 0 then 0 \<le> sint (attrid r) \<or> sint (attrid r) < sint (attrid l)
      else 0 \<le> sint (attrid r) \<and> sint (attrid l) < sint (attrid r))"
  by (rule attrid_less_iff)

text \<open>
  C17: attribute lists are canonical: the same attributes with distinct identifiers give the same
  list in whatever order they are inserted, and looking one up in it finds exactly the
  attribute that was inserted under that identifier.
\<close>

theorem attr_insert_canonical:
  assumes "mset xs = mset ys" and "distinct (map attrid xs)"
  shows "foldl (\<lambda>as a. attr_insert a as) [] xs = foldl (\<lambda>as a. attr_insert a as) [] ys
    \<and> (\<forall>a \<in> set xs. find_one (attrid a) (foldl (\<lambda>as a. attr_insert a as) [] ys) = Inr a)"
proof -
  have inj: "inj_on attr_key (set xs)"
    using assms(2) by (auto simp: inj_on_def attr_key_def distinct_map)
  have sort: "sort_key attr_key xs = sort_key attr_key ys"
    by (rule sort_key_inj_key_eq) (use assms(1) inj in simp_all)
  have "filter (\<lambda>x. attrid x = attrid a) zs = [a]" if "a \<in> set zs" "distinct (map attrid zs)" for a zs
    using that by (induction zs) (auto simp: filter_empty_conv image_iff)
  moreover have "distinct (map attrid (sort_key attr_key xs))"
    using assms(2) by (simp add: distinct_map)
  ultimately have "find_one (attrid a) (sort_key attr_key xs) = Inr a" if "a \<in> set xs" for a
    using that by (simp add: find_one_iff)
  with sort show ?thesis
    by (simp add: attr_inserts_sort)
qed

theorem attr_insert_canonical_witness:
  "foldl (\<lambda>as a. attr_insert a as) [] [Boolean 3 True, Unsigned_Integer (- 2) 7]
    = foldl (\<lambda>as a. attr_insert a as) [] [Unsigned_Integer (- 2) 7, Boolean 3 True]
   \<and> find_one 3 (foldl (\<lambda>as a. attr_insert a as) [] [Unsigned_Integer (- 2) 7, Boolean 3 True])
    = Inr (Boolean 3 True)"
  using attr_insert_canonical[of "[Boolean 3 True, Unsigned_Integer (- 2) 7]"
      "[Unsigned_Integer (- 2) 7, Boolean 3 True]"] by simp

end
