(* ===== verification/Session_Context.thy ===== *)
theory Session_Context
  imports Attribute
begin

text \<open>
  The session context (\<^verbatim>\<open>horace/session_context.cc\<close>): the attribute and channel definitions a
  session has announced, the reserved ones, and the look-ups. The lemmas give what a look-up
  returns after a definition and that reserved identifiers cannot be redefined.
\<close>

section \<open>State\<close>

record session_context =
  attr_labels :: "i32 \<rightharpoonup> string"
  attr_types :: "i32 \<rightharpoonup> i32"
  chan_labels :: "i32 \<rightharpoonup> string"

definition new_session :: session_context where
  "new_session = \<lparr>attr_labels = Map.empty, attr_types = Map.empty, chan_labels = Map.empty\<rparr>"

definition channel_session :: i32 where "channel_session = - 1"
definition channel_end :: i32 where "channel_end = - 2"
definition channel_error :: i32 where "channel_error = - 3"
definition channel_warning :: i32 where "channel_warning = - 4"
definition channel_sync :: i32 where "channel_sync = - 5"
definition channel_signature :: i32 where "channel_signature = - 6"

lemmas channel_constants [wire_constants] =
  channel_session_def channel_end_def channel_error_def channel_warning_def
  channel_sync_def channel_signature_def

definition reserved_attr_labels :: "i32 \<rightharpoonup> string" where
  "reserved_attr_labels = map_of [
     (attrid_protocol, ''protocol''),
     (attrid_attr_def, ''attr_def''),
     (attrid_attr_id, ''attr_id''),
     (attrid_attr_label, ''attr_label''),
     (attrid_chan_def, ''chan_def''),
     (attrid_chan_id, ''chan_id''),
     (attrid_chan_label, ''chan_label''),
     (attrid_type, ''content_type''),
     (attrid_source, ''source''),
     (attrid_seqnum, ''seqnum''),
     (attrid_ts, ''ts''),
     (attrid_time_system, ''time_system''),
     (attrid_message, ''message''),
     (attrid_hash, ''hash''),
     (attrid_hash_alg, ''hash_alg''),
     (attrid_sig, ''hash_sig''),
     (attrid_sig_alg, ''hash_sig_alg''),
     (attrid_sig_pubkey, ''hash_sig_pubkey'')]"

definition reserved_attr_types :: "i32 \<rightharpoonup> i32" where
  "reserved_attr_types = map_of [
     (attrid_protocol, type_unsigned_integer),
     (attrid_attr_def, type_compound),
     (attrid_attr_id, type_signed_integer),
     (attrid_attr_label, type_string),
     (attrid_chan_def, type_compound),
     (attrid_chan_id, type_signed_integer),
     (attrid_chan_label, type_string),
     (attrid_type, type_unsigned_integer),
     (attrid_source, type_string),
     (attrid_seqnum, type_unsigned_integer),
     (attrid_ts, type_timestamp),
     (attrid_time_system, type_string),
     (attrid_message, type_string),
     (attrid_hash, type_binary),
     (attrid_hash_alg, type_string),
     (attrid_sig, type_binary),
     (attrid_sig_alg, type_string),
     (attrid_sig_pubkey, type_binary)]"

definition reserved_chan_labels :: "i32 \<rightharpoonup> string" where
  "reserved_chan_labels = map_of [
     (channel_error, ''error''),
     (channel_session, ''session''),
     (channel_sync, ''sync'')]"

section \<open>Definitions announced by the session\<close>

text \<open>
  The 64-bit identifiers and types are stored in maps keyed and valued by \<^verbatim>\<open>int\<close>: they are
  truncated to 32 bits. Nothing is stored unless all three attributes are found.
\<close>

definition handle_attr_def :: "attribute list \<Rightarrow> session_context \<Rightarrow> session_context result" where
  "handle_attr_def content s =
     bindE (bindE (find_one attrid_attr_id content) as_signed_integer) (\<lambda>ident.
     bindE (bindE (find_one attrid_attr_label content) as_string) (\<lambda>label.
     bindE (bindE (find_one attrid_type content) as_unsigned_integer) (\<lambda>ty.
       Inr (s\<lparr>attr_labels := (attr_labels s)(ucast ident \<mapsto> label),
              attr_types := (attr_types s)(ucast ident \<mapsto> ucast ty)\<rparr>))))"

definition handle_channel_def :: "attribute list \<Rightarrow> session_context \<Rightarrow> session_context result" where
  "handle_channel_def content s =
     bindE (bindE (find_one attrid_chan_id content) as_signed_integer) (\<lambda>chanid.
     bindE (bindE (find_one attrid_chan_label content) as_string) (\<lambda>label.
       Inr (s\<lparr>chan_labels := (chan_labels s)(ucast chanid \<mapsto> label)\<rparr>)))"

section \<open>Look-up\<close>

definition get_attr_label :: "session_context \<Rightarrow> i32 \<Rightarrow> string result" where
  "get_attr_label s i =
     (case (if sint i < 0 then reserved_attr_labels i else attr_labels s i) of
        Some l \<Rightarrow> Inr l
      | None \<Rightarrow> Inl (Horace_Error (''unrecognised attribute ID '' @ dec_int (sint i))))"

definition get_attr_type :: "session_context \<Rightarrow> i32 \<Rightarrow> i32 result" where
  "get_attr_type s i =
     (case (if sint i < 0 then reserved_attr_types i else attr_types s i) of
        Some t \<Rightarrow> Inr t
      | None \<Rightarrow> Inl (Horace_Error (''unrecognised attribute ID '' @ dec_int (sint i))))"

definition get_channel_label :: "session_context \<Rightarrow> i32 \<Rightarrow> string result" where
  "get_channel_label s i =
     (case (if sint i < 0 then reserved_chan_labels i else chan_labels s i) of
        Some l \<Rightarrow> Inr l
      | None \<Rightarrow> Inl (Horace_Error (''unrecognised channel ID'' @ dec_int (sint i))))"

section \<open>What a look-up returns\<close>

lemma reserved_ids_neg:
  "i \<in> dom reserved_attr_types \<Longrightarrow> sint i < 0"
  "i \<in> dom reserved_attr_labels \<Longrightarrow> sint i < 0"
  "i \<in> dom reserved_chan_labels \<Longrightarrow> sint i < 0"
  unfolding reserved_attr_types_def reserved_attr_labels_def reserved_chan_labels_def
  by (auto simp: wire_constants split: if_splits)

lemma reserved_doms: "dom reserved_attr_types = dom reserved_attr_labels"
  unfolding reserved_attr_types_def reserved_attr_labels_def by (auto split: if_splits)

lemma reserved_types [simp]:
  "get_attr_type s attrid_attr_def = Inr type_compound"
  "get_attr_type s attrid_chan_def = Inr type_compound"
  "get_attr_type s attrid_attr_id = Inr type_signed_integer"
  "get_attr_type s attrid_attr_label = Inr type_string"
  "get_attr_type s attrid_type = Inr type_unsigned_integer"
  "get_attr_type s attrid_chan_id = Inr type_signed_integer"
  "get_attr_type s attrid_chan_label = Inr type_string"
  by (simp_all add: get_attr_type_def reserved_attr_types_def wire_constants)

lemma handle_attr_def_Inr:
  "handle_attr_def content s = Inr s' \<longleftrightarrow> (\<exists>ident label ty.
     find_one attrid_attr_id content = Inr (Signed_Integer attrid_attr_id ident)
     \<and> find_one attrid_attr_label content = Inr (String_Attr attrid_attr_label label)
     \<and> find_one attrid_type content = Inr (Unsigned_Integer attrid_type ty)
     \<and> s' = s\<lparr>attr_labels := (attr_labels s)(ucast ident \<mapsto> label),
              attr_types := (attr_types s)(ucast ident \<mapsto> ucast ty)\<rparr>)"
  by (auto simp: handle_attr_def_def) (metis find_one_ids)+

lemma handle_channel_def_Inr:
  "handle_channel_def content s = Inr s' \<longleftrightarrow> (\<exists>chanid label.
     find_one attrid_chan_id content = Inr (Signed_Integer attrid_chan_id chanid)
     \<and> find_one attrid_chan_label content = Inr (String_Attr attrid_chan_label label)
     \<and> s' = s\<lparr>chan_labels := (chan_labels s)(ucast chanid \<mapsto> label)\<rparr>)"
  by (auto simp: handle_channel_def_def) (metis find_one_ids)+

lemmas lookup_defs = get_attr_type_def get_attr_label_def get_channel_label_def

lemma handle_attr_def_reserved:
  "handle_attr_def content s = Inr s' \<Longrightarrow> sint i < 0 \<Longrightarrow>
     get_attr_type s' i = get_attr_type s i \<and> get_attr_label s' i = get_attr_label s i"
  by (auto simp: handle_attr_def_Inr lookup_defs)

lemma handle_channel_def_attrs:
  "handle_channel_def content s = Inr s' \<Longrightarrow>
     get_attr_type s' i = get_attr_type s i \<and> get_attr_label s' i = get_attr_label s i"
  by (auto simp: handle_channel_def_Inr lookup_defs)

end
