(* ===== verification/Base128.thy ===== *)
theory Base128
  imports Octet_Stream
begin

text \<open>
  Variable-length integers: \<^verbatim>\<open>unsigned_base128_integer\<close> and
  \<^verbatim>\<open>signed_base128_integer\<close> (\<^verbatim>\<open>horace/*_base128_integer.cc\<close>), and the reading functions
  \<^verbatim>\<open>octet_reader::read_unsigned_base128\<close> and \<^verbatim>\<open>read_signed_base128\<close>. The lemmas give the
  round trips, the minimal length, where the three decoders of each kind agree, and the values for
  which the length loop shifts past the width of the word or a decoder shifts a negative number.
\<close>

section \<open>Unsigned: the constructor from a value\<close>

record ub128 =
  ub_value :: u64
  ub_length :: nat

function ub128_length_loop :: "u64 \<Rightarrow> nat \<Rightarrow> nat \<Rightarrow> nat result" where
  "ub128_length_loop v sz len =
     (if 64 \<le> sz then Inl (Undefined_Behaviour ''shift'')
      else if drop_bit sz v \<noteq> 0 then ub128_length_loop v (sz + 7) (len + 1)
      else Inr len)"
  by pat_completeness auto
termination
  by (relation "measure (\<lambda>(v, sz, len). 64 - sz)") auto

declare ub128_length_loop.simps [simp del]

definition ub128_of_value :: "u64 \<Rightarrow> ub128 result" where
  "ub128_of_value v =
     bindE (ub128_length_loop v 7 1) (\<lambda>n. Inr \<lparr>ub_value = v, ub_length = n\<rparr>)"

text \<open>
  The octets of a write: a continuation octet for each 7-bit group above the last, then the
  last group with the continuation bit clear.
\<close>

fun base128_octets :: "u64 \<Rightarrow> nat \<Rightarrow> octets" where
  "base128_octets v 0 = [ucast (v AND 0x7f)]"
| "base128_octets v (Suc k) =
     (0x80 OR ucast (drop_bit (7 * Suc k) v AND 0x7f)) # base128_octets v k"

definition ub128_write :: "ub128 \<Rightarrow> octets result" where
  "ub128_write u =
     (if ub_length u \<le> 10 then Inr (base128_octets (ub_value u) (ub_length u - 1))
      else Inl (Undefined_Behaviour ''shift''))"

section \<open>Unsigned: reading\<close>

fun read_ub128_loop :: "u64 \<Rightarrow> octet \<Rightarrow> octets \<Rightarrow> (u64 \<times> octets) result" where
  "read_ub128_loop r b bs =
     (if b AND 0x80 = 0 then Inr (r, bs)
      else if drop_bit 57 r \<noteq> 0 then Inl (Runtime_Error ''integer overflow'')
      else bindE (read_octet bs) (\<lambda>(c, cs).
        read_ub128_loop (push_bit 7 r OR ucast (c AND 0x7f)) c cs))"

fun read_ub128_count_loop ::
  "u64 \<Rightarrow> octet \<Rightarrow> nat \<Rightarrow> octets \<Rightarrow> ((u64 \<times> nat) \<times> octets) result" where
  "read_ub128_count_loop r b n bs =
     (if b AND 0x80 = 0 then Inr ((r, n), bs)
      else if drop_bit 57 r \<noteq> 0 then Inl (Runtime_Error ''integer overflow'')
      else bindE (read_octet bs) (\<lambda>(c, cs).
        read_ub128_count_loop (push_bit 7 r OR ucast (c AND 0x7f)) c (n + 1) cs))"

declare read_ub128_loop.simps [simp del] read_ub128_count_loop.simps [simp del]

definition read_unsigned_base128 :: "octets \<Rightarrow> (u64 \<times> octets) result" where
  "read_unsigned_base128 bs =
     bindE (read_octet bs) (\<lambda>(b, bs'). read_ub128_loop (ucast (b AND 0x7f)) b bs')"

definition read_unsigned_base128_count ::
  "nat \<Rightarrow> octets \<Rightarrow> ((u64 \<times> nat) \<times> octets) result" where
  "read_unsigned_base128_count count bs =
     bindE (read_octet bs) (\<lambda>(b, bs').
       read_ub128_count_loop (ucast (b AND 0x7f)) b (count + 1) bs')"

definition ub128_read :: "octets \<Rightarrow> (ub128 \<times> octets) result" where
  "ub128_read bs =
     bindE (read_octet bs) (\<lambda>(b, bs').
       bindE (read_ub128_count_loop (ucast (b AND 0x7f)) b 1 bs') (\<lambda>((v, n), bs'').
         Inr (\<lparr>ub_value = v, ub_length = n\<rparr>, bs'')))"

section \<open>Signed: the constructor from a value\<close>

record sb128 =
  sb_tcvalue :: u64
  sb_length :: nat

function sb128_length_loop :: "u64 \<Rightarrow> nat \<Rightarrow> nat \<Rightarrow> nat result" where
  "sb128_length_loop d sz len =
     (if 64 \<le> sz then Inl (Undefined_Behaviour ''shift'')
      else if drop_bit sz d \<noteq> 0 then sb128_length_loop d (sz + 7) (len + 1)
      else Inr len)"
  by pat_completeness auto
termination
  by (relation "measure (\<lambda>(d, sz, len). 64 - sz)") auto

declare sb128_length_loop.simps [simp del]

definition sb128_of_value :: "i64 \<Rightarrow> sb128 result" where
  "sb128_of_value v =
     (let d = (if bit v 63 then NOT v else v) in
      bindE (sb128_length_loop d 6 1) (\<lambda>n. Inr \<lparr>sb_tcvalue = v, sb_length = n\<rparr>))"

definition sb128_value :: "sb128 \<Rightarrow> i64" where
  "sb128_value s =
     (let value = sb_tcvalue s AND 0x7fffffffffffffff in
      if sb_tcvalue s AND 0x8000000000000000 \<noteq> 0 then value + 0x8000000000000000 else value)"

definition sb128_write :: "sb128 \<Rightarrow> octets" where
  "sb128_write s =
     replicate (sb_length s - 9)
       (if sb_tcvalue s AND 0x8000000000000000 \<noteq> 0 then 0xff else 0x80)
     @ base128_octets (sb_tcvalue s) (min (sb_length s) 9 - 1)"

section \<open>Signed: reading\<close>

text \<open>
  The functions of \<^verbatim>\<open>octet_reader\<close> collect the value in an \<^verbatim>\<open>int64_t\<close>, whose left shift is undefined
  up to C++17 when it is negative; the class collects it in a \<^verbatim>\<open>uint64_t\<close>.
\<close>

fun read_sb128_loop :: "i64 \<Rightarrow> octet \<Rightarrow> octets \<Rightarrow> (i64 \<times> octets) result" where
  "read_sb128_loop r b bs =
     (if b AND 0x80 = 0 then Inr (r, bs)
      else if signed_drop_bit 1 (signed_drop_bit 56 r + 1) \<noteq> 0
      then Inl (Runtime_Error ''integer overflow'')
      else if bit r 63 then Inl (Undefined_Behaviour ''shift'')
      else bindE (read_octet bs) (\<lambda>(c, cs).
        read_sb128_loop (push_bit 7 r OR ucast (c AND 0x7f)) c cs))"

fun read_sb128_count_loop ::
  "i64 \<Rightarrow> octet \<Rightarrow> nat \<Rightarrow> octets \<Rightarrow> ((i64 \<times> nat) \<times> octets) result" where
  "read_sb128_count_loop r b n bs =
     (if b AND 0x80 = 0 then Inr ((r, n), bs)
      else if signed_drop_bit 1 (signed_drop_bit 56 r + 1) \<noteq> 0
      then Inl (Runtime_Error ''integer overflow'')
      else if bit r 63 then Inl (Undefined_Behaviour ''shift'')
      else bindE (read_octet bs) (\<lambda>(c, cs).
        read_sb128_count_loop (push_bit 7 r OR ucast (c AND 0x7f)) c (n + 1) cs))"

fun sb128_read_loop ::
  "u64 \<Rightarrow> octet \<Rightarrow> nat \<Rightarrow> octets \<Rightarrow> ((u64 \<times> nat) \<times> octets) result" where
  "sb128_read_loop r b n bs =
     (if b AND 0x80 = 0 then Inr ((r, n), bs)
      else if (drop_bit 56 r + 1) AND 0xfe \<noteq> 0
      then Inl (Runtime_Error ''integer overflow'')
      else bindE (read_octet bs) (\<lambda>(c, cs).
        sb128_read_loop (push_bit 7 r OR ucast (c AND 0x7f)) c (n + 1) cs))"

declare read_sb128_loop.simps [simp del] read_sb128_count_loop.simps [simp del]
  sb128_read_loop.simps [simp del]

definition read_signed_base128 :: "octets \<Rightarrow> (i64 \<times> octets) result" where
  "read_signed_base128 bs =
     bindE (read_octet bs) (\<lambda>(b, bs').
       read_sb128_loop (ucast (b AND 0x3f) - ucast (b AND 0x40)) b bs')"

definition read_signed_base128_count ::
  "nat \<Rightarrow> octets \<Rightarrow> ((i64 \<times> nat) \<times> octets) result" where
  "read_signed_base128_count count bs =
     bindE (read_octet bs) (\<lambda>(b, bs').
       read_sb128_count_loop (ucast (b AND 0x3f) - ucast (b AND 0x40)) b (count + 1) bs')"

definition sb128_read :: "octets \<Rightarrow> (sb128 \<times> octets) result" where
  "sb128_read bs =
     bindE (read_octet bs) (\<lambda>(b, bs').
       bindE (sb128_read_loop (ucast (b AND 0x3f) - ucast (b AND 0x40)) b 1 bs')
         (\<lambda>((v, n), bs''). Inr (\<lparr>sb_tcvalue = v, sb_length = n\<rparr>, bs'')))"

section \<open>What the length loops compute\<close>

lemma ub128_length_loop_sound:
  "ub128_length_loop v sz len = Inr n \<Longrightarrow>
     len \<le> n \<and> sz + 7 * (n - len) < 64 \<and> drop_bit (sz + 7 * (n - len)) v = 0
     \<and> (len < n \<longrightarrow> drop_bit (sz + 7 * (n - 1 - len)) v \<noteq> 0)"
proof (induction v sz len rule: ub128_length_loop.induct)
  case (1 v sz len)
  show ?case
  proof (cases "sz < 64 \<and> drop_bit sz v \<noteq> 0")
    case True
    with "1.prems" have rec: "ub128_length_loop v (sz + 7) (len + 1) = Inr n"
      by (simp add: ub128_length_loop.simps[of v sz len])
    from True have "\<not> 64 \<le> sz" and "drop_bit sz v \<noteq> 0"
      by auto
    from "1.IH"[OF this rec] have IH: "len + 1 \<le> n"
      "sz + 7 + 7 * (n - (len + 1)) < 64" "drop_bit (sz + 7 + 7 * (n - (len + 1))) v = 0"
      "len + 1 < n \<longrightarrow> drop_bit (sz + 7 + 7 * (n - 1 - (len + 1))) v \<noteq> 0"
      by auto
    obtain m where "n = len + 1 + m"
      using IH(1) by (metis le_Suc_ex)
    with IH True show ?thesis
      by (cases m) (auto simp: algebra_simps)
  next
    case False
    with "1.prems" show ?thesis
      by (auto simp: ub128_length_loop.simps[of v sz len] split: if_splits)
  qed
qed

lemma sb128_length_loop_eq: "sb128_length_loop d sz len = ub128_length_loop d sz len"
proof (induction d sz len rule: sb128_length_loop.induct)
  case (1 d sz len)
  then show ?case
    by (simp add: sb128_length_loop.simps[of d sz len] ub128_length_loop.simps[of d sz len])
qed

lemma ub128_length_loop_total:
  assumes "drop_bit (sz + 7 * m) v = 0" and "sz + 7 * m < 64"
  shows "\<exists>n. ub128_length_loop v sz len = Inr n"
  using assms
proof (induction m arbitrary: sz len)
  case 0
  then show ?case
    by (simp add: ub128_length_loop.simps)
next
  case (Suc m)
  then have "\<exists>n. ub128_length_loop v (sz + 7) (len + 1) = Inr n"
    by (intro Suc.IH) (simp_all add: algebra_simps)
  with Suc.prems show ?case
    by (subst ub128_length_loop.simps) auto
qed

section \<open>Round trips\<close>

lemma base128_step:
  "push_bit 7 (drop_bit (7 * Suc n) v) OR ucast (ucast (drop_bit (7 * n) v AND 0x7f) AND 0x7f :: octet)
     = (drop_bit (7 * n) v :: u64)"
proof (rule bit_word_eqI)
  fix m assume m: "m < LENGTH(64)"
  show "bit (push_bit 7 (drop_bit (7 * Suc n) v)
      OR ucast (ucast (drop_bit (7 * n) v AND 0x7f) AND 0x7f :: octet)) m = bit (drop_bit (7 * n) v) m"
  proof (cases "m < 7")
    case True
    then show ?thesis
      using m by (auto simp: bit_simps mask_bits)
  next
    case False
    then obtain k where "m = 7 + k"
      by (metis le_Suc_ex not_less)
    then show ?thesis
      using m by (auto simp: bit_simps mask_bits ac_simps)
  qed
qed

lemma base128_octet_masks [simp]:
  "(0x80 OR b :: octet) AND 0x80 \<noteq> 0"
  "(0x80 OR b :: octet) AND 0x7f = b AND 0x7f"
  "(ucast (w AND 0x7f :: u64) :: octet) AND 0x80 = 0"
  "(0x80 OR b :: octet) AND 0x3f = b AND 0x3f"
  "(0x80 OR b :: octet) AND 0x40 = b AND 0x40"
proof -
  show "(0x80 OR b :: octet) AND 0x80 \<noteq> 0" and "(ucast (w AND 0x7f :: u64) :: octet) AND 0x80 = 0"
    by (simp_all add: and_0x80_eq_0 bit_simps mask_bits)
  show "(0x80 OR b :: octet) AND 0x7f = b AND 0x7f" and "(0x80 OR b :: octet) AND 0x3f = b AND 0x3f"
    and "(0x80 OR b :: octet) AND 0x40 = b AND 0x40"
    by (rule bit_word_eqI, auto simp: bit_simps mask_bits)+
qed

lemma drop_bit_64 [simp]: "64 \<le> n \<Longrightarrow> drop_bit n (v :: u64) = 0"
  by (rule bit_word_eqI) (auto simp: bit_simps dest: bit_imp_le_length)

lemma read_ub128_count_loop_octets:
  assumes "b AND 0x80 \<noteq> 0"
  shows "read_ub128_count_loop (drop_bit (7 * Suc k) v) b n (base128_octets v k @ rest)
    = Inr ((v, n + Suc k), rest)"
  using assms
proof (induction k arbitrary: b n)
  case 0
  with base128_step[of 0 v] show ?case
    by (subst read_ub128_count_loop.simps) (simp add: read_ub128_count_loop.simps)
next
  case (Suc k)
  let ?c = "0x80 OR ucast (drop_bit (7 * Suc k) v AND 0x7f) :: octet"
  have "drop_bit 57 (drop_bit (7 * Suc (Suc k)) v) = 0"
    by simp
  with Suc.prems have "read_ub128_count_loop (drop_bit (7 * Suc (Suc k)) v) b n
      (base128_octets v (Suc k) @ rest)
    = read_ub128_count_loop (push_bit 7 (drop_bit (7 * Suc (Suc k)) v) OR ucast (?c AND 0x7f))
        ?c (n + 1) (base128_octets v k @ rest)"
    by (subst read_ub128_count_loop.simps) simp
  also have "push_bit 7 (drop_bit (7 * Suc (Suc k)) v) OR ucast (?c AND 0x7f) = drop_bit (7 * Suc k) v"
    using base128_step[of "Suc k" v] by simp
  finally show ?case
    using Suc.IH[of ?c "n + 1"] by simp
qed

lemma first_group:
  assumes "drop_bit (7 * k + 7) v = 0"
  shows "ucast (ucast (drop_bit (7 * k) v AND 0x7f) AND 0x7f :: octet) = (drop_bit (7 * k) v :: u64)"
  using base128_step[of k v] assms by (simp add: algebra_simps)

lemma read_ub128_count_octets:
  assumes "drop_bit (7 * k + 7) v = 0"
  shows "read_unsigned_base128_count n (base128_octets v k @ rest) = Inr ((v, n + k + 1), rest)"
proof (cases k)
  case 0
  with first_group[OF assms] show ?thesis
    by (simp add: read_unsigned_base128_count_def read_ub128_count_loop.simps)
next
  case (Suc j)
  let ?c = "0x80 OR ucast (drop_bit (7 * Suc j) v AND 0x7f) :: octet"
  have "ucast (?c AND 0x7f) = drop_bit (7 * Suc j) v"
    using first_group[OF assms] Suc by simp
  with Suc show ?thesis
    using read_ub128_count_loop_octets[of ?c j v "n + 1" rest]
    by (simp add: read_unsigned_base128_count_def)
qed

section \<open>The decoders agree\<close>

lemma read_ub128_loop_eq:
  "read_ub128_loop r b bs =
     bindE (read_ub128_count_loop r b n bs) (\<lambda>((v, m), bs'). Inr (v, bs'))"
proof (induction r b bs arbitrary: n rule: read_ub128_loop.induct)
  case (1 r b bs)
  show ?case
    by (cases bs)
      (use "1.IH" in \<open>auto simp: read_ub128_loop.simps[of r b] read_ub128_count_loop.simps[of r b]\<close>)
qed

lemma read_sb128_loop_eq:
  "read_sb128_loop r b bs =
     bindE (read_sb128_count_loop r b n bs) (\<lambda>((v, m), bs'). Inr (v, bs'))"
proof (induction r b bs arbitrary: n rule: read_sb128_loop.induct)
  case (1 r b bs)
  show ?case
    by (cases bs)
      (use "1.IH" in \<open>auto simp: read_sb128_loop.simps[of r b] read_sb128_count_loop.simps[of r b]\<close>)
qed

lemma octet_plus_1_masked:
  "((ucast (b :: octet) + 1 :: u64) AND 0xfe = 0) \<longleftrightarrow> b = 0 \<or> b = 255"
proof -
  have all: "list_all (\<lambda>n. (((of_nat n :: u64) + 1) AND 0xfe = 0) = (n = 0 \<or> n = 255)) [0..<256]"
    by code_simp
  have "unat b < 256"
    by (rule unat_octet_lt)
  with all have "(((of_nat (unat b) :: u64) + 1) AND 0xfe = 0) = (unat b = 0 \<or> unat b = 255)"
    unfolding list_all_iff by (metis atLeastLessThan_iff atLeastLessThan_upt le0)
  moreover have "unat b = 0 \<longleftrightarrow> b = 0" and "unat b = 255 \<longleftrightarrow> b = 255"
    by (simp_all add: word_unat_eq_iff)
  ultimately show ?thesis
    by simp
qed

lemma signed_drop_bit_1_iff: "signed_drop_bit 1 (w :: i64) = 0 \<longleftrightarrow> w = 0 \<or> w = 1"
proof
  assume z: "signed_drop_bit 1 w = 0"
  have "\<not> bit w n" if "0 < n" "n < 64" for n
  proof -
    have "bit (signed_drop_bit 1 w) (n - 1) = bit (0 :: i64) (n - 1)"
      by (simp only: z)
    moreover obtain m where "n = Suc m"
      using \<open>0 < n\<close> gr0_implies_Suc by blast
    ultimately show ?thesis
      using that by (cases "n = 63") (auto simp: bit_signed_drop_bit_iff)
  qed
  then have high: "bit w n \<longleftrightarrow> n = 0 \<and> bit w 0" if "n < 64" for n
    using that by (cases "n = 0") auto
  show "w = 0 \<or> w = 1"
  proof (cases "bit w 0")
    case True
    have "w = 1"
    proof (rule bit_word_eqI)
      fix n assume "n < LENGTH(64)"
      then show "bit w n = bit 1 n"
        using high[of n] True by (simp add: bit_1_iff del: bit_0)
    qed
    then show ?thesis ..
  next
    case False
    have "w = 0"
    proof (rule bit_word_eqI)
      fix n assume "n < LENGTH(64)"
      then show "bit w n = bit 0 n"
        using high[of n] False by simp
    qed
    then show ?thesis ..
  qed
qed auto

lemma scast_octet_inject: "(scast (b :: octet) :: i64) = scast c \<longleftrightarrow> b = c"
proof
  assume eq: "(scast b :: i64) = scast c"
  show "b = c"
  proof (rule bit_word_eqI)
    fix n assume "n < LENGTH(8)"
    moreover have "bit (scast b :: i64) n = bit (scast c :: i64) n"
      by (simp only: eq)
    moreover have "min 7 n = n" if "n < LENGTH(8)"
      using that by simp
    ultimately show "bit b n = bit c n"
      by (simp add: bit_simps)
  qed
qed simp

lemma sb128_checks_agree:
  "((drop_bit 56 r + 1) AND 0xfe \<noteq> (0 :: u64))
     \<longleftrightarrow> signed_drop_bit 1 (signed_drop_bit 56 r + 1) \<noteq> 0"
proof -
  let ?b = "ucast (drop_bit 56 r) :: octet"
  have u: "drop_bit 56 r = ucast ?b"
    by (rule bit_word_eqI) (auto simp: bit_simps dest: bit_imp_le_length)
  have s: "signed_drop_bit 56 r = scast ?b"
  proof (rule bit_word_eqI)
    fix n assume "n < LENGTH(64)"
    then show "bit (signed_drop_bit 56 r) n = bit (scast ?b :: i64) n"
      by (cases "n = 7") (auto simp: bit_simps min_def)
  qed
  have "(scast ?b + 1 :: i64) = 0 \<or> (scast ?b + 1 :: i64) = 1 \<longleftrightarrow> ?b = 0 \<or> ?b = 255"
  proof -
    have "(scast ?b :: i64) = 0 \<longleftrightarrow> ?b = 0"
      using scast_octet_inject[of ?b 0] by simp
    moreover have "(scast ?b :: i64) = - 1 \<longleftrightarrow> ?b = 255"
      using scast_octet_inject[of ?b 255] by simp
    moreover have "(scast ?b + 1 :: i64) = 0 \<longleftrightarrow> (scast ?b :: i64) = - 1"
      by (simp add: eq_neg_iff_add_eq_0)
    ultimately show ?thesis
      by auto
  qed
  then show ?thesis
    by (metis u s octet_plus_1_masked signed_drop_bit_1_iff)
qed

text \<open>
  Where no negative number is shifted, which only the first octet decides, the decoders agree.
\<close>

lemma shifted_nonneg:
  assumes "\<not> bit r 63" and "signed_drop_bit 1 (signed_drop_bit 56 r + 1) = (0 :: i64)"
  shows "\<not> bit (push_bit 7 r OR ucast (c AND 0x7f :: octet)) 63"
proof -
  have "signed_drop_bit 56 r + 1 = 0 \<or> signed_drop_bit 56 r + 1 = 1"
    using assms(2) unfolding signed_drop_bit_1_iff .
  then have "signed_drop_bit 56 r = - 1 \<or> signed_drop_bit 56 r = 0"
    by (auto simp: eq_neg_iff_add_eq_0)
  moreover have "signed_drop_bit 56 r \<noteq> - 1"
  proof
    assume m: "signed_drop_bit 56 r = - 1"
    have "bit (signed_drop_bit 56 r) 63"
      unfolding m by simp
    with assms(1) show False
      by simp
  qed
  ultimately have z: "signed_drop_bit 56 r = 0"
    by blast
  have "\<not> bit (signed_drop_bit 56 r) 0"
    unfolding z by simp
  then have "\<not> bit r 56"
    by (simp add: bit_signed_drop_bit_iff del: bit_0)
  then show ?thesis
    by (auto simp: bit_simps mask_bits dest: bit_imp_le_length)
qed

lemma read_sb128_count_loop_eq:
  "read_sb128_count_loop r b n bs =
     (if bit r 63 \<and> b AND 0x80 \<noteq> 0 \<and> signed_drop_bit 1 (signed_drop_bit 56 r + 1) = 0
      then Inl (Undefined_Behaviour ''shift'') else sb128_read_loop r b n bs)"
proof (induction r b n bs rule: sb128_read_loop.induct)
  case (1 r b n bs)
  show ?case
    by (cases bs)
      (use "1.IH" shifted_nonneg[of r] in \<open>auto simp: sb128_read_loop.simps[of r b]
         read_sb128_count_loop.simps[of r b] sb128_checks_agree\<close>)
qed

section \<open>Signed round trip\<close>

lemma bit_sign_extend_group:
  "bit ((ucast (c AND 0x3f :: octet) :: i64) - ucast (c AND 0x40)) n
     \<longleftrightarrow> n < 64 \<and> bit c (if n < 6 then n else 6)"
proof (cases "bit c 6")
  case True
  have "c AND 0x40 = 0x40"
    using True by (intro bit_word_eqI) (auto simp: bit_simps mask_bits)
  moreover have "(ucast (c AND 0x3f) :: i64) AND NOT (mask 6) = 0"
    by (intro bit_word_eqI) (auto simp: bit_simps mask_bits)
  moreover have "- (0x40 :: i64) = NOT (mask 6)"
    by (simp add: mask_eq_exp_minus_1)
  ultimately have "(ucast (c AND 0x3f :: octet) :: i64) - ucast (c AND 0x40)
      = ucast (c AND 0x3f) OR NOT (mask 6)"
    by (simp add: disjunctive_add_eq_or [symmetric])
  with True show ?thesis
    by (auto simp: bit_simps mask_bits dest: bit_imp_le_length)
next
  case False
  have "c AND 0x40 = 0"
    using False by (intro bit_word_eqI) (auto simp: bit_simps mask_bits)
  with False show ?thesis
    by (auto simp: bit_simps mask_bits dest: bit_imp_le_length)
qed

lemma base128_signed_step:
  assumes "n \<le> 8"
  shows "push_bit 7 (signed_drop_bit (7 * Suc n) v)
    OR ucast (ucast (drop_bit (7 * n) v AND 0x7f) AND 0x7f :: octet) = (signed_drop_bit (7 * n) v :: i64)"
proof (rule bit_word_eqI)
  fix m assume m: "m < LENGTH(64)"
  show "bit (push_bit 7 (signed_drop_bit (7 * Suc n) v)
      OR ucast (ucast (drop_bit (7 * n) v AND 0x7f) AND 0x7f :: octet)) m
    = bit (signed_drop_bit (7 * n) v) m"
  proof (cases "m < 7")
    case True
    with assms m show ?thesis
      by (auto simp: bit_simps mask_bits)
  next
    case False
    then obtain k where "m = 7 + k"
      by (metis le_Suc_ex not_less)
    with m show ?thesis
      by (auto simp: bit_simps mask_bits ac_simps)
  qed
qed

lemma sb128_read_loop_octets:
  assumes "b AND 0x80 \<noteq> 0" and "k \<le> 8"
  shows "sb128_read_loop (signed_drop_bit (7 * Suc k) v) b n (base128_octets v k @ rest)
    = Inr ((v, n + Suc k), rest)"
  using assms
proof (induction k arbitrary: b n)
  case 0
  have "signed_drop_bit 1 (signed_drop_bit 56 (signed_drop_bit 7 v) + 1) = 0"
    by (rule signed_drop_bit_1_eq_0[of _ v]) (simp add: signed_drop_bit_add signed_drop_bit_large)
  with base128_signed_step[of 0 v] 0 show ?case
    by (subst sb128_read_loop.simps) (simp add: sb128_read_loop.simps sb128_checks_agree)
next
  case (Suc k)
  let ?c = "0x80 OR ucast (drop_bit (7 * Suc k) v AND 0x7f) :: octet"
  let ?r = "signed_drop_bit (7 * Suc (Suc k)) v"
  have "signed_drop_bit 1 (signed_drop_bit 56 ?r + 1) = 0"
    by (rule signed_drop_bit_1_eq_0[of _ v]) (simp add: signed_drop_bit_add signed_drop_bit_large)
  with Suc.prems have "sb128_read_loop ?r b n (base128_octets v (Suc k) @ rest)
    = sb128_read_loop (push_bit 7 ?r OR ucast (?c AND 0x7f)) ?c (n + 1) (base128_octets v k @ rest)"
    by (subst sb128_read_loop.simps) (simp add: sb128_checks_agree)
  also have "push_bit 7 ?r OR ucast (?c AND 0x7f) = signed_drop_bit (7 * Suc k) v"
    using base128_signed_step[of "Suc k" v] Suc.prems by simp
  finally show ?case
    using Suc.IH[of ?c "n + 1"] Suc.prems by simp
qed

lemma first_signed_group:
  assumes fits: "signed_drop_bit (7 * k + 6) v = sign_word v" and "k \<le> 8"
    and low: "\<And>n. n < 7 \<Longrightarrow> bit c n \<longleftrightarrow> bit v (7 * k + n)"
  shows "(ucast (c AND 0x3f :: octet) :: i64) - ucast (c AND 0x40) = signed_drop_bit (7 * k) v"
proof (rule bit_word_eqI)
  fix n assume n: "n < LENGTH(64)"
  have "bit v (7 * k + i) \<longleftrightarrow> bit v 63" if "6 \<le> i" "7 * k + i < 64" for i
  proof -
    have "bit (signed_drop_bit (7 * k + 6) v) (i - 6) = bit (sign_word v) (i - 6)"
      by (simp add: fits)
    with that show ?thesis
      by (auto simp: bit_simps split: if_splits)
  qed
  from this[of n] this[of 6] show "bit ((ucast (c AND 0x3f :: octet) :: i64) - ucast (c AND 0x40)) n
      = bit (signed_drop_bit (7 * k) v) n"
    using n assms(2) low[of n] low[of 6]
    by (simp add: bit_sign_extend_group bit_signed_drop_bit_iff)
qed

text \<open>
  What the first octet of an encoding starts the loops with.
\<close>

lemma first_octet:
  assumes fits: "signed_drop_bit (7 * k + 6) v = sign_word v" and k: "k \<le> 8"
  obtains c cs where "base128_octets v k = c # cs" and "c AND 0x80 = 0 \<longleftrightarrow> k = 0"
    and "(ucast (c AND 0x3f) :: i64) - ucast (c AND 0x40) = signed_drop_bit (7 * k) v"
    and "\<And>n rest. sb128_read_loop (signed_drop_bit (7 * k) v) c n (cs @ rest) = Inr ((v, n + k), rest)"
proof (cases k)
  case 0
  have "(ucast (ucast (v AND 0x7f) AND 0x3f :: octet) :: i64) - ucast (ucast (v AND 0x7f) AND 0x40 :: octet)
      = signed_drop_bit (7 * k) v"
    by (rule first_signed_group[OF fits k]) (auto simp: 0 bit_simps mask_bits)
  with 0 show ?thesis
    by (intro that[of "ucast (v AND 0x7f)" "[]"]) (simp_all add: sb128_read_loop.simps)
next
  case (Suc j)
  let ?c = "0x80 OR ucast (drop_bit (7 * Suc j) v AND 0x7f) :: octet"
  have "(ucast (?c AND 0x3f) :: i64) - ucast (?c AND 0x40) = signed_drop_bit (7 * k) v"
    by (rule first_signed_group[OF fits k]) (use Suc in \<open>auto simp: bit_simps mask_bits ac_simps\<close>)
  with Suc k show ?thesis
    using sb128_read_loop_octets[of ?c j v] by (intro that[of ?c "base128_octets v j"]) simp_all
qed

lemma read_sb128_count_octets:
  assumes fits: "signed_drop_bit (7 * k + 6) v = sign_word v" and k: "k \<le> 8"
  shows "read_signed_base128_count n (base128_octets v k @ rest)
    = (if bit v 63 \<and> 0 < k then Inl (Undefined_Behaviour ''shift'') else Inr ((v, n + k + 1), rest))"
proof -
  obtain c cs where c: "base128_octets v k = c # cs" "c AND 0x80 = 0 \<longleftrightarrow> k = 0"
    "(ucast (c AND 0x3f) :: i64) - ucast (c AND 0x40) = signed_drop_bit (7 * k) v"
    and r: "\<And>n rest. sb128_read_loop (signed_drop_bit (7 * k) v) c n (cs @ rest) = Inr ((v, n + k), rest)"
    using first_octet[OF assms] by metis
  have check: "signed_drop_bit 1 (signed_drop_bit 56 (signed_drop_bit (7 * k) v) + 1) = 0" if "0 < k"
    using that by (intro signed_drop_bit_1_eq_0[of _ v]) (simp add: signed_drop_bit_add signed_drop_bit_large)
  show ?thesis
    unfolding read_signed_base128_count_def c(1)
    using c(2) check by (auto simp: c(3) read_sb128_count_loop_eq r)
qed

lemma sb128_read_octets:
  assumes "signed_drop_bit (7 * k + 6) v = sign_word v" and "k \<le> 8"
  shows "sb128_read (base128_octets v k @ rest) = Inr (\<lparr>sb_tcvalue = v, sb_length = k + 1\<rparr>, rest)"
proof -
  obtain c cs where c: "base128_octets v k = c # cs"
    "(ucast (c AND 0x3f) :: i64) - ucast (c AND 0x40) = signed_drop_bit (7 * k) v"
    and r: "\<And>n rest. sb128_read_loop (signed_drop_bit (7 * k) v) c n (cs @ rest) = Inr ((v, n + k), rest)"
    using first_octet[OF assms] by metis
  show ?thesis
    unfolding sb128_read_def c(1) by (simp add: c(2) r)
qed


section \<open>Encoding a value\<close>

definition put_ub128 :: "u64 \<Rightarrow> octets result" where
  "put_ub128 v = bindE (ub128_of_value v) ub128_write"

definition put_sb128 :: "i64 \<Rightarrow> octets result" where
  "put_sb128 v = bindE (sb128_of_value v) (\<lambda>s. Inr (sb128_write s))"

lemma length_base128_octets [simp]: "length (base128_octets v k) = Suc k"
  by (induction k) simp_all

lemma drop_bit_63: "drop_bit 63 (v :: u64) = 0 \<longleftrightarrow> \<not> bit v 63"
proof
  assume "drop_bit 63 v = 0"
  then have "\<not> bit (drop_bit 63 v) 0"
    by (simp del: bit_0)
  then show "\<not> bit v 63"
    by (simp add: bit_drop_bit_eq del: bit_0)
next
  assume "\<not> bit v 63"
  moreover have "n = 0" if "bit v (63 + n)" for n
    using bit_imp_le_length[OF that] by simp
  ultimately show "drop_bit 63 v = 0"
    by (intro bit_word_eqI) (fastforce simp: bit_drop_bit_eq simp del: bit_0)
qed

lemma ub128_of_value_total:
  assumes "\<not> bit v 63"
  obtains n where "ub128_of_value v = Inr \<lparr>ub_value = v, ub_length = Suc n\<rparr>" and "n \<le> 8"
    and "drop_bit (7 * n + 7) v = 0" and "0 < n \<longrightarrow> drop_bit (7 * n) v \<noteq> 0"
proof -
  have "drop_bit (7 + 7 * 8) v = 0"
    using assms by (simp add: drop_bit_63)
  then obtain m where m: "ub128_length_loop v 7 1 = Inr m"
    using ub128_length_loop_total[of 7 8 v 1] by auto
  from ub128_length_loop_sound[OF m] obtain n where "m = Suc n"
    by (cases m) auto
  with m ub128_length_loop_sound[OF m] show ?thesis
    by (intro that[of n]) (auto simp: ub128_of_value_def algebra_simps split: if_splits)
qed

lemma ub128_length_loop_top:
  "bit v 63 \<Longrightarrow> ub128_length_loop v sz len = Inl (Undefined_Behaviour ''shift'')"
proof (induction v sz len rule: ub128_length_loop.induct)
  case (1 v sz len)
  have "drop_bit sz v \<noteq> 0" if "sz < 64"
  proof
    assume "drop_bit sz v = 0"
    then have "\<not> bit (drop_bit sz v) (63 - sz)"
      by simp
    with that "1.prems" show False
      by (simp add: bit_simps)
  qed
  with 1 show ?case
    by (simp add: ub128_length_loop.simps[of v sz len])
qed

lemma put_ub128_octets:
  assumes "\<not> bit v 63"
  obtains k where "put_ub128 v = Inr (base128_octets v k)" and "k \<le> 8"
    and "drop_bit (7 * k + 7) v = 0" and "0 < k \<longrightarrow> drop_bit (7 * k) v \<noteq> 0"
    and "ub128_of_value v = Inr \<lparr>ub_value = v, ub_length = Suc k\<rparr>"
  using assms by (rule ub128_of_value_total) (simp add: put_ub128_def ub128_write_def)

lemma read_unsigned_base128_eq:
  "read_unsigned_base128 bs =
     bindE (read_unsigned_base128_count n bs) (\<lambda>((v, m), bs'). Inr (v, bs'))"
  by (cases bs) (auto simp: read_unsigned_base128_def read_unsigned_base128_count_def
      read_ub128_loop_eq[of _ _ _ "n + 1"])

lemma ub128_read_eq:
  "ub128_read bs =
     bindE (read_unsigned_base128_count 0 bs)
       (\<lambda>((v, m), bs'). Inr (\<lparr>ub_value = v, ub_length = m\<rparr>, bs'))"
  by (cases bs) (auto simp: ub128_read_def read_unsigned_base128_count_def)

lemma read_ub128_count_loop_value:
  "read_ub128_count_loop r b n bs = Inr ((v, m), bs') \<Longrightarrow>
     n \<le> m \<and> drop_bit (7 * (m - n)) v = r \<and> length bs = (m - n) + length bs'"
proof (induction r b n bs rule: read_ub128_count_loop.induct)
  case (1 r b n bs)
  show ?case
  proof (cases "b AND 0x80 = 0")
    case True
    with "1.prems" show ?thesis
      by (simp add: read_ub128_count_loop.simps[of r b])
  next
    case False
    with "1.prems" obtain c cs where bs: "bs = c # cs" and r: "drop_bit 57 r = 0"
      and rec: "read_ub128_count_loop (push_bit 7 r OR ucast (c AND 0x7f)) c (n + 1) cs
        = Inr ((v, m), bs')"
      by (cases bs) (auto simp: read_ub128_count_loop.simps[of r b] split: if_splits)
    from "1.IH"[OF False _ _ refl rec] r bs
    have IH: "n + 1 \<le> m" "drop_bit (7 * (m - (n + 1))) v = push_bit 7 r OR ucast (c AND 0x7f)"
      "length cs = (m - (n + 1)) + length bs'"
      by auto
    have "drop_bit (7 * (m - n)) v = drop_bit 7 (drop_bit (7 * (m - (n + 1))) v)"
      using IH(1) by (simp add: Suc_diff_Suc flip: mult_Suc_right)
    also have "\<dots> = r"
    proof (rule bit_word_eqI)
      fix i assume "i < LENGTH(64)"
      moreover have "i < 57" if "bit r i"
      proof (rule ccontr)
        assume "\<not> i < 57"
        moreover have "\<not> bit (drop_bit 57 r) (i - 57)"
          by (simp add: r)
        ultimately show False
          using that by (simp add: bit_drop_bit_eq)
      qed
      ultimately show "bit (drop_bit 7 (drop_bit (7 * (m - (n + 1))) v)) i = bit r i"
        unfolding IH(2) by (auto simp: bit_simps mask_bits ac_simps dest: bit_imp_le_length)
    qed
    finally show ?thesis
      using IH bs by simp
  qed
qed

lemma read_unsigned_base128_count_value:
  assumes "read_unsigned_base128_count n bs = Inr ((v, m), bs')"
  shows "n < m" and "drop_bit (7 * (m - n)) v = 0" and "length bs = (m - n) + length bs'"
proof -
  from assms obtain b cs where bs: "bs = b # cs"
    and loop: "read_ub128_count_loop (ucast (b AND 0x7f)) b (n + 1) cs = Inr ((v, m), bs')"
    by (cases bs) (auto simp: read_unsigned_base128_count_def)
  from read_ub128_count_loop_value[OF loop]
  have le: "n + 1 \<le> m" and drop: "drop_bit (7 * (m - (n + 1))) v = ucast (b AND 0x7f)"
    and len: "length cs = (m - (n + 1)) + length bs'"
    by auto
  show "n < m"
    using le by simp
  show "length bs = (m - n) + length bs'"
    using le len bs by simp
  have "drop_bit (7 * (m - n)) v = drop_bit 7 (drop_bit (7 * (m - (n + 1))) v)"
    using le by (simp add: Suc_diff_Suc flip: mult_Suc_right)
  also have "\<dots> = 0"
    unfolding drop by (intro bit_word_eqI) (auto simp: bit_simps mask_bits ac_simps dest: bit_imp_le_length)
  finally show "drop_bit (7 * (m - n)) v = 0" .
qed


lemma put_ub128_roundtrip:
  assumes "\<not> bit v 63"
  shows "\<exists>bs. put_ub128 v = Inr bs \<and> length bs \<le> 9
    \<and> ub128_of_value v = Inr \<lparr>ub_value = v, ub_length = length bs\<rparr>
    \<and> (\<forall>rest. ub128_read (bs @ rest) = Inr (\<lparr>ub_value = v, ub_length = length bs\<rparr>, rest)
          \<and> read_unsigned_base128 (bs @ rest) = Inr (v, rest)
          \<and> read_unsigned_base128_count n (bs @ rest) = Inr ((v, n + length bs), rest))"
proof -
  obtain k where k: "put_ub128 v = Inr (base128_octets v k)" "k \<le> 8" "drop_bit (7 * k + 7) v = 0"
    "ub128_of_value v = Inr \<lparr>ub_value = v, ub_length = Suc k\<rparr>"
    using put_ub128_octets[OF assms] by metis
  then show ?thesis
    using read_ub128_count_octets[OF k(3)]
    by (simp add: read_unsigned_base128_eq[of _ 0] ub128_read_eq)
qed

lemma put_ub128_shortest:
  assumes "put_ub128 v = Inr bs" and "read_unsigned_base128 bs' = Inr (v, rest)"
  shows "length bs + length rest \<le> length bs'"
proof (cases "bit v 63")
  case True
  with assms(1) show ?thesis
    by (simp add: put_ub128_def ub128_of_value_def ub128_length_loop_top)
next
  case False
  then obtain k where k: "put_ub128 v = Inr (base128_octets v k)"
      "0 < k \<longrightarrow> drop_bit (7 * k) v \<noteq> 0"
    using put_ub128_octets by metis
  from assms(2) obtain m where m: "read_unsigned_base128_count 0 bs' = Inr ((v, m), rest)"
    by (auto simp: read_unsigned_base128_eq[of _ 0] split: bindE_split)
  have "k < m"
    using k(2) read_unsigned_base128_count_value(1,2)[OF m] drop_bit_0_mono[of "7 * m" v "7 * k"]
    by force
  with k(1) assms(1) read_unsigned_base128_count_value(3)[OF m] show ?thesis
    by simp
qed

lemma put_ub128_top_bit: "bit v 63 \<Longrightarrow> put_ub128 v = Inl (Undefined_Behaviour ''shift'')"
  by (simp add: put_ub128_def ub128_of_value_def ub128_length_loop_top)


section \<open>Signed encodings\<close>

lemma sb128_fits:
  assumes "drop_bit (7 * k + 6) (if bit v 63 then NOT v else v) = 0" and "k \<le> 8"
  shows "signed_drop_bit (7 * k + 6) v = (sign_word v :: i64)"
proof (rule bit_word_eqI)
  fix n assume n: "n < LENGTH(64)"
  have "\<not> bit (drop_bit (7 * k + 6) (if bit v 63 then NOT v else v)) n"
    by (simp add: assms(1))
  then show "bit (signed_drop_bit (7 * k + 6) v) n = bit (sign_word v) n"
    using n by (auto simp: bit_simps split: if_splits)
qed

lemma sb128_of_value_total:
  assumes "drop_bit 62 (if bit v 63 then NOT v else v) = 0"
  obtains k where "sb128_of_value v = Inr \<lparr>sb_tcvalue = v, sb_length = Suc k\<rparr>" and "k \<le> 8"
    and "signed_drop_bit (7 * k + 6) v = sign_word v"
    and "0 < k \<longrightarrow> drop_bit (7 * k - 1) (if bit v 63 then NOT v else v) \<noteq> 0"
proof -
  let ?d = "if bit v 63 then NOT v else v"
  have "drop_bit (6 + 7 * 8) ?d = 0"
    using assms by simp
  then obtain m where m: "ub128_length_loop ?d 6 1 = Inr m"
    using ub128_length_loop_total[of 6 8 ?d 1] by auto
  note s = ub128_length_loop_sound[OF m]
  then obtain k where k: "m = Suc k"
    by (cases m) auto
  have "k \<le> 8" and "drop_bit (7 * k + 6) ?d = 0" and "0 < k \<longrightarrow> drop_bit (7 * k - 1) ?d \<noteq> 0"
    using s k by (auto simp: ac_simps diff_mult_distrib2 gr0_conv_Suc)
  with m k sb128_fits[of k v] show ?thesis
    by (intro that[of k]) (simp_all add: sb128_of_value_def sb128_length_loop_eq Let_def)
qed

lemma sb128_of_value_undefined:
  assumes "drop_bit 62 (if bit v 63 then NOT v else v) \<noteq> 0"
  shows "sb128_of_value v = Inl (Undefined_Behaviour ''shift'')"
proof -
  let ?d = "if bit v 63 then NOT v else v"
  have nz: "drop_bit sz ?d \<noteq> 0" if "sz \<le> 62" for sz
    using drop_bit_0_mono[OF _ that, of ?d] assms by blast
  have "sb128_length_loop ?d (69 - 7 * k) len = Inl (Undefined_Behaviour ''shift'')" if "k \<le> 9" for k len
    using that
  proof (induction k arbitrary: len)
    case (Suc k)
    have "drop_bit (69 - 7 * Suc k) ?d \<noteq> 0"
      by (rule nz) simp
    moreover have "69 - 7 * Suc k + 7 = 69 - 7 * k"
      using Suc.prems by simp
    ultimately show ?case
      using Suc by (subst sb128_length_loop.simps) simp
  qed (simp add: sb128_length_loop.simps)
  from this[of 9 1] show ?thesis
    by (simp add: sb128_of_value_def Let_def)
qed

lemma sb128_value_eq [simp]: "sb128_value s = sb_tcvalue s"
proof (rule bit_word_eqI)
  fix n assume n: "n < LENGTH(64)"
  let ?v = "sb_tcvalue s"
  define h :: u64 where "h = push_bit 63 1"
  have m: "(0x7fffffffffffffff :: u64) = mask 63" and t: "(0x8000000000000000 :: u64) = h"
    by (simp_all add: mask_eq_exp_minus_1 h_def)
  have e: "bit h i \<longleftrightarrow> i = 63" for i
    by (simp only: h_def bit_push_bit_iff bit_1_iff) auto
  have "take_bit 63 ?v + h = take_bit 63 ?v OR h"
    by (rule disjunctive_add_eq_or, rule bit_word_eqI) (simp add: bit_and_iff bit_take_bit_iff e)
  moreover have "?v AND h = 0 \<longleftrightarrow> \<not> bit ?v 63"
    unfolding h_def by (metis and_exp_eq_0_iff_not_bit mult_1 push_bit_eq_mult)
  moreover have "n < 63 \<or> n = 63"
    using n by auto
  ultimately show "bit (sb128_value s) n = bit ?v n"
    unfolding sb128_value_def m t
    by (auto simp: Let_def bit_or_iff bit_take_bit_iff e simp flip: take_bit_eq_mask)
qed


lemma read_signed_base128_eq:
  "read_signed_base128 bs =
     bindE (read_signed_base128_count n bs) (\<lambda>((v, m), bs'). Inr (v, bs'))"
  by (cases bs) (auto simp: read_signed_base128_def read_signed_base128_count_def
      read_sb128_loop_eq[of _ _ _ "n + 1"])

lemma sb128_multi_octet:
  assumes "drop_bit 62 (if bit v 63 then NOT v else v) = 0"
    and "sb128_of_value v = Inr \<lparr>sb_tcvalue = v, sb_length = Suc k\<rparr>"
  shows "bit v 63 \<and> 0 < k \<longleftrightarrow> sint v < - 64"
proof -
  let ?d = "if bit v 63 then NOT v else v"
  have "0 < k \<longleftrightarrow> drop_bit 6 ?d \<noteq> 0"
    using assms(2) ub128_length_loop_sound[of ?d 6 1 "Suc k"]
    by (cases k) (auto simp: sb128_of_value_def sb128_length_loop_eq Let_def ub128_length_loop.simps[of ?d 6])
  moreover have "drop_bit 6 (NOT v) \<noteq> 0 \<longleftrightarrow> 64 \<le> uint (NOT v)"
  proof -
    have "uint (drop_bit 6 (NOT v)) = uint (NOT v) div 64"
      unfolding unsigned_drop_bit_eq using unsigned_less[of "NOT v", where ?'a = int]
      by (simp add: drop_bit_eq_div take_bit_int_eq_self)
    moreover have "x div 64 \<noteq> 0 \<longleftrightarrow> 64 \<le> x" if "0 \<le> x" for x :: int
      using that by presburger
    ultimately show ?thesis
      by (simp add: word_uint_eq_iff)
  qed
  moreover have "uint (NOT v) = 2 ^ 64 - 1 - uint v"
  proof -
    have "NOT v = - 1 - v"
      by (simp add: not_eq_complement)
    moreover have "uint (- 1 :: i64) = 2 ^ 64 - 1"
      by (simp add: unsigned_minus_1_eq_mask mask_eq_exp_minus_1)
    ultimately show ?thesis
      using uint_sub_if'[of "- 1" v] unsigned_less[of v, where ?'a = int] by simp
  qed
  moreover have "bit v 63 \<longleftrightarrow> sint v < 0"
    using bit_last_iff[of v] by simp
  ultimately show ?thesis
    using sint_64[of v] by (cases "bit v 63") auto
qed

lemma put_sb128_octets:
  assumes "drop_bit 62 (if bit v 63 then NOT v else v) = 0"
  obtains k where "put_sb128 v = Inr (base128_octets v k)" and "k \<le> 8"
    and "signed_drop_bit (7 * k + 6) v = sign_word v"
    and "sb128_of_value v = Inr \<lparr>sb_tcvalue = v, sb_length = Suc k\<rparr>"
  using assms by (rule sb128_of_value_total) (simp add: put_sb128_def sb128_write_def min_def)

lemma put_sb128_roundtrip:
  assumes "drop_bit 62 (if bit v 63 then NOT v else v) = 0"
  shows "\<exists>bs. put_sb128 v = Inr bs \<and> length bs \<le> 9
    \<and> sb128_of_value v = Inr \<lparr>sb_tcvalue = v, sb_length = length bs\<rparr>
    \<and> (\<forall>rest. sb128_read (bs @ rest) = Inr (\<lparr>sb_tcvalue = v, sb_length = length bs\<rparr>, rest)
          \<and> read_signed_base128 (bs @ rest)
              = (if sint v < - 64 then Inl (Undefined_Behaviour ''shift'') else Inr (v, rest))
          \<and> read_signed_base128_count n (bs @ rest)
              = (if sint v < - 64 then Inl (Undefined_Behaviour ''shift'') else Inr ((v, n + length bs), rest)))"
proof -
  obtain k where k: "put_sb128 v = Inr (base128_octets v k)" "k \<le> 8"
    "signed_drop_bit (7 * k + 6) v = sign_word v"
    "sb128_of_value v = Inr \<lparr>sb_tcvalue = v, sb_length = Suc k\<rparr>"
    using put_sb128_octets[OF assms] by metis
  then show ?thesis
    using read_sb128_count_octets[OF k(3,2)] sb128_read_octets[OF k(3,2)]
    by (simp add: read_signed_base128_eq[of _ 0] sb128_multi_octet[OF assms k(4)])
qed

lemma put_sb128_undefined:
  "drop_bit 62 (if bit v 63 then NOT v else v) \<noteq> 0 \<Longrightarrow>
     put_sb128 v = Inl (Undefined_Behaviour ''shift'')"
  by (simp add: put_sb128_def sb128_of_value_undefined)

lemma scast_fits:
  "drop_bit 62 (if bit (scast (i :: i32) :: i64) 63 then NOT (scast i) else scast i :: i64) = 0"
  by (rule bit_word_eqI) (auto simp: bit_simps min_def dest: bit_imp_le_length)

section \<open>The encodings are codecs\<close>

definition ub128_octets :: "u64 \<Rightarrow> octets" where
  "ub128_octets v = (case put_ub128 v of Inr bs \<Rightarrow> bs | Inl _ \<Rightarrow> [])"

definition sb128_octets :: "i64 \<Rightarrow> octets" where
  "sb128_octets v = (case put_sb128 v of Inr bs \<Rightarrow> bs | Inl _ \<Rightarrow> [])"

definition ub128_ok :: "u64 \<Rightarrow> bool" where
  "ub128_ok v \<longleftrightarrow> \<not> bit v 63"

definition sb128_ok :: "i64 \<Rightarrow> bool" where
  "sb128_ok v \<longleftrightarrow> drop_bit 62 (if bit v 63 then NOT v else v) = 0"

definition sb128_readable :: "i64 \<Rightarrow> bool" where
  "sb128_readable v \<longleftrightarrow> sb128_ok v \<and> - 64 \<le> sint v"

lemma ub128_octets_props:
  assumes "ub128_ok v"
  shows "put_ub128 v = Inr (ub128_octets v)"
    and "ub128_of_value v = Inr \<lparr>ub_value = v, ub_length = length (ub128_octets v)\<rparr>"
    and "read_unsigned_base128 (ub128_octets v @ rest) = Inr (v, rest)"
    and "read_unsigned_base128_count n (ub128_octets v @ rest)
      = Inr ((v, n + length (ub128_octets v)), rest)"
    and "ub128_read (ub128_octets v @ rest)
      = Inr (\<lparr>ub_value = v, ub_length = length (ub128_octets v)\<rparr>, rest)"
    and "length (ub128_octets v) \<le> 9"
  using put_ub128_roundtrip[of v n] assms unfolding ub128_octets_def ub128_ok_def
  by auto

lemma sb128_octets_props:
  assumes "sb128_ok v"
  shows "put_sb128 v = Inr (sb128_octets v)"
    and "sb128_of_value v = Inr \<lparr>sb_tcvalue = v, sb_length = length (sb128_octets v)\<rparr>"
    and "read_signed_base128 (sb128_octets v @ rest)
      = (if sint v < - 64 then Inl (Undefined_Behaviour ''shift'') else Inr (v, rest))"
    and "read_signed_base128_count n (sb128_octets v @ rest)
      = (if sint v < - 64 then Inl (Undefined_Behaviour ''shift'')
         else Inr ((v, n + length (sb128_octets v)), rest))"
    and "sb128_read (sb128_octets v @ rest)
      = Inr (\<lparr>sb_tcvalue = v, sb_length = length (sb128_octets v)\<rparr>, rest)"
    and "length (sb128_octets v) \<le> 9"
  using put_sb128_roundtrip[of v n] assms unfolding sb128_octets_def sb128_ok_def
  by auto

lemma ub128_octets_not_Nil: "ub128_ok v \<Longrightarrow> ub128_octets v \<noteq> []"
  using ub128_octets_props(3)[of v "[]"] by (auto simp: read_unsigned_base128_def)

lemma sb128_octets_not_Nil: "sb128_ok v \<Longrightarrow> sb128_octets v \<noteq> []"
  using sb128_octets_props(5)[of v "[]"] by (auto simp: sb128_read_def)

lemma sb128_ok_scast [simp]: "sb128_ok (scast (i :: i32))"
  unfolding sb128_ok_def by (rule scast_fits)

lemma put_ub128_not_ok: "\<not> ub128_ok v \<Longrightarrow> put_ub128 v = Inl (Undefined_Behaviour ''shift'')"
  by (simp add: ub128_ok_def put_ub128_top_bit)

lemma put_sb128_not_ok: "\<not> sb128_ok v \<Longrightarrow> put_sb128 v = Inl (Undefined_Behaviour ''shift'')"
  by (simp add: sb128_ok_def put_sb128_undefined)

interpretation ub: codec ub128_octets read_unsigned_base128 ub128_ok
  by unfold_locales (rule ub128_octets_props(3))

interpretation sb: codec sb128_octets read_signed_base128 sb128_readable
  by unfold_locales (simp add: sb128_octets_props(3) sb128_readable_def)

interpretation sb_class: codec sb128_octets "\<lambda>bs. bindE (sb128_read bs) (\<lambda>(s, bs'). Inr (sb128_value s, bs'))" sb128_ok
  by unfold_locales (simp add: sb128_octets_props(5))

section \<open>Consumption\<close>

lemma read_sb128_count_loop_consumes:
  "read_sb128_count_loop r b n bs = Inr ((v, m), bs') \<Longrightarrow> n \<le> m \<and> length bs = (m - n) + length bs'"
proof (induction r b n bs rule: read_sb128_count_loop.induct)
  case (1 r b n bs)
  show ?case
  proof (cases "b AND 0x80 = 0")
    case True
    with "1.prems" show ?thesis
      by (simp add: read_sb128_count_loop.simps[of r b])
  next
    case False
    with "1.prems" obtain c cs where bs: "bs = c # cs"
      and ok: "\<not> signed_drop_bit 1 (signed_drop_bit 56 r + 1) \<noteq> 0" "\<not> bit r 63"
      and rec: "read_sb128_count_loop (push_bit 7 r OR ucast (c AND 0x7f)) c (n + 1) cs
        = Inr ((v, m), bs')"
      by (cases bs) (auto simp: read_sb128_count_loop.simps[of r b] split: if_splits)
    have "n + 1 \<le> m \<and> length cs = (m - (n + 1)) + length bs'"
      by (rule "1.IH"[OF False ok _ refl rec]) (simp add: bs)
    with bs show ?thesis
      by auto
  qed
qed

lemma read_signed_base128_count_consumes:
  "read_signed_base128_count n bs = Inr ((v, m), bs') \<Longrightarrow> n < m \<and> length bs = (m - n) + length bs'"
  by (cases bs) (auto simp: read_signed_base128_count_def dest: read_sb128_count_loop_consumes)

lemma read_signed_base128_consumes: "read_signed_base128 bs = Inr (v, bs') \<Longrightarrow> length bs' < length bs"
  by (auto simp: read_signed_base128_eq[of _ 0] dest: read_signed_base128_count_consumes)

lemma read_unsigned_base128_consumes:
  "read_unsigned_base128 bs = Inr (v, bs') \<Longrightarrow> length bs' < length bs"
  using read_unsigned_base128_count_value(1,3)[of 0 bs v _ bs']
  by (force simp: read_unsigned_base128_eq[of _ 0])

section \<open>Properties\<close>

text \<open>
  C15: writing an unsigned 64-bit integer in base 128. Up to \<open>2 ^ 63 - 1\<close> it gives at most nine
  octets, which each of the three decoders reads back, whatever follows; from \<open>2 ^ 63\<close> the loop
  that finds the length shifts by 64 bits, which is undefined.
\<close>

theorem ub128_roundtrip:
  "put_ub128 v = (if bit v 63 then Inl (Undefined_Behaviour ''shift'') else Inr (ub128_octets v))
   \<and> (if bit v 63 then True
      else length (ub128_octets v) \<le> 9
        \<and> read_unsigned_base128 (ub128_octets v @ rest) = Inr (v, rest)
        \<and> read_unsigned_base128_count n (ub128_octets v @ rest)
            = Inr ((v, n + length (ub128_octets v)), rest)
        \<and> ub128_read (ub128_octets v @ rest)
            = Inr (\<lparr>ub_value = v, ub_length = length (ub128_octets v)\<rparr>, rest))"
  by (simp add: put_ub128_top_bit ub128_octets_props[unfolded ub128_ok_def])

text \<open>
  The encoding written is the shortest one: no sequence of octets that the decoder accepts
  for the same value consumes fewer octets.
\<close>

lemma ub128_shortest:
  assumes "put_ub128 v = Inr bs" and "read_unsigned_base128 bs' = Inr (v, rest)"
  shows "length bs + length rest \<le> length bs'"
  by (rule put_ub128_shortest[OF assms])

theorem ub128_shortest_witness: "length [0x81, 0x00 :: octet] + length [7 :: octet] \<le> length [0x80, 0x81, 0x00, 7 :: octet]"
proof -
  have w: "put_ub128 128 = Inr [0x81, 0x00]"
    by code_simp
  have r: "read_unsigned_base128 [0x80, 0x81, 0x00, 7] = Inr (128, [7])"
    by code_simp
  show ?thesis
    by (rule ub128_shortest[OF w r])
qed


end
