(* ===== verification/Attribute_Codec.thy ===== *)
theory Attribute_Codec
  imports Session_Context Base128
begin

text \<open>
  Encoding and parsing of attributes and attribute lists: the \<^verbatim>\<open>length\<close>, \<^verbatim>\<open>write\<close> and
  reading constructors of the attribute classes, \<^verbatim>\<open>attribute::parse\<close>, and their counterparts in
  \<^verbatim>\<open>horace/attribute_list.cc\<close>. The lemmas give the encoded length, the exact number of octets
  a parse consumes, the types and order of what it returns, and the round trip.
\<close>

section \<open>Length\<close>

function ui_length_loop :: "u64 \<Rightarrow> nat \<Rightarrow> nat" where
  "ui_length_loop r len = (if r = 0 then len else ui_length_loop (drop_bit 8 r) (len + 1))"
  by pat_completeness auto
termination
proof (relation "measure (\<lambda>(r, len). unat r)")
  fix r :: u64 and len :: nat
  assume "r \<noteq> 0"
  then have "0 < unat r"
    by (simp add: unat_gt_0)
  moreover have "unat (drop_bit 8 r) = unat r div 256"
    unfolding unat_drop_bit_eq by (simp add: drop_bit_eq_div)
  ultimately show "((drop_bit 8 r, len + 1), (r, len)) \<in> measure (\<lambda>(r, len). unat r)"
    by simp
qed simp

declare ui_length_loop.simps [simp del]

function si_length_loop :: "i64 \<Rightarrow> i64 \<Rightarrow> nat \<Rightarrow> nat \<Rightarrow> nat result" where
  "si_length_loop v term sz cnt =
     (if 64 \<le> sz then Inl (Undefined_Behaviour ''shift'')
      else if signed_drop_bit sz v \<noteq> term then si_length_loop v term (sz + 8) (cnt + 1)
      else Inr cnt)"
  by pat_completeness auto
termination
  by (relation "measure (\<lambda>(v, term, sz, cnt). 64 - sz)") auto

declare si_length_loop.simps [simp del]

definition ui_length :: "u64 \<Rightarrow> nat" where
  "ui_length v = ui_length_loop v 0"

definition si_length :: "i64 \<Rightarrow> nat result" where
  "si_length v =
     (if v \<noteq> 0 then si_length_loop v (if 0 \<le> sint v then 0 else - 1) 7 1 else Inr 0)"

definition ts_length :: "i64 \<Rightarrow> nat" where
  "ts_length sec = ui_length_loop sec 4"

fun attr_length :: "attribute \<Rightarrow> u64 result"
  and attrs_length :: "u64 \<Rightarrow> attribute list \<Rightarrow> u64 result" where
  "attr_length (Compound i as) = attrs_length 0 as"
| "attr_length (Unsigned_Integer i v) = Inr (of_nat (ui_length v))"
| "attr_length (Signed_Integer i v) = bindE (si_length v) (\<lambda>n. Inr (of_nat n))"
| "attr_length (Binary i bs) = Inr (of_nat (length bs))"
| "attr_length (String_Attr i s) = Inr (of_nat (length s))"
| "attr_length (Timestamp i sec nsec) = Inr (of_nat (ts_length sec))"
| "attr_length (Boolean i b) = Inr 1"
| "attr_length (Unrecognised i bs) = Inr (of_nat (length bs))"
| "attrs_length len [] = Inr len"
| "attrs_length len (a # as) =
     bindE (attr_length a) (\<lambda>n.
     bindE (sb128_of_value (scast (attrid a))) (\<lambda>s.
     bindE (ub128_of_value n) (\<lambda>u.
       attrs_length (len + of_nat (sb_length s) + of_nat (ub_length u) + n) as)))"

definition attr_list_length :: "attribute list \<Rightarrow> u64 result" where
  "attr_list_length as = attrs_length 0 as"

section \<open>Writing\<close>

definition attr_header :: "i32 \<Rightarrow> u64 \<Rightarrow> octets result" where
  "attr_header i n =
     bindE (put_sb128 (scast i)) (\<lambda>xs. bindE (put_ub128 n) (\<lambda>ys. Inr (xs @ ys)))"

definition unsigned_integer_write :: "i32 \<Rightarrow> u64 \<Rightarrow> octets result" where
  "unsigned_integer_write i v =
     bindE (attr_header i (of_nat (ui_length v))) (\<lambda>h.
     bindE (write_unsigned v (ui_length v)) (\<lambda>body. Inr (h @ body)))"

definition signed_integer_write :: "i32 \<Rightarrow> i64 \<Rightarrow> octets result" where
  "signed_integer_write i v =
     bindE (si_length v) (\<lambda>len.
     bindE (attr_header i (of_nat len)) (\<lambda>h.
     bindE (write_signed v len) (\<lambda>body. Inr (h @ body))))"

definition binary_write :: "i32 \<Rightarrow> octets \<Rightarrow> octets result" where
  "binary_write i bs = bindE (attr_header i (of_nat (length bs))) (\<lambda>h. Inr (h @ bs))"

definition string_write :: "i32 \<Rightarrow> string \<Rightarrow> octets result" where
  "string_write i s = bindE (attr_header i (of_nat (length s))) (\<lambda>h. Inr (h @ write_string s))"

definition timestamp_write :: "i32 \<Rightarrow> i64 \<Rightarrow> i64 \<Rightarrow> octets result" where
  "timestamp_write i sec nsec =
     bindE (attr_header i (of_nat (ts_length sec))) (\<lambda>h.
     bindE (write_unsigned sec (ts_length sec - 4)) (\<lambda>xs.
     bindE (write_unsigned nsec 4) (\<lambda>ys. Inr (h @ xs @ ys))))"

definition boolean_write :: "i32 \<Rightarrow> bool \<Rightarrow> octets result" where
  "boolean_write i b = bindE (attr_header i 1) (\<lambda>h. Inr (h @ [if b then 1 else 0]))"

definition unrecognised_write :: "i32 \<Rightarrow> octets \<Rightarrow> octets result" where
  "unrecognised_write i bs = bindE (attr_header i (of_nat (length bs))) (\<lambda>h. Inr (h @ bs))"

lemmas leaf_write_defs [simp] =
  unsigned_integer_write_def signed_integer_write_def binary_write_def string_write_def
  timestamp_write_def boolean_write_def unrecognised_write_def

fun attr_write :: "attribute \<Rightarrow> octets result"
  and attrs_write :: "attribute list \<Rightarrow> octets result" where
  "attr_write (Compound i as) =
     bindE (attr_list_length as) (\<lambda>n.
     bindE (attr_header i n) (\<lambda>h.
     bindE (attrs_write as) (\<lambda>body. Inr (h @ body))))"
| "attr_write (Unsigned_Integer i v) = unsigned_integer_write i v"
| "attr_write (Signed_Integer i v) = signed_integer_write i v"
| "attr_write (Binary i bs) = binary_write i bs"
| "attr_write (String_Attr i s) = string_write i s"
| "attr_write (Timestamp i sec nsec) = timestamp_write i sec nsec"
| "attr_write (Boolean i b) = boolean_write i b"
| "attr_write (Unrecognised i bs) = unrecognised_write i bs"
| "attrs_write [] = Inr []"
| "attrs_write (a # as) =
     bindE (attr_write a) (\<lambda>xs. bindE (attrs_write as) (\<lambda>ys. Inr (xs @ ys)))"

section \<open>Parsing\<close>

text \<open>
  The reading constructors of the classes without nested attributes. \<^verbatim>\<open>new char[n]\<close> throws for
  \<open>n\<close> from \<open>2 ^ 63\<close> on, before anything is read.
\<close>

definition read_content :: "u64 \<Rightarrow> octets \<Rightarrow> (octets \<times> octets) result" where
  "read_content n bs = (if 2 ^ 63 \<le> n then Inl Bad_Array_New_Length else read_octets (unat n) bs)"

definition parse_unsigned_integer :: "i32 \<Rightarrow> u64 \<Rightarrow> octets \<Rightarrow> (attribute \<times> octets) result" where
  "parse_unsigned_integer i n bs =
     (if 8 < n then Inl (Horace_Error ''invalid length for unsigned integer attribute'')
      else bindE (read_unsigned (unat n) bs) (\<lambda>(v, bs'). Inr (Unsigned_Integer i v, bs')))"

definition parse_signed_integer :: "i32 \<Rightarrow> u64 \<Rightarrow> octets \<Rightarrow> (attribute \<times> octets) result" where
  "parse_signed_integer i n bs =
     (if 8 < n then Inl (Horace_Error ''invalid length for signed integer attribute'')
      else bindE (read_signed (unat n) bs) (\<lambda>(v, bs'). Inr (Signed_Integer i v, bs')))"

definition parse_binary :: "i32 \<Rightarrow> u64 \<Rightarrow> octets \<Rightarrow> (attribute \<times> octets) result" where
  "parse_binary i n bs = bindE (read_content n bs) (\<lambda>(xs, bs'). Inr (Binary i xs, bs'))"

definition parse_string :: "i32 \<Rightarrow> u64 \<Rightarrow> octets \<Rightarrow> (attribute \<times> octets) result" where
  "parse_string i n bs = bindE (read_string n bs) (\<lambda>(s, bs'). Inr (String_Attr i s, bs'))"

definition parse_timestamp :: "i32 \<Rightarrow> u64 \<Rightarrow> octets \<Rightarrow> (attribute \<times> octets) result" where
  "parse_timestamp i n bs =
     (if n < 5 \<or> 12 < n then Inl (Horace_Error ''invalid length for timestamp attribute'')
      else bindE (read_unsigned (unat (n - 4)) bs) (\<lambda>(sec, bs1).
           bindE (read_unsigned 4 bs1) (\<lambda>(nsec64, bs2).
             let nsec = ucast nsec64 :: u32 in
             if 0x7fffffffffffffff < sec
             then Inl (Horace_Error ''invalid sec field in timestamp attribute'')
             else if 2000000000 \<le> nsec
             then Inl (Horace_Error ''invalid nsec field in timestamp attribute'')
             else Inr (Timestamp i sec (ucast nsec), bs2))))"

definition parse_boolean :: "i32 \<Rightarrow> u64 \<Rightarrow> octets \<Rightarrow> (attribute \<times> octets) result" where
  "parse_boolean i n bs =
     (if n \<noteq> 1 then Inl (Horace_Error ''invalid length for boolean attribute'')
      else bindE (read_octet bs) (\<lambda>(b, bs').
        if b \<noteq> 0 \<and> b \<noteq> 1 then Inl (Horace_Error ''invalid content for boolean attribute'')
        else Inr (Boolean i (b \<noteq> 0), bs')))"

definition parse_unrecognised :: "i32 \<Rightarrow> u64 \<Rightarrow> octets \<Rightarrow> (attribute \<times> octets) result" where
  "parse_unrecognised i n bs = bindE (read_content n bs) (\<lambda>(xs, bs'). Inr (Unrecognised i xs, bs'))"

text \<open>
  \<open>attribute_parse\<close> is \<^verbatim>\<open>attribute::parse\<close> with the identifier and length already read, and
  \<open>attr_list_parse\<close> the loop of the reading constructor of \<^verbatim>\<open>attribute_list\<close>. The loop keeps
  identifier and length in \<^verbatim>\<open>int\<close> variables, so both are truncated to 32 bits, and the length is
  sign-extended where it is used as a \<^verbatim>\<open>size_t\<close>.
\<close>

definition attr_size :: "u64 \<Rightarrow> u64" where
  "attr_size len64 = scast (ucast len64 :: i32)"

definition read_attr_header :: "octets \<Rightarrow> (i32 \<times> u64 \<times> nat \<times> octets) result" where
  "read_attr_header bs =
     bindE (read_signed_base128_count 0 bs) (\<lambda>((id64, n1), bs1).
     bindE (read_unsigned_base128_count n1 bs1) (\<lambda>((len64, hdr_len), bs2).
       Inr (ucast id64, attr_size len64, hdr_len, bs2)))"

function (domintros) attribute_parse ::
    "session_context \<Rightarrow> i32 \<Rightarrow> u64 \<Rightarrow> octets \<Rightarrow> (attribute \<times> octets) result"
  and attr_list_parse ::
    "session_context \<Rightarrow> u64 \<Rightarrow> attribute list \<Rightarrow> octets \<Rightarrow> (attribute list \<times> octets) result"
where
  "attribute_parse s i n bs =
     bindE (get_attr_type s i) (\<lambda>ty.
       if ty = type_compound then
         bindE (attr_list_parse s n [] bs) (\<lambda>(as, bs'). Inr (Compound i as, bs'))
       else if ty = type_unsigned_integer then parse_unsigned_integer i n bs
       else if ty = type_signed_integer then parse_signed_integer i n bs
       else if ty = type_binary then parse_binary i n bs
       else if ty = type_string then parse_string i n bs
       else if ty = type_timestamp then parse_timestamp i n bs
       else if ty = type_boolean then parse_boolean i n bs
       else parse_unrecognised i n bs)"
| "attr_list_parse s remaining as bs =
     (if remaining = 0 then Inr (as, bs)
      else bindE (read_attr_header bs) (\<lambda>(i, n, hdr_len, bs2).
           bindE (attribute_parse s i n bs2) (\<lambda>(a, bs3).
             if remaining < of_nat hdr_len + n
             then Inl (Horace_Error ''overrun while parsing attribute list'')
             else attr_list_parse s (remaining - (of_nat hdr_len + n)) (attr_insert a as) bs3)))"
  by pat_completeness auto

section \<open>Consumption and termination\<close>

lemma read_octets_consumes: "read_octets n bs = Inr (xs, bs') \<Longrightarrow> length bs = n + length bs'"
  by (auto simp: read_octets_eq_Inr)

lemmas leaf_parse_defs =
  parse_unsigned_integer_def parse_signed_integer_def parse_binary_def parse_string_def
  parse_timestamp_def parse_boolean_def parse_unrecognised_def

lemma leaf_parse_consumes:
  "parse_unsigned_integer i n bs = Inr (a, bs') \<Longrightarrow> length bs = unat n + length bs'"
  "parse_signed_integer i n bs = Inr (a, bs') \<Longrightarrow> length bs = unat n + length bs'"
  "parse_binary i n bs = Inr (a, bs') \<Longrightarrow> length bs = unat n + length bs'"
  "parse_string i n bs = Inr (a, bs') \<Longrightarrow> length bs = unat n + length bs'"
  "parse_boolean i n bs = Inr (a, bs') \<Longrightarrow> length bs = unat n + length bs'"
  "parse_unrecognised i n bs = Inr (a, bs') \<Longrightarrow> length bs = unat n + length bs'"
  by (auto simp: leaf_parse_defs read_content_def split: if_splits
      dest!: read_unsigned_consumes read_signed_consumes read_octets_consumes read_string_consumes)

lemma parse_timestamp_consumes:
  assumes "parse_timestamp i n bs = Inr (a, bs')"
  shows "length bs = unat n + length bs'"
proof -
  from assms have "5 \<le> n"
    by (auto simp: parse_timestamp_def split: if_splits)
  then have "unat (n - 4) = unat n - 4" and "4 \<le> unat n"
    by (auto simp: unat_sub word_le_nat_alt)
  with assms show ?thesis
    by (auto simp: parse_timestamp_def Let_def split: if_splits dest!: read_unsigned_consumes)
qed

lemmas parse_consumes = leaf_parse_consumes parse_timestamp_consumes

lemma read_attr_header_consumes:
  assumes "read_attr_header bs = Inr (i, n, m, bs2)"
  shows "length bs = m + length bs2" and "2 \<le> m"
  using assms read_signed_base128_count_consumes read_unsigned_base128_count_value
  unfolding read_attr_header_def by fastforce+

lemma attribute_parse_dom_consumes:
  "attribute_parse_attr_list_parse_dom (Inl (s, i, n, bs)) \<Longrightarrow>
     (\<And>a bs'. attribute_parse s i n bs = Inr (a, bs') \<Longrightarrow> length bs' \<le> length bs)"
  "attribute_parse_attr_list_parse_dom (Inr (s, remaining, as, cs)) \<Longrightarrow>
     (\<And>xs cs'. attr_list_parse s remaining as cs = Inr (xs, cs') \<Longrightarrow> length cs' \<le> length cs)"
proof (induction s i n bs and s remaining as cs rule: attribute_parse_attr_list_parse.pinduct)
  case (1 s i n bs)
  from "1.prems" obtain ty where ty: "get_attr_type s i = Inr ty"
    by (auto simp: attribute_parse.psimps[OF "1.hyps"])
  show ?case
  proof (cases "ty = type_compound")
    case True
    with "1.prems" "1.IH"[OF ty True] ty show ?thesis
      by (auto simp: attribute_parse.psimps[OF "1.hyps"])
  next
    case False
    with "1.prems" ty show ?thesis
      by (auto simp: attribute_parse.psimps[OF "1.hyps"] dest: parse_consumes split: if_splits)
  qed
next
  case (2 s remaining as bs)
  show ?case
  proof (cases "remaining = 0")
    case True
    with "2.prems" show ?thesis
      unfolding attr_list_parse.psimps[OF "2.hyps"] by simp
  next
    case False
    with "2.prems" obtain i n m bs2 a bs3 where
      h: "read_attr_header bs = Inr (i, n, m, bs2)"
      and a: "attribute_parse s i n bs2 = Inr (a, bs3)"
      and fit: "\<not> remaining < of_nat m + n"
      and rec: "attr_list_parse s (remaining - (of_nat m + n)) (attr_insert a as) bs3 = Inr (xs, cs')"
      by (auto simp: attr_list_parse.psimps[OF "2.hyps"] split: if_splits)
    have "length bs3 \<le> length bs2"
      by (rule "2.IH"(1)[OF False h refl refl refl a])
    moreover have "length cs' \<le> length bs3"
      by (rule "2.IH"(2)[OF False h refl refl refl a refl fit rec])
    ultimately show ?thesis
      using read_attr_header_consumes[OF h] by simp
  qed
qed

lemma attribute_parse_total: "All attribute_parse_attr_list_parse_dom"
proof (relation "measure (case_sum (\<lambda>(s, i, n, bs). 2 * length bs + 1)
    (\<lambda>(s, remaining, as, bs). 2 * length bs))", goal_cases)
  case (3 s remaining as bs x i y n z m bs2)
  then show ?case
    using read_attr_header_consumes[of bs i n m bs2] by auto
next
  case (4 s remaining as bs x i y n z m bs2 p a bs3)
  then show ?case
    using read_attr_header_consumes[of bs i n m bs2]
      attribute_parse_dom_consumes(1)[of s i n bs2 a bs3] by auto
qed auto

termination attribute_parse
  by (rule attribute_parse_total)

lemma attribute_parse_shrinks:
  "attribute_parse s i n bs = Inr (a, bs') \<Longrightarrow> length bs' \<le> length bs"
  by (rule attribute_parse_dom_consumes(1)[OF spec[OF attribute_parse_total]])

declare attribute_parse.simps [simp del] attr_list_parse.simps [simp del]

section \<open>Lengths are sufficient and minimal\<close>

lemma ui_length_loop_spec:
  "\<exists>k. ui_length_loop r len = len + k \<and> drop_bit (8 * k) r = 0
     \<and> (0 < k \<longrightarrow> drop_bit (8 * (k - 1)) r \<noteq> 0)"
proof (induction r len rule: ui_length_loop.induct)
  case (1 r len)
  show ?case
  proof (cases "r = 0")
    case True
    then show ?thesis
      by (simp add: ui_length_loop.simps)
  next
    case False
    from "1.IH"[OF False] obtain k where
      k: "ui_length_loop (drop_bit 8 r) (len + 1) = len + 1 + k"
        "drop_bit (8 * k) (drop_bit 8 r) = 0"
        "0 < k \<longrightarrow> drop_bit (8 * (k - 1)) (drop_bit 8 r) \<noteq> 0"
      by metis
    have "drop_bit (8 * k) r \<noteq> 0"
      using k(3) False by (cases k) (simp_all add: algebra_simps)
    with k False show ?thesis
      by (intro exI[of _ "Suc k"]) (simp add: ui_length_loop.simps[of r] algebra_simps)
  qed
qed

lemma ui_length_fits: "drop_bit (8 * ui_length v) v = 0"
  using ui_length_loop_spec[of v 0] by (auto simp: ui_length_def)

lemma ui_length_minimal: "drop_bit (8 * k) v = 0 \<Longrightarrow> ui_length v \<le> k"
proof (rule ccontr)
  assume v: "drop_bit (8 * k) v = 0" and "\<not> ui_length v \<le> k"
  then have "k \<le> ui_length v - 1" and "0 < ui_length v"
    by simp_all
  moreover have "drop_bit (8 * (ui_length v - 1)) v \<noteq> 0" if "0 < ui_length v"
    using that ui_length_loop_spec[of v 0] by (auto simp: ui_length_def)
  ultimately show False
    using drop_bit_0_mono[OF v, of "8 * (ui_length v - 1)"] by simp
qed

lemma ui_length_le_8: "ui_length v \<le> 8"
  by (rule ui_length_minimal) simp

lemma ts_length_eq: "ts_length sec = 4 + ui_length sec"
proof -
  have "ui_length_loop r (n + m) = n + ui_length_loop r m" for r n m
  proof (induction r m rule: ui_length_loop.induct)
    case (1 r m)
    then show ?case
      by (simp add: ui_length_loop.simps[of r])
  qed
  from this[of sec 4 0] show ?thesis
    by (simp add: ts_length_def ui_length_def)
qed

lemma si_length_loop_spec:
  assumes "term = sign_word v" and "sz = 8 * cnt - 1" and "0 < cnt" and "cnt \<le> 8"
  shows "\<exists>n. si_length_loop v term sz cnt = Inr n \<and> cnt \<le> n \<and> n \<le> 8
    \<and> signed_drop_bit (8 * n - 1) v = sign_word v
    \<and> (cnt < n \<longrightarrow> signed_drop_bit (8 * (n - 1) - 1) v \<noteq> sign_word v)"
  using assms
proof (induction v "term" sz cnt rule: si_length_loop.induct)
  case (1 v "term" sz cnt)
  then have "\<not> 64 \<le> sz"
    by simp
  show ?case
  proof (cases "signed_drop_bit sz v = term")
    case True
    with \<open>\<not> 64 \<le> sz\<close> have "si_length_loop v term sz cnt = Inr cnt"
      by (simp add: si_length_loop.simps[of v "term" sz])
    with True "1.prems" show ?thesis
      by (intro exI[of _ cnt]) simp
  next
    case False
    with "1.prems" have "cnt \<noteq> 8"
      by (auto simp: signed_drop_bit_large)
    with "1.prems" have p: "sz + 8 = 8 * (cnt + 1) - 1" "0 < cnt + 1" "cnt + 1 \<le> 8"
      by simp_all
    from "1.IH"[OF \<open>\<not> 64 \<le> sz\<close> False "1.prems"(1) p] obtain n where
      n: "si_length_loop v term (sz + 8) (cnt + 1) = Inr n" "cnt + 1 \<le> n" "n \<le> 8"
        "signed_drop_bit (8 * n - 1) v = sign_word v"
        "cnt + 1 < n \<longrightarrow> signed_drop_bit (8 * (n - 1) - 1) v \<noteq> sign_word v"
      by auto
    have "signed_drop_bit (8 * (n - 1) - 1) v \<noteq> sign_word v"
      using n False "1.prems"(1,2) by (cases "n = cnt + 1") auto
    with n False \<open>\<not> 64 \<le> sz\<close> show ?thesis
      by (simp add: si_length_loop.simps[of v "term" sz])
  qed
qed

lemma i64_sign: "bit (v :: i64) 63 \<longleftrightarrow> sint v < 0"
  using bit_last_iff[of v] by simp

lemma si_length_total:
  obtains n where "si_length v = Inr n" and "n \<le> 8"
    and "v = 0 \<longleftrightarrow> n = 0" and "0 < n \<longrightarrow> signed_drop_bit (8 * n - 1) v = sign_word v"
proof (cases "v = 0")
  case True
  then show ?thesis
    by (intro that[of 0]) (simp_all add: si_length_def)
next
  case False
  have "(if 0 \<le> sint v then 0 else - 1) = sign_word v"
    by (simp add: sign_word_def i64_sign)
  then show ?thesis
    using si_length_loop_spec[of "if 0 \<le> sint v then 0 else - 1" v 7 1] False that
    by (fastforce simp: si_length_def)
qed


section \<open>The encoded size, as natural numbers\<close>

definition header_len :: "i32 \<Rightarrow> nat \<Rightarrow> nat" where
  "header_len i n = length (sb128_octets (scast i)) + length (ub128_octets (of_nat n))"

fun content_len :: "attribute \<Rightarrow> nat"
  and contents_len :: "attribute list \<Rightarrow> nat" where
  "content_len (Compound i as) = contents_len as"
| "content_len (Unsigned_Integer i v) = ui_length v"
| "content_len (Signed_Integer i v) = (case si_length v of Inr n \<Rightarrow> n | Inl _ \<Rightarrow> 0)"
| "content_len (Binary i bs) = length bs"
| "content_len (String_Attr i s) = length s"
| "content_len (Timestamp i sec nsec) = ts_length sec"
| "content_len (Boolean i b) = 1"
| "content_len (Unrecognised i bs) = length bs"
| "contents_len [] = 0"
| "contents_len (a # as) =
     header_len (attrid a) (content_len a) + content_len a + contents_len as"

lemma ub128_ok_of_nat: "n < 2 ^ 63 \<Longrightarrow> ub128_ok (of_nat n)"
  unfolding ub128_ok_def bit_of_nat_iff by (simp add: bit_iff_odd)

lemma attr_header_ok:
  assumes "n < 2 ^ 63"
  shows "attr_header i (of_nat n) = Inr (sb128_octets (scast i) @ ub128_octets (of_nat n))"
  using assms by (simp add: attr_header_def sb128_octets_props(1) ub128_octets_props(1) ub128_ok_of_nat)

lemma attr_length_content_len:
  "content_len a < 2 ^ 63 \<Longrightarrow> attr_length a = Inr (of_nat (content_len a))"
  "contents_len as < 2 ^ 63 \<Longrightarrow> attrs_length len as = Inr (len + of_nat (contents_len as))"
proof (induction a and len as rule: attr_length_attrs_length.induct)
  case (3 i v)
  obtain n where "si_length v = Inr n"
    by (rule si_length_total)
  then show ?case
    by simp
next
  case (10 len a as)
  then have a: "attr_length a = Inr (of_nat (content_len a))" "content_len a < 2 ^ 63"
    and as: "contents_len as < 2 ^ 63"
    by simp_all
  note s = sb128_octets_props(2)[OF sb128_ok_scast, of "attrid a"]
  note u = ub128_octets_props(2)[OF ub128_ok_of_nat[OF a(2)]]
  from "10.IH"(2)[OF a(1) s u as] a(1) s u show ?case
    by (simp add: header_len_def ac_simps)
qed simp_all

lemma attr_write_content:
  "content_len a < 2 ^ 63 \<Longrightarrow>
     \<exists>body. attr_write a = Inr (sb128_octets (scast (attrid a)) @ ub128_octets (of_nat (content_len a)) @ body)
       \<and> length body = content_len a"
  "contents_len as < 2 ^ 63 \<Longrightarrow>
     \<exists>bs. attrs_write as = Inr bs \<and> length bs = contents_len as"
proof (induction a and as rule: attr_write_attrs_write.induct)
  case (1 i as)
  then show ?case
    by (auto simp: attr_list_length_def attr_length_content_len(2) attr_header_ok)
next
  case (2 i v)
  then show ?case
    using ui_length_le_8[of v] by (auto simp: attr_header_ok write_unsigned_def)
next
  case (3 i v)
  obtain n where "si_length v = Inr n" "n \<le> 8"
    by (rule si_length_total)
  then show ?case
    by (auto simp: attr_header_ok write_signed_def)
next
  case (6 i sec nsec)
  then show ?case
    using ui_length_le_8[of sec] attr_header_ok[of "4 + ui_length sec" i]
    by (auto simp: write_unsigned_def ts_length_eq)
next
  case (7 i b)
  then show ?case
    using attr_header_ok[of 1 i] by auto
next
  case (10 a as)
  then obtain body bs where
    "attr_write a = Inr (sb128_octets (scast (attrid a)) @ ub128_octets (of_nat (content_len a)) @ body)"
    "length body = content_len a" "attrs_write as = Inr bs" "length bs = contents_len as"
    by auto
  then show ?case
    by (simp add: header_len_def)
qed (auto simp: attr_header_ok write_string_def)


section \<open>What a parse returns\<close>

text \<open>
  \<open>attr_wf s a\<close>: the attribute has the class that the session gives for its identifier, its
  content is within the limits of that class, and nested lists are in canonical order.
\<close>

fun attr_wf :: "session_context \<Rightarrow> attribute \<Rightarrow> bool" where
  "attr_wf s (Compound i as) \<longleftrightarrow> get_attr_type s i = Inr type_compound
     \<and> sorted (map attr_key as) \<and> list_all (attr_wf s) as"
| "attr_wf s (Unsigned_Integer i v) \<longleftrightarrow> get_attr_type s i = Inr type_unsigned_integer"
| "attr_wf s (Signed_Integer i v) \<longleftrightarrow> get_attr_type s i = Inr type_signed_integer"
| "attr_wf s (Binary i bs) \<longleftrightarrow> get_attr_type s i = Inr type_binary"
| "attr_wf s (String_Attr i t) \<longleftrightarrow> get_attr_type s i = Inr type_string"
| "attr_wf s (Timestamp i sec nsec) \<longleftrightarrow> get_attr_type s i = Inr type_timestamp
     \<and> 0 \<le> sint sec \<and> 0 \<le> sint nsec \<and> sint nsec < 2000000000"
| "attr_wf s (Boolean i b) \<longleftrightarrow> get_attr_type s i = Inr type_boolean"
| "attr_wf s (Unrecognised i bs) \<longleftrightarrow> (\<exists>ty. get_attr_type s i = Inr ty \<and> ty \<notin>
     {type_compound, type_unsigned_integer, type_signed_integer, type_binary, type_string,
      type_timestamp, type_boolean})"

definition attrs_wf :: "session_context \<Rightarrow> attribute list \<Rightarrow> bool" where
  "attrs_wf s as \<longleftrightarrow> sorted (map attr_key as) \<and> list_all (attr_wf s) as"

lemma attrs_wf_insert: "attr_wf s a \<Longrightarrow> attrs_wf s as \<Longrightarrow> attrs_wf s (attr_insert a as)"
  by (auto simp: attrs_wf_def sorted_attr_insert list_all_iff)

lemma sint_ucast_u32: "sint (ucast (w :: u32) :: i64) = uint w"
proof -
  have "uint (ucast w :: i64) = uint w"
    by (simp add: unsigned_ucast_eq take_bit_int_eq_self unsigned_less[of w, THEN order_less_trans])
  then show ?thesis
    using unsigned_less[of w, where ?'a = int] by (simp add: sint_64)
qed

lemma sint_of_le_max: "\<not> 0x7fffffffffffffff < (v :: u64) \<Longrightarrow> 0 \<le> sint (v :: i64)"
  by (simp add: sint_64 word_less_def)

lemma leaf_parse_wf:
  "parse_unsigned_integer i n bs = Inr (a, bs') \<Longrightarrow> get_attr_type s i = Inr type_unsigned_integer \<Longrightarrow>
     attr_wf s a \<and> attrid a = i"
  "parse_signed_integer i n bs = Inr (a, bs') \<Longrightarrow> get_attr_type s i = Inr type_signed_integer \<Longrightarrow>
     attr_wf s a \<and> attrid a = i"
  "parse_binary i n bs = Inr (a, bs') \<Longrightarrow> get_attr_type s i = Inr type_binary \<Longrightarrow>
     attr_wf s a \<and> attrid a = i"
  "parse_string i n bs = Inr (a, bs') \<Longrightarrow> get_attr_type s i = Inr type_string \<Longrightarrow>
     attr_wf s a \<and> attrid a = i"
  "parse_boolean i n bs = Inr (a, bs') \<Longrightarrow> get_attr_type s i = Inr type_boolean \<Longrightarrow>
     attr_wf s a \<and> attrid a = i"
  by (auto simp: leaf_parse_defs split: if_splits)

lemma parse_timestamp_wf:
  "parse_timestamp i n bs = Inr (a, bs') \<Longrightarrow> get_attr_type s i = Inr type_timestamp \<Longrightarrow>
     attr_wf s a \<and> attrid a = i"
  by (auto simp: parse_timestamp_def Let_def sint_ucast_u32 sint_of_le_max word_le_def not_le
      split: if_splits)

lemma parse_unrecognised_wf:
  "parse_unrecognised i n bs = Inr (a, bs') \<Longrightarrow> get_attr_type s i = Inr ty \<Longrightarrow>
     ty \<notin> {type_compound, type_unsigned_integer, type_signed_integer, type_binary, type_string,
       type_timestamp, type_boolean} \<Longrightarrow> attr_wf s a \<and> attrid a = i"
  by (auto simp: parse_unrecognised_def)

lemma parse_wf:
  "attribute_parse s i n bs = Inr (a, bs') \<Longrightarrow> attr_wf s a \<and> attrid a = i"
  "attr_list_parse s remaining as cs = Inr (xs, cs') \<Longrightarrow> attrs_wf s as \<Longrightarrow> attrs_wf s xs"
proof (induction s i n bs and s remaining as cs arbitrary: a bs' and xs cs'
    rule: attribute_parse_attr_list_parse.induct)
  case (1 s i n bs)
  from "1.prems" obtain ty where ty: "get_attr_type s i = Inr ty"
    by (auto simp: attribute_parse.simps)
  show ?case
  proof (cases "ty = type_compound")
    case True
    with "1.prems" "1.IH"[OF ty True] ty show ?thesis
      by (auto simp: attribute_parse.simps[of s i] attrs_wf_def)
  next
    case False
    with "1.prems" ty show ?thesis
      by (auto simp: attribute_parse.simps[of s i] split: if_splits
          intro: leaf_parse_wf[THEN conjunct1] leaf_parse_wf[THEN conjunct2]
            parse_timestamp_wf[THEN conjunct1] parse_timestamp_wf[THEN conjunct2]
            parse_unrecognised_wf[THEN conjunct1] parse_unrecognised_wf[THEN conjunct2])
  qed
next
  case (2 s remaining as bs)
  show ?case
  proof (cases "remaining = 0")
    case True
    with "2.prems" show ?thesis
      by (simp add: attr_list_parse.simps)
  next
    case False
    with "2.prems" obtain i n m bs2 a bs3 where
      h: "read_attr_header bs = Inr (i, n, m, bs2)"
      and a: "attribute_parse s i n bs2 = Inr (a, bs3)"
      and fit: "\<not> remaining < of_nat m + n"
      and rec: "attr_list_parse s (remaining - (of_nat m + n)) (attr_insert a as) bs3 = Inr (xs, cs')"
      by (auto simp: attr_list_parse.simps[of s remaining] split: if_splits)
    have "attr_wf s a"
      using "2.IH"(1)[OF False h refl refl refl a] by simp
    then show ?thesis
      by (intro "2.IH"(2)[OF False h refl refl refl a refl fit rec] attrs_wf_insert "2.prems"(2))
  qed
qed

section \<open>Exact consumption\<close>

lemma unat_header_size:
  assumes "m + unat n < 2 ^ 64"
  shows "unat (of_nat m + n :: u64) = m + unat n"
proof -
  have "of_nat m + n = (of_nat (m + unat n) :: u64)"
    by simp
  then show ?thesis
    using unat_of_nat_64[OF assms] by (simp only:)
qed

lemma parse_exact:
  "attribute_parse s i n bs = Inr (a, bs') \<Longrightarrow> length bs < 2 ^ 63 \<Longrightarrow>
     length bs = unat n + length bs'"
  "attr_list_parse s remaining as cs = Inr (xs, cs') \<Longrightarrow> length cs < 2 ^ 63 \<Longrightarrow>
     length cs = unat remaining + length cs'"
proof (induction s i n bs and s remaining as cs arbitrary: a bs' and xs cs'
    rule: attribute_parse_attr_list_parse.induct)
  case (1 s i n bs)
  from "1.prems" obtain ty where ty: "get_attr_type s i = Inr ty"
    by (auto simp: attribute_parse.simps)
  show ?case
  proof (cases "ty = type_compound")
    case True
    with "1.prems" "1.IH"[OF ty True] ty show ?thesis
      by (auto simp: attribute_parse.simps[of s i])
  next
    case False
    with "1.prems" ty show ?thesis
      by (auto simp: attribute_parse.simps[of s i] dest: parse_consumes split: if_splits)
  qed
next
  case (2 s remaining as bs)
  show ?case
  proof (cases "remaining = 0")
    case True
    with "2.prems" show ?thesis
      by (simp add: attr_list_parse.simps)
  next
    case False
    with "2.prems" obtain i n m bs2 a bs3 where
      h: "read_attr_header bs = Inr (i, n, m, bs2)"
      and a: "attribute_parse s i n bs2 = Inr (a, bs3)"
      and fit: "\<not> remaining < of_nat m + n"
      and rec: "attr_list_parse s (remaining - (of_nat m + n)) (attr_insert a as) bs3 = Inr (xs, cs')"
      by (auto simp: attr_list_parse.simps[of s remaining] split: if_splits)
    have m: "length bs = m + length bs2"
      by (rule read_attr_header_consumes(1)[OF h])
    then have n: "length bs2 = unat n + length bs3"
      using "2.IH"(1)[OF False h refl refl refl a] "2.prems"(2) by simp
    then have r: "length bs3 = unat (remaining - (of_nat m + n)) + length cs'"
      using "2.IH"(2)[OF False h refl refl refl a refl fit rec] "2.prems"(2) m by simp
    have "unat (of_nat m + n) = m + unat n"
      using m n "2.prems"(2) by (intro unat_header_size) simp
    moreover have "unat (remaining - (of_nat m + n)) = unat remaining - unat (of_nat m + n)"
      and "unat (of_nat m + n) \<le> unat remaining"
      using fit by (simp_all add: unat_sub not_less word_le_nat_alt)
    ultimately show ?thesis
      using m n r by simp
  qed
qed

section \<open>What cannot be read back\<close>

text \<open>
  Two kinds of attribute are written but not read back. A timestamp whose seconds are zero has
  content of four octets, which the parser rejects; a negative identifier or integer of more than one
  octet makes the reader shift a negative number. \<open>content_fault\<close> is how reading the content of an
  attribute fails, \<open>attrs_fault\<close> how reading a list of attributes does: as its first fault.
\<close>

definition id_fault :: "i32 \<Rightarrow> exn option" where
  "id_fault i = (if sint i < - 64 then Some (Undefined_Behaviour ''shift'') else None)"

fun content_fault :: "attribute \<Rightarrow> exn option"
  and attrs_fault :: "attribute list \<Rightarrow> exn option" where
  "content_fault (Compound i as) = attrs_fault as"
| "content_fault (Signed_Integer i v) =
     (if sint v < - 128 then Some (Undefined_Behaviour ''shift'') else None)"
| "content_fault (Timestamp i sec nsec) =
     (if sec = 0 then Some (Horace_Error ''invalid length for timestamp attribute'') else None)"
| "content_fault (Unsigned_Integer i v) = None"
| "content_fault (Binary i bs) = None"
| "content_fault (String_Attr i t) = None"
| "content_fault (Boolean i b) = None"
| "content_fault (Unrecognised i bs) = None"
| "attrs_fault [] = None"
| "attrs_fault (a # as) =
     (case id_fault (attrid a) of
        Some e \<Rightarrow> Some e
      | None \<Rightarrow> (case content_fault a of Some e \<Rightarrow> Some e | None \<Rightarrow> attrs_fault as))"

definition encodable :: "attribute \<Rightarrow> bool" where
  "encodable a \<longleftrightarrow> id_fault (attrid a) = None \<and> content_fault a = None"

lemma attrs_fault_None: "attrs_fault as = None \<longleftrightarrow> list_all encodable as"
  by (induction as) (auto simp: encodable_def split: option.splits)

lemma id_fault_None: "id_fault i = None \<longleftrightarrow> - 64 \<le> sint i"
  by (auto simp: id_fault_def)

lemma encodable_simps [simp]:
  "encodable (Compound i as) \<longleftrightarrow> - 64 \<le> sint i \<and> list_all encodable as"
  "encodable (Signed_Integer i v) \<longleftrightarrow> - 64 \<le> sint i \<and> - 128 \<le> sint v"
  "encodable (Timestamp i sec nsec) \<longleftrightarrow> - 64 \<le> sint i \<and> sec \<noteq> 0"
  "encodable (Unsigned_Integer i w) \<longleftrightarrow> - 64 \<le> sint i"
  "encodable (Binary i bs) \<longleftrightarrow> - 64 \<le> sint i"
  "encodable (String_Attr i t) \<longleftrightarrow> - 64 \<le> sint i"
  "encodable (Boolean i b) \<longleftrightarrow> - 64 \<le> sint i"
  "encodable (Unrecognised i bs) \<longleftrightarrow> - 64 \<le> sint i"
  by (auto simp: encodable_def id_fault_None attrs_fault_None)

lemma content_fault_cases:
  "content_fault a = Some e \<Longrightarrow> e = Undefined_Behaviour ''shift''
     \<or> e = Horace_Error ''invalid length for timestamp attribute''"
  "attrs_fault as = Some e \<Longrightarrow> e = Undefined_Behaviour ''shift''
     \<or> e = Horace_Error ''invalid length for timestamp attribute''"
  by (induction a and as rule: content_fault_attrs_fault.induct)
    (auto simp: id_fault_def split: if_splits option.splits)

lemma wire_ids [simp]:
  "- 64 \<le> sint attrid_protocol" "- 64 \<le> sint attrid_attr_def" "- 64 \<le> sint attrid_attr_id"
  "- 64 \<le> sint attrid_attr_label" "- 64 \<le> sint attrid_chan_def" "- 64 \<le> sint attrid_chan_id"
  "- 64 \<le> sint attrid_chan_label" "- 64 \<le> sint attrid_type" "- 64 \<le> sint attrid_source"
  "- 64 \<le> sint attrid_seqnum" "- 64 \<le> sint attrid_ts" "- 64 \<le> sint attrid_time_system"
  "- 64 \<le> sint attrid_message" "- 64 \<le> sint attrid_hash" "- 64 \<le> sint attrid_hash_alg"
  "- 64 \<le> sint attrid_sig" "- 64 \<le> sint attrid_sig_alg" "- 64 \<le> sint attrid_sig_pubkey"
  by (simp_all add: attrid_constants)

section \<open>Round trip\<close>

lemma sint_scast_64 [simp]: "sint (scast (i :: i32) :: i64) = sint i"
  by (rule sint_up_scast) (simp add: is_up)

lemma read_attr_header_ok:
  assumes "n < 2 ^ 31"
  shows "read_attr_header (sb128_octets (scast i) @ ub128_octets (of_nat n) @ rest)
    = (case id_fault i of Some e \<Rightarrow> Inl e | None \<Rightarrow> Inr (i, of_nat n, header_len i n, rest))"
proof -
  have "ub128_ok (of_nat n)"
    using assms by (intro ub128_ok_of_nat) simp
  note u = ub128_octets_props(4)[OF this]
  note s = sb128_octets_props(4)[OF sb128_ok_scast, of 0 i "ub128_octets (of_nat n) @ rest"]
  have "attr_size (of_nat n) = of_nat n"
  proof -
    have "\<not> bit (of_nat n :: u64) k" if "31 \<le> k" "k < 64" for k
      by (rule bit_of_nat_high[OF assms that(1)])
    then show ?thesis
      unfolding attr_size_def
      by (intro bit_word_eqI) (auto simp: bit_simps min_def not_le)
  qed
  moreover have "ucast (scast i :: i64) = i"
  proof (rule bit_word_eqI)
    fix k assume "k < LENGTH(32)"
    then show "bit (ucast (scast i :: i64) :: i32) k = bit i k"
      by (cases "k = 31") (auto simp: bit_simps min_def)
  qed
  ultimately show ?thesis
    unfolding read_attr_header_def s by (simp add: u header_len_def id_fault_def)
qed

lemma parse_boolean_write:
  "parse_boolean i 1 ((if b then 1 else 0) # rest) = Inr (Boolean i b, rest)"
  by (simp add: parse_boolean_def)

lemma read_content_append: "length xs < 2 ^ 31 \<Longrightarrow>
  read_content (of_nat (length xs)) (xs @ rest) = Inr (xs, rest)"
  by (simp add: read_content_def word_le_nat_alt unat_of_nat_64)

lemma read_string_append: "length t < 2 ^ 31 \<Longrightarrow>
  read_string (of_nat (length t)) (write_string t @ rest) = Inr (t, rest)"
  by (simp add: read_string_def write_string_def word_le_nat_alt unat_of_nat_64 comp_def)

lemma parse_unsigned_integer_write:
  "parse_unsigned_integer i (of_nat (ui_length v)) (be_octets v (ui_length v) @ rest)
     = Inr (Unsigned_Integer i v, rest)"
  using ui_length_le_8[of v] read_unsigned_be_octets[OF ui_length_le_8 ui_length_fits, of v rest]
  by (simp add: parse_unsigned_integer_def word_less_nat_alt unat_of_nat_64)

lemma signed_one_octet: "signed_drop_bit 7 v = sign_word v \<longleftrightarrow> - 128 \<le> sint v \<and> sint v < (128 :: int)"
proof -
  have "sint (signed_drop_bit 7 v) = sint v div 128"
    by (simp add: sint_signed_drop_bit_eq drop_bit_eq_div)
  moreover have "sint (sign_word v) = (if sint v < 0 then - 1 else 0)"
    by (simp add: sign_word_def i64_sign)
  moreover have "x div 128 = (if x < 0 then - 1 else 0) \<longleftrightarrow> - 128 \<le> x \<and> x < 128" for x :: int
    by presburger
  ultimately show ?thesis
    by (metis signed_word_eqI)
qed

lemma si_length_octets:
  assumes "si_length v = Inr n"
  shows "bit v 63 \<and> 1 < n \<longleftrightarrow> sint v < - 128"
proof (cases "v = 0")
  case True
  with assms show ?thesis
    by (simp add: si_length_def)
next
  case False
  have w: "(if 0 \<le> sint v then 0 else - 1) = sign_word v"
    by (simp add: sign_word_def i64_sign)
  from si_length_loop_spec[OF w, of 7 1] obtain m where
    "si_length_loop v (if 0 \<le> sint v then 0 else - 1) 7 1 = Inr m" "1 \<le> m"
    by auto
  with assms False have n: "1 \<le> n" "si_length_loop v (sign_word v) 7 1 = Inr n"
    by (simp_all add: si_length_def w)
  have "signed_drop_bit 7 v \<noteq> sign_word v \<longleftrightarrow> 1 < n"
  proof (cases "signed_drop_bit 7 v = sign_word v")
    case False
    from si_length_loop_spec[OF refl, of 15 2 v] obtain k where
      "si_length_loop v (sign_word v) 15 2 = Inr k" "2 \<le> k"
      by auto
    with False n(2) show ?thesis
      by (simp add: si_length_loop.simps[of v _ 7] numeral_2_eq_2)
  qed (use n(2) in \<open>simp add: si_length_loop.simps[of v _ 7]\<close>)
  then show ?thesis
    by (auto simp: signed_one_octet i64_sign)
qed

lemma parse_signed_integer_write:
  assumes "si_length v = Inr n"
  shows "parse_signed_integer i (of_nat n) (be_octets v n @ rest)
    = (if sint v < - 128 then Inl (Undefined_Behaviour ''shift'') else Inr (Signed_Integer i v, rest))"
proof -
  obtain m where m: "si_length v = Inr m" "m \<le> 8" "v = 0 \<longleftrightarrow> m = 0"
    "0 < m \<longrightarrow> signed_drop_bit (8 * m - 1) v = sign_word v"
    using si_length_total[of v] by metis
  with assms have "n = m"
    by simp
  then have "read_signed n (be_octets v n @ rest)
      = (if sint v < - 128 then Inl (Undefined_Behaviour ''shift'') else Inr (v, rest))"
    using m si_length_octets[OF assms] read_signed_be_octets[of "n - 1" v rest]
    by (cases n) (auto simp: ac_simps)
  with m \<open>n = m\<close> show ?thesis
    by (simp add: parse_signed_integer_def word_less_nat_alt unat_of_nat_64)
qed

lemma parse_timestamp_write:
  assumes "0 \<le> sint sec" and "0 \<le> sint nsec" and "sint nsec < 2000000000"
  shows "parse_timestamp i (of_nat (ts_length sec))
    (be_octets sec (ts_length sec - 4) @ be_octets nsec 4 @ rest)
    = (if sec = 0 then Inl (Horace_Error ''invalid length for timestamp attribute'')
       else Inr (Timestamp i sec nsec, rest))"
proof (cases "sec = 0")
  case True
  then have "ts_length sec = 4"
    by (simp add: ts_length_eq ui_length_def ui_length_loop.simps)
  with True show ?thesis
    by (simp add: parse_timestamp_def)
next
  case False
  have "ui_length sec \<noteq> 0"
    using ui_length_fits[of sec] False by (cases "ui_length sec") auto
  then have len: "unat (of_nat (ts_length sec) :: u64) = 4 + ui_length sec" "0 < ui_length sec"
    using ui_length_le_8[of sec] \<open>ui_length sec \<noteq> 0\<close>
    by (simp_all add: ts_length_eq unat_of_nat_64 del: of_nat_add)
  have sec: "\<not> 0x7fffffffffffffff < sec"
    using assms(1) unsigned_less[of sec, where ?'a = int]
    by (simp add: sint_64 word_less_def split: if_splits)
  have nsec: "uint nsec < 2000000000"
    using assms(2,3) unsigned_less[of nsec, where ?'a = int] by (simp add: sint_64 split: if_splits)
  have high: "\<not> bit nsec k" if "31 \<le> k" for k
  proof -
    have "uint nsec < 2 ^ 31"
      using nsec by simp
    also have "(2 :: int) ^ 31 \<le> 2 ^ k"
      using that by (intro power_increasing) simp_all
    finally have "\<not> bit (uint nsec) k"
      by (simp add: bit_iff_odd)
    then show ?thesis
      using bit_imp_le_length[of nsec k] by (auto simp: bit_uint_iff)
  qed
  then have "drop_bit 32 nsec = 0"
    by (intro bit_word_eqI) (auto simp: bit_simps)
  then have r: "read_unsigned 4 (be_octets nsec 4 @ rest) = Inr (nsec, rest)"
    by (intro read_unsigned_be_octets) simp_all
  have u: "ucast (ucast nsec :: u32) = nsec"
    using high by (intro bit_word_eqI) (auto simp: bit_simps not_le intro: ccontr)
  have "\<not> 2000000000 \<le> (ucast nsec :: u32)"
    using nsec by (simp add: word_le_def unsigned_ucast_eq take_bit_int_eq_self)
  moreover have "unat (of_nat (ts_length sec) - 4 :: u64) = ui_length sec"
    using len by (simp add: unat_sub word_le_nat_alt)
  ultimately show ?thesis
    using len sec r u ui_length_le_8[of sec] False
      read_unsigned_be_octets[OF ui_length_le_8 ui_length_fits, of sec "be_octets nsec 4 @ rest"]
    by (simp add: parse_timestamp_def Let_def word_less_nat_alt ts_length_eq not_less)
qed


text \<open>
  Reading back what was written, with the content of an attribute and its header separated.
\<close>

lemma contents_len_append: "contents_len (xs @ ys) = contents_len xs + contents_len ys"
  by (induction xs) simp_all

lemma contents_len_insert:
  "contents_len (attr_insert a as) = header_len (attrid a) (content_len a) + content_len a + contents_len as"
  using attr_insert_split[of as a] by (auto simp: contents_len_append)

lemma content_len_le: "a \<in> set as \<Longrightarrow> content_len a \<le> contents_len as"
  by (induction as) auto

definition parses_back :: "session_context \<Rightarrow> attribute \<Rightarrow> bool" where
  "parses_back s a \<longleftrightarrow> (\<exists>body. attr_write a
       = Inr (sb128_octets (scast (attrid a)) @ ub128_octets (of_nat (content_len a)) @ body)
     \<and> length body = content_len a
     \<and> (\<forall>rest. attribute_parse s (attrid a) (of_nat (content_len a)) (body @ rest)
          = (case content_fault a of Some e \<Rightarrow> Inl e | None \<Rightarrow> Inr (a, rest))))"

lemma attr_list_parse_step:
  assumes "read_attr_header bs = Inr (i, of_nat c, m, bs2)" and "0 < m"
    and "attribute_parse s i (of_nat c) bs2 = Inr (a, bs3)" and "m + c + k < 2 ^ 63"
  shows "attr_list_parse s (of_nat (m + c + k)) acc bs
    = attr_list_parse s (of_nat k) (attr_insert a acc) bs3"
proof -
  have u: "unat (of_nat (m + c + k) :: u64) = m + c + k" "unat (of_nat (m + c) :: u64) = m + c"
    using assms(4) by (intro unat_of_nat_64; simp)+
  then have "(of_nat (m + c + k) :: u64) \<noteq> 0"
    using assms(2) by (metis add_gr_0 less_irrefl unsigned_0)
  moreover have "\<not> (of_nat (m + c + k) :: u64) < of_nat (m + c)"
    unfolding word_less_nat_alt u by simp
  moreover have "(of_nat (m + c + k) :: u64) - of_nat (m + c) = of_nat k"
    by simp
  ultimately show ?thesis
    using assms(1,3) by (subst attr_list_parse.simps) (simp only: if_False bindE_simps prod.case of_nat_add)
qed

lemma of_nat_64_nonzero:
  assumes "0 < k" and "k < 2 ^ 63"
  shows "(of_nat k :: u64) \<noteq> 0"
proof
  assume "(of_nat k :: u64) = 0"
  then have "unat (of_nat k :: u64) = 0"
    by simp
  moreover have "unat (of_nat k :: u64) = k"
    using assms(2) by (intro unat_of_nat_64) simp
  ultimately show False
    using assms(1) by simp
qed

lemma attr_list_parse_written:
  assumes "\<And>a. a \<in> set as \<Longrightarrow> parses_back s a"
    and "sorted (map attr_key (acc @ as))" and "contents_len as < 2 ^ 31"
  shows "\<exists>bs. attrs_write as = Inr bs \<and> length bs = contents_len as
    \<and> (\<forall>rest. attr_list_parse s (of_nat (contents_len as)) acc (bs @ rest)
         = (case attrs_fault as of Some e \<Rightarrow> Inl e | None \<Rightarrow> Inr (acc @ as, rest)))"
  using assms
proof (induction as arbitrary: acc)
  case Nil
  then show ?case
    by (simp add: attr_list_parse.simps)
next
  case (Cons a as)
  let ?h = "header_len (attrid a) (content_len a)"
  from Cons.prems(1)[of a] obtain body where body:
    "attr_write a = Inr (sb128_octets (scast (attrid a)) @ ub128_octets (of_nat (content_len a)) @ body)"
    "length body = content_len a"
    "\<And>rest. attribute_parse s (attrid a) (of_nat (content_len a)) (body @ rest)
      = (case content_fault a of Some e \<Rightarrow> Inl e | None \<Rightarrow> Inr (a, rest))"
    by (auto simp: parses_back_def)
  have ins: "attr_insert a acc = acc @ [a]"
    using Cons.prems(2) by (intro attr_insert_last) (simp add: sorted_append)
  from Cons obtain bs where bs: "attrs_write as = Inr bs" "length bs = contents_len as"
    "\<And>rest. attr_list_parse s (of_nat (contents_len as)) (acc @ [a]) (bs @ rest)
      = (case attrs_fault as of Some e \<Rightarrow> Inl e | None \<Rightarrow> Inr ((acc @ [a]) @ as, rest))"
    by (metis (no_types, lifting) append.assoc append_Cons append_Nil contents_len.simps(2)
        le_add2 le_less_trans list.set_intros(2))
  let ?octets = "sb128_octets (scast (attrid a)) @ ub128_octets (of_nat (content_len a)) @ body @ bs"
  have len: "contents_len (a # as) = ?h + content_len a + contents_len as"
    by simp
  have "ub128_ok (of_nat (content_len a))"
    using Cons.prems(3) by (intro ub128_ok_of_nat) simp
  then have pos: "0 < ?h"
    using ub128_octets_not_Nil by (simp add: header_len_def)
  have small: "content_len a < 2 ^ 31" "?h + content_len a + contents_len as < 2 ^ 63"
    using Cons.prems(3) by simp_all
  have nz: "(of_nat (contents_len (a # as)) :: u64) \<noteq> 0"
    using of_nat_64_nonzero[of "contents_len (a # as)"] pos small(2) len by simp
  have "attr_list_parse s (of_nat (contents_len (a # as))) acc (?octets @ rest)
    = (case attrs_fault (a # as) of Some e \<Rightarrow> Inl e | None \<Rightarrow> Inr (acc @ a # as, rest))" for rest
  proof -
    have h: "read_attr_header (?octets @ rest)
        = (case id_fault (attrid a) of Some e \<Rightarrow> Inl e
           | None \<Rightarrow> Inr (attrid a, of_nat (content_len a), ?h, body @ bs @ rest))"
      using read_attr_header_ok[OF small(1), of "attrid a" "body @ bs @ rest"] by simp
    show ?thesis
    proof (cases "id_fault (attrid a) = None \<and> content_fault a = None")
      case True
      with h body(3)[of "bs @ rest"] have
        "read_attr_header (?octets @ rest) = Inr (attrid a, of_nat (content_len a), ?h, body @ bs @ rest)"
        "attribute_parse s (attrid a) (of_nat (content_len a)) (body @ bs @ rest) = Inr (a, bs @ rest)"
        by simp_all
      from attr_list_parse_step[OF this(1) pos this(2) small(2)] bs(3)[of rest] len ins True show ?thesis
        by (simp cong: option.case_cong)
    next
      case False
      with h body(3)[of "bs @ rest"] nz show ?thesis
        by (subst attr_list_parse.simps) (auto split: option.splits)
    qed
  qed
  with body(1,2) bs(1,2) show ?case
    by (auto simp: header_len_def)
qed

lemma parse_written:
  "attr_wf s a \<Longrightarrow> content_len a < 2 ^ 31 \<Longrightarrow> parses_back s a"
proof (induction a)
  case (Compound i as)
  then have "parses_back s a" if "a \<in> set as" for a
    using that content_len_le[OF that] by (auto simp: list_all_iff)
  then obtain bs where "attrs_write as = Inr bs" "length bs = contents_len as"
    "\<And>rest. attr_list_parse s (of_nat (contents_len as)) [] (bs @ rest)
      = (case attrs_fault as of Some e \<Rightarrow> Inl e | None \<Rightarrow> Inr (as, rest))"
    using attr_list_parse_written[of as s "[]", unfolded append_Nil] Compound.prems by auto
  with Compound.prems show ?case
    by (auto simp: parses_back_def attr_list_length_def attr_length_content_len(2) attr_header_ok
        attribute_parse.simps[of s i] split: option.split)
next
  case (Unsigned_Integer i v)
  then show ?case
    using attr_write_content(1)[of "Unsigned_Integer i v"] ui_length_le_8[of v]
    by (auto simp: parses_back_def attr_header_ok write_unsigned_def attribute_parse.simps[of s i]
        wire_constants parse_unsigned_integer_write)
next
  case (Signed_Integer i v)
  obtain n where "si_length v = Inr n" "n \<le> 8"
    by (rule si_length_total)
  with Signed_Integer show ?case
    by (auto simp: parses_back_def attr_header_ok write_signed_def attribute_parse.simps[of s i]
        wire_constants parse_signed_integer_write)
next
  case (Timestamp i sec nsec)
  then show ?case
    using attr_header_ok[of "ts_length sec" i] ui_length_le_8[of sec]
      parse_timestamp_write[of sec nsec i]
    by (auto simp: parses_back_def write_unsigned_def attribute_parse.simps[of s i]
        wire_constants ts_length_eq[of sec] simp del: of_nat_add)
next
  case (Boolean i b)
  then show ?case
    using attr_header_ok[of 1 i]
    by (auto simp: parses_back_def attribute_parse.simps[of s i] wire_constants parse_boolean_write)
qed (auto simp: parses_back_def attr_header_ok attribute_parse.simps[of s] wire_constants
    parse_binary_def parse_string_def parse_unrecognised_def read_content_append read_string_append
    write_string_def[of "_ :: string", THEN arg_cong[of _ _ length], simplified])

section \<open>Properties\<close>

text \<open>
  Reading the content of an attribute consumes exactly the length that its header
  announces, for every class and any depth of nesting.
\<close>

lemma attribute_parse_consumes:
  assumes "attribute_parse s i n bs = Inr (a, bs')" and "length bs < 2 ^ 63"
  shows "length bs = unat n + length bs'"
  by (rule parse_exact(1)[OF assms])

theorem attribute_parse_consumes_witness: "length [1, 2, 9 :: octet] = unat (2 :: u64) + length [9 :: octet]"
proof (rule attribute_parse_consumes)
  show "attribute_parse new_session attrid_seqnum 2 [1, 2, 9] = Inr (Unsigned_Integer attrid_seqnum 0x102, [9])"
    by code_simp
qed simp

text \<open>
  A timestamp whose seconds are zero is written with content of length 4, which the parser
  rejects: the program cannot read back what it wrote.
\<close>

lemma timestamp_zero_unreadable:
  assumes "get_attr_type s i = Inr type_timestamp"
  shows "\<exists>body. attr_write (Timestamp i 0 nsec)
      = Inr (sb128_octets (scast i) @ ub128_octets 4 @ body) \<and> length body = 4
    \<and> attribute_parse s i 4 (body @ rest)
      = Inl (Horace_Error ''invalid length for timestamp attribute'')"
proof -
  have "content_len (Timestamp i 0 nsec) = 4"
    by (simp add: ts_length_eq ui_length_def ui_length_loop.simps)
  then obtain body where body: "attr_write (Timestamp i 0 nsec)
      = Inr (sb128_octets (scast i) @ ub128_octets 4 @ body)" "length body = 4"
    using attr_write_content(1)[of "Timestamp i 0 nsec"] by auto
  have "attribute_parse s i 4 (body @ rest) = parse_timestamp i 4 (body @ rest)"
    using assms by (simp add: wire_constants attribute_parse.simps)
  also have "\<dots> = Inl (Horace_Error ''invalid length for timestamp attribute'')"
    by (simp add: parse_timestamp_def)
  finally show ?thesis
    using body by blast
qed

theorem timestamp_zero_unreadable_witness:
  "\<exists>body. attr_write (Timestamp attrid_ts 0 5) = Inr (sb128_octets (scast attrid_ts) @ ub128_octets 4 @ body)
    \<and> length body = 4 \<and> attribute_parse new_session attrid_ts 4 (body @ [])
      = Inl (Horace_Error ''invalid length for timestamp attribute'')"
  by (rule timestamp_zero_unreadable) (simp add: get_attr_type_def reserved_attr_types_def wire_constants)

end
