(* ===== verification/Record_Codec.thy ===== *)
theory Record_Codec
  imports Attribute_Codec
begin

text \<open>
  Records (\<^verbatim>\<open>horace/record.cc\<close>): parsing, which also applies the attribute and channel
  definitions it meets to the session context, writing, comparison and the log text. The lemmas
  give the order and types of a parsed record, exact consumption, the effect on the session,
  and the round trip.
\<close>

section \<open>Records\<close>

record hrecord =
  rec_channel :: i32
  rec_attributes :: "attribute list"

definition is_event :: "hrecord \<Rightarrow> bool" where
  "is_event r \<longleftrightarrow> 0 \<le> sint (rec_channel r)"

definition record_eq :: "hrecord \<Rightarrow> hrecord \<Rightarrow> bool" where
  "record_eq l r \<longleftrightarrow> rec_channel l = rec_channel r \<and> attr_list_eq (rec_attributes l) (rec_attributes r)"

definition record_prefix :: "hrecord \<Rightarrow> hrecord \<Rightarrow> bool" where
  "record_prefix l r \<longleftrightarrow>
     rec_channel l = rec_channel r \<and> attr_list_prefix (rec_attributes l) (rec_attributes r)"

definition record_find_one :: "i32 \<Rightarrow> hrecord \<Rightarrow> attribute result" where
  "record_find_one i r = find_one i (rec_attributes r)"

definition record_contains :: "i32 \<Rightarrow> hrecord \<Rightarrow> bool" where
  "record_contains i r = attr_contains i (rec_attributes r)"

definition record_text :: "hrecord \<Rightarrow> string" where
  "record_text r =
     (if rec_channel r = channel_error then ''error record''
      else if rec_channel r = channel_warning then ''warning record''
      else if rec_channel r = channel_session then ''session record''
      else if rec_channel r = channel_end then ''end record''
      else if rec_channel r = channel_sync then ''sync record''
      else if rec_channel r = channel_signature then ''signature record''
      else (if 0 \<le> sint (rec_channel r) then ''event'' else ''unrecognised'')
        @ '' record for channel '' @ dec_int (sint (rec_channel r)))"

section \<open>Writing\<close>

definition record_write :: "hrecord \<Rightarrow> octets result" where
  "record_write r =
     bindE (put_sb128 (scast (rec_channel r))) (\<lambda>c.
     bindE (attr_list_length (rec_attributes r)) (\<lambda>n.
     bindE (put_ub128 n) (\<lambda>l.
     bindE (attrs_write (rec_attributes r)) (\<lambda>body. Inr (c @ l @ body)))))"

section \<open>Parsing\<close>

text \<open>
  The definitions met so far stay in the session context when a later attribute is rejected.
\<close>

definition apply_def :: "attribute \<Rightarrow> session_context \<Rightarrow> session_context result" where
  "apply_def a s =
     (if attrid a = attrid_attr_def then bindE (as_compound a) (\<lambda>content. handle_attr_def content s)
      else if attrid a = attrid_chan_def
      then bindE (as_compound a) (\<lambda>content. handle_channel_def content s)
      else Inr s)"

function record_loop ::
  "session_context \<Rightarrow> u64 \<Rightarrow> attribute list \<Rightarrow> octets \<Rightarrow>
     (attribute list \<times> octets) result \<times> session_context" where
  "record_loop s remaining as bs =
     (if remaining = 0 then (Inr (as, bs), s)
      else case read_attr_header bs of
        Inl e \<Rightarrow> (Inl e, s)
      | Inr (i, n, hdr_len, bs2) \<Rightarrow>
          (case attribute_parse s i n bs2 of
             Inl e \<Rightarrow> (Inl e, s)
           | Inr (a, bs3) \<Rightarrow>
               (case apply_def a s of
                  Inl e \<Rightarrow> (Inl e, s)
                | Inr s' \<Rightarrow>
                    (if remaining < of_nat hdr_len + n
                     then (Inl (Horace_Error ''attribute extends beyond length of record''), s')
                     else record_loop s' (remaining - (of_nat hdr_len + n)) (attr_insert a as) bs3))))"
  by pat_completeness auto
termination
proof (relation "measure (\<lambda>(s, remaining, as, bs). length bs)", goal_cases)
  case (2 s remaining as bs z i x n y hdr_len bs2 p a bs3 s')
  then have "length bs = hdr_len + length bs2" and "2 \<le> hdr_len" and "length bs3 \<le> length bs2"
    using read_attr_header_consumes[of bs i n hdr_len bs2] attribute_parse_shrinks[of s i n bs2 a bs3]
    by auto
  then show ?case
    by auto
qed simp

declare record_loop.simps [simp del]

definition record_parse ::
  "session_context \<Rightarrow> octets \<Rightarrow> (hrecord \<times> octets) result \<times> session_context" where
  "record_parse s bs =
     (case read_signed_base128 bs of
        Inl e \<Rightarrow> (Inl e, s)
      | Inr (channel64, bs1) \<Rightarrow>
          (case read_unsigned_base128 bs1 of
             Inl e \<Rightarrow> (Inl e, s)
           | Inr (remaining, bs2) \<Rightarrow>
               (case record_loop s remaining [] bs2 of
                  (Inl e, s') \<Rightarrow> (Inl e, s')
                | (Inr (as, bs3), s') \<Rightarrow>
                    (Inr (\<lparr>rec_channel = ucast channel64, rec_attributes = as\<rparr>, bs3), s'))))"


section \<open>What a parse returns\<close>

lemma record_eq_iff: "record_eq l r \<longleftrightarrow> l = r"
  by (cases l, cases r) (auto simp: record_eq_def attr_list_eq_def attrs_match_iff)

lemma attr_list_prefix_iff: "attr_list_prefix xs ys \<longleftrightarrow> (\<exists>zs. ys = xs @ zs)"
proof
  assume "attr_list_prefix xs ys"
  then have "take (length xs) ys = xs"
    by (auto simp: attr_list_prefix_def attrs_match_iff split: if_splits)
  then show "\<exists>zs. ys = xs @ zs"
    by (metis append_take_drop_id)
qed (auto simp: attr_list_prefix_def attrs_match_iff)

lemma record_loop_cases [consumes 2, case_names step]:
  assumes "record_loop s remaining as bs = (Inr (xs, bs'), s')" and "remaining \<noteq> 0"
  obtains i n m bs2 a bs3 s1 where "read_attr_header bs = Inr (i, n, m, bs2)"
    and "attribute_parse s i n bs2 = Inr (a, bs3)" and "apply_def a s = Inr s1"
    and "\<not> remaining < of_nat m + n"
    and "record_loop s1 (remaining - (of_nat m + n)) (attr_insert a as) bs3 = (Inr (xs, bs'), s')"
  using assms by (subst (asm) record_loop.simps) (auto split: sum.splits if_splits prod.splits)

lemma record_loop_shrinks:
  "record_loop s remaining as bs = (Inr (xs, bs'), s') \<Longrightarrow> length bs' \<le> length bs"
proof (induction bs arbitrary: s remaining as rule: length_induct)
  case (1 bs)
  show ?case
  proof (cases "remaining = 0")
    case True
    with "1.prems" show ?thesis
      by (simp add: record_loop.simps)
  next
    case False
    with "1.prems" obtain i n m bs2 a bs3 s1 where h: "read_attr_header bs = Inr (i, n, m, bs2)"
      and p: "attribute_parse s i n bs2 = Inr (a, bs3)"
      and l: "record_loop s1 (remaining - (of_nat m + n)) (attr_insert a as) bs3 = (Inr (xs, bs'), s')"
      by (rule record_loop_cases)
    have "length bs3 < length bs"
      using read_attr_header_consumes[OF h] attribute_parse_shrinks[OF p] by simp
    with "1.IH" l have "length bs' \<le> length bs3"
      by blast
    with \<open>length bs3 < length bs\<close> show ?thesis
      by simp
  qed
qed

lemma record_parse_shrinks:
  "record_parse s bs = (Inr (r, bs'), s') \<Longrightarrow> length bs' < length bs"
  by (auto simp: record_parse_def split: sum.splits prod.splits
      dest!: read_signed_base128_consumes read_unsigned_base128_consumes record_loop_shrinks)

text \<open>
  Types are judged in the session context that holds when the attribute is read; a definition
  that comes later in the record does not change the class of an attribute already read.
\<close>

fun attrs_accepted ::
  "session_context \<Rightarrow> attribute list \<Rightarrow> session_context result" where
  "attrs_accepted s [] = Inr s"
| "attrs_accepted s (a # as) = bindE (apply_def a s) (\<lambda>s'. attrs_accepted s' as)"

fun attrs_typed :: "session_context \<Rightarrow> attribute list \<Rightarrow> bool" where
  "attrs_typed s [] \<longleftrightarrow> True"
| "attrs_typed s (a # as) \<longleftrightarrow> attr_wf s a \<and>
     (case apply_def a s of Inl e \<Rightarrow> False | Inr s' \<Rightarrow> attrs_typed s' as)"

text \<open>
  Attributes that are no definitions leave the session as it is.
\<close>

lemma defines_nothing:
  assumes "list_all (\<lambda>a. attrid a \<noteq> attrid_attr_def \<and> attrid a \<noteq> attrid_chan_def) as" and "list_all (attr_wf s) as"
  shows "attrs_typed s as \<and> attrs_accepted s as = Inr s"
  using assms by (induction as) (simp_all add: apply_def_def)

lemma record_loop_spec:
  "record_loop s remaining as bs = (Inr (xs, bs'), s') \<Longrightarrow> sorted (map attr_key as) \<Longrightarrow>
     length bs < 2 ^ 63 \<Longrightarrow>
     length bs = unat remaining + length bs' \<and> sorted (map attr_key xs)
     \<and> (\<exists>ys. xs = foldl (\<lambda>l a. attr_insert a l) as ys \<and> attrs_typed s ys \<and> attrs_accepted s ys = Inr s')"
proof (induction s remaining as bs arbitrary: rule: record_loop.induct)
  case (1 s remaining as bs)
  show ?case
  proof (cases "remaining = 0")
    case True
    with "1.prems" show ?thesis
      by (auto simp: record_loop.simps intro: exI[of _ "[]"])
  next
    case False
    from "1.prems"(1) False obtain i n m bs2 a bs3 s1 where
      h: "read_attr_header bs = Inr (i, n, m, bs2)"
      and a: "attribute_parse s i n bs2 = Inr (a, bs3)" and d: "apply_def a s = Inr s1"
      and fit: "\<not> remaining < of_nat m + n"
      and rec: "record_loop s1 (remaining - (of_nat m + n)) (attr_insert a as) bs3 = (Inr (xs, bs'), s')"
      by (cases rule: record_loop_cases)
    have m: "length bs = m + length bs2"
      by (rule read_attr_header_consumes(1)[OF h])
    then have n: "length bs2 = unat n + length bs3"
      using parse_exact(1)[OF a] "1.prems"(3) by simp
    have "length bs3 = unat (remaining - (of_nat m + n)) + length bs' \<and> sorted (map attr_key xs)
        \<and> (\<exists>ys. xs = foldl (\<lambda>l a. attr_insert a l) (attr_insert a as) ys \<and> attrs_typed s1 ys
          \<and> attrs_accepted s1 ys = Inr s')"
      using "1.prems"(2,3) m n
      by (intro "1.IH"[OF False h refl refl refl a refl d fit rec]) (simp_all add: sorted_attr_insert)
    then obtain ys where r: "length bs3 = unat (remaining - (of_nat m + n)) + length bs'"
      "sorted (map attr_key xs)" "xs = foldl (\<lambda>l a. attr_insert a l) (attr_insert a as) ys"
      "attrs_typed s1 ys" "attrs_accepted s1 ys = Inr s'"
      by blast
    have "unat (of_nat m + n) = m + unat n"
      using m n "1.prems"(3) by (intro unat_header_size) simp
    moreover have "unat (remaining - (of_nat m + n)) = unat remaining - unat (of_nat m + n)"
      and "unat (of_nat m + n) \<le> unat remaining"
      using fit by (simp_all add: unat_sub not_less word_le_nat_alt)
    ultimately have "length bs = unat remaining + length bs'"
      using m n r(1) by simp
    moreover have "attr_wf s a"
      using parse_wf(1)[OF a] by simp
    ultimately show ?thesis
      using r d by (auto intro!: exI[of _ "a # ys"])
  qed
qed

lemma record_parse_spec:
  assumes "record_parse s bs = (Inr (r, bs'), s')" and "length bs < 2 ^ 63"
  obtains ys where "rec_attributes r = sort_key attr_key ys" and "attrs_typed s ys"
    and "attrs_accepted s ys = Inr s'" and "length bs' < length bs"
proof -
  from assms(1) obtain c64 bs1 n bs2 as where
    c: "read_signed_base128 bs = Inr (c64, bs1)" and n: "read_unsigned_base128 bs1 = Inr (n, bs2)"
    and l: "record_loop s n [] bs2 = (Inr (as, bs'), s')" and r: "rec_attributes r = as"
    by (auto simp: record_parse_def split: sum.splits prod.splits)
  have len: "length bs2 < length bs"
    using read_signed_base128_consumes[OF c] read_unsigned_base128_consumes[OF n] by simp
  with record_loop_spec[OF l] assms(2) obtain ys where
    "as = foldl (\<lambda>l a. attr_insert a l) [] ys" "attrs_typed s ys" "attrs_accepted s ys = Inr s'"
    "length bs' \<le> length bs2"
    by auto
  with r len that[of ys] show ?thesis
    by (simp add: attr_inserts_sort)
qed

section \<open>The errors of a parse\<close>

definition parse_exn :: "exn \<Rightarrow> bool" where
  "parse_exn e \<longleftrightarrow> e = Eof_Error \<or> e = Bad_Array_New_Length
     \<or> (\<exists>m. e = Horace_Error m) \<or> (\<exists>m. e = Runtime_Error m) \<or> e = Undefined_Behaviour ''shift''"

named_theorems read_errors \<open>the reading operations only raise parse errors\<close>

lemma parse_exn_simps [simp]:
  "parse_exn Eof_Error" "parse_exn Bad_Array_New_Length"
  "parse_exn (Horace_Error m)" "parse_exn (Runtime_Error m)"
  "\<not> parse_exn Bad_Cast" "parse_exn (Undefined_Behaviour m) \<longleftrightarrow> m = ''shift''"
  by (simp_all add: parse_exn_def)

lemma read_octet_error [read_errors]: "read_octet bs = Inl e \<Longrightarrow> parse_exn e"
  by (cases bs) auto

lemma read_octets_error [read_errors]: "read_octets n bs = Inl e \<Longrightarrow> parse_exn e"
  by (auto simp: read_octets_def split: if_splits)

lemma read_unsigned_error [read_errors]: "read_unsigned w bs = Inl e \<Longrightarrow> parse_exn e"
proof -
  have "read_unsigned_loop w r bs = Inl e \<Longrightarrow> parse_exn e" for r
    by (induction w r bs rule: read_unsigned_loop.induct)
      (auto simp: bindE_eq_Inl dest: read_errors split: if_splits)
  then show "read_unsigned w bs = Inl e \<Longrightarrow> parse_exn e"
    by (simp add: read_unsigned_def)
qed

lemma read_signed_error [read_errors]: "read_signed w bs = Inl e \<Longrightarrow> parse_exn e"
proof -
  have loop: "read_signed_loop w r bs = Inl e \<Longrightarrow> parse_exn e" for w r bs
    by (induction w r bs rule: read_signed_loop.induct)
      (auto simp: bindE_eq_Inl dest: read_errors split: if_splits)
  show "read_signed w bs = Inl e \<Longrightarrow> parse_exn e"
    by (cases w) (auto simp: bindE_eq_Inl dest: read_errors loop)
qed

lemma read_string_error [read_errors]: "read_string n bs = Inl e \<Longrightarrow> parse_exn e"
  by (auto simp: read_string_def bindE_eq_Inl dest: read_errors split: if_splits)

lemma read_content_error [read_errors]: "read_content n bs = Inl e \<Longrightarrow> parse_exn e"
  by (auto simp: read_content_def dest: read_errors split: if_splits)

lemma read_ub128_count_error [read_errors]:
  "read_unsigned_base128_count n bs = Inl e \<Longrightarrow> parse_exn e"
proof -
  have loop: "read_ub128_count_loop r b n bs = Inl e \<Longrightarrow> parse_exn e" for r b n bs
  proof (induction r b n bs rule: read_ub128_count_loop.induct)
    case (1 r b n bs)
    then show ?case
      by (cases bs) (auto simp: read_ub128_count_loop.simps[of r b] split: if_splits)
  qed
  show "read_unsigned_base128_count n bs = Inl e \<Longrightarrow> parse_exn e"
    by (auto simp: read_unsigned_base128_count_def bindE_eq_Inl dest: read_errors loop)
qed

lemma read_sb128_count_error [read_errors]:
  "read_signed_base128_count n bs = Inl e \<Longrightarrow> parse_exn e"
proof -
  have loop: "read_sb128_count_loop r b n bs = Inl e \<Longrightarrow> parse_exn e" for r b n bs
  proof (induction r b n bs rule: read_sb128_count_loop.induct)
    case (1 r b n bs)
    then show ?case
      by (cases bs) (auto simp: read_sb128_count_loop.simps[of r b] split: if_splits)
  qed
  show "read_signed_base128_count n bs = Inl e \<Longrightarrow> parse_exn e"
    by (auto simp: read_signed_base128_count_def bindE_eq_Inl dest: read_errors loop)
qed

lemma read_base128_error [read_errors]:
  "read_unsigned_base128 bs = Inl e \<Longrightarrow> parse_exn e"
  "read_signed_base128 bs = Inl e \<Longrightarrow> parse_exn e"
  by (auto simp: read_unsigned_base128_eq[of _ 0] read_signed_base128_eq[of _ 0] bindE_eq_Inl
      dest: read_errors)

lemma read_attr_header_error [read_errors]: "read_attr_header bs = Inl e \<Longrightarrow> parse_exn e"
  by (auto simp: read_attr_header_def bindE_eq_Inl dest: read_errors)

lemma get_attr_type_error [read_errors]: "get_attr_type s i = Inl e \<Longrightarrow> parse_exn e"
  by (auto simp: get_attr_type_def split: option.splits)

lemma leaf_parse_error [read_errors]:
  "parse_unsigned_integer i n bs = Inl e \<Longrightarrow> parse_exn e"
  "parse_signed_integer i n bs = Inl e \<Longrightarrow> parse_exn e"
  "parse_binary i n bs = Inl e \<Longrightarrow> parse_exn e"
  "parse_string i n bs = Inl e \<Longrightarrow> parse_exn e"
  "parse_timestamp i n bs = Inl e \<Longrightarrow> parse_exn e"
  "parse_boolean i n bs = Inl e \<Longrightarrow> parse_exn e"
  "parse_unrecognised i n bs = Inl e \<Longrightarrow> parse_exn e"
  by (auto simp: leaf_parse_defs bindE_eq_Inl Let_def dest: read_errors split: if_splits)

lemma attribute_parse_error [read_errors]:
  "attribute_parse s i n bs = Inl e \<Longrightarrow> parse_exn e"
  "attr_list_parse s remaining as cs = Inl e \<Longrightarrow> parse_exn e"
proof (induction s i n bs and s remaining as cs rule: attribute_parse_attr_list_parse.induct)
  case (1 s i n bs)
  then show ?case
    by (auto simp: attribute_parse.simps[of s i] bindE_eq_Inl dest: read_errors split: if_splits)
next
  case (2 s remaining as bs)
  then show ?case
    by (fastforce simp: attr_list_parse.simps[of s remaining] bindE_eq_Inl dest: read_errors
        split: if_splits)
qed

lemma find_one_error [read_errors]: "find_one i as = Inl e \<Longrightarrow> parse_exn e"
proof -
  have "find_one_loop i f as = Inl e \<Longrightarrow> parse_exn e" for f
    by (induction i f as rule: find_one_loop.induct) (auto split: if_splits option.splits)
  then show "find_one i as = Inl e \<Longrightarrow> parse_exn e"
    by (simp add: find_one_def)
qed

lemma wf_class:
  assumes "attr_wf s a"
  shows "get_attr_type s (attrid a) = Inr type_compound \<Longrightarrow> \<exists>as. as_compound a = Inr as \<and> list_all (attr_wf s) as"
    and "get_attr_type s (attrid a) = Inr type_signed_integer \<Longrightarrow> \<exists>v. as_signed_integer a = Inr v"
    and "get_attr_type s (attrid a) = Inr type_unsigned_integer \<Longrightarrow> \<exists>v. as_unsigned_integer a = Inr v"
    and "get_attr_type s (attrid a) = Inr type_string \<Longrightarrow> \<exists>v. as_string a = Inr v"
  using assms by (cases a; auto simp: type_constants)+

lemma find_one_wf:
  assumes "list_all (attr_wf s) as"
  shows "get_attr_type s i = Inr type_signed_integer \<Longrightarrow>
      bindE (find_one i as) as_signed_integer = Inl e \<Longrightarrow> parse_exn e"
    and "get_attr_type s i = Inr type_unsigned_integer \<Longrightarrow>
      bindE (find_one i as) as_unsigned_integer = Inl e \<Longrightarrow> parse_exn e"
    and "get_attr_type s i = Inr type_string \<Longrightarrow>
      bindE (find_one i as) as_string = Inl e \<Longrightarrow> parse_exn e"
proof -
  have wf: "attr_wf s a \<and> attrid a = i" if "find_one i as = Inr a" for a
    using that find_one_attrid[OF that] assms by (auto simp: list_all_iff)
  show "get_attr_type s i = Inr type_signed_integer \<Longrightarrow>
      bindE (find_one i as) as_signed_integer = Inl e \<Longrightarrow> parse_exn e"
    using wf wf_class(2) by (fastforce simp: bindE_eq_Inl dest: read_errors)
  show "get_attr_type s i = Inr type_unsigned_integer \<Longrightarrow>
      bindE (find_one i as) as_unsigned_integer = Inl e \<Longrightarrow> parse_exn e"
    using wf wf_class(3) by (fastforce simp: bindE_eq_Inl dest: read_errors)
  show "get_attr_type s i = Inr type_string \<Longrightarrow>
      bindE (find_one i as) as_string = Inl e \<Longrightarrow> parse_exn e"
    using wf wf_class(4) by (fastforce simp: bindE_eq_Inl dest: read_errors)
qed

lemma bindE_error:
  "bindE m f = Inl e \<Longrightarrow> (m = Inl e \<Longrightarrow> P) \<Longrightarrow> (\<And>x. f x = Inl e \<Longrightarrow> P) \<Longrightarrow> P"
  by (cases m) auto

lemma handle_def_error:
  assumes "list_all (attr_wf s) as"
  shows "handle_attr_def as s = Inl e \<Longrightarrow> parse_exn e"
    and "handle_channel_def as s = Inl e \<Longrightarrow> parse_exn e"
proof -
  note wf = find_one_wf[OF assms]
  show "handle_attr_def as s = Inl e \<Longrightarrow> parse_exn e"
    unfolding handle_attr_def_def
    by (erule bindE_error, erule wf(1)[rotated], simp,
        erule bindE_error, erule wf(3)[rotated], simp,
        erule bindE_error, erule wf(2)[rotated], simp, simp)
  show "handle_channel_def as s = Inl e \<Longrightarrow> parse_exn e"
    unfolding handle_channel_def_def
    by (erule bindE_error, erule wf(1)[rotated], simp,
        erule bindE_error, erule wf(3)[rotated], simp, simp)
qed

lemma apply_def_error: "attr_wf s a \<Longrightarrow> apply_def a s = Inl e \<Longrightarrow> parse_exn e"
proof -
  assume wf: "attr_wf s a" and e: "apply_def a s = Inl e"
  show "parse_exn e"
  proof (cases "attrid a = attrid_attr_def \<or> attrid a = attrid_chan_def")
    case False
    with e show ?thesis
      by (simp add: apply_def_def)
  next
    case True
    with wf_class(1)[OF wf] obtain as where as: "as_compound a = Inr as" "list_all (attr_wf s) as"
      by auto
    with True e have "handle_attr_def as s = Inl e \<or> handle_channel_def as s = Inl e"
      by (auto simp: apply_def_def split: if_splits)
    then show ?thesis
      using handle_def_error[OF as(2)] by blast
  qed
qed

lemma record_loop_error:
  "record_loop s remaining as bs = (Inl e, s') \<Longrightarrow> parse_exn e"
proof (induction s remaining as bs rule: record_loop.induct)
  case (1 s remaining as bs)
  then show ?case
    by (subst (asm) (2) record_loop.simps)
      (force split: if_splits sum.splits prod.splits dest: read_errors parse_wf(1) apply_def_error)
qed

lemma record_parse_error: "record_parse s bs = (Inl e, s') \<Longrightarrow> parse_exn e"
  by (auto simp: record_parse_def split: sum.splits prod.splits dest: read_errors record_loop_error)

section \<open>Round trip\<close>

lemma record_loop_step:
  assumes "read_attr_header bs = Inr (i, of_nat c, m, bs2)" and "0 < m"
    and "attribute_parse s i (of_nat c) bs2 = Inr (a, bs3)" and "apply_def a s = Inr s1"
    and "m + c + k < 2 ^ 63"
  shows "record_loop s (of_nat (m + c + k)) acc bs
    = record_loop s1 (of_nat k) (attr_insert a acc) bs3"
proof -
  have u: "unat (of_nat (m + c + k) :: u64) = m + c + k" "unat (of_nat (m + c) :: u64) = m + c"
    using assms(5) by (intro unat_of_nat_64; simp)+
  then have "(of_nat (m + c + k) :: u64) \<noteq> 0"
    using assms(2) by (metis add_gr_0 less_irrefl unsigned_0)
  moreover have "\<not> (of_nat (m + c + k) :: u64) < of_nat (m + c)"
    unfolding word_less_nat_alt u by simp
  moreover have "(of_nat (m + c + k) :: u64) - of_nat (m + c) = of_nat k"
    by simp
  ultimately show ?thesis
    using assms(1,3,4) by (subst record_loop.simps) (simp only: if_False sum.case prod.case of_nat_add)
qed

lemma record_loop_written:
  assumes "attrs_typed s as" and "attrs_accepted s as = Inr s'"
    and "sorted (map attr_key (acc @ as))" and "contents_len as < 2 ^ 31"
  shows "\<exists>bs. attrs_write as = Inr bs \<and> length bs = contents_len as
    \<and> (\<forall>rest. case attrs_fault as of
         None \<Rightarrow> record_loop s (of_nat (contents_len as)) acc (bs @ rest) = (Inr (acc @ as, rest), s')
       | Some e \<Rightarrow> fst (record_loop s (of_nat (contents_len as)) acc (bs @ rest)) = Inl e)"
  using assms
proof (induction as arbitrary: acc s)
  case Nil
  then show ?case
    by (simp add: record_loop.simps)
next
  case (Cons a as)
  let ?h = "header_len (attrid a) (content_len a)"
  from Cons.prems(1,2) obtain s1 where wf: "attr_wf s a" and d: "apply_def a s = Inr s1"
    and as: "attrs_typed s1 as" "attrs_accepted s1 as = Inr s'"
    by (auto split: sum.splits)
  have "parses_back s a"
    using wf Cons.prems(4) by (intro parse_written) simp_all
  then obtain body where body:
    "attr_write a = Inr (sb128_octets (scast (attrid a)) @ ub128_octets (of_nat (content_len a)) @ body)"
    "length body = content_len a"
    "\<And>rest. attribute_parse s (attrid a) (of_nat (content_len a)) (body @ rest)
      = (case content_fault a of Some e \<Rightarrow> Inl e | None \<Rightarrow> Inr (a, rest))"
    by (auto simp: parses_back_def)
  have ins: "attr_insert a acc = acc @ [a]"
    using Cons.prems(3) by (intro attr_insert_last) (simp add: sorted_append)
  from Cons.IH[OF as, of "acc @ [a]"] Cons.prems(3-4) obtain bs where
    bs: "attrs_write as = Inr bs" "length bs = contents_len as"
    "\<And>rest. case attrs_fault as of
         None \<Rightarrow> record_loop s1 (of_nat (contents_len as)) (acc @ [a]) (bs @ rest) = (Inr (acc @ a # as, rest), s')
       | Some e \<Rightarrow> fst (record_loop s1 (of_nat (contents_len as)) (acc @ [a]) (bs @ rest)) = Inl e"
    by (auto cong: option.case_cong)
  let ?octets = "sb128_octets (scast (attrid a)) @ ub128_octets (of_nat (content_len a)) @ body @ bs"
  have len: "contents_len (a # as) = ?h + content_len a + contents_len as"
    by simp
  have "ub128_ok (of_nat (content_len a))"
    using Cons.prems(4) by (intro ub128_ok_of_nat) simp
  then have pos: "0 < ?h"
    using ub128_octets_not_Nil by (simp add: header_len_def)
  have small: "content_len a < 2 ^ 31" "?h + content_len a + contents_len as < 2 ^ 63"
    using Cons.prems(4) by simp_all
  have nz: "(of_nat (contents_len (a # as)) :: u64) \<noteq> 0"
    using of_nat_64_nonzero[of "contents_len (a # as)"] pos small(2) len by simp
  have "case attrs_fault (a # as) of
      None \<Rightarrow> record_loop s (of_nat (contents_len (a # as))) acc (?octets @ rest) = (Inr (acc @ a # as, rest), s')
    | Some e \<Rightarrow> fst (record_loop s (of_nat (contents_len (a # as))) acc (?octets @ rest)) = Inl e" for rest
  proof -
    have h: "read_attr_header (?octets @ rest)
        = (case id_fault (attrid a) of Some e \<Rightarrow> Inl e
           | None \<Rightarrow> Inr (attrid a, of_nat (content_len a), ?h, body @ bs @ rest))"
      using read_attr_header_ok[OF small(1), of "attrid a" "body @ bs @ rest"] by simp
    show ?thesis
    proof (cases "id_fault (attrid a) = None \<and> content_fault a = None")
      case True
      with h body(3)[of "bs @ rest"] have
        "read_attr_header (?octets @ rest) = Inr (attrid a, of_nat (content_len a), ?h, body @ bs @ rest)"
        "attribute_parse s (attrid a) (of_nat (content_len a)) (body @ bs @ rest) = Inr (a, bs @ rest)"
        by simp_all
      from record_loop_step[OF this(1) pos this(2) d small(2)] bs(3)[of rest] len ins True show ?thesis
        by (simp split: option.splits)
    next
      case False
      with h body(3)[of "bs @ rest"] nz show ?thesis
        by (subst record_loop.simps) (auto split: option.splits)
    qed
  qed
  with body(1,2) bs(1,2) show ?case
    by (auto simp: header_len_def)
qed

text \<open>
  A record as the program makes it: its attributes in canonical order, of the classes that the session
  gives their identifiers, and its content below 2 GiB. \<open>record_fault\<close> is how reading such a record
  fails, if it does.
\<close>

definition record_canonical :: "session_context \<Rightarrow> hrecord \<Rightarrow> bool" where
  "record_canonical s r \<longleftrightarrow> sorted (map attr_key (rec_attributes r))
     \<and> attrs_typed s (rec_attributes r) \<and> contents_len (rec_attributes r) < 2 ^ 31"

definition record_fault :: "hrecord \<Rightarrow> exn option" where
  "record_fault r =
     (case id_fault (rec_channel r) of Some e \<Rightarrow> Some e | None \<Rightarrow> attrs_fault (rec_attributes r))"

definition record_ok :: "session_context \<Rightarrow> hrecord \<Rightarrow> bool" where
  "record_ok s r \<longleftrightarrow> - 64 \<le> sint (rec_channel r) \<and> sorted (map attr_key (rec_attributes r))
     \<and> list_all encodable (rec_attributes r)
     \<and> attrs_typed s (rec_attributes r) \<and> contents_len (rec_attributes r) < 2 ^ 31"

lemma record_ok_iff: "record_ok s r \<longleftrightarrow> record_canonical s r \<and> record_fault r = None"
  by (auto simp: record_ok_def record_canonical_def record_fault_def id_fault_None attrs_fault_None
      split: option.splits) (auto simp: id_fault_def split: if_splits)

lemma record_fault_cases: "record_fault r = Some e \<Longrightarrow> e = Undefined_Behaviour ''shift''
     \<or> e = Horace_Error ''invalid length for timestamp attribute''"
  by (auto simp: record_fault_def id_fault_def dest: content_fault_cases split: if_splits)

lemma ucast_scast_i32 [simp]: "ucast (scast (i :: i32) :: i64) = i"
proof (rule bit_word_eqI)
  fix k assume "k < LENGTH(32)"
  then show "bit (ucast (scast i :: i64) :: i32) k = bit i k"
    by (cases "k = 31") (auto simp: bit_simps min_def)
qed

lemma record_write_result:
  assumes "record_canonical s r" and "attrs_accepted s (rec_attributes r) = Inr s'"
  shows "\<exists>bs. record_write r = Inr bs
    \<and> (\<forall>rest. case record_fault r of
         None \<Rightarrow> record_parse s (bs @ rest) = (Inr (r, rest), s')
       | Some e \<Rightarrow> fst (record_parse s (bs @ rest)) = Inl e)"
proof -
  let ?as = "rec_attributes r" and ?n = "of_nat (contents_len (rec_attributes r))"
  have small: "contents_len ?as < 2 ^ 63"
    using assms(1) by (simp add: record_canonical_def)
  from assms obtain bs where bs: "attrs_write ?as = Inr bs"
    "\<And>rest. case attrs_fault ?as of
       None \<Rightarrow> record_loop s ?n [] (bs @ rest) = (Inr (?as, rest), s')
     | Some e \<Rightarrow> fst (record_loop s ?n [] (bs @ rest)) = Inl e"
    using record_loop_written[of s ?as s' "[]", unfolded append_Nil] by (auto simp: record_canonical_def)
  have n: "ub128_ok ?n"
    using small by (rule ub128_ok_of_nat)
  have "record_write r = Inr (sb128_octets (scast (rec_channel r)) @ ub128_octets ?n @ bs)"
    using bs(1) small
    by (simp add: record_write_def sb128_octets_props(1) attr_list_length_def
        attr_length_content_len(2) ub128_octets_props(1)[OF n])
  moreover have "case record_fault r of
      None \<Rightarrow> record_parse s ((sb128_octets (scast (rec_channel r)) @ ub128_octets ?n @ bs) @ rest)
        = (Inr (r, rest), s')
    | Some e \<Rightarrow> fst (record_parse s ((sb128_octets (scast (rec_channel r)) @ ub128_octets ?n @ bs) @ rest))
        = Inl e" for rest
    using bs(2)[of rest]
    by (auto simp: record_parse_def record_fault_def id_fault_def sb128_octets_props(3)
        ub128_octets_props(3)[OF n] split: option.splits sum.splits prod.splits)
  ultimately show ?thesis
    by blast
qed

lemma record_write_parse:
  assumes "record_ok s r" and "attrs_accepted s (rec_attributes r) = Inr s'"
  shows "\<exists>bs. record_write r = Inr bs
    \<and> (\<forall>rest. record_parse s (bs @ rest) = (Inr (r, rest), s'))"
  using record_write_result[of s r s'] assms by (simp add: record_ok_iff)

text \<open>
  The encodings form a codec for each session context whose definitions the record leaves
  unchanged, so records are told apart in a stream without separators.
\<close>

definition record_octets :: "hrecord \<Rightarrow> octets" where
  "record_octets r = (case record_write r of Inr bs \<Rightarrow> bs | Inl _ \<Rightarrow> [])"

definition record_dec :: "session_context \<Rightarrow> octets \<Rightarrow> (hrecord \<times> octets) result" where
  "record_dec s bs = fst (record_parse s bs)"

definition record_plain :: "session_context \<Rightarrow> hrecord \<Rightarrow> bool" where
  "record_plain s r \<longleftrightarrow> record_ok s r \<and> attrs_accepted s (rec_attributes r) = Inr s"

interpretation rec: codec record_octets "record_dec s" "record_plain s" for s
proof
  fix r rest
  assume "record_plain s r"
  then obtain bs where "record_write r = Inr bs" "record_parse s (bs @ rest) = (Inr (r, rest), s)"
    using record_write_parse[of s r s] by (auto simp: record_plain_def)
  then show "record_dec s (record_octets r @ rest) = Inr (r, rest)"
    by (simp add: record_dec_def record_octets_def)
qed

section \<open>Sample records\<close>

definition sample_session :: hrecord where
  "sample_session = \<lparr>rec_channel = channel_session,
     rec_attributes = [String_Attr attrid_source ''a'', Timestamp attrid_ts 1 0]\<rparr>"

definition sample_event :: "u64 \<Rightarrow> hrecord" where
  "sample_event n = \<lparr>rec_channel = 0, rec_attributes = [Unsigned_Integer attrid_seqnum n]\<rparr>"

definition sample_sync :: hrecord where
  "sample_sync = \<lparr>rec_channel = channel_sync, rec_attributes = []\<rparr>"

lemma sample_plain:
  "record_plain new_session sample_session" "record_plain new_session (sample_event 0)"
proof -
  have "sorted (map attr_key (rec_attributes sample_session))"
    "sorted (map attr_key (rec_attributes (sample_event 0)))"
    "contents_len (rec_attributes sample_session) = 10"
    "contents_len (rec_attributes (sample_event 0)) = 2"
    by code_simp+
  then show "record_plain new_session sample_session" "record_plain new_session (sample_event 0)"
    by (simp_all add: record_plain_def record_ok_def del: contents_len.simps content_len.simps)
      (simp_all add: sample_session_def sample_event_def apply_def_def
        get_attr_type_def reserved_attr_types_def wire_constants)
qed

section \<open>Properties\<close>

text \<open>
  C1: what is read of a record that was written. The attributes are in canonical order and of the
  classes that the session gives them, and the content is below 2 GiB. Then writing succeeds, and what
  is written is read back as exactly that record, whatever follows it in the stream, with the effect of
  its definitions on the session; unless it is one of the records that cannot be read: with a timestamp
  of second zero, the first such fault being the exception, or with a channel or an attribute
  identifier below \<open>- 64\<close> or a signed integer below \<open>- 128\<close>, for which a negative number is shifted.
\<close>

theorem record_roundtrip:
  assumes "record_canonical s r" and "attrs_accepted s (rec_attributes r) = Inr s'"
  shows "\<exists>bs. record_write r = Inr bs
    \<and> (\<forall>rest. case record_fault r of
         None \<Rightarrow> record_parse s (bs @ rest) = (Inr (r, rest), s')
       | Some e \<Rightarrow> fst (record_parse s (bs @ rest)) = Inl e)"
  by (rule record_write_result[OF assms])

theorem record_roundtrip_witness:
  "(\<exists>bs. record_write sample_session = Inr bs
    \<and> (\<forall>rest. record_parse new_session (bs @ rest) = (Inr (sample_session, rest), new_session)))
   \<and> (\<exists>bs. record_write (sample_session\<lparr>rec_attributes := [Timestamp attrid_ts 0 0]\<rparr>) = Inr bs
    \<and> (\<forall>rest. fst (record_parse new_session (bs @ rest))
        = Inl (Horace_Error ''invalid length for timestamp attribute'')))"
proof -
  have "record_fault sample_session = None"
    by code_simp
  moreover have "record_fault (sample_session\<lparr>rec_attributes := [Timestamp attrid_ts 0 0]\<rparr>)
      = Some (Horace_Error ''invalid length for timestamp attribute'')"
    by code_simp
  moreover have "contents_len [Timestamp attrid_ts 0 0] = 6"
    by code_simp
  then have "record_canonical new_session (sample_session\<lparr>rec_attributes := [Timestamp attrid_ts 0 0]\<rparr>)"
    "attrs_accepted new_session [Timestamp attrid_ts 0 0] = Inr new_session"
    by (simp_all add: record_canonical_def del: contents_len.simps content_len.simps)
      (simp_all add: apply_def_def get_attr_type_def reserved_attr_types_def wire_constants)
  ultimately show ?thesis
    using record_roundtrip[of new_session sample_session new_session] sample_plain(1)
      record_roundtrip[of new_session "sample_session\<lparr>rec_attributes := [Timestamp attrid_ts 0 0]\<rparr>" new_session]
    by (simp add: record_plain_def record_ok_iff)
qed

text \<open>
  Records are told apart in a stream without separators: two sequences of records that
  leave the session as it is and have the same concatenated encoding are the same sequence.
\<close>

lemma record_stream_inject:
  assumes "list_all (record_plain s) rs" and "list_all (record_plain s) rs'"
    and "concat (map record_octets rs) = concat (map record_octets rs')"
  shows "rs = rs'"
proof -
  have "record_dec s [] \<noteq> Inr x" for x
    by (simp add: record_dec_def record_parse_def read_signed_base128_def)
  with assms show ?thesis
    by (intro rec.stream_inject[of s]) auto
qed

theorem record_stream_inject_witness:
  "[sample_session, sample_event 0] = [sample_session, sample_event 0]"
  by (rule record_stream_inject[of new_session]) (simp_all add: sample_plain)

text \<open>
  C14: what a successful read returns: at least one octet is consumed, the attributes are those
  of the record in canonical order (stable for equal identifiers), each of the class that the
  session gave its identifier when it was read, and the session has exactly the definitions of
  the record added.
\<close>

theorem record_parse_sound:
  assumes "record_parse s bs = (Inr (r, bs'), s')" and "length bs < 2 ^ 63"
  shows "\<exists>ys. rec_attributes r = sort_key attr_key ys \<and> attrs_typed s ys
    \<and> attrs_accepted s ys = Inr s' \<and> length bs' < length bs"
  using record_parse_spec[OF assms] by metis

theorem record_parse_sound_witness:
  "\<exists>ys. rec_attributes (sample_event 0) = sort_key attr_key ys \<and> attrs_typed new_session ys
    \<and> attrs_accepted new_session ys = Inr new_session \<and> length ([] :: octets) < length [0, 2, 118, 0 :: octet]"
proof (rule record_parse_sound)
  show "record_parse new_session [0, 2, 118, 0] = (Inr (sample_event 0, []), new_session)"
    by code_simp
qed simp

text \<open>
  Whatever octets a peer sends, a failed read ends with one of the exceptions meant for bad
  input, never with a failed cast, and with no undefined behaviour but the shift of a negative number.
\<close>

lemma record_parse_failure:
  assumes "record_parse s bs = (Inl e, s')"
  shows "parse_exn e \<and> e \<noteq> Bad_Cast \<and> (\<forall>m. e = Undefined_Behaviour m \<longrightarrow> m = ''shift'')"
  using record_parse_error[OF assms] by (cases e) (simp_all add: parse_exn_def)

theorem record_parse_failure_witness: "parse_exn Eof_Error"
proof -
  have "record_parse new_session [] = (Inl Eof_Error, new_session)"
    by code_simp
  from record_parse_failure[OF this] show ?thesis
    by simp
qed

lemma apply_def_reserved:
  "apply_def a s = Inr s' \<Longrightarrow> sint i < 0 \<Longrightarrow>
     get_attr_type s' i = get_attr_type s i \<and> get_attr_label s' i = get_attr_label s i"
  by (auto simp: apply_def_def split: if_splits
      dest: handle_attr_def_reserved handle_channel_def_attrs[where i = i])

lemma attrs_accepted_reserved:
  "attrs_accepted s as = Inr s' \<Longrightarrow> sint i < 0 \<Longrightarrow>
     get_attr_type s' i = get_attr_type s i \<and> get_attr_label s' i = get_attr_label s i"
  by (induction as arbitrary: s) (auto dest: apply_def_reserved)

lemma record_loop_accepted:
  "record_loop s remaining as bs = (x, s') \<Longrightarrow> \<exists>ys. attrs_accepted s ys = Inr s'"
proof (induction s remaining as bs arbitrary: x s' rule: record_loop.induct)
  case (1 s remaining as bs)
  have stop: ?case if "s' = s"
    using that by (intro exI[of _ "[]"]) simp
  show ?case
  proof (cases "remaining = 0 \<or> (\<exists>e. read_attr_header bs = Inl e)")
    case True
    with "1.prems" show ?thesis
      by (intro stop) (auto simp: record_loop.simps[of s remaining] split: if_splits)
  next
    case False
    then obtain i n m bs2 where h: "read_attr_header bs = Inr (i, n, m, bs2)" and r: "remaining \<noteq> 0"
      by (cases "read_attr_header bs") auto
    show ?thesis
    proof (cases "attribute_parse s i n bs2")
      case (Inl e)
      with "1.prems" h r show ?thesis
        by (intro stop) (simp add: record_loop.simps[of s remaining])
    next
      case (Inr ab)
      obtain a bs3 where ab: "ab = (a, bs3)"
        by (cases ab)
      show ?thesis
      proof (cases "apply_def a s")
        case (Inl e)
        with "1.prems" h r Inr ab show ?thesis
          by (intro stop) (simp add: record_loop.simps[of s remaining])
      next
        case (Inr s1)
        have "\<exists>ys. attrs_accepted s1 ys = Inr s'"
        proof (cases "remaining < of_nat m + n")
          case True
          with "1.prems" h r \<open>attribute_parse s i n bs2 = Inr ab\<close> ab Inr show ?thesis
            by (intro exI[of _ "[]"]) (simp add: record_loop.simps[of s remaining])
        next
          case False
          with "1.prems" h r \<open>attribute_parse s i n bs2 = Inr ab\<close> ab Inr
          have "record_loop s1 (remaining - (of_nat m + n)) (attr_insert a as) bs3 = (x, s')"
            by (simp add: record_loop.simps[of s remaining])
          with "1.IH"[OF r h refl refl refl _ refl Inr False] \<open>attribute_parse s i n bs2 = Inr ab\<close> ab
          show ?thesis
            by blast
        qed
        then obtain ys where "attrs_accepted s1 ys = Inr s'"
          by blast
        then show ?thesis
          using Inr by (intro exI[of _ "a # ys"]) simp
      qed
    qed
  qed
qed

section \<open>Properties\<close>

text \<open>
  The identifiers that the protocol reserves keep their type and label whatever records are
  read, well-formed or not: a peer cannot redefine them.
\<close>

lemma reserved_attributes_fixed:
  assumes "record_parse s bs = (x, s')" and "sint i < 0"
  shows "get_attr_type s' i = get_attr_type s i \<and> get_attr_label s' i = get_attr_label s i"
proof -
  from assms(1) have "\<exists>ys. attrs_accepted s ys = Inr s'"
    by (auto simp: record_parse_def intro: exI[of _ "[]"] split: sum.splits prod.splits
        dest: record_loop_accepted)
  with attrs_accepted_reserved assms(2) show ?thesis
    by blast
qed

theorem reserved_attributes_fixed_witness:
  "get_attr_type new_session attrid_ts = get_attr_type new_session attrid_ts
   \<and> get_attr_label new_session attrid_ts = get_attr_label new_session attrid_ts"
proof (rule reserved_attributes_fixed)
  show "record_parse new_session [] = (Inl Eof_Error, new_session)"
    by code_simp
qed (simp add: wire_constants)

end
