(* ===== verification/Record_Writer.thy ===== *)
theory Record_Writer
  imports Octet_Buffer Record_Codec
begin

text \<open>
  How a record reaches an octet writer: \<^verbatim>\<open>record::write\<close>, \<^verbatim>\<open>attribute_list::write\<close> and the \<^verbatim>\<open>write\<close>
  functions of the attribute classes as the sequence of calls that they make of the octet writer, since
  its buffer sees each call on its own. The lemmas relate it to the encoding of the record.
\<close>

section \<open>The calls\<close>

text \<open>
  Headers and integers are written octet by octet, strings and binary content in one call.
\<close>

definition octet_puts :: "octets \<Rightarrow> put list" where
  "octet_puts bs = map Put_Octet bs"

definition block_puts :: "i32 \<Rightarrow> octets \<Rightarrow> put list result" where
  "block_puts i bs =
     bindE (attr_header i (of_nat (length bs))) (\<lambda>h. Inr (octet_puts h @ [Put_Octets bs]))"

definition octetwise :: "octets result \<Rightarrow> put list result" where
  "octetwise m = bindE m (\<lambda>bs. Inr (octet_puts bs))"

fun attr_puts :: "attribute \<Rightarrow> put list result"
  and attrs_puts :: "attribute list \<Rightarrow> put list result" where
  "attr_puts (Compound i as) =
     bindE (attr_list_length as) (\<lambda>n.
     bindE (attr_header i n) (\<lambda>h.
     bindE (attrs_puts as) (\<lambda>body. Inr (octet_puts h @ body))))"
| "attr_puts (Unsigned_Integer i v) = octetwise (unsigned_integer_write i v)"
| "attr_puts (Signed_Integer i v) = octetwise (signed_integer_write i v)"
| "attr_puts (Binary i bs) = block_puts i bs"
| "attr_puts (String_Attr i s) = block_puts i (write_string s)"
| "attr_puts (Timestamp i sec nsec) = octetwise (timestamp_write i sec nsec)"
| "attr_puts (Boolean i b) = octetwise (boolean_write i b)"
| "attr_puts (Unrecognised i bs) = block_puts i bs"
| "attrs_puts [] = Inr []"
| "attrs_puts (a # as) =
     bindE (attr_puts a) (\<lambda>xs. bindE (attrs_puts as) (\<lambda>ys. Inr (xs @ ys)))"

definition record_puts :: "hrecord \<Rightarrow> put list result" where
  "record_puts r =
     bindE (put_sb128 (scast (rec_channel r))) (\<lambda>c.
     bindE (attr_list_length (rec_attributes r)) (\<lambda>n.
     bindE (put_ub128 n) (\<lambda>l.
     bindE (attrs_puts (rec_attributes r)) (\<lambda>body. Inr (octet_puts c @ octet_puts l @ body)))))"

text \<open>
  The only exceptions of the encoding are undefined shifts; where it meets one, what was written
  before is not kept.
\<close>

definition writer_record :: "(octets \<Rightarrow> ('d, unit) act) \<Rightarrow> hrecord \<Rightarrow> ('d octet_writer, unit) act" where
  "writer_record wr r w =
     (case record_puts r of Inl e \<Rightarrow> (Inl e, w) | Inr ps \<Rightarrow> writer_puts wr ps w)"

section \<open>The octets written\<close>

definition puts_octets :: "put list \<Rightarrow> octets" where
  "puts_octets ps = concat (map put_octets ps)"

lemma puts_octets_simps [simp]:
  "puts_octets [] = []" "puts_octets (p # ps) = put_octets p @ puts_octets ps"
  "puts_octets (ps @ qs) = puts_octets ps @ puts_octets qs" "puts_octets (octet_puts bs) = bs"
  by (simp_all add: puts_octets_def octet_puts_def comp_def)

definition octets_put :: "put list result \<Rightarrow> octets result" where
  "octets_put m = bindE m (\<lambda>ps. Inr (puts_octets ps))"

lemma octets_put_simps [simp]:
  "octets_put (Inl e) = Inl e" "octets_put (Inr ps) = Inr (puts_octets ps)"
  "octets_put (octetwise m) = m"
  by (cases m; simp add: octets_put_def octetwise_def)+

lemma octets_put_bindE: "octets_put (bindE m f) = bindE m (\<lambda>x. octets_put (f x))"
  by (cases m) simp_all

lemma octets_put_block: "octets_put (block_puts i bs) = bindE (attr_header i (of_nat (length bs))) (\<lambda>h. Inr (h @ bs))"
  by (simp add: block_puts_def octets_put_bindE)

lemma attr_puts_write:
  "octets_put (attr_puts a) = attr_write a"
  "octets_put (attrs_puts as) = attrs_write as"
proof (induction a and as rule: attr_puts_attrs_puts.induct)
  case (1 i as)
  show ?case
  proof (cases "\<exists>n h. attr_list_length as = Inr n \<and> attr_header i n = Inr h")
    case True
    then have "octets_put (attrs_puts as) = attrs_write as"
      using 1 by blast
    with True show ?thesis
      by (cases "attrs_puts as"; cases "attrs_write as") (auto simp: octets_put_bindE)
  next
    case False
    then show ?thesis
      by (cases "attr_list_length as") (auto split: bindE_split simp: octets_put_bindE)
  qed
next
  case (10 a as)
  have w: "attr_write a = octets_put (attr_puts a)"
    by (rule 10(1)[symmetric])
  show ?case
  proof (cases "attr_puts a")
    case (Inr xs)
    then have "attrs_write as = octets_put (attrs_puts as)"
      by (rule 10(2)[symmetric])
    with w Inr show ?thesis
      by (cases "attrs_puts as") simp_all
  qed (simp add: w)
qed (simp_all add: octets_put_block binary_write_def string_write_def unrecognised_write_def write_string_def)

lemma record_puts_write: "octets_put (record_puts r) = record_write r"
  unfolding record_puts_def record_write_def octets_put_bindE
  by (cases "attrs_puts (rec_attributes r)")
    (simp_all add: attr_puts_write(2)[symmetric] octets_put_bindE)

lemma record_puts_Inr:
  "record_puts r = Inr ps \<Longrightarrow> record_write r = Inr (puts_octets ps)"
  using record_puts_write[of r] by simp

lemma record_puts_total:
  assumes "record_write r = Inr bs"
  obtains ps where "record_puts r = Inr ps" and "puts_octets ps = bs"
  using assms record_puts_write[of r] by (cases "record_puts r") auto

lemma writer_record_size: "writer_record wr r w = (x, w') \<Longrightarrow> wbuf_size w' = wbuf_size w"
  by (auto simp: writer_record_def split: sum.splits dest: writer_puts_size)

lemma writer_record_keeps:
  "(\<And>xs d. P (snd (wr xs d)) = P d) \<Longrightarrow> writer_record wr r w = (x, w') \<Longrightarrow> P (sink w') = P (sink w)"
  by (auto simp: writer_record_def split: sum.splits dest: writer_puts_keeps[where P = P and wr = wr, rotated])

lemma writer_record_write:
  "writer_record wr r w = (Inr u, w') \<Longrightarrow> record_write r = Inr (record_octets r)"
  by (auto simp: writer_record_def record_octets_def split: sum.splits dest: record_puts_Inr)

context octet_sink
begin

lemma writer_record_ok:
  assumes "writer_record wr r w = (Inr u, w')" and "writer_ok w"
  shows "writer_ok w' \<and> handed_over w' = handed_over w @ record_octets r"
proof -
  from assms(1) obtain ps where ps: "record_puts r = Inr ps" and w: "writer_puts wr ps w = (Inr u, w')"
    by (auto simp: writer_record_def split: sum.splits)
  have "record_octets r = concat (map put_octets ps)"
    using record_puts_Inr[OF ps] by (simp add: record_octets_def puts_octets_def)
  with writer_puts_ok[OF w assms(2)] show ?thesis
    by simp
qed

end

text \<open>
  Where the sink takes everything and there is a buffer, writing succeeds.
\<close>

lemma writer_puts_total:
  assumes "\<And>d xs. P d \<Longrightarrow> \<exists>d'. wr xs d = (Inr (), d') \<and> P d'" and "0 < wbuf_size w" and "P (sink w)"
  shows "\<exists>w'. writer_puts wr ps w = (Inr (), w') \<and> P (sink w') \<and> wbuf_size w' = wbuf_size w"
  using assms(2,3)
proof (induction ps arbitrary: w)
  case (Cons p ps)
  have flush: "\<exists>w'. writer_flush wr w = (Inr (), w') \<and> P (sink w') \<and> wbuf_size w' = wbuf_size w"
    if "P (sink w)" for w :: "'a octet_writer"
    using assms(1)[OF that, of "wbuf w"] that by (auto simp: writer_flush_def)
  have "\<exists>w1. writer_put wr p w = (Inr (), w1) \<and> P (sink w1)"
  proof (cases p)
    case (Put_Octet b)
    with flush[OF Cons.prems(2)] Cons.prems show ?thesis
      by (auto simp: writer_octet_def)
  next
    case (Put_Octets xs)
    obtain w1 where w1: "writer_flush wr w = (Inr (), w1)" "P (sink w1)"
      using flush[OF Cons.prems(2)] by blast
    obtain d where "wr xs (sink w1) = (Inr (), d)" "P d"
      using assms(1)[OF w1(2)] by blast
    with w1 Put_Octets Cons.prems show ?thesis
      by (auto simp: writer_octets_def writer_octets_slow_def)
  qed
  then obtain w1 where w1: "writer_put wr p w = (Inr (), w1)" "P (sink w1)"
    by blast
  with Cons.IH[of w1] Cons.prems(1) writer_put_size[OF w1(1)] show ?case
    by auto
qed auto

end
