(* ===== verification/Secure_Hash.thy ===== *)
theory Secure_Hash
  imports Record_Writer
begin

text \<open>
  The hashing octet writers (\<^verbatim>\<open>horace/hash.cc\<close>, \<^verbatim>\<open>horace/sha256_hash.cc\<close>,
  \<^verbatim>\<open>horace/sha512_hash.cc\<close>). The digest function itself is libsodium's and an argument of the
  model; the state of the hash context is the octets it has been updated with. The lemmas show
  that buffering does not change the digest, and that a hash object is reset by \<^verbatim>\<open>final\<close>.
\<close>

section \<open>State and operations\<close>

type_synonym hash_writer = "octets octet_writer"
type_synonym digest = "octets \<Rightarrow> octets"

definition hash_init :: hash_writer where
  "hash_init = \<lparr>wbuf_size = 0x40, wbuf = [], sink = []\<rparr>"

definition hash_write_direct :: "octets \<Rightarrow> (octets, unit) act" where
  "hash_write_direct xs ctx = (Inr (), ctx @ xs)"

definition hash_final :: "digest \<Rightarrow> (hash_writer, octets) act" where
  "hash_final digest w =
     (case writer_flush hash_write_direct w of
        (Inl e, w') \<Rightarrow> (Inl e, w')
      | (Inr _, w') \<Rightarrow> (Inr (digest (sink w')), w'\<lparr>sink := []\<rparr>))"

datatype hash_algorithm = SHA256 | SHA512

definition hash_make :: "string \<Rightarrow> hash_algorithm result" where
  "hash_make name =
     (if name = ''sha256'' then Inr SHA256
      else if name = ''sha512'' then Inr SHA512
      else Inl (Invalid_Argument ''unrecognised hash function name''))"

fun hash_name :: "hash_algorithm \<Rightarrow> string" where
  "hash_name SHA256 = ''sha256''"
| "hash_name SHA512 = ''sha512''"

fun hash_length :: "hash_algorithm \<Rightarrow> nat" where
  "hash_length SHA256 = 32"
| "hash_length SHA512 = 64"

definition hash_record :: "hrecord \<Rightarrow> (hash_writer, unit) act" where
  "hash_record r = writer_record hash_write_direct r"

section \<open>Buffering does not change the digest\<close>

interpretation hash_sink: octet_sink hash_write_direct "\<lambda>ctx. ctx" "\<lambda>_. True"
  by unfold_locales (auto simp: hash_write_direct_def)

lemma hash_flush_total: "\<exists>w'. writer_flush hash_write_direct w = (Inr (), w')"
  by (simp add: writer_flush_def hash_write_direct_def)

lemma hash_puts:
  assumes "hash_sink.writer_ok w" and "0 < wbuf_size w"
  shows "\<exists>w'. writer_puts hash_write_direct ps w = (Inr (), w') \<and> wbuf_size w' = wbuf_size w
    \<and> hash_sink.writer_ok w' \<and> hash_sink.handed_over w' = hash_sink.handed_over w @ puts_octets ps"
proof -
  obtain w' where w': "writer_puts hash_write_direct ps w = (Inr (), w')" "wbuf_size w' = wbuf_size w"
    using writer_puts_total[of "\<lambda>_. True" hash_write_direct w ps] assms(2) by (auto simp: hash_write_direct_def)
  from hash_sink.writer_puts_ok[OF w'(1) assms(1)] w' show ?thesis
    by (simp add: puts_octets_def)
qed

lemma hash_final_puts:
  "\<exists>w. writer_puts hash_write_direct ps hash_init = (Inr (), w)
    \<and> hash_final digest w = (Inr (digest (puts_octets ps)), hash_init)"
proof -
  have i: "hash_sink.writer_ok hash_init" "0 < wbuf_size hash_init" "hash_sink.handed_over hash_init = []"
    "wbuf_size hash_init = 0x40"
    by (simp_all add: hash_init_def hash_sink.writer_ok_def hash_sink.handed_over_def)
  obtain w where w: "writer_puts hash_write_direct ps hash_init = (Inr (), w)" "wbuf_size w = 0x40"
    "hash_sink.writer_ok w" "hash_sink.handed_over w = puts_octets ps"
    using hash_puts[OF i(1,2), of ps] i(3,4) by auto
  obtain w' where w': "writer_flush hash_write_direct w = (Inr (), w')"
    using hash_flush_total by blast
  from hash_sink.flush_ok[OF w' w(3)] w w' show ?thesis
    by (auto simp: hash_final_def hash_init_def)
qed

lemma writer_puts_append:
  "writer_puts wr (ps @ qs) w = (case writer_puts wr ps w of (Inl e, w') \<Rightarrow> (Inl e, w') | (Inr _, w') \<Rightarrow> writer_puts wr qs w')"
  by (induction ps arbitrary: w) (auto split: prod.split sum.split)

lemma hash_of_record:
  assumes "record_write r = Inr bs"
  shows "\<exists>w1 w2. writer_octets hash_write_direct pre hash_init = (Inr (), w1)
    \<and> hash_record r w1 = (Inr (), w2) \<and> hash_final digest w2 = (Inr (digest (pre @ bs)), hash_init)"
proof -
  obtain ps where ps: "record_puts r = Inr ps" "puts_octets ps = bs"
    using assms by (rule record_puts_total)
  then show ?thesis
    using hash_final_puts[of "Put_Octets pre # ps" digest]
    by (auto simp: hash_record_def writer_record_def split: prod.splits sum.splits)
qed

lemma hash_of_session:
  assumes "record_write r = Inr bs"
  shows "\<exists>w. hash_record r hash_init = (Inr (), w) \<and> hash_final digest w = (Inr (digest bs), hash_init)"
proof -
  obtain ps where ps: "record_puts r = Inr ps" "puts_octets ps = bs"
    using assms by (rule record_puts_total)
  then show ?thesis
    using hash_final_puts[of ps digest] by (auto simp: hash_record_def writer_record_def)
qed

section \<open>Properties\<close>

text \<open>
  The digest of what is written to a hash object depends only on the concatenation of the
  pieces, not on how they meet its 64-octet buffer, and taking it leaves the object fresh.
\<close>

lemma hash_of_puts:
  "\<exists>w. writer_puts hash_write_direct ps hash_init = (Inr (), w)
    \<and> hash_final digest w = (Inr (digest (puts_octets ps)), hash_init)"
  by (rule hash_final_puts)

end
