(* ===== verification/Session_Writer.thy ===== *)
theory Session_Writer
  imports Record_Codec
begin

text \<open>
  \<^verbatim>\<open>simple_session_writer\<close> (\<^verbatim>\<open>horace/simple_session_writer.cc\<close>), the base of the endpoint session
  writers: it follows the session records, dispatches each record to the virtual handler for its
  channel and answers sync records. The handlers of the derived class are an argument. The
  lemmas relate the state to the records written so far.
\<close>

section \<open>State\<close>

text \<open>
  \<open>sub\<close> is the part of the object that the derived class adds; \<open>on_sub\<close> runs an action on it.
\<close>

record 'd session_writer =
  srcid :: string
  srec :: "hrecord option"
  seqnum :: u64
  ended :: bool
  reply :: "hrecord option"
  sub :: 'd

type_synonym ('d, 'a) sw_act = "('d session_writer, 'a) act"

record 'd handlers =
  handle_session_start :: "hrecord \<Rightarrow> ('d, unit) sw_act"
  handle_session_end :: "hrecord \<Rightarrow> ('d, unit) sw_act"
  handle_sync :: "hrecord \<Rightarrow> ('d, unit) sw_act"
  handle_signature :: "hrecord \<Rightarrow> ('d, unit) sw_act"
  handle_control :: "hrecord \<Rightarrow> ('d, unit) sw_act"
  handle_event :: "hrecord \<Rightarrow> ('d, unit) sw_act"

definition session_writer_init :: "string \<Rightarrow> 'd \<Rightarrow> 'd session_writer" where
  "session_writer_init name d =
     \<lparr>srcid = name, srec = None, seqnum = 0, ended = True, reply = None, sub = d\<rparr>"

definition no_action :: "hrecord \<Rightarrow> ('d, unit) sw_act" where
  "no_action r = returnS ()"

definition on_sub :: "('d, 'a) act \<Rightarrow> ('d, 'a) sw_act" where
  "on_sub m s = (case m (sub s) of (x, d) \<Rightarrow> (x, s\<lparr>sub := d\<rparr>))"

section \<open>Operations\<close>

definition find_timestamp :: "hrecord \<Rightarrow> attribute result" where
  "find_timestamp r =
     bindE (record_find_one attrid_ts r) (\<lambda>a. bindE (as_timestamp a) (\<lambda>_. Inr a))"

definition same_ts :: "hrecord \<Rightarrow> hrecord \<Rightarrow> bool result" where
  "same_ts l r =
     bindE (find_timestamp l) (\<lambda>a. bindE (find_timestamp r) (\<lambda>b. Inr (attr_eq a b)))"

definition process_session_record :: "'d handlers \<Rightarrow> hrecord \<Rightarrow> ('d, unit) sw_act" where
  "process_session_record h r =
     bindS (liftS (bindE (record_find_one attrid_source r) as_string)) (\<lambda>new_srcid.
     bindS (getS srcid) (\<lambda>own_srcid.
       if new_srcid \<noteq> own_srcid
       then throwS (Horace_Error ''unexpected source ID in session record'')
       else
         bindS (getS srec) (\<lambda>old.
         bindS (liftS (case old of None \<Rightarrow> Inr True | Some l \<Rightarrow> bindE (same_ts l r) (\<lambda>same. Inr (\<not> same))))
           (\<lambda>is_new.
              if is_new then
                seqS (modifyS (\<lambda>s. s\<lparr>srec := Some r, seqnum := 0, ended := False\<rparr>))
                  (handle_session_start h r)
              else if record_eq (the old) r then returnS ()
              else throwS (Horace_Error ''non-matching start of session record'')))))"

definition process_end_record :: "'d handlers \<Rightarrow> hrecord \<Rightarrow> ('d, unit) sw_act" where
  "process_end_record h r = seqS (handle_session_end h r) (modifyS (\<lambda>s. s\<lparr>ended := True\<rparr>))"

text \<open>
  The reply to a sync record names the session by its source and timestamp. A null session
  record would be dereferenced here; \<open>write_record\<close> lets no sync record through before the first
  session record.
\<close>

definition sync_reply :: "'d session_writer \<Rightarrow> hrecord result" where
  "sync_reply s =
     (case srec s of
        None \<Rightarrow> Inl (Undefined_Behaviour ''null pointer'')
      | Some r \<Rightarrow>
          bindE (record_find_one attrid_source r) (\<lambda>a.
          bindE (as_string a) (\<lambda>_.
          bindE (find_timestamp r) (\<lambda>b.
            Inr \<lparr>rec_channel = channel_sync,
                 rec_attributes = attr_insert (Unsigned_Integer attrid_seqnum (seqnum s))
                   (attr_insert b (attr_insert a []))\<rparr>))))"

definition process_sync_record :: "'d handlers \<Rightarrow> hrecord \<Rightarrow> ('d, unit) sw_act" where
  "process_sync_record h r =
     seqS (handle_sync h r)
       (bindS (\<lambda>s. (sync_reply s, s)) (\<lambda>rep. modifyS (\<lambda>s. s\<lparr>reply := Some rep\<rparr>)))"

definition session_record :: "('d, hrecord) sw_act" where
  "session_record =
     bindS (getS srec) (\<lambda>r. case r of
        None \<Rightarrow> throwS (Horace_Error ''no session in progress'')
      | Some r \<Rightarrow> returnS r)"

definition write_guard :: "hrecord \<Rightarrow> 'd session_writer \<Rightarrow> unit result" where
  "write_guard r s =
     (if srec s = None then
        (if rec_channel r \<noteq> channel_session then Inl (Horace_Error ''no session in progress'')
         else Inr ())
      else if ended s then
        (if is_event r then Inl (Horace_Error ''session has ended'') else Inr ())
      else Inr ())"

definition write_record :: "'d handlers \<Rightarrow> hrecord \<Rightarrow> ('d, unit) sw_act" where
  "write_record h r =
     seqS (\<lambda>s. (write_guard r s, s))
       (if rec_channel r = channel_session then process_session_record h r
        else if rec_channel r = channel_end then process_end_record h r
        else if rec_channel r = channel_sync then process_sync_record h r
        else if rec_channel r = channel_signature then handle_signature h r
        else if is_event r then
          seqS (handle_event h r)
            (bindS (liftS (bindE (record_find_one attrid_seqnum r) as_unsigned_integer))
              (\<lambda>n. modifyS (\<lambda>s. s\<lparr>seqnum := n + 1\<rparr>)))
        else handle_control h r)"

definition readable :: "'d session_writer \<Rightarrow> bool" where
  "readable s \<longleftrightarrow> reply s \<noteq> None"

definition read_record :: "('d, hrecord) sw_act" where
  "read_record =
     bindS (getS reply) (\<lambda>r. case r of
        None \<Rightarrow> throwS (Horace_Error ''no reply record available'')
      | Some r \<Rightarrow> seqS (modifyS (\<lambda>s. s\<lparr>reply := None\<rparr>)) (returnS r))"

section \<open>The contract of the handlers\<close>

text \<open>
  The private members of the base class: a handler of a derived class cannot reach them, except
  through the public \<^verbatim>\<open>read\<close>.
\<close>

definition same_base :: "'d session_writer \<Rightarrow> 'd session_writer \<Rightarrow> bool" where
  "same_base s t \<longleftrightarrow> srcid s = srcid t \<and> srec s = srec t \<and> seqnum s = seqnum t
     \<and> ended s = ended t \<and> reply s = reply t"

lemma on_sub_base: "on_sub m s = (x, s') \<Longrightarrow> same_base s s' \<and> m (sub s) = (x, sub s')"
  by (auto simp: on_sub_def same_base_def split: prod.splits)

lemma same_base_refl [simp]: "same_base s s"
  by (simp add: same_base_def)

lemma same_base_trans: "same_base s t \<Longrightarrow> same_base t u \<Longrightarrow> same_base s u"
  by (simp add: same_base_def)

text \<open>
  What the base class has to know of the records accepted so far: the session record in force,
  the sequence number after the last event of that session, and whether an end record was seen.
\<close>

record progress =
  in_force :: "hrecord option"
  next_seqnum :: u64
  has_ended :: bool

definition progress_init :: progress where
  "progress_init = \<lparr>in_force = None, next_seqnum = 0, has_ended = True\<rparr>"

definition event_seqnum :: "hrecord \<Rightarrow> u64 result" where
  "event_seqnum r = bindE (record_find_one attrid_seqnum r) as_unsigned_integer"

definition progress_step :: "progress \<Rightarrow> hrecord \<Rightarrow> progress" where
  "progress_step p r =
     (if rec_channel r = channel_session then
        (if in_force p = Some r then p
         else \<lparr>in_force = Some r, next_seqnum = 0, has_ended = False\<rparr>)
      else if rec_channel r = channel_end then p\<lparr>has_ended := True\<rparr>
      else if is_event r then
        (case event_seqnum r of Inr n \<Rightarrow> p\<lparr>next_seqnum := n + 1\<rparr> | Inl _ \<Rightarrow> p)
      else p)"

definition progress_of :: "'d session_writer \<Rightarrow> progress" where
  "progress_of s = \<lparr>in_force = srec s, next_seqnum = seqnum s, has_ended = ended s\<rparr>"

fun write_records :: "'d handlers \<Rightarrow> hrecord list \<Rightarrow> ('d, unit) sw_act" where
  "write_records h [] = returnS ()"
| "write_records h (r # rs) = seqS (write_record h r) (write_records h rs)"

lemma write_records_append:
  "write_records h (xs @ ys) s = (Inr (), t) \<longleftrightarrow>
     (\<exists>u. write_records h xs s = (Inr (), u) \<and> write_records h ys u = (Inr (), t))"
  by (induction xs arbitrary: s) (auto simp: act_Inr)

lemma sync_reply_cong:
  "srec s = srec t \<Longrightarrow> seqnum s = seqnum t \<Longrightarrow> sync_reply s = sync_reply t"
  by (simp add: sync_reply_def split: option.split)

lemma same_ts_same: "same_ts r r = Inr b \<Longrightarrow> b"
  by (auto simp: same_ts_def attr_eq_iff)

locale passive_handlers =
  fixes h :: "'d handlers"
  assumes start_base: "handle_session_start h r s = (Inr (), s') \<Longrightarrow> same_base s s'"
    and end_base: "handle_session_end h r s = (Inr (), s') \<Longrightarrow> same_base s s'"
    and sync_base: "handle_sync h r s = (Inr (), s') \<Longrightarrow> same_base s s'"
    and signature_base: "handle_signature h r s = (Inr (), s') \<Longrightarrow> same_base s s'"
    and control_base: "handle_control h r s = (Inr (), s') \<Longrightarrow> same_base s s'"
    and event_base: "handle_event h r s = (Inr (), s') \<Longrightarrow> same_base s s'"
begin

lemma process_session_progress:
  assumes "process_session_record h r s = (Inr (), s')" and "rec_channel r = channel_session"
  shows "progress_of s' = progress_step (progress_of s) r \<and> srcid s' = srcid s \<and> reply s' = reply s"
proof (cases "srec s")
  case None
  with assms show ?thesis
    by (auto simp: process_session_record_def act_Inr progress_step_def progress_of_def same_base_def
        split: if_splits dest!: start_base)
next
  case (Some l)
  from assms(1) Some obtain b where b: "same_ts l r = Inr b"
    by (cases "same_ts l r") (auto simp: process_session_record_def act_Inr split: if_splits)
  show ?thesis
  proof (cases b)
    case True
    with assms Some b show ?thesis
      by (auto simp: process_session_record_def act_Inr record_eq_iff progress_step_def
          progress_of_def split: if_splits)
  next
    case False
    with b have "l \<noteq> r"
      using same_ts_same by blast
    with assms Some b False show ?thesis
      by (auto simp: process_session_record_def act_Inr progress_step_def progress_of_def
          same_base_def split: if_splits dest!: start_base)
  qed
qed

lemma write_progress:
  assumes "write_record h r s = (Inr (), s')"
  shows "progress_of s' = progress_step (progress_of s) r \<and> srcid s' = srcid s"
proof -
  from assms have g: "write_guard r s = Inr ()"
    by (auto simp: write_record_def act_Inr)
  consider (session) "rec_channel r = channel_session" | (end_rec) "rec_channel r = channel_end"
    | (sync) "rec_channel r = channel_sync" | (sig) "rec_channel r = channel_signature"
    | (event) "is_event r" "rec_channel r \<notin> {channel_session, channel_end, channel_sync, channel_signature}"
    | (control) "\<not> is_event r" "rec_channel r \<notin> {channel_session, channel_end, channel_sync, channel_signature}"
    by blast
  then show ?thesis
  proof cases
    case session
    with assms process_session_progress show ?thesis
      by (auto simp: write_record_def act_Inr)
  next
    case end_rec
    with assms show ?thesis
      by (auto simp: write_record_def act_Inr process_end_record_def channel_constants progress_step_def
          progress_of_def same_base_def dest!: end_base)
  next
    case sync
    with assms show ?thesis
      by (auto simp: write_record_def act_Inr process_sync_record_def channel_constants progress_step_def
          progress_of_def same_base_def is_event_def dest!: sync_base)
  next
    case sig
    with assms show ?thesis
      by (auto simp: write_record_def act_Inr channel_constants progress_step_def
          progress_of_def same_base_def is_event_def dest!: signature_base)
  next
    case event
    with assms obtain s1 n where s1: "handle_event h r s = (Inr (), s1)" and n: "event_seqnum r = Inr n"
      and s': "s' = s1\<lparr>seqnum := n + 1\<rparr>"
      by (auto simp: write_record_def act_Inr event_seqnum_def)
    with event_base[OF s1] event show ?thesis
      by (auto simp: progress_step_def progress_of_def same_base_def)
  next
    case control
    with assms show ?thesis
      by (auto simp: write_record_def act_Inr progress_step_def progress_of_def same_base_def
          dest!: control_base)
  qed
qed

lemma write_records_progress:
  "write_records h rs s = (Inr (), s') \<Longrightarrow>
     progress_of s' = foldl progress_step (progress_of s) rs \<and> srcid s' = srcid s"
  by (induction rs arbitrary: s) (auto simp: act_Inr write_progress)

lemma write_sync_reply:
  assumes "write_record h r s = (Inr (), s')" and "rec_channel r = channel_sync"
  shows "\<exists>rep. sync_reply s = Inr rep \<and> reply s' = Some rep"
proof -
  from assms obtain s1 rep where s1: "handle_sync h r s = (Inr (), s1)"
    and rep: "sync_reply s1 = Inr rep" and s': "s' = s1\<lparr>reply := Some rep\<rparr>"
    by (auto simp: write_record_def process_sync_record_def act_Inr channel_constants)
  from sync_base[OF s1] have "sync_reply s1 = sync_reply s"
    by (intro sync_reply_cong) (auto simp: same_base_def)
  with rep s' show ?thesis
    by auto
qed

text \<open>
  The answer to a sync record: it names the session in force and the sequence number that
  follows the last event accepted in it.
\<close>

lemma sync_acknowledges:
  assumes "write_records h (rs @ [c]) (session_writer_init name d) = (Inr (), s')"
    and "rec_channel c = channel_sync"
  shows "\<exists>r src ts. in_force (foldl progress_step progress_init rs) = Some r
    \<and> record_find_one attrid_source r = Inr src \<and> find_timestamp r = Inr ts
    \<and> reply s' = Some \<lparr>rec_channel = channel_sync, rec_attributes = attr_insert
        (Unsigned_Integer attrid_seqnum (next_seqnum (foldl progress_step progress_init rs)))
        (attr_insert ts (attr_insert src []))\<rparr>"
proof -
  from assms(1) obtain s1 where s1: "write_records h rs (session_writer_init name d) = (Inr (), s1)"
    and c: "write_record h c s1 = (Inr (), s')"
    by (auto simp: write_records_append act_Inr)
  have p: "progress_of s1 = foldl progress_step progress_init rs"
    using write_records_progress[OF s1]
    by (simp add: session_writer_init_def progress_of_def progress_init_def)
  then have "in_force (foldl progress_step progress_init rs) = srec s1"
    and "next_seqnum (foldl progress_step progress_init rs) = seqnum s1"
    by (simp_all add: progress_of_def flip: p)
  with write_sync_reply[OF c assms(2)] show ?thesis
    by (auto simp: sync_reply_def split: option.splits)
qed

end

section \<open>The null session writer\<close>

text \<open>
  The handlers that the base class itself defines do nothing. A writer whose other handlers do
  nothing either is the smallest derived class.
\<close>

definition null_handlers :: "'d handlers" where
  "null_handlers = \<lparr>handle_session_start = no_action, handle_session_end = no_action,
     handle_sync = no_action, handle_signature = no_action, handle_control = no_action,
     handle_event = no_action\<rparr>"

interpretation null_writer: passive_handlers null_handlers
  by unfold_locales (auto simp: null_handlers_def no_action_def returnS_def same_base_def)

section \<open>Properties\<close>

text \<open>
  An event never reaches the handlers of a session writer outside a session: before the first
  session record, or after an end record, it is refused with an exception and nothing changes.
\<close>

lemma event_outside_session:
  assumes "is_event r" and "srec s = None \<or> ended s"
  shows "\<exists>m. write_record h r s = (Inl (Horace_Error m), s)"
  using assms by (auto simp: write_record_def write_guard_def act_simps is_event_def channel_constants)

theorem event_outside_session_witness:
  "\<exists>m. write_record null_handlers (sample_event 0) (session_writer_init ''a'' ())
    = (Inl (Horace_Error m), session_writer_init ''a'' ())"
  by (rule event_outside_session) (simp_all add: sample_event_def is_event_def session_writer_init_def)

end
