(* ===== verification/New_Session_Writer.thy ===== *)
theory New_Session_Writer
  imports Secure_Hash Session_Writer "HOL-Library.Sublist"
begin

text \<open>
  \<^verbatim>\<open>new_session_writer\<close> (\<^verbatim>\<open>horace/new_session_writer.cc\<close>) and \<^verbatim>\<open>event_signer\<close>
  (\<^verbatim>\<open>horace/event_signer.cc\<close>): numbering, hashing and signing of newly captured events on their way
  to an endpoint. The session writer of the endpoint, the digest, the signature function and the
  clock are arguments. The lemmas show that the events written form a hash chain, that a chain is
  tamper evident, and what the signing thread signs.
\<close>

section \<open>The event signer's shared state\<close>

text \<open>
  The sequence number and hash most recently offered for signing; an empty hash means that there
  is nothing new to sign. \<open>sign\<close> is \<^verbatim>\<open>keypair::sign\<close>.
\<close>

record signer =
  sg_seqnum :: u64
  sg_hash :: octets

definition make_signature :: "(octets \<Rightarrow> octets) \<Rightarrow> u64 option \<Rightarrow> octets \<Rightarrow> hrecord" where
  "make_signature sign n hash =
     \<lparr>rec_channel = channel_signature,
      rec_attributes = attr_insert (Binary attrid_sig (sign hash))
        (case n of None \<Rightarrow> [] | Some k \<Rightarrow> attr_insert (Unsigned_Integer attrid_seqnum k) [])\<rparr>"

definition signer_handle_event :: "u64 \<Rightarrow> octets \<Rightarrow> signer \<Rightarrow> signer" where
  "signer_handle_event n hash sg = sg\<lparr>sg_seqnum := n, sg_hash := hash\<rparr>"

section \<open>The new session writer\<close>

record 'w endpoint_ops =
  ep_write :: "hrecord \<Rightarrow> ('w, unit) act"
  ep_writable :: "('w, bool) act"

record 'w new_writer =
  nw_srec :: "hrecord option"
  nw_sw :: "'w option"
  nw_seqnum :: u64
  nw_session_hash :: octets
  nw_hattr :: "attribute option"
  nw_hashfn :: "hash_writer option"
  nw_signer :: "signer option"
  nw_alarms :: nat

definition new_writer_init :: "'w \<Rightarrow> bool \<Rightarrow> 'w new_writer" where
  "new_writer_init w hashing =
     \<lparr>nw_srec = None, nw_sw = Some w, nw_seqnum = 0, nw_session_hash = [], nw_hattr = None,
      nw_hashfn = (if hashing then Some hash_init else None), nw_signer = None, nw_alarms = 0\<rparr>"

text \<open>
  A call through \<^verbatim>\<open>_sw\<close>; calling through a null pointer has no meaning.
\<close>

definition sw_call :: "('w, 'a) act \<Rightarrow> ('w new_writer, 'a) act" where
  "sw_call f s =
     (case nw_sw s of
        None \<Rightarrow> (Inl (Undefined_Behaviour ''null pointer''), s)
      | Some w \<Rightarrow> (case f w of (r, w') \<Rightarrow> (r, s\<lparr>nw_sw := Some w'\<rparr>)))"

text \<open>
  The writable test that ends each iteration of \<^verbatim>\<open>_write\<close>; the signal it sends is counted.
\<close>

definition alarm_unless_writable :: "'w endpoint_ops \<Rightarrow> ('w new_writer, unit) act" where
  "alarm_unless_writable ops =
     bindS (sw_call (ep_writable ops)) (\<lambda>ok.
       if ok then returnS () else modifyS (\<lambda>s. s\<lparr>nw_alarms := nw_alarms s + 1\<rparr>))"

text \<open>
  \<^verbatim>\<open>_write\<close>: an exception other than termination clears \<^verbatim>\<open>_sw\<close> and asks for another iteration, but
  the writable test comes first.
\<close>

definition nw_write :: "'w endpoint_ops \<Rightarrow> hrecord \<Rightarrow> ('w new_writer, unit) act" where
  "nw_write ops r s =
     (case sw_call (ep_write ops r) s of
        (Inl Terminate_Exception, s') \<Rightarrow> (Inl Terminate_Exception, s')
      | (Inl (Undefined_Behaviour m), s') \<Rightarrow> (Inl (Undefined_Behaviour m), s')
      | (Inl e, s') \<Rightarrow> alarm_unless_writable ops (s'\<lparr>nw_sw := None\<rparr>)
      | (Inr _, s') \<Rightarrow> alarm_unless_writable ops s')"

definition nw_writable :: "'w endpoint_ops \<Rightarrow> ('w new_writer, bool) act" where
  "nw_writable ops s =
     (case sw_call (ep_writable ops) s of
        (Inl Terminate_Exception, s') \<Rightarrow> (Inl Terminate_Exception, s')
      | (Inl (Undefined_Behaviour m), s') \<Rightarrow> (Inl (Undefined_Behaviour m), s')
      | (Inl e, s') \<Rightarrow> (Inr False, s')
      | (Inr b, s') \<Rightarrow> (Inr b, s'))"

definition attach_signer :: "signer \<Rightarrow> 'w new_writer \<Rightarrow> 'w new_writer" where
  "attach_signer sg s = s\<lparr>nw_signer := Some sg\<rparr>"

text \<open>
  Running an action on the hash object.
\<close>

definition hash_call :: "hash_writer \<Rightarrow> (hash_writer, 'a) act \<Rightarrow> ('w new_writer, 'a) act" where
  "hash_call h f s = (case f h of (r, h') \<Rightarrow> (r, s\<lparr>nw_hashfn := Some h'\<rparr>))"

definition begin_session ::
  "digest \<Rightarrow> (octets \<Rightarrow> octets) \<Rightarrow> 'w endpoint_ops \<Rightarrow> hrecord \<Rightarrow> ('w new_writer, unit) act" where
  "begin_session digest sign ops r =
     seqS (modifyS (\<lambda>s. s\<lparr>nw_srec := Some r\<rparr>))
    (seqS (sw_call (ep_write ops r))
    (bindS (getS nw_hashfn) (\<lambda>hashfn. case hashfn of
        None \<Rightarrow> returnS ()
      | Some h \<Rightarrow>
          bindS (hash_call h (seqS (hash_record r) (hash_final digest))) (\<lambda>hash.
          seqS (modifyS (\<lambda>s. s\<lparr>nw_session_hash := hash\<rparr>))
            (bindS (getS nw_signer) (\<lambda>sg. case sg of
               None \<Rightarrow> returnS ()
             | Some _ \<Rightarrow> sw_call (ep_write ops (make_signature sign None hash))))))))"

definition numbered_record :: "hrecord \<Rightarrow> 'w new_writer \<Rightarrow> hrecord" where
  "numbered_record r s =
     (let attrs = attr_insert (Unsigned_Integer attrid_seqnum (nw_seqnum s)) (rec_attributes r) in
      \<lparr>rec_channel = rec_channel r,
       rec_attributes = (case nw_hattr s of None \<Rightarrow> attrs | Some a \<Rightarrow> attr_insert a attrs)\<rparr>)"

definition chain_hash :: "digest \<Rightarrow> octets \<Rightarrow> hrecord \<Rightarrow> (hash_writer, octets) act" where
  "chain_hash digest session_hash r =
     seqS (writer_octets hash_write_direct session_hash) (seqS (hash_record r) (hash_final digest))"

definition hash_event :: "digest \<Rightarrow> hrecord \<Rightarrow> ('w new_writer, unit) act" where
  "hash_event digest nrec =
     bindS (getS nw_hashfn) (\<lambda>hashfn. case hashfn of
        None \<Rightarrow> returnS ()
      | Some h \<Rightarrow>
          bindS (getS nw_session_hash) (\<lambda>session_hash.
          bindS (hash_call h (chain_hash digest session_hash nrec)) (\<lambda>hash.
            modifyS (\<lambda>s. s\<lparr>nw_hattr := Some (Binary attrid_hash hash),
              nw_signer := map_option (signer_handle_event (nw_seqnum s) hash) (nw_signer s)\<rparr>))))"

definition write_event ::
  "digest \<Rightarrow> 'w endpoint_ops \<Rightarrow> hrecord \<Rightarrow> ('w new_writer, unit) act" where
  "write_event digest ops r =
     bindS (getS (numbered_record r)) (\<lambda>nrec.
     seqS (modifyS (\<lambda>s. s\<lparr>nw_hattr := None\<rparr>))
    (seqS (nw_write ops nrec)
    (seqS (hash_event digest nrec)
     (modifyS (\<lambda>s. s\<lparr>nw_seqnum := nw_seqnum s + 1\<rparr>)))))"

definition write_signature :: "'w endpoint_ops \<Rightarrow> hrecord \<Rightarrow> ('w new_writer, unit) act" where
  "write_signature ops sigrec = nw_write ops sigrec"

definition end_record :: "i64 \<times> i64 \<Rightarrow> 'w new_writer \<Rightarrow> hrecord" where
  "end_record now s =
     (let attrs = attr_insert (Unsigned_Integer attrid_seqnum (nw_seqnum s))
        (attr_insert (Timestamp attrid_ts (fst now) (snd now)) []) in
      \<lparr>rec_channel = channel_end,
       rec_attributes = (case nw_hattr s of None \<Rightarrow> attrs | Some a \<Rightarrow> attr_insert a attrs)\<rparr>)"

definition end_session ::
  "digest \<Rightarrow> (octets \<Rightarrow> octets) \<Rightarrow> (i64 \<times> i64) result \<Rightarrow> 'w endpoint_ops \<Rightarrow> ('w new_writer, unit) act" where
  "end_session digest sign clock ops =
     bindS (getS nw_sw) (\<lambda>sw. case sw of
        None \<Rightarrow> returnS ()
      | Some _ \<Rightarrow>
          bindS (liftS clock) (\<lambda>now.
          bindS (getS (end_record now)) (\<lambda>erec.
          seqS (modifyS (\<lambda>s. s\<lparr>nw_hattr := None\<rparr>))
         (seqS (sw_call (ep_write ops erec))
         (seqS (bindS (getS nw_hashfn) (\<lambda>hashfn. case hashfn of
              None \<Rightarrow> returnS ()
            | Some h \<Rightarrow>
                bindS (getS nw_session_hash) (\<lambda>session_hash.
                bindS (hash_call h (chain_hash digest session_hash erec)) (\<lambda>hash.
                bindS (getS nw_signer) (\<lambda>sg. case sg of
                   None \<Rightarrow> returnS ()
                 | Some _ \<Rightarrow>
                     bindS (getS nw_seqnum) (\<lambda>n.
                       sw_call (ep_write ops (make_signature sign (Some n) hash))))))))
          (modifyS (\<lambda>s. s\<lparr>nw_sw := None\<rparr>)))))))"

section \<open>A failed write is not retried\<close>

lemma alarm_unless_writable_Inr:
  assumes "alarm_unless_writable ops s = (Inr (), s')"
  shows "\<exists>w b w'. nw_sw s = Some w \<and> ep_writable ops w = (Inr b, w')
    \<and> s' = (if b then s\<lparr>nw_sw := Some w'\<rparr> else s\<lparr>nw_sw := Some w', nw_alarms := nw_alarms s + 1\<rparr>)"
proof (cases "nw_sw s")
  case None
  with assms show ?thesis
    by (simp add: alarm_unless_writable_def sw_call_def act_simps)
next
  case (Some w)
  obtain res w' where w': "ep_writable ops w = (res, w')"
    by fastforce
  with Some assms obtain b where "res = Inr b"
    by (cases res) (simp_all add: alarm_unless_writable_def sw_call_def act_simps)
  with Some assms w' show ?thesis
    by (intro exI[of _ w] exI[of _ b] exI[of _ w'])
      (auto simp: alarm_unless_writable_def sw_call_def act_simps)
qed

lemma nw_write_Inr:
  assumes "nw_write ops r s = (Inr (), s')"
  shows "\<exists>w w'. nw_sw s = Some w \<and> ep_write ops r w = (Inr (), w')
    \<and> alarm_unless_writable ops (s\<lparr>nw_sw := Some w'\<rparr>) = (Inr (), s')"
proof (cases "nw_sw s")
  case None
  with assms show ?thesis
    by (simp add: nw_write_def sw_call_def)
next
  case (Some w)
  obtain res w' where w': "ep_write ops r w = (res, w')"
    by fastforce
  show ?thesis
  proof (cases res)
    case (Inl e)
    with assms Some w' show ?thesis
      by (cases e) (auto simp: nw_write_def sw_call_def dest: alarm_unless_writable_Inr)
  next
    case (Inr u)
    with assms Some w' show ?thesis
      by (simp add: nw_write_def sw_call_def)
  qed
qed

lemma nw_write_failure:
  assumes "nw_sw s = Some w" and "ep_write ops r w = (Inl e, w')" and "e \<noteq> Terminate_Exception"
    and "\<forall>m. e \<noteq> Undefined_Behaviour m"
  shows "nw_write ops r s = (Inl (Undefined_Behaviour ''null pointer''), s\<lparr>nw_sw := None\<rparr>)"
  using assms by (cases e) (simp_all add: nw_write_def sw_call_def alarm_unless_writable_def act_simps)


section \<open>The hash chain\<close>

text \<open>
  What someone who holds the records can check: event \<open>i\<close> carries sequence number \<open>n + i\<close> and the
  hash of its predecessor, the first one no hash; each hash covers the hash of the session record
  and the whole encoding of the record.
\<close>

definition link_hash :: "digest \<Rightarrow> octets \<Rightarrow> hrecord \<Rightarrow> octets" where
  "link_hash digest sh r = digest (sh @ record_octets r)"

fun carries_hash :: "octets option \<Rightarrow> hrecord \<Rightarrow> bool" where
  "carries_hash None r \<longleftrightarrow> \<not> record_contains attrid_hash r"
| "carries_hash (Some x) r \<longleftrightarrow> record_find_one attrid_hash r = Inr (Binary attrid_hash x)"

fun chained :: "digest \<Rightarrow> octets \<Rightarrow> u64 \<Rightarrow> octets option \<Rightarrow> hrecord list \<Rightarrow> bool" where
  "chained digest sh n prev [] \<longleftrightarrow> True"
| "chained digest sh n prev (r # rs) \<longleftrightarrow>
     record_find_one attrid_seqnum r = Inr (Unsigned_Integer attrid_seqnum n)
     \<and> carries_hash prev r \<and> chained digest sh (n + 1) (Some (link_hash digest sh r)) rs"

lemma numbered_record_link:
  assumes "\<not> record_contains attrid_seqnum r" and "\<not> record_contains attrid_hash r"
    and "nw_hattr s = map_option (Binary attrid_hash) prev"
  shows "record_find_one attrid_seqnum (numbered_record r s)
      = Inr (Unsigned_Integer attrid_seqnum (nw_seqnum s))"
    and "carries_hash prev (numbered_record r s)"
    and "rec_channel (numbered_record r s) = rec_channel r"
proof -
  let ?a = "Unsigned_Integer attrid_seqnum (nw_seqnum s)"
  have ne: "attrid_seqnum \<noteq> attrid_hash"
    by (simp add: attrid_constants)
  have new: "find_one attrid_seqnum (attr_insert ?a (rec_attributes r)) = Inr ?a"
    using find_one_insert_new[of ?a] assms(1) by (simp add: record_contains_def)
  have hash: "find_one attrid_hash (attr_insert (Binary attrid_hash h) (attr_insert ?a (rec_attributes r)))
      = Inr (Binary attrid_hash h)" for h
    using find_one_insert_new[of "Binary attrid_hash h" "attr_insert ?a (rec_attributes r)"] assms(2) ne
    by (simp add: record_contains_def)
  show "record_find_one attrid_seqnum (numbered_record r s) = Inr ?a"
    using new ne assms(3)
    by (auto simp: record_find_one_def numbered_record_def Let_def find_one_insert_other
        split: option.splits)
  show "carries_hash prev (numbered_record r s)"
    using hash ne assms(2,3)
    by (cases prev) (auto simp: record_find_one_def record_contains_def numbered_record_def Let_def)
  show "rec_channel (numbered_record r s) = rec_channel r"
    by (simp add: numbered_record_def Let_def)
qed

text \<open>
  The records that are sent for events captured: each event with the sequence number \<open>n\<close> and the hash of the
  record before it added to its attributes. \<open>captured c r\<close> says that \<open>c\<close> is the event \<open>r\<close> apart from these.
\<close>

definition link_record :: "u64 \<Rightarrow> octets option \<Rightarrow> hrecord \<Rightarrow> hrecord" where
  "link_record n prev r =
     (let as = attr_insert (Unsigned_Integer attrid_seqnum n) (rec_attributes r) in
      \<lparr>rec_channel = rec_channel r,
       rec_attributes = (case prev of None \<Rightarrow> as | Some h \<Rightarrow> attr_insert (Binary attrid_hash h) as)\<rparr>)"

fun chain_records :: "digest \<Rightarrow> octets \<Rightarrow> u64 \<Rightarrow> octets option \<Rightarrow> hrecord list \<Rightarrow> hrecord list" where
  "chain_records digest sh n prev [] = []"
| "chain_records digest sh n prev (r # rs) =
     (let c = link_record n prev r in
      c # chain_records digest sh (n + 1) (Some (link_hash digest sh c)) rs)"

definition captured :: "hrecord \<Rightarrow> hrecord \<Rightarrow> bool" where
  "captured c r \<longleftrightarrow> rec_channel c = rec_channel r
     \<and> filter (\<lambda>a. attrid a \<noteq> attrid_seqnum \<and> attrid a \<noteq> attrid_hash) (rec_attributes c) = rec_attributes r"

definition unnumbered :: "hrecord \<Rightarrow> bool" where
  "unnumbered r \<longleftrightarrow> is_event r \<and> \<not> record_contains attrid_seqnum r \<and> \<not> record_contains attrid_hash r"

lemma numbered_record_eq:
  "nw_hattr s = map_option (Binary attrid_hash) prev \<Longrightarrow> numbered_record r s = link_record (nw_seqnum s) prev r"
  by (auto simp: numbered_record_def link_record_def Let_def split: option.split)

lemma filter_insert_other:
  "\<not> P a \<Longrightarrow> filter P (attr_insert a as) = filter P as"
  using attr_insert_split[of as a] by auto

lemma link_record_captured:
  assumes "unnumbered r"
  shows "captured (link_record n prev r) r"
proof -
  have "filter (\<lambda>a. attrid a \<noteq> attrid_seqnum \<and> attrid a \<noteq> attrid_hash) (rec_attributes r) = rec_attributes r"
    using assms by (force simp: filter_id_conv unnumbered_def record_contains_def attr_contains_iff)
  then show ?thesis
    by (auto simp: captured_def link_record_def Let_def filter_insert_other split: option.split)
qed

lemma chain_records_captured:
  "list_all unnumbered rs \<Longrightarrow> list_all2 captured (chain_records digest sh n prev rs) rs"
  by (induction rs arbitrary: n prev) (simp_all add: Let_def link_record_captured)

lemma record_octets_write: "record_write r = Inr bs \<Longrightarrow> record_octets r = bs"
  by (simp add: record_octets_def)

lemma hash_record_Inr:
  "hash_record r w = (Inr (), w') \<Longrightarrow> record_write r = Inr (record_octets r)"
  unfolding hash_record_def by (rule writer_record_write)

lemma chain_hash_Inr:
  assumes "chain_hash digest sh r hash_init = (Inr x, h')"
  shows "x = link_hash digest sh r" and "h' = hash_init" and "record_write r = Inr (record_octets r)"
proof -
  from assms obtain w1 w2 where w1: "writer_octets hash_write_direct sh hash_init = (Inr (), w1)"
    and w2: "hash_record r w1 = (Inr (), w2)" and fin: "hash_final digest w2 = (Inr x, h')"
    by (auto simp: chain_hash_def act_Inr)
  show wr: "record_write r = Inr (record_octets r)"
    by (rule hash_record_Inr[OF w2])
  from hash_of_record[OF wr, of sh digest] w1 w2 fin
  show "x = link_hash digest sh r" and "h' = hash_init"
    by (auto simp: link_hash_def)
qed

fun write_events ::
  "digest \<Rightarrow> 'w endpoint_ops \<Rightarrow> hrecord list \<Rightarrow> ('w new_writer, unit) act" where
  "write_events digest ops [] = returnS ()"
| "write_events digest ops (r # rs) = seqS (write_event digest ops r) (write_events digest ops rs)"

text \<open>
  The contract of an endpoint: the octets it has been given are the encodings of the records it
  was asked to write, in order. Only a session record may be left out, where it is not the first,
  and a sync record. \<open>ok\<close> is an invariant of the endpoint's writer, \<open>fresh\<close> holds before the first
  session record.
\<close>

definition passed_on :: "hrecord \<Rightarrow> bool" where
  "passed_on r \<longleftrightarrow> rec_channel r \<noteq> channel_session \<and> rec_channel r \<noteq> channel_sync"

lemma passed_on_event [simp]: "is_event r \<Longrightarrow> passed_on r"
  by (auto simp: passed_on_def is_event_def channel_constants)

locale recording_endpoint =
  fixes ops :: "'w endpoint_ops" and given :: "'w \<Rightarrow> octets" and ok :: "'w \<Rightarrow> bool"
    and fresh :: "'w \<Rightarrow> bool"
  assumes write_ok: "ok w \<Longrightarrow> ep_write ops r w = (Inr (), w') \<Longrightarrow> ok w'"
    and write_given: "ok w \<Longrightarrow> ep_write ops r w = (Inr (), w') \<Longrightarrow>
      passed_on r \<or> (fresh w \<and> rec_channel r = channel_session) \<Longrightarrow> given w' = given w @ record_octets r"
    and writable_given: "ok w \<Longrightarrow> ep_writable ops w = (Inr b, w') \<Longrightarrow> given w' = given w \<and> ok w'"
begin

definition sent :: "'w new_writer \<Rightarrow> octets" where
  "sent s = (case nw_sw s of None \<Rightarrow> [] | Some w \<Rightarrow> given w)"

definition sw_ok :: "'w new_writer \<Rightarrow> bool" where
  "sw_ok s \<longleftrightarrow> (case nw_sw s of None \<Rightarrow> True | Some w \<Rightarrow> ok w)"

definition hashing :: "digest \<Rightarrow> octets option \<Rightarrow> 'w new_writer \<Rightarrow> bool" where
  "hashing digest prev s \<longleftrightarrow> nw_hashfn s = Some hash_init
     \<and> nw_hattr s = map_option (Binary attrid_hash) prev"

lemma nw_write_ok:
  assumes "nw_write ops r s = (Inr (), s')" and "sw_ok s" and "passed_on r"
  shows "sent s' = sent s @ record_octets r \<and> sw_ok s' \<and> nw_seqnum s' = nw_seqnum s \<and> nw_hashfn s' = nw_hashfn s
    \<and> nw_hattr s' = nw_hattr s \<and> nw_session_hash s' = nw_session_hash s \<and> nw_signer s' = nw_signer s"
proof -
  from nw_write_Inr[OF assms(1)] obtain w w1 where w: "nw_sw s = Some w" "ep_write ops r w = (Inr (), w1)"
    and a: "alarm_unless_writable ops (s\<lparr>nw_sw := Some w1\<rparr>) = (Inr (), s')"
    by blast
  from w assms(2) have "ok w"
    by (simp add: sw_ok_def)
  then have w1: "ok w1" "given w1 = given w @ record_octets r"
    using write_ok[OF _ w(2)] write_given[OF _ w(2)] assms(3) by simp_all
  from alarm_unless_writable_Inr[OF a] obtain b w2 where w2: "ep_writable ops w1 = (Inr b, w2)"
    and s': "s' = (if b then s\<lparr>nw_sw := Some w2\<rparr> else s\<lparr>nw_sw := Some w2, nw_alarms := nw_alarms s + 1\<rparr>)"
    by auto
  from writable_given[OF w1(1) w2] w(1) w1(2) show ?thesis
    by (simp add: s' sent_def sw_ok_def)
qed

lemma write_event_link:
  assumes "write_event digest ops r s = (Inr (), s')" and "hashing digest prev s"
    and "sw_ok s" and "unnumbered r"
  defines "c \<equiv> link_record (nw_seqnum s) prev r"
  shows "sent s' = sent s @ record_octets c \<and> sw_ok s'
    \<and> chained digest (nw_session_hash s) (nw_seqnum s) prev [c]
    \<and> hashing digest (Some (link_hash digest (nw_session_hash s) c)) s'
    \<and> nw_seqnum s' = nw_seqnum s + 1 \<and> nw_session_hash s' = nw_session_hash s
    \<and> nw_signer s' = map_option (signer_handle_event (nw_seqnum s)
        (link_hash digest (nw_session_hash s) c)) (nw_signer s)"
proof -
  have prev: "nw_hattr s = map_option (Binary attrid_hash) prev"
    using assms(2) by (simp add: hashing_def)
  have c: "numbered_record r s = c"
    unfolding c_def by (rule numbered_record_eq[OF prev])
  from assms(1) obtain s1 where s1: "nw_write ops c (s\<lparr>nw_hattr := None\<rparr>) = (Inr (), s1)"
    and s2: "seqS (hash_event digest c) (modifyS (\<lambda>s. s\<lparr>nw_seqnum := nw_seqnum s + 1\<rparr>)) s1
      = (Inr (), s')"
    unfolding write_event_def c[symmetric] by (auto simp: seqS_Inr bindS_Inr getS_def modifyS_def)
  have "sw_ok (s\<lparr>nw_hattr := None\<rparr>)" and "passed_on c"
    using assms(3,4) by (auto simp: sw_ok_def c_def link_record_def Let_def passed_on_def
        unnumbered_def is_event_def channel_constants)
  note w = nw_write_ok[OF s1 this]
  have "nw_hashfn s1 = Some hash_init"
    using w assms(2) by (simp add: hashing_def)
  with s2 obtain hash h' where ch: "chain_hash digest (nw_session_hash s1) c hash_init = (Inr hash, h')"
    and s': "s' = s1\<lparr>nw_hashfn := Some h', nw_hattr := Some (Binary attrid_hash hash),
      nw_signer := map_option (signer_handle_event (nw_seqnum s1) hash) (nw_signer s1),
      nw_seqnum := nw_seqnum s1 + 1\<rparr>"
    by (auto simp: act_Inr hash_event_def hash_call_def split: prod.splits)
  note h = chain_hash_Inr[OF ch]
  have "\<not> record_contains attrid_seqnum r" and "\<not> record_contains attrid_hash r"
    using assms(4) by (simp_all add: unnumbered_def)
  note l = numbered_record_link[OF this prev, unfolded c]
  show ?thesis
    using w h l s' by (auto simp: hashing_def sent_def sw_ok_def)
qed

lemma write_events_chained:
  assumes "write_events digest ops rs s = (Inr (), s')" and "hashing digest prev s"
    and "list_all unnumbered rs" and "sw_ok s"
  defines "cs \<equiv> chain_records digest (nw_session_hash s) (nw_seqnum s) prev rs"
  shows "sent s' = sent s @ concat (map record_octets cs) \<and> sw_ok s'
    \<and> chained digest (nw_session_hash s) (nw_seqnum s) prev cs
    \<and> hashing digest (if cs = [] then prev else Some (link_hash digest (nw_session_hash s) (last cs))) s'
    \<and> nw_seqnum s' = nw_seqnum s + of_nat (length rs) \<and> nw_session_hash s' = nw_session_hash s"
  using assms(1-4) unfolding cs_def
proof (induction rs arbitrary: s prev)
  case Nil
  then show ?case
    by (auto simp: act_Inr)
next
  case (Cons r rs)
  let ?c = "link_record (nw_seqnum s) prev r"
  let ?prev = "Some (link_hash digest (nw_session_hash s) ?c)"
  from Cons.prems(1) obtain s1 where s1: "write_event digest ops r s = (Inr (), s1)"
    and rest: "write_events digest ops rs s1 = (Inr (), s')"
    by (auto simp: act_Inr)
  from write_event_link[OF s1 Cons.prems(2)] Cons.prems(3,4) have
    n: "sent s1 = sent s @ record_octets ?c" "sw_ok s1"
      "chained digest (nw_session_hash s) (nw_seqnum s) prev [?c]" "hashing digest ?prev s1"
      "nw_seqnum s1 = nw_seqnum s + 1" "nw_session_hash s1 = nw_session_hash s"
    by auto
  let ?cs = "chain_records digest (nw_session_hash s) (nw_seqnum s + 1) ?prev rs"
  from Cons.IH[OF rest n(4)] Cons.prems(3) n have
    "sent s' = sent s1 @ concat (map record_octets ?cs)" "sw_ok s'"
    "chained digest (nw_session_hash s) (nw_seqnum s + 1) ?prev ?cs"
    "hashing digest (if ?cs = [] then ?prev else Some (link_hash digest (nw_session_hash s) (last ?cs))) s'"
    "nw_seqnum s' = nw_seqnum s1 + of_nat (length rs)" "nw_session_hash s' = nw_session_hash s1"
    by auto
  with n show ?case
    by (cases "?cs = []") (simp_all add: Let_def)
qed

end

section \<open>A chain is tamper evident\<close>

lemma chained_snoc:
  "chained digest sh n prev (rs @ [r]) \<longleftrightarrow> chained digest sh n prev rs
     \<and> record_find_one attrid_seqnum r = Inr (Unsigned_Integer attrid_seqnum (n + of_nat (length rs)))
     \<and> carries_hash (if rs = [] then prev else Some (link_hash digest sh (last rs))) r"
  by (induction rs arbitrary: n prev) (auto simp: algebra_simps)

text \<open>
  What is hashed of a session: the session record, and the hash of it followed by each event. A collision
  is two such inputs that differ and have the same digest. \<open>reads_as\<close> says that reading the encoding of a
  record gives the record.
\<close>

definition hashed :: "digest \<Rightarrow> hrecord \<Rightarrow> hrecord list \<Rightarrow> octets set" where
  "hashed digest r cs = insert (record_octets r) ((\<lambda>c. digest (record_octets r) @ record_octets c) ` set cs)"

definition collision :: "digest \<Rightarrow> octets set \<Rightarrow> octets set \<Rightarrow> bool" where
  "collision digest xs ys \<longleftrightarrow> (\<exists>x \<in> xs. \<exists>y \<in> ys. x \<noteq> y \<and> digest x = digest y)"

definition reads_as :: "session_context \<Rightarrow> hrecord \<Rightarrow> bool" where
  "reads_as ctx r \<longleftrightarrow> fst (record_parse ctx (record_octets r)) = Inr (r, [])"

lemma reads_as_inject: "reads_as ctx x \<Longrightarrow> reads_as ctx y \<Longrightarrow> record_octets x = record_octets y \<Longrightarrow> x = y"
  by (simp add: reads_as_def)

lemma record_ok_reads_as: "record_ok s r \<Longrightarrow> attrs_accepted s (rec_attributes r) = Inr s' \<Longrightarrow> reads_as s r"
  using record_write_parse[of s r s'] by (auto simp: reads_as_def record_octets_def dest: spec[of _ "[]"])

lemma carries_hash_inject: "carries_hash p r \<Longrightarrow> carries_hash q r \<Longrightarrow> p = q"
proof -
  have "record_contains attrid_hash r" if "record_find_one attrid_hash r = Inr a" for a
    using find_one_attrid[of attrid_hash "rec_attributes r" a] that
    by (force simp: record_contains_def record_find_one_def attr_contains_iff)
  then show "carries_hash p r \<Longrightarrow> carries_hash q r \<Longrightarrow> p = q"
    by (cases p; cases q) auto
qed

text \<open>
  Two chains from the start that end in the same hash have the same session and the same events, or there
  is a collision. Nothing is assumed of the digest but that all its values have one length.
\<close>

lemma chains_agree:
  assumes "chained digest (digest (record_octets r)) n None cs"
    and "chained digest (digest (record_octets r')) n' None cs'"
    and "cs \<noteq> []" and "cs' \<noteq> []" and "\<And>x. length (digest x) = len"
    and "link_hash digest (digest (record_octets r)) (last cs) = link_hash digest (digest (record_octets r')) (last cs')"
    and "list_all (reads_as ctx) cs" and "list_all (reads_as ctx) cs'"
    and "\<not> collision digest (hashed digest r cs) (hashed digest r' cs')"
  shows "record_octets r = record_octets r' \<and> cs = cs'"
  using assms(1-4,6-9)
proof (induction cs arbitrary: cs' rule: rev_induct)
  case (snoc x xs)
  let ?sh = "digest (record_octets r)" and ?sh' = "digest (record_octets r')"
  from snoc.prems(4) obtain ys y where cs': "cs' = ys @ [y]"
    by (metis append_butlast_last_id)
  have "?sh @ record_octets x = ?sh' @ record_octets y"
    using snoc.prems(5,8) by (force simp: cs' link_hash_def collision_def hashed_def)
  moreover have "length ?sh = length ?sh'"
    using assms(5) by simp
  ultimately have sh: "?sh = ?sh'" and xy: "record_octets x = record_octets y"
    by auto
  have r: "record_octets r = record_octets r'"
    using sh snoc.prems(8) by (auto simp: collision_def hashed_def)
  have "x = y"
    using reads_as_inject[of ctx x y] xy snoc.prems(6,7) by (simp add: cs')
  have chain: "carries_hash (if xs = [] then None else Some (link_hash digest ?sh (last xs))) x"
    "carries_hash (if ys = [] then None else Some (link_hash digest ?sh' (last ys))) y"
    using snoc.prems(1,2) by (simp_all add: cs' chained_snoc)
  then have eq: "(if xs = [] then None else Some (link_hash digest ?sh (last xs)))
      = (if ys = [] then None else Some (link_hash digest ?sh' (last ys)))"
    unfolding \<open>x = y\<close> by (rule carries_hash_inject)
  show ?case
  proof (cases "xs = []")
    case True
    with eq r \<open>x = y\<close> show ?thesis
      by (simp add: cs' split: if_splits)
  next
    case False
    with eq have "ys \<noteq> []" and "link_hash digest ?sh (last xs) = link_hash digest ?sh' (last ys)"
      by (auto split: if_splits)
    with snoc.IH[of ys] snoc.prems False r \<open>x = y\<close> show ?thesis
      by (auto simp: cs' chained_snoc collision_def hashed_def)
  qed
qed simp

text \<open>
  Events as a capture program makes them: attributes in canonical order and of the classes of the session,
  none of them a definition, a sequence number or a hash, with nothing that cannot be read back.
\<close>

definition plain_event :: "session_context \<Rightarrow> hrecord \<Rightarrow> bool" where
  "plain_event ctx r \<longleftrightarrow> is_event r \<and> sorted (map attr_key (rec_attributes r))
     \<and> list_all (\<lambda>a. attr_wf ctx a \<and> encodable a
         \<and> attrid a \<notin> {attrid_attr_def, attrid_chan_def, attrid_seqnum, attrid_hash}) (rec_attributes r)
     \<and> contents_len (rec_attributes r) < 2 ^ 30"

lemma plain_event_unnumbered: "plain_event ctx r \<Longrightarrow> unnumbered r"
  by (auto simp: plain_event_def unnumbered_def record_contains_def attr_contains_iff list_all_iff)

lemma link_record_reads_as:
  assumes "plain_event ctx r" and "\<And>h. prev = Some h \<Longrightarrow> length h \<le> 64"
  shows "reads_as ctx (link_record n prev r)"
proof -
  let ?n = "Unsigned_Integer attrid_seqnum n" and ?c = "link_record n prev r"
  have wf: "attr_wf ctx ?n" "attr_wf ctx (Binary attrid_hash h)" for h
    by (simp_all add: get_attr_type_def reserved_attr_types_def wire_constants)
  have ids: "attrid_seqnum \<notin> {attrid_attr_def, attrid_chan_def}" "attrid_hash \<notin> {attrid_attr_def, attrid_chan_def}"
    by (simp_all add: wire_constants)
  have header: "header_len i k \<le> 18" if "k < 2 ^ 63" for i k
    using sb128_octets_props(6)[OF sb128_ok_scast, of i] ub128_octets_props(6)[OF ub128_ok_of_nat[OF that]]
    by (simp add: header_len_def)
  have "contents_len (rec_attributes ?c) \<le> contents_len (rec_attributes r) + 200"
    using assms(2) header[of "content_len ?n" attrid_seqnum] ui_length_le_8[of n] header[of "length (the prev)" attrid_hash]
    by (cases prev) (auto simp: link_record_def Let_def contents_len_insert)
  then have len: "contents_len (rec_attributes ?c) < 2 ^ 31"
    using assms(1) by (simp add: plain_event_def)
  have "list_all (\<lambda>a. attr_wf ctx a \<and> encodable a \<and> attrid a \<notin> {attrid_attr_def, attrid_chan_def}) (rec_attributes ?c)
    \<and> sorted (map attr_key (rec_attributes ?c))"
    using assms(1) wf ids
    by (auto simp: link_record_def Let_def list_all_iff plain_event_def sorted_attr_insert split: option.splits)
  moreover from this have "attrs_typed ctx (rec_attributes ?c) \<and> attrs_accepted ctx (rec_attributes ?c) = Inr ctx"
    by (intro defines_nothing) (auto simp: list_all_iff)
  moreover have "- 64 \<le> sint (rec_channel ?c)"
    using assms(1) by (simp add: plain_event_def is_event_def link_record_def Let_def)
  ultimately have "record_ok ctx ?c" "attrs_accepted ctx (rec_attributes ?c) = Inr ctx"
    using len by (auto simp: record_ok_def list_all_iff)
  then show ?thesis
    by (rule record_ok_reads_as)
qed

lemma chain_records_read:
  assumes "\<And>x. length (digest x) \<le> 64"
  shows "list_all (plain_event ctx) rs \<Longrightarrow> (\<And>h. prev = Some h \<Longrightarrow> length h \<le> 64) \<Longrightarrow>
     list_all (reads_as ctx) (chain_records digest sh n prev rs)"
proof (induction rs arbitrary: n prev)
  case (Cons r rs)
  let ?h = "Some (link_hash digest sh (link_record n prev r))"
  have "list_all (reads_as ctx) (chain_records digest sh (n + 1) ?h rs)"
    by (rule Cons.IH) (use Cons.prems(1) assms in \<open>auto simp: link_hash_def\<close>)
  with Cons.prems link_record_reads_as[of ctx r prev n] show ?case
    by (simp add: Let_def)
qed simp

section \<open>Beginning a session\<close>

context recording_endpoint
begin

lemma begin_session_sent:
  assumes "begin_session digest sign ops r s = (Inr (), s')" and "nw_hashfn s = Some hash_init"
    and "nw_sw s = Some w" and "ok w" and "fresh w" and "rec_channel r = channel_session"
  shows "nw_session_hash s' = digest (record_octets r) \<and> nw_hashfn s' = Some hash_init
    \<and> nw_seqnum s' = nw_seqnum s \<and> nw_hattr s' = nw_hattr s
    \<and> sw_ok s' \<and> sent s' = sent s @ record_octets r @ (if nw_signer s = None then []
         else record_octets (make_signature sign None (digest (record_octets r))))"
proof -
  note w = assms(3)
  from assms(1,2) w obtain w1 hash h' where w1: "ep_write ops r w = (Inr (), w1)"
    and h: "seqS (hash_record r) (hash_final digest) hash_init = (Inr hash, h')"
    and rest: "(case nw_signer s of None \<Rightarrow> returnS ()
      | Some _ \<Rightarrow> sw_call (ep_write ops (make_signature sign None hash)))
        (s\<lparr>nw_srec := Some r, nw_sw := Some w1, nw_hashfn := Some h', nw_session_hash := hash\<rparr>) = (Inr (), s')"
    by (auto simp: begin_session_def seqS_Inr bindS_Inr getS_def modifyS_def sw_call_def hash_call_def
        split: prod.splits)
  from h obtain h1 where h1: "hash_record r hash_init = (Inr (), h1)" "hash_final digest h1 = (Inr hash, h')"
    by (auto simp: seqS_Inr)
  from hash_of_session[OF hash_record_Inr[OF h1(1)], of digest] h1
  have hash: "hash = digest (record_octets r)" "h' = hash_init"
    by auto
  have w1': "ok w1" "given w1 = given w @ record_octets r"
    using write_ok[OF assms(4) w1] write_given[OF assms(4) w1] assms(5,6) by simp_all
  have sg: "passed_on (make_signature sign None x)" for x
    by (simp add: make_signature_def passed_on_def channel_constants)
  from rest w w1' hash write_given[OF w1'(1) _ disjI1[OF sg]] write_ok[OF w1'(1)] show ?thesis
    by (auto simp: sent_def sw_ok_def sw_call_def returnS_def split: option.splits prod.splits)
qed

end

section \<open>The signing thread\<close>

text \<open>
  \<^verbatim>\<open>event_signer::_run\<close> against the capture thread. The thread waits for a hash, sleeps without the
  lock, takes the hash and sequence number offered last and clears the hash, and signs what it
  took. \<open>offered\<close> and \<open>signatures\<close> are histories: the pairs passed to \<^verbatim>\<open>handle_event\<close> and the pairs for
  which a signature record was written.
\<close>

datatype signer_phase = Waiting | Sleeping | Signing u64 octets | Stopped

record signer_thread =
  shared :: signer
  phase :: signer_phase
  offered :: "(u64 \<times> octets) list"
  signatures :: "(u64 \<times> octets) list"

definition signer_thread_init :: "u64 \<Rightarrow> signer_thread" where
  "signer_thread_init n =
     \<lparr>shared = \<lparr>sg_seqnum = n, sg_hash = []\<rparr>, phase = Waiting, offered = [], signatures = []\<rparr>"

inductive signer_step :: "signer_thread \<Rightarrow> signer_thread \<Rightarrow> bool" where
  offer: "hash \<noteq> [] \<Longrightarrow> signer_step t
    (t\<lparr>shared := signer_handle_event n hash (shared t), offered := offered t @ [(n, hash)]\<rparr>)"
| wake: "phase t = Waiting \<Longrightarrow> sg_hash (shared t) \<noteq> [] \<Longrightarrow> signer_step t (t\<lparr>phase := Sleeping\<rparr>)"
| take_hash: "phase t = Sleeping \<Longrightarrow> signer_step t
    (t\<lparr>phase := Signing (sg_seqnum (shared t)) (sg_hash (shared t)), shared := (shared t)\<lparr>sg_hash := []\<rparr>\<rparr>)"
| sign_hash: "phase t = Signing n hash \<Longrightarrow> signer_step t
    (t\<lparr>phase := Waiting, signatures := signatures t @ [(n, hash)]\<rparr>)"
| terminate: "phase t \<in> {Waiting, Sleeping} \<Longrightarrow> signer_step t (t\<lparr>phase := Stopped\<rparr>)"

inductive signer_reachable :: "u64 \<Rightarrow> signer_thread \<Rightarrow> bool" for n0 :: u64 where
  start: "signer_reachable n0 (signer_thread_init n0)"
| step: "signer_reachable n0 t \<Longrightarrow> signer_step t t' \<Longrightarrow> signer_reachable n0 t'"

definition taken :: "signer_thread \<Rightarrow> (u64 \<times> octets) list" where
  "taken t = signatures t @ (case phase t of Signing n h \<Rightarrow> [(n, h)] | _ \<Rightarrow> [])"

text \<open>
  Taking never gets ahead of offering: what was taken is a subsequence of what was offered, and a
  hash that is still waiting is the one offered last and has not been taken.
\<close>

definition signer_inv :: "signer_thread \<Rightarrow> bool" where
  "signer_inv t \<longleftrightarrow>
     (\<forall>p \<in> set (offered t). snd p \<noteq> [])
     \<and> (phase t = Sleeping \<longrightarrow> sg_hash (shared t) \<noteq> [])
     \<and> (if sg_hash (shared t) = [] then subseq (taken t) (offered t)
        else (\<exists>ps. offered t = ps @ [(sg_seqnum (shared t), sg_hash (shared t))] \<and> subseq (taken t) ps))"

lemma subseq_prefix: "subseq xs ys \<Longrightarrow> subseq xs (ys @ zs)"
  using list_emb_append_mono[of "(=)" xs ys "[]" zs] by simp

lemma subseq_set_subset: "subseq xs ys \<Longrightarrow> set xs \<subseteq> set ys"
proof
  fix x
  assume "subseq xs ys" and "x \<in> set xs"
  then obtain y where "y \<in> set ys" and "x = y"
    by (rule list_emb_set)
  then show "x \<in> set ys"
    by simp
qed

lemma signer_step_inv: "signer_step t t' \<Longrightarrow> signer_inv t \<Longrightarrow> signer_inv t'"
proof (induction rule: signer_step.induct)
  case (offer hash t n)
  then have "subseq (taken t) (offered t)"
    by (auto simp: signer_inv_def intro: subseq_prefix split: if_splits)
  with offer show ?case
    by (auto simp: signer_inv_def taken_def signer_handle_event_def)
next
  case (wake t)
  then show ?case
    by (auto simp: signer_inv_def taken_def)
next
  case (take_hash t)
  then obtain ps where "offered t = ps @ [(sg_seqnum (shared t), sg_hash (shared t))]" "subseq (taken t) ps"
    by (auto simp: signer_inv_def)
  then have "subseq (taken t @ [(sg_seqnum (shared t), sg_hash (shared t))]) (offered t)"
    by (simp add: list_emb_append_mono)
  with take_hash show ?case
    by (auto simp: signer_inv_def taken_def)
next
  case (sign_hash t n hash)
  then show ?case
    by (auto simp: signer_inv_def taken_def)
next
  case (terminate t)
  then show ?case
    by (auto simp: signer_inv_def taken_def)
qed

lemma signer_reachable_inv: "signer_reachable n0 t \<Longrightarrow> signer_inv t"
proof (induction rule: signer_reachable.induct)
  case start
  then show ?case
    by (simp add: signer_thread_init_def signer_inv_def taken_def)
next
  case (step t t')
  then show ?case
    using signer_step_inv by blast
qed

lemma signed_subseq_offered: "signer_reachable n0 t \<Longrightarrow> subseq (signatures t) (offered t) \<and> (\<forall>p \<in> set (signatures t). snd p \<noteq> [])"
proof -
  assume "signer_reachable n0 t"
  then have inv: "signer_inv t"
    by (rule signer_reachable_inv)
  then have "subseq (taken t) (offered t)"
    by (auto simp: signer_inv_def intro: subseq_prefix split: if_splits)
  moreover have "subseq (signatures t) (taken t)"
    unfolding taken_def by (rule subseq_prefix) simp
  ultimately have s: "subseq (signatures t) (offered t)"
    by (rule subseq_order.order_trans[rotated])
  then have "set (signatures t) \<subseteq> set (offered t)"
    by (rule subseq_set_subset)
  with s inv show ?thesis
    by (auto simp: signer_inv_def)
qed

section \<open>A written session\<close>

lemma write_event_writer:
  assumes "write_event digest ops r s = (Inr (), s')"
  shows "nw_sw s' \<noteq> None"
proof -
  from assms obtain s1 s2 where s1: "nw_write ops (numbered_record r s) (s\<lparr>nw_hattr := None\<rparr>) = (Inr (), s1)"
    and s2: "hash_event digest (numbered_record r s) s1 = (Inr (), s2)" and s': "nw_sw s' = nw_sw s2"
    by (auto simp: write_event_def act_Inr)
  from nw_write_Inr[OF s1] have "nw_sw s1 \<noteq> None"
    by (auto dest!: alarm_unless_writable_Inr split: if_splits)
  moreover from s2 have "nw_sw s2 = nw_sw s1"
    by (auto simp: hash_event_def hash_call_def act_Inr split: option.splits prod.splits)
  ultimately show ?thesis
    by (simp add: s')
qed

lemma write_events_writer:
  "write_events digest ops rs s = (Inr (), s') \<Longrightarrow> rs \<noteq> [] \<Longrightarrow> \<exists>w. nw_sw s' = Some w"
proof (induction rs arbitrary: s)
  case (Cons r rs)
  then obtain s1 where "write_event digest ops r s = (Inr (), s1)" "write_events digest ops rs s1 = (Inr (), s')"
    by (auto simp: act_Inr)
  with Cons.IH[of s1] write_event_writer[of digest ops r s s1] show ?case
    by (cases "rs = []") (auto simp: act_Inr)
qed simp

lemma written_session_tamper_evident:
  assumes "recording_endpoint ops given ok fresh" and "ok w" and "fresh w" and "given w = []"
    and "rec_channel r = channel_session"
    and "begin_session digest sign ops r (new_writer_init w True) = (Inr (), s1)"
    and "write_events digest ops rs s1 = (Inr (), s2)"
    and "rs \<noteq> []" and "list_all (plain_event ctx) rs"
    and len: "\<And>x. length (digest x) = len" and "len \<le> 64"
    and "chained digest (digest (record_octets r')) 0 None rs'" and "rs' \<noteq> []" and "list_all (reads_as ctx) rs'"
    and "nw_hattr s2 = Some (Binary attrid_hash (link_hash digest (digest (record_octets r')) (last rs')))"
  shows "\<exists>w2 cs. nw_sw s2 = Some w2 \<and> given w2 = record_octets r @ concat (map record_octets cs)
    \<and> list_all2 captured cs rs
    \<and> (record_octets r' = record_octets r \<and> rs' = cs
       \<or> collision digest (hashed digest r cs) (hashed digest r' rs'))"
proof -
  let ?sh = "digest (record_octets r)"
  let ?cs = "chain_records digest ?sh 0 None rs"
  note re = assms(1)
  note b = recording_endpoint.begin_session_sent[OF re assms(6) _ _ assms(2,3,5), unfolded new_writer_init_def, simplified]
  have un: "list_all unnumbered rs"
    using assms(9) by (auto simp: list_all_iff intro: plain_event_unnumbered)
  have h: "recording_endpoint.hashing digest None s1"
    using b by (simp add: recording_endpoint.hashing_def[OF re])
  have ok: "recording_endpoint.sw_ok ok s1"
    using b by simp
  have s1: "nw_session_hash s1 = ?sh" "nw_seqnum s1 = 0"
    using b by simp_all
  note e = recording_endpoint.write_events_chained[OF re assms(7) h un ok, unfolded s1]
  have ne: "?cs \<noteq> []"
    using assms(8) by (cases rs) (simp_all add: Let_def)
  have same: "link_hash digest ?sh (last ?cs) = link_hash digest (digest (record_octets r')) (last rs')"
    using e ne assms(15) by (simp add: recording_endpoint.hashing_def[OF re])
  have "list_all (reads_as ctx) ?cs"
    by (rule chain_records_read) (use assms(9,11) len in auto)
  with chains_agree[of digest r 0 ?cs r' 0 rs' len ctx] e ne same assms(12-14) len have
    "record_octets r' = record_octets r \<and> rs' = ?cs \<or> collision digest (hashed digest r ?cs) (hashed digest r' rs')"
    by metis
  moreover obtain w2 where "nw_sw s2 = Some w2"
    using write_events_writer[OF assms(7,8)] by blast
  ultimately show ?thesis
    using e b un chain_records_captured[OF un] assms(4)
    by (auto simp: recording_endpoint.sent_def[OF re] new_writer_init_def)
qed


section \<open>Properties\<close>

text \<open>
  C3: a session that the new session writer has written is tamper evident. Let a session with the session
  record \<open>r\<close> and the events \<open>rs\<close>, at least one, be written to an endpoint that has not been written to. The
  endpoint has then been given the encodings of the session record and of one record for each event, which is
  the event with a sequence number and a hash added and nothing else changed. Let \<open>r'\<close>, \<open>rs'\<close> be any session
  record and events that someone presents instead, whose encodings read back as they are and whose sequence
  numbers and hashes are in order. If the hash of its last event is the one that the writer holds for the
  next record, then the session presented is the session written, octet for octet, or it contains a collision of the digest
  with it. The digest may be any function the values of which have one length, at most 64 octets.
\<close>

theorem chain_detects_tampering:
  assumes "recording_endpoint ops given ok fresh" and "ok w" and "fresh w" and "given w = []"
    and "rec_channel r = channel_session"
    and "begin_session digest sign ops r (new_writer_init w True) = (Inr (), s1)"
    and "write_events digest ops rs s1 = (Inr (), s2)"
    and "rs \<noteq> []" and "list_all (plain_event ctx) rs"
    and "\<And>x. length (digest x) = len" and "len \<le> 64"
    and "chained digest (digest (record_octets r')) 0 None rs'" and "rs' \<noteq> []" and "list_all (reads_as ctx) rs'"
    and "nw_hattr s2 = Some (Binary attrid_hash (link_hash digest (digest (record_octets r')) (last rs')))"
  shows "\<exists>w2 cs. nw_sw s2 = Some w2 \<and> given w2 = record_octets r @ concat (map record_octets cs)
    \<and> list_all2 captured cs rs
    \<and> (record_octets r' = record_octets r \<and> rs' = cs
       \<or> collision digest (hashed digest r cs) (hashed digest r' rs'))"
  by (rule written_session_tamper_evident[OF assms])

text \<open>
  An endpoint that keeps the octets it is given, and for a digest the sum of the octets, four times.
\<close>

definition memory_endpoint :: "octets endpoint_ops" where
  "memory_endpoint = \<lparr>ep_write = (\<lambda>r w. (Inr (), w @ record_octets r)), ep_writable = (\<lambda>w. (Inr True, w))\<rparr>"

interpretation memory: recording_endpoint memory_endpoint "\<lambda>w. w" "\<lambda>_. True" "\<lambda>_. True"
  by unfold_locales (auto simp: memory_endpoint_def)

definition sum_digest :: digest where
  "sum_digest bs = replicate 4 (sum_list bs)"

definition plain_sample :: hrecord where
  "plain_sample = \<lparr>rec_channel = 0, rec_attributes = [Timestamp attrid_ts 1 2]\<rparr>"

definition sample_begun :: "octets new_writer" where
  "sample_begun = snd (begin_session sum_digest (\<lambda>x. x) memory_endpoint sample_session (new_writer_init [] True))"

definition sample_written :: "octets new_writer" where
  "sample_written = snd (write_events sum_digest memory_endpoint [plain_sample, plain_sample] sample_begun)"

definition sample_chain :: "hrecord list" where
  "sample_chain = chain_records sum_digest (sum_digest (record_octets sample_session)) 0 None [plain_sample, plain_sample]"

lemma sample_run:
  "fst (begin_session sum_digest (\<lambda>x. x) memory_endpoint sample_session (new_writer_init [] True)) = Inr ()"
  "fst (write_events sum_digest memory_endpoint [plain_sample, plain_sample] sample_begun) = Inr ()"
  "nw_hattr sample_written = Some (Binary attrid_hash (link_hash sum_digest (sum_digest (record_octets sample_session)) (last sample_chain)))"
  by code_simp+

lemma sample_chained:
  "chained sum_digest (sum_digest (record_octets sample_session)) 0 None sample_chain"
  by code_simp

theorem chain_detects_tampering_witness:
  "\<exists>w2 cs. nw_sw sample_written = Some w2 \<and> w2 = record_octets sample_session @ concat (map record_octets cs)
    \<and> list_all2 captured cs [plain_sample, plain_sample]
    \<and> (record_octets sample_session = record_octets sample_session \<and> sample_chain = cs
       \<or> collision sum_digest (hashed sum_digest sample_session cs) (hashed sum_digest sample_session sample_chain))"
proof (rule chain_detects_tampering[where given = "\<lambda>w. w" and ok = "\<lambda>_. True" and fresh = "\<lambda>_. True" and w = "[]"
    and ops = memory_endpoint and sign = "\<lambda>x. x" and ?s1.0 = sample_begun and len = 4 and ctx = new_session])
  have "contents_len (rec_attributes plain_sample) = 7"
    by code_simp
  then have len: "contents_len (rec_attributes plain_sample) < 2 ^ 30"
    by simp
  have "plain_event new_session plain_sample"
    unfolding plain_event_def
    by (intro conjI; (rule len)?) (simp_all add: plain_sample_def is_event_def channel_constants
        wire_constants get_attr_type_def reserved_attr_types_def new_session_def)
  then have plain: "list_all (plain_event new_session) [plain_sample, plain_sample]"
    by simp
  then show "list_all (plain_event new_session) [plain_sample, plain_sample]" .
  show "length (sum_digest x) = 4" for x
    by (simp add: sum_digest_def)
  show "list_all (reads_as new_session) sample_chain"
    unfolding sample_chain_def by (rule chain_records_read) (use plain in \<open>simp_all add: sum_digest_def\<close>)
  show "recording_endpoint memory_endpoint (\<lambda>w. w) (\<lambda>_. True) (\<lambda>_. True)"
    by (rule memory.recording_endpoint_axioms)
qed (use sample_run sample_chained in \<open>auto simp: sample_begun_def sample_written_def sample_session_def sample_chain_def Let_def
  surjective_pairing[symmetric] prod_eq_iff\<close>)

text \<open>
  A write that fails is not retried. Where the endpoint writer throws anything but the request
  to terminate, the writer is discarded and the test that follows dereferences it.
\<close>

lemma nw_write_not_retried:
  assumes "nw_sw s = Some w" and "ep_write ops r w = (Inl e, w')" and "e \<noteq> Terminate_Exception"
    and "\<forall>m. e \<noteq> Undefined_Behaviour m"
  shows "nw_write ops r s = (Inl (Undefined_Behaviour ''null pointer''), s\<lparr>nw_sw := None\<rparr>)"
  by (rule nw_write_failure[OF assms])

theorem nw_write_not_retried_witness:
  "nw_write \<lparr>ep_write = (\<lambda>r w. (Inl (Libc_Error 32), w)), ep_writable = (\<lambda>w. (Inr True, w))\<rparr> (sample_event 0)
      (new_writer_init () False) = (Inl (Undefined_Behaviour ''null pointer''), (new_writer_init () False)\<lparr>nw_sw := None\<rparr>)"
  by (rule nw_write_not_retried[where e = "Libc_Error 32"]) (simp_all add: new_writer_init_def)

text \<open>
  C20: the signing thread signs at most once, in order, hashes that the capture thread offered, and
  never an empty one, however the two interleave.
\<close>

theorem signer_signs_offered:
  assumes "signer_reachable n0 t"
  shows "subseq (signatures t) (offered t) \<and> (\<forall>p \<in> set (signatures t). snd p \<noteq> [])"
  by (rule signed_subseq_offered[OF assms])

theorem signer_signs_offered_witness:
  "subseq [(4, [1 :: octet])] [(3 :: u64, [0]), (4, [1])]"
proof -
  define t1 where "t1 = (signer_thread_init 0)\<lparr>shared := signer_handle_event 3 [0] (shared (signer_thread_init 0)),
    offered := [(3, [0])]\<rparr>"
  define t2 where "t2 = t1\<lparr>phase := Sleeping\<rparr>"
  define t3 where "t3 = t2\<lparr>shared := signer_handle_event 4 [1] (shared t2), offered := offered t2 @ [(4, [1])]\<rparr>"
  define t4 where "t4 = t3\<lparr>phase := Signing (sg_seqnum (shared t3)) (sg_hash (shared t3)),
    shared := (shared t3)\<lparr>sg_hash := []\<rparr>\<rparr>"
  define t5 where "t5 = t4\<lparr>phase := Waiting, signatures := signatures t4 @ [(4, [1])]\<rparr>"
  note defs = t1_def t2_def t3_def t4_def t5_def signer_thread_init_def signer_handle_event_def
  have "signer_reachable 0 t1"
    using signer_reachable.step[OF signer_reachable.start signer_step.offer[of "[0]" _ 3]] by (simp add: defs)
  moreover have "signer_step t1 t2"
    unfolding t2_def by (rule signer_step.wake) (simp_all add: defs)
  moreover have "signer_step t2 t3"
    unfolding t3_def by (rule signer_step.offer) simp
  moreover have "signer_step t3 t4"
    unfolding t4_def by (rule signer_step.take_hash) (simp add: defs)
  moreover have "signer_step t4 t5"
    unfolding t5_def by (rule signer_step.sign_hash) (simp add: defs)
  ultimately have "signer_reachable 0 t5"
    by (blast intro: signer_reachable.step)
  from signer_signs_offered[OF this] show ?thesis
    by (simp add: defs)
qed

end
