(* ===== verification/Tcp_Session.thy ===== *)
theory Tcp_Session
  imports New_Session_Writer
begin

text \<open>
  Sessions over TCP: the derived part of \<^verbatim>\<open>tcp_session_writer\<close> (\<^verbatim>\<open>horace+tcp/tcp_session_writer.cc\<close>)
  and \<^verbatim>\<open>tcp_session_reader\<close> (\<^verbatim>\<open>horace+tcp/tcp_session_reader.cc\<close>). The socket is the octets the kernel
  has taken, its answers to the writes to come, and the octets still to be read. Where no write would
  block, the writer is an endpoint in the sense of \<open>recording_endpoint\<close>, so the results on the hash chain hold of
  the octets that it sends.
\<close>

section \<open>The socket writer\<close>

text \<open>
  The descriptor of the octet writer is the socket, or nothing while there is no connection: then
  the octet writer has no buffer and its \<^verbatim>\<open>_fd\<close> is a null pointer.
\<close>

definition tcp_write_direct :: "octets \<Rightarrow> (kernel_file option, unit) act" where
  "tcp_write_direct xs sock =
     (case sock of
        None \<Rightarrow> (Inl (Undefined_Behaviour ''null pointer''), None)
      | Some f \<Rightarrow> (case file_write_direct xs f of (x, f') \<Rightarrow> (x, Some f')))"

lemma tcp_write_direct_connected [simp]: "(snd (tcp_write_direct xs sock) = None) = (sock = None)"
  by (simp add: tcp_write_direct_def split: option.split prod.split)

definition sent_octets :: "kernel_file option \<Rightarrow> octets" where
  "sent_octets sock = (case sock of None \<Rightarrow> [] | Some f \<Rightarrow> kf_content f)"

definition blocking_socket :: "kernel_file option \<Rightarrow> bool" where
  "blocking_socket sock = (case sock of None \<Rightarrow> True | Some f \<Rightarrow> blocking_file f)"

lemma socket_simps [simp]:
  "sent_octets None = []" "sent_octets (Some f) = kf_content f"
  "blocking_socket None" "blocking_socket (Some f) = blocking_file f"
  by (simp_all add: sent_octets_def blocking_socket_def)

interpretation tcp_sink: octet_sink tcp_write_direct sent_octets blocking_socket
proof
  show "sent_octets d' = sent_octets d @ xs"
    if "blocking_socket d" "tcp_write_direct xs d = (Inr (), d')" for d xs d'
    using that by (cases d) (auto simp: tcp_write_direct_def os_file.wr_data split: prod.splits)
  show "\<exists>ys. prefix ys xs \<and> sent_octets d' = sent_octets d @ ys"
    if "blocking_socket d" "tcp_write_direct xs d = (Inl e, d')" for d xs e d'
    using that by (cases d) (auto simp: tcp_write_direct_def os_file.wr_part split: prod.splits)
  show "blocking_socket d'" if "blocking_socket d" "tcp_write_direct xs d = (r, d')" for d xs r d'
    using that by (cases d) (auto simp: tcp_write_direct_def os_file.wr_ok split: prod.splits)
qed

section \<open>Session writer\<close>

text \<open>
  \<open>tcp_attempts\<close> holds the coming connection attempts: whether the attempt got as far as making a socket, and
  what came of it, an exception or a connected socket, given by the error that a wait would find and the
  kernel's answers to writes. Where the list ends the process is told to terminate while it waits. \<open>tcp_fd\<close> says
  that \<^verbatim>\<open>_fd\<close> is a descriptor, which it also is after an attempt that failed. \<open>tcp_in\<close> is what the peer will send.
\<close>

type_synonym attempt = "bool \<times> (nat \<times> trace) result"

record tcp_session =
  tcp_diode :: bool
  tcp_attempts :: "attempt list"
  tcp_fd :: bool
  tcp_ow :: "kernel_file option octet_writer"
  tcp_in :: octets
  tcp_context :: session_context

definition tcp_session_init :: "bool \<Rightarrow> attempt list \<Rightarrow> octets \<Rightarrow> tcp_session" where
  "tcp_session_init diode attempts input =
     \<lparr>tcp_diode = diode, tcp_attempts = attempts, tcp_fd = False,
      tcp_ow = \<lparr>wbuf_size = 0, wbuf = [], sink = None\<rparr>, tcp_in = input, tcp_context = new_session\<rparr>"

fun connect_loop :: "bool \<Rightarrow> attempt list \<Rightarrow> (nat \<times> trace) result \<times> bool \<times> attempt list" where
  "connect_loop fd [] = (Inl Terminate_Exception, fd, [])"
| "connect_loop fd ((made, Inr sock) # rs) = (Inr sock, True, rs)"
| "connect_loop fd ((made, Inl e) # rs) =
     (if e = Terminate_Exception then (Inl Terminate_Exception, fd \<or> made, rs)
      else connect_loop (fd \<or> made) rs)"

definition connected_socket :: "nat \<times> trace \<Rightarrow> kernel_file" where
  "connected_socket sock = \<lparr>kf_content = [], kf_answers = snd sock, kf_error = Some (fst sock)\<rparr>"

definition tcp_open :: "(tcp_session, unit) act" where
  "tcp_open d =
     (case connect_loop (tcp_fd d) (tcp_attempts d) of
        (Inl e, fd, rs) \<Rightarrow> (Inl e, d\<lparr>tcp_attempts := rs, tcp_fd := fd\<rparr>)
      | (Inr sock, fd, rs) \<Rightarrow>
          (Inr (), d\<lparr>tcp_attempts := rs, tcp_fd := fd,
             tcp_ow := \<lparr>wbuf_size = 0x40, wbuf = [], sink = Some (connected_socket sock)\<rparr>\<rparr>))"

definition tcp_put :: "hrecord \<Rightarrow> (tcp_session, unit) act" where
  "tcp_put r d =
     (case writer_record tcp_write_direct r (tcp_ow d) of (x, ow) \<Rightarrow> (x, d\<lparr>tcp_ow := ow\<rparr>))"

definition tcp_start :: "hrecord \<Rightarrow> (tcp_session, unit) act" where
  "tcp_start r =
     seqS (bindS (getS tcp_fd) (\<lambda>fd. if fd then returnS () else tcp_open)) (tcp_put r)"

text \<open>
  Without a diode the handler passes the sync record on and then calls \<^verbatim>\<open>read\<close> of the base class,
  to drop the reply that the base class makes; but that reply is made after the handler.
\<close>

definition tcp_sync :: "hrecord \<Rightarrow> (tcp_session, unit) sw_act" where
  "tcp_sync r =
     bindS (getS (tcp_diode \<circ> sub)) (\<lambda>diode.
       if diode then returnS ()
       else seqS (on_sub (tcp_put r)) (bindS read_record (\<lambda>_. returnS ())))"

definition tcp_handlers :: "tcp_session handlers" where
  "tcp_handlers =
     \<lparr>handle_session_start = (\<lambda>r. on_sub (tcp_start r)),
      handle_session_end = (\<lambda>r. on_sub (tcp_put r)),
      handle_sync = tcp_sync,
      handle_signature = (\<lambda>r. on_sub (tcp_put r)),
      handle_control = (\<lambda>r. on_sub (tcp_put r)),
      handle_event = (\<lambda>r. on_sub (tcp_put r))\<rparr>"

text \<open>
  Where no connection was made the octet reader has a null pointer for its descriptor. What a failed
  read has consumed of \<open>tcp_in\<close> is not kept.
\<close>

definition tcp_read :: "(tcp_session, hrecord) sw_act" where
  "tcp_read =
     bindS (getS (tcp_diode \<circ> sub)) (\<lambda>diode.
       if diode then read_record
       else on_sub (\<lambda>d.
         case writer_flush tcp_write_direct (tcp_ow d) of
           (Inl e, ow) \<Rightarrow> (Inl e, d\<lparr>tcp_ow := ow\<rparr>)
         | (Inr _, ow) \<Rightarrow>
             (if sink ow = None then (Inl (Undefined_Behaviour ''null pointer''), d\<lparr>tcp_ow := ow\<rparr>)
              else case record_parse (tcp_context d) (tcp_in d) of
                (Inl e, ctx) \<Rightarrow> (Inl e, d\<lparr>tcp_ow := ow, tcp_context := ctx\<rparr>)
              | (Inr (r, rest), ctx) \<Rightarrow>
                  (Inr r, d\<lparr>tcp_ow := ow, tcp_context := ctx, tcp_in := rest\<rparr>))))"

definition tcp_ops :: "tcp_session session_writer endpoint_ops" where
  "tcp_ops = \<lparr>ep_write = write_record tcp_handlers, ep_writable = returnS True\<rparr>"

section \<open>Session reader\<close>

record tcp_reader =
  tr_diode :: bool
  tr_in :: octets
  tr_ow :: "kernel_file octet_writer"
  tr_context :: session_context
  tr_shutdown :: "string list"

definition tcp_reader_init :: "bool \<Rightarrow> octets \<Rightarrow> nat \<times> trace \<Rightarrow> tcp_reader" where
  "tcp_reader_init diode input sock =
     \<lparr>tr_diode = diode, tr_in = input,
      tr_ow = \<lparr>wbuf_size = 0x40, wbuf = [], sink = connected_socket sock\<rparr>,
      tr_context = new_session, tr_shutdown = []\<rparr>"

definition tcp_reader_read :: "(tcp_reader, hrecord) act" where
  "tcp_reader_read t =
     (case record_parse (tr_context t) (tr_in t) of
        (Inl e, ctx) \<Rightarrow> (Inl e, t\<lparr>tr_context := ctx\<rparr>)
      | (Inr (r, rest), ctx) \<Rightarrow> (Inr r, t\<lparr>tr_context := ctx, tr_in := rest\<rparr>))"

text \<open>
  After an error record has been sent, records are read and dropped until a read fails. A record
  takes at least one octet, so the loop ends.
\<close>

function drain :: "session_context \<Rightarrow> octets \<Rightarrow> session_context \<times> octets" where
  "drain s bs =
     (case record_parse s bs of
        (Inl e, s') \<Rightarrow> (s', bs)
      | (Inr (r, bs'), s') \<Rightarrow> drain s' bs')"
  by pat_completeness auto
termination
  by (relation "measure (\<lambda>(s, bs). length bs)") (auto dest: record_parse_shrinks[OF sym])

declare drain.simps [simp del]

definition tcp_reader_put :: "hrecord \<Rightarrow> (tcp_reader, unit) act" where
  "tcp_reader_put r t =
     (case writer_record file_write_direct r (tr_ow t) of
        (Inl e, ow) \<Rightarrow> (Inl e, t\<lparr>tr_ow := ow\<rparr>)
      | (Inr _, ow) \<Rightarrow> (case writer_flush file_write_direct ow of (x, ow') \<Rightarrow> (x, t\<lparr>tr_ow := ow'\<rparr>)))"

definition tcp_reader_write :: "hrecord \<Rightarrow> (tcp_reader, unit) act" where
  "tcp_reader_write r =
     seqS (bindS (getS tr_diode) (\<lambda>diode. if diode then returnS () else tcp_reader_put r))
       (if rec_channel r = channel_error then
          modifyS (\<lambda>t. let (ctx, rest) = drain (tr_context t) (tr_in t) in
            t\<lparr>tr_shutdown := tr_shutdown t @ [if tr_diode t then ''SHUT_RD'' else ''SHUT_WR''],
              tr_context := ctx, tr_in := rest\<rparr>)
        else returnS ())"

section \<open>The writer as an endpoint\<close>

definition unblocked :: "attempt list \<Rightarrow> bool" where
  "unblocked as \<longleftrightarrow> list_all (\<lambda>x. case snd x of Inl _ \<Rightarrow> True | Inr sock \<Rightarrow> list_all blocking_answer (snd sock)) as"

lemma unblocked_simps [simp]:
  "unblocked []" "unblocked ((made, Inl e) # as) = unblocked as"
  "unblocked ((made, Inr sock) # as) \<longleftrightarrow> list_all blocking_answer (snd sock) \<and> unblocked as"
  by (simp_all add: unblocked_def)

definition tcp_ok :: "tcp_session \<Rightarrow> bool" where
  "tcp_ok d \<longleftrightarrow> tcp_sink.writer_ok (tcp_ow d) \<and> wbuf_size (tcp_ow d) \<le> 64
     \<and> (sink (tcp_ow d) = None \<longrightarrow> wbuf_size (tcp_ow d) = 0) \<and> (\<not> tcp_fd d \<longrightarrow> sink (tcp_ow d) = None)
     \<and> unblocked (tcp_attempts d)"

definition tcp_given :: "tcp_session \<Rightarrow> octets" where
  "tcp_given d = tcp_sink.handed_over (tcp_ow d)"

lemma tcp_put_ok:
  assumes "tcp_put r d = (Inr (), d')" and "tcp_ok d"
  shows "tcp_ok d' \<and> tcp_given d' = tcp_given d @ record_octets r \<and> tcp_diode d' = tcp_diode d"
proof -
  from assms(1) obtain ow where ow: "writer_record tcp_write_direct r (tcp_ow d) = (Inr (), ow)"
    and d': "d' = d\<lparr>tcp_ow := ow\<rparr>"
    by (auto simp: tcp_put_def split: prod.splits)
  have "(sink ow = None) = (sink (tcp_ow d) = None)"
    by (rule writer_record_keeps[OF _ ow]) simp
  with tcp_sink.writer_record_ok[OF ow] writer_record_size[OF ow] assms(2) show ?thesis
    by (simp add: tcp_ok_def tcp_given_def d')
qed

lemma connect_loop_answers:
  "connect_loop fd as = (x, fd', rs) \<Longrightarrow>
     unblocked as \<Longrightarrow>
     unblocked rs
     \<and> (\<forall>sock. x = Inr sock \<longrightarrow> fd' \<and> list_all blocking_answer (snd sock))"
  by (induction fd as rule: connect_loop.induct) (auto split: if_splits)

lemma tcp_start_ok:
  assumes "tcp_start r d = (Inr (), d')" and "tcp_ok d"
  shows "tcp_ok d' \<and> tcp_given d' = tcp_given d @ record_octets r \<and> tcp_diode d' = tcp_diode d"
proof (cases "tcp_fd d")
  case True
  with assms tcp_put_ok show ?thesis
    by (auto simp: tcp_start_def act_Inr)
next
  case False
  with assms(1) obtain sock fd rs where loop: "connect_loop False (tcp_attempts d) = (Inr sock, fd, rs)"
    and put: "tcp_put r (d\<lparr>tcp_attempts := rs, tcp_fd := fd,
      tcp_ow := \<lparr>wbuf_size = 0x40, wbuf = [], sink = Some (connected_socket sock)\<rparr>\<rparr>) = (Inr (), d')"
    by (auto simp: tcp_start_def act_Inr tcp_open_def split: prod.splits sum.splits)
  have "tcp_given d = []"
    using False assms(2) by (auto simp: tcp_given_def tcp_ok_def tcp_sink.handed_over_def tcp_sink.writer_ok_def)
  with tcp_put_ok[OF put] connect_loop_answers[OF loop] assms(2) show ?thesis
    by (simp add: tcp_ok_def tcp_given_def tcp_sink.handed_over_def tcp_sink.writer_ok_def
        connected_socket_def blocking_file_def)
qed

lemma on_sub_put:
  "on_sub (tcp_put r) s = (Inr (), s') \<Longrightarrow> tcp_ok (sub s) \<Longrightarrow> same_base s s' \<and> tcp_ok (sub s')
     \<and> tcp_given (sub s') = tcp_given (sub s) @ record_octets r \<and> tcp_diode (sub s') = tcp_diode (sub s)"
  using tcp_put_ok on_sub_base by blast

lemma on_sub_start:
  "on_sub (tcp_start r) s = (Inr (), s') \<Longrightarrow> tcp_ok (sub s) \<Longrightarrow> same_base s s' \<and> tcp_ok (sub s')
     \<and> tcp_given (sub s') = tcp_given (sub s) @ record_octets r \<and> tcp_diode (sub s') = tcp_diode (sub s)"
  using tcp_start_ok on_sub_base by blast

lemma tcp_sync_ok:
  assumes "tcp_sync r s = (Inr (), s')" and "tcp_ok (sub s)"
  shows "tcp_ok (sub s') \<and> tcp_diode (sub s') = tcp_diode (sub s) \<and> (reply s = None \<longrightarrow> tcp_diode (sub s))"
proof (cases "tcp_diode (sub s)")
  case True
  with assms show ?thesis
    by (auto simp: tcp_sync_def act_Inr)
next
  case False
  with assms obtain s1 q where s1: "on_sub (tcp_put r) s = (Inr (), s1)" and rd: "read_record s1 = (Inr q, s')"
    by (auto simp: tcp_sync_def act_Inr)
  from on_sub_put[OF s1 assms(2)] rd show ?thesis
    by (auto simp: read_record_def act_Inr same_base_def split: option.splits)
qed

text \<open>
  What any accepted record leaves of the writer; a sync record is never accepted while there is
  no earlier reply, except behind a diode.
\<close>

lemma tcp_write_record:
  assumes "write_record tcp_handlers r s = (Inr (), s')" and "tcp_ok (sub s)"
  shows "tcp_ok (sub s')" and "tcp_diode (sub s') = tcp_diode (sub s)"
    and "passed_on r \<or> (srec s = None \<and> rec_channel r = channel_session) \<Longrightarrow>
      tcp_given (sub s') = tcp_given (sub s) @ record_octets r"
    and "rec_channel r \<noteq> channel_sync \<Longrightarrow> reply s' = reply s"
    and "rec_channel r = channel_sync \<Longrightarrow> reply s = None \<Longrightarrow> tcp_diode (sub s)"
proof -
  have "tcp_ok (sub s') \<and> tcp_diode (sub s') = tcp_diode (sub s)
    \<and> (passed_on r \<or> (srec s = None \<and> rec_channel r = channel_session) \<longrightarrow>
      tcp_given (sub s') = tcp_given (sub s) @ record_octets r)
    \<and> (rec_channel r \<noteq> channel_sync \<longrightarrow> reply s' = reply s)
    \<and> (rec_channel r = channel_sync \<longrightarrow> reply s = None \<longrightarrow> tcp_diode (sub s))"
  proof -
    consider (session) "rec_channel r = channel_session" | (sync) "rec_channel r = channel_sync"
      | (other) "rec_channel r \<noteq> channel_session" "rec_channel r \<noteq> channel_sync"
      by blast
    then show ?thesis
    proof cases
      case session
      with assms show ?thesis
        by (auto simp: write_record_def act_Inr process_session_record_def tcp_handlers_def
            passed_on_def channel_constants same_base_def split: if_splits option.splits
            dest!: on_sub_start)
    next
      case sync
      with assms show ?thesis
        by (auto simp: write_record_def act_Inr process_sync_record_def tcp_handlers_def
            passed_on_def channel_constants dest!: tcp_sync_ok)
    next
      case other
      with assms show ?thesis
        by (auto simp: write_record_def act_Inr process_end_record_def tcp_handlers_def
            same_base_def split: if_splits dest!: on_sub_put)
    qed
  qed
  then show "tcp_ok (sub s')" and "tcp_diode (sub s') = tcp_diode (sub s)"
    and "passed_on r \<or> (srec s = None \<and> rec_channel r = channel_session) \<Longrightarrow>
      tcp_given (sub s') = tcp_given (sub s) @ record_octets r"
    and "rec_channel r \<noteq> channel_sync \<Longrightarrow> reply s' = reply s"
    and "rec_channel r = channel_sync \<Longrightarrow> reply s = None \<Longrightarrow> tcp_diode (sub s)"
    by blast+
qed

interpretation tcp: recording_endpoint tcp_ops "\<lambda>s. tcp_given (sub s)" "\<lambda>s. tcp_ok (sub s)" "\<lambda>s. srec s = None"
  by unfold_locales (auto simp: tcp_ops_def returnS_def intro: tcp_write_record)

lemma tcp_no_sync:
  assumes "write_records tcp_handlers rs s = (Inr (), s')" and "tcp_ok (sub s)" and "reply s = None"
    and "\<not> tcp_diode (sub s)"
  shows "\<forall>r \<in> set rs. rec_channel r \<noteq> channel_sync"
  using assms
proof (induction rs arbitrary: s)
  case (Cons r rs)
  then obtain s1 where s1: "write_record tcp_handlers r s = (Inr (), s1)"
    and rs: "write_records tcp_handlers rs s1 = (Inr (), s')"
    by (auto simp: act_Inr)
  note w = tcp_write_record[OF s1 Cons.prems(2)]
  have "rec_channel r \<noteq> channel_sync"
    using w(5) Cons.prems(3,4) by blast
  with Cons.IH[OF rs] w Cons.prems show ?case
    by simp
qed simp

text \<open>
  What the kernel has taken of the connection, and what is still in the buffer.
\<close>

definition tcp_wire :: "tcp_session session_writer new_writer \<Rightarrow> octets" where
  "tcp_wire s = (case nw_sw s of None \<Rightarrow> [] | Some w \<Rightarrow> sent_octets (sink (tcp_ow (sub w))))"

definition tcp_unsent :: "tcp_session session_writer new_writer \<Rightarrow> octets" where
  "tcp_unsent s = (case nw_sw s of None \<Rightarrow> [] | Some w \<Rightarrow> wbuf (tcp_ow (sub w)))"

lemma tcp_wire_sent: "tcp_wire s @ tcp_unsent s = tcp.sent s"
  unfolding tcp.sent_def
  by (simp add: tcp_wire_def tcp_unsent_def tcp_given_def tcp_sink.handed_over_def split: option.split)

lemma tcp_unsent_bound: "tcp.sw_ok s \<Longrightarrow> length (tcp_unsent s) \<le> 64"
  unfolding tcp.sw_ok_def
  by (auto simp: tcp_unsent_def tcp_ok_def tcp_sink.writer_ok_def split: option.splits)

section \<open>Properties\<close>

text \<open>
  C24: a session sent over TCP with a hash function is a tamper-evident chain on the wire. What the
  kernel has taken of the connection, followed by at most 64 octets that are still in the buffer, is the
  encoding of the session record followed by those of one record for each event captured, in the
  same order. That record is the event with a sequence number and a hash added and every other attribute
  as it was; the sequence numbers count from 0, and the hash is that of the record before it, which
  covers the hash of the session record. The kernel may take any part of each write, and connection
  attempts may fail before the one that succeeds; but no write finds that it would block, since such a
  write is repeated from the wrong place (\<open>tcp_blocked_write_breaks_chain\<close>).
\<close>

theorem tcp_sends_chain:
  assumes "begin_session digest sign tcp_ops r
      (new_writer_init (session_writer_init name (tcp_session_init diode attempts input)) True) = (Inr (), s1)"
    and "write_events digest tcp_ops rs s1 = (Inr (), s2)" and "rec_channel r = channel_session"
    and "list_all unnumbered rs"
    and "unblocked attempts"
  shows "\<exists>ns. tcp_wire s2 @ tcp_unsent s2 = record_octets r @ concat (map record_octets ns)
    \<and> length (tcp_unsent s2) \<le> 64 \<and> list_all2 captured ns rs
    \<and> chained digest (digest (record_octets r)) 0 None ns"
proof -
  let ?w = "session_writer_init name (tcp_session_init diode attempts input)"
  let ?s = "new_writer_init ?w True"
  have w: "nw_sw ?s = Some ?w" "tcp_ok (sub ?w)" "srec ?w = None" "tcp_given (sub ?w) = []"
    and s: "nw_hashfn ?s = Some hash_init" "nw_signer ?s = None" "nw_seqnum ?s = 0" "nw_hattr ?s = None"
    using assms(5) by (simp_all add: new_writer_init_def session_writer_init_def tcp_session_init_def tcp_ok_def
        tcp_given_def tcp_sink.handed_over_def tcp_sink.writer_ok_def)
  note b = tcp.begin_session_sent[OF assms(1) s(1) w(1-3) assms(3)]
  have h: "tcp.hashing digest None s1"
    using b s by (simp add: tcp.hashing_def)
  have "tcp.sw_ok s1"
    using b by blast
  note e = tcp.write_events_chained[OF assms(2) h assms(4) this]
  have "tcp.sent s1 = record_octets r"
    using b s(2) w(1,4) by (simp add: tcp.sent_def)
  with e b s(3) chain_records_captured[OF assms(4)] tcp_unsent_bound[of s2] tcp_wire_sent[of s2] show ?thesis
    by (intro exI[of _ "chain_records digest (nw_session_hash s1) (nw_seqnum s1) None rs"]) simp
qed

text \<open>
  The first attempt fails before there is a socket and the second after; of the third connection the
  kernel takes three octets, none, and then all.
\<close>

definition sample_attempts :: "attempt list" where
  "sample_attempts = [(False, Inl (Libc_Error 2)), (True, Inl (Libc_Error 111)),
     (True, Inr (0, [Sys_Count 3, Sys_Count 0]))]"

definition sample_events :: "hrecord list" where
  "sample_events = [\<lparr>rec_channel = 5, rec_attributes = [Boolean 3 True, Binary 4 (replicate 60 7)]\<rparr>,
     \<lparr>rec_channel = 6, rec_attributes = []\<rparr>]"

definition tcp_begun :: "attempt list \<Rightarrow> tcp_session session_writer new_writer" where
  "tcp_begun attempts = snd (begin_session sum_digest (\<lambda>x. x) tcp_ops sample_session
     (new_writer_init (session_writer_init ''a'' (tcp_session_init True attempts [])) True))"

definition tcp_written :: "attempt list \<Rightarrow> tcp_session session_writer new_writer" where
  "tcp_written attempts = snd (write_events sum_digest tcp_ops sample_events (tcp_begun attempts))"

lemma tcp_sample_run:
  "fst (begin_session sum_digest (\<lambda>x. x) tcp_ops sample_session
     (new_writer_init (session_writer_init ''a'' (tcp_session_init True sample_attempts [])) True)) = Inr ()"
  "fst (write_events sum_digest tcp_ops sample_events (tcp_begun sample_attempts)) = Inr ()"
  "tcp_wire (tcp_written sample_attempts) \<noteq> []"
  by code_simp+

theorem tcp_sends_chain_witness:
  "tcp_wire (tcp_written sample_attempts) \<noteq> []
   \<and> (\<exists>ns. tcp_wire (tcp_written sample_attempts) @ tcp_unsent (tcp_written sample_attempts)
      = record_octets sample_session @ concat (map record_octets ns)
    \<and> length (tcp_unsent (tcp_written sample_attempts)) \<le> 64 \<and> list_all2 captured ns sample_events
    \<and> chained sum_digest (sum_digest (record_octets sample_session)) 0 None ns)"
proof (intro conjI tcp_sends_chain)
  show "begin_session sum_digest (\<lambda>x. x) tcp_ops sample_session
     (new_writer_init (session_writer_init ''a'' (tcp_session_init True sample_attempts [])) True)
     = (Inr (), tcp_begun sample_attempts)"
    unfolding tcp_begun_def by (rule run_result[OF tcp_sample_run(1)])
  show "write_events sum_digest tcp_ops sample_events (tcp_begun sample_attempts)
     = (Inr (), tcp_written sample_attempts)"
    unfolding tcp_written_def by (rule run_result[OF tcp_sample_run(2)])
qed (use tcp_sample_run(3) in \<open>simp_all add: sample_session_def sample_events_def sample_attempts_def unnumbered_def
    is_event_def record_contains_def wire_constants blocking_answer_def\<close>)

text \<open>
  If the socket is found full when the buffer is first flushed, the octets taken are no beginning of
  what they should be.
\<close>

lemma tcp_blocked_write_breaks_chain:
  defines "attempts \<equiv> [(True, Inr (0, [Sys_Count 3, Sys_Fail EAGAIN, Sys_Poll POLLOUT False POLLOUT]))]"
  shows "take 4 (tcp_wire (tcp_written attempts)) \<noteq> take 4 (record_octets sample_session)"
  unfolding attempts_def by code_simp

text \<open>
  Without a diode a TCP session writer accepts no sync record: its handler asks for the reply
  before the base class has made it, and the exception leaves the reply unmade.
\<close>

lemma tcp_sync_refused:
  assumes "write_records tcp_handlers rs
    (session_writer_init name (tcp_session_init False attempts input)) = (Inr (), s')"
    and "unblocked attempts"
  shows "list_all (\<lambda>r. rec_channel r \<noteq> channel_sync) rs"
proof -
  have "\<forall>r \<in> set rs. rec_channel r \<noteq> channel_sync"
    using assms(2) by (intro tcp_no_sync[OF assms(1)])
      (simp_all add: session_writer_init_def tcp_session_init_def tcp_ok_def tcp_sink.writer_ok_def)
  then show ?thesis
    by (simp add: list_all_iff)
qed

theorem tcp_sync_refused_witness:
  "list_all (\<lambda>r. rec_channel r \<noteq> channel_sync) [sample_session, sample_event 0]"
proof -
  let ?run = "write_records tcp_handlers [sample_session, sample_event 0]
    (session_writer_init ''a'' (tcp_session_init False sample_attempts []))"
  have "fst ?run = Inr ()"
    by code_simp
  then have "?run = (Inr (), snd ?run)"
    by (rule run_result)
  from tcp_sync_refused[OF this] show ?thesis
    by (simp add: sample_attempts_def blocking_answer_def)
qed

end
