(* ===== verification/Filestore.thy ===== *)
theory Filestore
  imports Prelude
begin

text \<open>
  Spoolfile names and the scan of a filestore (\<^verbatim>\<open>horace+file/spoolfile.cc\<close>,
  \<^verbatim>\<open>horace+file/filestore_scanner.cc\<close>), source identifiers (\<^verbatim>\<open>horace/source_id.cc\<close>) and the
  listener's scan for sources (\<^verbatim>\<open>horace+file/file_session_listener.cc\<close>). A directory is the list
  of the names it contains, in the order \<^verbatim>\<open>readdir\<close> gives them. The lemmas show that the result
  of a scan does not depend on that order, and that the next spoolfile is new and keeps the
  filestore consistent.
\<close>

section \<open>Spoolfile names\<close>

definition ULONG_MAX :: nat where "ULONG_MAX = 2 ^ 64 - 1"
definition UINT_MAX :: nat where "UINT_MAX = 2 ^ 32 - 1"

record spoolfile =
  sf_filename :: string
  sf_filenum :: nat

fun filenum_loop :: "string \<Rightarrow> nat \<Rightarrow> nat result" where
  "filenum_loop [] n = Inr n"
| "filenum_loop (c # cs) n =
     (if \<not> is_digit c then Inl (Invalid_Argument ''invalid spoolfile name'')
      else if ULONG_MAX div 10 < n then Inl (Out_Of_Range ''filenum overflow'')
      else if ULONG_MAX - digit_val c < (n * 10) mod 2 ^ 64
      then Inl (Out_Of_Range ''filenum overflow'')
      else filenum_loop cs (((n * 10) mod 2 ^ 64 + digit_val c) mod 2 ^ 64))"

definition spoolfile_parse :: "string \<Rightarrow> spoolfile result" where
  "spoolfile_parse name =
     (if name = [] then Inl (Invalid_Argument ''invalid spoolfile name'')
      else bindE (filenum_loop name 0) (\<lambda>n. Inr \<lparr>sf_filename = name, sf_filenum = n\<rparr>))"

definition spoolfile_make :: "nat \<Rightarrow> nat \<Rightarrow> spoolfile" where
  "spoolfile_make n minwidth =
     \<lparr>sf_filename = pad_left minwidth (CHR ''0'') (dec_nat n), sf_filenum = n\<rparr>"

definition has_padding :: "spoolfile \<Rightarrow> bool" where
  "has_padding sf \<longleftrightarrow> sf_filename sf \<noteq> [] \<and> hd (sf_filename sf) = CHR ''0''"

lemma filenum_loop_eq:
  "filenum_loop cs n = Inr m \<longleftrightarrow>
     list_all is_digit cs \<and> m = n * 10 ^ length cs + dec_val cs \<and> (cs = [] \<or> m \<le> ULONG_MAX)"
proof (induction cs n rule: filenum_loop.induct)
  case (1 n)
  then show ?case
    by auto
next
  case (2 c cs n)
  show ?case
  proof (cases "is_digit c \<and> n \<le> ULONG_MAX div 10 \<and> n * 10 + digit_val c \<le> ULONG_MAX")
    case True
    then have d: "digit_val c < 10"
      by (simp add: digit_val_less)
    from True have "(n * 10) mod 2 ^ 64 = n * 10" "\<not> ULONG_MAX - digit_val c < n * 10"
      "(n * 10 + digit_val c) mod 2 ^ 64 = n * 10 + digit_val c"
      by (auto simp: ULONG_MAX_def)
    moreover have "\<not> ULONG_MAX div 10 < n"
      using True by simp
    ultimately have "filenum_loop (c # cs) n = filenum_loop cs (n * 10 + digit_val c)"
      using True by simp
    moreover have "filenum_loop cs (n * 10 + digit_val c) = Inr m \<longleftrightarrow>
        list_all is_digit cs \<and> m = (n * 10 + digit_val c) * 10 ^ length cs + dec_val cs
        \<and> (cs = [] \<or> m \<le> ULONG_MAX)"
      using "2.IH" True calculation by (auto simp: ULONG_MAX_def)
    ultimately show ?thesis
      using True by (auto simp: dec_val_Cons algebra_simps)
  next
    case False
    have no: "filenum_loop (c # cs) n \<noteq> Inr m"
      using False digit_val_less[of c] by (auto simp: ULONG_MAX_def split: if_splits)
    have "ULONG_MAX < n * 10 ^ length (c # cs) + dec_val (c # cs)" if "is_digit c"
    proof -
      have "ULONG_MAX < n * 10 + digit_val c"
        using False that by (auto simp: ULONG_MAX_def)
      also have "\<dots> \<le> (n * 10 + digit_val c) * 10 ^ length cs"
        by simp
      also have "\<dots> \<le> n * 10 ^ length (c # cs) + dec_val (c # cs)"
        by (simp add: dec_val_Cons algebra_simps)
      finally show ?thesis .
    qed
    with no show ?thesis
      by auto
  qed
qed

lemma spoolfile_parse_eq:
  "spoolfile_parse name = Inr sf \<longleftrightarrow>
     name \<noteq> [] \<and> list_all is_digit name \<and> dec_val name \<le> ULONG_MAX
     \<and> sf = \<lparr>sf_filename = name, sf_filenum = dec_val name\<rparr>"
  by (auto simp: spoolfile_parse_def filenum_loop_eq)

lemma pad_left_dec:
  "list_all is_digit (pad_left w (CHR ''0'') (dec_nat n))"
  "dec_val (pad_left w (CHR ''0'') (dec_nat n)) = n"
  "pad_left w (CHR ''0'') (dec_nat n) \<noteq> []"
  "length (pad_left w (CHR ''0'') (dec_nat n)) = max w (length (dec_nat n))"
  by (auto simp: pad_left_def list_all_iff is_digit_def dec_nat_digits[unfolded list_all_iff is_digit_def, rule_format])

lemma spoolfile_roundtrip: "n \<le> ULONG_MAX \<Longrightarrow>
  spoolfile_parse (sf_filename (spoolfile_make n w)) = Inr (spoolfile_make n w)"
  by (simp add: spoolfile_parse_eq spoolfile_make_def pad_left_dec)

section \<open>Scanning a filestore\<close>

record filestore_scan =
  first_filenum :: nat
  next_filenum :: nat
  minwidth :: nat

text \<open>
  \<open>fixed\<close> is \<^verbatim>\<open>minwidth_fixed\<close>. Widths are \<^verbatim>\<open>unsigned int\<close>; the length of a name is far below
  \<^verbatim>\<open>UINT_MAX\<close>, the value that stands for no width.
\<close>

fun scan_width :: "spoolfile \<Rightarrow> nat \<Rightarrow> bool \<Rightarrow> (nat \<times> bool) result" where
  "scan_width sf w fixed =
     (if \<not> fixed then
        (if has_padding sf then
           (if w < length (sf_filename sf)
            then Inl (Runtime_Error ''inconsistent padding in filestore'')
            else Inr (length (sf_filename sf), True))
         else Inr (if length (sf_filename sf) < w then length (sf_filename sf) else w, False))
      else
        (if has_padding sf then
           (if length (sf_filename sf) \<noteq> w
            then Inl (Runtime_Error ''inconsistent padding in filestore'') else Inr (w, True))
         else
           (if length (sf_filename sf) < w
            then Inl (Runtime_Error ''inconsistent padding in filestore'') else Inr (w, True))))"

fun scan_loop :: "string list \<Rightarrow> nat \<Rightarrow> nat \<Rightarrow> nat \<Rightarrow> bool \<Rightarrow> (nat \<times> nat \<times> nat) result" where
  "scan_loop [] fst_num nxt w fixed = Inr (fst_num, nxt, w)"
| "scan_loop (name # names) fst_num nxt w fixed =
     (if name \<noteq> [] \<and> hd name \<noteq> CHR ''.'' then
        bindE (spoolfile_parse name) (\<lambda>sf.
          if sf_filenum sf = ULONG_MAX then Inl (Runtime_Error ''file number overflow'')
          else bindE (scan_width sf w fixed) (\<lambda>(w', fixed').
            scan_loop names
              (if sf_filenum sf < fst_num then sf_filenum sf else fst_num)
              (if nxt \<le> sf_filenum sf then sf_filenum sf + 1 else nxt) w' fixed'))
      else scan_loop names fst_num nxt w fixed)"

definition filestore_scan :: "string list \<Rightarrow> filestore_scan result" where
  "filestore_scan names =
     bindE (scan_loop names ULONG_MAX 0 UINT_MAX False) (\<lambda>(fst_num, nxt, w).
       Inr \<lparr>first_filenum = (if fst_num = ULONG_MAX then 0 else fst_num),
            next_filenum = nxt,
            minwidth = (if w = UINT_MAX then 0 else w)\<rparr>)"

section \<open>The result of a scan\<close>

text \<open>
  What a scan computes, from the set of visible names alone: a filestore is consistent when every
  name is a file number and no name with a leading zero is longer than another name.
\<close>

definition visible :: "string list \<Rightarrow> string list" where
  "visible names = filter (\<lambda>s. s \<noteq> [] \<and> hd s \<noteq> CHR ''.'') names"

definition padded :: "string \<Rightarrow> bool" where
  "padded s \<longleftrightarrow> s \<noteq> [] \<and> hd s = CHR ''0''"

definition numbered :: "string \<Rightarrow> bool" where
  "numbered s \<longleftrightarrow> s \<noteq> [] \<and> list_all is_digit s \<and> dec_val s < ULONG_MAX \<and> length s < UINT_MAX"

definition consistent :: "string set \<Rightarrow> bool" where
  "consistent S \<longleftrightarrow> (\<forall>s \<in> S. numbered s) \<and> (\<forall>p \<in> S. \<forall>q \<in> S. padded p \<longrightarrow> length p \<le> length q)"

definition least_num :: "string set \<Rightarrow> nat" where
  "least_num S = (if S = {} then ULONG_MAX else Min (dec_val ` S))"

definition next_num :: "string set \<Rightarrow> nat" where
  "next_num S = (if S = {} then 0 else Max (dec_val ` S) + 1)"

definition least_width :: "string set \<Rightarrow> nat" where
  "least_width S = (if S = {} then UINT_MAX else Min (length ` S))"

lemma least_width_le: "finite S \<Longrightarrow> s \<in> S \<Longrightarrow> least_width S \<le> length s"
  by (auto simp: least_width_def)

lemma if_less_min: "(if (a :: nat) < b then a else b) = min a b"
  by auto

lemma least_width_insert:
  "finite S \<Longrightarrow> length s < UINT_MAX \<Longrightarrow>
     least_width (insert s S) = (if length s < least_width S then length s else least_width S)"
  unfolding if_less_min by (cases "S = {}") (simp_all add: least_width_def)

lemma least_num_insert:
  "finite S \<Longrightarrow> dec_val s < ULONG_MAX \<Longrightarrow>
     least_num (insert s S) = (if dec_val s < least_num S then dec_val s else least_num S)"
  unfolding if_less_min by (cases "S = {}") (simp_all add: least_num_def)

lemma next_num_insert:
  "finite S \<Longrightarrow> next_num (insert s S) = (if next_num S \<le> dec_val s then dec_val s + 1 else next_num S)"
  by (cases "S = {}") (simp_all add: next_num_def max_def less_eq_Suc_le)

lemma least_width_attained: "finite S \<Longrightarrow> S \<noteq> {} \<Longrightarrow> \<exists>s \<in> S. length s = least_width S"
  using Min_in[of "length ` S"] by (simp add: least_width_def image_iff) metis

lemma scan_width_eq:
  "scan_width sf W fixed = Inr (w, b) \<longleftrightarrow>
     (has_padding sf \<longrightarrow> \<not> W < length (sf_filename sf)) \<and> (fixed \<longrightarrow> W \<le> length (sf_filename sf))
     \<and> w = min (length (sf_filename sf)) W \<and> b = (fixed \<or> has_padding sf)"
  by (cases fixed; cases "has_padding sf") auto

declare scan_width.simps [simp del]

lemma scan_width_step:
  assumes "finite S" and "consistent S" and "numbered s"
    and "sf = \<lparr>sf_filename = s, sf_filenum = dec_val s\<rparr>"
  shows "scan_width sf (least_width S) (\<exists>p \<in> S. padded p) = Inr (w, b) \<longleftrightarrow>
    consistent (insert s S) \<and> w = least_width (insert s S) \<and> (b \<longleftrightarrow> (\<exists>p \<in> insert s S. padded p))"
proof -
  have pad: "has_padding sf \<longleftrightarrow> padded s" and len: "sf_filename sf = s"
    using assms(4) by (simp_all add: has_padding_def padded_def)
  have small: "length s < UINT_MAX"
    using assms(3) by (simp add: numbered_def)
  let ?W = "least_width S"
  have wi: "least_width (insert s S) = min (length s) ?W"
    using least_width_insert[OF assms(1) small] by (simp add: if_less_min)
  have ok: "consistent (insert s S) \<longleftrightarrow> (padded s \<longrightarrow> (\<forall>q \<in> S. length s \<le> length q))
      \<and> (\<forall>p \<in> S. padded p \<longrightarrow> length p \<le> length s)"
    using assms(2,3) by (auto simp: consistent_def)
  have le_all: "(\<forall>q \<in> S. length s \<le> length q) \<longleftrightarrow> \<not> ?W < length s"
    using assms(1) small by (auto simp: least_width_def not_less)
  have le_s: "(\<forall>p \<in> S. padded p \<longrightarrow> length p \<le> length s) \<longleftrightarrow> ((\<exists>p \<in> S. padded p) \<longrightarrow> ?W \<le> length s)"
  proof (cases "\<exists>p \<in> S. padded p")
    case True
    have "length p = ?W" if p: "p \<in> S" "padded p" for p
    proof -
      obtain q where "q \<in> S" "length q = ?W"
        using least_width_attained[OF assms(1)] p(1) by blast
      then have "length p \<le> ?W"
        using assms(2) p by (simp add: consistent_def) metis
      with least_width_le[OF assms(1) p(1)] show ?thesis
        by simp
    qed
    with True show ?thesis
      by auto
  qed auto
  show ?thesis
    unfolding scan_width_eq pad len ok wi le_all le_s by (simp add: disj_commute)
qed

lemma consistent_mono: "consistent T \<Longrightarrow> S \<subseteq> T \<Longrightarrow> consistent S"
  by (auto simp: consistent_def)

lemma scan_loop_eq:
  assumes "finite S" and "consistent S" and "\<forall>s \<in> set names. length s < UINT_MAX"
  shows "scan_loop names (least_num S) (next_num S) (least_width S) (\<exists>p \<in> S. padded p) = Inr (f, n, w) \<longleftrightarrow>
    consistent (S \<union> set (visible names)) \<and> f = least_num (S \<union> set (visible names))
    \<and> n = next_num (S \<union> set (visible names)) \<and> w = least_width (S \<union> set (visible names))"
  using assms
proof (induction names arbitrary: S)
  case Nil
  then show ?case
    by (auto simp: visible_def)
next
  case (Cons s names)
  show ?case
  proof (cases "s \<noteq> [] \<and> hd s \<noteq> CHR ''.''")
    case False
    then have "visible (s # names) = visible names"
      by (simp add: visible_def)
    moreover have "scan_loop (s # names) a b c d = scan_loop names a b c d" for a b c d
      using False by (simp only: scan_loop.simps if_False)
    ultimately show ?thesis
      using Cons by simp
  next
    case True
    then have union: "S \<union> set (visible (s # names)) = insert s S \<union> set (visible names)"
      by (simp add: visible_def)
    show ?thesis
    proof (cases "numbered s \<and> consistent (insert s S)")
      case False
      have "\<not> consistent (S \<union> set (visible (s # names)))"
        using False consistent_mono[of "S \<union> set (visible (s # names))" "insert s S"] union
        by (auto simp: consistent_def)
      moreover have "scan_loop (s # names) (least_num S) (next_num S) (least_width S) (\<exists>p \<in> S. padded p)
          \<noteq> Inr (f, n, w)"
      proof (cases "numbered s")
        case False
        then show ?thesis
          using True Cons.prems(3) by (auto simp: spoolfile_parse_eq numbered_def)
      next
        case num: True
        with False have "\<not> consistent (insert s S)"
          by simp
        then show ?thesis
          using True scan_width_step[OF Cons.prems(1,2) num]
          by (auto simp: spoolfile_parse_eq)
      qed
      ultimately show ?thesis
        by simp
    next
      case ok: True
      let ?sf = "\<lparr>sf_filename = s, sf_filenum = dec_val s\<rparr>"
      have "spoolfile_parse s = Inr ?sf"
        using ok by (auto simp: spoolfile_parse_eq numbered_def)
      moreover have "scan_width ?sf (least_width S) (\<exists>p \<in> S. padded p)
          = Inr (least_width (insert s S), \<exists>p \<in> insert s S. padded p)"
        using scan_width_step[OF Cons.prems(1,2), of s ?sf] ok by blast
      moreover have "dec_val s < ULONG_MAX"
        using ok by (simp add: numbered_def)
      ultimately have "scan_loop (s # names) (least_num S) (next_num S) (least_width S) (\<exists>p \<in> S. padded p)
          = scan_loop names (least_num (insert s S)) (next_num (insert s S)) (least_width (insert s S))
              (\<exists>p \<in> insert s S. padded p)"
        using True Cons.prems(1) by (simp add: least_num_insert next_num_insert)
      with Cons.IH[of "insert s S"] Cons.prems ok show ?thesis
        unfolding union by simp
    qed
  qed
qed

lemma filestore_scan_eq:
  assumes "\<forall>s \<in> set names. length s < UINT_MAX"
  defines "V \<equiv> set (visible names)"
  shows "filestore_scan names = Inr r \<longleftrightarrow> consistent V
    \<and> r = \<lparr>first_filenum = (if V = {} then 0 else Min (dec_val ` V)),
         next_filenum = (if V = {} then 0 else Max (dec_val ` V) + 1),
         minwidth = (if V = {} then 0 else Min (length ` V))\<rparr>"
proof -
  have fin: "finite V"
    by (simp add: V_def)
  have loop: "scan_loop names ULONG_MAX 0 UINT_MAX False = Inr (f, n, w) \<longleftrightarrow>
      consistent V \<and> f = least_num V \<and> n = next_num V \<and> w = least_width V" for f n w
    using scan_loop_eq[of "{}" names f n w] assms(1)
    by (simp add: V_def consistent_def least_num_def next_num_def least_width_def)
  have num: "least_num V \<noteq> ULONG_MAX" and wid: "least_width V \<noteq> UINT_MAX" if "consistent V" "V \<noteq> {}"
  proof -
    from that(2) obtain s where s: "s \<in> V"
      by blast
    then have "numbered s"
      using that(1) by (simp add: consistent_def)
    then have "dec_val s < ULONG_MAX" "length s < UINT_MAX"
      by (simp_all add: numbered_def)
    moreover have "least_num V \<le> dec_val s"
      using s fin that(2) by (auto simp: least_num_def)
    moreover have "least_width V \<le> length s"
      by (rule least_width_le[OF fin s])
    ultimately show "least_num V \<noteq> ULONG_MAX" and "least_width V \<noteq> UINT_MAX"
      by simp_all
  qed
  show ?thesis
    using num wid by (cases "V = {}") (auto simp: filestore_scan_def loop least_num_def next_num_def
        least_width_def)
qed

lemma consistent_insert:
  assumes "consistent S" and "numbered x"
    and "\<And>q. q \<in> S \<Longrightarrow> padded x \<Longrightarrow> length x \<le> length q"
    and "\<And>p. p \<in> S \<Longrightarrow> padded p \<Longrightarrow> length p \<le> length x"
  shows "consistent (insert x S)"
  using assms unfolding consistent_def by blast

text \<open>
  The spoolfile that a writer creates next: its name is not in use, and with it the filestore is
  still consistent, with the same width.
\<close>

lemma next_spoolfile:
  assumes "\<forall>s \<in> set names. length s < UINT_MAX" and "filestore_scan names = Inr r"
    and "minwidth r \<noteq> 0" and "next_filenum r < ULONG_MAX"
  defines "new \<equiv> sf_filename (spoolfile_make (next_filenum r) (minwidth r))"
  shows "new \<notin> set names"
    and "\<exists>r'. filestore_scan (new # names) = Inr r' \<and> minwidth r' = minwidth r
      \<and> next_filenum r' = next_filenum r + 1 \<and> first_filenum r' = first_filenum r"
proof -
  let ?V = "set (visible names)"
  from assms(1,2,3) have ok: "consistent ?V" and ne: "?V \<noteq> {}"
    and r: "r = \<lparr>first_filenum = Min (dec_val ` ?V), next_filenum = Max (dec_val ` ?V) + 1,
      minwidth = Min (length ` ?V)\<rparr>"
    by (auto simp: filestore_scan_eq split: if_splits)
  have dig: "list_all is_digit new" "dec_val new = next_filenum r" "new \<noteq> []"
    "length new = max (minwidth r) (length (dec_nat (next_filenum r)))"
    by (simp_all add: new_def spoolfile_make_def pad_left_dec)
  have pos: "0 < next_filenum r"
    using r by simp
  have gt: "dec_val s < next_filenum r" if "s \<in> ?V" for s
    using that r by (simp add: less_Suc_eq_le)
  have "hd new \<noteq> CHR ''.''"
    using dig(1,3) by (cases new) (auto simp: is_digit_def)
  then have vis: "visible (new # names) = new # visible names"
    using dig(3) by (simp add: visible_def)
  have "new \<notin> ?V"
    using gt[of new] dig(2) by auto
  then show notin: "new \<notin> set names"
    using dig(3) \<open>hd new \<noteq> CHR ''.''\<close> by (auto simp: visible_def)
  have w: "minwidth r \<le> length s" if "s \<in> ?V" for s
    using that r by simp
  have pad: "length new = minwidth r" if "padded new"
  proof (rule ccontr)
    assume "length new \<noteq> minwidth r"
    then have "new = dec_nat (next_filenum r)"
      using dig(4) by (simp add: new_def spoolfile_make_def pad_left_def max_def split: if_splits)
    with dec_nat_leading[OF pos] that show False
      by (simp add: padded_def digit_val_def)
  qed
  have old: "length p \<le> length new" if "p \<in> ?V" "padded p" for p
  proof -
    obtain q where "q \<in> ?V" "length q = minwidth r"
      using least_width_attained[of ?V] ne r by (auto simp: least_width_def)
    with that ok have "length p \<le> minwidth r"
      by (metis consistent_def)
    with dig(4) show ?thesis
      by simp
  qed
  have "length (dec_nat (next_filenum r)) < UINT_MAX"
  proof -
    have "10 ^ (length (dec_nat (next_filenum r)) - 1) \<le> next_filenum r"
      by (rule dec_nat_length(1)[OF pos])
    also have "\<dots> < 10 ^ 20"
      using assms(4) by (simp add: ULONG_MAX_def)
    finally have "length (dec_nat (next_filenum r)) - 1 < 20"
      by (rule power_less_imp_less_exp[rotated]) simp
    then show ?thesis
      by (simp add: UINT_MAX_def)
  qed
  moreover obtain q where "q \<in> ?V"
    using ne by (metis ex_in_conv)
  then have "minwidth r < UINT_MAX"
    using w[of q] ok by (auto simp: consistent_def numbered_def)
  ultimately have len: "length new < UINT_MAX"
    by (simp add: dig(4))
  then have "numbered new"
    using dig assms(4) by (simp add: numbered_def)
  then have cons: "consistent (insert new ?V)"
    by (rule consistent_insert[OF ok]) (use pad old w in auto)
  have "Min (dec_val ` ?V) \<in> dec_val ` ?V"
    using ne by (intro Min_in) simp_all
  then have "Min (dec_val ` ?V) < next_filenum r"
    using gt by auto
  then have "Min (dec_val ` insert new ?V) = Min (dec_val ` ?V)"
    using ne dig(2) Min_insert[of "dec_val ` ?V" "dec_val new"] by (simp del: Min_less_iff Min_insert)
  moreover have "Max (dec_val ` insert new ?V) = next_filenum r"
    using ne r dig(2) by simp
  moreover have "Min (length ` insert new ?V) = minwidth r"
    using ne r dig(4) by simp
  ultimately have "filestore_scan (new # names) = Inr \<lparr>first_filenum = Min (dec_val ` ?V),
      next_filenum = next_filenum r + 1, minwidth = minwidth r\<rparr>"
    using assms(1) len cons by (subst filestore_scan_eq) (simp_all add: vis)
  then show "\<exists>r'. filestore_scan (new # names) = Inr r' \<and> minwidth r' = minwidth r
      \<and> next_filenum r' = next_filenum r + 1 \<and> first_filenum r' = first_filenum r"
    using r by simp
qed

text \<open>
  The width of a new filestore, where there is no spoolfile to follow.
\<close>

definition writer_minwidth :: "filestore_scan \<Rightarrow> nat" where
  "writer_minwidth r = (if minwidth r = 0 then 6 else minwidth r)"

section \<open>Source identifiers\<close>

text \<open>
  \<^verbatim>\<open>isalnum\<close> in the C locale.
\<close>

definition is_alnum :: "char \<Rightarrow> bool" where
  "is_alnum c \<longleftrightarrow> is_digit c \<or> (65 \<le> (of_char c :: nat) \<and> (of_char c :: nat) \<le> 90)
     \<or> (97 \<le> (of_char c :: nat) \<and> (of_char c :: nat) \<le> 122)"

definition source_id :: "string \<Rightarrow> string result" where
  "source_id s =
     (if s = [] then Inl (Horace_Error ''invalid protocol ID (empty string)'')
      else if 255 < length s then Inl (Horace_Error ''invalid protocol ID (too long)'')
      else if list_ex (\<lambda>c. \<not> is_alnum c \<and> c \<noteq> CHR ''-'' \<and> c \<noteq> CHR ''.'') s
      then Inl (Horace_Error ''invalid protocol ID (invalid character)'')
      else if hd s = CHR ''.'' then Inl (Horace_Error ''invalid protocol ID (initial full stop)'')
      else Inr s)"

text \<open>
  A valid identifier is one file name: it does not leave the directory it is looked up in, and
  it is not one of the names that the scans skip.
\<close>

lemma source_id_safe:
  assumes "source_id s = Inr t"
  shows "t = s" and "CHR ''/'' \<notin> set s" and "CHR 0x00 \<notin> set s" and "s \<noteq> []" and "hd s \<noteq> CHR ''.''"
    and "length s \<le> 255"
proof -
  have all: "\<forall>c \<in> set s. is_alnum c \<or> c = CHR ''-'' \<or> c = CHR ''.''"
    using assms by (auto simp: source_id_def list_ex_iff split: if_splits)
  have "\<not> is_alnum (CHR ''/'')" and "\<not> is_alnum (CHR 0x00)"
    by (simp_all add: is_alnum_def is_digit_def)
  with all show "CHR ''/'' \<notin> set s" and "CHR 0x00 \<notin> set s"
    by auto
  show "t = s" and "s \<noteq> []" and "hd s \<noteq> CHR ''.''" and "length s \<le> 255"
    using assms by (auto simp: source_id_def split: if_splits)
qed

section \<open>Properties\<close>

text \<open>
  C22: scanning a filestore succeeds exactly where the visible names are spoolfile numbers with
  consistent padding; the result is the least number, the successor of the greatest one and the
  least width, so it does not depend on the order in which the directory lists its names.
\<close>

theorem filestore_scan_spec:
  assumes "\<forall>s \<in> set names. length s < UINT_MAX"
  shows "filestore_scan names = Inr r \<longleftrightarrow> consistent (set (visible names))
    \<and> r = (if visible names = [] then \<lparr>first_filenum = 0, next_filenum = 0, minwidth = 0\<rparr>
       else \<lparr>first_filenum = Min (dec_val ` set (visible names)),
             next_filenum = Max (dec_val ` set (visible names)) + 1,
             minwidth = Min (length ` set (visible names))\<rparr>)"
  using filestore_scan_eq[OF assms, of r] by auto

theorem filestore_scan_spec_witness:
  "filestore_scan [''0012'', ''.'', ''0007''] = Inr \<lparr>first_filenum = 7, next_filenum = 13, minwidth = 4\<rparr>"
proof -
  have "visible [''0012'', ''.'', ''0007''] = [''0012'', ''0007'']"
    by (simp add: visible_def)
  moreover have "consistent {''0012'', ''0007''}"
    by (simp add: consistent_def numbered_def padded_def is_digit_def dec_val_def digit_val_def
        ULONG_MAX_def UINT_MAX_def)
  ultimately show ?thesis
    using filestore_scan_spec[of "[''0012'', ''.'', ''0007'']"]
    by (simp add: UINT_MAX_def dec_val_def digit_val_def)
qed

text \<open>
  C23: the spoolfile that a writer creates next has a name that is not in use, and the filestore is
  still consistent afterwards, with the same width and first number.
\<close>

theorem next_spoolfile_fresh:
  assumes "\<forall>s \<in> set names. length s < UINT_MAX" and "filestore_scan names = Inr r"
    and "minwidth r \<noteq> 0" and "next_filenum r < ULONG_MAX"
  shows "sf_filename (spoolfile_make (next_filenum r) (minwidth r)) \<notin> set names
    \<and> (\<exists>r'. filestore_scan (sf_filename (spoolfile_make (next_filenum r) (minwidth r)) # names) = Inr r'
      \<and> minwidth r' = minwidth r \<and> next_filenum r' = next_filenum r + 1
      \<and> first_filenum r' = first_filenum r)"
  using next_spoolfile[OF assms] by blast

lemma sample_scan:
  "filestore_scan [''0012'', ''.'', ''0007''] = Inr \<lparr>first_filenum = 7, next_filenum = 13, minwidth = 4\<rparr>"
proof -
  have "visible [''0012'', ''.'', ''0007''] = [''0012'', ''0007'']"
    by (simp add: visible_def)
  moreover have "consistent {''0012'', ''0007''}"
    by (simp add: consistent_def numbered_def padded_def is_digit_def dec_val_def digit_val_def
        ULONG_MAX_def UINT_MAX_def)
  ultimately show ?thesis
    by (subst filestore_scan_eq) (simp_all add: UINT_MAX_def dec_val_def digit_val_def)
qed

theorem next_spoolfile_fresh_witness: "''0013'' \<notin> set [''0012'', ''.'', ''0007'']"
proof -
  have "sf_filename (spoolfile_make 13 4) = ''0013''"
    by code_simp
  with next_spoolfile_fresh[OF _ sample_scan] show ?thesis
    by (simp add: UINT_MAX_def ULONG_MAX_def)
qed

text \<open>
  A source identifier that is accepted is safe as the name of a subdirectory: it has no slash
  and no null character, does not begin with a dot and is at most 255 characters long.
\<close>

lemma source_id_is_filename:
  assumes "source_id s = Inr t"
  shows "t = s \<and> CHR ''/'' \<notin> set s \<and> CHR 0x00 \<notin> set s \<and> s \<noteq> [] \<and> hd s \<noteq> CHR ''.'' \<and> length s \<le> 255"
  using source_id_safe[OF assms] by blast

theorem source_id_is_filename_witness: "CHR ''/'' \<notin> set ''host-1.example''"
  using source_id_is_filename[of "''host-1.example''" "''host-1.example''"]
  by (simp add: source_id_def is_alnum_def is_digit_def)

end
