(* ===== verification/File_Session_Writer.thy ===== *)
theory File_Session_Writer
  imports Filestore Session_Writer Record_Writer
begin

text \<open>
  The filestore writer: \<^verbatim>\<open>spoolfile_writer\<close> (\<^verbatim>\<open>horace+file/spoolfile_writer.cc\<close>), the derived part of
  \<^verbatim>\<open>file_session_writer\<close> (\<^verbatim>\<open>horace+file/file_session_writer.cc\<close>) and the free space check
  (\<^verbatim>\<open>horace+file/free_space_checker.cc\<close>). The disk is a list of files with their content and the
  number of octets that \<^verbatim>\<open>fsync\<close> has made durable; the answers of the kernel to the writes of each
  spoolfile, and to the calls of \<^verbatim>\<open>fsync\<close>, are part of the state.
  The lemmas show what the spoolfiles hold after any sequence of accepted records, and what
  of it is durable when a sync record is answered.
\<close>

section \<open>Spoolfile writer\<close>

record disk_file =
  df_pathname :: string
  df_content :: octets
  df_synced :: nat

text \<open>
  \<open>sp_synced\<close> is the length of the file at the last \<^verbatim>\<open>fsync\<close>. \<open>answers\<close> are the answers of the kernel to
  the writes of a file that is created, and \<open>outcome\<close> is the \<^verbatim>\<open>errno\<close> of a call of \<^verbatim>\<open>fsync\<close> that fails.
\<close>

record spoolfile_writer =
  sp_pathname :: string
  sp_ow :: "kernel_file octet_writer"
  sp_synced :: nat
  sp_size :: u64
  sp_capacity :: u64
  sp_first :: bool

definition EEXIST :: nat where "EEXIST = 17"

definition spoolfile_create :: "string list \<Rightarrow> trace \<Rightarrow> string \<Rightarrow> u64 \<Rightarrow> spoolfile_writer result" where
  "spoolfile_create existing answers pathname capacity =
     (if pathname \<in> set existing then Inl (Libc_Error EEXIST)
      else Inr \<lparr>sp_pathname = pathname,
        sp_ow = \<lparr>wbuf_size = 0x40, wbuf = [], sink = \<lparr>kf_content = [], kf_answers = answers, kf_error = None\<rparr>\<rparr>,
        sp_synced = 0, sp_size = 0, sp_capacity = capacity, sp_first = True\<rparr>)"

definition fd_fsync :: "nat option \<Rightarrow> unit result" where
  "fd_fsync outcome = (case outcome of None \<Rightarrow> Inr () | Some e \<Rightarrow> Inl (Libc_Error e))"

definition spoolfile_sync :: "nat option \<Rightarrow> (spoolfile_writer, unit) act" where
  "spoolfile_sync outcome =
     seqS (liftS (fd_fsync outcome)) (modifyS (\<lambda>s. s\<lparr>sp_synced := length (kf_content (sink (sp_ow s)))\<rparr>))"

definition spoolfile_octets_needed :: "hrecord \<Rightarrow> u64 result" where
  "spoolfile_octets_needed r =
     bindE (attr_list_length (rec_attributes r)) (\<lambda>content_len.
     bindE (sb128_of_value (scast (rec_channel r))) (\<lambda>c.
     bindE (ub128_of_value content_len) (\<lambda>l.
       Inr (of_nat (sb_length c) + of_nat (ub_length l) + content_len))))"

definition spoolfile_write :: "hrecord \<Rightarrow> (spoolfile_writer, bool) act" where
  "spoolfile_write r =
     bindS (liftS (spoolfile_octets_needed r)) (\<lambda>full_len.
     bindS (getS (\<lambda>s. sp_capacity s < sp_size s + full_len \<and> \<not> sp_first s)) (\<lambda>full.
       if full then returnS False
       else
         seqS (\<lambda>s. case writer_record file_write_direct r (sp_ow s) of (x, ow) \<Rightarrow> (x, s\<lparr>sp_ow := ow\<rparr>))
         (seqS (modifyS (\<lambda>s. s\<lparr>sp_size := sp_size s + full_len, sp_first := False\<rparr>))
           (returnS True))))"

text \<open>
  The destructor of the octet writer flushes its buffer; an exception there is only reported.
\<close>

definition spoolfile_destroy :: "spoolfile_writer \<Rightarrow> disk_file" where
  "spoolfile_destroy s =
     \<lparr>df_pathname = sp_pathname s,
       df_content = kf_content (sink (snd (writer_flush file_write_direct (sp_ow s)))),
       df_synced = sp_synced s\<rparr>"

section \<open>Free space\<close>

text \<open>
  \<open>used\<close>, \<open>hwm\<close> and \<open>lwm\<close> are ordered values; in the code they are \<^verbatim>\<open>double\<close>s other than NaN.
\<close>

definition free_space_step :: "'f::linorder \<Rightarrow> 'f \<Rightarrow> 'f \<Rightarrow> bool \<Rightarrow> bool" where
  "free_space_step hwm lwm used old = (if hwm \<le> used then False else if used < lwm then True else old)"

section \<open>File session writer\<close>

text \<open>
  \<open>fs_space\<close> holds the answers that the endpoint will give to \<^verbatim>\<open>writable\<close>; where it is empty no
  free space check is configured. \<open>fs_kernel\<close> holds the answers of the kernel to the writes of each spoolfile to
  come, and \<open>fs_fsyncs\<close> the outcomes of the calls of \<^verbatim>\<open>fsync\<close> to come, of spoolfiles and of the directory; where
  these lists end, writes are taken whole and \<^verbatim>\<open>fsync\<close> succeeds. \<open>fs_disk\<close> is the rest of the directory.
\<close>

record file_session =
  fs_pathname :: string
  fs_next_filenum :: u64
  fs_minwidth :: nat
  fs_sfw :: "spoolfile_writer option"
  fs_writable :: bool
  fs_filesize :: u64
  fs_space :: "bool list"
  fs_kernel :: "trace list"
  fs_fsyncs :: "nat option list"
  fs_disk :: "disk_file list"

definition fs_files :: "file_session \<Rightarrow> string list" where
  "fs_files d = map df_pathname (fs_disk d) @ (case fs_sfw d of None \<Rightarrow> [] | Some s \<Rightarrow> [sp_pathname s])"

definition file_session_open ::
  "string \<Rightarrow> u64 \<Rightarrow> bool list \<Rightarrow> trace list \<Rightarrow> nat option list \<Rightarrow> string list \<Rightarrow> disk_file list
    \<Rightarrow> file_session result" where
  "file_session_open pathname filesize space writes fsyncs names disk =
     bindE (filestore_scan names) (\<lambda>r.
       Inr \<lparr>fs_pathname = pathname, fs_next_filenum = of_nat (next_filenum r),
         fs_minwidth = writer_minwidth r, fs_sfw = None, fs_writable = False,
         fs_filesize = filesize, fs_space = space, fs_kernel = writes, fs_fsyncs = fsyncs, fs_disk = disk\<rparr>)"

definition endpoint_writable :: "(file_session, bool) act" where
  "endpoint_writable d =
     (case fs_space d of [] \<Rightarrow> (Inr True, d) | b # bs \<Rightarrow> (Inr b, d\<lparr>fs_space := bs\<rparr>))"

definition next_fsync :: "(file_session, nat option) act" where
  "next_fsync d =
     (case fs_fsyncs d of [] \<Rightarrow> (Inr None, d) | x # xs \<Rightarrow> (Inr x, d\<lparr>fs_fsyncs := xs\<rparr>))"

definition next_pathname :: "(file_session, string) act" where
  "next_pathname =
     bindS (getS fs_next_filenum) (\<lambda>n.
     if n + 1 = 0 then throwS (Endpoint_Error ''file number overflow'')
     else
       seqS (modifyS (\<lambda>d. d\<lparr>fs_next_filenum := n + 1\<rparr>))
         (getS (\<lambda>d. fs_pathname d @ ''/'' @ sf_filename (spoolfile_make (unat n) (fs_minwidth d)))))"

definition with_sfw :: "(spoolfile_writer, 'a) act \<Rightarrow> (file_session, 'a) act" where
  "with_sfw m d =
     (case fs_sfw d of
        None \<Rightarrow> (Inl (Undefined_Behaviour ''null pointer''), d)
      | Some s \<Rightarrow> (case m s of (x, s') \<Rightarrow> (x, d\<lparr>fs_sfw := Some s'\<rparr>)))"

text \<open>
  The new spoolfile is created before the old writer is destroyed.
\<close>

definition replace_sfw :: "string \<Rightarrow> (file_session, unit) act" where
  "replace_sfw pathname d =
     (case spoolfile_create (fs_files d) (if fs_kernel d = [] then [] else hd (fs_kernel d)) pathname (fs_filesize d) of
        Inl e \<Rightarrow> (Inl e, d)
      | Inr new \<Rightarrow>
          (Inr (), d\<lparr>fs_sfw := Some new, fs_kernel := tl (fs_kernel d),
             fs_disk := fs_disk d @ (case fs_sfw d of None \<Rightarrow> [] | Some s \<Rightarrow> [spoolfile_destroy s])\<rparr>))"

definition sync_sfw :: "(file_session, unit) act" where
  "sync_sfw = bindS next_fsync (\<lambda>x. with_sfw (spoolfile_sync x))"

definition begin_spoolfile :: "hrecord \<Rightarrow> (file_session, unit) act" where
  "begin_spoolfile r =
     seqS (bindS (getS fs_sfw) (\<lambda>sfw. if sfw \<noteq> None then sync_sfw else returnS ()))
     (bindS next_pathname (\<lambda>pathname.
     seqS (replace_sfw pathname)
     (bindS (with_sfw (spoolfile_write r)) (\<lambda>written.
       if \<not> written then throwS (Endpoint_Error ''failed to write session record to new spoolfile'')
       else
         bindS next_fsync (\<lambda>x.
         seqS (liftS (fd_fsync x))
         (bindS endpoint_writable (\<lambda>b. modifyS (\<lambda>d. d\<lparr>fs_writable := b\<rparr>))))))))"

definition spool_record :: "hrecord \<Rightarrow> (file_session, unit) sw_act" where
  "spool_record r =
     bindS (getS sub) (\<lambda>d.
     bindS (if fs_sfw d \<noteq> None then on_sub (with_sfw (spoolfile_write r)) else returnS False) (\<lambda>written.
     bindS (if written then returnS True
            else bindS session_record (\<lambda>sr.
              seqS (on_sub (begin_spoolfile sr)) (on_sub (with_sfw (spoolfile_write r))))) (\<lambda>written'.
       if written' then returnS ()
       else throwS (Endpoint_Error ''failed to write record to new spoolfile''))))"

definition file_handlers :: "file_session handlers" where
  "file_handlers =
     \<lparr>handle_session_start = (\<lambda>r. on_sub (begin_spoolfile r)),
      handle_session_end = spool_record,
      handle_sync = (\<lambda>r. on_sub sync_sfw),
      handle_signature = spool_record,
      handle_control = no_action,
      handle_event = spool_record\<rparr>"

definition file_session_writable :: "(file_session, bool) act" where
  "file_session_writable =
     bindS (getS fs_writable) (\<lambda>w.
       if w then returnS True
       else bindS endpoint_writable (\<lambda>b. seqS (modifyS (\<lambda>d. d\<lparr>fs_writable := b\<rparr>)) (returnS b)))"

section \<open>What the spoolfiles hold\<close>

text \<open>
  \<open>sp_octets\<close> is the content that the file has once the buffer is flushed; \<open>spooled\<close> lists the content of
  the files in the directory, and \<open>durable\<close> as much of it as \<^verbatim>\<open>fsync\<close> has made durable.
\<close>

definition sp_octets :: "spoolfile_writer \<Rightarrow> octets" where
  "sp_octets s = kf_content (sink (sp_ow s)) @ wbuf (sp_ow s)"

definition spooled :: "file_session \<Rightarrow> octets list" where
  "spooled d = map df_content (fs_disk d) @ (case fs_sfw d of None \<Rightarrow> [] | Some s \<Rightarrow> [sp_octets s])"

definition durable :: "file_session \<Rightarrow> octets list" where
  "durable d = map (\<lambda>f. take (df_synced f) (df_content f)) (fs_disk d)
     @ (case fs_sfw d of None \<Rightarrow> [] | Some s \<Rightarrow> [take (sp_synced s) (kf_content (sink (sp_ow s)))])"

definition octets_of :: "hrecord list \<Rightarrow> octets" where
  "octets_of rs = concat (map record_octets rs)"

lemma octets_of_simps [simp]:
  "octets_of [] = []"
  "octets_of (r # rs) = record_octets r @ octets_of rs"
  "octets_of (rs @ rs') = octets_of rs @ octets_of rs'"
  by (simp_all add: octets_of_def)

text \<open>
  The records accepted are in the files as long as no write fails. Then the octet writer of a spoolfile
  is a sink that can always be flushed.
\<close>

interpretation spool_sink: octet_sink file_write_direct kf_content counting_file
  by unfold_locales (auto intro: file_write_keeps_answers dest: counting_is_blocking os_file.wr_data os_file.wr_part)

lemma counting_writes: "counting_file f \<Longrightarrow> fst (file_write_direct xs f) = Inr ()"
  by (rule file_write_direct_cases[OF counting_is_blocking, of f xs]) auto

definition sp_wf :: "spoolfile_writer \<Rightarrow> bool" where
  "sp_wf s \<longleftrightarrow> spool_sink.writer_ok (sp_ow s) \<and> wbuf_size (sp_ow s) = 0x40"

definition spool_wf :: "file_session \<Rightarrow> bool" where
  "spool_wf d \<longleftrightarrow> (case fs_sfw d of None \<Rightarrow> True | Some s \<Rightarrow> sp_wf s)"

lemma spoolfile_write_cases:
  assumes "spoolfile_write r s = (Inr b, s')" and "sp_wf s"
  obtains (full) "\<not> b" "s' = s" "\<not> sp_first s"
      "\<exists>n. spoolfile_octets_needed r = Inr n \<and> sp_capacity s < sp_size s + n"
    | (written) n where "b" "spoolfile_octets_needed r = Inr n" "record_write r = Inr (record_octets r)"
      "sp_capacity s < sp_size s + n \<longrightarrow> sp_first s"
      "sp_octets s' = sp_octets s @ record_octets r" "sp_wf s'" "\<not> sp_first s'"
      "sp_size s' = sp_size s + n" "sp_pathname s' = sp_pathname s" "sp_synced s' = sp_synced s"
      "sp_capacity s' = sp_capacity s"
proof -
  from assms(1) obtain n where n: "spoolfile_octets_needed r = Inr n"
    by (auto simp: spoolfile_write_def act_simps split: sum.splits prod.splits)
  show ?thesis
  proof (cases "sp_capacity s < sp_size s + n \<and> \<not> sp_first s")
    case True
    with assms(1) n show ?thesis
      by (intro full) (auto simp: spoolfile_write_def act_simps)
  next
    case False
    with assms(1) n obtain w' where w': "writer_record file_write_direct r (sp_ow s) = (Inr (), w')"
      and s': "b" "s' = s\<lparr>sp_ow := w', sp_size := sp_size s + n, sp_first := False\<rparr>"
      by (auto simp: spoolfile_write_def act_Inr split: prod.splits)
    with spool_sink.writer_record_ok[OF w'] writer_record_size[OF w'] assms(2) False
    show ?thesis
      by (intro written[OF _ n writer_record_write[OF w']])
        (auto simp: sp_octets_def sp_wf_def spool_sink.handed_over_def)
  qed
qed

lemma destroy_content:
  assumes "sp_wf s"
  shows "df_content (spoolfile_destroy s) = sp_octets s"
proof -
  have "fst (file_write_direct (wbuf (sp_ow s)) (sink (sp_ow s))) = Inr ()"
    using assms by (simp add: counting_writes sp_wf_def spool_sink.writer_ok_def)
  then have "fst (writer_flush file_write_direct (sp_ow s)) = Inr ()"
    by (auto simp: writer_flush_def split: prod.split sum.split)
  then obtain w' where "writer_flush file_write_direct (sp_ow s) = (Inr (), w')"
    by (metis prod.collapse)
  with spool_sink.flush_ok[OF this] assms show ?thesis
    by (simp add: spoolfile_destroy_def sp_octets_def sp_wf_def spool_sink.handed_over_def)
qed

definition sp_flushed :: "spoolfile_writer \<Rightarrow> bool" where
  "sp_flushed s \<longleftrightarrow> sp_synced s = length (kf_content (sink (sp_ow s)))"

lemma sync_octets:
  assumes "spoolfile_sync x s = (Inr (), s')"
  shows "sp_octets s' = sp_octets s" "sp_wf s' = sp_wf s" "sp_flushed s'" "sp_first s' = sp_first s"
    "sp_size s' = sp_size s" "sp_capacity s' = sp_capacity s"
  using assms by (auto simp: spoolfile_sync_def act_Inr sp_octets_def sp_wf_def sp_flushed_def)

text \<open>
  The current spoolfile and the records in it, as far as the capacity is concerned.
\<close>

definition sp_fits :: "spoolfile_writer \<Rightarrow> hrecord list \<Rightarrow> u64 \<Rightarrow> bool" where
  "sp_fits s rs cap \<longleftrightarrow> sp_octets s = octets_of rs \<and> sp_wf s \<and> \<not> sp_first s \<and> sp_capacity s = cap
     \<and> sp_size s = of_nat (length (octets_of rs)) \<and> length (octets_of rs) < 2 ^ 63
     \<and> (length rs \<le> 1 \<or> length (octets_of rs) \<le> unat cap)"

definition record_small :: "hrecord \<Rightarrow> bool" where
  "record_small r \<longleftrightarrow> contents_len (rec_attributes r) < 2 ^ 31"

lemma record_small_octets:
  assumes "record_small r"
  shows "record_write r = Inr (record_octets r)"
    and "spoolfile_octets_needed r = Inr (of_nat (length (record_octets r)))"
    and "length (record_octets r) < 2 ^ 32"
proof -
  let ?n = "contents_len (rec_attributes r)"
  have small: "?n < 2 ^ 63" and small31: "?n < 2 ^ 31"
    using assms by (simp_all add: record_small_def)
  note u = ub128_ok_of_nat[OF small]
  obtain bs where bs: "attrs_write (rec_attributes r) = Inr bs" "length bs = ?n"
    using attr_write_content(2)[OF small] by auto
  have w: "record_write r = Inr (sb128_octets (scast (rec_channel r)) @ ub128_octets (of_nat ?n) @ bs)"
    using bs(1) small
    by (simp add: record_write_def sb128_octets_props(1) attr_list_length_def
        attr_length_content_len(2) ub128_octets_props(1)[OF u])
  then show "record_write r = Inr (record_octets r)"
    by (simp add: record_octets_def)
  show "spoolfile_octets_needed r = Inr (of_nat (length (record_octets r)))"
    using w bs small
    by (simp add: spoolfile_octets_needed_def record_octets_def attr_list_length_def
        attr_length_content_len(2) sb128_octets_props(2) ub128_octets_props(2)[OF u])
  show "length (record_octets r) < 2 ^ 32"
    using w bs small31 sb128_octets_props(6)[OF sb128_ok_scast, of "rec_channel r"]
      ub128_octets_props(6)[OF u] by (simp add: record_octets_def)
qed

text \<open>
  \<open>pre\<close> is what the directory held before; \<open>fss\<close> lists the records of each spoolfile created since.
\<close>

definition file_fits :: "u64 \<Rightarrow> hrecord list \<Rightarrow> bool" where
  "file_fits cap rs \<longleftrightarrow> length rs \<le> 1 \<or> length (octets_of rs) \<le> unat cap"

text \<open>
  A file that the writer has left holds its records, and all but the last 64 octets are durable.
\<close>

definition holds :: "disk_file \<Rightarrow> hrecord list \<Rightarrow> bool" where
  "holds f rs \<longleftrightarrow> df_content f = octets_of rs \<and> length (octets_of rs) \<le> df_synced f + 64"

definition spool_state :: "u64 \<Rightarrow> disk_file list \<Rightarrow> hrecord list list \<Rightarrow> file_session \<Rightarrow> bool" where
  "spool_state cap pre fss d \<longleftrightarrow> fs_filesize d = cap \<and> unat cap < 2 ^ 63
     \<and> (\<forall>f \<in> set fss. file_fits cap f) \<and> list_all (list_all count_answer) (fs_kernel d)
     \<and> (case fs_sfw d of
          None \<Rightarrow> fss = [] \<and> fs_disk d = pre
        | Some w \<Rightarrow> fss \<noteq> [] \<and> sp_fits w (last fss) cap
            \<and> (\<exists>fs. fs_disk d = pre @ fs \<and> list_all2 holds fs (butlast fss)))"

lemma holds_content: "list_all2 holds fs fss \<Longrightarrow> map df_content fs = map octets_of fss"
  by (induction rule: list_all2_induct) (simp_all add: holds_def)

lemma spool_state_spooled:
  assumes "spool_state cap pre fss d"
  shows "spooled d = map df_content pre @ map octets_of fss"
proof (cases "fs_sfw d")
  case None
  with assms show ?thesis
    by (simp add: spool_state_def spooled_def)
next
  case (Some w)
  with assms obtain fs where "fss \<noteq> []" and c: "fs_disk d = pre @ fs" "list_all2 holds fs (butlast fss)"
    and "sp_octets w = octets_of (last fss)"
    by (auto simp: spool_state_def sp_fits_def)
  moreover from \<open>fss \<noteq> []\<close> have "map octets_of fss = map octets_of (butlast fss) @ [octets_of (last fss)]"
    by (metis append_butlast_last_id list.simps(8,9) map_append)
  ultimately show ?thesis
    using Some holds_content[OF c(2)] by (simp add: spooled_def)
qed

lemma fits_write:
  assumes "spoolfile_write r w = (Inr b, w')" and "sp_fits w fs cap" and "record_small r"
    and "unat cap < 2 ^ 63"
  shows "if b then sp_fits w' (fs @ [r]) cap \<and> file_fits cap (fs @ [r]) else w' = w"
proof -
  let ?n = "length (record_octets r)" and ?m = "length (octets_of fs)"
  note small = record_small_octets[OF assms(3)]
  have wf: "sp_wf w"
    using assms(2) by (simp add: sp_fits_def)
  from assms(1) wf show ?thesis
  proof (cases rule: spoolfile_write_cases)
    case (written n)
    have n: "n = of_nat ?n"
      using written(2) small(2) by simp
    have bounds: "?m < 2 ^ 63" "?n < 2 ^ 32" "\<not> cap < of_nat (?m + ?n)"
      using written(4) assms(2) small(3) by (auto simp: sp_fits_def n)
    then have "unat (of_nat (?m + ?n) :: u64) = ?m + ?n"
      by (intro unat_of_nat_64) simp
    with bounds(3) have "?m + ?n \<le> unat cap"
      by (simp add: word_less_nat_alt del: of_nat_add)
    with written assms(2,4) n show ?thesis
      by (simp add: sp_fits_def file_fits_def)
  qed simp
qed

lemma state_write:
  assumes "with_sfw (spoolfile_write r) d = (Inr b, d')" and "spool_state cap pre fss d" and "record_small r"
  shows "if b then spool_state cap pre (butlast fss @ [last fss @ [r]]) d' \<and> fss \<noteq> [] else d' = d"
proof -
  from assms(1) obtain w w' where w: "fs_sfw d = Some w" and w': "spoolfile_write r w = (Inr b, w')"
    and d': "d' = d\<lparr>fs_sfw := Some w'\<rparr>"
    by (auto simp: with_sfw_def split: option.splits prod.splits)
  from assms(2) w have fits: "sp_fits w (last fss) cap" and cap: "unat cap < 2 ^ 63"
    by (simp_all add: spool_state_def)
  from fits_write[OF w' fits assms(3) cap] show ?thesis
    using assms(2) w d' by (auto simp: spool_state_def dest: in_set_butlastD)
qed

lemma destroy_holds:
  assumes "sp_fits w rs cap" and "sp_flushed w"
  shows "holds (spoolfile_destroy w) rs"
proof -
  have wf: "sp_wf w" and rs: "sp_octets w = octets_of rs"
    using assms(1) by (simp_all add: sp_fits_def)
  have "length (sp_octets w) \<le> sp_synced w + 64"
    using wf assms(2) by (simp add: sp_wf_def sp_flushed_def sp_octets_def spool_sink.writer_ok_def)
  with destroy_content[OF wf] rs show ?thesis
    by (simp add: holds_def spoolfile_destroy_def)
qed

lemma state_replace:
  assumes "replace_sfw p d = (Inr (), d')" and "spool_state cap pre fss d"
    and "\<And>w. fs_sfw d = Some w \<Longrightarrow> sp_flushed w"
  shows "\<exists>w fs. fs_sfw d' = Some w \<and> sp_octets w = [] \<and> sp_wf w \<and> sp_first w \<and> sp_capacity w = cap
    \<and> sp_size w = 0 \<and> fs_disk d' = pre @ fs \<and> list_all2 holds fs fss \<and> fs_filesize d' = cap
    \<and> list_all (list_all count_answer) (fs_kernel d')"
proof -
  from assms(1,2) obtain w where new: "spoolfile_create (fs_files d)
      (if fs_kernel d = [] then [] else hd (fs_kernel d)) p cap = Inr w"
    and d': "d' = d\<lparr>fs_sfw := Some w, fs_kernel := tl (fs_kernel d),
      fs_disk := fs_disk d @ (case fs_sfw d of None \<Rightarrow> [] | Some s \<Rightarrow> [spoolfile_destroy s])\<rparr>"
    by (auto simp: replace_sfw_def spool_state_def split: sum.splits)
  have k: "list_all (list_all count_answer) (fs_kernel d)"
    using assms(2) by (simp add: spool_state_def)
  have w: "sp_octets w = [] \<and> sp_wf w \<and> sp_first w \<and> sp_capacity w = cap \<and> sp_size w = 0"
    using new k by (cases "fs_kernel d")
      (auto simp: spoolfile_create_def sp_octets_def sp_wf_def spool_sink.writer_ok_def counting_file_def split: if_splits)
  have "\<exists>fs. fs_disk d' = pre @ fs \<and> list_all2 holds fs fss"
  proof (cases "fs_sfw d")
    case None
    with assms(2) show ?thesis
      by (simp add: spool_state_def d')
  next
    case (Some v)
    with assms(2) obtain fs where "fss \<noteq> []" "sp_fits v (last fss) cap" "fs_disk d = pre @ fs"
      "list_all2 holds fs (butlast fss)"
      by (auto simp: spool_state_def)
    moreover from this(2) assms(3)[OF Some] have "holds (spoolfile_destroy v) (last fss)"
      by (rule destroy_holds)
    ultimately have "list_all2 holds (fs @ [spoolfile_destroy v]) (butlast fss @ [last fss])"
      by (intro list_all2_appendI) simp_all
    with \<open>fss \<noteq> []\<close> \<open>fs_disk d = pre @ fs\<close> Some show ?thesis
      by (simp add: d')
  qed
  moreover have "list_all (list_all count_answer) (fs_kernel d')"
    using k by (cases "fs_kernel d") (simp_all add: d')
  ultimately show ?thesis
    using w assms(2) by (auto simp: d' spool_state_def)
qed

lemma state_congs:
  "spool_state cap pre fss (d\<lparr>fs_next_filenum := n\<rparr>) = spool_state cap pre fss d"
  "spool_state cap pre fss (d\<lparr>fs_writable := b\<rparr>) = spool_state cap pre fss d"
  "spool_state cap pre fss (d\<lparr>fs_space := bs\<rparr>) = spool_state cap pre fss d"
  "spool_state cap pre fss (d\<lparr>fs_fsyncs := os\<rparr>) = spool_state cap pre fss d"
  by (auto simp: spool_state_def split: option.splits)

lemma next_fsync_cases:
  "next_fsync d = (x, d') \<Longrightarrow> \<exists>os. d' = d\<lparr>fs_fsyncs := os\<rparr>"
  by (auto simp: next_fsync_def split: list.splits intro: exI[of _ "fs_fsyncs d"])

lemma sync_sfw_Inr:
  assumes "sync_sfw d = (Inr (), d')"
  shows "\<exists>x w w' os. fs_sfw d = Some w \<and> spoolfile_sync x w = (Inr (), w')
    \<and> d' = d\<lparr>fs_fsyncs := os, fs_sfw := Some w'\<rparr>"
proof -
  from assms obtain x d1 where d1: "next_fsync d = (Inr x, d1)" and w: "with_sfw (spoolfile_sync x) d1 = (Inr (), d')"
    by (auto simp: sync_sfw_def act_Inr)
  from next_fsync_cases[OF d1] w show ?thesis
    by (auto simp: with_sfw_def split: option.splits prod.splits)
qed

lemma state_sync:
  assumes "sync_sfw d = (Inr (), d')" and "spool_state cap pre fss d"
  shows "spool_state cap pre fss d'" and "\<And>w. fs_sfw d' = Some w \<Longrightarrow> sp_flushed w"
proof -
  from sync_sfw_Inr[OF assms(1)] obtain x w w' os where w: "fs_sfw d = Some w"
    and w': "spoolfile_sync x w = (Inr (), w')" and d': "d' = d\<lparr>fs_fsyncs := os, fs_sfw := Some w'\<rparr>"
    by blast
  show "spool_state cap pre fss d'"
    using assms(2) w sync_octets[OF w'] by (simp add: spool_state_def sp_fits_def d')
  show "\<And>w. fs_sfw d' = Some w \<Longrightarrow> sp_flushed w"
    using sync_octets(3)[OF w'] by (simp add: d')
qed

lemma state_begin:
  assumes "begin_spoolfile r d = (Inr (), d')" and "spool_state cap pre fss d" and "record_small r"
  shows "spool_state cap pre (fss @ [[r]]) d'"
proof -
  from assms(1) obtain d0 p d1 d2 d3 x d4 d5 b where
    d0: "(if fs_sfw d \<noteq> None then sync_sfw d else (Inr (), d)) = (Inr (), d0)"
    and d1: "next_pathname d0 = (Inr p, d1)"
    and d2: "replace_sfw p d1 = (Inr (), d2)"
    and d3: "with_sfw (spoolfile_write r) d2 = (Inr True, d3)"
    and d4: "next_fsync d3 = (Inr x, d4)"
    and d5: "endpoint_writable d4 = (Inr b, d5)" and d': "d' = d5\<lparr>fs_writable := b\<rparr>"
    by (auto simp: begin_spoolfile_def act_Inr returnS_def split: if_splits)
  have "spool_state cap pre fss d0 \<and> (\<forall>w. fs_sfw d0 = Some w \<longrightarrow> sp_flushed w)"
    using d0 assms(2) state_sync by (auto split: if_splits)
  then have "spool_state cap pre fss d1" "\<And>w. fs_sfw d1 = Some w \<Longrightarrow> sp_flushed w"
    using d1 by (auto simp: next_pathname_def act_Inr state_congs split: if_splits)
  from state_replace[OF d2 this] obtain w fs where w: "fs_sfw d2 = Some w" "sp_octets w = []" "sp_wf w"
    "sp_first w" "sp_capacity w = cap" "sp_size w = 0" "fs_filesize d2 = cap"
    and disk: "fs_disk d2 = pre @ fs" "list_all2 holds fs fss"
    and k: "list_all (list_all count_answer) (fs_kernel d2)"
    by blast
  from d3 w(1) obtain w' where w': "spoolfile_write r w = (Inr True, w')"
    and d3': "d3 = d2\<lparr>fs_sfw := Some w'\<rparr>"
    by (auto simp: with_sfw_def split: prod.splits)
  note small = record_small_octets[OF assms(3)]
  from w' w(3) have "sp_fits w' [r] cap"
    by (cases rule: spoolfile_write_cases) (use w small in \<open>auto simp: sp_fits_def\<close>)
  with d3' disk w(7) k assms(2) have "spool_state cap pre (fss @ [[r]]) d3"
    by (simp add: spool_state_def file_fits_def)
  then show ?thesis
    using d5 next_fsync_cases[OF d4] by (auto simp: d' endpoint_writable_def state_congs split: list.splits)
qed

lemma state_spool:
  assumes "spool_record r s = (Inr (), s')" and "spool_state cap pre fss (sub s)" and "record_small r"
    and "\<And>sr. srec s = Some sr \<Longrightarrow> record_small sr"
  shows "same_base s s'" and "(fss \<noteq> [] \<and> spool_state cap pre (butlast fss @ [last fss @ [r]]) (sub s'))
    \<or> (\<exists>sr. srec s = Some sr \<and> spool_state cap pre (fss @ [[sr, r]]) (sub s'))"
proof -
  have "same_base s s' \<and> ((fss \<noteq> [] \<and> spool_state cap pre (butlast fss @ [last fss @ [r]]) (sub s'))
    \<or> (\<exists>sr. srec s = Some sr \<and> spool_state cap pre (fss @ [[sr, r]]) (sub s')))"
  proof (cases "fs_sfw (sub s) \<noteq> None \<and> fst (on_sub (with_sfw (spoolfile_write r)) s) = Inr True")
    case True
    then have "with_sfw (spoolfile_write r) (sub s) = (Inr True, sub s')" "same_base s s'"
      using assms(1) by (auto simp: spool_record_def act_simps on_sub_def same_base_def split: prod.splits)
    with state_write[OF _ assms(2,3)] show ?thesis
      by fastforce
  next
    case False
    from assms(1) obtain s1 written where s1: "(if fs_sfw (sub s) \<noteq> None
        then on_sub (with_sfw (spoolfile_write r)) else returnS False) s = (Inr written, s1)"
      and rest: "(if written then returnS True
            else bindS session_record (\<lambda>sr.
              seqS (on_sub (begin_spoolfile sr)) (on_sub (with_sfw (spoolfile_write r))))) s1 = (Inr True, s')"
      by (auto simp: spool_record_def act_Inr split: if_splits)
    have nw: "\<not> written" "sub s1 = sub s" "same_base s s1"
      using s1 False state_write[OF _ assms(2,3), of False]
      by (auto simp: returnS_def on_sub_def same_base_def split: if_splits prod.splits)
    with rest obtain sr s2 where sr: "srec s = Some sr" and s2: "on_sub (begin_spoolfile sr) s1 = (Inr (), s2)"
      and s': "on_sub (with_sfw (spoolfile_write r)) s2 = (Inr True, s')"
      by (auto simp: act_Inr session_record_def same_base_def split: option.splits)
    from s2 nw have b: "begin_spoolfile sr (sub s) = (Inr (), sub s2)" "same_base s s2"
      by (auto simp: on_sub_def same_base_def split: prod.splits)
    have st: "spool_state cap pre (fss @ [[sr]]) (sub s2)"
      by (rule state_begin[OF b(1) assms(2) assms(4)[OF sr]])
    from s' b(2) have w: "with_sfw (spoolfile_write r) (sub s2) = (Inr True, sub s')" "same_base s s'"
      by (auto simp: on_sub_def same_base_def split: prod.splits)
    from state_write[OF w(1) st assms(3)] sr w(2) show ?thesis
      by simp
  qed
  then show "same_base s s'" and "(fss \<noteq> [] \<and> spool_state cap pre (butlast fss @ [last fss @ [r]]) (sub s'))
    \<or> (\<exists>sr. srec s = Some sr \<and> spool_state cap pre (fss @ [[sr, r]]) (sub s'))"
    by blast+
qed

lemma spool_record_base: "spool_record r s = (Inr (), s') \<Longrightarrow> same_base s s'"
  by (auto simp: spool_record_def act_Inr session_record_def same_base_def split: if_splits option.splits
      dest!: on_sub_base)

interpretation file_writer: passive_handlers file_handlers
  by unfold_locales (auto simp: file_handlers_def no_action_def returnS_def spool_record_base
      dest: on_sub_base)

section \<open>Every accepted record is in the spoolfiles\<close>

definition is_body :: "hrecord \<Rightarrow> bool" where
  "is_body r \<longleftrightarrow> rec_channel r = channel_end \<or> rec_channel r = channel_signature \<or> is_event r"

definition starts_session :: "hrecord list \<Rightarrow> bool" where
  "starts_session rs \<longleftrightarrow> (\<exists>r rs'. rs = r # rs' \<and> rec_channel r = channel_session)"

definition writer_inv ::
  "u64 \<Rightarrow> disk_file list \<Rightarrow> hrecord list list \<Rightarrow> file_session session_writer \<Rightarrow> bool" where
  "writer_inv cap pre fss s \<longleftrightarrow> spool_state cap pre fss (sub s)
     \<and> foldl progress_step progress_init (concat fss) = progress_of s
     \<and> (\<forall>f \<in> set fss. starts_session f)
     \<and> (\<forall>r. srec s = Some r \<longrightarrow> record_small r \<and> rec_channel r = channel_session)"

lemma body_channels:
  "is_body r \<Longrightarrow> rec_channel r \<noteq> channel_session"
  "rec_channel r = channel_session \<Longrightarrow> \<not> is_body r"
  "rec_channel r = channel_sync \<Longrightarrow> \<not> is_body r"
  by (auto simp: is_body_def is_event_def channel_constants)

lemma concat_snoc_last: "fss \<noteq> [] \<Longrightarrow> concat (butlast fss @ [last fss @ xs]) = concat fss @ xs"
  using append_butlast_last_id[of fss] by (metis append.right_neutral append_assoc concat.simps concat_append)

lemma progress_session_again:
  "in_force p = Some r \<Longrightarrow> rec_channel r = channel_session \<Longrightarrow> progress_step p r = p"
  by (simp add: progress_step_def)

lemma starts_session_last: "fss \<noteq> [] \<Longrightarrow> \<forall>f \<in> set fss. starts_session f \<Longrightarrow>
  \<forall>f \<in> set (butlast fss @ [last fss @ xs]). starts_session f"
  by (auto simp: starts_session_def dest: in_set_butlastD) (metis append_Cons last_in_set)

lemma spool_step:
  assumes "spool_record r s = (Inr (), s')" and "writer_inv cap pre fss s" and "record_small r"
    and "is_body r"
  shows "\<exists>fss'. spool_state cap pre fss' (sub s') \<and> same_base s s'
    \<and> foldl progress_step progress_init (concat fss') = progress_step (progress_of s) r
    \<and> (\<forall>f \<in> set fss'. starts_session f) \<and> filter is_body (concat fss') = filter is_body (concat fss) @ [r]"
proof -
  from assms(2) have st: "spool_state cap pre fss (sub s)"
    and pr: "foldl progress_step progress_init (concat fss) = progress_of s"
    and ss: "\<forall>f \<in> set fss. starts_session f"
    and sr: "\<And>sr. srec s = Some sr \<Longrightarrow> record_small sr \<and> rec_channel sr = channel_session"
    by (auto simp: writer_inv_def)
  note sp = state_spool[OF assms(1) st assms(3)]
  consider "fss \<noteq> []" "spool_state cap pre (butlast fss @ [last fss @ [r]]) (sub s')"
    | q where "srec s = Some q" "spool_state cap pre (fss @ [[q, r]]) (sub s')"
    using sp(2) sr by blast
  then show ?thesis
  proof cases
    case 1
    have "concat (butlast fss @ [last fss @ [r]]) = concat fss @ [r]"
      by (rule concat_snoc_last[OF 1(1)])
    with 1(2) show ?thesis
      using spool_record_base[OF assms(1)] pr assms(4) starts_session_last[OF 1(1) ss, of "[r]"]
      by (intro exI[of _ "butlast fss @ [last fss @ [r]]"]) (simp del: concat_append)
  next
    case 2
    then have q: "rec_channel q = channel_session" "in_force (progress_of s) = Some q"
      using sr by (auto simp: progress_of_def)
    with 2 show ?thesis
      using spool_record_base[OF assms(1)] sr pr ss assms(4)
      by (intro exI[of _ "fss @ [[q, r]]"])
        (auto simp: progress_session_again starts_session_def body_channels)
  qed
qed

lemma writer_step:
  assumes "write_record file_handlers r s = (Inr (), s')" and "writer_inv cap pre fss s"
    and "record_small r"
  shows "\<exists>fss'. writer_inv cap pre fss' s'
    \<and> filter is_body (concat fss') = filter is_body (concat fss) @ filter is_body [r]"
proof -
  note prog = conjunct1[OF file_writer.write_progress[OF assms(1)]]
  from assms(2) have st: "spool_state cap pre fss (sub s)"
    and pr: "foldl progress_step progress_init (concat fss) = progress_of s"
    and ss: "\<forall>f \<in> set fss. starts_session f"
    and sr: "\<forall>q. srec s = Some q \<longrightarrow> record_small q \<and> rec_channel q = channel_session"
    by (auto simp: writer_inv_def)
  have keep: "\<forall>q. srec s' = Some q \<longrightarrow> record_small q \<and> rec_channel q = channel_session"
  proof -
    have "srec s' = in_force (progress_of s')"
      by (simp add: progress_of_def)
    also have "\<dots> = in_force (progress_step (progress_of s) r)"
      by (simp only: prog)
    finally have "srec s' = in_force (progress_step (progress_of s) r)" .
    then show ?thesis
      using sr assms(3) by (auto simp: progress_step_def progress_of_def split: if_splits sum.splits)
  qed
  have unchanged: ?thesis if "spool_state cap pre fss (sub s')" "progress_of s' = progress_of s" "\<not> is_body r"
    using that pr ss keep by (intro exI[of _ fss]) (simp add: writer_inv_def)
  consider (session) "rec_channel r = channel_session" | (end_rec) "rec_channel r = channel_end"
    | (sync) "rec_channel r = channel_sync" | (sig) "rec_channel r = channel_signature"
    | (event) "is_event r" "rec_channel r \<notin> {channel_session, channel_end, channel_sync, channel_signature}"
    | (control) "\<not> is_event r" "rec_channel r \<notin> {channel_session, channel_end, channel_sync, channel_signature}"
    by blast
  then show ?thesis
  proof cases
    case session
    show ?thesis
    proof (cases "in_force (progress_of s) = Some r")
      case True
      then have "srec s = Some r"
        by (simp add: progress_of_def)
      then have "s' = s"
        using assms(1) session same_ts_same[of r]
        by (auto simp: write_record_def act_Inr process_session_record_def split: if_splits)
      with st session show ?thesis
        by (intro unchanged) (simp_all add: body_channels)
    next
      case False
      have "begin_spoolfile r (sub s) = (Inr (), sub s')"
        using assms(1) session False
        by (auto simp: write_record_def act_Inr process_session_record_def file_handlers_def
            record_eq_iff progress_of_def split: if_splits option.splits dest!: on_sub_base)
      from state_begin[OF this st assms(3)] show ?thesis
        using keep pr ss session prog
        by (intro exI[of _ "fss @ [[r]]"])
          (auto simp: writer_inv_def starts_session_def body_channels)
    qed
  next
    case end_rec
    then have b: "is_body r"
      by (simp add: is_body_def)
    from assms(1) end_rec obtain s1 where s1: "spool_record r s = (Inr (), s1)" "s' = s1\<lparr>ended := True\<rparr>"
      by (auto simp: write_record_def act_Inr process_end_record_def channel_constants file_handlers_def)
    from spool_step[OF s1(1) assms(2,3) b] show ?thesis
      using b keep s1(2) prog by (auto simp: writer_inv_def)
  next
    case sync
    then have nb: "\<not> is_body r"
      by (rule body_channels)
    from assms(1) sync obtain s1 rep where s1: "on_sub sync_sfw s = (Inr (), s1)"
      and s': "s' = s1\<lparr>reply := Some rep\<rparr>"
      by (auto simp: write_record_def act_Inr process_sync_record_def channel_constants file_handlers_def)
    from on_sub_base[OF s1] have s1': "same_base s s1"
      and u: "sync_sfw (sub s) = (Inr (), sub s1)"
      by simp_all
    from state_sync(1)[OF u st] show ?thesis
      using s1' s' nb by (intro unchanged) (simp_all add: progress_of_def same_base_def)
  next
    case sig
    then have b: "is_body r"
      by (simp add: is_body_def)
    from assms(1) sig have "spool_record r s = (Inr (), s')"
      by (auto simp: write_record_def act_Inr channel_constants file_handlers_def)
    from spool_step[OF this assms(2,3) b] show ?thesis
      using b keep prog by (auto simp: writer_inv_def)
  next
    case event
    then have b: "is_body r"
      by (simp add: is_body_def)
    from assms(1) event obtain s1 n where s1: "spool_record r s = (Inr (), s1)" "s' = s1\<lparr>seqnum := n\<rparr>"
      by (auto simp: write_record_def act_Inr file_handlers_def)
    from spool_step[OF s1(1) assms(2,3) b] show ?thesis
      using b keep s1(2) prog by (auto simp: writer_inv_def)
  next
    case control
    then have "\<not> is_body r"
      by (simp add: is_body_def)
    moreover have "s' = s"
      using assms(1) control by (auto simp: write_record_def act_Inr file_handlers_def no_action_def)
    ultimately show ?thesis
      using st by (intro unchanged) simp_all
  qed
qed

lemma writer_steps:
  "write_records file_handlers rs s = (Inr (), s') \<Longrightarrow> writer_inv cap pre fss s \<Longrightarrow>
     list_all record_small rs \<Longrightarrow>
     \<exists>fss'. writer_inv cap pre fss' s'
       \<and> filter is_body (concat fss') = filter is_body (concat fss) @ filter is_body rs"
proof (induction rs arbitrary: s fss)
  case Nil
  then show ?case
    by (auto simp: returnS_def)
next
  case (Cons r rs)
  then obtain s1 where s1: "write_record file_handlers r s = (Inr (), s1)"
    and rs: "write_records file_handlers rs s1 = (Inr (), s')"
    by (auto simp: act_Inr)
  from writer_step[OF s1 Cons.prems(2)] Cons.prems(3) obtain fss1 where
    "writer_inv cap pre fss1 s1"
    "filter is_body (concat fss1) = filter is_body (concat fss) @ filter is_body [r]"
    by auto
  with Cons.IH[OF rs this(1)] Cons.prems(3) show ?case
    by auto
qed

section \<open>A new spoolfile never meets an old one\<close>

definition names_below :: "file_session \<Rightarrow> bool" where
  "names_below d \<longleftrightarrow> (\<forall>p \<in> set (fs_files d). \<exists>f. p = fs_pathname d @ ''/'' @ f
     \<and> (f = [] \<or> hd f = CHR ''.'' \<or> (list_all is_digit f \<and> dec_val f < unat (fs_next_filenum d))))"

lemma made_name:
  "list_all is_digit (sf_filename (spoolfile_make n w))" "dec_val (sf_filename (spoolfile_make n w)) = n"
  "sf_filename (spoolfile_make n w) \<noteq> []" "hd (sf_filename (spoolfile_make n w)) \<noteq> CHR ''.''"
proof -
  show dig: "list_all is_digit (sf_filename (spoolfile_make n w))" "dec_val (sf_filename (spoolfile_make n w)) = n"
    "sf_filename (spoolfile_make n w) \<noteq> []"
    by (simp_all add: spoolfile_make_def pad_left_dec)
  from dig(1,3) show "hd (sf_filename (spoolfile_make n w)) \<noteq> CHR ''.''"
    by (cases "sf_filename (spoolfile_make n w)") (auto simp: is_digit_def)
qed

lemma open_names_below:
  assumes "file_session_open path cap space writes fsyncs names disk = Inr d"
    and "map df_pathname disk = map (\<lambda>f. path @ ''/'' @ f) names" and "\<forall>f \<in> set names. length f < UINT_MAX"
  shows "names_below d"
proof -
  from assms(1) obtain r where r: "filestore_scan names = Inr r"
    and d: "fs_pathname d = path" "fs_next_filenum d = of_nat (next_filenum r)"
      "fs_files d = map df_pathname disk"
    by (auto simp: file_session_open_def fs_files_def)
  have "f = [] \<or> hd f = CHR ''.'' \<or> (list_all is_digit f \<and> dec_val f < next_filenum r \<and> next_filenum r < 2 ^ 64)"
    if "f \<in> set names" for f
  proof (cases "f \<in> set (visible names)")
    case True
    with r assms(3) have "numbered f" and n: "next_filenum r = Max (dec_val ` set (visible names)) + 1"
      and c: "\<forall>g \<in> set (visible names). numbered g"
      by (auto simp: filestore_scan_eq consistent_def)
    have "Max (dec_val ` set (visible names)) \<in> dec_val ` set (visible names)"
      using True by (intro Max_in) auto
    with c n have "next_filenum r < 2 ^ 64"
      by (auto simp: numbered_def ULONG_MAX_def)
    moreover have "dec_val f < next_filenum r"
      using True n by (simp add: less_Suc_eq_le)
    ultimately show ?thesis
      using \<open>numbered f\<close> by (simp add: numbered_def)
  qed (use that in \<open>auto simp: visible_def\<close>)
  then show ?thesis
    unfolding names_below_def d assms(2) by (fastforce simp: unat_of_nat_64)
qed

lemma create_fresh:
  assumes "next_pathname d = (Inr p, d1)" and "names_below d"
  shows "p \<notin> set (fs_files d1)" and "\<exists>d2. replace_sfw p d1 = (Inr (), d2) \<and> names_below d2"
proof -
  let ?f = "sf_filename (spoolfile_make (unat (fs_next_filenum d)) (fs_minwidth d))"
  from assms(1) have p: "p = fs_pathname d @ ''/'' @ ?f" and no: "fs_next_filenum d + 1 \<noteq> 0"
    and d1: "d1 = d\<lparr>fs_next_filenum := fs_next_filenum d + 1\<rparr>"
    by (auto simp: next_pathname_def act_Inr split: if_splits)
  have files: "fs_files d1 = fs_files d"
    by (simp add: d1 fs_files_def split: option.split)
  show fresh: "p \<notin> set (fs_files d1)"
    using assms(2) made_name(2-4)[of "unat (fs_next_filenum d)" "fs_minwidth d"]
    by (auto simp: names_below_def p files)
  have up: "unat (fs_next_filenum d + 1) = unat (fs_next_filenum d) + 1"
    using no by unat_arith
  from fresh obtain w where w: "spoolfile_create (fs_files d1)
      (if fs_kernel d1 = [] then [] else hd (fs_kernel d1)) p (fs_filesize d1) = Inr w" "sp_pathname w = p"
    by (simp add: spoolfile_create_def)
  then obtain d2 where d2: "replace_sfw p d1 = (Inr (), d2)"
    and same: "fs_pathname d2 = fs_pathname d1" "fs_next_filenum d2 = fs_next_filenum d1"
    and files2: "fs_files d2 = fs_files d1 @ [p]"
    by (auto simp: replace_sfw_def fs_files_def spoolfile_destroy_def split: option.splits)
  have "names_below d2"
    unfolding names_below_def files2 files same
    using assms(2) up made_name(1-2)[of "unat (fs_next_filenum d)" "fs_minwidth d"]
    by (fastforce simp: names_below_def d1 p)
  with d2 show "\<exists>d2. replace_sfw p d1 = (Inr (), d2) \<and> names_below d2"
    by blast
qed

lemma writer_files:
  assumes "write_records file_handlers rs (session_writer_init name d) = (Inr (), s')"
    and "fs_sfw d = None" and "unat (fs_filesize d) < 2 ^ 63" and "list_all record_small rs"
    and "list_all (list_all count_answer) (fs_kernel d)"
  obtains fss where "writer_inv (fs_filesize d) (fs_disk d) fss s'"
    and "spooled (sub s') = map df_content (fs_disk d) @ map octets_of fss"
    and "filter is_body (concat fss) = filter is_body rs"
    and "foldl progress_step progress_init (concat fss) = foldl progress_step progress_init rs"
    and "\<forall>f \<in> set fss. starts_session f \<and> file_fits (fs_filesize d) f"
proof -
  let ?s = "session_writer_init name d"
  have "writer_inv (fs_filesize d) (fs_disk d) [] ?s"
    using assms(2,3,5) by (simp add: writer_inv_def spool_state_def session_writer_init_def
        progress_init_def progress_of_def)
  from writer_steps[OF assms(1) this assms(4)] obtain fss where
    inv: "writer_inv (fs_filesize d) (fs_disk d) fss s'"
    and body: "filter is_body (concat fss) = filter is_body rs"
    by auto
  have "progress_of s' = foldl progress_step progress_init rs"
    using file_writer.write_records_progress[OF assms(1)]
    by (simp add: session_writer_init_def progress_of_def progress_init_def)
  with inv body spool_state_spooled[of "fs_filesize d" _ fss "sub s'"] show ?thesis
    by (intro that[of fss]) (auto simp: writer_inv_def spool_state_def)
qed

lemma record_in_file: "r \<in> set rs \<Longrightarrow> length (record_octets r) \<le> length (octets_of rs)"
  by (induction rs) auto

lemma writer_inv_sync:
  assumes "write_record file_handlers c s = (Inr (), s')" and "rec_channel c = channel_sync"
  shows "\<exists>w. fs_sfw (sub s') = Some w \<and> sp_flushed w"
proof -
  from assms obtain s1 rep where s1: "on_sub sync_sfw s = (Inr (), s1)" and s': "s' = s1\<lparr>reply := Some rep\<rparr>"
    by (auto simp: write_record_def act_Inr process_sync_record_def channel_constants file_handlers_def)
  from on_sub_base[OF s1] have "sync_sfw (sub s) = (Inr (), sub s1)"
    by blast
  from sync_sfw_Inr[OF this] sync_octets(3) s' show ?thesis
    by fastforce
qed

text \<open>
  \<open>durable_part xs rs\<close>: \<open>xs\<close> is the encoding of the records \<open>rs\<close> but for at most its last 64 octets.
\<close>

definition durable_part :: "octets \<Rightarrow> hrecord list \<Rightarrow> bool" where
  "durable_part xs rs \<longleftrightarrow> (\<exists>tail. octets_of rs = xs @ tail \<and> length tail \<le> 64)"

lemma holds_durable: "holds f rs \<Longrightarrow> durable_part (take (df_synced f) (df_content f)) rs"
  unfolding durable_part_def holds_def
  by (intro exI[of _ "drop (df_synced f) (df_content f)"]) auto

lemma state_durable:
  assumes "spool_state cap pre fss d" and "fs_sfw d = Some w" and "sp_flushed w"
  shows "\<exists>ds. durable d = map (\<lambda>f. take (df_synced f) (df_content f)) pre @ ds \<and> list_all2 durable_part ds fss"
proof -
  from assms(1,2) obtain fs where "fss \<noteq> []" and fits: "sp_fits w (last fss) cap"
    and fs: "fs_disk d = pre @ fs" "list_all2 holds fs (butlast fss)"
    by (auto simp: spool_state_def)
  let ?d = "take (sp_synced w) (kf_content (sink (sp_ow w)))"
  have "durable_part ?d (last fss)"
    using fits assms(3) unfolding durable_part_def
    by (intro exI[of _ "wbuf (sp_ow w)"])
      (auto simp: sp_fits_def sp_wf_def sp_flushed_def sp_octets_def spool_sink.writer_ok_def)
  moreover have "list_all2 durable_part (map (\<lambda>f. take (df_synced f) (df_content f)) fs) (butlast fss)"
    using fs(2) by (simp add: list.rel_map) (erule list.rel_mono_strong, rule holds_durable)
  ultimately have "list_all2 durable_part (map (\<lambda>f. take (df_synced f) (df_content f)) fs @ [?d])
      (butlast fss @ [last fss])"
    by (intro list_all2_appendI) simp_all
  with \<open>fss \<noteq> []\<close> fs(1) assms(2) show ?thesis
    by (simp add: durable_def)
qed

section \<open>Properties\<close>

text \<open>
  C2: every record that a filestore writer accepts is in its spoolfiles. The spoolfiles created
  since the writer was opened hold, in order, exactly the end, signature and event records
  accepted, each file opening with the session record in force, so that reading them in order
  makes the same progress as the records given to the writer; and no file with a second record
  is longer than the capacity. The kernel may take any part of each write, and \<^verbatim>\<open>fsync\<close> may fail; no
  write fails. (The failure of a write would be an exception, but for the write of what is in the buffer of a
  full spoolfile: there it is only reported, and the end of the file is lost.)
\<close>

theorem spool_complete:
  assumes "write_records file_handlers rs (session_writer_init name d) = (Inr (), s')"
    and "fs_sfw d = None" and "unat (fs_filesize d) < 2 ^ 63" and "list_all record_small rs"
    and "list_all (list_all count_answer) (fs_kernel d)"
  shows "\<exists>fss. spooled (sub s') = map df_content (fs_disk d) @ map octets_of fss
    \<and> filter is_body (concat fss) = filter is_body rs
    \<and> foldl progress_step progress_init (concat fss) = foldl progress_step progress_init rs
    \<and> (\<forall>f \<in> set fss. starts_session f \<and> file_fits (fs_filesize d) f)"
  using writer_files[OF assms] by metis

text \<open>
  An event, end or signature record longer than the capacity of a spoolfile is never
  accepted, not even as the first record after the session record of a new spoolfile.
\<close>

lemma spool_oversize:
  assumes "fs_sfw d = None" and "unat (fs_filesize d) < 2 ^ 63" and "list_all record_small rs"
    and "list_all (list_all count_answer) (fs_kernel d)"
    and "r \<in> set rs" and "is_body r" and "unat (fs_filesize d) < length (record_octets r)"
  shows "fst (write_records file_handlers rs (session_writer_init name d)) \<noteq> Inr ()"
proof
  assume "fst (write_records file_handlers rs (session_writer_init name d)) = Inr ()"
  then obtain s' where "write_records file_handlers rs (session_writer_init name d) = (Inr (), s')"
    by (metis prod.collapse)
  from writer_files[OF this assms(1-4)] obtain fss where
    "filter is_body (concat fss) = filter is_body rs"
    "\<forall>f \<in> set fss. starts_session f \<and> file_fits (fs_filesize d) f"
    by metis
  moreover from this(1) assms(5,6) have "r \<in> set (concat fss)"
    by (metis (mono_tags, lifting) filter_set mem_Collect_eq set_filter)
  ultimately obtain f where f: "r \<in> set f" "starts_session f" "file_fits (fs_filesize d) f"
    by auto
  then have "2 \<le> length f"
    using assms(6) by (auto simp: starts_session_def body_channels Suc_le_eq)
  with f record_in_file[OF f(1)] assms(7) show False
    by (simp add: file_fits_def)
qed

text \<open>
  C19: what is durable when a sync record has been answered. For every spoolfile created since the writer was
  opened, the one in use and those before it, all but at most the last 64 octets of the records accepted for it
  are durable. That is what the code guarantees and not more: the buffer is not flushed before
  \<^verbatim>\<open>fsync\<close>, neither for the reply nor when a spoolfile is full, so that a session whose records fit into the
  buffer is acknowledged with nothing on disk (as in the example below). No write fails; a sync
  record is not answered if \<^verbatim>\<open>fsync\<close> fails.
\<close>

theorem spool_sync_durability:
  assumes "write_records file_handlers (rs @ [c]) (session_writer_init name d) = (Inr (), s')"
    and "rec_channel c = channel_sync" and "fs_sfw d = None" and "unat (fs_filesize d) < 2 ^ 63"
    and "list_all record_small (rs @ [c])" and "list_all (list_all count_answer) (fs_kernel d)"
  shows "\<exists>fss ds. spooled (sub s') = map df_content (fs_disk d) @ map octets_of fss
    \<and> filter is_body (concat fss) = filter is_body rs
    \<and> durable (sub s') = map (\<lambda>f. take (df_synced f) (df_content f)) (fs_disk d) @ ds
    \<and> list_all2 durable_part ds fss"
proof -
  from assms(1) obtain s1 where "write_record file_handlers c s1 = (Inr (), s')"
    by (auto simp: write_records_append act_Inr)
  from writer_inv_sync[OF this assms(2)] obtain w where w: "fs_sfw (sub s') = Some w" "sp_flushed w"
    by blast
  from writer_files[OF assms(1,3-6)] obtain fss where inv: "writer_inv (fs_filesize d) (fs_disk d) fss s'"
    and fss: "spooled (sub s') = map df_content (fs_disk d) @ map octets_of fss"
      "filter is_body (concat fss) = filter is_body (rs @ [c])"
    by metis
  have "spool_state (fs_filesize d) (fs_disk d) fss (sub s')"
    using inv by (simp add: writer_inv_def)
  from state_durable[OF this w] fss assms(2) show ?thesis
    by (auto simp: body_channels)
qed

definition sample_directory :: "u64 \<Rightarrow> file_session" where
  "sample_directory cap = \<lparr>fs_pathname = ''/s/a'', fs_next_filenum = 0, fs_minwidth = 6, fs_sfw = None,
     fs_writable = False, fs_filesize = cap, fs_space = [], fs_kernel = [[Sys_Count 3, Sys_Count 0]],
     fs_fsyncs = [None, None], fs_disk = []\<rparr>"

lemma sample_small:
  "list_all record_small [sample_session, sample_event 0, sample_event 1, sample_sync]"
proof -
  have "contents_len (rec_attributes sample_session) = 10" "contents_len (rec_attributes (sample_event 0)) = 2"
    "contents_len (rec_attributes (sample_event 1)) = 3" "contents_len (rec_attributes sample_sync) = 0"
    by code_simp+
  then show ?thesis
    by (simp add: record_small_def)
qed

text \<open>
  Two events in files of at most 20 octets: the second one opens a second spoolfile.
\<close>

theorem spool_complete_witness:
  "\<exists>fss. spooled (sub (snd (write_records file_handlers [sample_session, sample_event 0, sample_event 1]
        (session_writer_init ''a'' (sample_directory 20)))))
      = map df_content (fs_disk (sample_directory 20)) @ map octets_of fss
    \<and> filter is_body (concat fss) = filter is_body [sample_session, sample_event 0, sample_event 1]
    \<and> foldl progress_step progress_init (concat fss)
      = foldl progress_step progress_init [sample_session, sample_event 0, sample_event 1]
    \<and> (\<forall>f \<in> set fss. starts_session f \<and> file_fits (fs_filesize (sample_directory 20)) f)"
proof -
  let ?run = "write_records file_handlers [sample_session, sample_event 0, sample_event 1]
    (session_writer_init ''a'' (sample_directory 20))"
  have "fst ?run = Inr ()"
    by code_simp
  then have "?run = (Inr (), snd ?run)"
    by (rule run_result)
  from spool_complete[OF this] show ?thesis
    using sample_small by (simp add: sample_directory_def count_answer_def)
qed

theorem spool_oversize_witness:
  "fst (write_records file_handlers [sample_session, sample_event 0]
    (session_writer_init ''a'' (sample_directory 3))) \<noteq> Inr ()"
proof (rule spool_oversize)
  have "length (record_octets (sample_event 0)) = 4"
    by code_simp
  then show "unat (fs_filesize (sample_directory 3)) < length (record_octets (sample_event 0))"
    by (simp add: sample_directory_def)
qed (use sample_small in \<open>simp_all add: sample_directory_def count_answer_def is_body_def is_event_def sample_event_def\<close>)

text \<open>
  Two spoolfiles, and the sync record is answered while nothing is durable of either: all that was written was
  still in the buffer when \<^verbatim>\<open>fsync\<close> was called.
\<close>

theorem spool_sync_durability_witness:
  "durable (sub (snd (write_records file_handlers ([sample_session, sample_event 0, sample_event 1] @ [sample_sync])
      (session_writer_init ''a'' (sample_directory 20))))) = [[], []]
   \<and> (\<exists>fss ds. spooled (sub (snd (write_records file_handlers ([sample_session, sample_event 0, sample_event 1] @ [sample_sync])
        (session_writer_init ''a'' (sample_directory 20))))) = [] @ map octets_of fss
    \<and> filter is_body (concat fss) = filter is_body [sample_session, sample_event 0, sample_event 1]
    \<and> [[], []] = [] @ ds \<and> list_all2 durable_part ds fss)"
proof -
  let ?run = "write_records file_handlers ([sample_session, sample_event 0, sample_event 1] @ [sample_sync])
    (session_writer_init ''a'' (sample_directory 20))"
  have "fst ?run = Inr ()"
    by code_simp
  then have run: "?run = (Inr (), snd ?run)"
    by (rule run_result)
  have none: "durable (sub (snd ?run)) = [[], []]"
    by code_simp
  from spool_sync_durability[OF run] none show ?thesis
    using sample_small by (simp add: sample_directory_def sample_sync_def count_answer_def del: write_records.simps append.simps)
qed

text \<open>
  C18: a filestore writer answers a sync record with the source and timestamp of the session in
  force and the sequence number after its last event.
\<close>

theorem file_sync_reply:
  assumes "write_records file_handlers (rs @ [c]) (session_writer_init name d) = (Inr (), s')"
    and "rec_channel c = channel_sync"
  shows "\<exists>r src ts. in_force (foldl progress_step progress_init rs) = Some r
    \<and> record_find_one attrid_source r = Inr src \<and> find_timestamp r = Inr ts
    \<and> reply s' = Some \<lparr>rec_channel = channel_sync, rec_attributes = attr_insert
        (Unsigned_Integer attrid_seqnum (next_seqnum (foldl progress_step progress_init rs)))
        (attr_insert ts (attr_insert src []))\<rparr>"
  by (rule file_writer.sync_acknowledges[OF assms])

theorem file_sync_reply_witness:
  "\<exists>r src ts. in_force (foldl progress_step progress_init [sample_session, sample_event 7]) = Some r
    \<and> record_find_one attrid_source r = Inr src \<and> find_timestamp r = Inr ts
    \<and> reply (snd (write_records file_handlers ([sample_session, sample_event 7] @ [sample_sync])
          (session_writer_init ''a'' (sample_directory 100))))
      = Some \<lparr>rec_channel = channel_sync, rec_attributes = attr_insert
        (Unsigned_Integer attrid_seqnum
          (next_seqnum (foldl progress_step progress_init [sample_session, sample_event 7])))
        (attr_insert ts (attr_insert src []))\<rparr>"
proof -
  let ?run = "write_records file_handlers ([sample_session, sample_event 7] @ [sample_sync])
    (session_writer_init ''a'' (sample_directory 100))"
  have "fst ?run = Inr ()"
    by code_simp
  then have "?run = (Inr (), snd ?run)"
    by (rule run_result)
  from file_sync_reply[OF this] show ?thesis
    by (simp add: sample_sync_def)
qed

end
