(* ===== verification/File_Session_Reader.thy ===== *)
theory File_Session_Reader
  imports File_Session_Writer "HOL-Library.List_Lexorder" "HOL-Library.Char_ord"
begin

text \<open>
  Reading a filestore: \<^verbatim>\<open>spoolfile_reader::_read_direct\<close> against the writer of the same file
  (\<^verbatim>\<open>horace+file/spoolfile_reader.cc\<close>), \<^verbatim>\<open>file_session_reader\<close> (\<^verbatim>\<open>horace+file/file_session_reader.cc\<close>)
  and \<^verbatim>\<open>file_session_listener\<close> (\<^verbatim>\<open>horace+file/file_session_listener.cc\<close>). The lemmas show when the
  end of a spoolfile is seen, which records are returned and when a spoolfile is deleted.
\<close>

section \<open>Seeing the end of a spoolfile\<close>

text \<open>
  \<open>Reading e\<close> is the loop about to call \<^verbatim>\<open>::read\<close> with \<open>e\<close> for \<^verbatim>\<open>eof\<close>, \<open>Checking\<close> about to call
  \<^verbatim>\<open>access\<close>, \<open>Watching\<close> blocked in \<^verbatim>\<open>wait\<close>, \<open>Returned n\<close> returning the count \<open>n\<close>. A failing \<^verbatim>\<open>::read\<close> is
  not a step: its \<open>- 1\<close> is converted to \<^verbatim>\<open>size_t\<close> and returned as a count.
\<close>

datatype read_phase = Reading bool | Checking | Watching | Returned nat

record spool_file =
  available :: nat
  consumed :: nat
  next_exists :: bool
  read_phase :: read_phase

definition spool_file_init :: spool_file where
  "spool_file_init = \<lparr>available = 0, consumed = 0, next_exists = False, read_phase = Reading False\<rparr>"

inductive spool_read_step :: "nat \<Rightarrow> spool_file \<Rightarrow> spool_file \<Rightarrow> bool" for nbyte :: nat where
  data: "read_phase f = Reading e \<Longrightarrow> 0 < n \<Longrightarrow> n \<le> nbyte \<Longrightarrow> consumed f + n \<le> available f \<Longrightarrow>
    spool_read_step nbyte f (f\<lparr>consumed := consumed f + n, read_phase := Returned n\<rparr>)"
| end_of_file: "read_phase f = Reading True \<Longrightarrow> consumed f = available f \<Longrightarrow>
    spool_read_step nbyte f (f\<lparr>read_phase := Returned 0\<rparr>)"
| no_data: "read_phase f = Reading False \<Longrightarrow> consumed f = available f \<Longrightarrow>
    spool_read_step nbyte f (f\<lparr>read_phase := Checking\<rparr>)"
| found: "read_phase f = Checking \<Longrightarrow> next_exists f \<Longrightarrow>
    spool_read_step nbyte f (f\<lparr>read_phase := Reading True\<rparr>)"
| not_found: "read_phase f = Checking \<Longrightarrow> \<not> next_exists f \<Longrightarrow>
    spool_read_step nbyte f (f\<lparr>read_phase := Watching\<rparr>)"
| woken: "read_phase f = Watching \<Longrightarrow> spool_read_step nbyte f (f\<lparr>read_phase := Reading False\<rparr>)"
| again: "read_phase f = Returned n \<Longrightarrow> 0 < n \<Longrightarrow>
    spool_read_step nbyte f (f\<lparr>read_phase := Reading False\<rparr>)"

text \<open>
  The writer appends to the file and creates the next one. An orderly writer appends nothing once
  the next file exists.
\<close>

inductive spool_write_step :: "bool \<Rightarrow> spool_file \<Rightarrow> spool_file \<Rightarrow> bool" for orderly :: bool where
  append: "\<not> (orderly \<and> next_exists f) \<Longrightarrow>
    spool_write_step orderly f (f\<lparr>available := available f + n\<rparr>)"
| next_file: "spool_write_step orderly f (f\<lparr>next_exists := True\<rparr>)"

inductive spool_reachable :: "bool \<Rightarrow> nat \<Rightarrow> spool_file \<Rightarrow> bool" for orderly :: bool and nbyte :: nat where
  start: "spool_reachable orderly nbyte spool_file_init"
| by_reader: "spool_reachable orderly nbyte f \<Longrightarrow> spool_read_step nbyte f f' \<Longrightarrow> spool_reachable orderly nbyte f'"
| by_writer: "spool_reachable orderly nbyte f \<Longrightarrow> spool_write_step orderly f f' \<Longrightarrow> spool_reachable orderly nbyte f'"

inductive_cases spool_read_stepE: "spool_read_step nbyte f f'"
inductive_cases spool_write_stepE: "spool_write_step orderly f f'"

lemma spool_reachable_inv:
  "spool_reachable True nbyte f \<Longrightarrow> consumed f \<le> available f
     \<and> (read_phase f = Reading True \<longrightarrow> next_exists f)
     \<and> (read_phase f = Returned 0 \<longrightarrow> next_exists f \<and> consumed f = available f)"
  by (induction rule: spool_reachable.induct)
    (auto simp: spool_file_init_def elim!: spool_read_stepE spool_write_stepE)

section \<open>File session reader\<close>

text \<open>
  The reader of a spoolfile: its pathname, the pathname of the next one and the octets not yet
  read of it. Files are given with their whole content; waiting for a change that does not come
  ends with the exception that requests termination.
\<close>

record spoolfile_reader =
  sr_pathname :: string
  sr_next_pathname :: string
  sr_rest :: octets

record file_reader =
  fr_srcid :: string
  fr_pathname :: string
  fr_next_filenum :: u64
  fr_minwidth :: nat
  fr_context :: session_context
  fr_sfr :: "spoolfile_reader option"
  fr_session_ts :: "i64 \<times> i64"
  fr_seqnum :: u64
  fr_awaiting_sync :: bool
  fr_nodelete :: bool
  fr_names :: "string list"
  fr_disk :: "string \<rightharpoonup> octets"

definition file_reader_init :: "string \<Rightarrow> string \<Rightarrow> bool \<Rightarrow> string list \<Rightarrow> (string \<rightharpoonup> octets) \<Rightarrow> file_reader" where
  "file_reader_init name pathname nodelete names disk =
     \<lparr>fr_srcid = name, fr_pathname = pathname, fr_next_filenum = 0, fr_minwidth = 0,
      fr_context = new_session, fr_sfr = None, fr_session_ts = (0, 0), fr_seqnum = 0,
      fr_awaiting_sync = False, fr_nodelete = nodelete, fr_names = names, fr_disk = disk\<rparr>"

definition ENOENT :: nat where "ENOENT = 2"

definition reader_next_pathname :: "(file_reader, string) act" where
  "reader_next_pathname =
     bindS (getS fr_next_filenum) (\<lambda>n.
     if n + 1 = 0 then throwS (Endpoint_Error ''file number overflow'')
     else
       seqS (modifyS (\<lambda>d. d\<lparr>fr_next_filenum := n + 1\<rparr>))
         (getS (\<lambda>d. fr_pathname d @ ''/'' @ sf_filename (spoolfile_make (unat n) (fr_minwidth d)))))"

definition open_spoolfile :: "string \<Rightarrow> string \<Rightarrow> (file_reader, unit) act" where
  "open_spoolfile pathname next_path d =
     (case fr_disk d pathname of
        None \<Rightarrow> (Inl (Libc_Error ENOENT), d)
      | Some bs \<Rightarrow> (Inr (), d\<lparr>fr_sfr := Some \<lparr>sr_pathname = pathname, sr_next_pathname = next_path, sr_rest = bs\<rparr>\<rparr>))"

definition find_first :: "(file_reader, unit) act" where
  "find_first =
     bindS (getS fr_minwidth) (\<lambda>w.
       if w \<noteq> 0 then returnS ()
       else
         bindS (getS fr_names) (\<lambda>names.
         bindS (liftS (filestore_scan names)) (\<lambda>r.
           if minwidth r \<noteq> 0 then
             modifyS (\<lambda>d. d\<lparr>fr_next_filenum := of_nat (first_filenum r), fr_minwidth := minwidth r\<rparr>)
           else throwS Terminate_Exception)))"

definition open_first :: "(file_reader, unit) act" where
  "open_first =
     seqS find_first
     (bindS reader_next_pathname (\<lambda>init_pathname.
      bindS reader_next_pathname (\<lambda>next_path. open_spoolfile init_pathname next_path)))"

text \<open>
  A record is parsed from what is left of the file. Where it ends too early, the next file decides
  between the end of this one and waiting. What a malformed record has consumed is not kept.
\<close>

definition read_spooled :: "(file_reader, hrecord) act" where
  "read_spooled d =
     (case fr_sfr d of
        None \<Rightarrow> (Inl (Undefined_Behaviour ''null pointer''), d)
      | Some sr \<Rightarrow>
          (case record_parse (fr_context d) (sr_rest sr) of
             (Inl e, ctx) \<Rightarrow>
               (if e = Eof_Error then
                  (if fr_disk d (sr_next_pathname sr) = None then (Inl Terminate_Exception, d\<lparr>fr_context := ctx\<rparr>)
                   else (Inl Eof_Error, d\<lparr>fr_context := ctx, fr_sfr := Some (sr\<lparr>sr_rest := []\<rparr>)\<rparr>))
                else (Inl e, d\<lparr>fr_context := ctx\<rparr>))
           | (Inr (r, rest), ctx) \<Rightarrow>
               (Inr r, d\<lparr>fr_context := ctx, fr_sfr := Some (sr\<lparr>sr_rest := rest\<rparr>)\<rparr>)))"

definition note_record :: "hrecord \<Rightarrow> (file_reader, unit) act" where
  "note_record r =
     (if rec_channel r = channel_session then
        bindS (liftS (bindE (record_find_one attrid_ts r) as_timestamp)) (\<lambda>ts.
          modifyS (\<lambda>d. if ts \<noteq> fr_session_ts d then d\<lparr>fr_session_ts := ts, fr_seqnum := 0\<rparr> else d))
      else if is_event r then
        bindS (liftS (bindE (record_find_one attrid_seqnum r) as_unsigned_integer)) (\<lambda>n.
          modifyS (\<lambda>d. d\<lparr>fr_seqnum := n + 1\<rparr>))
      else returnS ())"

definition sync_request :: hrecord where
  "sync_request = \<lparr>rec_channel = channel_sync, rec_attributes = []\<rparr>"

definition reader_read :: "(file_reader, hrecord) act" where
  "reader_read =
     seqS (bindS (getS fr_sfr) (\<lambda>sfr. if sfr = None then open_first else returnS ()))
     (bindS (getS fr_awaiting_sync) (\<lambda>awaiting.
        if awaiting then throwS (Horace_Error ''sync record expected'')
        else (\<lambda>d.
          case bindS read_spooled (\<lambda>r. seqS (note_record r) (returnS r)) d of
            (Inl e, d') \<Rightarrow>
              (if e = Eof_Error then (Inr sync_request, d'\<lparr>fr_awaiting_sync := True\<rparr>) else (Inl e, d'))
          | (Inr r, d') \<Rightarrow> (Inr r, d'))))"

definition reader_unlink :: "(file_reader, unit) act" where
  "reader_unlink d =
     (case fr_sfr d of
        None \<Rightarrow> (Inl (Undefined_Behaviour ''null pointer''), d)
      | Some sr \<Rightarrow> (if fr_disk d (sr_pathname sr) = None then (Inl (Libc_Error ENOENT), d)
          else (Inr (), d\<lparr>fr_disk := (fr_disk d)(sr_pathname sr := None),
            fr_names := filter (\<lambda>f. fr_pathname d @ ''/'' @ f \<noteq> sr_pathname sr) (fr_names d)\<rparr>)))"

definition advance :: "(file_reader, unit) act" where
  "advance =
     bindS (getS fr_sfr) (\<lambda>sfr. case sfr of
        None \<Rightarrow> throwS (Undefined_Behaviour ''null pointer'')
      | Some sr \<Rightarrow> bindS reader_next_pathname (\<lambda>p. open_spoolfile (sr_next_pathname sr) p))"

definition check_sync :: "hrecord \<Rightarrow> file_reader \<Rightarrow> unit result" where
  "check_sync r d =
     (if \<not> fr_awaiting_sync d then Inl (Horace_Error ''unexpected sync response sent to session reader'')
      else bindE (bindE (record_find_one attrid_source r) as_string) (\<lambda>src.
      if src \<noteq> fr_srcid d then Inl (Horace_Error ''incorrect source ID in sync response'')
      else bindE (bindE (record_find_one attrid_ts r) as_timestamp) (\<lambda>ts.
      if ts \<noteq> fr_session_ts d then Inl (Horace_Error ''incorrect timestamp in sync response'')
      else bindE (bindE (record_find_one attrid_seqnum r) as_unsigned_integer) (\<lambda>n.
      if n \<noteq> fr_seqnum d then Inl (Horace_Error ''incorrect sequence number in sync response'')
      else Inr ()))))"

definition reader_handle_sync :: "hrecord \<Rightarrow> (file_reader, unit) act" where
  "reader_handle_sync r =
     seqS (\<lambda>d. (check_sync r d, d))
    (seqS (bindS (getS fr_nodelete) (\<lambda>keep. if keep then returnS () else reader_unlink))
    (seqS advance (modifyS (\<lambda>d. d\<lparr>fr_awaiting_sync := False\<rparr>))))"

definition reader_write :: "hrecord \<Rightarrow> (file_reader, unit) act" where
  "reader_write r =
     (if rec_channel r = channel_error \<or> rec_channel r = channel_warning then returnS ()
      else if rec_channel r = channel_sync then reader_handle_sync r
      else throwS (Horace_Error ''unexpected record type sent to session reader''))"

definition reader_reset :: "file_reader \<Rightarrow> file_reader" where
  "reader_reset d =
     (if fr_sfr d \<noteq> None then
        d\<lparr>fr_sfr := None, fr_next_filenum := fr_next_filenum d - 1, fr_session_ts := (0, 0),
          fr_seqnum := 0, fr_awaiting_sync := False\<rparr>
      else d)"

section \<open>Session listener\<close>

record file_listener =
  fl_accepted :: "string set"
  fl_pending :: "string set"

fun listener_scan :: "string list \<Rightarrow> file_listener \<Rightarrow> file_listener" where
  "listener_scan [] l = l"
| "listener_scan (name # names) l =
     listener_scan names
       (if name \<noteq> [] \<and> hd name \<noteq> CHR ''.'' \<and> name \<notin> fl_accepted l
        then l\<lparr>fl_pending := insert name (fl_pending l)\<rparr> else l)"

definition file_listener_init :: "string list \<Rightarrow> file_listener" where
  "file_listener_init names = listener_scan names \<lparr>fl_accepted = {}, fl_pending = {}\<rparr>"

text \<open>
  \<open>scans\<close> are the names found after each wake-up of the watcher; where they end, the process is
  told to terminate.
\<close>

fun listener_accept :: "string list list \<Rightarrow> file_listener \<Rightarrow> string result \<times> string list list \<times> file_listener" where
  "listener_accept scans l =
     (if fl_pending l \<noteq> {} then
        (Inr (Min (fl_pending l)), scans, l\<lparr>fl_accepted := insert (Min (fl_pending l)) (fl_accepted l),
           fl_pending := fl_pending l - {Min (fl_pending l)}\<rparr>)
      else (case scans of
          [] \<Rightarrow> (Inl Terminate_Exception, [], l)
        | names # rest \<Rightarrow> listener_accept rest (listener_scan names l)))"

declare listener_accept.simps [simp del]

section \<open>Reading a spoolfile to its end\<close>

fun reads :: "nat \<Rightarrow> (file_reader, hrecord list) act" where
  "reads 0 = returnS []"
| "reads (Suc n) = bindS reader_read (\<lambda>r. bindS (reads n) (\<lambda>rs. returnS (r # rs)))"

text \<open>
  What the reader remembers of the records returned, to check the sync response against.
\<close>

fun note_step :: "(i64 \<times> i64) \<times> u64 \<Rightarrow> hrecord \<Rightarrow> (i64 \<times> i64) \<times> u64" where
  "note_step (ts, n) r =
     (if rec_channel r = channel_session then
        (case bindE (record_find_one attrid_ts r) as_timestamp of
           Inr ts' \<Rightarrow> if ts' \<noteq> ts then (ts', 0) else (ts, n)
         | Inl _ \<Rightarrow> (ts, n))
      else if is_event r then
        (case bindE (record_find_one attrid_seqnum r) as_unsigned_integer of
           Inr m \<Rightarrow> (ts, m + 1) | Inl _ \<Rightarrow> (ts, n))
      else (ts, n))"

declare note_step.simps [simp del]

definition noted :: "hrecord \<Rightarrow> bool" where
  "noted r \<longleftrightarrow> (rec_channel r = channel_session \<longrightarrow> (\<exists>ts. bindE (record_find_one attrid_ts r) as_timestamp = Inr ts))
     \<and> (is_event r \<longrightarrow> (\<exists>n. bindE (record_find_one attrid_seqnum r) as_unsigned_integer = Inr n))"

definition with_note :: "(i64 \<times> i64) \<times> u64 \<Rightarrow> file_reader \<Rightarrow> file_reader" where
  "with_note tn d = d\<lparr>fr_session_ts := fst tn, fr_seqnum := snd tn\<rparr>"

lemma note_record_ok:
  assumes "noted r"
  shows "note_record r d = (Inr (), with_note (note_step (fr_session_ts d, fr_seqnum d) r) d)"
proof -
  consider (session) "rec_channel r = channel_session" | (event) "rec_channel r \<noteq> channel_session" "is_event r"
    | (other) "rec_channel r \<noteq> channel_session" "\<not> is_event r"
    by blast
  then show ?thesis
  proof cases
    case session
    with assms obtain ts where "bindE (record_find_one attrid_ts r) as_timestamp = Inr ts"
      by (auto simp: noted_def)
    with session show ?thesis
      by (simp add: note_record_def act_simps with_note_def note_step.simps del: bindE_eq_Inr)
  next
    case event
    with assms obtain n where "bindE (record_find_one attrid_seqnum r) as_unsigned_integer = Inr n"
      by (auto simp: noted_def)
    with event show ?thesis
      by (simp add: note_record_def act_simps with_note_def note_step.simps del: bindE_eq_Inr)
  next
    case other
    then show ?thesis
      by (simp add: note_record_def act_simps with_note_def note_step.simps)
  qed
qed

text \<open>
  The session context that records leave which can be read one after the other; \<open>None\<close> where one of them cannot.
\<close>

fun session_reads :: "session_context \<Rightarrow> hrecord list \<Rightarrow> session_context option" where
  "session_reads s [] = Some s"
| "session_reads s (r # rs) =
     (if record_ok s r then
        (case attrs_accepted s (rec_attributes r) of Inl _ \<Rightarrow> None | Inr s' \<Rightarrow> session_reads s' rs)
      else None)"

lemma read_one:
  assumes "fr_sfr d = Some \<lparr>sr_pathname = p, sr_next_pathname = q, sr_rest = record_octets r @ bs\<rparr>"
    and "record_ok (fr_context d) r" and "attrs_accepted (fr_context d) (rec_attributes r) = Inr s'"
    and "noted r" and "\<not> fr_awaiting_sync d"
  shows "reader_read d = (Inr r, with_note (note_step (fr_session_ts d, fr_seqnum d) r)
    (d\<lparr>fr_context := s', fr_sfr := Some \<lparr>sr_pathname = p, sr_next_pathname = q, sr_rest = bs\<rparr>\<rparr>))"
proof -
  have "record_parse (fr_context d) (record_octets r @ bs) = (Inr (r, bs), s')"
    using record_write_parse[OF assms(2,3)] by (auto simp: record_octets_def)
  then have "read_spooled d = (Inr r, d\<lparr>fr_context := s',
      fr_sfr := Some \<lparr>sr_pathname = p, sr_next_pathname = q, sr_rest = bs\<rparr>\<rparr>)"
    using assms(1) by (simp add: read_spooled_def)
  then show ?thesis
    using assms(1,5) note_record_ok[OF assms(4)] by (simp add: reader_read_def act_simps)
qed

lemma read_end:
  assumes "fr_sfr d = Some \<lparr>sr_pathname = p, sr_next_pathname = q, sr_rest = []\<rparr>"
    and "\<not> fr_awaiting_sync d" and "fr_disk d q \<noteq> None"
  shows "reader_read d = (Inr sync_request, d\<lparr>fr_awaiting_sync := True\<rparr>)"
proof -
  have "record_parse s [] = (Inl Eof_Error, s)" for s
    by (simp add: record_parse_def read_signed_base128_def)
  with assms show ?thesis
    by (simp add: reader_read_def read_spooled_def act_simps)
qed

text \<open>
  A record that is not read, as \<open>record_roundtrip\<close> says, ends the reading of its spoolfile: the reader throws, and
  it would throw again.
\<close>

lemma read_fault:
  assumes "fr_sfr d = Some \<lparr>sr_pathname = p, sr_next_pathname = q, sr_rest = record_octets r @ bs\<rparr>"
    and "record_canonical (fr_context d) r" and "attrs_accepted (fr_context d) (rec_attributes r) = Inr s'"
    and "record_fault r = Some e" and "\<not> fr_awaiting_sync d"
  shows "fst (reader_read d) = Inl e \<and> fr_sfr (snd (reader_read d)) = fr_sfr d"
proof -
  have "fst (record_parse (fr_context d) (record_octets r @ bs)) = Inl e"
    using record_write_result[OF assms(2,3)] assms(4) by (auto simp: record_octets_def)
  moreover have "e \<noteq> Eof_Error"
    using record_fault_cases[OF assms(4)] by auto
  ultimately show ?thesis
    using assms(1,5) by (auto simp: reader_read_def read_spooled_def act_simps split: prod.split sum.split)
qed

lemma reads_records:
  assumes "fr_sfr d = Some \<lparr>sr_pathname = p, sr_next_pathname = q, sr_rest = octets_of rs @ bs\<rparr>"
    and "session_reads (fr_context d) rs = Some s'" and "list_all noted rs" and "\<not> fr_awaiting_sync d"
  shows "reads (length rs + n) d =
    bindS (reads n) (\<lambda>xs. returnS (rs @ xs)) (with_note (foldl note_step (fr_session_ts d, fr_seqnum d) rs)
      (d\<lparr>fr_context := s', fr_sfr := Some \<lparr>sr_pathname = p, sr_next_pathname = q, sr_rest = bs\<rparr>\<rparr>))"
  using assms
proof (induction rs arbitrary: d)
  case Nil
  then have "with_note (fr_session_ts d, fr_seqnum d)
      (d\<lparr>fr_context := s', fr_sfr := Some \<lparr>sr_pathname = p, sr_next_pathname = q, sr_rest = bs\<rparr>\<rparr>) = d"
    by (cases d) (simp add: with_note_def)
  then show ?case
    by (simp add: bindS_def returnS_def split: prod.split sum.split)
next
  case (Cons r rs)
  from Cons.prems(2) obtain s1 where s1: "record_ok (fr_context d) r"
    "attrs_accepted (fr_context d) (rec_attributes r) = Inr s1" "session_reads s1 rs = Some s'"
    by (auto split: if_splits sum.splits)
  let ?tn = "note_step (fr_session_ts d, fr_seqnum d) r"
  let ?d = "with_note ?tn (d\<lparr>fr_context := s1,
    fr_sfr := Some \<lparr>sr_pathname = p, sr_next_pathname = q, sr_rest = octets_of rs @ bs\<rparr>\<rparr>)"
  have "reader_read d = (Inr r, ?d)"
    using Cons.prems s1 by (intro read_one) simp_all
  moreover have "reads (length rs + n) ?d = bindS (reads n) (\<lambda>xs. returnS (rs @ xs))
    (with_note (foldl note_step (fr_session_ts ?d, fr_seqnum ?d) rs)
      (?d\<lparr>fr_context := s', fr_sfr := Some \<lparr>sr_pathname = p, sr_next_pathname = q, sr_rest = bs\<rparr>\<rparr>))"
    using Cons.prems s1 by (intro Cons.IH) (simp_all add: with_note_def)
  moreover have "reads (length (r # rs) + n)
      = bindS reader_read (\<lambda>r. bindS (reads (length rs + n)) (\<lambda>rs. returnS (r # rs)))"
    by simp
  ultimately show ?case
    by (simp add: bindS_def returnS_def with_note_def split: prod.split sum.split)
qed

lemma reads_file:
  assumes "fr_sfr d = Some \<lparr>sr_pathname = p, sr_next_pathname = q, sr_rest = octets_of rs\<rparr>"
    and "session_reads (fr_context d) rs = Some s'" and "list_all noted rs"
    and "\<not> fr_awaiting_sync d" and "fr_disk d q \<noteq> None"
  shows "reads (Suc (length rs)) d = (Inr (rs @ [sync_request]),
    with_note (foldl note_step (fr_session_ts d, fr_seqnum d) rs)
      (d\<lparr>fr_context := s', fr_sfr := Some \<lparr>sr_pathname = p, sr_next_pathname = q, sr_rest = []\<rparr>,
        fr_awaiting_sync := True\<rparr>))"
proof -
  let ?d = "with_note (foldl note_step (fr_session_ts d, fr_seqnum d) rs)
    (d\<lparr>fr_context := s', fr_sfr := Some \<lparr>sr_pathname = p, sr_next_pathname = q, sr_rest = []\<rparr>\<rparr>)"
  have "reader_read ?d = (Inr sync_request, ?d\<lparr>fr_awaiting_sync := True\<rparr>)"
    using assms(4,5) by (intro read_end[of _ p q]) (simp_all add: with_note_def)
  with reads_records[of d p q rs "[]" s' 1] assms(1-4) show ?thesis
    by (simp add: act_simps with_note_def)
qed

section \<open>What a write changes on disk\<close>

lemma open_spoolfile_disk: "open_spoolfile p q d = (x, d') \<Longrightarrow> fr_disk d' = fr_disk d"
  by (auto simp: open_spoolfile_def split: option.splits)

lemma reader_next_pathname_disk: "reader_next_pathname d = (x, d') \<Longrightarrow> fr_disk d' = fr_disk d"
  by (auto simp: reader_next_pathname_def act_simps split: if_splits)

lemma advance_disk: "advance d = (x, d') \<Longrightarrow> fr_disk d' = fr_disk d"
  by (auto simp: advance_def act_simps split: option.splits prod.splits sum.splits
      dest!: open_spoolfile_disk reader_next_pathname_disk)

lemma reader_write_disk:
  assumes "fr_disk (snd (reader_write r d)) \<noteq> fr_disk d"
  shows "rec_channel r = channel_sync" and "check_sync r d = Inr ()" and "\<not> fr_nodelete d"
    and "\<exists>sr. fr_sfr d = Some sr \<and> fr_disk (snd (reader_write r d)) = (fr_disk d)(sr_pathname sr := None)"
proof -
  from assms show ch: "rec_channel r = channel_sync"
    by (auto simp: reader_write_def act_simps split: if_splits)
  with assms have h: "fr_disk (snd (reader_handle_sync r d)) \<noteq> fr_disk d"
    by (simp add: reader_write_def channel_constants)
  then show c: "check_sync r d = Inr ()"
    by (cases "check_sync r d") (auto simp: reader_handle_sync_def act_simps)
  obtain x1 d1 where u: "reader_unlink d = (x1, d1)"
    by fastforce
  have adv: "fr_disk (snd (seqS advance (modifyS (\<lambda>d. d\<lparr>fr_awaiting_sync := False\<rparr>)) e)) = fr_disk e" for e
    by (auto simp: act_simps split: prod.split sum.split dest: advance_disk)
  show nd: "\<not> fr_nodelete d"
    using h c adv[of d] by (auto simp: reader_handle_sync_def act_simps)
  have "fr_disk (snd (reader_handle_sync r d)) = fr_disk d1"
    using c nd u adv[of d1] by (auto simp: reader_handle_sync_def seqS_def bindS_def getS_def split: sum.splits)
  with h u ch show "\<exists>sr. fr_sfr d = Some sr \<and> fr_disk (snd (reader_write r d)) = (fr_disk d)(sr_pathname sr := None)"
    by (auto simp: reader_unlink_def reader_write_def channel_constants split: option.splits if_splits)
qed

section \<open>The listener\<close>

definition listener_inv :: "file_listener \<Rightarrow> bool" where
  "listener_inv l \<longleftrightarrow> finite (fl_pending l) \<and> fl_pending l \<inter> fl_accepted l = {}
     \<and> (\<forall>s \<in> fl_pending l. s \<noteq> [] \<and> hd s \<noteq> CHR ''.'')"

lemma listener_scan_eq:
  "listener_scan names l = l\<lparr>fl_pending := fl_pending l \<union> (set (visible names) - fl_accepted l)\<rparr>"
  by (induction names arbitrary: l) (auto simp: visible_def insert_Diff_if)

lemma listener_scan_inv: "listener_inv l \<Longrightarrow> listener_inv (listener_scan names l)"
  by (auto simp: listener_scan_eq listener_inv_def visible_def)

lemma listener_accept_spec:
  "listener_accept scans l = (Inr s, rest, l') \<Longrightarrow> listener_inv l \<Longrightarrow>
     listener_inv l' \<and> s \<notin> fl_accepted l \<and> s \<noteq> [] \<and> hd s \<noteq> CHR ''.''
     \<and> fl_accepted l' = insert s (fl_accepted l)
     \<and> (\<exists>seen. scans = seen @ rest \<and> fl_pending l \<union> set (concat (map visible seen))
         \<subseteq> fl_pending l' \<union> fl_accepted l')"
proof (induction scans l arbitrary: s rest l' rule: listener_accept.induct)
  case (1 scans l)
  show ?case
  proof (cases "fl_pending l = {}")
    case False
    with "1.prems" have "Min (fl_pending l) \<in> fl_pending l"
      by (simp add: listener_inv_def)
    with False "1.prems" show ?thesis
      by (auto simp: listener_accept.simps[of scans l] listener_inv_def)
  next
    case True
    with "1.prems"(1) obtain names more where scans: "scans = names # more"
      and acc: "listener_accept more (listener_scan names l) = (Inr s, rest, l')"
      by (auto simp: listener_accept.simps[of scans l] split: list.splits)
    from "1.IH"[OF _ scans acc listener_scan_inv[OF "1.prems"(2)]] True obtain seen where
      "more = seen @ rest" and
      r: "listener_inv l'" "s \<notin> fl_accepted l" "s \<noteq> []" "hd s \<noteq> CHR ''.''"
        "fl_accepted l' = insert s (fl_accepted l)"
      "fl_pending (listener_scan names l) \<union> set (concat (map visible seen))
        \<subseteq> fl_pending l' \<union> fl_accepted l'"
      by (auto simp: listener_scan_eq)
    then show ?thesis
      using scans by (intro conjI exI[of _ "names # seen"]) (auto simp: listener_scan_eq True)
  qed
qed

fun listener_accepts :: "nat \<Rightarrow> string list list \<Rightarrow> file_listener \<Rightarrow> string list" where
  "listener_accepts 0 scans l = []"
| "listener_accepts (Suc n) scans l =
     (case listener_accept scans l of
        (Inl _, _, _) \<Rightarrow> []
      | (Inr s, rest, l') \<Rightarrow> s # listener_accepts n rest l')"

lemma listener_accepts_fresh:
  "listener_inv l \<Longrightarrow> distinct (listener_accepts n scans l)
     \<and> set (listener_accepts n scans l) \<inter> fl_accepted l = {}
     \<and> (\<forall>s \<in> set (listener_accepts n scans l). s \<noteq> [] \<and> hd s \<noteq> CHR ''.'')"
proof (induction n arbitrary: scans l)
  case (Suc n)
  obtain x rest l' where a: "listener_accept scans l = (x, rest, l')"
    by (cases "listener_accept scans l") auto
  show ?case
  proof (cases x)
    case (Inr s)
    with a listener_accept_spec[of scans l s rest l'] Suc.prems have
      "listener_inv l'" "s \<notin> fl_accepted l" "s \<noteq> []" "hd s \<noteq> CHR ''.''"
      "fl_accepted l' = insert s (fl_accepted l)"
      by auto
    with Suc.IH[of l' rest] a Inr show ?thesis
      by auto
  qed (simp add: a)
qed simp

section \<open>Resetting\<close>

lemma open_first_numbers:
  assumes "open_first d = (Inr (), d')" and "find_first d = (Inr (), d0)"
  shows "fr_next_filenum d' = fr_next_filenum d0 + 2 \<and> fr_sfr d' \<noteq> None"
  using assms by (auto simp: open_first_def seqS_Inr reader_next_pathname_def open_spoolfile_def act_Inr
      split: if_splits option.splits)

lemma read_spooled_numbers:
  "read_spooled d = (x, d') \<Longrightarrow> fr_next_filenum d' = fr_next_filenum d \<and> (fr_sfr d \<noteq> None \<longrightarrow> fr_sfr d' \<noteq> None)"
  by (auto simp: read_spooled_def split: option.splits sum.splits prod.splits if_splits)

lemma note_record_numbers:
  "note_record r d = (x, d') \<Longrightarrow> fr_next_filenum d' = fr_next_filenum d \<and> fr_sfr d' = fr_sfr d"
  by (auto simp: note_record_def act_simps split: if_splits sum.splits)

section \<open>An empty spoolfile\<close>

definition empty_end :: spool_file where
  "empty_end = \<lparr>available = 0, consumed = 0, next_exists = True, read_phase = Returned 0\<rparr>"

text \<open>
  The next file may exist before anything was appended to this one.
\<close>

lemma empty_end_reachable: "spool_reachable orderly nbyte empty_end"
proof -
  note reader = spool_reachable.by_reader[of orderly nbyte]
  define f1 where "f1 = spool_file_init\<lparr>next_exists := True\<rparr>"
  define f2 where "f2 = f1\<lparr>read_phase := Checking\<rparr>"
  define f3 where "f3 = f2\<lparr>read_phase := Reading True\<rparr>"
  note defs = f3_def f2_def f1_def spool_file_init_def
  have "spool_reachable orderly nbyte f1"
    unfolding f1_def by (rule spool_reachable.by_writer[OF spool_reachable.start spool_write_step.next_file])
  then have "spool_reachable orderly nbyte f2"
    unfolding f2_def by (rule reader[OF _ spool_read_step.no_data]) (simp_all add: defs)
  then have "spool_reachable orderly nbyte f3"
    unfolding f3_def by (rule reader[OF _ spool_read_step.found]) (simp_all add: defs)
  then have "spool_reachable orderly nbyte (f3\<lparr>read_phase := Returned 0\<rparr>)"
    by (rule reader[OF _ spool_read_step.end_of_file]) (simp_all add: defs)
  then show ?thesis
    by (simp add: defs empty_end_def)
qed

section \<open>A sample filestore\<close>

definition sample_reader :: "octets \<Rightarrow> file_reader" where
  "sample_reader bs = file_reader_init ''a'' ''/s/a'' False [''000000'', ''000001'']
     [''/s/a/000000'' \<mapsto> bs, ''/s/a/000001'' \<mapsto> []]"

definition sample_open :: "octets \<Rightarrow> bool \<Rightarrow> file_reader" where
  "sample_open bs awaiting = (sample_reader [])\<lparr>fr_minwidth := 6, fr_next_filenum := 2, fr_awaiting_sync := awaiting,
     fr_sfr := Some \<lparr>sr_pathname = ''/s/a/000000'', sr_next_pathname = ''/s/a/000001'', sr_rest = bs\<rparr>\<rparr>"

definition sample_response :: hrecord where
  "sample_response = \<lparr>rec_channel = channel_sync, rec_attributes =
     [String_Attr attrid_source ''a'', Timestamp attrid_ts 0 0, Unsigned_Integer attrid_seqnum 0]\<rparr>"

section \<open>Properties\<close>

text \<open>
  C25: with an orderly writer, one that appends nothing to a spoolfile once the next one exists, the
  reader sees the end of the file only when every octet of it has been consumed, however the
  two interleave.
\<close>

theorem spool_end_complete:
  assumes "spool_reachable True nbyte f" and "read_phase f = Returned 0"
  shows "consumed f = available f \<and> next_exists f"
  using spool_reachable_inv[OF assms(1)] assms(2) by simp

lemma spool_end_complete_witness: "consumed empty_end = available empty_end \<and> next_exists empty_end"
  by (rule spool_end_complete[OF empty_end_reachable]) (simp add: empty_end_def)

text \<open>
  The writer of the program is not orderly, since it creates the next spoolfile before the
  last octets are flushed to the current one: then the reader can see the end too early.
\<close>

lemma spool_end_too_early:
  "\<exists>f f'. spool_reachable False nbyte f \<and> read_phase f = Returned 0 \<and> spool_write_step False f f'
    \<and> consumed f' < available f'"
proof -
  have "spool_write_step False empty_end (empty_end\<lparr>available := available empty_end + 12\<rparr>)"
    by (rule spool_write_step.append) simp
  then show ?thesis
    using empty_end_reachable
    by (intro exI[of _ empty_end] exI[of _ "empty_end\<lparr>available := available empty_end + 12\<rparr>"])
      (simp add: empty_end_def)
qed

text \<open>
  C26: reading a spoolfile from its start to its end returns exactly the records in it, in order,
  followed by a sync request. The records may define attributes and channels, for themselves and for those after
  them: the reader is left with the definitions in the order they were met, and expects a response with
  the timestamp and sequence number that the last records leave. Each record must be one that can be
  read in the session at its place (\<open>record_ok\<close>, so not one with a timestamp of second zero, an identifier
  below \<open>- 64\<close> or a signed integer below \<open>- 128\<close>: with one of these the reader throws, \<open>read_fault\<close>), session
  records must have a timestamp and events a sequence number, and the file is as it was when it was opened.
\<close>

theorem spoolfile_replayed:
  assumes "fr_sfr d = Some \<lparr>sr_pathname = p, sr_next_pathname = q, sr_rest = octets_of rs\<rparr>"
    and "session_reads (fr_context d) rs = Some s'" and "list_all noted rs"
    and "\<not> fr_awaiting_sync d" and "fr_disk d q \<noteq> None"
  shows "reads (Suc (length rs)) d = (Inr (rs @ [sync_request]),
    with_note (foldl note_step (fr_session_ts d, fr_seqnum d) rs)
      (d\<lparr>fr_context := s', fr_sfr := Some \<lparr>sr_pathname = p, sr_next_pathname = q, sr_rest = []\<rparr>,
        fr_awaiting_sync := True\<rparr>))"
  by (rule reads_file[OF assms])

text \<open>
  A session that defines an attribute and a channel, and an event that uses them.
\<close>

definition announcing_session :: hrecord where
  "announcing_session = \<lparr>rec_channel = channel_session, rec_attributes = [
     Compound attrid_attr_def [Signed_Integer attrid_attr_id 0, String_Attr attrid_attr_label ''text'',
       Unsigned_Integer attrid_type (ucast type_string)],
     Compound attrid_chan_def [Signed_Integer attrid_chan_id 0, String_Attr attrid_chan_label ''log''],
     String_Attr attrid_source ''a'', Timestamp attrid_ts 1 0]\<rparr>"

definition announced_event :: hrecord where
  "announced_event = \<lparr>rec_channel = 0, rec_attributes = [Unsigned_Integer attrid_seqnum 0, String_Attr 0 ''x'']\<rparr>"

definition announced_context :: session_context where
  "announced_context = (case attrs_accepted new_session (rec_attributes announcing_session) of
     Inr s \<Rightarrow> s | Inl _ \<Rightarrow> new_session)"

lemma announced_reads:
  "session_reads new_session [announcing_session, announced_event] = Some announced_context"
proof -
  have len: "contents_len (rec_attributes announcing_session) < 2 ^ 31" "contents_len (rec_attributes announced_event) < 2 ^ 31"
  proof -
    have "contents_len (rec_attributes announcing_session) < 100" "contents_len (rec_attributes announced_event) < 100"
      by code_simp+
    then show "contents_len (rec_attributes announcing_session) < 2 ^ 31" "contents_len (rec_attributes announced_event) < 2 ^ 31"
      by simp_all
  qed
  have sorted: "sorted (map attr_key (rec_attributes announcing_session))"
    "sorted (map attr_key (rec_attributes announced_event))"
    by code_simp+
  have acc: "attrs_accepted new_session (rec_attributes announcing_session) = Inr announced_context"
  proof -
    have "isl (attrs_accepted new_session (rec_attributes announcing_session)) = False"
      by code_simp
    then show ?thesis
      by (cases "attrs_accepted new_session (rec_attributes announcing_session)") (simp_all add: announced_context_def)
  qed
  have typed: "attrs_typed new_session (rec_attributes announcing_session)"
    "attrs_typed announced_context (rec_attributes announced_event)"
    by code_simp+
  have ok: "list_all encodable (rec_attributes announcing_session)" "list_all encodable (rec_attributes announced_event)"
    by (simp_all add: announcing_session_def announced_event_def wire_constants)
  have "attrs_accepted announced_context (rec_attributes announced_event) = Inr announced_context"
    by (simp add: announced_event_def apply_def_def wire_constants)
  moreover have "- 64 \<le> sint (rec_channel announcing_session)" "- 64 \<le> sint (rec_channel announced_event)"
    by (simp_all add: announcing_session_def announced_event_def channel_constants)
  ultimately show ?thesis
    using len sorted acc typed ok by (simp add: record_ok_def)
qed

lemma spoolfile_replayed_witness:
  "fst (reads 3 (sample_open (octets_of [announcing_session, announced_event]) False))
     = Inr [announcing_session, announced_event, sync_request]"
proof -
  have "noted announcing_session" "noted announced_event"
    unfolding noted_def by (auto simp: announcing_session_def announced_event_def is_event_def channel_constants
      record_find_one_def find_one_def attrid_constants)
  then have "list_all noted [announcing_session, announced_event]"
    by simp
  then show ?thesis
    using spoolfile_replayed[of "sample_open (octets_of [announcing_session, announced_event]) False"
        "''/s/a/000000''" "''/s/a/000001''" "[announcing_session, announced_event]", OF _ _ _ _ _] announced_reads
    by (simp add: sample_open_def sample_reader_def file_reader_init_def numeral_3_eq_3 del: reads.simps)
qed

text \<open>
  C27: the reader deletes nothing but the current spoolfile, and only for a sync record that matches
  the outstanding request in source, timestamp and sequence number; with \<^verbatim>\<open>nodelete\<close> never.
\<close>

theorem deletion_acknowledged:
  assumes "fr_disk (snd (reader_write r d)) \<noteq> fr_disk d"
  shows "rec_channel r = channel_sync \<and> fr_awaiting_sync d \<and> \<not> fr_nodelete d
    \<and> bindE (record_find_one attrid_source r) as_string = Inr (fr_srcid d)
    \<and> bindE (record_find_one attrid_ts r) as_timestamp = Inr (fr_session_ts d)
    \<and> bindE (record_find_one attrid_seqnum r) as_unsigned_integer = Inr (fr_seqnum d)
    \<and> (\<exists>sr. fr_sfr d = Some sr
        \<and> fr_disk (snd (reader_write r d)) = (fr_disk d)(sr_pathname sr := None))"
  using reader_write_disk[OF assms] by (auto simp: check_sync_def prod_eq_iff split: if_splits)

lemma deletion_acknowledged_witness:
  "fr_awaiting_sync (sample_open [] True) \<and> \<not> fr_nodelete (sample_open [] True)"
proof -
  have "fr_disk (snd (reader_write sample_response (sample_open [] True))) ''/s/a/000000'' = None"
    by code_simp
  moreover have "fr_disk (sample_open [] True) ''/s/a/000000'' = Some []"
    by code_simp
  ultimately have "fr_disk (snd (reader_write sample_response (sample_open [] True))) \<noteq> fr_disk (sample_open [] True)"
    by auto
  from deletion_acknowledged[OF this] show ?thesis
    by blast
qed

text \<open>
  Resetting a reader that has opened its first spoolfile, number \<open>n\<close>, makes it go on with
  number \<open>n + 1\<close>: two numbers were taken and one is given back, so the records read since the
  last acknowledged sync are not replayed.
\<close>

lemma reset_skips_spoolfile:
  assumes "fr_sfr d = None" and "find_first d = (Inr (), d0)" and "reader_read d = (Inr r, d1)"
  shows "fr_next_filenum (reader_reset d1) = fr_next_filenum d0 + 1"
proof -
  from assms(1,3) obtain d2 where d2: "open_first d = (Inr (), d2)"
    and r: "(case bindS read_spooled (\<lambda>r. seqS (note_record r) (returnS r)) d2 of
        (Inl e, d') \<Rightarrow> (if e = Eof_Error then (Inr sync_request, d'\<lparr>fr_awaiting_sync := True\<rparr>) else (Inl e, d'))
      | (Inr r, d') \<Rightarrow> (Inr r, d')) = (Inr r, d1)"
    by (auto simp: reader_read_def seqS_Inr bindS_Inr getS_def throwS_def split: if_splits)
  have "fr_next_filenum d1 = fr_next_filenum d2 \<and> fr_sfr d1 \<noteq> None"
    using r open_first_numbers[OF d2 assms(2)]
    by (auto simp: act_simps split: prod.splits sum.splits if_splits
        dest!: read_spooled_numbers note_record_numbers)
  with open_first_numbers[OF d2 assms(2)] show ?thesis
    by (simp add: reader_reset_def)
qed

lemma reset_skips_spoolfile_witness:
  "let d = (sample_reader (octets_of [sample_event 0]))\<lparr>fr_minwidth := 6\<rparr>
   in fr_next_filenum (reader_reset (snd (reader_read d))) = 1"
proof -
  define d where "d = (sample_reader (octets_of [sample_event 0]))\<lparr>fr_minwidth := 6\<rparr>"
  have f: "find_first d = (Inr (), d)"
    by (simp add: find_first_def act_simps d_def)
  have "case fst (reader_read d) of Inr r \<Rightarrow> r = sample_event 0 | Inl _ \<Rightarrow> False"
    unfolding d_def by code_simp
  then have r: "reader_read d = (Inr (sample_event 0), snd (reader_read d))"
    by (intro run_result) (simp split: sum.splits)
  have "fr_next_filenum (reader_reset (snd (reader_read d))) = fr_next_filenum d + 1"
    by (rule reset_skips_spoolfile[OF _ f r]) (simp add: d_def sample_reader_def file_reader_init_def)
  then show ?thesis
    by (simp add: Let_def flip: d_def) (simp add: d_def sample_reader_def file_reader_init_def)
qed

text \<open>
  A listener accepts each source at most once, whatever the directory shows, and never a name
  that begins with a dot.
\<close>

lemma sources_accepted_once:
  "distinct (listener_accepts n scans (file_listener_init names))
   \<and> list_all (\<lambda>s. s \<noteq> [] \<and> hd s \<noteq> CHR ''.'') (listener_accepts n scans (file_listener_init names))"
proof -
  have "listener_inv (file_listener_init names)"
    unfolding file_listener_init_def by (rule listener_scan_inv) (simp add: listener_inv_def)
  from listener_accepts_fresh[OF this] show ?thesis
    by (auto simp: list_all_iff)
qed

end
