(* ===== verification/Forwarding.thy ===== *)
theory Forwarding
  imports File_Session_Reader "HOL-Library.Sublist"
begin

text \<open>
  Forwarding of sessions (\<^verbatim>\<open>src/horace-forward.cc\<close>): the loop that copies records from a session
  reader to a session writer, the retry around it and the loop that accepts sources. Reader and
  writer are interfaces; the contract of a source is shown for the filestore reader, so that
  what is known of the loop holds of forwarding from a filestore to any destination.
\<close>

section \<open>Sources and destinations\<close>

record 's source_ops =
  src_read :: "('s, hrecord) act"
  src_write :: "hrecord \<Rightarrow> ('s, unit) act"
  src_reset :: "'s \<Rightarrow> bool \<times> 's"

text \<open>
  The state of a destination outlives its session writers: \<open>dst_make\<close> is \<^verbatim>\<open>make_session_writer\<close>,
  \<open>dst_drop\<close> the destructor of the session writer.
\<close>

record 'e dest_ops =
  dst_make :: "string \<Rightarrow> ('e, unit) act"
  dst_write :: "hrecord \<Rightarrow> ('e, unit) act"
  dst_readable :: "('e, bool) act"
  dst_read :: "('e, hrecord) act"
  dst_drop :: "'e \<Rightarrow> 'e"

datatype log_level = Log_Err | Log_Warning | Log_Notice

record ('s, 'e) forwarding =
  fw_src :: 's
  fw_dst :: 'e
  fw_expected :: u64
  fw_initial :: bool
  fw_log :: "(log_level \<times> string) list"

definition forwarding_init :: "'s \<Rightarrow> 'e \<Rightarrow> ('s, 'e) forwarding" where
  "forwarding_init s e = \<lparr>fw_src = s, fw_dst = e, fw_expected = 0, fw_initial = True, fw_log = []\<rparr>"

definition on_src :: "('s, 'a) act \<Rightarrow> (('s, 'e) forwarding, 'a) act" where
  "on_src m f = (case m (fw_src f) of (x, s) \<Rightarrow> (x, f\<lparr>fw_src := s\<rparr>))"

definition on_dst :: "('e, 'a) act \<Rightarrow> (('s, 'e) forwarding, 'a) act" where
  "on_dst m f = (case m (fw_dst f) of (x, e) \<Rightarrow> (x, f\<lparr>fw_dst := e\<rparr>))"

definition put_log :: "log_level \<Rightarrow> string \<Rightarrow> (('s, 'e) forwarding, unit) act" where
  "put_log l m = modifyS (\<lambda>f. f\<lparr>fw_log := fw_log f @ [(l, m)]\<rparr>)"

section \<open>Forwarding one source\<close>

definition record_message :: "hrecord \<Rightarrow> string result" where
  "record_message r = bindE (record_find_one attrid_message r) as_string"

definition handle_unexpected_record :: "'s source_ops \<Rightarrow> hrecord \<Rightarrow> (('s, 'e) forwarding, unit) act" where
  "handle_unexpected_record src r =
     (if rec_channel r = channel_error then
        bindS (liftS (record_message r)) (\<lambda>m. throwS (Horace_Error (''remote error: '' @ m)))
      else if rec_channel r = channel_warning then
        bindS (liftS (record_message r)) (\<lambda>m.
        seqS (put_log Log_Warning (''remote warning: '' @ m)) (on_src (src_write src r)))
      else throwS (Horace_Error ''unexpected record type from destination''))"

text \<open>
  \<^verbatim>\<open>protocol_version\<close> is a global that may be null; the version of the record is truncated to
  an \<^verbatim>\<open>unsigned int\<close>.
\<close>

definition check_protocol :: "u32 option \<Rightarrow> hrecord \<Rightarrow> unit result" where
  "check_protocol protocol r =
     (case protocol of
        None \<Rightarrow> Inr ()
      | Some v \<Rightarrow>
          (if record_contains attrid_protocol r then
             bindE (bindE (record_find_one attrid_protocol r) as_unsigned_integer) (\<lambda>w.
               if (ucast w :: u32) \<noteq> v then Inl (Horace_Error ''unsupported protocol version'') else Inr ())
           else Inl (Horace_Error ''unspecified protocol version'')))"

definition note_seqnum :: "hrecord \<Rightarrow> (('s, 'e) forwarding, unit) act" where
  "note_seqnum r =
     (if is_event r then
        bindS (liftS (bindE (record_find_one attrid_seqnum r) as_unsigned_integer)) (\<lambda>n.
        bindS (getS (\<lambda>f. (fw_initial f, fw_expected f))) (\<lambda>(initial, expected).
        seqS (if initial then
                seqS (put_log Log_Notice (''forwarding from seqnum='' @ dec_nat (unat n)))
                  (modifyS (\<lambda>f. f\<lparr>fw_initial := False\<rparr>))
              else if n \<noteq> expected then
                put_log Log_Warning (''seqnum discontinuity (expected='' @ dec_nat (unat expected)
                  @ '', observed='' @ dec_nat (unat n) @ '')'')
              else returnS ())
          (modifyS (\<lambda>f. f\<lparr>fw_expected := n + 1\<rparr>))))
      else returnS ())"

text \<open>
  \<open>n\<close> is the number of records that the destination delivers before the process is told to
  terminate, which a blocked read reports as an exception.
\<close>

fun await_reply :: "'s source_ops \<Rightarrow> 'e dest_ops \<Rightarrow> nat \<Rightarrow> (('s, 'e) forwarding, unit) act" where
  "await_reply src dst 0 = throwS Terminate_Exception"
| "await_reply src dst (Suc n) =
     bindS (on_dst (dst_read dst)) (\<lambda>r.
       if rec_channel r = channel_sync then on_src (src_write src r)
       else seqS (handle_unexpected_record src r) (await_reply src dst n))"

definition forward_round :: "'s source_ops \<Rightarrow> 'e dest_ops \<Rightarrow> nat \<Rightarrow> (('s, 'e) forwarding, unit) act" where
  "forward_round src dst n =
     seqS (bindS (on_dst (dst_readable dst)) (\<lambda>b.
             if b then bindS (on_dst (dst_read dst)) (handle_unexpected_record src) else returnS ()))
    (bindS (on_src (src_read src)) (\<lambda>r.
     seqS (on_dst (dst_write dst r))
    (seqS (if rec_channel r = channel_sync then await_reply src dst n else returnS ())
          (note_seqnum r))))"

text \<open>
  Each element of the list is one time round the loop for which \<^verbatim>\<open>terminating.poll()\<close> returns; where
  the list ends it throws. The loop has no other way out than an exception.
\<close>

fun forward_loop :: "'s source_ops \<Rightarrow> 'e dest_ops \<Rightarrow> nat list \<Rightarrow> (('s, 'e) forwarding, unit) act" where
  "forward_loop src dst [] = throwS Terminate_Exception"
| "forward_loop src dst (n # ns) = seqS (forward_round src dst n) (forward_loop src dst ns)"

definition start_forwarding ::
  "u32 option \<Rightarrow> 's source_ops \<Rightarrow> 'e dest_ops \<Rightarrow> (('s, 'e) forwarding, hrecord) act" where
  "start_forwarding protocol src dst =
     seqS (modifyS (\<lambda>f. f\<lparr>fw_expected := 0, fw_initial := True\<rparr>))
    (bindS (on_src (src_read src)) (\<lambda>r.
       if rec_channel r \<noteq> channel_session then throwS (Horace_Error ''session record expected'')
       else
         seqS (liftS (check_protocol protocol r))
        (bindS (liftS (bindE (record_find_one attrid_source r) as_string)) (\<lambda>srcid.
         seqS (on_dst (dst_make dst srcid)) (returnS r)))))"

definition forward_one ::
  "u32 option \<Rightarrow> 's source_ops \<Rightarrow> 'e dest_ops \<Rightarrow> nat list \<Rightarrow> (('s, 'e) forwarding, unit) act" where
  "forward_one protocol src dst ns =
     bindS (start_forwarding protocol src dst) (\<lambda>r f.
       case seqS (on_dst (dst_write dst r)) (forward_loop src dst ns) f of
         (x, f') \<Rightarrow> (x, f'\<lparr>fw_dst := dst_drop dst (fw_dst f')\<rparr>))"

section \<open>Retrying\<close>

definition error_record :: "string \<Rightarrow> hrecord" where
  "error_record m = \<lparr>rec_channel = channel_error, rec_attributes = attr_insert (String_Attr attrid_message m) []\<rparr>"

text \<open>
  \<open>what\<close> is the member of the exception classes. There is one list of rounds for each attempt; an
  attempt for which there is none is not made, because the process has ended.
\<close>

fun forward_one_with_retry ::
  "(exn \<Rightarrow> string) \<Rightarrow> u32 option \<Rightarrow> 's source_ops \<Rightarrow> 'e dest_ops \<Rightarrow> nat list list
     \<Rightarrow> ('s, 'e) forwarding \<Rightarrow> ('s, 'e) forwarding" where
  "forward_one_with_retry what protocol src dst [] f = f"
| "forward_one_with_retry what protocol src dst (ns # attempts) f =
     (case forward_one protocol src dst ns f of
        (Inr _, f1) \<Rightarrow> f1
      | (Inl e, f1) \<Rightarrow>
          if e = Terminate_Exception then f1
          else
            (let f2 = f1\<lparr>fw_log := fw_log f1 @ [(Log_Err, what e)]\<rparr> in
             case src_reset src (fw_src f2) of
               (True, s) \<Rightarrow>
                 forward_one_with_retry what protocol src dst attempts
                   (f2\<lparr>fw_src := s, fw_log := fw_log f2 @ [(Log_Notice, ''will retry following error'')]\<rparr>)
             | (False, s) \<Rightarrow>
                 (case src_write src (error_record (what e)) s of
                    (Inr _, s') \<Rightarrow> f2\<lparr>fw_src := s'\<rparr>
                  | (Inl e', s') \<Rightarrow>
                      (if e' = Terminate_Exception then f2\<lparr>fw_src := s'\<rparr>
                       else f2\<lparr>fw_src := s', fw_log := fw_log f2 @ [(Log_Err, what e')]\<rparr>))))"

section \<open>Accepting sources\<close>

text \<open>
  One session reader for each accepted source; the threads that forward them are independent. The
  number bounds the times round the loop, as before.
\<close>

fun forward_all :: "('l, 's) act \<Rightarrow> nat \<Rightarrow> 'l \<Rightarrow> 's list \<times> exn option" where
  "forward_all accept 0 l = ([], None)"
| "forward_all accept (Suc n) l =
     (case accept l of
        (Inl e, l') \<Rightarrow> ([], if e = Terminate_Exception then None else Some e)
      | (Inr s, l') \<Rightarrow> (case forward_all accept n l' of (ss, x) \<Rightarrow> (s # ss, x)))"

section \<open>The contracts of source and destination\<close>

text \<open>
  \<open>holds s rs\<close>: the source is in order after the records \<open>rs\<close> were returned by it and accepted by
  the destination. \<open>fits s rs\<close>: what is left of the source is justified by \<open>rs\<close> having been accepted,
  even though the last operation may have failed.
\<close>

locale forwarding_source =
  fixes src :: "'s source_ops" and holds :: "'s \<Rightarrow> hrecord list \<Rightarrow> bool" and fits :: "'s \<Rightarrow> hrecord list \<Rightarrow> bool"
  assumes read_returns: "holds s rs \<Longrightarrow> src_read src s = (Inr r, s') \<Longrightarrow> holds s' (rs @ [r]) \<and> fits s' rs"
    and read_fails: "holds s rs \<Longrightarrow> src_read src s = (Inl e, s') \<Longrightarrow> fits s' rs"
    and write_returns: "holds s rs \<Longrightarrow> src_write src r s = (Inr (), s') \<Longrightarrow> holds s' rs"
    and write_fails: "holds s rs \<Longrightarrow> src_write src r s = (Inl e, s') \<Longrightarrow> fits s' rs"
    and holds_fits: "holds s rs \<Longrightarrow> fits s rs"

locale forwarding_destination =
  fixes dst :: "'e dest_ops" and accepted :: "'e \<Rightarrow> hrecord list"
  assumes write_accepts: "dst_write dst r e = (Inr (), e') \<Longrightarrow> accepted e' = accepted e @ [r]"
    and write_refuses: "dst_write dst r e = (Inl x, e') \<Longrightarrow> accepted e' = accepted e"
    and others_keep: "accepted (snd (dst_make dst i e)) = accepted e"
      "accepted (snd (dst_readable dst e)) = accepted e"
      "accepted (snd (dst_read dst e)) = accepted e"
      "accepted (dst_drop dst e) = accepted e"

text \<open>
  The records that a destination has accepted are known to whoever writes them.
\<close>

definition recording :: "'e dest_ops \<Rightarrow> ('e \<times> hrecord list) dest_ops" where
  "recording dst =
     \<lparr>dst_make = (\<lambda>i (e, rs). case dst_make dst i e of (x, e') \<Rightarrow> (x, (e', rs))),
      dst_write = (\<lambda>r (e, rs). case dst_write dst r e of
          (Inr u, e') \<Rightarrow> (Inr u, (e', rs @ [r])) | (Inl x, e') \<Rightarrow> (Inl x, (e', rs))),
      dst_readable = (\<lambda>(e, rs). case dst_readable dst e of (x, e') \<Rightarrow> (x, (e', rs))),
      dst_read = (\<lambda>(e, rs). case dst_read dst e of (x, e') \<Rightarrow> (x, (e', rs))),
      dst_drop = (\<lambda>(e, rs). (dst_drop dst e, rs))\<rparr>"

interpretation recorded: forwarding_destination "recording dst" snd for dst
  by unfold_locales (auto simp: recording_def split: prod.splits sum.splits)

locale forwarding_pair = forwarding_source src holds fits + forwarding_destination dst accepted
  for src :: "'s source_ops" and holds and fits and dst :: "'e dest_ops" and accepted
begin

definition in_order :: "('s, 'e) forwarding \<Rightarrow> bool" where
  "in_order f \<longleftrightarrow> holds (fw_src f) (accepted (fw_dst f))"

definition justified :: "('s, 'e) forwarding \<Rightarrow> bool" where
  "justified f \<longleftrightarrow> fits (fw_src f) (accepted (fw_dst f))"

definition keeps :: "(('s, 'e) forwarding, 'a) act \<Rightarrow> bool" where
  "keeps m \<longleftrightarrow> (\<forall>f x f'. in_order f \<longrightarrow> m f = (x, f') \<longrightarrow> justified f' \<and> (\<forall>y. x = Inr y \<longrightarrow> in_order f'))"

lemma in_order_justified: "in_order f \<Longrightarrow> justified f"
  by (simp add: in_order_def justified_def holds_fits)

lemma keepsD: "keeps m \<Longrightarrow> in_order f \<Longrightarrow> m f = (x, f') \<Longrightarrow> justified f' \<and> (\<forall>y. x = Inr y \<longrightarrow> in_order f')"
  by (auto simp: keeps_def)

lemma keeps_bind: "keeps m \<Longrightarrow> (\<And>x. keeps (k x)) \<Longrightarrow> keeps (bindS m k)"
  unfolding keeps_def bindS_def
proof (intro allI impI)
  fix f x f'
  assume m: "\<forall>f x f'. in_order f \<longrightarrow> m f = (x, f') \<longrightarrow> justified f' \<and> (\<forall>y. x = Inr y \<longrightarrow> in_order f')"
    and k: "\<And>y. \<forall>f x f'. in_order f \<longrightarrow> k y f = (x, f') \<longrightarrow> justified f' \<and> (\<forall>y. x = Inr y \<longrightarrow> in_order f')"
    and f: "in_order f"
    and run: "(case m f of (Inl e, s') \<Rightarrow> (Inl e, s') | (Inr x, s') \<Rightarrow> k x s') = (x, f')"
  obtain y f1 where y: "m f = (y, f1)"
    by fastforce
  show "justified f' \<and> (\<forall>y. x = Inr y \<longrightarrow> in_order f')"
  proof (cases y)
    case (Inl e)
    with m f y run show ?thesis
      by auto
  next
    case (Inr z)
    with m f y have "in_order f1"
      by blast
    with k run y Inr show ?thesis
      by auto
  qed
qed

lemma keeps_seq: "keeps m \<Longrightarrow> keeps k \<Longrightarrow> keeps (seqS m k)"
  unfolding seqS_def by (rule keeps_bind)

lemma keeps_pure:
  "keeps (returnS y)" "keeps (throwS e)" "keeps (liftS z)" "keeps (getS g)" "keeps (put_log l m)"
  "(\<And>f. fw_src (g' f) = fw_src f \<and> fw_dst (g' f) = fw_dst f) \<Longrightarrow> keeps (modifyS g')"
  by (auto simp: keeps_def act_simps put_log_def in_order_def justified_def holds_fits)

lemma keeps_src_write: "keeps (on_src (src_write src r))"
  unfolding keeps_def
proof (intro allI impI)
  fix f x f'
  assume f: "in_order f" and run: "on_src (src_write src r) f = (x, f')"
  obtain y s' where s: "src_write src r (fw_src f) = (y, s')"
    by fastforce
  with run f show "justified f' \<and> (\<forall>y. x = Inr y \<longrightarrow> in_order f')"
    by (cases y) (auto simp: on_src_def in_order_def justified_def holds_fits
        intro: write_returns write_fails dest: write_returns)
qed

lemma keeps_dst:
  "keeps (on_dst (dst_make dst i))" "keeps (on_dst (dst_readable dst))" "keeps (on_dst (dst_read dst))"
  unfolding keeps_def using others_keep
  by (auto simp: on_dst_def in_order_def justified_def holds_fits split: prod.splits)
    (metis snd_conv holds_fits)+

lemmas keeps_intros = keeps_bind keeps_seq keeps_pure keeps_src_write keeps_dst

lemma keeps_unexpected: "keeps (handle_unexpected_record src r)"
  unfolding handle_unexpected_record_def by (auto intro!: keeps_intros)

lemma keeps_await: "keeps (await_reply src dst n)"
proof (induction n)
  case (Suc n)
  then show ?case
    by (auto intro!: keeps_intros keeps_unexpected)
qed (auto intro: keeps_intros)

lemma keeps_note: "keeps (note_seqnum r)"
  unfolding note_seqnum_def by (auto intro!: keeps_intros split: prod.split)

text \<open>
  A record that was read and then accepted.
\<close>

lemma keeps_read_write:
  assumes "\<And>r. keeps (k r)"
  shows "keeps (bindS (on_src (src_read src)) (\<lambda>r. seqS (on_dst (dst_write dst r)) (k r)))"
  unfolding keeps_def
proof (intro allI impI)
  fix f x f'
  assume f: "in_order f"
    and run: "bindS (on_src (src_read src)) (\<lambda>r. seqS (on_dst (dst_write dst r)) (k r)) f = (x, f')"
  obtain y s' where s: "src_read src (fw_src f) = (y, s')"
    by fastforce
  show "justified f' \<and> (\<forall>y. x = Inr y \<longrightarrow> in_order f')"
  proof (cases y)
    case (Inl e)
    with run f s read_fails show ?thesis
      by (auto simp: bindS_def on_src_def in_order_def justified_def)
  next
    case (Inr r)
    obtain z e' where d: "dst_write dst r (fw_dst f) = (z, e')"
      by fastforce
    let ?f = "f\<lparr>fw_src := s', fw_dst := e'\<rparr>"
    show ?thesis
    proof (cases z)
      case (Inl e)
      with run f s d \<open>y = Inr r\<close> read_returns[of "fw_src f" _ r s'] write_refuses[of r "fw_dst f" e e']
      show ?thesis
        by (auto simp: bindS_def seqS_def on_src_def on_dst_def in_order_def justified_def)
    next
      case (Inr u)
      with f s d \<open>y = Inr r\<close> read_returns[of "fw_src f" _ r s'] write_accepts[of r "fw_dst f" e']
      have "in_order ?f"
        by (simp add: in_order_def)
      moreover have "k r ?f = (x, f')"
        using run s d \<open>y = Inr r\<close> Inr by (simp add: bindS_def seqS_def on_src_def on_dst_def)
      ultimately show ?thesis
        using keepsD[OF assms] by blast
    qed
  qed
qed

lemma keeps_round: "keeps (forward_round src dst n)"
  unfolding forward_round_def
  by (auto intro!: keeps_intros keeps_read_write keeps_unexpected keeps_await keeps_note)

lemma keeps_loop: "keeps (forward_loop src dst ns)"
  by (induction ns) (auto intro!: keeps_intros keeps_round)

lemma start_read:
  assumes f: "in_order f" and run: "start_forwarding protocol src dst f = (y, f1)"
  shows "justified f1 \<and> (\<forall>r. y = Inr r \<longrightarrow> holds (fw_src f1) (accepted (fw_dst f1) @ [r]))"
proof -
  let ?g = "f\<lparr>fw_expected := 0, fw_initial := True\<rparr>"
  obtain q s' where s: "src_read src (fw_src f) = (q, s')"
    by fastforce
  show ?thesis
  proof (cases q)
    case (Inl e)
    with run s f read_fails show ?thesis
      by (auto simp: start_forwarding_def act_simps on_src_def in_order_def justified_def)
  next
    case (Inr r)
    with f s read_returns have h: "holds s' (accepted (fw_dst f) @ [r])" "fits s' (accepted (fw_dst f))"
      by (auto simp: in_order_def)
    have "accepted (fw_dst f1) = accepted (fw_dst f) \<and> fw_src f1 = s' \<and> (\<forall>r'. y = Inr r' \<longrightarrow> r' = r)"
      using run s Inr others_keep(1)[of _ "fw_dst f"]
      by (auto simp: start_forwarding_def act_simps on_src_def on_dst_def split: if_splits sum.splits prod.splits)
        (metis snd_conv)+
    with h show ?thesis
      by (auto simp: justified_def)
  qed
qed

lemma forward_one_justified:
  assumes f: "in_order f" and run: "forward_one protocol src dst ns f = (x, f')"
  shows "justified f'"
proof -
  have drop: "justified (g\<lparr>fw_dst := dst_drop dst (fw_dst g)\<rparr>) = justified g" for g :: "('s, 'e) forwarding"
    by (simp add: justified_def others_keep)
  obtain y f1 where y: "start_forwarding protocol src dst f = (y, f1)"
    by fastforce
  show ?thesis
  proof (cases y)
    case (Inl e)
    with run y start_read[OF f y] show ?thesis
      by (simp add: forward_one_def bindS_def)
  next
    case (Inr r)
    with start_read[OF f y] have h: "holds (fw_src f1) (accepted (fw_dst f1) @ [r])" and j: "justified f1"
      by auto
    obtain z e' where z: "dst_write dst r (fw_dst f1) = (z, e')"
      by fastforce
    obtain w f2 where w: "seqS (on_dst (dst_write dst r)) (forward_loop src dst ns) f1 = (w, f2)"
      by fastforce
    with run y Inr have f': "f' = f2\<lparr>fw_dst := dst_drop dst (fw_dst f2)\<rparr>"
      by (auto simp: forward_one_def bindS_def)
    have "justified f2"
    proof (cases z)
      case (Inl e)
      with w z j write_refuses[of r "fw_dst f1" e e'] show ?thesis
        by (auto simp: seqS_def bindS_def on_dst_def justified_def)
    next
      case (Inr u)
      with h z write_accepts[of r "fw_dst f1" e'] have "in_order (f1\<lparr>fw_dst := e'\<rparr>)"
        by (simp add: in_order_def)
      moreover have "forward_loop src dst ns (f1\<lparr>fw_dst := e'\<rparr>) = (w, f2)"
        using w z Inr by (simp add: seqS_def bindS_def on_dst_def)
      ultimately show ?thesis
        using keepsD[OF keeps_loop] by blast
    qed
    with f' drop show ?thesis
      by simp
  qed
qed

end

section \<open>Any source: records arrive in order\<close>

text \<open>
  The records a source has returned are known to whoever reads them.
\<close>

definition replaying :: "'s source_ops \<Rightarrow> ('s \<times> hrecord list) source_ops" where
  "replaying src =
     \<lparr>src_read = (\<lambda>(s, rs). case src_read src s of
          (Inr r, s') \<Rightarrow> (Inr r, (s', rs @ [r])) | (Inl e, s') \<Rightarrow> (Inl e, (s', rs))),
      src_write = (\<lambda>r (s, rs). case src_write src r s of (x, s') \<Rightarrow> (x, (s', rs))),
      src_reset = (\<lambda>(s, rs). case src_reset src s of (b, s') \<Rightarrow> (b, (s', rs)))\<rparr>"

interpretation replayed: forwarding_source "replaying src" "\<lambda>s rs. snd s = rs"
  "\<lambda>s rs. snd s = rs \<or> (\<exists>r. snd s = rs @ [r])" for src
  by unfold_locales (auto simp: replaying_def split: prod.splits sum.splits)

interpretation any: forwarding_pair "replaying src" "\<lambda>s rs. snd s = rs"
  "\<lambda>s rs. snd s = rs \<or> (\<exists>r. snd s = rs @ [r])" "recording dst" snd for src dst
  by unfold_locales

section \<open>Forwarding from a filestore\<close>

definition file_source :: "file_reader source_ops" where
  "file_source = \<lparr>src_read = reader_read, src_write = reader_write, src_reset = (\<lambda>d. (True, reader_reset d))\<rparr>"

text \<open>
  The records that octets hold when they are read one after the other: the session that the reading
  begins and ends with, and what is left. The end of a spoolfile is where a further record is cut
  off, or not there at all.
\<close>

inductive parses :: "session_context \<Rightarrow> octets \<Rightarrow> hrecord list \<Rightarrow> session_context \<Rightarrow> octets \<Rightarrow> bool" where
  parses_Nil: "parses s bs [] s bs"
| parses_snoc: "parses s bs rs s1 bs1 \<Longrightarrow> record_parse s1 bs1 = (Inr (r, bs2), s2) \<Longrightarrow> parses s bs (rs @ [r]) s2 bs2"

definition read_to_end :: "octets \<Rightarrow> hrecord list \<Rightarrow> bool" where
  "read_to_end bs rs \<longleftrightarrow> (\<exists>s s' rest. parses s bs rs s' rest \<and> fst (record_parse s' rest) = Inl Eof_Error)"

text \<open>
  All that a spoolfile held was accepted, in one piece and in order, with the sync request after it.
\<close>

definition covered :: "(string \<rightharpoonup> octets) \<Rightarrow> hrecord list \<Rightarrow> string \<Rightarrow> bool" where
  "covered disk rs p \<longleftrightarrow> (\<exists>bs fs us vs. disk p = Some bs \<and> read_to_end bs fs \<and> rs = us @ fs @ [sync_request] @ vs)"

definition deletions_covered :: "(string \<rightharpoonup> octets) \<Rightarrow> file_reader \<Rightarrow> hrecord list \<Rightarrow> bool" where
  "deletions_covered disk d rs \<longleftrightarrow> (\<forall>p. (fr_disk d p = disk p) \<or> (fr_disk d p = None \<and> covered disk rs p))"

definition reading_file :: "(string \<rightharpoonup> octets) \<Rightarrow> file_reader \<Rightarrow> spoolfile_reader \<Rightarrow> hrecord list \<Rightarrow> bool" where
  "reading_file disk d sr rs \<longleftrightarrow> (\<exists>bs. disk (sr_pathname sr) = Some bs
     \<and> (if fr_awaiting_sync d then read_to_end bs rs else \<exists>s. parses s bs rs (fr_context d) (sr_rest sr)))"

definition reader_tracks :: "(string \<rightharpoonup> octets) \<Rightarrow> file_reader \<Rightarrow> hrecord list \<Rightarrow> bool" where
  "reader_tracks disk d rs \<longleftrightarrow>
     (case fr_sfr d of
        None \<Rightarrow> rs = [] \<and> fr_disk d = disk \<and> \<not> fr_awaiting_sync d
      | Some sr \<Rightarrow> (\<exists>before cur. rs = before @ cur @ (if fr_awaiting_sync d then [sync_request] else [])
          \<and> deletions_covered disk d before \<and> reading_file disk d sr cur))"

lemma covered_append: "covered disk rs p \<Longrightarrow> covered disk (rs @ rs') p"
  by (force simp: covered_def)

lemma deletions_covered_append: "deletions_covered disk d rs \<Longrightarrow> deletions_covered disk d (rs @ rs')"
  unfolding deletions_covered_def using covered_append by blast

lemma deletions_covered_disk: "fr_disk d' = fr_disk d \<Longrightarrow> deletions_covered disk d' rs = deletions_covered disk d rs"
  by (simp add: deletions_covered_def)

lemma tracks_covered: "reader_tracks disk d rs \<Longrightarrow> deletions_covered disk d rs"
  by (auto simp: reader_tracks_def split: option.splits intro: deletions_covered_append)
    (simp add: deletions_covered_def)

lemma open_first_spec:
  "open_first d = (x, d') \<Longrightarrow> fr_sfr d = None \<Longrightarrow> fr_disk d' = fr_disk d \<and> fr_awaiting_sync d' = fr_awaiting_sync d
     \<and> (x = Inr () \<longrightarrow> (\<exists>sr. fr_sfr d' = Some sr \<and> fr_disk d (sr_pathname sr) = Some (sr_rest sr)))"
  by (auto simp: open_first_def find_first_def reader_next_pathname_def open_spoolfile_def act_simps
      split: if_splits option.splits sum.splits prod.splits)

lemma note_record_keeps:
  "note_record r d = (x, d') \<Longrightarrow> fr_disk d' = fr_disk d \<and> fr_sfr d' = fr_sfr d \<and> fr_context d' = fr_context d
     \<and> fr_awaiting_sync d' = fr_awaiting_sync d"
  by (auto simp: note_record_def act_simps split: if_splits sum.splits)

lemma note_record_not_eof: "note_record r d \<noteq> (Inl Eof_Error, d')"
proof -
  have cast: "as_timestamp a = Inl e \<Longrightarrow> e = Bad_Cast" "as_unsigned_integer a = Inl e \<Longrightarrow> e = Bad_Cast" for a e
    by (cases a; simp)+
  have "find_one i as \<noteq> Inl Eof_Error" for i as
  proof -
    have "find_one_loop i f as \<noteq> Inl Eof_Error" for f
      by (induction i f as rule: find_one_loop.induct) (auto split: option.splits)
    then show ?thesis
      by (simp add: find_one_def)
  qed
  then have "bindE (record_find_one i r) as_timestamp \<noteq> Inl Eof_Error"
    "bindE (record_find_one i r) as_unsigned_integer \<noteq> Inl Eof_Error" for i
    using cast by (fastforce simp: bindE_eq_Inl record_find_one_def)+
  then show ?thesis
    by (auto simp: note_record_def act_simps split: sum.splits)
qed

lemma read_open_file:
  assumes d: "fr_sfr d = Some sr" "reader_tracks disk d rs" and run: "reader_read d = (x, d')"
  shows "deletions_covered disk d' rs \<and> (\<forall>r. x = Inr r \<longrightarrow> reader_tracks disk d' (rs @ [r]))"
proof (cases "fr_awaiting_sync d")
  case True
  with d run show ?thesis
    by (auto simp: reader_read_def act_simps tracks_covered)
next
  case False
  with d(1) have body: "reader_read d = (case bindS read_spooled (\<lambda>r. seqS (note_record r) (returnS r)) d of
      (Inl e, d') \<Rightarrow> (if e = Eof_Error then (Inr sync_request, d'\<lparr>fr_awaiting_sync := True\<rparr>) else (Inl e, d'))
    | (Inr r, d') \<Rightarrow> (Inr r, d'))"
    by (simp add: reader_read_def act_simps)
  from d False obtain before cur bs s where rs: "rs = before @ cur" and cov: "deletions_covered disk d before"
    and bs: "disk (sr_pathname sr) = Some bs" and cur: "parses s bs cur (fr_context d) (sr_rest sr)"
    by (auto simp: reader_tracks_def reading_file_def)
  obtain y s' where y: "record_parse (fr_context d) (sr_rest sr) = (y, s')"
    by fastforce
  show ?thesis
  proof (cases y)
    case (Inl e)
    show ?thesis
    proof (cases "e = Eof_Error \<and> fr_disk d (sr_next_pathname sr) \<noteq> None")
      case False
      have "\<exists>e' d1. bindS read_spooled (\<lambda>r. seqS (note_record r) (returnS r)) d = (Inl e', d1)
        \<and> e' \<noteq> Eof_Error \<and> fr_disk d1 = fr_disk d"
      proof (cases "e = Eof_Error")
        case True
        with False Inl y d(1) show ?thesis
          by (simp add: bindS_def read_spooled_def)
      next
        case False
        with Inl y d(1) show ?thesis
          by (simp add: bindS_def read_spooled_def)
      qed
      then obtain e' d1 where "bindS read_spooled (\<lambda>r. seqS (note_record r) (returnS r)) d = (Inl e', d1)"
        and "e' \<noteq> Eof_Error" "fr_disk d1 = fr_disk d"
        by blast
      with body run have "fr_disk d' = fr_disk d \<and> (\<exists>e. x = Inl e)"
        by simp
      then show ?thesis
        using tracks_covered[OF d(2)] deletions_covered_disk[of d' d disk rs] by auto
    next
      case True
      then have "bindS read_spooled (\<lambda>r. seqS (note_record r) (returnS r)) d
        = (Inl Eof_Error, d\<lparr>fr_context := s', fr_sfr := Some (sr\<lparr>sr_rest := []\<rparr>)\<rparr>)"
        using Inl y d(1) by (simp add: bindS_def read_spooled_def)
      with body run have d': "d' = d\<lparr>fr_context := s', fr_sfr := Some (sr\<lparr>sr_rest := []\<rparr>), fr_awaiting_sync := True\<rparr>"
        and x: "x = Inr sync_request"
        by auto
      have "read_to_end bs cur"
        unfolding read_to_end_def by (rule exI[of _ s], rule exI[of _ "fr_context d"], rule exI[of _ "sr_rest sr"])
          (use cur y Inl True in simp)
      with rs cov bs have "reader_tracks disk d' (rs @ [sync_request])"
        by (auto simp: reader_tracks_def d' reading_file_def deletions_covered_def)
      with x d' tracks_covered[OF d(2)] show ?thesis
        by (simp add: deletions_covered_def)
    qed
  next
    case (Inr z)
    obtain r rest where z: "z = (r, rest)"
      by fastforce
    let ?d = "d\<lparr>fr_context := s', fr_sfr := Some (sr\<lparr>sr_rest := rest\<rparr>)\<rparr>"
    obtain w d2 where w: "note_record r ?d = (w, d2)"
      by fastforce
    note keep = note_record_keeps[OF w]
    have "read_spooled d = (Inr r, ?d)"
      using Inr z y d(1) by (simp add: read_spooled_def)
    then have "bindS read_spooled (\<lambda>r. seqS (note_record r) (returnS r)) d
      = (case w of Inl e \<Rightarrow> (Inl e, d2) | Inr _ \<Rightarrow> (Inr r, d2))"
      using w by (simp add: bindS_def seqS_def returnS_def)
    moreover have "w \<noteq> Inl Eof_Error"
      using w note_record_not_eof by blast
    ultimately have x: "(w = Inr () \<longrightarrow> x = Inr r) \<and> (\<forall>e. w = Inl e \<longrightarrow> x = Inl e) \<and> d' = d2"
      using body run by (cases w) auto
    have "deletions_covered disk d' rs"
      using tracks_covered[OF d(2)] x keep by (simp add: deletions_covered_def)
    moreover have "reader_tracks disk d' (rs @ [r])"
    proof -
      have "parses s bs (cur @ [r]) s' rest"
        using cur y Inr z by (auto intro: parses_snoc)
      then have "reading_file disk d' (sr\<lparr>sr_rest := rest\<rparr>) (cur @ [r])"
        using bs x keep False by (auto simp: reading_file_def)
      moreover have "deletions_covered disk d' before"
        using cov x keep by (simp add: deletions_covered_def)
      moreover have "fr_sfr d' = Some (sr\<lparr>sr_rest := rest\<rparr>)" "\<not> fr_awaiting_sync d'"
        using x keep False by simp_all
      ultimately show ?thesis
        unfolding reader_tracks_def using rs by (simp only: option.case) (intro exI[of _ before] exI[of _ "cur @ [r]"], simp)
    qed
    ultimately show ?thesis
      using x by (cases w) auto
  qed
qed

lemma read_tracks:
  assumes d: "reader_tracks disk d rs" and run: "reader_read d = (x, d')"
  shows "deletions_covered disk d' rs \<and> (\<forall>r. x = Inr r \<longrightarrow> reader_tracks disk d' (rs @ [r]))"
proof (cases "fr_sfr d")
  case (Some sr)
  with assms read_open_file show ?thesis
    by blast
next
  case None
  with d have rs: "rs = []" and disk: "fr_disk d = disk" and aw: "\<not> fr_awaiting_sync d"
    by (auto simp: reader_tracks_def)
  obtain y d1 where y: "open_first d = (y, d1)"
    by fastforce
  note first = open_first_spec[OF y None]
  show ?thesis
  proof (cases y)
    case (Inl e)
    with run None y have "x = Inl e \<and> d' = d1"
      by (auto simp: reader_read_def act_simps)
    with first disk show ?thesis
      by (simp add: deletions_covered_def)
  next
    case (Inr u)
    with first obtain sr where sr: "fr_sfr d1 = Some sr" "fr_disk d (sr_pathname sr) = Some (sr_rest sr)"
      by auto
    have "reader_read d1 = (x, d')"
      using run None y Inr sr by (simp add: reader_read_def act_simps)
    moreover have "reader_tracks disk d1 rs"
      using sr first rs disk aw by (auto simp: reader_tracks_def reading_file_def deletions_covered_def
          intro: parses_Nil)
    ultimately show ?thesis
      using read_open_file[OF sr(1)] by blast
  qed
qed

lemma unlink_covered:
  assumes "reader_unlink d = (x, d')" and "fr_sfr d = Some sr" and "deletions_covered disk d before"
    and "reading_file disk d sr cur" and "fr_awaiting_sync d"
  shows "deletions_covered disk d' (before @ cur @ [sync_request]) \<and> fr_sfr d' = Some sr
    \<and> fr_awaiting_sync d' \<and> fr_context d' = fr_context d"
proof -
  have "covered disk (before @ cur @ [sync_request]) (sr_pathname sr)"
    using assms(4,5) by (fastforce simp: reading_file_def covered_def)
  with assms(1,2) deletions_covered_append[OF assms(3), of "cur @ [sync_request]"] assms(5) show ?thesis
    by (auto simp: reader_unlink_def deletions_covered_def split: if_splits)
qed

lemma advance_spec:
  "advance d = (x, d') \<Longrightarrow> fr_sfr d = Some sr \<Longrightarrow> fr_disk d' = fr_disk d \<and> fr_awaiting_sync d' = fr_awaiting_sync d
     \<and> (x = Inr () \<longrightarrow> (\<exists>sr'. fr_sfr d' = Some sr' \<and> fr_disk d (sr_pathname sr') = Some (sr_rest sr')))"
  by (auto simp: advance_def act_simps open_spoolfile_def reader_next_pathname_def
      split: option.splits if_splits)

lemma fresh_file_tracks:
  assumes "deletions_covered disk d rs" and "fr_sfr d = Some sr" and "fr_disk d (sr_pathname sr) = Some (sr_rest sr)"
    and "\<not> fr_awaiting_sync d"
  shows "reader_tracks disk d rs"
proof -
  have "disk (sr_pathname sr) = Some (sr_rest sr)"
    using assms(1,3) by (metis deletions_covered_def option.distinct(1))
  then have "reading_file disk d sr []"
    using assms(4) by (auto simp: reading_file_def intro: parses_Nil)
  with assms show ?thesis
    by (auto simp: reader_tracks_def)
qed

lemma write_tracks:
  assumes d: "reader_tracks disk d rs" and run: "reader_write r d = (x, d')"
  shows "deletions_covered disk d' rs \<and> (x = Inr () \<longrightarrow> reader_tracks disk d' rs)"
proof (cases "rec_channel r = channel_sync \<and> check_sync r d = Inr ()")
  case False
  with run have "d' = d"
    by (cases "check_sync r d") (auto simp: reader_write_def reader_handle_sync_def act_simps channel_constants
        split: if_splits)
  with d tracks_covered show ?thesis
    by blast
next
  case True
  then have run': "reader_handle_sync r d = (x, d')" and aw: "fr_awaiting_sync d"
    using run by (auto simp: reader_write_def channel_constants check_sync_def split: if_splits)
  show ?thesis
  proof (cases "fr_sfr d")
    case None
    with d aw show ?thesis
      by (simp add: reader_tracks_def)
  next
    case (Some sr)
    with d aw obtain before cur where rs: "rs = before @ cur @ [sync_request]"
      and cov: "deletions_covered disk d before" and cur: "reading_file disk d sr cur"
      by (auto simp: reader_tracks_def)
    obtain y d1 where y: "(if fr_nodelete d then returnS () else reader_unlink) d = (y, d1)"
      by fastforce
    have d1: "deletions_covered disk d1 rs \<and> fr_sfr d1 = Some sr \<and> fr_awaiting_sync d1"
      using y unlink_covered[OF _ Some cov cur aw] tracks_covered[OF d] Some aw rs
      by (auto simp: returnS_def split: if_splits)
    obtain z d2 where z: "advance d1 = (z, d2)"
      by fastforce
    have eq: "reader_handle_sync r d = (case y of Inl e \<Rightarrow> (Inl e, d1) | Inr _ \<Rightarrow>
        (case z of Inl e \<Rightarrow> (Inl e, d2) | Inr _ \<Rightarrow> (Inr (), d2\<lparr>fr_awaiting_sync := False\<rparr>)))"
      using True y z by (cases y) (simp_all add: reader_handle_sync_def seqS_def bindS_def getS_def modifyS_def)
    have d2: "deletions_covered disk d2 rs"
      using d1 advance_spec[OF z] deletions_covered_disk[of d2 d1 disk rs] by auto
    show ?thesis
    proof (cases "\<exists>u. y = Inr u \<and> z = Inr ()")
      case True
      with eq run' have d': "d' = d2\<lparr>fr_awaiting_sync := False\<rparr>"
        by auto
      from True advance_spec[OF z] d1 obtain sr' where "fr_sfr d2 = Some sr'" "fr_disk d2 (sr_pathname sr') = Some (sr_rest sr')"
        by auto
      with d2 d' fresh_file_tracks[of disk d' rs sr'] show ?thesis
        by (simp add: deletions_covered_def)
    next
      case False
      with eq run' d1 d2 show ?thesis
        by (cases y; cases z) auto
    qed
  qed
qed

interpretation filestore: forwarding_source file_source "reader_tracks disk" "deletions_covered disk" for disk
proof
  fix d rs r d'
  show "reader_tracks disk d (rs @ [r]) \<and> deletions_covered disk d rs"
    if "reader_tracks disk d' rs" "src_read file_source d' = (Inr r, d)" for d'
    using that read_tracks by (auto simp: file_source_def)
qed (auto simp: file_source_def tracks_covered dest: read_tracks write_tracks)

interpretation from_filestore: forwarding_pair file_source "reader_tracks disk" "deletions_covered disk"
  "recording dst" snd for disk dst
  by unfold_locales

section \<open>Session writers as destinations\<close>

text \<open>
  A destination that makes session writers over the handlers \<open>h\<close>; \<open>mk\<close> is the constructor of the
  derived part.
\<close>

definition simple_destination :: "'d handlers \<Rightarrow> (string \<Rightarrow> 'd) \<Rightarrow> 'd session_writer dest_ops" where
  "simple_destination h mk =
     \<lparr>dst_make = (\<lambda>i _. (Inr (), session_writer_init i (mk i))), dst_write = write_record h,
      dst_readable = (\<lambda>s. (Inr (readable s), s)), dst_read = read_record, dst_drop = (\<lambda>s. s)\<rparr>"

section \<open>Properties\<close>

text \<open>
  Whatever the source and the destination, and however often the loop runs, what the
  destination has accepted is exactly what the source has returned, in the same order, with
  the last record missing where its write failed or was never attempted.
\<close>

lemma forwarded_in_order:
  assumes "forward_one protocol (replaying src) (recording dst) ns (forwarding_init (s, []) (e, [])) = (x, f)"
  shows "snd (fw_src f) = snd (fw_dst f) \<or> (\<exists>r. snd (fw_src f) = snd (fw_dst f) @ [r])"
proof -
  have "any.in_order (forwarding_init (s, []) (e, []))"
    by (simp add: any.in_order_def forwarding_init_def)
  from any.forward_one_justified[OF this assms] show ?thesis
    by (simp add: any.justified_def)
qed

definition sample_filestore :: file_reader where
  "sample_filestore = (sample_reader (octets_of [sample_session, sample_event 4]))\<lparr>fr_minwidth := 6\<rparr>"

definition sample_forwarding where
  "sample_forwarding = forward_one None file_source (recording (simple_destination null_handlers (\<lambda>i. ())))
     [1, 1, 1, 1] (forwarding_init sample_filestore (session_writer_init ''x'' (), []))"

lemma forwarded_in_order_witness:
  "let f = snd (forward_one None (replaying file_source) (recording (simple_destination null_handlers (\<lambda>i. ())))
      [1, 1] (forwarding_init (sample_filestore, []) (session_writer_init ''x'' (), [])))
   in snd (fw_src f) = snd (fw_dst f) \<or> (\<exists>r. snd (fw_src f) = snd (fw_dst f) @ [r])"
  unfolding Let_def by (rule forwarded_in_order[OF surjective_pairing])

text \<open>
  C4: a spoolfile disappears from the filestore only after everything that it holds, up to the end
  that a reader sees, has been accepted by the destination in one piece and in order, and a
  sync record after it.
\<close>

theorem deleted_after_forwarding:
  assumes "fr_sfr d = None" and "\<not> fr_awaiting_sync d"
    and "forward_one protocol file_source (recording dst) ns (forwarding_init d (e, [])) = (x, f)"
    and "fr_disk d p = Some bs" and "fr_disk (fw_src f) p \<noteq> Some bs"
  shows "\<exists>fs us vs. read_to_end bs fs \<and> snd (fw_dst f) = us @ fs @ [sync_request] @ vs"
proof -
  have "from_filestore.in_order (fr_disk d) (forwarding_init d (e, []))"
    using assms(1,2) by (simp add: from_filestore.in_order_def forwarding_init_def reader_tracks_def)
  from from_filestore.forward_one_justified[OF this assms(3)]
  have "deletions_covered (fr_disk d) (fw_src f) (snd (fw_dst f))"
    by (simp add: from_filestore.justified_def)
  with assms(4,5) have "covered (fr_disk d) (snd (fw_dst f)) p"
    unfolding deletions_covered_def by metis
  with assms(4) show ?thesis
    by (auto simp: covered_def)
qed

lemma deleted_after_forwarding_witness:
  "\<exists>fs us vs. read_to_end (octets_of [sample_session, sample_event 4]) fs
    \<and> snd (fw_dst (snd sample_forwarding)) = us @ fs @ [sync_request] @ vs"
proof (rule deleted_after_forwarding[of sample_filestore None _ _ _ "fst sample_forwarding"])
  have "fr_disk (fw_src (snd sample_forwarding)) ''/s/a/000000'' = None"
    unfolding sample_forwarding_def by code_simp
  then show "fr_disk (fw_src (snd sample_forwarding)) ''/s/a/000000'' \<noteq> Some (octets_of [sample_session, sample_event 4])"
    by simp
qed (simp_all add: sample_filestore_def sample_reader_def file_reader_init_def sample_forwarding_def)

end
