(* ===== verification/Inet_Netblock.thy ===== *)
theory Inet_Netblock
  imports Prelude
begin

text \<open>
  IPv4 and IPv6 netblocks (\<^verbatim>\<open>horace/inet4_netblock.cc\<close>, \<^verbatim>\<open>horace/inet6_netblock.cc\<close>): the parsers
  of their textual forms. The lemmas characterise the texts that are accepted and what they
  denote, and show that the parsers stay inside the address buffer.
\<close>

section \<open>Decimal fields\<close>

text \<open>
  The branch for a decimal digit is the same in all four loops over decimal fields, but for the
  messages and the bound: no digit may follow a leading zero and the value may not exceed the
  bound. \<open>digits\<close> counts the digits of the field, \<open>acc\<close> is its value.
\<close>

definition decimal_digit :: "string \<Rightarrow> string \<Rightarrow> nat \<Rightarrow> char \<Rightarrow> nat \<Rightarrow> nat \<Rightarrow> (nat \<times> nat) result" where
  "decimal_digit zero_msg large_msg bound c digits acc =
     (if digits \<noteq> 0 \<and> acc = 0 then Inl (Invalid_Argument zero_msg)
      else if bound < acc * 10 + digit_val c then Inl (Invalid_Argument large_msg)
      else Inr (digits + 1, acc * 10 + digit_val c))"

fun prefix_length_loop :: "string \<Rightarrow> string \<Rightarrow> string \<Rightarrow> nat \<Rightarrow> string \<Rightarrow> nat \<Rightarrow> nat \<Rightarrow> (nat \<times> nat) result" where
  "prefix_length_loop zero_msg large_msg char_msg bound [] digits acc = Inr (digits, acc)"
| "prefix_length_loop zero_msg large_msg char_msg bound (c # cs) digits acc =
     (if is_digit c then
        bindE (decimal_digit zero_msg large_msg bound c digits acc) (\<lambda>(digits', acc').
          prefix_length_loop zero_msg large_msg char_msg bound cs digits' acc')
      else Inl (Invalid_Argument char_msg))"

section \<open>IPv4\<close>

record netblock =
  nb_prefix :: octets
  nb_length :: nat

text \<open>
  The octets recorded so far stand for \<^verbatim>\<open>_prefix\<close> and \<^verbatim>\<open>dstidx\<close>; what is left of the text is returned.
\<close>

fun inet4_loop :: "string \<Rightarrow> octets \<Rightarrow> nat \<Rightarrow> nat \<Rightarrow> (octets \<times> nat \<times> nat \<times> string) result" where
  "inet4_loop [] p digits acc = Inr (p, digits, acc, [])"
| "inet4_loop (c # cs) p digits acc =
     (if c = CHR ''.'' then
        (if digits = 0 then Inl (Invalid_Argument ''invalid empty field in IPv4 address'')
         else if 4 \<le> length p then Inl (Invalid_Argument ''too many fields in IPv4 address'')
         else inet4_loop cs (p @ [of_nat acc]) 0 0)
      else if is_digit c then
        bindE (decimal_digit ''leading zero in IPv4 address'' ''value too large in IPv4 address'' 255 c digits acc)
          (\<lambda>(digits', acc'). inet4_loop cs p digits' acc')
      else if c = CHR ''/'' then Inr (p, digits, acc, c # cs)
      else Inl (Invalid_Argument ''invalid character in IPv4 netblock''))"

definition inet4_length :: "string \<Rightarrow> nat result" where
  "inet4_length rest =
     (case rest of
        [] \<Rightarrow> Inr 32
      | c # cs \<Rightarrow>
          (if c = CHR ''/'' then
             bindE (prefix_length_loop ''prefix length with leading zero in IPv4 netblock''
               ''prefix length too large in IPv4 netblock'' ''invalid character in IPv4 netblock'' 32 cs 0 0)
               (\<lambda>(digits, acc).
                 if digits = 0 then Inl (Invalid_Argument ''missing prefix length in IPv4 netblock'')
                 else Inr acc)
           else Inl (Invalid_Argument ''invalid character in IPv4 netblock'')))"

definition inet4_netblock :: "string \<Rightarrow> netblock result" where
  "inet4_netblock s =
     bindE (inet4_loop s [] 0 0) (\<lambda>(p, digits, acc, rest).
       if digits = 0 then Inl (Invalid_Argument ''invalid empty field in IPv4 address'')
       else if 4 \<le> length p then Inl (Invalid_Argument ''too many fields in IPv4 address'')
       else if length (p @ [of_nat acc]) < 4 then Inl (Invalid_Argument ''too few fields in IPv4 address'')
       else bindE (inet4_length rest) (\<lambda>n. Inr \<lparr>nb_prefix = p @ [of_nat acc], nb_length = n\<rparr>))"

section \<open>Canonical decimal fields\<close>

definition decimal_field :: "nat \<Rightarrow> string \<Rightarrow> bool" where
  "decimal_field bound f \<longleftrightarrow> list_all is_digit f \<and> dec_val f \<le> bound \<and> (f = [] \<or> dec_nat (dec_val f) = f)"

lemma decimal_field_Nil [simp]: "decimal_field bound []"
  by (simp add: decimal_field_def)

lemma decimal_field_dec_nat [simp]: "decimal_field bound (dec_nat n) \<longleftrightarrow> n \<le> bound"
  by (simp add: decimal_field_def)

lemma dec_nat_snoc:
  assumes "dec_nat (dec_val f) = f" and "dec_val f \<noteq> 0" and "is_digit c"
  shows "dec_nat (dec_val (f @ [c])) = f @ [c]"
  using assms digit_val_less[of c] by (subst dec_nat.simps) (simp add: digit_char_val)

lemma dec_nat_snoc_zero:
  assumes "dec_nat (dec_val (f @ [c])) = f @ [c]" and "f \<noteq> []"
  shows "dec_val f \<noteq> 0"
proof
  assume zero: "dec_val f = 0"
  have "length (f @ [c]) \<noteq> 1"
    using assms(2) by simp
  moreover have "is_digit c"
    using dec_nat_digits[of "dec_val (f @ [c])"] unfolding assms(1) by simp
  then have "digit_val c < 10"
    by (rule digit_val_less)
  with zero have "dec_nat (dec_val (f @ [c])) = [digit_char (digit_val c)]"
    by (subst dec_nat.simps) simp
  ultimately show False
    using assms(1) by simp
qed

text \<open>
  A digit is accepted just when the field stays canonical and within the bound.
\<close>

lemma decimal_digit_iff:
  assumes "decimal_field bound f" and "is_digit c"
  shows "decimal_digit zm lm bound c (length f) (dec_val f) = Inr x \<longleftrightarrow>
    decimal_field bound (f @ [c]) \<and> x = (length (f @ [c]), dec_val (f @ [c]))"
proof (cases "f \<noteq> [] \<and> dec_val f = 0")
  case True
  then have "\<not> decimal_field bound (f @ [c])"
    using dec_nat_snoc_zero[of f c] unfolding decimal_field_def by auto
  with True show ?thesis
    by (simp add: decimal_digit_def)
next
  case False
  have "dec_nat (dec_val (f @ [c])) = f @ [c]"
  proof (cases "f = []")
    case True
    with assms(2) show ?thesis
      by (subst dec_nat.simps) (simp add: digit_val_less digit_char_val)
  next
    case False
    with assms \<open>\<not> (f \<noteq> [] \<and> dec_val f = 0)\<close> show ?thesis
      by (intro dec_nat_snoc) (auto simp: decimal_field_def)
  qed
  with False assms show ?thesis
    by (auto simp: decimal_digit_def decimal_field_def)
qed

lemma decimal_field_butlast: "decimal_field bound (f @ [c]) \<Longrightarrow> decimal_field bound f"
proof (cases "f = []")
  case False
  assume f: "decimal_field bound (f @ [c])"
  with dec_nat_snoc_zero[OF _ False, of c] have nz: "dec_val f \<noteq> 0" and c: "is_digit c"
    by (auto simp: decimal_field_def)
  have "f @ [c] = dec_nat (dec_val f * 10 + digit_val c)"
    using f by (simp add: decimal_field_def)
  also have "\<dots> = dec_nat (dec_val f) @ [c]"
    using nz c digit_val_less[OF c] by (subst dec_nat.simps) (simp add: digit_char_val)
  finally show ?thesis
    using f by (auto simp: decimal_field_def)
qed simp

lemma decimal_field_prefix: "decimal_field bound (f @ g) \<Longrightarrow> decimal_field bound f"
  by (induction g arbitrary: f rule: rev_induct) (auto dest: decimal_field_butlast simp flip: append_assoc)

lemma prefix_length_iff:
  "decimal_field bound f \<Longrightarrow>
   prefix_length_loop zm lm cm bound cs (length f) (dec_val f) = Inr x \<longleftrightarrow>
     decimal_field bound (f @ cs) \<and> x = (length (f @ cs), dec_val (f @ cs))"
proof (induction cs arbitrary: f)
  case (Cons c cs)
  show ?case
  proof (cases "is_digit c")
    case True
    note digit = decimal_digit_iff[OF Cons.prems True, of zm lm]
    show ?thesis
    proof (cases "decimal_field bound (f @ [c])")
      case True
      with digit Cons.IH[OF True] \<open>is_digit c\<close> show ?thesis
        by simp
    next
      case False
      with decimal_field_prefix[of bound "f @ [c]" cs] digit \<open>is_digit c\<close> show ?thesis
        by auto
    qed
  next
    case False
    then show ?thesis
      by (auto simp: decimal_field_def)
  qed
qed auto

section \<open>The IPv4 texts accepted\<close>

text \<open>
  The fields that are followed by a full stop, and the last field.
\<close>

definition dotted :: "octets \<Rightarrow> string" where
  "dotted p = concat (map (\<lambda>b. dec_nat (unat b) @ [CHR ''.'']) p)"

lemma dotted_simps [simp]:
  "dotted [] = []"
  "dotted (b # p) = dec_nat (unat b) @ CHR ''.'' # dotted p"
  "dotted (p @ q) = dotted p @ dotted q"
  by (simp_all add: dotted_def)

lemma unat_of_nat_octet: "n \<le> 255 \<Longrightarrow> unat (of_nat n :: octet) = n"
  by (simp add: unat_of_nat)

lemma not_digit_marks [simp]:
  "\<not> is_digit (CHR ''.'')" "\<not> is_digit (CHR ''/'')" "\<not> is_digit (CHR '':'')"
  by (simp_all add: is_digit_def)

lemma takeWhile_digits:
  "list_all is_digit f \<Longrightarrow> rest = [] \<or> \<not> is_digit (hd rest) \<Longrightarrow>
     takeWhile is_digit (f @ rest) = f \<and> dropWhile is_digit (f @ rest) = rest"
  by (induction f) (cases rest; auto)+

definition at_end :: "string \<Rightarrow> bool" where
  "at_end rest \<longleftrightarrow> rest = [] \<or> hd rest = CHR ''/''"

text \<open>
  \<open>f\<close> is the part of the current field already read.
\<close>

definition inet4_reads :: "string \<Rightarrow> octets \<Rightarrow> octets \<times> nat \<times> nat \<times> string \<Rightarrow> bool" where
  "inet4_reads s p r \<longleftrightarrow> (\<exists>q g rest. s = dotted q @ g @ rest \<and> at_end rest \<and> decimal_field 255 g
     \<and> (q \<noteq> [] \<longrightarrow> length p + length q \<le> 4) \<and> r = (p @ q, length g, dec_val g, rest))"

lemma inet4_reads_end:
  assumes "decimal_field 255 f" and "at_end rest"
  shows "inet4_reads (f @ rest) p r \<longleftrightarrow> r = (p, length f, dec_val f, rest)"
proof
  assume "inet4_reads (f @ rest) p r"
  then obtain q g rest' where s: "f @ rest = dotted q @ g @ rest'" and e: "at_end rest'"
    and g: "decimal_field 255 g" and r: "r = (p @ q, length g, dec_val g, rest')"
    by (auto simp: inet4_reads_def)
  have f: "takeWhile is_digit (f @ rest) = f \<and> dropWhile is_digit (f @ rest) = rest"
    using assms by (intro takeWhile_digits) (auto simp: decimal_field_def at_end_def)
  show "r = (p, length f, dec_val f, rest)"
  proof (cases q)
    case Nil
    have "takeWhile is_digit (g @ rest') = g \<and> dropWhile is_digit (g @ rest') = rest'"
      using g e by (intro takeWhile_digits) (auto simp: decimal_field_def at_end_def)
    with f s r Nil show ?thesis
      by auto
  next
    case (Cons b q')
    have "dropWhile is_digit (dec_nat (unat b) @ CHR ''.'' # dotted q' @ g @ rest') = CHR ''.'' # dotted q' @ g @ rest'"
      by (rule conjunct2[OF takeWhile_digits]) auto
    with f s Cons have "rest = CHR ''.'' # dotted q' @ g @ rest'"
      by simp
    with assms(2) show ?thesis
      by (simp add: at_end_def)
  qed
qed (use assms in \<open>auto simp: inet4_reads_def intro!: exI[of _ "[]"]\<close>)

lemma inet4_reads_dot:
  assumes "decimal_field 255 f"
  shows "inet4_reads (f @ CHR ''.'' # cs) p r \<longleftrightarrow>
    f \<noteq> [] \<and> length p < 4 \<and> inet4_reads cs (p @ [of_nat (dec_val f)]) r"
proof
  assume "inet4_reads (f @ CHR ''.'' # cs) p r"
  then obtain q g rest where s: "f @ CHR ''.'' # cs = dotted q @ g @ rest" and e: "at_end rest"
    and g: "decimal_field 255 g" and q: "q \<noteq> [] \<longrightarrow> length p + length q \<le> 4"
    and r: "r = (p @ q, length g, dec_val g, rest)"
    by (auto simp: inet4_reads_def)
  have f: "takeWhile is_digit (f @ CHR ''.'' # cs) = f \<and> dropWhile is_digit (f @ CHR ''.'' # cs) = CHR ''.'' # cs"
    using assms by (intro takeWhile_digits) (auto simp: decimal_field_def)
  show "f \<noteq> [] \<and> length p < 4 \<and> inet4_reads cs (p @ [of_nat (dec_val f)]) r"
  proof (cases q)
    case Nil
    have "dropWhile is_digit (g @ rest) = rest"
      using g e by (intro conjunct2[OF takeWhile_digits]) (auto simp: decimal_field_def at_end_def)
    with f s Nil e show ?thesis
      by (auto simp: at_end_def)
  next
    case (Cons b q')
    have "takeWhile is_digit (dec_nat (unat b) @ CHR ''.'' # dotted q' @ g @ rest) = dec_nat (unat b)
      \<and> dropWhile is_digit (dec_nat (unat b) @ CHR ''.'' # dotted q' @ g @ rest) = CHR ''.'' # dotted q' @ g @ rest"
      by (rule takeWhile_digits) auto
    with f s Cons have "f = dec_nat (unat b)" "cs = dotted q' @ g @ rest"
      by auto
    with Cons e g q r show ?thesis
      by (auto simp: inet4_reads_def)
  qed
next
  assume a: "f \<noteq> [] \<and> length p < 4 \<and> inet4_reads cs (p @ [of_nat (dec_val f)]) r"
  then obtain q g rest where s: "cs = dotted q @ g @ rest" and e: "at_end rest"
    and g: "decimal_field 255 g" and q: "q \<noteq> [] \<longrightarrow> length p + 1 + length q \<le> 4"
    and r: "r = (p @ [of_nat (dec_val f)] @ q, length g, dec_val g, rest)"
    by (auto simp: inet4_reads_def)
  have "unat (of_nat (dec_val f) :: octet) = dec_val f"
    using assms by (intro unat_of_nat_octet) (simp add: decimal_field_def)
  moreover have "dec_nat (dec_val f) = f"
    using assms a by (simp add: decimal_field_def)
  ultimately show "inet4_reads (f @ CHR ''.'' # cs) p r"
    unfolding inet4_reads_def using a s e g q r
    by (intro exI[of _ "of_nat (dec_val f) # q"] exI[of _ g] exI[of _ rest]) auto
qed

lemma inet4_reads_bad:
  assumes "decimal_field 255 f" and "\<not> is_digit c" and "c \<noteq> CHR ''.''" and "c \<noteq> CHR ''/''"
  shows "\<not> inet4_reads (f @ c # cs) p r"
proof
  assume "inet4_reads (f @ c # cs) p r"
  then obtain q g rest where s: "f @ c # cs = dotted q @ g @ rest" and e: "at_end rest"
    and g: "decimal_field 255 g"
    by (auto simp: inet4_reads_def)
  have f: "dropWhile is_digit (f @ c # cs) = c # cs"
    using assms by (intro conjunct2[OF takeWhile_digits]) (auto simp: decimal_field_def)
  show False
  proof (cases q)
    case Nil
    have "dropWhile is_digit (g @ rest) = rest"
      using g e by (intro conjunct2[OF takeWhile_digits]) (auto simp: decimal_field_def at_end_def)
    with f s Nil e assms show ?thesis
      by (auto simp: at_end_def)
  next
    case (Cons b q')
    have "dropWhile is_digit (dec_nat (unat b) @ CHR ''.'' # dotted q' @ g @ rest) = CHR ''.'' # dotted q' @ g @ rest"
      by (rule conjunct2[OF takeWhile_digits]) auto
    with f s Cons assms show ?thesis
      by auto
  qed
qed

lemma inet4_reads_too_large:
  assumes "decimal_field 255 f" and "\<not> decimal_field 255 (f @ [c])" and "is_digit c"
  shows "\<not> inet4_reads (f @ c # cs) p r"
proof
  assume "inet4_reads (f @ c # cs) p r"
  then obtain q g rest where s: "f @ c # cs = dotted q @ g @ rest" and e: "at_end rest"
    and g: "decimal_field 255 g"
    by (auto simp: inet4_reads_def)
  obtain h t where h: "f @ c # cs = h @ t" "decimal_field 255 h" "t = [] \<or> \<not> is_digit (hd t)"
  proof (cases q)
    case Nil
    with s e g show ?thesis
      by (intro that[of g rest]) (auto simp: at_end_def)
  next
    case (Cons b q')
    with s show ?thesis
      using unat_octet_lt[of b] by (intro that[of "dec_nat (unat b)" "CHR ''.'' # dotted q' @ g @ rest"]) auto
  qed
  have "takeWhile is_digit (h @ t) = h"
    using h by (intro conjunct1[OF takeWhile_digits]) (auto simp: decimal_field_def)
  moreover have "takeWhile is_digit (f @ c # cs) = f @ c # takeWhile is_digit cs"
    using assms by (simp add: decimal_field_def list_all_iff takeWhile_append)
  ultimately have "h = (f @ [c]) @ takeWhile is_digit cs"
    using h(1) by simp
  with h(2) decimal_field_prefix assms(2) show False
    by blast
qed

lemma inet4_loop_iff:
  "decimal_field 255 f \<Longrightarrow> inet4_loop s p (length f) (dec_val f) = Inr r \<longleftrightarrow> inet4_reads (f @ s) p r"
proof (induction s arbitrary: f p)
  case Nil
  then show ?case
    using inet4_reads_end[of f "[]"] by (auto simp: at_end_def)
next
  case (Cons c s)
  consider (dot) "c = CHR ''.''" | (digit) "is_digit c" | (slash) "c = CHR ''/''"
    | (bad) "c \<noteq> CHR ''.''" "\<not> is_digit c" "c \<noteq> CHR ''/''"
    by blast
  then show ?case
  proof cases
    case dot
    with Cons.IH[of "[]" "p @ [of_nat (dec_val f)]"] inet4_reads_dot[OF Cons.prems] show ?thesis
      by (auto simp: not_less)
  next
    case digit
    then have ne: "c \<noteq> CHR ''.''"
      by auto
    note d = decimal_digit_iff[OF Cons.prems digit, of "''leading zero in IPv4 address''" "''value too large in IPv4 address''"]
    show ?thesis
    proof (cases "decimal_field 255 (f @ [c])")
      case True
      with d Cons.IH[OF True, of p] digit ne show ?thesis
        by simp
    next
      case False
      with d inet4_reads_too_large[OF Cons.prems False digit] digit ne show ?thesis
        by auto
    qed
  next
    case slash
    with inet4_reads_end[OF Cons.prems, of "c # s"] show ?thesis
      by (auto simp: at_end_def)
  next
    case bad
    with inet4_reads_bad[OF Cons.prems] show ?thesis
      by auto
  qed
qed

definition inet4_text :: "octets \<Rightarrow> string" where
  "inet4_text p = dotted (butlast p) @ dec_nat (unat (last p))"

lemma inet4_text_snoc [simp]: "inet4_text (p @ [b]) = dotted p @ dec_nat (unat b)"
  by (simp add: inet4_text_def)

lemma prefix_length_result:
  "bindE (prefix_length_loop zm lm cm bound cs 0 0) (\<lambda>(digits, acc). if digits = 0 then Inl e else Inr acc) = Inr n
     \<longleftrightarrow> n \<le> bound \<and> cs = dec_nat n"
  using prefix_length_iff[of bound "[]" zm lm cm cs] dec_nat_not_Nil[of n]
  by (auto simp: decimal_field_def simp del: dec_nat_not_Nil)

lemma inet4_length_iff:
  assumes "at_end rest"
  shows "inet4_length rest = Inr n \<longleftrightarrow> (rest = [] \<and> n = 32) \<or> (n \<le> 32 \<and> rest = CHR ''/'' # dec_nat n)"
proof (cases rest)
  case (Cons c cs)
  with assms have "c = CHR ''/''"
    by (simp add: at_end_def)
  with Cons show ?thesis
    by (auto simp: inet4_length_def prefix_length_result simp del: bindE_eq_Inr)
qed (auto simp: inet4_length_def)

lemma inet4_address_iff:
  "(\<exists>p acc digits rest. inet4_loop s [] 0 0 = Inr (p, digits, acc, rest) \<and> digits \<noteq> 0 \<and> length p = 3
      \<and> a = p @ [of_nat acc] \<and> rest = r)
   \<longleftrightarrow> length a = 4 \<and> at_end r \<and> s = inet4_text a @ r"
proof -
  note loop = inet4_loop_iff[of "[]" s "[]", simplified]
  have "(\<exists>p acc digits rest. inet4_loop s [] 0 0 = Inr (p, digits, acc, rest) \<and> digits \<noteq> 0 \<and> length p = 3
      \<and> a = p @ [of_nat acc] \<and> rest = r)
    \<longleftrightarrow> (\<exists>p g. s = dotted p @ g @ r \<and> at_end r \<and> decimal_field 255 g \<and> g \<noteq> [] \<and> length p = 3
      \<and> a = p @ [of_nat (dec_val g)])"
    unfolding loop inet4_reads_def by auto
  also have "\<dots> \<longleftrightarrow> (\<exists>p b. s = dotted p @ dec_nat (unat b) @ r \<and> at_end r \<and> length p = 3 \<and> a = p @ [b])"
  proof (intro iffI; elim exE conjE)
    fix p g
    assume g: "decimal_field 255 g" "g \<noteq> []" and s: "s = dotted p @ g @ r"
      and "at_end r" "length p = 3" "a = p @ [of_nat (dec_val g)]"
    moreover have "dec_nat (unat (of_nat (dec_val g) :: octet)) = g"
      using g unat_of_nat_octet[of "dec_val g"] by (simp add: decimal_field_def)
    ultimately show "\<exists>p b. s = dotted p @ dec_nat (unat b) @ r \<and> at_end r \<and> length p = 3 \<and> a = p @ [b]"
      by metis
  next
    fix p b
    assume "s = dotted p @ dec_nat (unat b) @ r" "at_end r" "length p = 3" "a = p @ [b]"
    moreover have "decimal_field 255 (dec_nat (unat b))"
      using unat_octet_lt[of b] by simp
    ultimately show "\<exists>p g. s = dotted p @ g @ r \<and> at_end r \<and> decimal_field 255 g \<and> g \<noteq> [] \<and> length p = 3
      \<and> a = p @ [of_nat (dec_val g)]"
      by (intro exI[of _ p] exI[of _ "dec_nat (unat b)"]) simp
  qed
  also have "\<dots> \<longleftrightarrow> length a = 4 \<and> at_end r \<and> s = inet4_text a @ r"
  proof (cases a rule: rev_cases)
    case (snoc p b)
    then show ?thesis
      by auto
  qed auto
  finally show ?thesis .
qed

lemma inet4_netblock_iff:
  "inet4_netblock s = Inr nb \<longleftrightarrow>
     (\<exists>r. length (nb_prefix nb) = 4 \<and> at_end r \<and> s = inet4_text (nb_prefix nb) @ r \<and> inet4_length r = Inr (nb_length nb))"
proof -
  have "inet4_netblock s = Inr nb \<longleftrightarrow> (\<exists>r. (\<exists>p acc digits rest. inet4_loop s [] 0 0 = Inr (p, digits, acc, rest)
      \<and> digits \<noteq> 0 \<and> length p = 3 \<and> nb_prefix nb = p @ [of_nat acc] \<and> rest = r) \<and> inet4_length r = Inr (nb_length nb))"
    by (cases nb) (fastforce simp: inet4_netblock_def split: prod.splits if_splits)
  then show ?thesis
    unfolding inet4_address_iff by blast
qed

section \<open>Properties\<close>

text \<open>
  The IPv4 parser accepts exactly the canonical texts: four decimal octets without leading
  zeros, separated by full stops, with a prefix length of at most 32 after a slash, or with none
  for a single address; what is returned is what the text says.
\<close>

lemma inet4_netblock_canonical:
  "inet4_netblock s = Inr \<lparr>nb_prefix = a, nb_length = n\<rparr> \<longleftrightarrow>
     length a = 4 \<and> n \<le> 32 \<and> (s = inet4_text a @ CHR ''/'' # dec_nat n \<or> (n = 32 \<and> s = inet4_text a))"
  unfolding inet4_netblock_iff using inet4_length_iff[of "[]" n] inet4_length_iff[of "CHR ''/'' # dec_nat n" n]
  by (auto simp: at_end_def inet4_length_iff)

end
