(* ===== verification/Inet6_Netblock.thy ===== *)
theory Inet6_Netblock
  imports Inet_Netblock
begin

text \<open>
  IPv6 netblocks (\<^verbatim>\<open>horace/inet6_netblock.cc\<close>): the parser, and the texts that it accepts.
\<close>

section \<open>Parser\<close>

definition hex_value :: "char \<Rightarrow> nat option" where
  "hex_value c =
     (let n = of_char c :: nat in
      if 48 \<le> n \<and> n \<le> 57 then Some (n - 48)
      else if 65 \<le> n \<and> n \<le> 70 then Some (n - 65 + 10)
      else if 97 \<le> n \<and> n \<le> 102 then Some (n - 97 + 10)
      else None)"

definition group_octets :: "nat \<Rightarrow> octets" where
  "group_octets acc = [of_nat (acc div 256), of_nat acc]"

text \<open>
  Recording a group writes two octets at \<^verbatim>\<open>dstidx\<close>, which the code checks to be less than the
  length of the buffer; that the second is inside too is for the lemmas to show.
\<close>

definition put_group :: "octets \<Rightarrow> nat \<Rightarrow> octets result" where
  "put_group p acc =
     (if 16 \<le> length p then Inl (Invalid_Argument ''too many fields in IPv6 address'')
      else if 16 < length p + 2 then Inl (Undefined_Behaviour ''buffer'')
      else Inr (p @ group_octets acc))"

text \<open>
  \<open>f\<close> holds the characters of the current field, so that its length is \<^verbatim>\<open>digits\<close> and \<^verbatim>\<open>srcidx - digits\<close>
  is where it begins. \<open>first\<close> tells whether \<^verbatim>\<open>srcidx\<close> is zero, \<open>z\<close> is \<^verbatim>\<open>zidx\<close>.
\<close>

fun inet6_loop ::
  "bool \<Rightarrow> string \<Rightarrow> octets \<Rightarrow> nat option \<Rightarrow> string \<Rightarrow> nat
     \<Rightarrow> (octets \<times> nat option \<times> string \<times> nat \<times> string) result" where
  "inet6_loop first [] p z f acc = Inr (p, z, f, acc, [])"
| "inet6_loop first (c # cs) p z f acc =
     (if c = CHR '':'' then
        (if first then
           (if cs = [] \<or> hd cs \<noteq> CHR '':'' then Inl (Invalid_Argument ''invalid empty field in IPv6 address'')
            else inet6_loop False cs p z f acc)
         else if f = [] then
           (if z = None then inet6_loop False cs p (Some (length p)) f acc
            else Inl (Invalid_Argument ''multiple compressed fields in IPv6 address''))
         else bindE (put_group p acc) (\<lambda>p'. inet6_loop False cs p' z [] 0))
      else if c = CHR ''.'' then Inr (p, z, f, acc, c # cs)
      else if c = CHR ''/'' then Inr (p, z, f, acc, c # cs)
      else
        (case hex_value c of
           None \<Rightarrow> Inl (Invalid_Argument ''invalid character in IPv6 address'')
         | Some v \<Rightarrow>
             (if 4 < length f + 1 then Inl (Invalid_Argument ''field too long in IPv6 address'')
              else inet6_loop False cs p z (f @ [c]) (acc * 16 + v))))"

definition put_decimal :: "octets \<Rightarrow> nat \<Rightarrow> nat \<Rightarrow> octets result" where
  "put_decimal p k acc =
     (if 4 \<le> k then Inl (Invalid_Argument ''too many decimal fields in IPv6 address'')
      else if 16 \<le> length p then Inl (Undefined_Behaviour ''buffer'')
      else Inr (p @ [of_nat acc]))"

fun inet6_decimal :: "string \<Rightarrow> octets \<Rightarrow> nat \<Rightarrow> nat \<Rightarrow> nat \<Rightarrow> (octets \<times> nat \<times> nat \<times> nat \<times> string) result" where
  "inet6_decimal [] p k digits acc = Inr (p, k, digits, acc, [])"
| "inet6_decimal (c # cs) p k digits acc =
     (if c = CHR ''.'' then
        (if digits = 0 then Inl (Invalid_Argument ''invalid empty field in IPv6 address'')
         else bindE (put_decimal p k acc) (\<lambda>p'. inet6_decimal cs p' (k + 1) 0 0))
      else if is_digit c then
        bindE (decimal_digit ''decimal value with leading zero in IPv6 address''
            ''decimal value too large in IPv6 address'' 255 c digits acc)
          (\<lambda>(digits', acc'). inet6_decimal cs p k digits' acc')
      else if c = CHR ''/'' then Inr (p, k, digits, acc, c # cs)
      else Inl (Invalid_Argument ''invalid character in IPv6 address''))"

definition inet6_tail ::
  "octets \<times> nat option \<times> string \<times> nat \<times> string \<Rightarrow> (octets \<times> nat option \<times> string) result" where
  "inet6_tail = (\<lambda>(p, z, f, acc, rest).
     if rest \<noteq> [] \<and> hd rest = CHR ''.'' then
       (if 12 < length p then Inl (Invalid_Argument ''too many fields in IPv6 address'')
        else bindE (inet6_decimal (f @ rest) p 0 0 0) (\<lambda>(p1, k, digits, acc1, rest1).
          if digits = 0 then Inl (Invalid_Argument ''invalid empty field in IPv6 address'')
          else bindE (put_decimal p1 k acc1) (\<lambda>p2.
            if k + 1 < 4 then Inl (Invalid_Argument ''too few decimal fields in IPv6 address'')
            else Inr (p2, z, rest1))))
     else if f = [] then
       (if z \<noteq> Some (length p) then Inl (Invalid_Argument ''invalid empty field in IPv6 address'')
        else Inr (p, z, rest))
     else bindE (put_group p acc) (\<lambda>p'. Inr (p', z, rest)))"

text \<open>
  Decompression works on the buffer of sixteen octets, of which those after the fields are
  indeterminate (here zero); all of them are overwritten. The counters are one more than \<^verbatim>\<open>i\<close>.
\<close>

fun move_up :: "nat \<Rightarrow> nat \<Rightarrow> nat \<Rightarrow> octets \<Rightarrow> octets" where
  "move_up z offset 0 b = b"
| "move_up z offset (Suc i) b = (if z \<le> i then move_up z offset i (b[i + offset := b ! i]) else b)"

fun fill_zeros :: "nat \<Rightarrow> nat \<Rightarrow> octets \<Rightarrow> octets" where
  "fill_zeros z 0 b = b"
| "fill_zeros z (Suc i) b = (if z \<le> i then fill_zeros z i (b[i := 0]) else b)"

definition inet6_expand :: "octets \<Rightarrow> nat option \<Rightarrow> octets result" where
  "inet6_expand p z =
     (case z of
        None \<Rightarrow> if length p < 16 then Inl (Invalid_Argument ''too few fields in IPv6 address'') else Inr p
      | Some zidx \<Rightarrow>
          (if 16 \<le> length p then Inl (Invalid_Argument ''too many fields in IPv6 address'')
           else
             (let offset = 16 - length p; b = move_up zidx offset (length p) (p @ replicate offset 0)
              in Inr (fill_zeros zidx (zidx + offset) b))))"

definition inet6_length :: "string \<Rightarrow> nat result" where
  "inet6_length rest =
     (case rest of
        [] \<Rightarrow> Inr 128
      | c # cs \<Rightarrow>
          (if c = CHR ''/'' then
             bindE (prefix_length_loop ''prefix value with leading zero in IPv6 netblock''
               ''prefix length too large in IPv6 netblock'' ''invalid character in prefix length'' 128 cs 0 0)
               (\<lambda>(digits, acc).
                 if digits = 0 then Inl (Invalid_Argument ''missing prefix length in IPv6 netblock'')
                 else Inr acc)
           else Inl (Invalid_Argument ''invalid character in IPv6 netblock'')))"

definition inet6_netblock :: "string \<Rightarrow> netblock result" where
  "inet6_netblock s =
     bindE (inet6_loop True s [] None [] 0) (\<lambda>r.
     bindE (inet6_tail r) (\<lambda>(p, z, rest).
     bindE (inet6_expand p z) (\<lambda>a.
     bindE (inet6_length rest) (\<lambda>n. Inr \<lparr>nb_prefix = a, nb_length = n\<rparr>))))"

section \<open>Fields of an address\<close>

definition is_hex :: "char \<Rightarrow> bool" where
  "is_hex c \<longleftrightarrow> hex_value c \<noteq> None"

definition hex_val :: "string \<Rightarrow> nat" where
  "hex_val f = foldl (\<lambda>n c. n * 16 + the (hex_value c)) 0 f"

definition part_of_group :: "string \<Rightarrow> bool" where
  "part_of_group f \<longleftrightarrow> list_all is_hex f \<and> length f \<le> 4"

definition hex_group :: "string \<Rightarrow> bool" where
  "hex_group f \<longleftrightarrow> part_of_group f \<and> f \<noteq> []"

definition coloned :: "string list \<Rightarrow> string" where
  "coloned gs = concat (map (\<lambda>g. g @ [CHR '':'']) gs)"

definition groups_octets :: "string list \<Rightarrow> octets" where
  "groups_octets gs = concat (map (\<lambda>g. group_octets (hex_val g)) gs)"

lemma hex_val_simps [simp]:
  "hex_val [] = 0"
  "hex_val (f @ [c]) = hex_val f * 16 + the (hex_value c)"
  by (simp_all add: hex_val_def)

lemma coloned_simps [simp]:
  "coloned [] = []"
  "coloned (g # gs) = g @ CHR '':'' # coloned gs"
  "coloned (gs @ hs) = coloned gs @ coloned hs"
  by (simp_all add: coloned_def)

lemma groups_octets_simps [simp]:
  "groups_octets [] = []"
  "groups_octets (g # gs) = group_octets (hex_val g) @ groups_octets gs"
  "groups_octets (gs @ hs) = groups_octets gs @ groups_octets hs"
  by (simp_all add: groups_octets_def)

lemma length_group_octets [simp]: "length (group_octets n) = 2" "length (groups_octets gs) = 2 * length gs"
  by (simp add: group_octets_def, induction gs) (simp_all add: group_octets_def)

lemma part_of_group_simps [simp]:
  "part_of_group []"
  "part_of_group (f @ [c]) \<longleftrightarrow> part_of_group f \<and> is_hex c \<and> length f < 4"
  by (auto simp: part_of_group_def)

lemma is_hex_marks [simp]: "\<not> is_hex (CHR '':'')" "\<not> is_hex (CHR ''.'')" "\<not> is_hex (CHR ''/'')"
  by (simp_all add: is_hex_def hex_value_def)

lemma is_hex_digit: "is_digit c \<Longrightarrow> is_hex c"
  by (simp add: is_hex_def hex_value_def is_digit_def)

lemma put_group_ok: "even (length p) \<Longrightarrow> put_group p n = Inr p' \<longleftrightarrow> length p < 16 \<and> p' = p @ group_octets n"
  by (auto simp: put_group_def)

section \<open>What the loop over groups reads\<close>

definition stops :: "string \<Rightarrow> bool" where
  "stops rest \<longleftrightarrow> rest = [] \<or> hd rest = CHR ''.'' \<or> hd rest = CHR ''/''"

text \<open>
  Groups followed by a colon, and part of a group where the loop stops.
\<close>

definition loop_reads :: "string \<Rightarrow> octets \<Rightarrow> octets \<times> string \<times> nat \<times> string \<Rightarrow> bool" where
  "loop_reads s p r \<longleftrightarrow> (\<exists>gs f rest. s = coloned gs @ f @ rest \<and> list_all hex_group gs \<and> part_of_group f
     \<and> stops rest \<and> length p + 2 * length gs \<le> 16 \<and> r = (p @ groups_octets gs, f, hex_val f, rest))"

lemma loop_reads_here: "part_of_group f \<Longrightarrow> stops rest \<Longrightarrow> length p \<le> 16 \<Longrightarrow>
    loop_reads (f @ rest) p (p, f, hex_val f, rest)"
  by (auto simp: loop_reads_def intro!: exI[of _ "[]"])

lemma loop_reads_colon:
  assumes "hex_group f" and "length p < 16" and "loop_reads s (p @ group_octets (hex_val f)) r"
  shows "loop_reads (f @ CHR '':'' # s) p r"
proof -
  from assms(3) obtain gs g rest where "s = coloned gs @ g @ rest" "list_all hex_group gs" "part_of_group g" "stops rest"
    "length p + 2 + 2 * length gs \<le> 16" "r = ((p @ group_octets (hex_val f)) @ groups_octets gs, g, hex_val g, rest)"
    by (auto simp: loop_reads_def)
  with assms(1) show ?thesis
    unfolding loop_reads_def by (intro exI[of _ "f # gs"] exI[of _ g] exI[of _ rest]) simp
qed

lemma hex_step:
  "c \<noteq> CHR '':'' \<Longrightarrow> c \<noteq> CHR ''.'' \<Longrightarrow> c \<noteq> CHR ''/'' \<Longrightarrow> part_of_group f \<Longrightarrow>
   inet6_loop first (c # cs) p z f (hex_val f) = Inr r \<longleftrightarrow>
     part_of_group (f @ [c]) \<and> inet6_loop False cs p z (f @ [c]) (hex_val (f @ [c])) = Inr r"
  by (auto simp: is_hex_def split: option.splits)

lemma loop_compressed:
  "inet6_loop False s p (Some k) f (hex_val f) = Inr (p', z', f', acc', rest) \<Longrightarrow> part_of_group f \<Longrightarrow>
   even (length p) \<Longrightarrow> length p \<le> 16 \<Longrightarrow> z' = Some k \<and> loop_reads (f @ s) p (p', f', acc', rest)"
proof (induction s arbitrary: p f)
  case Nil
  then show ?case
    using loop_reads_here[of f "[]" p] by (auto simp: stops_def)
next
  case (Cons c s)
  consider (colon) "c = CHR '':''" | (stop) "c = CHR ''.'' \<or> c = CHR ''/''"
    | (other) "c \<noteq> CHR '':''" "c \<noteq> CHR ''.''" "c \<noteq> CHR ''/''"
    by blast
  then show ?case
  proof cases
    case colon
    with Cons.prems have f: "f \<noteq> []" "length p < 16"
      and l: "inet6_loop False s (p @ group_octets (hex_val f)) (Some k) [] (hex_val []) = Inr (p', z', f', acc', rest)"
      by (auto simp: put_group_ok split: if_splits)
    from Cons.IH[OF l] Cons.prems f have "z' = Some k" "loop_reads s (p @ group_octets (hex_val f)) (p', f', acc', rest)"
      by auto
    with loop_reads_colon[of f p s] f Cons.prems(2) colon show ?thesis
      by (simp add: hex_group_def)
  next
    case stop
    with Cons.prems loop_reads_here[of f "c # s" p] show ?thesis
      by (auto simp: stops_def)
  next
    case other
    note step = hex_step[OF other Cons.prems(2)]
    from Cons.prems(1)[unfolded step] Cons.IH[of p "f @ [c]"] Cons.prems show ?thesis
      by simp
  qed
qed

lemma loop_uncompressed:
  "inet6_loop False s p None f (hex_val f) = Inr (p', z', f', acc', rest) \<Longrightarrow> part_of_group f \<Longrightarrow>
   even (length p) \<Longrightarrow> length p \<le> 16 \<Longrightarrow>
   (z' = None \<and> loop_reads (f @ s) p (p', f', acc', rest))
   \<or> (\<exists>gs t. f @ s = coloned gs @ CHR '':'' # t \<and> list_all hex_group gs \<and> length p + 2 * length gs \<le> 16
        \<and> z' = Some (length p + 2 * length gs) \<and> loop_reads t (p @ groups_octets gs) (p', f', acc', rest))"
proof (induction s arbitrary: p f)
  case Nil
  then show ?case
    using loop_reads_here[of f "[]" p] by (auto simp: stops_def)
next
  case (Cons c s)
  consider (colon) "c = CHR '':''" "f \<noteq> []" | (compress) "c = CHR '':''" "f = []"
    | (stop) "c = CHR ''.'' \<or> c = CHR ''/''"
    | (other) "c \<noteq> CHR '':''" "c \<noteq> CHR ''.''" "c \<noteq> CHR ''/''"
    by blast
  then show ?case
  proof cases
    case colon
    with Cons.prems have p: "length p < 16" and g: "hex_group f"
      and l: "inet6_loop False s (p @ group_octets (hex_val f)) None [] (hex_val []) = Inr (p', z', f', acc', rest)"
      by (auto simp: put_group_ok hex_group_def split: if_splits)
    have "even (length (p @ group_octets (hex_val f)))" "length (p @ group_octets (hex_val f)) \<le> 16"
      using Cons.prems(3) p even_add[of "length p" 2] by (simp_all add: even_iff_mod_2_eq_zero) presburger
    from Cons.IH[OF l _ this] consider
      (no) "z' = None" "loop_reads s (p @ group_octets (hex_val f)) (p', f', acc', rest)"
    | (yes) gs t where "s = coloned gs @ CHR '':'' # t" "list_all hex_group gs" "length p + 2 + 2 * length gs \<le> 16"
        "z' = Some (length p + 2 + 2 * length gs)"
        "loop_reads t ((p @ group_octets (hex_val f)) @ groups_octets gs) (p', f', acc', rest)"
      by auto
    then show ?thesis
    proof cases
      case no
      with loop_reads_colon[OF g p] colon show ?thesis
        by simp
    next
      case yes
      then show ?thesis
        using g colon by (intro disjI2 exI[of _ "f # gs"] exI[of _ t]) simp
    qed
  next
    case compress
    with Cons.prems have "inet6_loop False s p (Some (length p)) [] (hex_val []) = Inr (p', z', f', acc', rest)"
      by simp
    from loop_compressed[OF this] Cons.prems compress show ?thesis
      by (intro disjI2 exI[of _ "[]"] exI[of _ s]) simp
  next
    case stop
    with Cons.prems loop_reads_here[of f "c # s" p] show ?thesis
      by (auto simp: stops_def)
  next
    case other
    note step = hex_step[OF other Cons.prems(2)]
    from Cons.prems(1)[unfolded step] Cons.IH[of p "f @ [c]"] Cons.prems show ?thesis
      by simp
  qed
qed

section \<open>The end of the address\<close>

lemma put_decimal_ok: "put_decimal p k n = Inr p' \<longleftrightarrow> k < 4 \<and> length p < 16 \<and> p' = p @ [of_nat n]"
  by (auto simp: put_decimal_def)

text \<open>
  The decimal loop is the IPv4 loop on another buffer.
\<close>

lemma decimal_loop:
  "length p \<le> 12 \<Longrightarrow> length q \<le> 4 \<Longrightarrow>
   inet6_decimal s (p @ q) (length q) d a = Inr (p', k, d', a', rest) \<longleftrightarrow>
     (\<exists>q'. inet4_loop s q d a = Inr (q', d', a', rest) \<and> p' = p @ q' \<and> k = length q')"
proof (induction s arbitrary: q d a)
  case Nil
  then show ?case
    by auto
next
  case (Cons c s)
  consider (dot) "c = CHR ''.''" | (digit) "is_digit c" "c \<noteq> CHR ''.''"
    | (other) "c \<noteq> CHR ''.''" "\<not> is_digit c"
    by blast
  then show ?case
  proof cases
    case dot
    with Cons.IH[of "q @ [of_nat a]" 0 0] Cons.prems show ?thesis
      by (auto simp: put_decimal_def)
  next
    case digit
    then show ?thesis
      by (simp add: decimal_digit_def Cons.IH[OF Cons.prems] del: bindE_eq_Inr)
  next
    case other
    then show ?thesis
      by auto
  qed
qed

lemma decimal_tail:
  assumes "length p \<le> 12"
  shows "bindE (inet6_decimal s p 0 0 0) (\<lambda>(p1, k, digits, acc1, rest1).
      if digits = 0 then Inl (Invalid_Argument ''invalid empty field in IPv6 address'')
      else bindE (put_decimal p1 k acc1) (\<lambda>p2.
        if k + 1 < 4 then Inl (Invalid_Argument ''too few decimal fields in IPv6 address'')
        else Inr (p2, z, rest1))) = Inr (p', z', rest)
    \<longleftrightarrow> z' = z \<and> (\<exists>q. length q = 4 \<and> at_end rest \<and> s = inet4_text q @ rest \<and> p' = p @ q)"
proof -
  have "bindE (inet6_decimal s p 0 0 0) (\<lambda>(p1, k, digits, acc1, rest1).
      if digits = 0 then Inl (Invalid_Argument ''invalid empty field in IPv6 address'')
      else bindE (put_decimal p1 k acc1) (\<lambda>p2.
        if k + 1 < 4 then Inl (Invalid_Argument ''too few decimal fields in IPv6 address'')
        else Inr (p2, z, rest1))) = Inr (p', z', rest)
    \<longleftrightarrow> (\<exists>p1 k digits acc1. inet6_decimal s p 0 0 0 = Inr (p1, k, digits, acc1, rest) \<and> digits \<noteq> 0
      \<and> put_decimal p1 k acc1 = Inr p' \<and> k = 3 \<and> z' = z)"
  proof (cases "inet6_decimal s p 0 0 0")
    case (Inr x)
    then show ?thesis
      by (cases x) (auto simp: put_decimal_def simp del: bindE_eq_Inr)
  qed simp
  also have "\<dots> \<longleftrightarrow> (\<exists>q digits acc1. inet4_loop s [] 0 0 = Inr (q, digits, acc1, rest) \<and> digits \<noteq> 0
      \<and> p' = p @ q @ [of_nat acc1] \<and> length q = 3 \<and> z' = z)"
    unfolding decimal_loop[OF assms, of "[]" s 0 0, simplified] put_decimal_ok using assms by auto
  also have "\<dots> \<longleftrightarrow> z' = z \<and> (\<exists>a. (\<exists>q acc1 digits r. inet4_loop s [] 0 0 = Inr (q, digits, acc1, r) \<and> digits \<noteq> 0
      \<and> length q = 3 \<and> a = q @ [of_nat acc1] \<and> r = rest) \<and> p' = p @ a)"
    by auto
  also have "\<dots> \<longleftrightarrow> z' = z \<and> (\<exists>q. length q = 4 \<and> at_end rest \<and> s = inet4_text q @ rest \<and> p' = p @ q)"
    unfolding inet4_address_iff by blast
  finally show ?thesis .
qed

definition ends_with :: "octets \<Rightarrow> nat option \<Rightarrow> string \<Rightarrow> string \<Rightarrow> octets \<Rightarrow> string \<Rightarrow> bool" where
  "ends_with p z f rest p' rest' \<longleftrightarrow> at_end rest' \<and>
     (f = [] \<and> rest' = rest \<and> p' = p \<and> z = Some (length p)
      \<or> hex_group f \<and> rest' = rest \<and> length p < 16 \<and> p' = p @ group_octets (hex_val f)
      \<or> hd rest = CHR ''.'' \<and> rest \<noteq> [] \<and> length p \<le> 12
        \<and> (\<exists>q. length q = 4 \<and> f @ rest = inet4_text q @ rest' \<and> p' = p @ q))"

lemma tail_iff:
  assumes "part_of_group f" and "stops rest" and "even (length p)"
  shows "inet6_tail (p, z, f, hex_val f, rest) = Inr (p', z', rest') \<longleftrightarrow> z' = z \<and> ends_with p z f rest p' rest'"
proof (cases "rest \<noteq> [] \<and> hd rest = CHR ''.''")
  case True
  then have "\<not> at_end rest"
    by (simp add: at_end_def)
  with True decimal_tail[of p "f @ rest" z p' z' rest'] show ?thesis
    by (auto simp: inet6_tail_def ends_with_def simp del: bindE_eq_Inr)
next
  case False
  with assms(2) have "at_end rest"
    by (auto simp: stops_def at_end_def)
  with False assms show ?thesis
    by (auto simp: inet6_tail_def ends_with_def put_group_ok hex_group_def)
qed

section \<open>Decompression\<close>

lemma move_up_eq:
  "z \<le> n \<Longrightarrow> n + offset \<le> length b \<Longrightarrow> length (move_up z offset n b) = length b \<and>
     (\<forall>i < length b. move_up z offset n b ! i =
        (if z + offset \<le> i \<and> i < n + offset then b ! (i - offset) else b ! i))"
proof (induction n arbitrary: b)
  case (Suc n)
  show ?case
  proof (cases "z \<le> n")
    case True
    with Suc.IH[of "b[n + offset := b ! n]"] Suc.prems show ?thesis
      by (auto simp: nth_list_update less_Suc_eq)
  next
    case False
    with Suc.prems show ?thesis
      by auto
  qed
qed auto

lemma fill_zeros_eq:
  "n \<le> length b \<Longrightarrow> length (fill_zeros z n b) = length b \<and>
     (\<forall>i < length b. fill_zeros z n b ! i = (if z \<le> i \<and> i < n then 0 else b ! i))"
proof (induction n arbitrary: b)
  case (Suc n)
  with Suc.IH[of "b[n := 0]"] show ?case
    by (cases "z \<le> n") (auto simp: nth_list_update)
qed auto

text \<open>
  The two loops make room for the zeros.
\<close>

lemma inet6_expand_eq:
  assumes "z \<le> length p" and "length p < 16"
  shows "inet6_expand p (Some z) = Inr (take z p @ replicate (16 - length p) 0 @ drop z p)"
proof -
  define offset where "offset = 16 - length p"
  define b where "b = move_up z offset (length p) (p @ replicate offset 0)"
  have len: "length (p @ replicate offset (0 :: octet)) = 16"
    using assms by (simp add: offset_def)
  have b: "length b = 16 \<and> (\<forall>i < 16. b ! i = (if z + offset \<le> i then p ! (i - offset) else (p @ replicate offset 0) ! i))"
    using move_up_eq[of z "length p" offset "p @ replicate offset 0"] assms len
    by (auto simp: b_def offset_def nth_append)
  have "fill_zeros z (z + offset) b = take z p @ replicate offset 0 @ drop z p"
  proof (rule nth_equalityI)
    show "length (fill_zeros z (z + offset) b) = length (take z p @ replicate offset 0 @ drop z p)"
      using fill_zeros_eq[of "z + offset" b z] b assms by (simp add: offset_def)
    fix i
    assume "i < length (fill_zeros z (z + offset) b)"
    with fill_zeros_eq[of "z + offset" b z] b assms have "i < 16"
      by (simp add: offset_def)
    with fill_zeros_eq[of "z + offset" b z] b assms
    have "fill_zeros z (z + offset) b ! i =
        (if z \<le> i \<and> i < z + offset then 0 else if z + offset \<le> i then p ! (i - offset) else (p @ replicate offset 0) ! i)"
      by (simp add: offset_def)
    with \<open>i < 16\<close> assms show "fill_zeros z (z + offset) b ! i = (take z p @ replicate offset 0 @ drop z p) ! i"
      by (auto simp: nth_append offset_def)
  qed
  with assms show ?thesis
    by (simp add: inet6_expand_def Let_def offset_def b_def)
qed

section \<open>The IPv6 texts accepted\<close>

text \<open>
  Fields separated by colons, where the last four octets may be written as an IPv4 address, and
  addresses made of them, where a double colon stands for as many zeros as are missing.
\<close>

definition inet6_fields :: "string \<Rightarrow> octets \<Rightarrow> bool" where
  "inet6_fields t a \<longleftrightarrow> (\<exists>gs g. list_all hex_group gs \<and> hex_group g \<and> t = coloned gs @ g
     \<and> a = groups_octets (gs @ [g]))"

definition inet6_mixed :: "string \<Rightarrow> octets \<Rightarrow> bool" where
  "inet6_mixed t a \<longleftrightarrow> (\<exists>gs q. list_all hex_group gs \<and> length q = 4 \<and> t = coloned gs @ inet4_text q
     \<and> a = groups_octets gs @ q)"

definition inet6_left :: "string \<Rightarrow> octets \<Rightarrow> bool" where
  "inet6_left t a \<longleftrightarrow> t = [] \<and> a = [] \<or> inet6_fields t a"

definition inet6_right :: "string \<Rightarrow> octets \<Rightarrow> bool" where
  "inet6_right t a \<longleftrightarrow> t = [] \<and> a = [] \<or> inet6_fields t a \<or> inet6_mixed t a"

definition compressed :: "octets \<Rightarrow> octets \<Rightarrow> octets" where
  "compressed a1 a2 = a1 @ replicate (16 - length a1 - length a2) 0 @ a2"

definition inet6_address :: "string \<Rightarrow> octets \<Rightarrow> bool" where
  "inet6_address t a \<longleftrightarrow>
     length a = 16 \<and> (inet6_fields t a \<or> inet6_mixed t a)
     \<or> (\<exists>l r a1 a2. t = l @ '':'' @ '':'' @ r \<and> inet6_left l a1 \<and> inet6_right r a2
         \<and> length a1 + length a2 < 16 \<and> a = compressed a1 a2)"

lemma inet6_address_compressed:
  "inet6_left l a1 \<Longrightarrow> inet6_right r a2 \<Longrightarrow> length a1 + length a2 < 16 \<Longrightarrow>
     inet6_address (l @ '':'' @ '':'' @ r) (compressed a1 a2)"
  unfolding inet6_address_def by blast

section \<open>Soundness\<close>

lemma first_irrelevant: "s = [] \<or> hd s \<noteq> CHR '':'' \<Longrightarrow> inet6_loop True s p z f acc = inet6_loop False s p z f acc"
  by (cases s) auto

lemma ends_length:
  assumes "ends_with p z f rest p' rest'" and "even (length p)" and "length p \<le> 16"
  shows "length p' \<le> 16"
proof -
  have "length p < 16 \<Longrightarrow> length p + 2 \<le> 16"
    using assms(2) by presburger
  with assms show ?thesis
    by (auto simp: ends_with_def)
qed

lemma ends_uncompressed:
  assumes "ends_with (groups_octets gs) None f rest0 p rest" and "list_all hex_group gs"
  shows "\<exists>t. coloned gs @ f @ rest0 = t @ rest \<and> (inet6_fields t p \<or> inet6_mixed t p)"
  using assms unfolding ends_with_def inet6_fields_def inet6_mixed_def
  by (elim conjE disjE exE) (force, metis groups_octets_simps append_assoc append_Nil2, metis append_assoc)

lemma ends_compressed:
  assumes "ends_with (p1 @ groups_octets gs) (Some (length p1)) f rest0 p rest" and "list_all hex_group gs"
  shows "\<exists>r a2. coloned gs @ f @ rest0 = r @ rest \<and> inet6_right r a2 \<and> p = p1 @ a2"
proof -
  from assms(1) consider (none) "f = []" "rest = rest0" "p = p1 @ groups_octets gs" "gs = []"
    | (last) "hex_group f" "rest = rest0" "p = p1 @ groups_octets gs @ group_octets (hex_val f)"
    | (mixed) q where "length q = 4" "f @ rest0 = inet4_text q @ rest" "p = p1 @ groups_octets gs @ q"
    by (auto simp: ends_with_def)
  then show ?thesis
  proof cases
    case none
    then show ?thesis
      by (auto simp: inet6_right_def)
  next
    case last
    have "inet6_fields (coloned gs @ f) (groups_octets (gs @ [f]))"
      using last assms(2) unfolding inet6_fields_def by blast
    with last show ?thesis
      by (intro exI[of _ "coloned gs @ f"] exI[of _ "groups_octets (gs @ [f])"]) (simp add: inet6_right_def)
  next
    case mixed
    then have "inet6_mixed (coloned gs @ inet4_text q) (groups_octets gs @ q)"
      using assms(2) unfolding inet6_mixed_def by blast
    with mixed show ?thesis
      by (intro exI[of _ "coloned gs @ inet4_text q"] exI[of _ "groups_octets gs @ q"]) (simp add: inet6_right_def)
  qed
qed

lemma expand_compressed:
  "inet6_expand (a1 @ a2) (Some (length a1)) = Inr a \<longleftrightarrow> length a1 + length a2 < 16 \<and> a = compressed a1 a2"
proof (cases "length a1 + length a2 < 16")
  case True
  then show ?thesis
    using inet6_expand_eq[of "length a1" "a1 @ a2"] by (auto simp: compressed_def diff_diff_left)
qed (auto simp: inet6_expand_def)

text \<open>
  After the double colon.
\<close>

lemma compressed_sound:
  assumes reads: "loop_reads t a1 (p', f, acc, rest0)" and even: "even (length a1)"
    and tail: "inet6_tail (p', Some (length a1), f, acc, rest0) = Inr (p, z, rest)"
    and expand: "inet6_expand p z = Inr a"
  shows "at_end rest \<and> (\<exists>r a2. t = r @ rest \<and> inet6_right r a2 \<and> length a1 + length a2 < 16 \<and> a = compressed a1 a2)"
proof -
  from reads obtain gs where t: "t = coloned gs @ f @ rest0" and gs: "list_all hex_group gs"
    and f: "part_of_group f" "acc = hex_val f" and st: "stops rest0" and p': "p' = a1 @ groups_octets gs"
    by (auto simp: loop_reads_def)
  have e: "ends_with p' (Some (length a1)) f rest0 p rest" and z: "z = Some (length a1)"
    using tail tail_iff[OF f(1) st, of p' "Some (length a1)" p z rest] even p' f(2) by auto
  from ends_compressed[OF e[unfolded p'] gs] obtain r a2 where "coloned gs @ f @ rest0 = r @ rest"
    "inet6_right r a2" "p = a1 @ a2"
    by blast
  with t e z expand expand_compressed[of a1 a2 a] show ?thesis
    by (auto simp: ends_with_def)
qed

lemma address_sound:
  assumes loop: "inet6_loop True s [] None [] 0 = Inr r" and tail: "inet6_tail r = Inr (p, z, rest)"
    and expand: "inet6_expand p z = Inr a"
  shows "at_end rest \<and> (\<exists>t. s = t @ rest \<and> inet6_address t a)"
proof -
  obtain p' z' f acc rest0 where r: "r = (p', z', f, acc, rest0)"
    by (cases r) auto
  show ?thesis
  proof (cases "s = [] \<or> hd s \<noteq> CHR '':''")
    case False
    then obtain u where s: "s = CHR '':'' # CHR '':'' # u"
      using loop by (cases s; cases "tl s") (auto split: if_splits)
    with loop r have "inet6_loop False u [] (Some 0) [] (hex_val []) = Inr (p', z', f, acc, rest0)"
      by simp
    from loop_compressed[OF this] have "z' = Some (length ([] :: octets))" "loop_reads u [] (p', f, acc, rest0)"
      by auto
    with compressed_sound[of u "[]" p' f acc rest0 p z rest a] tail expand r obtain q a2 where
      "at_end rest" "u = q @ rest" "inet6_right q a2" "length a2 < 16" "a = compressed [] a2"
      by auto
    with s inet6_address_compressed[of "[]" "[]" q a2] show ?thesis
      by (auto simp: inet6_left_def)
  next
    case True
    from loop[unfolded first_irrelevant[OF True] r] consider
      (full) "z' = None" "loop_reads s [] (p', f, acc, rest0)"
    | (short) gs t where "s = coloned gs @ CHR '':'' # t" "list_all hex_group gs" "2 * length gs \<le> 16"
        "z' = Some (2 * length gs)" "loop_reads t (groups_octets gs) (p', f, acc, rest0)"
      using loop_uncompressed[of s "[]" "[]" p' z' f acc rest0] by auto
    then show ?thesis
    proof cases
      case full
      then obtain gs where s: "s = coloned gs @ f @ rest0" and gs: "list_all hex_group gs" "2 * length gs \<le> 16"
        and f: "part_of_group f" "acc = hex_val f" and st: "stops rest0" and p': "p' = groups_octets gs"
        by (auto simp: loop_reads_def)
      have e: "ends_with (groups_octets gs) None f rest0 p rest" and z: "z = None"
        using tail tail_iff[OF f(1) st, of p' None p z rest] p' f(2) r full(1) by auto
      from ends_length[OF e] gs expand z have "length a = 16" "p = a"
        by (auto simp: inet6_expand_def split: if_splits)
      with ends_uncompressed[OF e gs(1)] s e show ?thesis
        by (auto simp: inet6_address_def ends_with_def)
    next
      case short
      with True have "gs \<noteq> []"
        by auto
      then obtain hs g where gs: "gs = hs @ [g]"
        by (meson rev_exhaust)
      with short(2) have left: "inet6_left (coloned hs @ g) (groups_octets gs)"
        by (auto simp: inet6_left_def inet6_fields_def)
      from compressed_sound[OF short(5), of p z rest a] tail expand r short(4) obtain q a2 where
        "at_end rest" "t = q @ rest" "inet6_right q a2" "length (groups_octets gs) + length a2 < 16"
        "a = compressed (groups_octets gs) a2"
        by auto
      with inet6_address_compressed[OF left, of q a2] short(1) gs show ?thesis
        by (intro conjI exI[of _ "(coloned hs @ g) @ '':'' @ '':'' @ q"]) auto
    qed
  qed
qed

section \<open>Completeness\<close>

lemma hex_colon_free: "part_of_group f \<Longrightarrow> f @ rest = c # cs \<Longrightarrow> c = CHR '':'' \<Longrightarrow> f = []"
  by (cases f) (auto simp: part_of_group_def)

lemma loop_part:
  "part_of_group (g @ f) \<Longrightarrow> inet6_loop False (f @ s) p z g (hex_val g) = inet6_loop False s p z (g @ f) (hex_val (g @ f))"
proof (induction f arbitrary: g)
  case (Cons c f)
  have g: "part_of_group (g @ [c])"
    using Cons.prems by (auto simp: part_of_group_def)
  then have c: "c \<noteq> CHR '':''" "c \<noteq> CHR ''.''" "c \<noteq> CHR ''/''" "is_hex c" "length g < 4"
    by auto
  then have "inet6_loop False (c # f @ s) p z g (hex_val g) = inet6_loop False (f @ s) p z (g @ [c]) (hex_val (g @ [c]))"
    by (auto simp: is_hex_def split: option.splits)
  with Cons.IH[of "g @ [c]"] Cons.prems show ?case
    by simp
qed simp

lemma loop_groups:
  "list_all hex_group gs \<Longrightarrow> even (length p) \<Longrightarrow> length p + 2 * length gs \<le> 16 \<Longrightarrow>
   inet6_loop False (coloned gs @ s) p z [] 0 = inet6_loop False s (p @ groups_octets gs) z [] 0"
proof (induction gs arbitrary: p)
  case (Cons g gs)
  then have "part_of_group ([] @ g)" "g \<noteq> []" "length p < 16"
    by (auto simp: hex_group_def)
  then have "inet6_loop False (coloned (g # gs) @ s) p z [] 0
      = bindE (put_group p (hex_val g)) (\<lambda>p'. inet6_loop False (coloned gs @ s) p' z [] 0)"
    using loop_part[of "[]" g "CHR '':'' # coloned gs @ s" p z] by simp
  also have "put_group p (hex_val g) = Inr (p @ group_octets (hex_val g))"
    using \<open>length p < 16\<close> Cons.prems(2) by (simp add: put_group_ok)
  finally show ?case
    using Cons by simp
qed simp

lemma loop_stops: "stops rest \<Longrightarrow> inet6_loop False rest p z f acc = Inr (p, z, f, acc, rest)"
  by (cases rest) (auto simp: stops_def)

lemma loop_to_stop:
  assumes "list_all hex_group gs" and "part_of_group f" and "stops rest" and "even (length p)"
    and "length p + 2 * length gs \<le> 16"
  shows "inet6_loop False (coloned gs @ f @ rest) p z [] 0 = Inr (p @ groups_octets gs, z, f, hex_val f, rest)"
  using loop_groups[OF assms(1,4,5)] loop_part[of "[]" f rest "p @ groups_octets gs" z] assms(2,3) loop_stops
  by simp

lemma inet4_text_first:
  assumes "length q = 4"
  obtains f rest where "inet4_text q @ r = f @ rest" "part_of_group f" "stops rest" "rest \<noteq> []" "hd rest = CHR ''.''"
proof -
  from assms obtain b1 b2 b3 b4 where q: "q = [b1, b2, b3, b4]"
    by (auto simp: length_Suc_conv numeral_eq_Suc)
  have "length (dec_nat (unat b1)) \<le> 3"
  proof (rule ccontr)
    assume "\<not> length (dec_nat (unat b1)) \<le> 3"
    then have "(10 :: nat) ^ 3 \<le> 10 ^ (length (dec_nat (unat b1)) - 1)"
      by (intro power_increasing) auto
    moreover have "unat b1 \<noteq> 0"
    proof
      assume "unat b1 = 0"
      then have "dec_nat (unat b1) = [digit_char 0]"
        by (simp add: dec_nat.simps[of 0])
      with \<open>\<not> length (dec_nat (unat b1)) \<le> 3\<close> show False
        by simp
    qed
    ultimately have "(10 :: nat) ^ 3 \<le> unat b1"
      using dec_nat_length(1)[of "unat b1"] by linarith
    with unat_octet_lt[of b1] show False
      by simp
  qed
  moreover have "list_all is_hex (dec_nat (unat b1))"
    using dec_nat_digits[of "unat b1"] is_hex_digit by (auto simp: list_all_iff)
  ultimately have "part_of_group (dec_nat (unat b1))"
    by (simp add: part_of_group_def)
  then show ?thesis
    by (intro that[of "dec_nat (unat b1)" "CHR ''.'' # dec_nat (unat b2) @ CHR ''.'' # dec_nat (unat b3)
        @ CHR ''.'' # dec_nat (unat b4) @ r"]) (simp_all add: q inet4_text_def stops_def)
qed

text \<open>
  The part after the last double colon, or all of an address that has none.
\<close>

lemma right_complete:
  assumes "inet6_right t a2" and "at_end rest" and "even (length a1)" and "length a1 + length a2 \<le> 16"
    and "t = [] \<Longrightarrow> z = Some (length a1)"
  shows "\<exists>r. inet6_loop False (t @ rest) a1 z [] 0 = Inr r \<and> inet6_tail r = Inr (a1 @ a2, z, rest)"
proof -
  from assms(1) consider (none) "t = []" "a2 = []" | (fields) gs g where "list_all hex_group gs" "hex_group g"
      "t = coloned gs @ g" "a2 = groups_octets (gs @ [g])"
    | (mixed) gs q where "list_all hex_group gs" "length q = 4" "t = coloned gs @ inet4_text q" "a2 = groups_octets gs @ q"
    by (auto simp: inet6_right_def inet6_fields_def inet6_mixed_def)
  then show ?thesis
  proof cases
    case none
    have st: "stops rest"
      using assms(2) by (auto simp: stops_def at_end_def)
    have "ends_with a1 z [] rest a1 rest"
      using none assms(2,5) by (simp add: ends_with_def)
    with none loop_stops[OF st] tail_iff[of "[]" rest a1 z a1 z rest] st assms(3) show ?thesis
      by simp
  next
    case fields
    have st: "stops rest"
      using assms(2) by (auto simp: stops_def at_end_def)
    have g: "part_of_group g"
      using fields(2) by (simp add: hex_group_def)
    have "ends_with (a1 @ groups_octets gs) z g rest (a1 @ a2) rest"
      using fields assms(2,4) by (simp add: ends_with_def)
    with tail_iff[OF g st, of "a1 @ groups_octets gs" z "a1 @ a2" z rest] assms(3)
    have "inet6_tail (a1 @ groups_octets gs, z, g, hex_val g, rest) = Inr (a1 @ a2, z, rest)"
      by simp
    moreover have "inet6_loop False (t @ rest) a1 z [] 0 = Inr (a1 @ groups_octets gs, z, g, hex_val g, rest)"
      using loop_to_stop[OF fields(1) g st assms(3)] fields assms(4) by simp
    ultimately show ?thesis
      by blast
  next
    case mixed
    from inet4_text_first[OF mixed(2), of rest] obtain f rest0 where f: "inet4_text q @ rest = f @ rest0"
      "part_of_group f" "stops rest0" "rest0 \<noteq> []" "hd rest0 = CHR ''.''"
      by metis
    have "ends_with (a1 @ groups_octets gs) z f rest0 (a1 @ a2) rest"
      using mixed f assms(2,4) by (auto simp: ends_with_def)
    with tail_iff[OF f(2,3), of "a1 @ groups_octets gs" z "a1 @ a2" z rest] assms(3)
    have "inet6_tail (a1 @ groups_octets gs, z, f, hex_val f, rest0) = Inr (a1 @ a2, z, rest)"
      by simp
    moreover have "inet6_loop False (t @ rest) a1 z [] 0 = Inr (a1 @ groups_octets gs, z, f, hex_val f, rest0)"
      using loop_to_stop[OF mixed(1) f(2,3) assms(3)] mixed f(1) assms(4) by simp
    ultimately show ?thesis
      by blast
  qed
qed

lemma fields_start:
  "inet6_fields t a \<or> inet6_mixed t a \<Longrightarrow> t \<noteq> [] \<and> hd t \<noteq> CHR '':''"
proof -
  have group_start: "g \<noteq> [] \<and> hd g \<noteq> CHR '':''" if "hex_group g" for g
    using that by (cases g) (auto simp: hex_group_def part_of_group_def)
  have "inet4_text q \<noteq> [] \<and> hd (inet4_text q) \<noteq> CHR '':''" if q: "length q = 4" for q
  proof -
    from inet4_text_first[OF q, of "[]", unfolded append_Nil2] obtain f rest where "inet4_text q = f @ rest"
      "part_of_group f" "rest \<noteq> []" "hd rest = CHR ''.''"
      by blast
    then show ?thesis
      by (cases f) (auto simp: part_of_group_def)
  qed
  then show "inet6_fields t a \<or> inet6_mixed t a \<Longrightarrow> t \<noteq> [] \<and> hd t \<noteq> CHR '':''"
    using group_start unfolding inet6_fields_def inet6_mixed_def
    by (elim disjE exE conjE; case_tac gs) (auto simp: hd_append)
qed

lemma address_complete:
  assumes "inet6_address t a" and "at_end rest"
  shows "\<exists>r p z. inet6_loop True (t @ rest) [] None [] 0 = Inr r \<and> inet6_tail r = Inr (p, z, rest)
    \<and> inet6_expand p z = Inr a"
proof -
  consider (full) "length a = 16" "inet6_fields t a \<or> inet6_mixed t a"
    | (short) l r a1 a2 where "t = l @ '':'' @ '':'' @ r" "inet6_left l a1" "inet6_right r a2"
      "length a1 + length a2 < 16" "a = compressed a1 a2"
    using assms(1) unfolding inet6_address_def by blast
  then show ?thesis
  proof cases
  case full
  note len = full(1) and f = full(2)
  from f have r: "inet6_right t a" and start: "t \<noteq> []" "hd t \<noteq> CHR '':''"
    using fields_start by (auto simp: inet6_right_def)
  from right_complete[OF r assms(2), of "[]" None] len start obtain q where
    "inet6_loop False (t @ rest) [] None [] 0 = Inr q" "inet6_tail q = Inr (a, None, rest)"
    by auto
  then show ?thesis
    using first_irrelevant[of "t @ rest"] start len by (auto simp: inet6_expand_def)
next
  case short
  note t = short(1) and left = short(2) and right = short(3) and len = short(4) and a = short(5)
  have expand: "inet6_expand (a1 @ a2) (Some (length a1)) = Inr a"
    using len a by (simp add: expand_compressed)
  show ?thesis
  proof (cases "l = []")
    case True
    with left have "a1 = []"
      by (auto simp: inet6_left_def inet6_fields_def hex_group_def)
    with right_complete[OF right assms(2), of a1 "Some (length a1)"] len expand t True show ?thesis
      by auto
  next
    case False
    with left obtain gs g where gs: "list_all hex_group gs" "hex_group g" "l = coloned gs @ g" "a1 = groups_octets (gs @ [g])"
      by (auto simp: inet6_left_def inet6_fields_def)
    from left False have "hd (t @ rest) \<noteq> CHR '':''"
      using fields_start[of l a1] t by (auto simp: inet6_left_def)
    then have "inet6_loop True (t @ rest) [] None [] 0 = inet6_loop False (t @ rest) [] None [] 0"
      by (simp add: first_irrelevant)
    also have "\<dots> = inet6_loop False (coloned (gs @ [g]) @ CHR '':'' # r @ rest) [] None [] 0"
      using t gs by simp
    also have "\<dots> = inet6_loop False (r @ rest) a1 (Some (length a1)) [] 0"
      using loop_groups[of "gs @ [g]" "[]"] gs len by simp
    finally have "inet6_loop True (t @ rest) [] None [] 0 = inet6_loop False (r @ rest) a1 (Some (length a1)) [] 0" .
    with right_complete[OF right assms(2), of a1 "Some (length a1)"] len expand gs(4) show ?thesis
      by auto
  qed
  qed
qed

lemma inet6_length_iff:
  assumes "at_end rest"
  shows "inet6_length rest = Inr n \<longleftrightarrow> (rest = [] \<and> n = 128) \<or> (n \<le> 128 \<and> rest = CHR ''/'' # dec_nat n)"
proof (cases rest)
  case (Cons c cs)
  with assms have "c = CHR ''/''"
    by (simp add: at_end_def)
  with Cons show ?thesis
    by (auto simp: inet6_length_def prefix_length_result simp del: bindE_eq_Inr)
qed (auto simp: inet6_length_def)

lemma inet6_netblock_iff:
  "inet6_netblock s = Inr nb \<longleftrightarrow>
     (\<exists>t rest. s = t @ rest \<and> at_end rest \<and> inet6_address t (nb_prefix nb) \<and> inet6_length rest = Inr (nb_length nb))"
proof -
  have "inet6_netblock s = Inr nb \<longleftrightarrow> (\<exists>r p z rest. inet6_loop True s [] None [] 0 = Inr r
      \<and> inet6_tail r = Inr (p, z, rest) \<and> inet6_expand p z = Inr (nb_prefix nb) \<and> inet6_length rest = Inr (nb_length nb))"
    by (cases nb) (auto simp: inet6_netblock_def)
  then show ?thesis
    using address_sound address_complete by metis
qed

section \<open>Refusals\<close>

text \<open>
  Every text that is not accepted is refused with the same class of exception; in particular no
  access is outside the buffer.
\<close>

definition invalid :: "exn \<Rightarrow> bool" where
  "invalid e \<longleftrightarrow> (\<exists>m. e = Invalid_Argument m)"

lemma loop_refuses: "inet6_loop first s p z f acc = Inl e \<Longrightarrow> even (length p) \<Longrightarrow> invalid e"
proof (induction first s p z f acc rule: inet6_loop.induct)
  case (2 first c cs p z f acc)
  consider (colon) "c = CHR '':''" | (stop) "c = CHR ''.'' \<or> c = CHR ''/''"
    | (other) "c \<noteq> CHR '':''" "c \<noteq> CHR ''.''" "c \<noteq> CHR ''/''"
    by blast
  then show ?case
  proof cases
    case colon
    show ?thesis
    proof (cases "first \<or> f = []")
      case True
      with "2.prems" "2.IH"(1,2) colon show ?thesis
        by (auto simp: invalid_def split: if_splits)
    next
      case False
      show ?thesis
      proof (cases "put_group p acc")
        case (Inl x)
        with "2.prems" colon False show ?thesis
          by (auto simp: invalid_def put_group_def split: if_splits)
      next
        case (Inr p')
        with "2.prems" have "even (length p')"
          by (simp add: put_group_ok)
        with "2.IH"(3)[OF colon _ _ Inr] "2.prems" colon False Inr show ?thesis
          by auto
      qed
    qed
  next
    case other
    with "2.prems" "2.IH"(4) show ?thesis
      by (auto simp: invalid_def split: option.splits if_splits)
  qed (use "2.prems" in auto)
qed simp

lemma decimal_refuses: "inet6_decimal s p k d a = Inl e \<Longrightarrow> length p \<le> 12 + k \<Longrightarrow> invalid e"
proof (induction s p k d a rule: inet6_decimal.induct)
  case (2 c cs p k digits acc)
  consider (dot) "c = CHR ''.''" | (digit) "c \<noteq> CHR ''.''" "is_digit c" | (other) "c \<noteq> CHR ''.''" "\<not> is_digit c"
    by blast
  then show ?case
  proof cases
    case dot
    with "2.prems" "2.IH"(1)[OF dot] show ?thesis
      by (auto simp: invalid_def put_decimal_def split: if_splits)
  next
    case digit
    with "2.prems" "2.IH"(2)[OF digit] show ?thesis
      by (auto simp: invalid_def decimal_digit_def split: if_splits)
  qed (use "2.prems" in \<open>auto simp: invalid_def split: if_splits\<close>)
qed simp

lemma decimal_fields_count:
  "inet6_decimal s p k d a = Inr (p', k', d', a', rest) \<Longrightarrow> length p \<le> 12 + k \<Longrightarrow> length p' \<le> 12 + k'"
  by (induction s p k d a rule: inet6_decimal.induct)
    (auto simp: put_decimal_def decimal_digit_def split: if_splits)

lemma tail_refuses:
  assumes "inet6_tail (p, z, f, acc, rest) = Inl e" and "even (length p)"
  shows "invalid e"
proof (cases "rest \<noteq> [] \<and> hd rest = CHR ''.'' \<and> length p \<le> 12")
  case True
  show ?thesis
  proof (cases "inet6_decimal (f @ rest) p 0 0 0")
    case (Inl x)
    with True assms(1) decimal_refuses[OF Inl] show ?thesis
      by (auto simp: inet6_tail_def)
  next
    case (Inr x)
    obtain p1 k d a r where x: "x = (p1, k, d, a, r)"
      by (cases x) auto
    with Inr True have "length p1 \<le> 12 + k"
      using decimal_fields_count[of "f @ rest" p 0 0 0 p1 k d a r] by simp
    with Inr True assms(1) x show ?thesis
      by (auto simp: inet6_tail_def put_decimal_def invalid_def split: if_splits)
  qed
next
  case False
  with assms show ?thesis
    by (auto simp: inet6_tail_def put_group_def invalid_def split: if_splits)
qed

lemma loop_even: "inet6_loop first s p z f acc = Inr (p', z', f', acc', rest) \<Longrightarrow> even (length p) \<Longrightarrow> even (length p')"
proof (induction first s p z f acc rule: inet6_loop.induct)
  case (2 first c cs p z f acc)
  then show ?case
    by (auto simp: put_group_def split: if_splits option.splits)
qed simp

lemma prefix_length_refuses:
  "prefix_length_loop zm lm cm bound cs d a = Inl e \<Longrightarrow> invalid e"
  by (induction zm lm cm bound cs d a rule: prefix_length_loop.induct)
    (auto simp: invalid_def decimal_digit_def split: if_splits)

lemma inet6_refuses: "inet6_netblock s = Inl e \<Longrightarrow> invalid e"
proof -
  assume run: "inet6_netblock s = Inl e"
  show ?thesis
  proof (cases "inet6_loop True s [] None [] 0")
    case (Inl x)
    with run loop_refuses[OF Inl] show ?thesis
      by (simp add: inet6_netblock_def)
  next
    case (Inr r)
    obtain p z f acc rest where r: "r = (p, z, f, acc, rest)"
      by (cases r) auto
    have p: "even (length p)"
      using loop_even[of True s "[]" None "[]" 0] Inr r by simp
    show ?thesis
    proof (cases "inet6_tail r")
      case (Inl x)
      with run \<open>inet6_loop _ _ _ _ _ _ = Inr r\<close> tail_refuses[of p z f acc rest] p r show ?thesis
        by (auto simp: inet6_netblock_def)
    next
      case (Inr y)
      have "invalid e" if "inet6_expand q w = Inl e" for q w
        using that by (auto simp: inet6_expand_def invalid_def Let_def split: option.splits if_splits)
      moreover have "invalid e" if "inet6_length q = Inl e" for q
        using that by (auto simp: inet6_length_def invalid_def bindE_eq_Inl split: list.splits if_splits
            dest: prefix_length_refuses[unfolded invalid_def])
      ultimately show ?thesis
        using run \<open>inet6_loop _ _ _ _ _ _ = Inr r\<close> Inr
        by (cases y) (auto simp: inet6_netblock_def bindE_eq_Inl)
    qed
  qed
qed

section \<open>Properties\<close>

text \<open>
  C10: the IPv6 parser accepts exactly the texts of addresses: groups of one to four hexadecimal
  digits, the last four octets possibly in dotted decimal, and at most one double colon for the
  zeros that are missing, with a prefix length of at most 128 or none; what is returned is what
  the text says. All other texts are refused as invalid, without an access outside the buffer.
\<close>

theorem inet6_netblock_texts:
  "(inet6_netblock s = Inr \<lparr>nb_prefix = a, nb_length = n\<rparr> \<longleftrightarrow>
     n \<le> 128 \<and> (\<exists>t. inet6_address t a \<and> (s = t @ CHR ''/'' # dec_nat n \<or> (n = 128 \<and> s = t))))
   \<and> ((\<exists>nb. inet6_netblock s = Inr nb) \<or> (\<exists>m. inet6_netblock s = Inl (Invalid_Argument m)))"
proof -
  have "(\<exists>nb. inet6_netblock s = Inr nb) \<or> (\<exists>m. inet6_netblock s = Inl (Invalid_Argument m))"
    using inet6_refuses[of s] by (cases "inet6_netblock s") (auto simp: invalid_def)
  moreover
have "inet6_length rest = Inr n \<and> at_end rest \<longleftrightarrow> n \<le> 128 \<and> (rest = CHR ''/'' # dec_nat n \<or> (n = 128 \<and> rest = []))" for rest
    using inet6_length_iff[of rest n] by (auto simp: at_end_def)
  then have "(\<exists>t rest. s = t @ rest \<and> at_end rest \<and> inet6_address t a \<and> inet6_length rest = Inr n) \<longleftrightarrow>
      (\<exists>t rest. s = t @ rest \<and> inet6_address t a \<and> n \<le> 128 \<and> (rest = CHR ''/'' # dec_nat n \<or> (n = 128 \<and> rest = [])))"
    by blast
  then have "inet6_netblock s = Inr \<lparr>nb_prefix = a, nb_length = n\<rparr> \<longleftrightarrow>
     n \<le> 128 \<and> (\<exists>t. inet6_address t a \<and> (s = t @ CHR ''/'' # dec_nat n \<or> (n = 128 \<and> s = t)))"
    unfolding inet6_netblock_iff by auto
  ultimately show ?thesis
    by blast
qed

end
