(* ===== verification/Address_Filter.thy ===== *)
theory Address_Filter
  imports Inet6_Netblock
begin

text \<open>
  The packet filter that excludes netblocks (\<^verbatim>\<open>horace/address_filter.cc\<close>): its compiler to the
  instructions of the kernel's packet filter, and the object with its cache. The instructions
  are executed by the kernel; what is used of it is stated as the laws of \<open>bpf_machine\<close>. The
  main result is that the compiled program rejects exactly the frames of an excluded address.
\<close>

section \<open>Instructions\<close>

record sock_filter =
  bpf_code :: u16
  bpf_jt :: octet
  bpf_jf :: octet
  bpf_k :: u32

definition BPF_LD :: u16 where "BPF_LD = 0x00"
definition BPF_ALU :: u16 where "BPF_ALU = 0x04"
definition BPF_JMP :: u16 where "BPF_JMP = 0x05"
definition BPF_RET :: u16 where "BPF_RET = 0x06"
definition BPF_W :: u16 where "BPF_W = 0x00"
definition BPF_H :: u16 where "BPF_H = 0x08"
definition BPF_ABS :: u16 where "BPF_ABS = 0x20"
definition BPF_K :: u16 where "BPF_K = 0x00"
definition BPF_JEQ :: u16 where "BPF_JEQ = 0x10"
definition BPF_AND :: u16 where "BPF_AND = 0x50"

lemmas bpf_constants = BPF_LD_def BPF_ALU_def BPF_JMP_def BPF_RET_def BPF_W_def BPF_H_def BPF_ABS_def
  BPF_K_def BPF_JEQ_def BPF_AND_def

definition load_half :: "u32 \<Rightarrow> sock_filter" where
  "load_half k = \<lparr>bpf_code = BPF_LD OR BPF_H OR BPF_ABS, bpf_jt = 0, bpf_jf = 0, bpf_k = k\<rparr>"

definition load_word :: "u32 \<Rightarrow> sock_filter" where
  "load_word k = \<lparr>bpf_code = BPF_LD OR BPF_W OR BPF_ABS, bpf_jt = 0, bpf_jf = 0, bpf_k = k\<rparr>"

definition and_mask :: "u32 \<Rightarrow> sock_filter" where
  "and_mask k = \<lparr>bpf_code = BPF_ALU OR BPF_AND OR BPF_K, bpf_jt = 0, bpf_jf = 0, bpf_k = k\<rparr>"

definition jump_eq :: "octet \<Rightarrow> octet \<Rightarrow> u32 \<Rightarrow> sock_filter" where
  "jump_eq jt jf k = \<lparr>bpf_code = BPF_JMP OR BPF_K OR BPF_JEQ, bpf_jt = jt, bpf_jf = jf, bpf_k = k\<rparr>"

definition ret :: "u32 \<Rightarrow> sock_filter" where
  "ret k = \<lparr>bpf_code = BPF_RET, bpf_jt = 0, bpf_jf = 0, bpf_k = k\<rparr>"

section \<open>Compiler\<close>

text \<open>
  The value of octets in network order; \<^verbatim>\<open>htonl\<close> of the word at an address is the value of the
  four octets there.
\<close>

definition be_value :: "octets \<Rightarrow> u32" where
  "be_value xs = foldl (\<lambda>w b. push_bit 8 w OR ucast b) 0 xs"

definition octets_at :: "nat \<Rightarrow> nat \<Rightarrow> octets \<Rightarrow> octets" where
  "octets_at i n xs = take n (drop i xs)"

definition inet4_mask :: "nat \<Rightarrow> u32" where
  "inet4_mask n = ucast (- (push_bit (32 - n) 1 :: u64))"

definition ipv6_mask :: "nat \<Rightarrow> nat \<Rightarrow> u32" where
  "ipv6_mask index n =
     (if n \<le> index then 0
      else if index + 32 \<le> n then - 1
      else ucast (- (push_bit (index + 32 - n) 1 :: u64)))"

definition inet4_test :: "u32 \<Rightarrow> netblock \<Rightarrow> sock_filter list" where
  "inet4_test offset nb =
     [load_word offset]
     @ (if nb_length nb \<noteq> 32 then [and_mask (inet4_mask (nb_length nb))] else [])
     @ [jump_eq 0 1 (be_value (octets_at 0 4 (nb_prefix nb))), ret 0]"

definition inet6_test_word :: "u32 \<Rightarrow> netblock \<Rightarrow> nat \<Rightarrow> sock_filter list" where
  "inet6_test_word offset nb i =
     [load_word (offset + of_nat (i * 4)), and_mask (ipv6_mask (i * 32) (nb_length nb)),
      jump_eq 0 (of_nat (10 - 3 * i)) (be_value (octets_at (i * 4) 4 (nb_prefix nb)))]"

definition inet6_test :: "u32 \<Rightarrow> netblock \<Rightarrow> sock_filter list" where
  "inet6_test offset nb = concat (map (inet6_test_word offset nb) [0, 1, 2, 3]) @ [ret 0]"

definition inet4_count :: "netblock list \<Rightarrow> nat" where
  "inet4_count f4 = length f4 * 6 + 1 + sum_list (map (\<lambda>nb. if nb_length nb \<noteq> 32 then 2 else 0) f4)"

definition inet6_count :: "netblock list \<Rightarrow> nat" where
  "inet6_count f6 = length f6 * 26 + 1"

definition compile_filter :: "netblock list \<Rightarrow> netblock list \<Rightarrow> sock_filter list result" where
  "compile_filter f4 f6 =
     (if 0xff < 1 + inet4_count f4 then Inl (Invalid_Argument ''too many addresses in filter'')
      else Inr
        ([load_half 12, jump_eq 2 0 0x0800, jump_eq (of_nat (1 + inet4_count f4)) 0 0x86dd, ret 0xffffffff]
         @ concat (map (inet4_test 26) f4) @ concat (map (inet4_test 30) f4) @ [ret 0xffffffff]
         @ concat (map (inet6_test 22) f6) @ concat (map (inet6_test 38) f6) @ [ret 0xffffffff]))"

section \<open>Filter object\<close>

record address_filter =
  af_inet4 :: "netblock list"
  af_inet6 :: "netblock list"
  af_modified :: bool
  af_program :: "sock_filter list"

definition address_filter_init :: address_filter where
  "address_filter_init = \<lparr>af_inet4 = [], af_inet6 = [], af_modified = True, af_program = []\<rparr>"

definition add_inet4 :: "netblock \<Rightarrow> address_filter \<Rightarrow> address_filter" where
  "add_inet4 nb f = f\<lparr>af_inet4 := af_inet4 f @ [nb]\<rparr>"

definition add_inet6 :: "netblock \<Rightarrow> address_filter \<Rightarrow> address_filter" where
  "add_inet6 nb f = f\<lparr>af_inet6 := af_inet6 f @ [nb]\<rparr>"

definition filter_empty :: "address_filter \<Rightarrow> bool" where
  "filter_empty f \<longleftrightarrow> af_inet4 f = []"

text \<open>
  The number of instructions is kept in the field \<^verbatim>\<open>len\<close> of \<^verbatim>\<open>sock_fprog\<close>, which has sixteen bits.
\<close>

definition filter_compile :: "(address_filter, sock_filter list) act" where
  "filter_compile f =
     (if af_modified f then
        (case compile_filter (af_inet4 f) (af_inet6 f) of
           Inl e \<Rightarrow> (Inl e, f)
         | Inr p \<Rightarrow> (let q = take (length p mod 65536) p in (Inr q, f\<lparr>af_program := q, af_modified := False\<rparr>)))
      else (Inr (af_program f), f))"

text \<open>
  The option \<^verbatim>\<open>-x\<close> of \<^verbatim>\<open>horace-capture\<close>, and the attachment of the filter to an event source.
\<close>

definition exclude_option :: "string \<Rightarrow> (address_filter, unit) act" where
  "exclude_option arg =
     (if CHR '':'' \<in> set arg
      then bindS (liftS (inet6_netblock arg)) (\<lambda>nb. modifyS (add_inet6 nb))
      else bindS (liftS (inet4_netblock arg)) (\<lambda>nb. modifyS (add_inet4 nb)))"

fun exclude_options :: "string list \<Rightarrow> (address_filter, unit) act" where
  "exclude_options [] = returnS ()"
| "exclude_options (arg # args) = seqS (exclude_option arg) (exclude_options args)"

definition attached_program :: "(address_filter, sock_filter list option) act" where
  "attached_program =
     bindS (getS filter_empty) (\<lambda>e. if e then returnS None else bindS filter_compile (\<lambda>p. returnS (Some p)))"

section \<open>The machine\<close>

text \<open>
  \<open>run program frame pc a\<close> is the value that the filter returns from the instruction at \<open>pc\<close> with \<open>a\<close>
  in the accumulator. A load beyond the end of the frame ends the program with zero.
\<close>

locale bpf_machine =
  fixes run :: "sock_filter list \<Rightarrow> octets \<Rightarrow> nat \<Rightarrow> u32 \<Rightarrow> u32"
  assumes run_ret: "pc < length p \<Longrightarrow> p ! pc = ret k \<Longrightarrow> run p frame pc a = k"
    and run_half: "pc < length p \<Longrightarrow> p ! pc = load_half k \<Longrightarrow> run p frame pc a =
      (if unat k + 2 \<le> length frame then run p frame (pc + 1) (be_value (octets_at (unat k) 2 frame)) else 0)"
    and run_word: "pc < length p \<Longrightarrow> p ! pc = load_word k \<Longrightarrow> run p frame pc a =
      (if unat k + 4 \<le> length frame then run p frame (pc + 1) (be_value (octets_at (unat k) 4 frame)) else 0)"
    and run_and: "pc < length p \<Longrightarrow> p ! pc = and_mask k \<Longrightarrow> run p frame pc a = run p frame (pc + 1) (a AND k)"
    and run_jump: "pc < length p \<Longrightarrow> p ! pc = jump_eq jt jf k \<Longrightarrow> run p frame pc a =
      run p frame (pc + 1 + unat (if a = k then jt else jf)) a"
begin

text \<open>
  The laws for the instruction after a part of the program that has been passed.
\<close>

lemma run_at:
  "run (pre @ ret k # post) frame (length pre) a = k"
  "run (pre @ load_half k # post) frame (length pre) a = (if unat k + 2 \<le> length frame
     then run (pre @ load_half k # post) frame (length pre + 1) (be_value (octets_at (unat k) 2 frame)) else 0)"
  "run (pre @ load_word k # post) frame (length pre) a = (if unat k + 4 \<le> length frame
     then run (pre @ load_word k # post) frame (length pre + 1) (be_value (octets_at (unat k) 4 frame)) else 0)"
  "run (pre @ and_mask k # post) frame (length pre) a = run (pre @ and_mask k # post) frame (length pre + 1) (a AND k)"
  "run (pre @ jump_eq jt jf k # post) frame (length pre) a =
     run (pre @ jump_eq jt jf k # post) frame (length pre + 1 + unat (if a = k then jt else jf)) a"
  by (rule run_ret run_half run_word run_and run_jump; simp)+

end

section \<open>Addresses as bits\<close>

text \<open>
  Bit \<open>i\<close> of octets in network order, counted from the most significant one. An address is in a
  netblock when clearing all its bits beyond the prefix length gives the prefix.
\<close>

definition addr_bit :: "octets \<Rightarrow> nat \<Rightarrow> bool" where
  "addr_bit xs i = bit (xs ! (i div 8)) (7 - i mod 8)"

definition in_netblock :: "netblock \<Rightarrow> octets \<Rightarrow> bool" where
  "in_netblock nb xs \<longleftrightarrow> (\<forall>i < 8 * length xs. addr_bit (nb_prefix nb) i = (i < nb_length nb \<and> addr_bit xs i))"

lemma bit_be_value:
  assumes "length xs = 4" and "k < 32"
  shows "bit (be_value xs) k = addr_bit xs (31 - k)"
proof -
  from assms(1) obtain b0 b1 b2 b3 where xs: "xs = [b0, b1, b2, b3]"
    by (auto simp: length_Suc_conv numeral_eq_Suc)
  define q r s where "q = k div 8" and "r = k mod 8" and "s = 7 - k mod 8"
  have k: "k = 8 * q + r" and s: "r + s = 7" and q: "q < 4"
    using assms(2) by (auto simp: q_def r_def s_def)
  have high: "\<not> bit (b :: octet) n" if "8 \<le> n" for b n
    using bit_imp_le_length[of b n] that by auto
  have pos: "31 - k = 8 * (3 - q) + s"
    using k s q by simp
  then have "(31 - k) div 8 = 3 - q" "7 - (31 - k) mod 8 = r"
    using s by simp_all
  then have right: "addr_bit xs (31 - k) = bit (xs ! (3 - q)) r"
    by (simp add: addr_bit_def)
  consider "q = 0" | "q = 1" | "q = 2" | "q = 3"
    using q by linarith
  then have "bit (be_value xs) k = bit (xs ! (3 - q)) r"
    using s assms(2) by cases (simp_all add: k xs be_value_def bit_simps high)
  with right show ?thesis
    by simp
qed

lemma word_matches:
  assumes "length xs = 4" and "length ys = 4"
  shows "be_value xs AND m = be_value ys \<longleftrightarrow> (\<forall>t < 32. addr_bit ys t = (bit m (31 - t) \<and> addr_bit xs t))"
proof -
  have "be_value xs AND m = be_value ys \<longleftrightarrow> (\<forall>k < 32. bit (be_value ys) k = (bit m k \<and> bit (be_value xs) k))"
    by (simp add: bit_eq_iff bit_and_iff possible_bit_word) auto
  also have "\<dots> \<longleftrightarrow> (\<forall>k < 32. addr_bit ys (31 - k) = (bit m k \<and> addr_bit xs (31 - k)))"
    using bit_be_value[OF assms(1)] bit_be_value[OF assms(2)] by auto
  also have "\<dots> \<longleftrightarrow> (\<forall>t < 32. addr_bit ys t = (bit m (31 - t) \<and> addr_bit xs t))"
  proof (rule iffI; intro allI impI)
    fix t :: nat
    assume a: "\<forall>k < 32. addr_bit ys (31 - k) = (bit m k \<and> addr_bit xs (31 - k))" and "t < 32"
    then have "31 - (31 - t) = t"
      by simp
    with a[rule_format, of "31 - t"] show "addr_bit ys t = (bit m (31 - t) \<and> addr_bit xs t)"
      by simp
  next
    fix k :: nat
    assume a: "\<forall>t < 32. addr_bit ys t = (bit m (31 - t) \<and> addr_bit xs t)" and "k < 32"
    then have "31 - (31 - k) = k"
      by simp
    with a[rule_format, of "31 - k"] show "addr_bit ys (31 - k) = (bit m k \<and> addr_bit xs (31 - k))"
      by simp
  qed
  finally show ?thesis .
qed

lemma bit_high_mask: "k < 32 \<Longrightarrow> bit (ucast (- (2 ^ m :: u64)) :: u32) k \<longleftrightarrow> m \<le> k"
proof -
  assume k: "k < 32"
  have "- (2 ^ m :: u64) = NOT (mask m)"
    by (simp add: minus_exp_eq_not_mask)
  then show ?thesis
    using k by (auto simp: bit_simps)
qed

lemma inet4_mask_32: "inet4_mask 32 = - 1"
  by code_simp

lemma bit_inet4_mask: "t < 32 \<Longrightarrow> n \<le> 32 \<Longrightarrow> bit (inet4_mask n) (31 - t) \<longleftrightarrow> t < n"
  by (auto simp: inet4_mask_def bit_high_mask)

lemma bit_ipv6_mask: "t < 32 \<Longrightarrow> bit (ipv6_mask index n) (31 - t) \<longleftrightarrow> index + t < n"
  by (auto simp: ipv6_mask_def bit_high_mask)

lemma all_less_32_parts: "(\<forall>i < 128. P i) \<longleftrightarrow> (\<forall>j < 4. \<forall>t < 32. P (32 * j + t :: nat))"
proof (intro iffI allI impI)
  fix i :: nat
  assume a: "\<forall>j < 4. \<forall>t < 32. P (32 * j + t)" and "i < 128"
  then have "i div 32 < 4" "i mod 32 < 32"
    by auto
  with a have "P (32 * (i div 32) + i mod 32)"
    by blast
  then show "P i"
    by simp
qed auto

lemma addr_bit_part:
  assumes "t < 32" and "j * 4 + 4 \<le> length xs"
  shows "addr_bit (octets_at (j * 4) 4 xs) t = addr_bit xs (32 * j + t)"
proof -
  have eq: "32 * j + t = t + 8 * (j * 4)"
    by simp
  have parts: "(t + 8 * m) div 8 = m + t div 8" "(t + 8 * m) mod 8 = t mod 8" for m
    by simp_all
  have "(32 * j + t) div 8 = j * 4 + t div 8" "(32 * j + t) mod 8 = t mod 8" "t div 8 < 4"
    unfolding eq parts using assms by simp_all
  then show ?thesis
    using assms(2) by (simp add: addr_bit_def octets_at_def)
qed

text \<open>
  The comparisons of the program decide membership.
\<close>

lemma inet4_matches:
  assumes "length xs = 4" and "length (nb_prefix nb) = 4" and "nb_length nb \<le> 32"
  shows "(if nb_length nb \<noteq> 32 then be_value xs AND inet4_mask (nb_length nb) else be_value xs)
      = be_value (octets_at 0 4 (nb_prefix nb)) \<longleftrightarrow> in_netblock nb xs"
proof -
  have full: "be_value xs = be_value xs AND inet4_mask 32"
    by (simp add: inet4_mask_32)
  then have "(if nb_length nb \<noteq> 32 then be_value xs AND inet4_mask (nb_length nb) else be_value xs)
      = be_value xs AND inet4_mask (nb_length nb)"
    by auto
  moreover have "octets_at 0 4 (nb_prefix nb) = nb_prefix nb"
    using assms(2) by (simp add: octets_at_def)
  ultimately show ?thesis
    using word_matches[OF assms(1,2), of "inet4_mask (nb_length nb)"] assms(1,3)
    by (simp add: in_netblock_def bit_inet4_mask)
qed

lemma inet6_matches:
  assumes "length xs = 16" and "length (nb_prefix nb) = 16"
  shows "(\<forall>j < 4. be_value (octets_at (j * 4) 4 xs) AND ipv6_mask (j * 32) (nb_length nb)
      = be_value (octets_at (j * 4) 4 (nb_prefix nb))) \<longleftrightarrow> in_netblock nb xs"
proof -
  have "be_value (octets_at (j * 4) 4 xs) AND ipv6_mask (j * 32) (nb_length nb)
      = be_value (octets_at (j * 4) 4 (nb_prefix nb)) \<longleftrightarrow>
    (\<forall>t < 32. addr_bit (nb_prefix nb) (32 * j + t) = (32 * j + t < nb_length nb \<and> addr_bit xs (32 * j + t)))"
    if "j < 4" for j
  proof -
    have "length (octets_at (j * 4) 4 xs) = 4" "length (octets_at (j * 4) 4 (nb_prefix nb)) = 4"
      using assms that by (simp_all add: octets_at_def)
    from word_matches[OF this] that assms show ?thesis
      by (simp add: addr_bit_part bit_ipv6_mask mult.commute)
  qed
  then show ?thesis
    using assms(1) all_less_32_parts[of "\<lambda>i. addr_bit (nb_prefix nb) i = (i < nb_length nb \<and> addr_bit xs i)"]
    by (simp add: in_netblock_def)
qed

section \<open>Running the tests\<close>

context bpf_machine
begin

text \<open>
  Whatever the accumulator holds, the rest of the program returns \<open>v\<close>.
\<close>

definition goes_on :: "sock_filter list \<Rightarrow> octets \<Rightarrow> nat \<Rightarrow> u32 \<Rightarrow> bool" where
  "goes_on p frame pc v \<longleftrightarrow> (\<forall>a. run p frame pc a = v)"

lemma goes_onD: "goes_on p frame pc v \<Longrightarrow> run p frame pc a = v"
  by (simp add: goes_on_def)

lemma run_inet4_test:
  assumes p: "p = pre @ inet4_test offset nb @ post"
    and next_test: "goes_on p frame (length pre + length (inet4_test offset nb)) v"
    and nb: "length (nb_prefix nb) = 4" "nb_length nb \<le> 32" and frame: "unat offset + 4 \<le> length frame"
  shows "goes_on p frame (length pre) (if in_netblock nb (octets_at (unat offset) 4 frame) then 0 else v)"
  unfolding goes_on_def
proof
  fix a
  let ?x = "be_value (octets_at (unat offset) 4 frame)"
  let ?k = "be_value (octets_at 0 4 (nb_prefix nb))"
  have "length (octets_at (unat offset) 4 frame) = 4"
    using frame by (simp add: octets_at_def)
  note hit = inet4_matches[OF this nb]
  have load: "run p frame (length pre) a = run p frame (length pre + 1) ?x"
    using run_word[of "length pre" p offset frame a] frame by (simp add: p inet4_test_def)
  show "run p frame (length pre) a = (if in_netblock nb (octets_at (unat offset) 4 frame) then 0 else v)"
  proof (cases "nb_length nb = 32")
    case True
    have i: "p ! (length pre + 1) = jump_eq 0 1 ?k" "p ! (length pre + 2) = ret 0" "length pre + 2 < length p"
      using True by (simp_all add: p inet4_test_def nth_append)
    have "run p frame (length pre + 1) ?x = run p frame (length pre + 1 + 1 + unat (if ?x = ?k then 0 else 1 :: octet)) ?x"
      using i by (intro run_jump) simp_all
    moreover have "run p frame (length pre + 2) ?x = 0"
      using i by (intro run_ret) simp_all
    moreover have "run p frame (length pre + 3) ?x = v"
      using True goes_onD[OF next_test, of ?x] by (simp add: inet4_test_def eval_nat_numeral)
    ultimately show ?thesis
      using load hit True by (simp add: eval_nat_numeral split: if_splits)
  next
    case False
    let ?y = "?x AND inet4_mask (nb_length nb)"
    have i: "p ! (length pre + 1) = and_mask (inet4_mask (nb_length nb))" "p ! (length pre + 2) = jump_eq 0 1 ?k"
      "p ! (length pre + 3) = ret 0" "length pre + 3 < length p"
      using False by (simp_all add: p inet4_test_def nth_append)
    have "run p frame (length pre + 1) ?x = run p frame (length pre + 1 + 1) ?y"
      using i by (intro run_and) simp_all
    moreover have "run p frame (length pre + 2) ?y = run p frame (length pre + 2 + 1 + unat (if ?y = ?k then 0 else 1 :: octet)) ?y"
      using i by (intro run_jump) simp_all
    moreover have "run p frame (length pre + 3) ?y = 0"
      using i by (intro run_ret) simp_all
    moreover have "run p frame (length pre + 4) ?y = v"
      using False goes_onD[OF next_test, of ?y] by (simp add: inet4_test_def eval_nat_numeral)
    ultimately show ?thesis
      using load hit False by (simp add: eval_nat_numeral split: if_splits)
  qed
qed

lemma run_inet4_tests:
  assumes "p = pre @ concat (map (inet4_test offset) nbs) @ post"
    and "goes_on p frame (length pre + length (concat (map (inet4_test offset) nbs))) v"
    and "\<forall>nb \<in> set nbs. length (nb_prefix nb) = 4 \<and> nb_length nb \<le> 32"
    and "nbs \<noteq> [] \<longrightarrow> unat offset + 4 \<le> length frame"
  shows "goes_on p frame (length pre)
    (if \<exists>nb \<in> set nbs. in_netblock nb (octets_at (unat offset) 4 frame) then 0 else v)"
  using assms
proof (induction nbs arbitrary: pre)
  case (Cons nb nbs)
  let ?v = "if \<exists>nb \<in> set nbs. in_netblock nb (octets_at (unat offset) 4 frame) then 0 else v"
  have "goes_on p frame (length (pre @ inet4_test offset nb)) ?v"
    using Cons.prems by (intro Cons.IH) (simp_all add: add.assoc)
  then have "goes_on p frame (length pre) (if in_netblock nb (octets_at (unat offset) 4 frame) then 0 else ?v)"
    using Cons.prems by (intro run_inet4_test[of p pre offset nb "concat (map (inet4_test offset) nbs) @ post"]) simp_all
  then show ?case
    by (auto split: if_splits)
qed simp

lemma inet6_test_nth:
  "i < 4 \<Longrightarrow> inet6_test offset nb ! (3 * i) = load_word (offset + of_nat (i * 4))"
  "i < 4 \<Longrightarrow> inet6_test offset nb ! (3 * i + 1) = and_mask (ipv6_mask (i * 32) (nb_length nb))"
  "i < 4 \<Longrightarrow> inet6_test offset nb ! (3 * i + 2) = jump_eq 0 (of_nat (10 - 3 * i)) (be_value (octets_at (i * 4) 4 (nb_prefix nb)))"
  "inet6_test offset nb ! 12 = ret 0"
  "length (inet6_test offset nb) = 13"
proof -
  have four: "i = 0 \<or> i = 1 \<or> i = 2 \<or> i = 3" if "i < 4" for i :: nat
    using that by linarith
  show "i < 4 \<Longrightarrow> inet6_test offset nb ! (3 * i) = load_word (offset + of_nat (i * 4))"
    "i < 4 \<Longrightarrow> inet6_test offset nb ! (3 * i + 1) = and_mask (ipv6_mask (i * 32) (nb_length nb))"
    "i < 4 \<Longrightarrow> inet6_test offset nb ! (3 * i + 2) = jump_eq 0 (of_nat (10 - 3 * i)) (be_value (octets_at (i * 4) 4 (nb_prefix nb)))"
    by (drule four, elim disjE; simp add: inet6_test_def inet6_test_word_def)+
  show "inet6_test offset nb ! 12 = ret 0" "length (inet6_test offset nb) = 13"
    by (simp_all add: inet6_test_def inet6_test_word_def)
qed

end

context bpf_machine
begin

lemma run_inet6_word:
  assumes p: "p = pre @ inet6_test offset nb @ post" and i: "i < 4"
    and frame: "unat offset + 16 \<le> length frame" "unat offset \<le> 100"
    and hit: "goes_on p frame (length pre + 3 * i + 3) w" and miss: "goes_on p frame (length pre + 13) v"
  shows "goes_on p frame (length pre + 3 * i)
    (if be_value (octets_at (unat offset + i * 4) 4 frame) AND ipv6_mask (i * 32) (nb_length nb)
        = be_value (octets_at (i * 4) 4 (nb_prefix nb)) then w else v)"
  unfolding goes_on_def
proof
  fix a
  let ?x = "be_value (octets_at (unat offset + i * 4) 4 frame)"
  let ?m = "ipv6_mask (i * 32) (nb_length nb)"
  let ?k = "be_value (octets_at (i * 4) 4 (nb_prefix nb))"
  have len: "length p = length pre + 13 + length post"
    by (simp add: p inet6_test_nth)
  have nth: "p ! (length pre + j) = inet6_test offset nb ! j" if "j < 13" for j
    using that by (simp add: p nth_append inet6_test_nth(5))
  have at: "p ! (length pre + 3 * i) = load_word (offset + of_nat (i * 4))"
    "p ! (length pre + 3 * i + 1) = and_mask ?m"
    "p ! (length pre + 3 * i + 2) = jump_eq 0 (of_nat (10 - 3 * i)) ?k"
    using nth[of "3 * i"] nth[of "3 * i + 1"] nth[of "3 * i + 2"] i inet6_test_nth(1-3)[OF i] by (simp_all add: add.assoc)
  have jump: "unat (of_nat (10 - 3 * i) :: octet) = 10 - 3 * i"
    by (intro unat_of_nat_octet) simp
  have off: "unat (offset + of_nat (i * 4)) = unat offset + i * 4"
  proof -
    have "unat (of_nat (i * 4) :: u32) = i * 4"
      using i by (simp only: unat_of_nat) simp
    with frame(2) i show ?thesis
      by (simp add: unat_word_ariths)
  qed
  have "run p frame (length pre + 3 * i) a = run p frame (length pre + 3 * i + 1) ?x"
    using run_word[OF _ at(1), of frame a] len i frame(1) unfolding off by simp
  also have "\<dots> = run p frame (length pre + 3 * i + 1 + 1) (?x AND ?m)"
    using at(2) len i by (intro run_and) simp_all
  also have "\<dots> = run p frame (length pre + 3 * i + 2) (?x AND ?m)"
    by simp
  also have "\<dots> = run p frame (length pre + 3 * i + 2 + 1 + unat (if ?x AND ?m = ?k then 0 else of_nat (10 - 3 * i) :: octet)) (?x AND ?m)"
    using at(3) len i by (intro run_jump) simp_all
  also have "\<dots> = (if ?x AND ?m = ?k then w else v)"
    using goes_onD[OF hit, of "?x AND ?m"] goes_onD[OF miss, of "?x AND ?m"] jump i
    by (auto simp: eval_nat_numeral)
  finally show "run p frame (length pre + 3 * i) a = (if ?x AND ?m = ?k then w else v)" .
qed

lemma octets_at_part: "i < 4 \<Longrightarrow> octets_at (k + i * 4) 4 frame = octets_at (i * 4) 4 (octets_at k 16 frame)"
  by (simp add: octets_at_def drop_take min_def add.commute)

lemma run_inet6_test:
  assumes p: "p = pre @ inet6_test offset nb @ post"
    and next_test: "goes_on p frame (length pre + length (inet6_test offset nb)) v"
    and nb: "length (nb_prefix nb) = 16" and frame: "unat offset + 16 \<le> length frame" "unat offset \<le> 100"
  shows "goes_on p frame (length pre) (if in_netblock nb (octets_at (unat offset) 16 frame) then 0 else v)"
proof -
  define hit where "hit i \<longleftrightarrow> be_value (octets_at (unat offset + i * 4) 4 frame) AND ipv6_mask (i * 32) (nb_length nb)
        = be_value (octets_at (i * 4) 4 (nb_prefix nb))" for i
  have v: "goes_on p frame (length pre + 13) v"
    using next_test by (simp add: inet6_test_nth)
  have step: "goes_on p frame (length pre + 3 * i + 3) w \<Longrightarrow> goes_on p frame (length pre + 3 * i) (if hit i then w else v)"
    if "i < 4" for i w
    unfolding hit_def by (rule run_inet6_word[OF p that frame _ v])
  have "p ! (length pre + 12) = ret 0" "length pre + 12 < length p"
    by (simp_all add: p nth_append inet6_test_nth)
  then have end0: "goes_on p frame (length pre + 12) 0"
    by (simp add: goes_on_def run_ret)
  have s3: "goes_on p frame (length pre + 9) (if hit 3 then 0 else v)"
    using step[of 3 0] end0 by (simp add: add.commute)
  have s2: "goes_on p frame (length pre + 6) (if hit 2 then if hit 3 then 0 else v else v)"
    using step[of 2 "if hit 3 then 0 else v"] s3 by (simp add: add.commute)
  have s1: "goes_on p frame (length pre + 3) (if hit 1 then if hit 2 then if hit 3 then 0 else v else v else v)"
    using step[of 1 "if hit 2 then if hit 3 then 0 else v else v"] s2 by (simp add: add.commute)
  have "goes_on p frame (length pre) (if hit 0 then if hit 1 then if hit 2 then if hit 3 then 0 else v else v else v else v)"
    using step[of 0 "if hit 1 then if hit 2 then if hit 3 then 0 else v else v else v"] s1 by simp
  moreover have "in_netblock nb (octets_at (unat offset) 16 frame) \<longleftrightarrow> (\<forall>i < 4. hit i)"
  proof -
    have "length (octets_at (unat offset) 16 frame) = 16"
      using frame(1) by (simp add: octets_at_def)
    from inet6_matches[OF this nb] show ?thesis
      by (simp add: hit_def octets_at_part)
  qed
  moreover have "(\<forall>i < 4. hit i) \<longleftrightarrow> hit 0 \<and> hit 1 \<and> hit 2 \<and> hit 3"
    by (auto simp: eval_nat_numeral less_Suc_eq)
  ultimately show ?thesis
    by (simp split: if_splits)
qed

lemma run_inet6_tests:
  assumes "p = pre @ concat (map (inet6_test offset) nbs) @ post"
    and "goes_on p frame (length pre + length (concat (map (inet6_test offset) nbs))) v"
    and "\<forall>nb \<in> set nbs. length (nb_prefix nb) = 16"
    and "nbs \<noteq> [] \<longrightarrow> unat offset + 16 \<le> length frame" and "unat offset \<le> 100"
  shows "goes_on p frame (length pre)
    (if \<exists>nb \<in> set nbs. in_netblock nb (octets_at (unat offset) 16 frame) then 0 else v)"
  using assms
proof (induction nbs arbitrary: pre)
  case (Cons nb nbs)
  let ?v = "if \<exists>nb \<in> set nbs. in_netblock nb (octets_at (unat offset) 16 frame) then 0 else v"
  have "goes_on p frame (length (pre @ inet6_test offset nb)) ?v"
    using Cons.prems by (intro Cons.IH) (simp_all add: add.assoc)
  then have "goes_on p frame (length pre) (if in_netblock nb (octets_at (unat offset) 16 frame) then 0 else ?v)"
    using Cons.prems by (intro run_inet6_test[of p pre offset nb "concat (map (inet6_test offset) nbs) @ post"]) simp_all
  then show ?case
    by (auto split: if_splits)
qed simp

end

section \<open>The whole filter\<close>

definition ethertype :: "octets \<Rightarrow> u32" where
  "ethertype frame = be_value (octets_at 12 2 frame)"

text \<open>
  The frames to exclude: an IP datagram with a source or destination address in a netblock.
\<close>

definition excluded :: "netblock list \<Rightarrow> netblock list \<Rightarrow> octets \<Rightarrow> bool" where
  "excluded f4 f6 frame \<longleftrightarrow>
     (ethertype frame = 0x0800 \<and>
        list_ex (\<lambda>nb. in_netblock nb (octets_at 26 4 frame) \<or> in_netblock nb (octets_at 30 4 frame)) f4)
     \<or> (ethertype frame = 0x86dd \<and>
        list_ex (\<lambda>nb. in_netblock nb (octets_at 22 16 frame) \<or> in_netblock nb (octets_at 38 16 frame)) f6)"

text \<open>
  An Ethernet header and, for an IP datagram, its header up to the addresses.
\<close>

definition complete_frame :: "octets \<Rightarrow> bool" where
  "complete_frame frame \<longleftrightarrow> 14 \<le> length frame \<and> (ethertype frame = 0x0800 \<longrightarrow> 34 \<le> length frame)
     \<and> (ethertype frame = 0x86dd \<longrightarrow> 54 \<le> length frame)"

definition inet4_wf :: "netblock \<Rightarrow> bool" where
  "inet4_wf nb \<longleftrightarrow> length (nb_prefix nb) = 4 \<and> nb_length nb \<le> 32"

definition inet6_wf :: "netblock \<Rightarrow> bool" where
  "inet6_wf nb \<longleftrightarrow> length (nb_prefix nb) = 16 \<and> nb_length nb \<le> 128"

lemma inet4_tests_length:
  "length (concat (map (inet4_test o1) f4)) + length (concat (map (inet4_test o2) f4)) + 1 = inet4_count f4"
  by (induction f4) (auto simp: inet4_count_def inet4_test_def)

lemma inet6_tests_length: "length (concat (map (inet6_test o1) f6)) = 13 * length f6"
  by (induction f6) (simp_all add: inet6_test_def inet6_test_word_def)

text \<open>
  The buffer that the code allocates is filled exactly.
\<close>

lemma compile_filter_length:
  "compile_filter f4 f6 = Inr p \<Longrightarrow> length p = 4 + inet4_count f4 + inet6_count f6"
  using inet4_tests_length[of 26 f4 30] inet6_tests_length[of 22 f6] inet6_tests_length[of 38 f6]
  by (auto simp: compile_filter_def inet6_count_def split: if_splits)

context bpf_machine
begin

lemma run_filter:
  assumes c: "compile_filter f4 f6 = Inr p" and f4: "list_all inet4_wf f4" and f6: "list_all inet6_wf f6"
    and frame: "complete_frame frame"
  shows "run p frame 0 a = (if excluded f4 f6 frame then 0 else 0xffffffff)"
proof -
  define t1 t2 u1 u2 where "t1 = concat (map (inet4_test 26) f4)" and "t2 = concat (map (inet4_test 30) f4)"
    and "u1 = concat (map (inet6_test 22) f6)" and "u2 = concat (map (inet6_test 38) f6)"
  define head where "head = [load_half 12, jump_eq 2 0 0x0800, jump_eq (of_nat (1 + inet4_count f4)) 0 0x86dd, ret 0xffffffff]"
  let ?e = "ethertype frame" and ?ok = "0xffffffff :: u32"
  from c have p: "p = head @ t1 @ t2 @ [ret ?ok] @ u1 @ u2 @ [ret ?ok]" and count: "1 + inet4_count f4 \<le> 0xff"
    by (auto simp: compile_filter_def t1_def t2_def u1_def u2_def head_def split: if_splits)
  have len: "length t1 + length t2 + 1 = inet4_count f4"
    unfolding t1_def t2_def by (rule inet4_tests_length)
  have at: "p ! 0 = load_half 12" "p ! 1 = jump_eq 2 0 0x0800"
    "p ! 2 = jump_eq (of_nat (1 + inet4_count f4)) 0 0x86dd" "p ! 3 = ret ?ok" "4 \<le> length p"
    by (simp_all add: p head_def)
  have jump: "unat (of_nat (1 + inet4_count f4) :: octet) = 1 + inet4_count f4"
    using count by (intro unat_of_nat_octet) simp
  have ends: "goes_on p frame (length (pre :: sock_filter list)) k" if "p = pre @ ret k # post" for pre k post
    using run_at(1)[of pre k post frame] that by (simp add: goes_on_def)
  have "0 < length p"
    using at(5) by linarith
  then have e: "run p frame 0 a = run p frame 1 ?e"
    using run_half[OF _ at(1), of frame a] frame by (simp add: ethertype_def complete_frame_def)
  show ?thesis
  proof (cases "?e = 0x0800")
    case True
    have acc: "goes_on p frame (length (head @ t1 @ t2)) ?ok"
      by (rule ends[of _ _ "u1 @ u2 @ [ret ?ok]"]) (simp add: p)
    have "goes_on p frame (length (head @ t1))
      (if \<exists>nb \<in> set f4. in_netblock nb (octets_at 30 4 frame) then 0 else ?ok)"
      using run_inet4_tests[of p "head @ t1" 30 f4 "[ret ?ok] @ u1 @ u2 @ [ret ?ok]" frame ?ok] acc f4 frame True
      by (auto simp: p t2_def inet4_wf_def list_all_iff complete_frame_def add.assoc)
    then have "goes_on p frame (length head)
      (if \<exists>nb \<in> set f4. in_netblock nb (octets_at 26 4 frame) then 0
       else if \<exists>nb \<in> set f4. in_netblock nb (octets_at 30 4 frame) then 0 else ?ok)"
      using run_inet4_tests[of p head 26 f4 "t2 @ [ret ?ok] @ u1 @ u2 @ [ret ?ok]" frame
          "if \<exists>nb \<in> set f4. in_netblock nb (octets_at 30 4 frame) then 0 else ?ok"] f4 frame True
      by (auto simp: p t1_def inet4_wf_def list_all_iff complete_frame_def)
    moreover have "run p frame 1 ?e = run p frame (length head) ?e"
      using run_jump[of 1 p 2 0 "0x0800" frame ?e] at True by (simp add: head_def)
    ultimately show ?thesis
      using e True goes_onD by (auto simp: excluded_def list_ex_iff split: if_splits)
  next
    case False
    then have two: "run p frame 1 ?e = run p frame 2 ?e"
      using run_jump[of 1 p 2 0 "0x0800" frame ?e] at by (simp add: numeral_2_eq_2)
    show ?thesis
    proof (cases "?e = 0x86dd")
      case True
      let ?pre = "head @ t1 @ t2 @ [ret ?ok]"
      have acc: "goes_on p frame (length (?pre @ u1 @ u2)) ?ok"
        by (rule ends[of _ _ "[]"]) (simp add: p)
      have "goes_on p frame (length (?pre @ u1))
        (if \<exists>nb \<in> set f6. in_netblock nb (octets_at 38 16 frame) then 0 else ?ok)"
        using run_inet6_tests[of p "?pre @ u1" 38 f6 "[ret ?ok]" frame ?ok] acc f6 frame True
        by (auto simp: p u2_def inet6_wf_def list_all_iff complete_frame_def add.assoc)
      then have "goes_on p frame (length ?pre)
        (if \<exists>nb \<in> set f6. in_netblock nb (octets_at 22 16 frame) then 0
         else if \<exists>nb \<in> set f6. in_netblock nb (octets_at 38 16 frame) then 0 else ?ok)"
        using run_inet6_tests[of p ?pre 22 f6 "u2 @ [ret ?ok]" frame
            "if \<exists>nb \<in> set f6. in_netblock nb (octets_at 38 16 frame) then 0 else ?ok"] f6 frame True
        by (auto simp: p u1_def inet6_wf_def list_all_iff complete_frame_def add.assoc)
      moreover have "run p frame 2 ?e = run p frame (length ?pre) ?e"
        using run_jump[of 2 p "of_nat (1 + inet4_count f4)" 0 "0x86dd" frame ?e] at True len jump
        by (simp add: head_def eval_nat_numeral)
      ultimately show ?thesis
        using e two True False goes_onD by (auto simp: excluded_def list_ex_iff split: if_splits)
    next
      case F: False
      then have "run p frame 2 ?e = run p frame 3 ?e"
        using run_jump[of 2 p "of_nat (1 + inet4_count f4)" 0 "0x86dd" frame ?e] at by (simp add: eval_nat_numeral)
      also have "\<dots> = ?ok"
        using at by (intro run_ret) simp_all
      finally show ?thesis
        using e two F False by (simp add: excluded_def)
    qed
  qed
qed

end

section \<open>A machine\<close>

text \<open>
  An interpreter that satisfies the laws.
\<close>

function bpf_run :: "sock_filter list \<Rightarrow> octets \<Rightarrow> nat \<Rightarrow> u32 \<Rightarrow> u32" where
  "bpf_run p frame pc a =
     (if length p \<le> pc then 0
      else
        (let i = p ! pc; k = bpf_k i in
         if bpf_code i = BPF_RET then k
         else if bpf_code i = BPF_LD OR BPF_H OR BPF_ABS then
           (if unat k + 2 \<le> length frame then bpf_run p frame (pc + 1) (be_value (octets_at (unat k) 2 frame)) else 0)
         else if bpf_code i = BPF_LD OR BPF_W OR BPF_ABS then
           (if unat k + 4 \<le> length frame then bpf_run p frame (pc + 1) (be_value (octets_at (unat k) 4 frame)) else 0)
         else if bpf_code i = BPF_ALU OR BPF_AND OR BPF_K then bpf_run p frame (pc + 1) (a AND k)
         else if bpf_code i = BPF_JMP OR BPF_K OR BPF_JEQ then
           bpf_run p frame (pc + 1 + unat (if a = k then bpf_jt i else bpf_jf i)) a
         else 0))"
  by pat_completeness auto
termination
  by (relation "measure (\<lambda>(p, frame, pc, a). length p - pc)") auto

declare bpf_run.simps [simp del]

interpretation kernel: bpf_machine bpf_run
proof
  fix p :: "sock_filter list" and frame :: octets and pc :: nat and a k :: u32
  assume "pc < length p"
  show "bpf_run p frame pc a = k" if "p ! pc = ret k"
    using that \<open>pc < length p\<close> by (simp add: bpf_run.simps[of p] ret_def bpf_constants)
  show "bpf_run p frame pc a = (if unat k + 2 \<le> length frame
      then bpf_run p frame (pc + 1) (be_value (octets_at (unat k) 2 frame)) else 0)" if "p ! pc = load_half k"
    using that \<open>pc < length p\<close> by (simp add: bpf_run.simps[of p _ pc] load_half_def bpf_constants)
  show "bpf_run p frame pc a = (if unat k + 4 \<le> length frame
      then bpf_run p frame (pc + 1) (be_value (octets_at (unat k) 4 frame)) else 0)" if "p ! pc = load_word k"
    using that \<open>pc < length p\<close> by (simp add: bpf_run.simps[of p _ pc] load_word_def bpf_constants)
  show "bpf_run p frame pc a = bpf_run p frame (pc + 1) (a AND k)" if "p ! pc = and_mask k"
    using that \<open>pc < length p\<close> by (simp add: bpf_run.simps[of p _ pc] and_mask_def bpf_constants)
  show "bpf_run p frame pc a = bpf_run p frame (pc + 1 + unat (if a = k then jt else jf)) a"
    if "p ! pc = jump_eq jt jf k" for jt jf
    using that \<open>pc < length p\<close> by (simp add: bpf_run.simps[of p _ pc] jump_eq_def bpf_constants)
qed

section \<open>Properties\<close>

text \<open>
  C11: on a machine that executes the instructions as documented, the compiled program rejects a
  frame that holds an IP datagram exactly when its source or its destination address is in one
  of the netblocks, and accepts every other frame; the buffer allocated for it is filled exactly.
\<close>

theorem filter_excludes:
  assumes "bpf_machine run" and "compile_filter f4 f6 = Inr p"
    and "list_all inet4_wf f4" and "list_all inet6_wf f6" and "complete_frame frame"
  shows "run p frame 0 a = (if excluded f4 f6 frame then 0 else 0xffffffff)
    \<and> length p = 4 + inet4_count f4 + inet6_count f6"
  using bpf_machine.run_filter[OF assms] compile_filter_length[OF assms(2)] by blast

definition sample_frame :: octets where
  "sample_frame = replicate 12 0 @ [0x08, 0x00] @ replicate 12 0 @ [10, 1, 2, 3] @ [192, 0, 2, 1]"

lemma filter_excludes_witness:
  "\<exists>p. compile_filter [\<lparr>nb_prefix = [10, 0, 0, 0], nb_length = 8\<rparr>] [] = Inr p \<and> bpf_run p sample_frame 0 0 = 0"
proof -
  let ?f4 = "[\<lparr>nb_prefix = [10, 0, 0, 0], nb_length = 8\<rparr>] :: netblock list"
  obtain p where p: "compile_filter ?f4 [] = Inr p"
    by (simp add: compile_filter_def inet4_count_def)
  have "inet4_wf (hd ?f4)"
    by (simp add: inet4_wf_def)
  moreover have "complete_frame sample_frame" "excluded ?f4 [] sample_frame"
    by code_simp+
  ultimately have "bpf_run p sample_frame 0 0 = 0"
    using filter_excludes[OF kernel.bpf_machine_axioms p, of sample_frame 0] by simp
  with p show ?thesis
    by blast
qed

text \<open>
  An IPv6 netblock alone is never excluded. Where all the arguments of the option \<^verbatim>\<open>-x\<close> hold a
  colon, the filter calls itself empty and no program is attached.
\<close>

lemma inet6_only_not_attached:
  assumes "exclude_options args address_filter_init = (Inr (), f)" and "list_all (\<lambda>s. CHR '':'' \<in> set s) args"
  shows "attached_program f = (Inr None, f)"
proof -
  have "af_inet4 f' = af_inet4 f0" if "exclude_options args f0 = (Inr (), f')" for f0 f'
    using that assms(2)
  proof (induction args arbitrary: f0)
    case (Cons s args)
    then obtain nb where "exclude_options args (add_inet6 nb f0) = (Inr (), f')"
      by (auto simp: exclude_option_def act_simps split: sum.splits)
    with Cons show ?case
      by (fastforce simp: add_inet6_def)
  qed (simp add: act_simps)
  from this[OF assms(1)] show ?thesis
    by (simp add: attached_program_def filter_empty_def address_filter_init_def act_simps)
qed

lemma inet6_only_not_attached_witness:
  "attached_program (snd (exclude_options [''2001:db8::/32''] address_filter_init))
    = (Inr None, snd (exclude_options [''2001:db8::/32''] address_filter_init))"
proof (rule inet6_only_not_attached)
  have "fst (exclude_options [''2001:db8::/32''] address_filter_init) = Inr ()"
    by code_simp
  then show "exclude_options [''2001:db8::/32''] address_filter_init
    = (Inr (), snd (exclude_options [''2001:db8::/32''] address_filter_init))"
    by (rule run_result)
qed simp

end
