(* ===== verification/Session_Builder.thy ===== *)
theory Session_Builder
  imports Record_Codec Secure_Hash Filestore
begin

text \<open>
  The builder of session records (\<^verbatim>\<open>horace/session_builder.cc\<close>): the identifiers it gives to
  attribute types and channels and the definitions it announces. The lemmas relate it to the
  session context of whoever reads the record: each identifier given out has there the label and
  the type it was defined with, and is new.
\<close>

section \<open>State and operations\<close>

record session_builder =
  sb_srcid :: string
  sb_attributes :: "attribute list"
  sb_attr_count :: i32
  sb_chan_count :: i32

text \<open>
  \<open>protocol\<close> is the global \<^verbatim>\<open>protocol_version\<close>; \<open>now\<close> is the result of \<^verbatim>\<open>clock_gettime\<close>.
\<close>

definition session_builder_init ::
  "u32 option \<Rightarrow> string \<Rightarrow> string \<Rightarrow> (i64 \<times> i64) result \<Rightarrow> session_builder result" where
  "session_builder_init protocol srcid time_system now =
     bindE (source_id srcid) (\<lambda>srcid.
     let as0 = (case protocol of None \<Rightarrow> []
                | Some v \<Rightarrow> attr_insert (Unsigned_Integer attrid_protocol (ucast v)) []);
         as1 = attr_insert (String_Attr attrid_time_system time_system) as0;
         as2 = attr_insert (String_Attr attrid_source srcid) as1 in
     bindE now (\<lambda>(sec, nsec).
       Inr \<lparr>sb_srcid = srcid, sb_attributes = attr_insert (Timestamp attrid_ts sec nsec) as2,
            sb_attr_count = 0, sb_chan_count = 0\<rparr>))"

text \<open>
  The counters have type \<^verbatim>\<open>int\<close>: incrementing the greatest value is undefined.
\<close>

definition increment :: "i32 \<Rightarrow> i32 result" where
  "increment n = (if sint n = 2 ^ 31 - 1 then Inl (Undefined_Behaviour ''signed overflow'') else Inr (n + 1))"

definition attr_def_attributes :: "i32 \<Rightarrow> string \<Rightarrow> i32 \<Rightarrow> attribute list" where
  "attr_def_attributes i label ty =
     attr_insert (Unsigned_Integer attrid_type (scast ty))
       (attr_insert (String_Attr attrid_attr_label label)
         (attr_insert (Signed_Integer attrid_attr_id (scast i)) []))"

definition define_attribute :: "string \<Rightarrow> i32 \<Rightarrow> (session_builder, i32) act" where
  "define_attribute label ty sb =
     (let i = sb_attr_count sb;
          sb' = sb\<lparr>sb_attributes :=
            attr_insert (Compound attrid_attr_def (attr_def_attributes i label ty)) (sb_attributes sb)\<rparr> in
      case increment i of
        Inl e \<Rightarrow> (Inl e, sb')
      | Inr n \<Rightarrow> (Inr i, sb'\<lparr>sb_attr_count := n\<rparr>))"

definition chan_def_attributes :: "i32 \<Rightarrow> string \<Rightarrow> attribute list \<Rightarrow> attribute list" where
  "chan_def_attributes i label subattrs =
     attr_insert (String_Attr attrid_chan_label label)
       (attr_insert (Signed_Integer attrid_chan_id (scast i)) subattrs)"

definition define_channel :: "string \<Rightarrow> attribute list \<Rightarrow> (session_builder, i32) act" where
  "define_channel label subattrs sb =
     (let i = sb_chan_count sb;
          sb' = sb\<lparr>sb_attributes :=
            attr_insert (Compound attrid_chan_def (chan_def_attributes i label subattrs)) (sb_attributes sb)\<rparr> in
      case increment i of
        Inl e \<Rightarrow> (Inl e, sb')
      | Inr n \<Rightarrow> (Inr i, sb'\<lparr>sb_chan_count := n\<rparr>))"

definition define_hash :: "hash_algorithm \<Rightarrow> session_builder \<Rightarrow> session_builder" where
  "define_hash h sb = sb\<lparr>sb_attributes := attr_insert (String_Attr attrid_hash_alg (hash_name h)) (sb_attributes sb)\<rparr>"

definition define_keypair :: "string \<Rightarrow> octets \<Rightarrow> session_builder \<Rightarrow> session_builder" where
  "define_keypair algorithm public_key sb =
     sb\<lparr>sb_attributes := attr_insert (Binary attrid_sig_pubkey public_key)
        (attr_insert (String_Attr attrid_sig_alg algorithm) (sb_attributes sb))\<rparr>"

definition session_build :: "session_builder \<Rightarrow> hrecord" where
  "session_build sb = \<lparr>rec_channel = channel_session, rec_attributes = sb_attributes sb\<rparr>"

section \<open>Attributes in the order of reading\<close>

lemma attrs_accepted_append:
  "attrs_accepted s (as @ bs) = bindE (attrs_accepted s as) (\<lambda>s'. attrs_accepted s' bs)"
  by (induction as arbitrary: s) (simp_all add: bindE_assoc)

lemma attrs_typed_append:
  "attrs_typed s (as @ bs) \<longleftrightarrow> attrs_typed s as
     \<and> (case attrs_accepted s as of Inl e \<Rightarrow> False | Inr s' \<Rightarrow> attrs_typed s' bs)"
  by (induction as arbitrary: s) (auto split: sum.splits)

lemma attrs_typed_accepted: "attrs_typed s as \<Longrightarrow> \<exists>s'. attrs_accepted s as = Inr s'"
  by (induction as arbitrary: s) (auto split: sum.splits)

text \<open>
  A context extends another when it has all its attribute types; reading is monotone in it.
\<close>

definition extends :: "session_context \<Rightarrow> session_context \<Rightarrow> bool" where
  "extends s s' \<longleftrightarrow> attr_types s \<subseteq>\<^sub>m attr_types s'"

lemma extends_same [intro]: "attr_types s = attr_types s' \<Longrightarrow> extends s s'"
  by (simp add: extends_def)

lemma get_attr_type_extends: "get_attr_type s i = Inr t \<Longrightarrow> extends s s' \<Longrightarrow> get_attr_type s' i = Inr t"
proof -
  assume t: "get_attr_type s i = Inr t" and "extends s s'"
  then have "attr_types s' i = attr_types s i" if "i \<in> dom (attr_types s)"
    using that by (simp add: extends_def map_le_def)
  with t show ?thesis
    by (cases "attr_types s i") (simp_all add: get_attr_type_def dom_def split: if_splits)
qed

lemma attr_wf_extends:
  assumes "extends s s'"
  shows "attr_wf s a \<Longrightarrow> attr_wf s' a"
proof (induction a)
  case (Compound i as)
  then show ?case
    using get_attr_type_extends[OF _ assms] by (auto simp: list_all_iff)
qed (use get_attr_type_extends[OF _ assms] in \<open>simp; blast\<close>)+

definition add_attr :: "i32 \<Rightarrow> string \<Rightarrow> i32 \<Rightarrow> session_context \<Rightarrow> session_context" where
  "add_attr i label ty s = s\<lparr>attr_labels := (attr_labels s)(i \<mapsto> label), attr_types := (attr_types s)(i \<mapsto> ty)\<rparr>"

definition add_chan :: "i32 \<Rightarrow> string \<Rightarrow> session_context \<Rightarrow> session_context" where
  "add_chan i label s = s\<lparr>chan_labels := (chan_labels s)(i \<mapsto> label)\<rparr>"

lemma extends_add_attr: "i \<notin> dom (attr_types s) \<Longrightarrow> extends s (add_attr i label ty s)"
  by (auto simp: extends_def add_attr_def map_le_def)

lemma apply_def_add_attr:
  assumes "attrid a \<noteq> attrid_attr_def" and "apply_def a s = Inr s'"
  shows "apply_def a (add_attr i label ty s) = Inr (add_attr i label ty s')" and "attr_types s' = attr_types s"
  using assms by (auto simp: apply_def_def add_attr_def handle_channel_def_Inr split: if_splits)

lemma attrs_typed_add_attr:
  assumes "attrs_typed s as" and "\<And>a. a \<in> set as \<Longrightarrow> attrid a \<noteq> attrid_attr_def" and "i \<notin> dom (attr_types s)"
  shows "attrs_typed (add_attr i label ty s) as
    \<and> attrs_accepted (add_attr i label ty s) as = bindE (attrs_accepted s as) (\<lambda>s'. Inr (add_attr i label ty s'))"
  using assms
proof (induction as arbitrary: s)
  case (Cons a as)
  then obtain s' where s': "apply_def a s = Inr s'" "attrs_typed s' as" "attr_wf s a"
    by (auto split: sum.splits)
  note step = apply_def_add_attr[OF _ s'(1)]
  have "attr_wf (add_attr i label ty s) a"
    using attr_wf_extends[OF extends_add_attr[OF Cons.prems(3)] s'(3)] .
  moreover have "attrs_typed (add_attr i label ty s') as
      \<and> attrs_accepted (add_attr i label ty s') as = bindE (attrs_accepted s' as) (\<lambda>s'. Inr (add_attr i label ty s'))"
    using Cons.prems step(2) s'(2) by (intro Cons.IH) auto
  ultimately show ?case
    using Cons.prems(2) step(1) s'(1) by simp
qed simp

lemma attrs_typed_no_defs:
  assumes "attrs_typed s as" and "\<And>a. a \<in> set as \<Longrightarrow> attrid a \<noteq> attrid_attr_def \<and> attrid a \<noteq> attrid_chan_def"
    and "attr_types s = attr_types s'"
  shows "attrs_typed s' as \<and> attrs_accepted s' as = Inr s'"
  using assms
proof (induction as)
  case (Cons a as)
  then have a: "apply_def a s = Inr s" "apply_def a s' = Inr s'"
    by (simp_all add: apply_def_def)
  with Cons show ?case
    using attr_wf_extends[OF extends_same[OF assms(3)]] by auto
qed simp

section \<open>The session record as it is built\<close>

text \<open>
  \<open>announces sb s\<close>: the record that \<open>sb\<close> would build can be written and read, and reading it in a
  new session gives the context \<open>s\<close>, whose identifiers are those below the counters.
\<close>

definition below :: "i32 \<Rightarrow> i32 set" where
  "below n = {i. 0 \<le> sint i \<and> sint i < sint n}"

definition announces :: "session_builder \<Rightarrow> session_context \<Rightarrow> bool" where
  "announces sb s \<longleftrightarrow>
     sorted (map attr_key (sb_attributes sb)) \<and> list_all encodable (sb_attributes sb)
     \<and> attrs_typed new_session (sb_attributes sb) \<and> attrs_accepted new_session (sb_attributes sb) = Inr s
     \<and> 0 \<le> sint (sb_attr_count sb) \<and> 0 \<le> sint (sb_chan_count sb)
     \<and> dom (attr_types s) = below (sb_attr_count sb) \<and> dom (attr_labels s) = below (sb_attr_count sb)
     \<and> dom (chan_labels s) = below (sb_chan_count sb)"

lemma announces_sorted: "announces sb s \<Longrightarrow> sorted (map attr_key (sb_attributes sb))"
  by (simp add: announces_def)

lemma increment_sint:
  assumes "increment n = Inr m"
  shows "sint m = sint n + 1"
proof -
  have "sint n < 2 ^ 31 - 1" "- (2 ^ 31) \<le> sint n" "m = n + 1"
    using assms i32_range[of n] by (auto simp: increment_def split: if_splits)
  then show ?thesis
    by (simp add: sint_word_ariths signed_take_bit_int_eq_self)
qed

lemma below_increment:
  assumes "increment n = Inr m" and "0 \<le> sint n"
  shows "below m = insert n (below n)" and "n \<notin> below n"
proof -
  have "sint i < sint n + 1 \<longleftrightarrow> i = n \<or> sint i < sint n" for i :: i32
    using word_eq_iff_signed[of i n] by auto
  then show "below m = insert n (below n)"
    using assms(2) increment_sint[OF assms(1)] by (auto simp: below_def)
qed (simp add: below_def)

lemma canonical_order [simp]:
  "attrid_less (Signed_Integer attrid_attr_id v) (String_Attr attrid_attr_label l)"
  "\<not> attrid_less (String_Attr attrid_attr_label l) (Signed_Integer attrid_attr_id v)"
  "\<not> attrid_less (Unsigned_Integer attrid_type u) (Signed_Integer attrid_attr_id v)"
  "\<not> attrid_less (Unsigned_Integer attrid_type u) (String_Attr attrid_attr_label l)"
  by (simp_all add: attrid_less_def order_key_def wire_constants)

lemma attr_def_attributes_eq:
  "attr_def_attributes i label ty =
     [Signed_Integer attrid_attr_id (scast i), String_Attr attrid_attr_label label,
      Unsigned_Integer attrid_type (scast ty)]"
  by (simp add: attr_def_attributes_def attr_insert_def)

lemma attr_def_wf:
  "attr_wf s (Compound attrid_attr_def (attr_def_attributes i label ty))"
  by (simp add: attr_def_attributes_eq attr_key_def less_eq_canonical_def order_key_def)
    (simp add: wire_constants)

lemma attr_def_apply:
  "apply_def (Compound attrid_attr_def (attr_def_attributes i label ty)) s = Inr (add_attr i label ty s)"
  by (simp add: apply_def_def attr_def_attributes_eq handle_attr_def_def find_one_def add_attr_def)
    (simp add: wire_constants)

lemma canonical_insert:
  "\<exists>xs ys. as = xs @ ys \<and> attr_insert a as = xs @ a # ys
     \<and> (sorted (map attr_key as) \<longrightarrow> (\<forall>y \<in> set ys. attr_key a < attr_key y))"
proof -
  let ?p = "\<lambda>x. \<not> attrid_less a x"
  have "\<forall>y \<in> set (dropWhile ?p as). attr_key a < attr_key y" if s: "sorted (map attr_key as)"
  proof (cases "dropWhile ?p as")
    case (Cons z zs)
    then have "attr_key a < attr_key z"
      using hd_dropWhile[of ?p as] by (simp add: attrid_less_key)
    moreover have "sorted (map attr_key (z # zs))"
      using s Cons by (metis map_append sorted_append takeWhile_dropWhile_id)
    ultimately show ?thesis
      using Cons by auto
  qed (simp only: list.set ball_empty)
  then show ?thesis
    by (intro exI[of _ "takeWhile ?p as"] exI[of _ "dropWhile ?p as"]) (simp add: attr_insert_def)
qed

lemma key_after_attr_def: "Canonical attrid_attr_def < attr_key y \<Longrightarrow> attrid y \<noteq> attrid_attr_def"
  by (auto simp: attr_key_def)

lemma key_after_chan_def:
  "Canonical attrid_chan_def < attr_key y \<Longrightarrow> attrid y \<noteq> attrid_attr_def \<and> attrid y \<noteq> attrid_chan_def"
  by (auto simp: attr_key_def less_canonical_def order_key_def wire_constants)

lemma define_attribute_announces:
  assumes "announces sb s" and "define_attribute label ty sb = (Inr i, sb')"
  shows "announces sb' (add_attr i label ty s)" and "i = sb_attr_count sb" and "i \<notin> dom (attr_types s)"
proof -
  let ?d = "Compound attrid_attr_def (attr_def_attributes i label ty)"
  from assms(2) obtain n where n: "increment i = Inr n" "i = sb_attr_count sb"
    and sb': "sb' = sb\<lparr>sb_attributes := attr_insert ?d (sb_attributes sb), sb_attr_count := n\<rparr>"
    by (auto simp: define_attribute_def Let_def split: sum.splits)
  obtain xs ys where split: "sb_attributes sb = xs @ ys" "attr_insert ?d (sb_attributes sb) = xs @ ?d # ys"
    and after: "\<forall>y \<in> set ys. attr_key ?d < attr_key y"
    using canonical_insert[of "sb_attributes sb" ?d] assms(1) by (auto simp: announces_def)
  have ys: "attrid y \<noteq> attrid_attr_def" if "y \<in> set ys" for y
    using after that key_after_attr_def by (simp add: attr_key_def)
  from assms(1) split(1) obtain s1 where s1: "attrs_typed new_session xs" "attrs_accepted new_session xs = Inr s1"
    "attrs_typed s1 ys" "attrs_accepted s1 ys = Inr s"
    by (auto simp: announces_def attrs_typed_append attrs_accepted_append split: sum.splits)
  have "attr_types s = attr_types s1"
    using s1(3,4) ys
  proof (induction ys arbitrary: s1)
    case (Cons a as)
    then obtain s' where "apply_def a s1 = Inr s'" "attrs_typed s' as" "attrs_accepted s' as = Inr s"
      by (auto split: sum.splits)
    with Cons apply_def_add_attr(2)[of a s1 s'] show ?case
      by simp
  qed simp
  moreover show fresh: "i \<notin> dom (attr_types s)"
    using assms(1) n(2) below_increment(2)[OF n(1)] by (simp add: announces_def)
  ultimately have "i \<notin> dom (attr_types s1)"
    by simp
  from attrs_typed_add_attr[OF s1(3) ys this] s1(4) have
    "attrs_typed (add_attr i label ty s1) ys" "attrs_accepted (add_attr i label ty s1) ys = Inr (add_attr i label ty s)"
    by simp_all
  then have "attrs_typed new_session (xs @ ?d # ys)" "attrs_accepted new_session (xs @ ?d # ys) = Inr (add_attr i label ty s)"
    using s1(1,2) attr_def_wf[of s1 i label ty] attr_def_apply[of i label ty s1]
    by (simp_all add: attrs_typed_append attrs_accepted_append del: attr_wf.simps)
  moreover have "0 \<le> sint i"
    using assms(1) n(2) by (simp add: announces_def)
  then have "list_all encodable (xs @ ?d # ys)"
    using assms(1) split(1) by (simp add: announces_def attr_def_attributes_eq)
  moreover have "0 \<le> sint n" "below n = insert i (below i)"
    using assms(1) n increment_sint[OF n(1)] below_increment(1)[OF n(1)] by (simp_all add: announces_def)
  ultimately show "announces sb' (add_attr i label ty s)"
    using assms(1) sorted_attr_insert[of "sb_attributes sb" ?d] split(2) n(2)
    by (simp add: announces_def sb' add_attr_def)
  show "i = sb_attr_count sb"
    by (rule n(2))
qed

text \<open>
  What every channel definition needs: additional attributes that can be read in the session as
  it stands and that are not the ones that the builder adds.
\<close>

definition channel_attributes_ok :: "session_context \<Rightarrow> attribute list \<Rightarrow> bool" where
  "channel_attributes_ok s as \<longleftrightarrow> attrs_wf s as \<and> list_all encodable as
     \<and> \<not> attr_contains attrid_chan_id as \<and> \<not> attr_contains attrid_chan_label as"

lemma chan_def_found:
  assumes "channel_attributes_ok s as"
  shows "find_one attrid_chan_id (chan_def_attributes i label as) = Inr (Signed_Integer attrid_chan_id (scast i))"
    and "find_one attrid_chan_label (chan_def_attributes i label as) = Inr (String_Attr attrid_chan_label label)"
proof -
  let ?i = "Signed_Integer attrid_chan_id (scast i)" and ?l = "String_Attr attrid_chan_label label"
  have "find_one attrid_chan_id (attr_insert ?i as) = Inr ?i"
    using find_one_insert_new[of ?i as] assms by (simp add: channel_attributes_ok_def)
  then show "find_one attrid_chan_id (chan_def_attributes i label as) = Inr ?i"
    unfolding chan_def_attributes_def by (subst find_one_insert_other) (simp_all add: wire_constants)
  have "\<not> attr_contains attrid_chan_label (attr_insert ?i as)"
    using assms by (simp add: channel_attributes_ok_def) (simp add: wire_constants)
  then show "find_one attrid_chan_label (chan_def_attributes i label as) = Inr ?l"
    using find_one_insert_new[of ?l "attr_insert ?i as"] by (simp add: chan_def_attributes_def)
qed

lemma chan_def_wf:
  assumes "channel_attributes_ok s as"
  shows "attr_wf s (Compound attrid_chan_def (chan_def_attributes i label as))"
    and "0 \<le> sint i \<Longrightarrow> encodable (Compound attrid_chan_def (chan_def_attributes i label as))"
    and "apply_def (Compound attrid_chan_def (chan_def_attributes i label as)) s = Inr (add_chan i label s)"
proof -
  have "attrs_wf s (chan_def_attributes i label as)"
    using assms unfolding chan_def_attributes_def channel_attributes_ok_def
    by (intro attrs_wf_insert) simp_all
  then show "attr_wf s (Compound attrid_chan_def (chan_def_attributes i label as))"
    by (simp add: attrs_wf_def)
  show "encodable (Compound attrid_chan_def (chan_def_attributes i label as))" if "0 \<le> sint i"
    using assms that by (simp add: chan_def_attributes_def channel_attributes_ok_def list_all_iff)
  have "attrid_chan_def \<noteq> attrid_attr_def"
    by (simp add: wire_constants)
  then show "apply_def (Compound attrid_chan_def (chan_def_attributes i label as)) s = Inr (add_chan i label s)"
    using chan_def_found[OF assms, of i label]
    by (simp add: apply_def_def handle_channel_def_def add_chan_def)
qed

lemma define_channel_announces:
  assumes "announces sb s" and "channel_attributes_ok s as"
    and "define_channel label as sb = (Inr i, sb')"
  shows "announces sb' (add_chan i label s)" and "i = sb_chan_count sb" and "i \<notin> dom (chan_labels s)"
proof -
  let ?d = "Compound attrid_chan_def (chan_def_attributes i label as)"
  from assms(3) obtain n where n: "increment i = Inr n" "i = sb_chan_count sb"
    and sb': "sb' = sb\<lparr>sb_attributes := attr_insert ?d (sb_attributes sb), sb_chan_count := n\<rparr>"
    by (auto simp: define_channel_def Let_def split: sum.splits)
  obtain xs ys where split: "sb_attributes sb = xs @ ys" "attr_insert ?d (sb_attributes sb) = xs @ ?d # ys"
    and after: "\<forall>y \<in> set ys. attr_key ?d < attr_key y"
    using canonical_insert[of "sb_attributes sb" ?d] assms(1) by (auto simp: announces_def)
  have ys: "attrid y \<noteq> attrid_attr_def \<and> attrid y \<noteq> attrid_chan_def" if "y \<in> set ys" for y
    using after that key_after_chan_def by (simp add: attr_key_def)
  from assms(1) split(1) obtain s1 where s1: "attrs_typed new_session xs" "attrs_accepted new_session xs = Inr s1"
    "attrs_typed s1 ys" "attrs_accepted s1 ys = Inr s"
    by (auto simp: announces_def attrs_typed_append attrs_accepted_append split: sum.splits)
  from attrs_typed_no_defs[OF s1(3) ys refl] s1(4) have "s1 = s"
    by simp
  moreover from attrs_typed_no_defs[OF s1(3) ys, of "add_chan i label s1"] have
    "attrs_typed (add_chan i label s1) ys" "attrs_accepted (add_chan i label s1) ys = Inr (add_chan i label s1)"
    by (simp_all add: add_chan_def)
  ultimately have "attrs_typed new_session (xs @ ?d # ys)"
    "attrs_accepted new_session (xs @ ?d # ys) = Inr (add_chan i label s)"
    using s1(1,2) chan_def_wf(1,3)[OF assms(2), of i label]
    by (simp_all add: attrs_typed_append attrs_accepted_append del: attr_wf.simps)
  moreover have "0 \<le> sint i"
    using assms(1) n(2) by (simp add: announces_def)
  then have "list_all encodable (xs @ ?d # ys)"
    using assms(1) split(1) chan_def_wf(2)[OF assms(2), of i label] by (simp add: announces_def del: encodable_simps)
  moreover have "0 \<le> sint n" "below n = insert i (below i)"
    using assms(1) n increment_sint[OF n(1)] below_increment(1)[OF n(1)] by (simp_all add: announces_def)
  ultimately show "announces sb' (add_chan i label s)"
    using assms(1) sorted_attr_insert[of "sb_attributes sb" ?d] split(2) n(2)
    by (simp add: announces_def sb' add_chan_def)
  show "i = sb_chan_count sb"
    by (rule n(2))
  show "i \<notin> dom (chan_labels s)"
    using assms(1) n(2) below_increment(2)[OF n(1)] by (simp add: announces_def)
qed

text \<open>
  The other attributes of a session record have reserved identifiers and define nothing.
\<close>

lemma announces_plain:
  assumes "announces sb s" and "attr_wf s a" and "encodable a"
    and "attrid a \<noteq> attrid_attr_def" and "attrid a \<noteq> attrid_chan_def"
    and "\<And>s'. attr_wf s a \<Longrightarrow> attr_wf s' a"
  shows "announces (sb\<lparr>sb_attributes := attr_insert a (sb_attributes sb)\<rparr>) s"
proof -
  obtain xs ys where split: "sb_attributes sb = xs @ ys" "attr_insert a (sb_attributes sb) = xs @ a # ys"
    using attr_insert_split[of "sb_attributes sb" a] by auto
  have "apply_def a s' = Inr s'" for s'
    using assms(4,5) by (simp add: apply_def_def)
  then have "attrs_typed new_session (xs @ a # ys)" "attrs_accepted new_session (xs @ a # ys) = Inr s"
    using assms(1,2,6) split(1)
    by (auto simp: announces_def attrs_typed_append attrs_accepted_append split: sum.splits)
  then show ?thesis
    using assms(1,3) split sorted_attr_insert[of "sb_attributes sb" a] by (simp add: announces_def)
qed

lemma define_hash_announces: "announces sb s \<Longrightarrow> announces (define_hash h sb) s"
  unfolding define_hash_def
  by (rule announces_plain) (simp_all add: get_attr_type_def reserved_attr_types_def wire_constants)

lemma define_keypair_announces: "announces sb s \<Longrightarrow> announces (define_keypair alg key sb) s"
proof -
  let ?a = "String_Attr attrid_sig_alg alg" and ?b = "Binary attrid_sig_pubkey key"
  assume "announces sb s"
  then have "announces (sb\<lparr>sb_attributes := attr_insert ?a (sb_attributes sb)\<rparr>) s" (is "announces ?sb s")
    by (rule announces_plain) (simp_all add: get_attr_type_def reserved_attr_types_def wire_constants)
  then have "announces (?sb\<lparr>sb_attributes := attr_insert ?b (sb_attributes ?sb)\<rparr>) s"
    by (rule announces_plain) (simp_all add: get_attr_type_def reserved_attr_types_def wire_constants)
  then show ?thesis
    by (simp add: define_keypair_def)
qed

text \<open>
  The clock is after the epoch: a timestamp of zero seconds could not be read back.
\<close>

lemma session_builder_init_announces:
  assumes "session_builder_init protocol srcid time_system (Inr (sec, nsec)) = Inr sb"
    and "0 < sint sec" and "0 \<le> sint nsec" and "sint nsec < 2000000000"
  shows "announces sb new_session"
proof -
  let ?e = "\<lparr>sb_srcid = srcid, sb_attributes = [], sb_attr_count = 0, sb_chan_count = 0\<rparr>"
  let ?p = "case protocol of None \<Rightarrow> ?e
    | Some v \<Rightarrow> ?e\<lparr>sb_attributes := attr_insert (Unsigned_Integer attrid_protocol (ucast v)) (sb_attributes ?e)\<rparr>"
  let ?t = "?p\<lparr>sb_attributes := attr_insert (String_Attr attrid_time_system time_system) (sb_attributes ?p)\<rparr>"
  let ?s = "?t\<lparr>sb_attributes := attr_insert (String_Attr attrid_source srcid) (sb_attributes ?t)\<rparr>"
  note facts = get_attr_type_def reserved_attr_types_def wire_constants
  have "announces ?e new_session"
    by (auto simp: announces_def new_session_def below_def)
  then have "announces ?p new_session"
    by (cases protocol) (simp_all, rule announces_plain[where sb = ?e, simplified], simp_all add: facts)
  then have "announces ?t new_session"
    by (rule announces_plain) (simp_all add: facts)
  then have "announces ?s new_session"
    by (rule announces_plain) (simp_all add: facts)
  then have "announces (?s\<lparr>sb_attributes := attr_insert (Timestamp attrid_ts sec nsec) (sb_attributes ?s)\<rparr>) new_session"
    using assms(2-4) by (rule_tac announces_plain) (auto simp: facts)
  moreover have "sb = ?s\<lparr>sb_attributes := attr_insert (Timestamp attrid_ts sec nsec) (sb_attributes ?s)\<rparr>"
    using assms(1) by (cases protocol) (auto simp: session_builder_init_def source_id_def split: if_splits)
  ultimately show ?thesis
    by simp
qed

text \<open>
  What can be read in a session can be read when more attributes are defined, and the record of
  a session that is announced is read with the effect announced.
\<close>

lemma session_build_read:
  assumes "announces sb s" and "contents_len (sb_attributes sb) < 2 ^ 31"
  shows "\<exists>bs. record_write (session_build sb) = Inr bs
    \<and> (\<forall>rest. record_parse new_session (bs @ rest) = (Inr (session_build sb, rest), s))"
  using assms by (intro record_write_parse) (simp_all add: record_ok_def announces_def session_build_def channel_constants)

lemma add_attr_lookup:
  assumes "0 \<le> sint i"
  shows "get_attr_type (add_attr i label ty s) i = Inr ty" and "get_attr_label (add_attr i label ty s) i = Inr label"
    and "j \<noteq> i \<Longrightarrow> get_attr_type (add_attr i label ty s) j = get_attr_type s j"
    and "get_channel_label (add_attr i label ty s) c = get_channel_label s c"
  using assms by (simp_all add: get_attr_type_def get_attr_label_def get_channel_label_def add_attr_def)

section \<open>Properties\<close>

definition sample_builder :: session_builder where
  "sample_builder = \<lparr>sb_srcid = ''a'',
     sb_attributes = [String_Attr attrid_source ''a'', Timestamp attrid_ts 1 0, String_Attr attrid_time_system ''UTC''],
     sb_attr_count = 0, sb_chan_count = 0\<rparr>"

lemma sample_builder_init: "session_builder_init None ''a'' ''UTC'' (Inr (1, 0)) = Inr sample_builder"
  by code_simp

lemma sample_builder_announces: "announces sample_builder new_session"
  by (rule session_builder_init_announces[OF sample_builder_init]) simp_all

text \<open>
  Whoever reads the session record knows each attribute type that was defined: the identifier
  given out has the label and the type of the definition there, no other identifier changes, and
  the identifier was not in use. This holds however the definitions are interleaved with those of
  channels, which come later in the record.
\<close>

lemma attribute_announced:
  assumes "announces sb s" and "define_attribute label ty sb = (Inr i, sb')"
  shows "\<exists>s'. announces sb' s' \<and> get_attr_type s' i = Inr ty \<and> get_attr_label s' i = Inr label
    \<and> i \<notin> dom (attr_types s) \<and> (\<forall>j. j \<noteq> i \<longrightarrow> get_attr_type s' j = get_attr_type s j)
    \<and> chan_labels s' = chan_labels s"
proof (intro exI conjI)
  note d = define_attribute_announces[OF assms]
  then have "0 \<le> sint i"
    using assms(1) by (simp add: announces_def)
  then show "get_attr_type (add_attr i label ty s) i = Inr ty" "get_attr_label (add_attr i label ty s) i = Inr label"
    "\<forall>j. j \<noteq> i \<longrightarrow> get_attr_type (add_attr i label ty s) j = get_attr_type s j"
    by (simp_all add: add_attr_lookup)
  show "announces sb' (add_attr i label ty s)" "i \<notin> dom (attr_types s)"
    by (rule d)+
qed (simp add: add_attr_def)

lemma attribute_announced_witness:
  "fst (define_attribute ''packet'' type_binary sample_builder) = Inr 0
   \<and> (\<exists>s'. get_attr_type s' 0 = Inr type_binary \<and> get_attr_label s' 0 = Inr ''packet'')"
proof -
  let ?run = "define_attribute ''packet'' type_binary sample_builder"
  have f: "fst ?run = Inr 0"
    by code_simp
  from attribute_announced[OF sample_builder_announces run_result[OF f]] f show ?thesis
    by blast
qed

end
