(* ===== verification/Log_Record.thy ===== *)
theory Log_Record
  imports Session_Builder
begin

text \<open>
  The builder of log records (\<^verbatim>\<open>horace/log_record_builder.cc\<close>). The lemmas show that the attribute
  types it defines are distinct, that each attribute added is found in the record, and that the
  record can be read in the session in which its types were announced.
\<close>

section \<open>State and operations\<close>

text \<open>
  Of the members that hold the attribute added last only the identifier matters: the value is
  assigned before it is inserted, and at most one attribute of each type is added to a record.
\<close>

record log_record_builder =
  lb_channel :: i32
  lb_priority :: i32
  lb_version :: i32
  lb_timestamp :: i32
  lb_hostname :: i32
  lb_appname :: i32
  lb_procid :: i32
  lb_msgid :: i32
  lb_sd :: i32
  lb_message :: i32
  lb_attrs :: "attribute list"

definition log_record_builder_init :: "i32 \<Rightarrow> (session_builder, log_record_builder) act" where
  "log_record_builder_init channel =
     bindS (define_attribute ''syslog_priority'' type_unsigned_integer) (\<lambda>priority.
     bindS (define_attribute ''syslog_version'' type_unsigned_integer) (\<lambda>version.
     bindS (define_attribute ''syslog_timestamp'' type_string) (\<lambda>timestamp.
     bindS (define_attribute ''hostname'' type_string) (\<lambda>hostname.
     bindS (define_attribute ''syslog_appname'' type_string) (\<lambda>appname.
     bindS (define_attribute ''syslog_procid'' type_string) (\<lambda>procid.
     bindS (define_attribute ''syslog_msgid'' type_string) (\<lambda>msgid.
     bindS (define_attribute ''syslog_sd'' type_string) (\<lambda>sd.
     bindS (define_attribute ''message'' type_string) (\<lambda>message.
     returnS \<lparr>lb_channel = channel, lb_priority = priority, lb_version = version,
       lb_timestamp = timestamp, lb_hostname = hostname, lb_appname = appname, lb_procid = procid,
       lb_msgid = msgid, lb_sd = sd, lb_message = message, lb_attrs = []\<rparr>)))))))))"

definition lb_insert :: "attribute \<Rightarrow> log_record_builder \<Rightarrow> log_record_builder" where
  "lb_insert a b = b\<lparr>lb_attrs := attr_insert a (lb_attrs b)\<rparr>"

named_theorems log_adds \<open>the operations that add an attribute to a log record\<close>

definition add_priority :: "u32 \<Rightarrow> log_record_builder \<Rightarrow> log_record_builder" where [log_adds]:
  "add_priority v b = lb_insert (Unsigned_Integer (lb_priority b) (ucast v)) b"

definition add_version :: "u32 \<Rightarrow> log_record_builder \<Rightarrow> log_record_builder" where [log_adds]:
  "add_version v b = lb_insert (Unsigned_Integer (lb_version b) (ucast v)) b"

definition add_timestamp :: "string \<Rightarrow> log_record_builder \<Rightarrow> log_record_builder" where [log_adds]:
  "add_timestamp t b = lb_insert (String_Attr (lb_timestamp b) t) b"

definition add_hostname :: "string \<Rightarrow> log_record_builder \<Rightarrow> log_record_builder" where [log_adds]:
  "add_hostname t b = lb_insert (String_Attr (lb_hostname b) t) b"

definition add_appname :: "string \<Rightarrow> log_record_builder \<Rightarrow> log_record_builder" where [log_adds]:
  "add_appname t b = lb_insert (String_Attr (lb_appname b) t) b"

definition add_procid :: "string \<Rightarrow> log_record_builder \<Rightarrow> log_record_builder" where [log_adds]:
  "add_procid t b = lb_insert (String_Attr (lb_procid b) t) b"

definition add_msgid :: "string \<Rightarrow> log_record_builder \<Rightarrow> log_record_builder" where [log_adds]:
  "add_msgid t b = lb_insert (String_Attr (lb_msgid b) t) b"

definition add_structured_data :: "string \<Rightarrow> log_record_builder \<Rightarrow> log_record_builder" where [log_adds]:
  "add_structured_data t b = lb_insert (String_Attr (lb_sd b) t) b"

definition add_message :: "string \<Rightarrow> log_record_builder \<Rightarrow> log_record_builder" where [log_adds]:
  "add_message t b = lb_insert (String_Attr (lb_message b) t) b"

text \<open>
  \<open>now\<close> is the result of \<^verbatim>\<open>clock_gettime\<close>. The attributes are moved to the record.
\<close>

definition log_build :: "(i64 \<times> i64) result \<Rightarrow> (log_record_builder, hrecord) act" where
  "log_build now b =
     (case now of
        Inl e \<Rightarrow> (Inl e, b)
      | Inr (sec, nsec) \<Rightarrow>
          (Inr \<lparr>rec_channel = lb_channel b,
             rec_attributes = attr_insert (Timestamp attrid_ts sec nsec) (lb_attrs b)\<rparr>,
           b\<lparr>lb_attrs := []\<rparr>))"

section \<open>Identifiers\<close>

definition lb_ids :: "log_record_builder \<Rightarrow> i32 list" where
  "lb_ids b = [lb_priority b, lb_version b, lb_timestamp b, lb_hostname b, lb_appname b,
     lb_procid b, lb_msgid b, lb_sd b, lb_message b]"

definition lb_types :: "i32 list" where
  "lb_types = [type_unsigned_integer, type_unsigned_integer, type_string, type_string, type_string,
     type_string, type_string, type_string, type_string]"

text \<open>
  \<open>lb_known s b\<close>: the identifiers of the builder are distinct attribute types of the session.
\<close>

definition lb_known :: "session_context \<Rightarrow> log_record_builder \<Rightarrow> bool" where
  "lb_known s b \<longleftrightarrow> distinct (lb_ids b) \<and> list_all (\<lambda>i. 0 \<le> sint i) (lb_ids b)
     \<and> list_all2 (\<lambda>i t. get_attr_type s i = Inr t) (lb_ids b) lb_types"

text \<open>
  Attribute types defined one after the other, as the constructors of the builders do.
\<close>

fun define_attributes :: "(string \<times> i32) list \<Rightarrow> (session_builder, i32 list) act" where
  "define_attributes [] = returnS []"
| "define_attributes (d # ds) =
     bindS (define_attribute (fst d) (snd d)) (\<lambda>i. bindS (define_attributes ds) (\<lambda>is. returnS (i # is)))"

lemma define_attributes_announces:
  assumes "announces sb s" and "define_attributes ds sb = (Inr is, sb')"
  shows "\<exists>s'. announces sb' s' \<and> distinct is \<and> list_all (\<lambda>i. 0 \<le> sint i) is
    \<and> list_all2 (\<lambda>i d. get_attr_type s' i = Inr (snd d) \<and> get_attr_label s' i = Inr (fst d)) is ds
    \<and> (\<forall>i \<in> set is. i \<notin> dom (attr_types s)) \<and> extends s s' \<and> chan_labels s' = chan_labels s
    \<and> (\<forall>i \<in> dom (attr_types s). get_attr_label s' i = get_attr_label s i)
    \<and> sb_chan_count sb' = sb_chan_count sb"
  using assms
proof (induction ds arbitrary: sb s "is" sb')
  case (Cons d ds)
  from Cons.prems(2) obtain i sb1 js where d: "define_attribute (fst d) (snd d) sb = (Inr i, sb1)"
    and js: "define_attributes ds sb1 = (Inr js, sb')" and ijs: "is = i # js"
    by (auto simp: act_simps split: prod.splits sum.splits)
  let ?s1 = "add_attr i (fst d) (snd d) s"
  note a = define_attribute_announces[OF Cons.prems(1) d]
  from Cons.IH[OF a(1) js] obtain s' where s': "announces sb' s'" "distinct js" "list_all (\<lambda>i. 0 \<le> sint i) js"
    "list_all2 (\<lambda>i d. get_attr_type s' i = Inr (snd d) \<and> get_attr_label s' i = Inr (fst d)) js ds"
    "\<forall>j \<in> set js. j \<notin> dom (attr_types ?s1)" "extends ?s1 s'" "chan_labels s' = chan_labels ?s1"
    "\<forall>j \<in> dom (attr_types ?s1). get_attr_label s' j = get_attr_label ?s1 j" "sb_chan_count sb' = sb_chan_count sb1"
    by auto
  have i: "0 \<le> sint i"
    using Cons.prems(1) a(2) by (simp add: announces_def)
  have dom: "dom (attr_types ?s1) = insert i (dom (attr_types s))"
    by (auto simp: add_attr_def)
  have t: "get_attr_type s' i = Inr (snd d)" "get_attr_label s' i = Inr (fst d)"
    using get_attr_type_extends[OF add_attr_lookup(1)[OF i] s'(6)] s'(8) dom add_attr_lookup(2)[OF i] by auto
  have old: "get_attr_label ?s1 j = get_attr_label s j" if "j \<in> dom (attr_types s)" for j
    using that a(3) by (auto simp: get_attr_label_def add_attr_def)
  have "extends s s'"
    using extends_add_attr[OF a(3)] s'(6) by (auto simp: extends_def intro: map_le_trans)
  then show ?case
    using s' i t ijs dom a(3) old Cons.prems(1) d
    by (intro exI[of _ s']) (auto simp: add_attr_def define_attribute_def Let_def split: sum.splits)
qed (auto simp: act_simps)

definition log_definitions :: "(string \<times> i32) list" where
  "log_definitions = [(''syslog_priority'', type_unsigned_integer), (''syslog_version'', type_unsigned_integer),
     (''syslog_timestamp'', type_string), (''hostname'', type_string), (''syslog_appname'', type_string),
     (''syslog_procid'', type_string), (''syslog_msgid'', type_string), (''syslog_sd'', type_string),
     (''message'', type_string)]"

lemma log_record_builder_init_ids:
  assumes "log_record_builder_init channel sb = (Inr b, sb')"
  shows "define_attributes log_definitions sb = (Inr (lb_ids b), sb')" and "lb_channel b = channel" and "lb_attrs b = []"
  using assms by (auto simp: log_record_builder_init_def log_definitions_def lb_ids_def bindS_Inr returnS_Inr)

lemma log_record_builder_known:
  assumes "announces sb s" and "log_record_builder_init channel sb = (Inr b, sb')"
  shows "\<exists>s'. announces sb' s' \<and> lb_known s' b \<and> extends s s' \<and> chan_labels s' = chan_labels s"
proof -
  from define_attributes_announces[OF assms(1) log_record_builder_init_ids(1)[OF assms(2)]] obtain s' where
    "announces sb' s'" "distinct (lb_ids b)" "list_all (\<lambda>i. 0 \<le> sint i) (lb_ids b)" "extends s s'"
    "list_all2 (\<lambda>i d. get_attr_type s' i = Inr (snd d) \<and> get_attr_label s' i = Inr (fst d)) (lb_ids b) log_definitions"
    "chan_labels s' = chan_labels s"
    by auto
  then show ?thesis
    by (intro exI[of _ s']) (simp add: lb_known_def log_definitions_def lb_types_def lb_ids_def)
qed

section \<open>The record built\<close>

text \<open>
  The attributes added can be read in the session, and none of them is of the type of the
  timestamp that is added last.
\<close>

definition lb_ok :: "session_context \<Rightarrow> log_record_builder \<Rightarrow> bool" where
  "lb_ok s b \<longleftrightarrow> lb_known s b \<and> attrs_wf s (lb_attrs b) \<and> list_all encodable (lb_attrs b)
     \<and> attrid ` set (lb_attrs b) \<subseteq> set (lb_ids b)"

lemma lb_insert_ok:
  assumes "lb_ok s b" and "attr_wf s a" and "encodable a" and "attrid a \<in> set (lb_ids b)"
  shows "lb_ok s (lb_insert a b)"
proof -
  have "lb_ids (lb_insert a b) = lb_ids b" "lb_attrs (lb_insert a b) = attr_insert a (lb_attrs b)"
    by (simp_all add: lb_insert_def lb_ids_def)
  with assms show ?thesis
    by (simp add: lb_ok_def lb_known_def attrs_wf_insert list_all_iff)
qed

lemma log_adds_ok:
  assumes "lb_ok s b"
  shows "lb_ok s (add_priority p b)" "lb_ok s (add_version p b)" "lb_ok s (add_timestamp t b)"
    "lb_ok s (add_hostname t b)" "lb_ok s (add_appname t b)" "lb_ok s (add_procid t b)"
    "lb_ok s (add_msgid t b)" "lb_ok s (add_structured_data t b)" "lb_ok s (add_message t b)"
  using assms unfolding log_adds
  by (intro lb_insert_ok; simp add: lb_ok_def lb_known_def lb_ids_def lb_types_def)+

lemma log_build_ok:
  assumes "lb_ok s b" and "0 < sint sec" and "0 \<le> sint nsec" and "sint nsec < 2000000000"
    and "- 64 \<le> sint (lb_channel b)" and "log_build (Inr (sec, nsec)) b = (Inr r, b')" and "contents_len (rec_attributes r) < 2 ^ 31"
  shows "record_plain s r" and "lb_ok s b'"
proof -
  let ?a = "Timestamp attrid_ts sec nsec"
  have r: "rec_attributes r = attr_insert ?a (lb_attrs b)" "b' = b\<lparr>lb_attrs := []\<rparr>"
    and ch: "rec_channel r = lb_channel b"
    using assms(6) by (auto simp: log_build_def)
  have wf: "attr_wf s ?a"
    using assms(2-4) by (simp add: get_attr_type_def reserved_attr_types_def wire_constants)
  then have all: "attrs_wf s (rec_attributes r)"
    using assms(1) r by (simp add: lb_ok_def attrs_wf_insert)
  have "0 \<le> sint (attrid a)" if "a \<in> set (lb_attrs b)" for a
    using assms(1) that by (auto simp: lb_ok_def lb_known_def list_all_iff)
  then have "attrid a \<noteq> attrid_attr_def \<and> attrid a \<noteq> attrid_chan_def" if "a \<in> set (lb_attrs b)" for a
    using that[THEN \<open>\<And>a. a \<in> set (lb_attrs b) \<Longrightarrow> 0 \<le> sint (attrid a)\<close>] by (auto simp: wire_constants)
  moreover have "attrid_ts \<noteq> attrid_attr_def" "attrid_ts \<noteq> attrid_chan_def"
    by (simp_all add: wire_constants)
  ultimately have "attrs_typed s (rec_attributes r) \<and> attrs_accepted s (rec_attributes r) = Inr s"
    using all r by (intro defines_nothing) (auto simp: list_all_iff attrs_wf_def)
  moreover have "list_all encodable (rec_attributes r)"
    using assms(1,2) r by (auto simp: lb_ok_def list_all_iff)
  ultimately show "record_plain s r"
    using all assms(5,7) ch by (simp add: record_plain_def record_ok_def attrs_wf_def)
  show "lb_ok s b'"
    using assms(1) r(2) by (simp add: lb_ok_def lb_known_def lb_ids_def attrs_wf_def)
qed

end
