(* ===== verification/Syslog_Parser.thy ===== *)
theory Syslog_Parser
  imports Log_Record
begin

text \<open>
  The parser of syslog messages (\<^verbatim>\<open>endpoints/syslog+udp/syslog_parser.cc\<close>) and the reading of one
  message (\<^verbatim>\<open>syslog_udp_event_reader.cc\<close>). The lemmas give what each operation does to the text that
  is left; the operations that read a field are interpretations of a locale on which \<open>Syslog_Record\<close> rests.
\<close>

section \<open>State and access to the content\<close>

text \<open>
  The content is the buffer that was received, of which the first \<open>sp_length\<close> characters count.
\<close>

record syslog_parser =
  sp_content :: string
  sp_length :: nat
  sp_index :: nat

definition syslog_parser_init :: "string \<Rightarrow> nat \<Rightarrow> syslog_parser" where
  "syslog_parser_init content n =
     (let n1 = (if n \<noteq> 0 \<and> content ! (n - 1) = CHR 0x0A then n - 1 else n);
          n2 = (if n1 \<noteq> 0 \<and> content ! (n1 - 1) = CHR 0x0D then n1 - 1 else n1)
      in \<lparr>sp_content = content, sp_length = n2, sp_index = 0\<rparr>)"

definition cur_char :: "(syslog_parser, char) act" where
  "cur_char p =
     (if sp_index p < length (sp_content p) then (Inr (sp_content p ! sp_index p), p)
      else (Inl (Undefined_Behaviour ''content''), p))"

definition skip_char :: "(syslog_parser, unit) act" where
  "skip_char = modifyS (\<lambda>p. p\<lparr>sp_index := sp_index p + 1\<rparr>)"

definition next_char :: "(syslog_parser, char) act" where
  "next_char = bindS cur_char (\<lambda>c. seqS skip_char (returnS c))"

definition at_end :: "syslog_parser \<Rightarrow> bool" where
  "at_end p \<longleftrightarrow> sp_index p = sp_length p"

text \<open>
  The handler around every operation: after a syslog error the index is restored.
\<close>

definition restoring :: "(syslog_parser, 'a) act \<Rightarrow> (syslog_parser, 'a) act" where
  "restoring m p =
     (case m p of
        (Inl (Syslog_Error e), p') \<Rightarrow> (Inl (Syslog_Error e), p'\<lparr>sp_index := sp_index p\<rparr>)
      | r \<Rightarrow> r)"

text \<open>
  The tests \<^verbatim>\<open>(_index == _length) || (_content[_index++] != c)\<close>, \<^verbatim>\<open>_content[_index++] != c\<close> and
  \<^verbatim>\<open>(_index != _length) && (_content[_index++] != c)\<close>.
\<close>

definition quoted :: "string \<Rightarrow> string" where
  "quoted s = [CHR 0x27] @ s @ [CHR 0x27] @ '' expected''"

definition expect_in :: "char \<Rightarrow> string \<Rightarrow> (syslog_parser, unit) act" where
  "expect_in c msg =
     bindS next_char (\<lambda>d. if d \<noteq> c then throwS (Syslog_Error msg) else returnS ())"

definition expect :: "char \<Rightarrow> string \<Rightarrow> (syslog_parser, unit) act" where
  "expect c msg =
     bindS (getS at_end) (\<lambda>e. if e then throwS (Syslog_Error msg) else expect_in c msg)"

definition expect_space :: "(syslog_parser, unit) act" where
  "expect_space =
     bindS (getS at_end) (\<lambda>e. if e then returnS () else expect_in (CHR '' '') (quoted '' ''))"

section \<open>Numbers\<close>

fun space_loop :: "nat \<Rightarrow> nat \<Rightarrow> (syslog_parser, nat) act" where
  "space_loop 0 lsp = returnS lsp"
| "space_loop (Suc n) lsp =
     bindS cur_char (\<lambda>c. if c = CHR '' '' then seqS skip_char (space_loop n (lsp + 1)) else returnS lsp)"

fun digit_loop :: "nat \<Rightarrow> nat \<Rightarrow> nat \<Rightarrow> nat \<Rightarrow> u32 \<Rightarrow> (syslog_parser, nat \<times> nat \<times> u32) act" where
  "digit_loop 0 lsp cnt lz val = returnS (cnt, lz, val)"
| "digit_loop (Suc n) lsp cnt lz val =
     bindS cur_char (\<lambda>c.
       if is_digit c then
         seqS skip_char
           (digit_loop n lsp (cnt + 1)
             (if digit_val c = 0 \<and> cnt = lsp + lz then lz + 1 else lz) (val * 10 + of_nat (digit_val c)))
       else returnS (cnt, lz, val))"

definition read_decimal :: "nat \<Rightarrow> nat \<Rightarrow> bool \<Rightarrow> bool \<Rightarrow> (syslog_parser, u32) act" where
  "read_decimal min_width max_width allow_lsp allow_lz = restoring (\<lambda>p.
     (let width = (if sp_length p - sp_index p < max_width then sp_length p - sp_index p else max_width) in
      bindS (if allow_lsp then space_loop width 0 else returnS 0) (\<lambda>lsp.
      bindS (digit_loop (width - lsp) lsp lsp 0 0) (\<lambda>(cnt, lz, val).
        if cnt = lsp \<or> cnt < min_width then throwS (Syslog_Error ''digit expected'')
        else if \<not> allow_lz \<and> lz \<noteq> 0 \<and> (val \<noteq> 0 \<or> 1 < lz) then throwS (Syslog_Error ''invalid leading zero'')
        else returnS val))) p)"

definition read_priority :: "(syslog_parser, u32) act" where
  "read_priority = restoring
     (seqS (expect (CHR ''<'') (quoted ''<''))
     (bindS (read_decimal 1 3 False False) (\<lambda>priority.
      if 191 < priority then throwS (Syslog_Error ''invalid priority value'')
      else seqS (expect (CHR ''>'') (quoted ''>'')) (returnS priority))))"

definition read_version :: "(syslog_parser, u32) act" where
  "read_version = restoring
     (bindS (read_decimal 1 3 False False) (\<lambda>version.
      if version = 0 then throwS (Syslog_Error ''invalid version number'')
      else seqS expect_space (returnS version)))"

section \<open>Tokens and timestamps\<close>

text \<open>
  \<^verbatim>\<open>isgraph\<close> in the C locale. The characters skipped are those of the token.
\<close>

definition is_graph :: "char \<Rightarrow> bool" where
  "is_graph c \<longleftrightarrow> 33 \<le> (of_char c :: nat) \<and> (of_char c :: nat) \<le> 126"

fun token_loop :: "nat \<Rightarrow> (syslog_parser, unit) act" where
  "token_loop 0 = returnS ()"
| "token_loop (Suc n) =
     bindS cur_char (\<lambda>c. if is_graph c then seqS skip_char (token_loop n) else returnS ())"

definition content_from :: "nat \<Rightarrow> syslog_parser \<Rightarrow> string" where
  "content_from base p = take (sp_index p - base) (drop base (sp_content p))"

definition read_token :: "(syslog_parser, string) act" where
  "read_token = restoring
     (bindS (getS sp_index) (\<lambda>base.
      seqS (\<lambda>p. token_loop (sp_length p - sp_index p) p)
     (bindS (getS sp_index) (\<lambda>index.
      if index = base then throwS (Syslog_Error ''token expected'')
      else bindS (getS (content_from base)) (\<lambda>token. seqS expect_space (returnS token))))))"

definition month_names :: string where
  "month_names = ''JanFebMarAprMayJunJulAugSepOctNovDec''"

definition month_lengths :: "nat list" where
  "month_lengths = [31, 29, 31, 30, 31, 30, 31, 31, 30, 31, 30, 31]"

definition month_number :: "string \<Rightarrow> nat option" where
  "month_number name =
     (case strstr month_names (takeWhile (\<lambda>c. c \<noteq> CHR 0x00) name) of
        None \<Rightarrow> None
      | Some f \<Rightarrow> if f mod 3 \<noteq> 0 then None else Some (f div 3))"

definition read_month :: "(syslog_parser, nat) act" where
  "read_month =
     bindS next_char (\<lambda>a. bindS next_char (\<lambda>b. bindS next_char (\<lambda>c.
       case month_number [a, b, c] of
         None \<Rightarrow> throwS (Syslog_Error ''month name expected'')
       | Some month \<Rightarrow> returnS month)))"

definition read_rfc3164_timestamp :: "(syslog_parser, string) act" where
  "read_rfc3164_timestamp = restoring
     (bindS (getS sp_index) (\<lambda>base.
      bindS (getS (\<lambda>p. sp_length p < sp_index p + 15)) (\<lambda>short.
      if short then throwS (Syslog_Error ''timestamp expected'')
      else bindS read_month (\<lambda>month.
      seqS (expect_in (CHR '' '') (quoted '' ''))
     (bindS (read_decimal 2 2 True False) (\<lambda>day.
      if day < 1 \<or> of_nat (month_lengths ! month) < day then throwS (Syslog_Error ''invalid day of month'')
      else seqS (expect_in (CHR '' '') (quoted '' ''))
     (bindS (read_decimal 2 2 False True) (\<lambda>hour.
      if 59 < hour then throwS (Syslog_Error ''invalid hour'')
      else seqS (expect_in (CHR '':'') (quoted '':''))
     (bindS (read_decimal 2 2 False True) (\<lambda>minute.
      if 59 < minute then throwS (Syslog_Error ''invalid minute'')
      else seqS (expect_in (CHR '':'') (quoted '':''))
     (bindS (read_decimal 2 2 False True) (\<lambda>second.
      if 59 < second then throwS (Syslog_Error ''invalid second'')
      else bindS (getS (content_from base)) (\<lambda>timestamp.
        seqS expect_space (returnS timestamp))))))))))))))"

section \<open>Structured data and the rest\<close>

text \<open>
  Each round of the loop consumes a character at least, so the number of characters left is
  enough rounds.
\<close>

fun sd_loop :: "nat \<Rightarrow> bool \<Rightarrow> (syslog_parser, bool) act" where
  "sd_loop 0 quote = returnS quote"
| "sd_loop (Suc n) quote =
     bindS (getS at_end) (\<lambda>e.
     if e then returnS quote
     else bindS cur_char (\<lambda>c.
     if c = CHR '']'' then returnS quote
     else seqS skip_char
       (if c = CHR 0x22 then sd_loop n (\<not> quote)
        else if c = CHR 0x5C \<and> quote then
          bindS (getS at_end) (\<lambda>e.
            if e then throwS (Syslog_Error (quoted '']'' @ '' (2)'')) else seqS skip_char (sd_loop n quote))
        else sd_loop n quote)))"

definition read_rfc5424_structured_data :: "(syslog_parser, string) act" where
  "read_rfc5424_structured_data = restoring
     (bindS (getS sp_index) (\<lambda>base.
      bindS (getS at_end) (\<lambda>e.
      bindS (if e then returnS False else bindS cur_char (\<lambda>c. returnS (c = CHR ''-''))) (\<lambda>nil.
      if nil then seqS skip_char (seqS expect_space (returnS ''-''))
      else seqS (expect (CHR ''['') (quoted ''[''))
        (bindS (\<lambda>p. sd_loop (sp_length p - sp_index p) False p) (\<lambda>quote.
         if quote then throwS (Syslog_Error (quoted [CHR 0x22]))
         else seqS (expect (CHR '']'') (quoted '']'' @ '' *3(''))
           (bindS (getS (content_from base)) (\<lambda>data. seqS expect_space (returnS data)))))))))"

definition read_remaining :: "(syslog_parser, string) act" where
  "read_remaining =
     bindS (getS (\<lambda>p. take (sp_length p - sp_index p) (drop (sp_index p) (sp_content p)))) (\<lambda>msg.
     seqS (modifyS (\<lambda>p. p\<lparr>sp_index := sp_length p\<rparr>)) (returnS msg))"

section \<open>Messages\<close>

record message_state =
  ms_parser :: syslog_parser
  ms_builder :: log_record_builder
  ms_restore :: nat

definition on_parser :: "(syslog_parser, 'a) act \<Rightarrow> (message_state, 'a) act" where
  "on_parser m st = (case m (ms_parser st) of (r, p) \<Rightarrow> (r, st\<lparr>ms_parser := p\<rparr>))"

definition build_with :: "(log_record_builder \<Rightarrow> log_record_builder) \<Rightarrow> (message_state, unit) act" where
  "build_with f = modifyS (\<lambda>st. st\<lparr>ms_builder := f (ms_builder st)\<rparr>)"

definition save_index :: "(message_state, unit) act" where
  "save_index = modifyS (\<lambda>st. st\<lparr>ms_restore := sp_index (ms_parser st)\<rparr>)"

definition restore_index :: "(message_state, unit) act" where
  "restore_index = modifyS (\<lambda>st. st\<lparr>ms_parser := (ms_parser st)\<lparr>sp_index := ms_restore st\<rparr>\<rparr>)"

definition catch_syslog :: "(message_state, 'a) act \<Rightarrow> (message_state, 'a) act \<Rightarrow> (message_state, 'a) act" where
  "catch_syslog m h st =
     (case m st of
        (Inl (Syslog_Error e), st') \<Rightarrow> h st'
      | r \<Rightarrow> r)"

definition read_rfc3164_header :: "(message_state, unit) act" where
  "read_rfc3164_header =
     bindS (on_parser read_rfc3164_timestamp) (\<lambda>timestamp.
     seqS (build_with (add_timestamp timestamp))
    (seqS save_index
    (bindS (on_parser read_token) (\<lambda>hostname.
     seqS (build_with (add_hostname hostname)) save_index))))"

definition read_rfc5424_header :: "u32 \<Rightarrow> (message_state, unit) act" where
  "read_rfc5424_header version =
     bindS (on_parser read_token) (\<lambda>timestamp.
     bindS (on_parser read_token) (\<lambda>hostname.
     bindS (on_parser read_token) (\<lambda>appname.
     bindS (on_parser read_token) (\<lambda>procid.
     bindS (on_parser read_token) (\<lambda>msgid.
     seqS (build_with (add_version version))
    (seqS (build_with (add_timestamp timestamp))
    (seqS (build_with (add_hostname hostname))
    (seqS (build_with (add_appname appname))
    (seqS (build_with (add_procid procid))
    (seqS (build_with (add_msgid msgid))
    (seqS save_index
    (bindS (on_parser read_rfc5424_structured_data) (\<lambda>sd.
     seqS (build_with (add_structured_data sd)) save_index)))))))))))))"

definition read_header :: "(message_state, unit) act" where
  "read_header =
     bindS (on_parser read_priority) (\<lambda>priority.
     seqS (build_with (add_priority priority))
    (seqS save_index
    (bindS (catch_syslog (on_parser read_version) (seqS restore_index (returnS 0))) (\<lambda>version.
     if version = 0 then read_rfc3164_header
     else if version = 1 then read_rfc5424_header version
     else returnS ()))))"

definition after_space :: "(syslog_parser, bool) act" where
  "after_space =
     bindS (getS sp_index) (\<lambda>index.
     if index = 0 then returnS False
     else (\<lambda>p. if index - 1 < length (sp_content p) then (Inr (sp_content p ! (index - 1) = CHR '' ''), p)
               else (Inl (Undefined_Behaviour ''content''), p)))"

definition read_message :: "(message_state, unit) act" where
  "read_message =
     seqS save_index
    (seqS (catch_syslog read_header restore_index)
    (bindS (on_parser after_space) (\<lambda>space.
     bindS (on_parser (getS at_end)) (\<lambda>e.
     if space then bindS (on_parser read_remaining) (\<lambda>msg. build_with (add_message msg))
     else if \<not> e then bindS (on_parser read_remaining) (\<lambda>msg. build_with (add_message msg))
     else returnS ()))))"

text \<open>
  One call of \<^verbatim>\<open>syslog_udp_event_reader::read\<close>, for the message that \<^verbatim>\<open>recvmsg\<close> put into the buffer.
\<close>

definition syslog_read :: "(i64 \<times> i64) result \<Rightarrow> string \<Rightarrow> (log_record_builder, hrecord) act" where
  "syslog_read now msg b =
     (case read_message \<lparr>ms_parser = syslog_parser_init msg (length msg), ms_builder = b, ms_restore = 0\<rparr> of
        (Inl e, st) \<Rightarrow> (Inl e, ms_builder st)
      | (Inr _, st) \<Rightarrow> log_build now (ms_builder st))"

section \<open>The text that is left\<close>

text \<open>
  \<open>text_at pre t suf\<close> is a parser that has consumed \<open>pre\<close> and has \<open>t\<close> left; \<open>suf\<close> is the rest of the buffer.
\<close>

definition text_at :: "string \<Rightarrow> string \<Rightarrow> string \<Rightarrow> syslog_parser" where
  "text_at pre t suf = \<lparr>sp_content = pre @ t @ suf, sp_length = length pre + length t, sp_index = length pre\<rparr>"

lemma text_at_sel [simp]:
  "sp_content (text_at pre t suf) = pre @ t @ suf"
  "sp_length (text_at pre t suf) = length pre + length t"
  "sp_index (text_at pre t suf) = length pre"
  by (simp_all add: text_at_def)

lemma text_at_index [simp]:
  "(text_at (pre @ u) t suf)\<lparr>sp_index := length pre\<rparr> = text_at pre (u @ t) suf"
  "(text_at pre t suf)\<lparr>sp_index := length pre\<rparr> = text_at pre t suf"
  by (simp_all add: text_at_def)

lemma at_end_text [simp]: "at_end (text_at pre t suf) \<longleftrightarrow> t = []"
  by (simp add: at_end_def)

lemma cur_char_text [simp]: "cur_char (text_at pre (c # t) suf) = (Inr c, text_at pre (c # t) suf)"
  by (simp add: cur_char_def)

lemma skip_char_text [simp]: "skip_char (text_at pre (c # t) suf) = (Inr (), text_at (pre @ [c]) t suf)"
  by (simp add: skip_char_def text_at_def act_simps)

lemma next_char_text [simp]: "next_char (text_at pre (c # t) suf) = (Inr c, text_at (pre @ [c]) t suf)"
  by (simp add: next_char_def act_simps)

lemma content_from_text: "content_from (length pre) (text_at (pre @ u) t suf) = u"
  by (simp add: content_from_def)

text \<open>
  The message without the end of line that frames it.
\<close>

definition deframe :: "string \<Rightarrow> string" where
  "deframe msg =
     (let a = (if msg \<noteq> [] \<and> last msg = CHR 0x0A then butlast msg else msg)
      in if a \<noteq> [] \<and> last a = CHR 0x0D then butlast a else a)"

lemma syslog_parser_init_text:
  "\<exists>suf. syslog_parser_init msg (length msg) = text_at [] (deframe msg) suf"
proof (cases msg rule: rev_cases)
  case (snoc m c)
  then show ?thesis
    by (cases m rule: rev_cases) (auto simp: syslog_parser_init_def text_at_def nth_append deframe_def butlast_append Let_def)
qed (simp add: syslog_parser_init_def text_at_def deframe_def)

section \<open>What the operations do to the text\<close>

lemma restoring_text:
  assumes "m (text_at pre t suf) = (r, p)"
  shows "restoring m (text_at pre t suf) =
    (case r of Inl (Syslog_Error e) \<Rightarrow> (r, p\<lparr>sp_index := length pre\<rparr>) | _ \<Rightarrow> (r, p))"
  using assms by (simp add: restoring_def split: sum.split exn.split)

lemma space_loop_text:
  "space_loop n k (text_at pre t suf) =
     (let u = takeWhile (\<lambda>c. c = CHR '' '') (take n t)
      in (Inr (k + length u), text_at (pre @ u) (drop (length u) t) suf))" if "n \<le> length t"
  using that
proof (induction n arbitrary: k pre t)
  case (Suc n)
  then obtain c t' where t: "t = c # t'"
    by (cases t) auto
  with Suc.prems have "n \<le> length t'"
    by simp
  then show ?case
    using Suc.IH[of t' "k + 1" "pre @ [c]"] by (cases "c = CHR '' ''") (simp_all add: t act_simps Let_def)
qed (simp add: act_simps)

lemma digit_val_0: "is_digit c \<Longrightarrow> digit_val c = 0 \<longleftrightarrow> c = CHR ''0''"
proof -
  assume "is_digit c"
  moreover have "digit_char 0 = CHR ''0''" "digit_val (CHR ''0'') = 0"
    by code_simp+
  ultimately show ?thesis
    using digit_char_val[of c] by metis
qed

lemma digit_loop_text:
  "digit_loop n k cnt z v (text_at pre t suf) =
     (let u = takeWhile is_digit (take n t)
      in (Inr (cnt + length u,
            if cnt = k + z then z + length (takeWhile (\<lambda>c. c = CHR ''0'') u) else z,
            foldl (\<lambda>v c. v * 10 + of_nat (digit_val c)) v u),
          text_at (pre @ u) (drop (length u) t) suf))"
  if "n \<le> length t" and "k + z \<le> cnt"
  using that
proof (induction n arbitrary: cnt z v pre t)
  case (Suc n)
  then obtain c t' where t: "t = c # t'"
    by (cases t) auto
  with Suc.prems have "n \<le> length t'"
    by simp
  then show ?case
    using Suc.IH[where t = t' and cnt = "cnt + 1" and pre = "pre @ [c]"] Suc.prems(2) digit_val_0[of c]
    by (auto simp: t act_simps Let_def)
qed (simp add: act_simps)

lemma dec_val_word: "foldl (\<lambda>v c. v * 10 + of_nat (digit_val c)) 0 u = (of_nat (dec_val u) :: u32)"
  by (induction u rule: rev_induct) simp_all

definition refused :: "'a result \<times> syslog_parser \<Rightarrow> syslog_parser \<Rightarrow> bool" where
  "refused r p \<longleftrightarrow> (\<exists>e. r = (Inl (Syslog_Error e), p))"

lemma refusedI [intro]: "r = (Inl (Syslog_Error e), p) \<Longrightarrow> refused r p"
  by (auto simp: refused_def)

lemma take_width: "take (if length t < n then length t else n) t = take n t"
  by simp

lemma takeWhile_take_append: "takeWhile P (take n t) @ drop (length (takeWhile P (take n t))) t = t"
proof (induction t arbitrary: n)
  case (Cons c t)
  then show ?case
    by (cases n) simp_all
qed simp

lemma leading_zeros:
  assumes "list_all is_digit u" and "u \<noteq> []"
  shows "dec_nat (dec_val u) = u \<longleftrightarrow>
    \<not> (takeWhile (\<lambda>c. c = CHR ''0'') u \<noteq> [] \<and> (dec_val u \<noteq> 0 \<or> 1 < length (takeWhile (\<lambda>c. c = CHR ''0'') u)))"
    (is "_ \<longleftrightarrow> \<not> ?z")
proof -
  obtain c u' where u: "u = c # u'"
    using assms(2) by (meson neq_Nil_conv)
  then have c: "digit_val c = 0 \<longleftrightarrow> c = CHR ''0''"
    using assms(1) by (simp add: digit_val_0)
  show ?thesis
  proof
    assume d: "dec_nat (dec_val u) = u"
    show "\<not> ?z"
    proof (cases "c = CHR ''0''")
      case True
      then have "dec_val u = 0"
        using dec_nat_leading[of "dec_val u"] d u c by force
      then have "u = dec_nat 0"
        using d by simp
      then have "length u = 1"
        by (simp add: dec_nat.simps)
      then show ?thesis
        using \<open>dec_val u = 0\<close> u True by simp
    qed (simp add: u)
  next
    assume n: "\<not> ?z"
    show "dec_nat (dec_val u) = u"
    proof (cases "c = CHR ''0''")
      case True
      with n u have v: "dec_val u' = 0" "takeWhile (\<lambda>c. c = CHR ''0'') u' = []"
        by (simp_all add: dec_val_Cons c)
      have "u' = []"
      proof (rule ccontr)
        assume "u' \<noteq> []"
        then obtain d v where d: "u' = d # v"
          by (meson neq_Nil_conv)
        then show False
          using v assms(1) digit_val_0[of d] by (simp add: u dec_val_Cons split: if_splits)
      qed
      then show ?thesis
        using assms(1) u by (intro dec_nat_dec_val) simp_all
    qed (use assms u c in \<open>intro dec_nat_dec_val; simp\<close>)
  qed
qed

lemma dec_val_u32:
  assumes "list_all is_digit u" and "length u \<le> 3"
  shows "dec_val u < 1000" and "unat (of_nat (dec_val u) :: u32) = dec_val u" and "(of_nat (dec_val u) :: u32) = 0 \<longleftrightarrow> dec_val u = 0"
proof -
  have "dec_val u < 10 ^ length u"
    by (rule dec_val_bound[OF assms(1)])
  moreover have "(10 :: nat) ^ length u \<le> 10 ^ 3"
    using assms(2) by (rule power_increasing) simp
  ultimately show b: "dec_val u < 1000"
    by simp
  then show u: "unat (of_nat (dec_val u) :: u32) = dec_val u"
    by (simp add: unat_of_nat)
  show "(of_nat (dec_val u) :: u32) = 0 \<longleftrightarrow> dec_val u = 0"
    using u unat_eq_zero[of "of_nat (dec_val u) :: u32"] by simp
qed

text \<open>
  A number of at most three digits without leading zeros.
\<close>

lemma read_number_text:
  defines "m \<equiv> read_decimal 1 3 False False"
  shows "let u = takeWhile is_digit (take 3 t) in
    if u \<noteq> [] \<and> dec_nat (dec_val u) = u
    then m (text_at pre t suf) = (Inr (of_nat (dec_val u)), text_at (pre @ u) (drop (length u) t) suf)
    else refused (m (text_at pre t suf)) (text_at pre t suf)"
proof -
  let ?u = "takeWhile is_digit (take 3 t)" and ?p = "text_at pre t suf"
  define w where "w = (if sp_length ?p - sp_index ?p < 3 then sp_length ?p - sp_index ?p else 3)"
  have digits: "list_all is_digit ?u" "length ?u \<le> 3"
    using length_takeWhile_le[of is_digit "take 3 t"] by (auto simp: list_all_iff dest: set_takeWhileD)
  have loop: "digit_loop w 0 0 0 0 (text_at pre t suf) =
      (Inr (length ?u, length (takeWhile (\<lambda>c. c = CHR ''0'') ?u), of_nat (dec_val ?u)),
       text_at (pre @ ?u) (drop (length ?u) t) suf)"
    by (subst digit_loop_text) (simp_all add: w_def Let_def dec_val_word)
  let ?bad = "takeWhile (\<lambda>c. c = CHR ''0'') ?u \<noteq> [] \<and> (dec_val ?u \<noteq> 0 \<or> 1 < length (takeWhile (\<lambda>c. c = CHR ''0'') ?u))"
  have run: "m (text_at pre t suf) =
      (if ?u = [] then (Inl (Syslog_Error ''digit expected''), text_at pre t suf)
       else if ?bad then (Inl (Syslog_Error ''invalid leading zero''), text_at pre t suf)
       else (Inr (of_nat (dec_val ?u)), text_at (pre @ ?u) (drop (length ?u) t) suf))"
    unfolding m_def read_decimal_def restoring_def Let_def w_def[symmetric]
    by (simp add: act_simps loop dec_val_u32[OF digits] length_greater_0_conv[symmetric] takeWhile_take_append
        del: length_greater_0_conv)
  show ?thesis
    unfolding Let_def run using leading_zeros[OF digits(1)] by (auto simp: refused_def)
qed

text \<open>
  Fields of two characters: digits that may begin with a zero, or with a space instead.
\<close>

definition two_digits :: "char \<Rightarrow> char \<Rightarrow> bool" where
  "two_digits a b \<longleftrightarrow> is_digit a \<and> is_digit b"

definition day_digits :: "char \<Rightarrow> char \<Rightarrow> bool" where
  "day_digits a b \<longleftrightarrow> is_digit b \<and> (a = CHR '' '' \<or> is_digit a \<and> a \<noteq> CHR ''0'')"

definition day_value :: "char \<Rightarrow> char \<Rightarrow> nat" where
  "day_value a b = (if a = CHR '' '' then dec_val [b] else dec_val [a, b])"

lemma not_digit_space: "\<not> is_digit (CHR '' '')"
  by code_simp

lemma read_two_digits:
  "let m = read_decimal 2 2 False True; p = text_at pre (a # b # t) suf in
   if two_digits a b then m p = (Inr (of_nat (dec_val [a, b])), text_at (pre @ [a, b]) t suf)
   else refused (m p) p"
proof -
  let ?u = "takeWhile is_digit [a, b]"
  have loop: "digit_loop 2 0 0 0 0 (text_at pre (a # b # t) suf) =
      (Inr (length ?u, length (takeWhile (\<lambda>c. c = CHR ''0'') ?u), of_nat (dec_val ?u)),
       text_at (pre @ ?u) (drop (length ?u) (a # b # t)) suf)"
    by (subst digit_loop_text) (simp_all add: Let_def dec_val_word eval_nat_numeral)
  show ?thesis
    unfolding read_decimal_def Let_def restoring_def
    by (cases "is_digit a"; cases "is_digit b")
      (auto simp: act_simps loop two_digits_def refused_def not_less intro!: text_at_index(1)[where u = "[]", simplified])
qed

lemma read_day:
  "let m = read_decimal 2 2 True False; p = text_at pre (a # b # t) suf in
   if day_digits a b then m p = (Inr (of_nat (day_value a b)), text_at (pre @ [a, b]) t suf)
   else refused (m p) p"
proof (cases "a = CHR '' ''")
  case True
  let ?v = "takeWhile is_digit [b]"
  have spaces: "space_loop 2 0 (text_at pre (a # b # t) suf) =
      (if b = CHR '' '' then (Inr 2, text_at (pre @ [a, b]) t suf) else (Inr 1, text_at (pre @ [a]) (b # t) suf))"
    by (subst space_loop_text) (simp_all add: Let_def True eval_nat_numeral)
  have "digit_loop (Suc 0) (Suc 0) (Suc 0) 0 0 (text_at (pre @ [a]) (b # t) suf) =
      (Inr (1 + length ?v, length (takeWhile (\<lambda>c. c = CHR ''0'') ?v), of_nat (dec_val ?v)),
       text_at ((pre @ [a]) @ ?v) (drop (length ?v) (b # t)) suf)"
    by (subst digit_loop_text) (simp_all add: Let_def dec_val_word eval_nat_numeral)
  note loop = this[simplified]
  have "(of_nat (dec_val [b]) :: u32) = 0 \<longleftrightarrow> dec_val [b] = 0" if "is_digit b"
    using that by (intro dec_val_u32) simp_all
  then show ?thesis
    unfolding read_decimal_def Let_def restoring_def
    by (cases "is_digit b")
      (auto simp: act_simps spaces[unfolded True] loop[unfolded True] day_digits_def day_value_def refused_def True not_digit_space)
next
  case False
  let ?u = "takeWhile is_digit [a, b]"
  have loop: "digit_loop 2 0 0 0 0 (text_at pre (a # b # t) suf) =
      (Inr (length ?u, length (takeWhile (\<lambda>c. c = CHR ''0'') ?u), of_nat (dec_val ?u)),
       text_at (pre @ ?u) (drop (length ?u) (a # b # t)) suf)"
    by (subst digit_loop_text) (simp_all add: Let_def dec_val_word eval_nat_numeral)
  have spaces: "space_loop 2 0 (text_at pre (a # b # t) suf) = (Inr 0, text_at pre (a # b # t) suf)"
    by (subst space_loop_text) (simp_all add: Let_def False eval_nat_numeral)
  have zero: "(of_nat (dec_val [a, b]) :: u32) = 0 \<longleftrightarrow> dec_val [a, b] = 0" if "is_digit a" "is_digit b"
    using that by (intro dec_val_u32) simp_all
  have nonzero: "dec_val [a, b] = 0 \<longleftrightarrow> a = CHR ''0'' \<and> b = CHR ''0''" if "is_digit a" "is_digit b"
    using that digit_val_0 by (simp add: dec_val_Cons)
  have run: "read_decimal 2 2 True False (text_at pre (a # b # t) suf) =
      (if \<not> (is_digit a \<and> is_digit b) then (Inl (Syslog_Error ''digit expected''), text_at pre (a # b # t) suf)
       else if a = CHR ''0'' then (Inl (Syslog_Error ''invalid leading zero''), text_at pre (a # b # t) suf)
       else (Inr (of_nat (dec_val [a, b])), text_at (pre @ [a, b]) t suf))"
    unfolding read_decimal_def Let_def restoring_def
    by (cases "is_digit a"; cases "is_digit b")
      (simp_all add: act_simps loop spaces zero nonzero del: dec_val_single)
  show ?thesis
    unfolding Let_def run using False by (auto simp: day_digits_def day_value_def refused_def)
qed

text \<open>
  The field of a priority and a version number.
\<close>

lemma expect_text:
  "expect c e (text_at pre t suf) =
     (case t of [] \<Rightarrow> (Inl (Syslog_Error e), text_at pre t suf)
      | d # t' \<Rightarrow> if d = c then (Inr (), text_at (pre @ [c]) t' suf)
                  else (Inl (Syslog_Error e), text_at (pre @ [d]) t' suf))"
  by (cases t) (auto simp: expect_def expect_in_def act_simps)

lemma expect_in_text:
  "expect_in c e (text_at pre (d # t) suf) =
     (if d = c then (Inr (), text_at (pre @ [c]) t suf) else (Inl (Syslog_Error e), text_at (pre @ [d]) t suf))"
  by (auto simp: expect_in_def act_simps)

lemma expect_space_text:
  "expect_space (text_at pre t suf) =
     (case t of [] \<Rightarrow> (Inr (), text_at pre [] suf)
      | d # t' \<Rightarrow> if d = CHR '' '' then (Inr (), text_at (pre @ '' '') t' suf)
                  else (Inl (Syslog_Error (quoted '' '')), text_at (pre @ [d]) t' suf))"
  by (cases t) (auto simp: expect_space_def expect_in_def act_simps)

text \<open>
  What is around a field: \<open>sp\<close> is the space after it, which is missing only at the end.
\<close>

definition spaced :: "string \<Rightarrow> string \<Rightarrow> bool" where
  "spaced sp r \<longleftrightarrow> sp = '' '' \<or> sp = [] \<and> r = []"

text \<open>
  \<open>consumes m pre t suf\<close>: the action moves on in the text, and fails with a syslog error if at all.
\<close>

definition consumes :: "(syslog_parser, 'a) act \<Rightarrow> string \<Rightarrow> string \<Rightarrow> string \<Rightarrow> bool" where
  "consumes m pre t suf \<longleftrightarrow> (\<exists>r u v. m (text_at pre t suf) = (r, text_at (pre @ u) v suf) \<and> t = u @ v
     \<and> (\<forall>e. r = Inl e \<longrightarrow> (\<exists>msg. e = Syslog_Error msg)))"

lemma consumesI:
  "m (text_at pre t suf) = (r, text_at (pre @ u) v suf) \<Longrightarrow> t = u @ v \<Longrightarrow>
     (\<And>e. r = Inl e \<Longrightarrow> \<exists>msg. e = Syslog_Error msg) \<Longrightarrow> consumes m pre t suf"
  by (auto simp: consumes_def)

lemma consumes_result:
  assumes "consumes m pre t suf"
  obtains (refused) msg u v where "m (text_at pre t suf) = (Inl (Syslog_Error msg), text_at (pre @ u) v suf)" "t = u @ v"
  | (ok) x u v where "m (text_at pre t suf) = (Inr x, text_at (pre @ u) v suf)" "t = u @ v"
  using assms unfolding consumes_def by (metis obj_sumE)

lemma consumes_restoring:
  assumes "consumes m pre t suf"
  obtains (refused) "refused (restoring m (text_at pre t suf)) (text_at pre t suf)"
  | (ok) x u v where "m (text_at pre t suf) = (Inr x, text_at (pre @ u) v suf)" "t = u @ v"
      "restoring m (text_at pre t suf) = (Inr x, text_at (pre @ u) v suf)"
  using assms by (cases rule: consumes_result) (auto simp: restoring_def refused_def)

named_theorems consuming \<open>actions that move on in the text\<close>

lemma consumes_return [consuming]: "consumes (returnS x) pre t suf"
  unfolding consumes_def by (intro exI[of _ "Inr x"] exI[of _ "[]"] exI[of _ t]) (simp add: act_simps)

lemma consumes_throw [consuming]: "consumes (throwS (Syslog_Error e)) pre t suf"
  unfolding consumes_def by (intro exI[of _ "Inl (Syslog_Error e)"] exI[of _ "[]"] exI[of _ t]) (simp add: act_simps)

lemma consumes_get [consuming]: "consumes (getS f) pre t suf"
  unfolding consumes_def by (intro exI[of _ "Inr (f (text_at pre t suf))"] exI[of _ "[]"] exI[of _ t]) (simp add: act_simps)

lemma consumes_if [consuming]:
  "(b \<Longrightarrow> consumes m pre t suf) \<Longrightarrow> (\<not> b \<Longrightarrow> consumes n pre t suf) \<Longrightarrow> consumes (if b then m else n) pre t suf"
  by simp

lemma consumes_bind [consuming]:
  assumes "consumes m pre t suf"
    and "\<And>x u v. m (text_at pre t suf) = (Inr x, text_at (pre @ u) v suf) \<Longrightarrow> t = u @ v \<Longrightarrow> consumes (f x) (pre @ u) v suf"
  shows "consumes (bindS m f) pre t suf"
  using assms(1)
proof (cases rule: consumes_result)
  case (refused msg u v)
  then show ?thesis
    unfolding consumes_def by (intro exI[of _ "Inl (Syslog_Error msg)"] exI[of _ u] exI[of _ v]) (simp add: act_simps)
next
  case (ok x u v)
  from assms(2)[OF ok] obtain r u' v' where "f x (text_at (pre @ u) v suf) = (r, text_at ((pre @ u) @ u') v' suf)"
    "v = u' @ v'" "\<forall>e. r = Inl e \<longrightarrow> (\<exists>msg. e = Syslog_Error msg)"
    unfolding consumes_def by blast
  with ok show ?thesis
    unfolding consumes_def by (intro exI[of _ r] exI[of _ "u @ u'"] exI[of _ v']) (simp add: act_simps)
qed

lemma consumes_seq [consuming]:
  assumes "consumes m pre t suf" and "\<And>u v. t = u @ v \<Longrightarrow> consumes n (pre @ u) v suf"
  shows "consumes (seqS m n) pre t suf"
  unfolding seqS_def using assms by (intro consumes_bind) auto

lemma consumes_restored [consuming]: "consumes m pre t suf \<Longrightarrow> consumes (restoring m) pre t suf"
proof -
  assume "consumes m pre t suf"
  then show ?thesis
  proof (cases rule: consumes_restoring)
    case refused
    then show ?thesis
      unfolding refused_def by (elim exE, intro consumesI[where u = "[]" and v = t]) auto
  qed (auto simp: consumes_def)
qed

lemma consumes_expect [consuming]: "consumes (expect c e) pre t suf"
proof (cases t)
  case Nil
  then show ?thesis
    by (intro consumesI[where u = "[]" and v = "[]"]) (auto simp: expect_text)
next
  case (Cons d v)
  then show ?thesis
    by (intro consumesI[where u = "[d]" and v = v and r = "if d = c then Inr () else Inl (Syslog_Error e)"])
      (auto simp: expect_text split: if_splits)
qed

lemma consumes_expect_space [consuming]: "consumes expect_space pre t suf"
proof (cases t)
  case Nil
  then show ?thesis
    by (intro consumesI[where u = "[]" and v = "[]"]) (auto simp: expect_space_text)
next
  case (Cons d v)
  then show ?thesis
    by (intro consumesI[where u = "[d]" and v = v
        and r = "if d = CHR '' '' then Inr () else Inl (Syslog_Error (quoted '' ''))"])
      (auto simp: expect_space_text split: if_splits)
qed

lemma consumes_expect_in [consuming]: "t \<noteq> [] \<Longrightarrow> consumes (expect_in c e) pre t suf"
proof (cases t)
  case (Cons d v)
  then show ?thesis
    by (intro consumesI[where u = "[d]" and v = v and r = "if d = c then Inr () else Inl (Syslog_Error e)"])
      (auto simp: expect_in_text split: if_splits)
qed simp

lemma restoring_Inr: "m p = (Inr x, p') \<Longrightarrow> restoring m p = (Inr x, p')"
  by (simp add: restoring_def)

lemma read_number_cases:
  obtains (refused) "refused (read_decimal 1 3 False False (text_at pre t suf)) (text_at pre t suf)"
  | (number) n r where "t = dec_nat (unat n) @ r" and "unat n < 1000"
      "read_decimal 1 3 False False (text_at pre t suf) = (Inr n, text_at (pre @ dec_nat (unat n)) r suf)"
proof -
  let ?u = "takeWhile is_digit (take 3 t)"
  have digits: "list_all is_digit ?u" "length ?u \<le> 3"
    using length_takeWhile_le[of is_digit "take 3 t"] by (auto simp: list_all_iff dest: set_takeWhileD)
  show thesis
  proof (cases "?u \<noteq> [] \<and> dec_nat (dec_val ?u) = ?u")
    case True
    then have "dec_nat (unat (of_nat (dec_val ?u) :: u32)) = ?u"
      by (simp add: dec_val_u32(2)[OF digits])
    then show thesis
      using True read_number_text[of t pre suf] takeWhile_take_append[of is_digit 3 t] dec_val_u32[OF digits]
      by (intro number[of "of_nat (dec_val ?u)" "drop (length ?u) t"]) (simp_all add: Let_def)
  next
    case False
    then show thesis
      using read_number_text[of t pre suf] by (intro refused) (auto simp: Let_def)
  qed
qed

lemma consumes_number [consuming]: "consumes (read_decimal 1 3 False False) pre t suf"
proof (cases rule: read_number_cases[of pre t suf])
  case refused
  then show ?thesis
    unfolding refused_def by (elim exE, intro consumesI[where u = "[]" and v = t]) auto
qed (auto simp: consumes_def)

lemma read_priority_cases:
  obtains (refused) "refused (read_priority (text_at pre t suf)) (text_at pre t suf)"
  | (priority) n r where "t = ''<'' @ dec_nat (unat n) @ ''>'' @ r" and "n \<le> 191"
      "read_priority (text_at pre t suf) = (Inr n, text_at (pre @ ''<'' @ dec_nat (unat n) @ ''>'') r suf)"
proof -
  let ?body = "seqS (expect (CHR ''<'') (quoted ''<''))
     (bindS (read_decimal 1 3 False False) (\<lambda>priority.
      if 191 < priority then throwS (Syslog_Error ''invalid priority value'')
      else seqS (expect (CHR ''>'') (quoted ''>'')) (returnS priority)))"
  have "consumes ?body pre t suf"
    by (intro consuming)
  then show ?thesis
  proof (cases rule: consumes_restoring)
  case refused
  then show ?thesis
    using that(1) by (simp add: read_priority_def)
next
  case (ok n u v)
  from ok(1) obtain t1 where t: "t = CHR ''<'' # t1" and rest: "bindS (read_decimal 1 3 False False) (\<lambda>priority.
      if 191 < priority then throwS (Syslog_Error ''invalid priority value'')
      else seqS (expect (CHR ''>'') (quoted ''>'')) (returnS priority)) (text_at (pre @ ''<'') t1 suf)
      = (Inr n, text_at (pre @ u) v suf)"
    by (cases t) (auto simp: seqS_Inr expect_text split: if_splits)
  show ?thesis
  proof (cases rule: read_number_cases[of "pre @ ''<''" t1 suf])
    case refused
    with rest show ?thesis
      by (auto simp: bindS_Inr refused_def)
  next
    case (number k r)
    with rest obtain r' where r': "r = CHR ''>'' # r'" "n = k" "\<not> 191 < k"
      "text_at (pre @ u) v suf = text_at (pre @ ''<'' @ dec_nat (unat k) @ ''>'') r' suf"
      by (cases r) (auto simp: bindS_Inr seqS_Inr returnS_Inr expect_text throwS_def split: if_splits)
    show ?thesis
    proof (rule that(2))
      show "t = ''<'' @ dec_nat (unat n) @ ''>'' @ r'" "n \<le> 191"
        using t number(1) r' by simp_all
      show "read_priority (text_at pre t suf) = (Inr n, text_at (pre @ ''<'' @ dec_nat (unat n) @ ''>'') r' suf)"
        using ok(3) r'(2,4) by (simp add: read_priority_def)
    qed
  qed
qed
qed

lemma expect_space_Inr:
  assumes "expect_space (text_at pre t suf) = (Inr (), p)"
  obtains sp r where "t = sp @ r" and "spaced sp r" and "p = text_at (pre @ sp) r suf"
proof (cases t)
  case Nil
  with assms show thesis
    by (intro that[of "[]" "[]"]) (simp_all add: expect_space_text spaced_def)
next
  case (Cons d t')
  with assms show thesis
    by (intro that[of "'' ''" t']) (simp_all add: expect_space_text spaced_def split: if_splits)
qed

lemma read_version_cases:
  obtains (refused) "refused (read_version (text_at pre t suf)) (text_at pre t suf)"
  | (version) n sp r where "t = dec_nat (unat n) @ sp @ r" and "spaced sp r" and "n \<noteq> 0" and "unat n < 1000"
      "read_version (text_at pre t suf) = (Inr n, text_at (pre @ dec_nat (unat n) @ sp) r suf)"
proof -
  let ?body = "bindS (read_decimal 1 3 False False) (\<lambda>version.
      if version = 0 then throwS (Syslog_Error ''invalid version number'')
      else seqS expect_space (returnS version))"
  have "consumes ?body pre t suf"
    by (intro consuming)
  then show ?thesis
  proof (cases rule: consumes_restoring)
    case refused
    then show ?thesis
      using that(1) by (simp add: read_version_def)
  next
    case (ok n u v)
    show ?thesis
    proof (cases rule: read_number_cases[of pre t suf])
      case refused
      with ok(1) show ?thesis
        by (auto simp: bindS_Inr refused_def)
    next
      case (number k r)
      with ok(1) have "n = k" "k \<noteq> 0" and sp: "expect_space (text_at (pre @ dec_nat (unat k)) r suf) = (Inr (), text_at (pre @ u) v suf)"
        by (auto simp: bindS_Inr seqS_Inr returnS_Inr throwS_def split: if_splits)
      from sp obtain sp r' where "r = sp @ r'" "spaced sp r'" "text_at (pre @ u) v suf = text_at (pre @ dec_nat (unat k) @ sp) r' suf"
        by (cases rule: expect_space_Inr) auto
      with \<open>n = k\<close> \<open>k \<noteq> 0\<close> number ok(3) show ?thesis
        by (intro that(2)[of n sp r']) (simp_all add: read_version_def)
    qed
  qed
qed

section \<open>Fields\<close>

text \<open>
  What \<^verbatim>\<open>read_message\<close> needs of an operation that reads a field: it is refused and nothing moves, or the
  field is read with the space after it, which is missing only at the end of the text.
\<close>

locale field_reader =
  fixes read :: "(syslog_parser, string) act"
  assumes reads: "refused (read (text_at pre t suf)) (text_at pre t suf)
    \<or> (\<exists>x sp r. read (text_at pre t suf) = (Inr x, text_at (pre @ x @ sp) r suf)
        \<and> t = x @ sp @ r \<and> spaced sp r \<and> x \<noteq> [] \<and> last x \<noteq> CHR '' '')"

text \<open>
  The common end of these operations.
\<close>

lemma field_end:
  assumes "bindS (getS (content_from (length pre))) (\<lambda>x. seqS expect_space (returnS x)) (text_at (pre @ w) t suf) = (Inr x, p)"
  shows "x = w \<and> (\<exists>sp r. t = sp @ r \<and> spaced sp r \<and> p = text_at (pre @ w @ sp) r suf)"
proof -
  from assms have x: "x = w" and "expect_space (text_at (pre @ w) t suf) = (Inr (), p)"
    by (auto simp: bindS_Inr seqS_Inr returnS_Inr getS_def content_from_text)
  from this(2) show ?thesis
    by (cases rule: expect_space_Inr) (use x in auto)
qed

lemma consumes_field_end [consuming]:
  "consumes (bindS (getS (content_from base)) (\<lambda>x. seqS expect_space (returnS x))) pre t suf"
  by (intro consuming)

lemma token_loop_text:
  "n = length t \<Longrightarrow> token_loop n (text_at pre t suf) = (Inr (), text_at (pre @ takeWhile is_graph t) (dropWhile is_graph t) suf)"
proof (induction t arbitrary: n pre)
  case (Cons c t)
  then show ?case
    by (cases "is_graph c") (simp_all add: act_simps)
qed (simp add: act_simps)

lemma consumes_token_loop [consuming]: "consumes (\<lambda>p. token_loop (sp_length p - sp_index p) p) pre t suf"
  by (rule consumesI[where u = "takeWhile is_graph t" and v = "dropWhile is_graph t" and r = "Inr ()"])
    (simp_all add: token_loop_text)

interpretation token: field_reader read_token
proof
  fix pre t suf
  let ?w = "takeWhile is_graph t" and ?v = "dropWhile is_graph t"
  let ?rest = "\<lambda>base index. if index = base then throwS (Syslog_Error ''token expected'')
      else bindS (getS (content_from base)) (\<lambda>token. seqS expect_space (returnS token))"
  let ?body = "bindS (getS sp_index) (\<lambda>base. seqS (\<lambda>p. token_loop (sp_length p - sp_index p) p)
     (bindS (getS sp_index) (?rest base)))"
  have "consumes ?body pre t suf"
    by (intro consuming)
  then show "refused (read_token (text_at pre t suf)) (text_at pre t suf)
    \<or> (\<exists>x sp r. read_token (text_at pre t suf) = (Inr x, text_at (pre @ x @ sp) r suf)
        \<and> t = x @ sp @ r \<and> spaced sp r \<and> x \<noteq> [] \<and> last x \<noteq> CHR '' '')"
  proof (cases rule: consumes_restoring)
    case (ok x u v)
    from ok(1) have w: "?w \<noteq> []" and e: "bindS (getS (content_from (length pre)))
        (\<lambda>token. seqS expect_space (returnS token)) (text_at (pre @ ?w) ?v suf) = (Inr x, text_at (pre @ u) v suf)"
      by (auto simp: bindS_Inr seqS_Inr getS_def throwS_def token_loop_text split: if_splits)
    have "is_graph (last ?w)"
      using w last_in_set set_takeWhileD by metis
    then have "last ?w \<noteq> CHR '' ''"
      by (auto simp: is_graph_def)
    moreover obtain sp r where "x = ?w" "?v = sp @ r" "spaced sp r" "text_at (pre @ u) v suf = text_at (pre @ x @ sp) r suf"
      using field_end[OF e] by auto
    moreover have "t = ?w @ ?v"
      by simp
    ultimately show ?thesis
      using w ok(3) unfolding read_token_def by (intro disjI2) (metis append_assoc)
  qed (simp add: read_token_def)
qed

lemma sd_loop_text:
  "length t \<le> n \<Longrightarrow> \<exists>r u v. sd_loop n quote (text_at pre t suf) = (r, text_at (pre @ u) v suf) \<and> t = u @ v
     \<and> (\<forall>e. r = Inl e \<longrightarrow> (\<exists>msg. e = Syslog_Error msg)) \<and> (r = Inr False \<longrightarrow> v = [] \<or> hd v = CHR '']'')"
proof (induction n arbitrary: t quote pre)
  case 0
  then show ?case
    by (intro exI[of _ "Inr quote"] exI[of _ "[]"] exI[of _ "[]"]) (simp add: act_simps)
next
  case (Suc n)
  have step: "\<exists>r u v. sd_loop n q (text_at (pre @ w) t' suf) = (r, text_at (pre @ u) v suf) \<and> w @ t' = u @ v
      \<and> (\<forall>e. r = Inl e \<longrightarrow> (\<exists>msg. e = Syslog_Error msg)) \<and> (r = Inr False \<longrightarrow> v = [] \<or> hd v = CHR '']'')"
    if "length t' \<le> n" for q w t'
    using Suc.IH[OF that, of q "pre @ w"] by (metis append_assoc)
  consider (nil) "t = []" | (close) t' where "t = CHR '']'' # t'"
    | (quote) t' where "t = CHR 0x22 # t'"
    | (escape) d t' where "t = CHR 0x5C # d # t'" quote
    | (last) "t = [CHR 0x5C]" quote
    | (other) c t' where "t = c # t'" "c \<noteq> CHR '']''" "c \<noteq> CHR 0x22" "c = CHR 0x5C \<longrightarrow> \<not> quote"
    by (metis neq_Nil_conv)
  then show ?case
  proof cases
    case nil
    then show ?thesis
      by (intro exI[of _ "Inr quote"] exI[of _ "[]"] exI[of _ "[]"]) (simp add: act_simps)
  next
    case close
    then show ?thesis
      by (intro exI[of _ "Inr quote"] exI[of _ "[]"] exI[of _ t]) (simp add: act_simps)
  next
    case quote
    then show ?thesis
      using step[of t' "\<not> quote" "[CHR 0x22]"] Suc.prems by (simp add: act_simps)
  next
    case escape
    then show ?thesis
      using step[of t' quote "[CHR 0x5C, d]"] Suc.prems by (simp add: act_simps)
  next
    case last
    then show ?thesis
      by (intro exI[of _ "Inl (Syslog_Error (quoted '']'' @ '' (2)''))"] exI[of _ "[CHR 0x5C]"] exI[of _ "[]"])
        (simp add: act_simps)
  next
    case other
    then show ?thesis
      using step[of t' quote "[c]"] Suc.prems by (auto simp: act_simps)
  qed
qed

lemma consumes_sd_loop [consuming]: "consumes (\<lambda>p. sd_loop (sp_length p - sp_index p) quote p) pre t suf"
  using sd_loop_text[of t "length t" quote pre suf] by (auto simp: consumes_def)

lemma restoring_cong: "m p = m' p \<Longrightarrow> restoring m p = restoring m' p"
  by (simp add: restoring_def)

lemma bind_get: "bindS (getS f) g p = g (f p) p"
  by (simp add: act_simps)

lemma bind_return: "bindS (returnS x) g p = g x p"
  by (simp add: act_simps)

lemma bind_cur_char: "bindS (bindS cur_char (\<lambda>c. returnS (f c))) g (text_at pre (c # t) suf) = g (f c) (text_at pre (c # t) suf)"
  by (simp add: act_simps)

lemma expect_Inr:
  "expect c e (text_at pre t suf) = (Inr (), p) \<Longrightarrow> \<exists>t'. t = c # t' \<and> p = text_at (pre @ [c]) t' suf"
  by (cases t) (auto simp: expect_text split: if_splits)

interpretation structured_data: field_reader read_rfc5424_structured_data
proof
  fix pre t suf
  let ?p = "text_at pre t suf"
  let ?goal = "\<lambda>m. refused (restoring m ?p) ?p \<or> (\<exists>x sp r. restoring m ?p = (Inr x, text_at (pre @ x @ sp) r suf)
        \<and> t = x @ sp @ r \<and> spaced sp r \<and> x \<noteq> [] \<and> last x \<noteq> CHR '' '')"
  let ?nil = "seqS skip_char (seqS expect_space (returnS ''-''))"
  let ?fin = "bindS (getS (content_from (length pre))) (\<lambda>data. seqS expect_space (returnS data))"
  let ?elements = "seqS (expect (CHR ''['') (quoted ''[''))
        (bindS (\<lambda>p. sd_loop (sp_length p - sp_index p) False p) (\<lambda>quote.
         if quote then throwS (Syslog_Error (quoted [CHR 0x22]))
         else seqS (expect (CHR '']'') (quoted '']'' @ '' *3('')) ?fin))"
  have nil: "?goal ?nil" if "t = CHR ''-'' # t'" for t'
  proof (cases "t' = [] \<or> hd t' = CHR '' ''")
    case True
    then have "restoring ?nil ?p = (Inr ''-'', text_at (pre @ ''-'' @ take 1 t') (drop 1 t') suf)" "spaced (take 1 t') (drop 1 t')"
      using that by (cases t'; simp add: act_simps expect_space_text restoring_def spaced_def)+
    then show ?thesis
      using that by (intro disjI2 exI[of _ "''-''"] exI[of _ "take 1 t'"] exI[of _ "drop 1 t'"]) simp
  next
    case False
    with that show ?thesis
      by (cases t') (auto simp: act_simps expect_space_text restoring_def refused_def)
  qed
  have "consumes ?elements pre t suf"
    by (intro consuming)
  then have elements: "?goal ?elements"
  proof (cases rule: consumes_restoring)
    case (ok x u v)
    from ok(1) obtain t' where t': "t = CHR ''['' # t'" and rest: "bindS (\<lambda>p. sd_loop (sp_length p - sp_index p) False p)
        (\<lambda>quote. if quote then throwS (Syslog_Error (quoted [CHR 0x22]))
         else seqS (expect (CHR '']'') (quoted '']'' @ '' *3('')) ?fin) (text_at (pre @ ''['') t' suf) = (Inr x, text_at (pre @ u) v suf)"
      by (auto simp: seqS_Inr dest!: expect_Inr)
    from sd_loop_text[of t' "length t'" False "pre @ ''[''" suf] obtain q w y where
      loop: "sd_loop (length t') False (text_at (pre @ ''['') t' suf) = (q, text_at ((pre @ ''['') @ w) y suf)" "t' = w @ y"
      by blast
    from rest loop have q: "q = Inr False"
      by (auto simp: bindS_Inr throwS_def split: if_splits)
    from rest loop q obtain y' where y': "y = CHR '']'' # y'"
      and e: "?fin (text_at (pre @ (''['' @ w @ '']'')) y' suf) = (Inr x, text_at (pre @ u) v suf)"
      by (auto simp: bindS_Inr seqS_Inr dest!: expect_Inr)
    from field_end[OF e] obtain sp r where "x = ''['' @ w @ '']''" "y' = sp @ r" "spaced sp r"
      "text_at (pre @ u) v suf = text_at (pre @ (''['' @ w @ '']'') @ sp) r suf"
      by auto
    with ok(3) t' loop(2) y' show ?thesis
      by (intro disjI2 exI[of _ x] exI[of _ sp] exI[of _ r]) simp
  qed simp
  have "read_rfc5424_structured_data ?p = restoring (if t \<noteq> [] \<and> hd t = CHR ''-'' then ?nil else ?elements) ?p"
    unfolding read_rfc5424_structured_data_def
    by (rule restoring_cong, cases t) (auto simp: bind_get bind_return bind_cur_char cong: if_cong)
  then show "refused (read_rfc5424_structured_data ?p) ?p
    \<or> (\<exists>x sp r. read_rfc5424_structured_data ?p = (Inr x, text_at (pre @ x @ sp) r suf)
        \<and> t = x @ sp @ r \<and> spaced sp r \<and> x \<noteq> [] \<and> last x \<noteq> CHR '' '')"
    using elements nil[of "tl t"] by (cases "t \<noteq> [] \<and> hd t = CHR ''-''") (cases t; simp)+
qed

text \<open>
  An operation that takes exactly \<open>k\<close> characters, where there are as many.
\<close>

definition takes :: "nat \<Rightarrow> (syslog_parser, 'a) act \<Rightarrow> bool" where
  "takes k m \<longleftrightarrow> (\<forall>pre t suf. k \<le> length t \<longrightarrow> (\<exists>r u v. m (text_at pre t suf) = (r, text_at (pre @ u) v suf)
     \<and> t = u @ v \<and> (case r of Inl e \<Rightarrow> \<exists>msg. e = Syslog_Error msg | Inr x \<Rightarrow> length u = k)))"

lemma consumes_bind_takes:
  assumes "takes k m" and "k \<le> length t" and "\<And>x. consumes (f x) (pre @ take k t) (drop k t) suf"
  shows "consumes (bindS m f) pre t suf"
proof -
  from assms(1,2) obtain r u v where m: "m (text_at pre t suf) = (r, text_at (pre @ u) v suf)" "t = u @ v"
    and r: "case r of Inl e \<Rightarrow> \<exists>msg. e = Syslog_Error msg | Inr x \<Rightarrow> length u = k"
    unfolding takes_def by blast
  show ?thesis
  proof (rule consumes_bind)
    show "consumes m pre t suf"
      using r by (intro consumesI[where r = r and u = u and v = v]) (auto simp: m(1)[unfolded m(2)] m(2))
  next
    fix x u' v' assume u': "m (text_at pre t suf) = (Inr x, text_at (pre @ u') v' suf)" "t = u' @ v'"
    then have "length u' = k"
      using m r by (auto simp: text_at_def)
    then show "consumes (f x) (pre @ u') v' suf"
      using assms(3)[of x] u'(2) by simp
  qed
qed

lemma consumes_seq_takes:
  "takes k m \<Longrightarrow> k \<le> length t \<Longrightarrow> consumes n (pre @ take k t) (drop k t) suf \<Longrightarrow> consumes (seqS m n) pre t suf"
  unfolding seqS_def by (rule consumes_bind_takes)

lemma takesI:
  assumes "\<And>pre s t suf. length s = k \<Longrightarrow> \<exists>r u v. m (text_at pre (s @ t) suf) = (r, text_at (pre @ u) v suf)
     \<and> s @ t = u @ v \<and> (case r of Inl e \<Rightarrow> \<exists>msg. e = Syslog_Error msg | Inr x \<Rightarrow> length u = k)"
  shows "takes k m"
  unfolding takes_def
proof (intro allI impI)
  fix pre t suf assume "k \<le> length (t :: string)"
  then show "\<exists>r u v. m (text_at pre t suf) = (r, text_at (pre @ u) v suf) \<and> t = u @ v
      \<and> (case r of Inl e \<Rightarrow> \<exists>msg. e = Syslog_Error msg | Inr x \<Rightarrow> length u = k)"
    using assms[of "take k t" pre "drop k t" suf] by simp
qed

lemma takes_cases:
  assumes "(\<exists>x. r = (Inr x, text_at (pre @ s) t suf)) \<or> (\<exists>e u v. r = (Inl (Syslog_Error e), text_at (pre @ u) v suf) \<and> s @ t = u @ v)"
    and "length s = k"
  shows "\<exists>r' u v. r = (r', text_at (pre @ u) v suf) \<and> s @ t = u @ v
     \<and> (case r' of Inl e \<Rightarrow> \<exists>msg. e = Syslog_Error msg | Inr x \<Rightarrow> length u = k)"
  using assms by fastforce

lemma refused_splits: "refused r (text_at pre t suf) \<Longrightarrow> \<exists>e u v. r = (Inl (Syslog_Error e), text_at (pre @ u) v suf) \<and> t = u @ v"
  unfolding refused_def by (metis append_Nil append_Nil2)

lemma read_month_text:
  "read_month (text_at pre (a # b # c # t) suf) =
     (case month_number [a, b, c] of
        None \<Rightarrow> (Inl (Syslog_Error ''month name expected''), text_at (pre @ [a, b, c]) t suf)
      | Some m \<Rightarrow> (Inr m, text_at (pre @ [a, b, c]) t suf))"
  by (simp add: read_month_def act_simps split: option.split)

lemma takes_month: "takes 3 read_month"
proof (rule takesI, rule takes_cases)
  fix pre s t suf assume "length (s :: string) = 3"
  then obtain a b c where s: "s = [a, b, c]"
    by (auto simp: eval_nat_numeral length_Suc_conv)
  show "(\<exists>x. read_month (text_at pre (s @ t) suf) = (Inr x, text_at (pre @ s) t suf))
    \<or> (\<exists>e u v. read_month (text_at pre (s @ t) suf) = (Inl (Syslog_Error e), text_at (pre @ u) v suf) \<and> s @ t = u @ v)"
    unfolding s by (cases "month_number [a, b, c]") (force simp: read_month_text intro: exI[of _ "[a, b, c]"])+
qed

lemma takes_expect_in: "takes 1 (expect_in c e)"
proof (rule takesI, rule takes_cases)
  fix pre s t suf assume "length (s :: string) = 1"
  then obtain d where s: "s = [d]"
    by (auto simp: length_Suc_conv)
  show "(\<exists>x. expect_in c e (text_at pre (s @ t) suf) = (Inr x, text_at (pre @ s) t suf))
    \<or> (\<exists>e' u v. expect_in c e (text_at pre (s @ t) suf) = (Inl (Syslog_Error e'), text_at (pre @ u) v suf) \<and> s @ t = u @ v)"
    unfolding s by (cases "d = c") (force simp: expect_in_text intro: exI[of _ "[d]"])+
qed

lemma takes_two: "takes 2 (read_decimal 2 2 False True)" "takes 2 (read_decimal 2 2 True False)"
proof -
  have "\<exists>a b. s = [a, b]" if "length s = 2" for s :: string
    using that by (auto simp: eval_nat_numeral length_Suc_conv)
  note two = this
  show "takes 2 (read_decimal 2 2 False True)"
  proof (rule takesI, rule takes_cases)
    fix pre s t suf assume "length (s :: string) = 2"
    then obtain a b where s: "s = [a, b]"
      using two by blast
    show "(\<exists>x. read_decimal 2 2 False True (text_at pre (s @ t) suf) = (Inr x, text_at (pre @ s) t suf))
      \<or> (\<exists>e u v. read_decimal 2 2 False True (text_at pre (s @ t) suf) = (Inl (Syslog_Error e), text_at (pre @ u) v suf) \<and> s @ t = u @ v)"
    proof (cases "two_digits a b")
      case True
      then show ?thesis
        using read_two_digits[where a = a and b = b and pre = pre and t = t and suf = suf] by (simp add: s Let_def)
    next
      case False
      then have "refused (read_decimal 2 2 False True (text_at pre (s @ t) suf)) (text_at pre (s @ t) suf)"
        using read_two_digits[where a = a and b = b and pre = pre and t = t and suf = suf] by (simp add: s Let_def)
      then show ?thesis
        by (intro disjI2 refused_splits)
    qed
  qed
  show "takes 2 (read_decimal 2 2 True False)"
  proof (rule takesI, rule takes_cases)
    fix pre s t suf assume "length (s :: string) = 2"
    then obtain a b where s: "s = [a, b]"
      using two by blast
    show "(\<exists>x. read_decimal 2 2 True False (text_at pre (s @ t) suf) = (Inr x, text_at (pre @ s) t suf))
      \<or> (\<exists>e u v. read_decimal 2 2 True False (text_at pre (s @ t) suf) = (Inl (Syslog_Error e), text_at (pre @ u) v suf) \<and> s @ t = u @ v)"
    proof (cases "day_digits a b")
      case True
      then show ?thesis
        using read_day[where a = a and b = b and pre = pre and t = t and suf = suf] by (simp add: s Let_def)
    next
      case False
      then have "refused (read_decimal 2 2 True False (text_at pre (s @ t) suf)) (text_at pre (s @ t) suf)"
        using read_day[where a = a and b = b and pre = pre and t = t and suf = suf] by (simp add: s Let_def)
      then show ?thesis
        by (intro disjI2 refused_splits)
    qed
  qed
qed

text \<open>
  The timestamps that are accepted: fifteen characters, with hours up to 59.
\<close>

definition up_to_59 :: "char \<Rightarrow> char \<Rightarrow> bool" where
  "up_to_59 a b \<longleftrightarrow> two_digits a b \<and> dec_val [a, b] \<le> 59"

fun timestamp_ok :: "string \<Rightarrow> bool" where
  "timestamp_ok [m0, m1, m2, s0, d0, d1, s1, h0, h1, c0, n0, n1, c1, e0, e1] \<longleftrightarrow>
     (case month_number [m0, m1, m2] of
        None \<Rightarrow> False
      | Some m \<Rightarrow> day_digits d0 d1 \<and> 1 \<le> day_value d0 d1 \<and> day_value d0 d1 \<le> month_lengths ! m)
     \<and> s0 = CHR '' '' \<and> s1 = CHR '' '' \<and> c0 = CHR '':'' \<and> c1 = CHR '':''
     \<and> up_to_59 h0 h1 \<and> up_to_59 n0 n1 \<and> up_to_59 e0 e1"
| "timestamp_ok _ \<longleftrightarrow> False"

lemma read_two_Inr:
  "read_decimal 2 2 False True (text_at pre (a # b # t) suf) = (Inr x, p) \<longleftrightarrow>
     two_digits a b \<and> x = of_nat (dec_val [a, b]) \<and> p = text_at (pre @ [a, b]) t suf"
  using read_two_digits[where a = a and b = b and pre = pre and t = t and suf = suf]
  by (cases "two_digits a b") (auto simp: Let_def refused_def)

lemma read_day_Inr:
  "read_decimal 2 2 True False (text_at pre (a # b # t) suf) = (Inr x, p) \<longleftrightarrow>
     day_digits a b \<and> x = of_nat (day_value a b) \<and> p = text_at (pre @ [a, b]) t suf"
  using read_day[where a = a and b = b and pre = pre and t = t and suf = suf]
  by (cases "day_digits a b") (auto simp: Let_def refused_def)

lemma read_month_Inr:
  "read_month (text_at pre (a # b # c # t) suf) = (Inr m, p) \<longleftrightarrow>
     month_number [a, b, c] = Some m \<and> p = text_at (pre @ [a, b, c]) t suf"
  by (auto simp: read_month_text split: option.splits)

lemma expect_in_Inr:
  "expect_in c e (text_at pre (d # t) suf) = (Inr x, p) \<longleftrightarrow> d = c \<and> p = text_at (pre @ [c]) t suf"
  by (auto simp: expect_in_text)

lemma two_digits_u32:
  assumes "two_digits a b"
  shows "(of_nat (dec_val [a, b]) :: u32) \<le> 59 \<longleftrightarrow> dec_val [a, b] \<le> 59"
  using assms dec_val_u32(2)[of "[a, b]"] by (simp add: word_le_nat_alt two_digits_def)

lemma month_number_less: "month_number s = Some m \<Longrightarrow> m < 12"
proof -
  assume m: "month_number s = Some m"
  let ?n = "takeWhile (\<lambda>c. c \<noteq> CHR 0x00) s"
  have "strstr month_names [] = Some 0"
    by code_simp
  moreover have "length month_names = 36"
    by (simp add: month_names_def)
  ultimately show ?thesis
    using m strstr_less[of month_names ?n]
    by (cases "?n = []") (auto simp: month_number_def split: option.splits if_splits)
qed

lemma day_u32:
  assumes "day_digits a b" and "m < 12"
  shows "(of_nat (day_value a b) :: u32) = 0 \<longleftrightarrow> day_value a b = 0"
    and "(of_nat (day_value a b) :: u32) \<le> of_nat (month_lengths ! m) \<longleftrightarrow> day_value a b \<le> month_lengths ! m"
proof -
  have d: "unat (of_nat (day_value a b) :: u32) = day_value a b"
    using assms(1) dec_val_u32(2)[of "[a, b]"] dec_val_u32(2)[of "[b]"] by (auto simp: day_digits_def day_value_def simp del: dec_val_single)
  have "list_all (\<lambda>n. n \<le> 31) month_lengths" "length month_lengths = 12"
    by code_simp+
  then have "month_lengths ! m \<le> 31"
    using assms(2) by (simp add: list_all_length)
  then have "unat (of_nat (month_lengths ! m) :: u32) = month_lengths ! m"
    by (simp add: unat_of_nat)
  with d show "(of_nat (day_value a b) :: u32) \<le> of_nat (month_lengths ! m) \<longleftrightarrow> day_value a b \<le> month_lengths ! m"
    by (simp add: word_le_nat_alt)
  show "(of_nat (day_value a b) :: u32) = 0 \<longleftrightarrow> day_value a b = 0"
    using d unat_eq_zero[of "of_nat (day_value a b) :: u32"] by simp
qed

lemma timestamp_ok_explode:
  "timestamp_ok s \<Longrightarrow> \<exists>m0 m1 m2 s0 d0 d1 s1 h0 h1 c0 n0 n1 c1 e0 e1.
     s = [m0, m1, m2, s0, d0, d1, s1, h0, h1, c0, n0, n1, c1, e0, e1]"
  by (cases s rule: timestamp_ok.cases) auto

definition timestamp_body :: "nat \<Rightarrow> (syslog_parser, string) act" where
  "timestamp_body base = bindS read_month (\<lambda>month.
      seqS (expect_in (CHR '' '') (quoted '' ''))
     (bindS (read_decimal 2 2 True False) (\<lambda>day.
      if day < 1 \<or> of_nat (month_lengths ! month) < day then throwS (Syslog_Error ''invalid day of month'')
      else seqS (expect_in (CHR '' '') (quoted '' ''))
     (bindS (read_decimal 2 2 False True) (\<lambda>hour.
      if 59 < hour then throwS (Syslog_Error ''invalid hour'')
      else seqS (expect_in (CHR '':'') (quoted '':''))
     (bindS (read_decimal 2 2 False True) (\<lambda>minute.
      if 59 < minute then throwS (Syslog_Error ''invalid minute'')
      else seqS (expect_in (CHR '':'') (quoted '':''))
     (bindS (read_decimal 2 2 False True) (\<lambda>second.
      if 59 < second then throwS (Syslog_Error ''invalid second'')
      else bindS (getS (content_from base)) (\<lambda>timestamp.
        seqS expect_space (returnS timestamp)))))))))))"

lemma consumes_timestamp_body:
  assumes "length s = 15"
  shows "consumes (timestamp_body base) pre (s @ t) suf"
  unfolding timestamp_body_def using assms
  by (intro consumes_bind_takes[OF takes_month] consumes_bind_takes[OF takes_two(1)] consumes_bind_takes[OF takes_two(2)]
      consumes_seq_takes[OF takes_expect_in] consumes_if consumes_throw consumes_field_end) simp_all

lemma timestamp_body_Inr:
  assumes "length s = 15"
  shows "timestamp_body base (text_at pre (s @ t) suf) = (Inr x, p) \<longleftrightarrow>
    timestamp_ok s \<and> bindS (getS (content_from base)) (\<lambda>y. seqS expect_space (returnS y)) (text_at (pre @ s) t suf) = (Inr x, p)"
proof -
  from assms obtain m0 m1 m2 s0 d0 d1 s1 h0 h1 c0 n0 n1 c1 e0 e1 where
    s: "s = [m0, m1, m2, s0, d0, d1, s1, h0, h1, c0, n0, n1, c1, e0, e1]"
    by (auto simp: eval_nat_numeral length_Suc_conv)
  have lt: "59 < (of_nat n :: u32) \<longleftrightarrow> \<not> (of_nat n :: u32) \<le> 59" "(of_nat n :: u32) < of_nat k \<longleftrightarrow> \<not> (of_nat k :: u32) \<le> of_nat n" for n k
    by (simp_all add: not_le)
  note step = bindS_Inr[of read_month] bindS_Inr[of "read_decimal 2 2 True False"]
    bindS_Inr[of "read_decimal 2 2 False True"] seqS_Inr[of "expect_in c e" for c e]
  have thr: "throwS e q = (Inr x, p) \<longleftrightarrow> False" for e q
    by (simp add: throwS_def)
  show ?thesis
  proof (cases "month_number [m0, m1, m2]")
    case None
    then show ?thesis
      by (simp add: timestamp_body_def s step(1) read_month_Inr)
  next
    case (Some m)
    note day = day_u32[OF _ month_number_less[OF Some]]
    show ?thesis
      unfolding timestamp_body_def s
      by (auto simp: step read_month_Inr read_day_Inr read_two_Inr expect_in_Inr two_digits_u32 up_to_59_def thr
          day lt if_distribR Suc_le_eq Some split: if_splits)
  qed
qed

lemma read_rfc3164_timestamp_text:
  "read_rfc3164_timestamp (text_at pre t suf) =
     restoring (if length t < 15 then throwS (Syslog_Error ''timestamp expected'') else timestamp_body (length pre)) (text_at pre t suf)"
  unfolding read_rfc3164_timestamp_def
  by (rule restoring_cong) (simp add: bind_get timestamp_body_def cong: if_cong)

lemma timestamp_digits: "up_to_59 a b \<Longrightarrow> b \<noteq> CHR '' ''"
  using not_digit_space by (auto simp: up_to_59_def two_digits_def)

lemma timestamp_last: "timestamp_ok s \<Longrightarrow> s \<noteq> [] \<and> last s \<noteq> CHR '' ''"
  by (frule timestamp_ok_explode, elim exE) (auto dest: timestamp_digits split: option.splits)

lemma timestamp_length: "timestamp_ok s \<Longrightarrow> length s = 15"
  by (drule timestamp_ok_explode) auto

lemma read_timestamp_cases:
  obtains (refused) "refused (read_rfc3164_timestamp (text_at pre t suf)) (text_at pre t suf)"
    "\<And>s sp r. t = s @ sp @ r \<Longrightarrow> spaced sp r \<Longrightarrow> \<not> timestamp_ok s"
  | (timestamp) s sp r where "t = s @ sp @ r" and "timestamp_ok s" and "spaced sp r"
      "read_rfc3164_timestamp (text_at pre t suf) = (Inr s, text_at (pre @ s @ sp) r suf)"
proof (cases "length t < 15")
  case True
  then have "\<not> timestamp_ok s" if "t = s @ sp @ r" for s sp r
    using that timestamp_length[of s] by auto
  then show thesis
    using True by (intro refused) (auto simp: read_rfc3164_timestamp_text restoring_def refused_def throwS_def)
next
  case False
  define s where "s = take 15 t"
  define t' where "t' = drop 15 t"
  have s: "length s = 15" "t = s @ t'"
    using False by (simp_all add: s_def t'_def)
  let ?fin = "bindS (getS (content_from (length pre))) (\<lambda>y. seqS expect_space (returnS y))"
  have eq: "read_rfc3164_timestamp (text_at pre t suf) = restoring (timestamp_body (length pre)) (text_at pre t suf)"
    unfolding read_rfc3164_timestamp_text using False by (simp add: restoring_def)
  have "consumes (timestamp_body (length pre)) pre t suf"
    unfolding s(2) by (rule consumes_timestamp_body[OF s(1)])
  then show thesis
  proof (cases rule: consumes_restoring)
    case refused
    have "\<not> timestamp_ok w" if w: "t = w @ sp @ r" "spaced sp r" for w sp r
    proof
      assume ok: "timestamp_ok w"
      then have "w = s"
        using timestamp_length[OF ok] w(1) s by (metis append_eq_append_conv)
      with w s have "t' = sp @ r"
        by simp
      then have "?fin (text_at (pre @ s) t' suf) = (Inr s, text_at ((pre @ s) @ sp) r suf)"
        using w(2) by (auto simp: bind_get content_from_text spaced_def act_simps expect_space_text)
      with ok \<open>w = s\<close> have "timestamp_body (length pre) (text_at pre t suf) = (Inr s, text_at ((pre @ s) @ sp) r suf)"
        unfolding s(2) timestamp_body_Inr[OF s(1)] by blast
      with refused show False
        by (auto simp: refused_def restoring_def)
    qed
    with refused eq show thesis
      by (intro that(1)) auto
  next
    case (ok x u v)
    from ok(1) have "timestamp_ok s" and e: "?fin (text_at (pre @ s) t' suf) = (Inr x, text_at (pre @ u) v suf)"
      unfolding s(2) timestamp_body_Inr[OF s(1)] by blast+
    from field_end[OF e] ok(3) \<open>timestamp_ok s\<close> s(2) eq show thesis
      by (elim conjE exE) (rule that(2), auto)
  qed
qed

interpretation rfc3164_timestamp: field_reader read_rfc3164_timestamp
proof
  fix pre t suf
  show "refused (read_rfc3164_timestamp (text_at pre t suf)) (text_at pre t suf)
    \<or> (\<exists>x sp r. read_rfc3164_timestamp (text_at pre t suf) = (Inr x, text_at (pre @ x @ sp) r suf)
        \<and> t = x @ sp @ r \<and> spaced sp r \<and> x \<noteq> [] \<and> last x \<noteq> CHR '' '')"
  proof (cases rule: read_timestamp_cases[of pre t suf])
    case (timestamp s sp r)
    then show ?thesis
      using timestamp_last[of s] by blast
  qed simp
qed

end
