(* ===== verification/Syslog_Record.thy ===== *)
theory Syslog_Record
  imports Syslog_Parser
begin

text \<open>
  What a log record holds of a syslog message (\<^verbatim>\<open>syslog_parser::read_message\<close> and
  \<^verbatim>\<open>syslog_udp_event_reader\<close>): the message can be put together again from the attributes of the
  record, but for an unknown version number, and whoever has read the session record can read the
  log record.
\<close>

section \<open>The message in the record\<close>

text \<open>
  The message as it is put together again from the attributes of the record: the priority in angle
  brackets, then the other fields in the order of the header with a space between them.
\<close>

fun attr_chars :: "attribute \<Rightarrow> string" where
  "attr_chars (String_Attr _ s) = s"
| "attr_chars (Unsigned_Integer _ v) = dec_nat (unat v)"
| "attr_chars _ = []"

definition field_of :: "attribute list \<Rightarrow> i32 \<Rightarrow> string option" where
  "field_of as i = (case find_one i as of Inl _ \<Rightarrow> None | Inr a \<Rightarrow> Some (attr_chars a))"

fun join :: "string list \<Rightarrow> string" where
  "join [] = []"
| "join [x] = x"
| "join (x # y # xs) = x @ '' '' @ join (y # xs)"

definition bracketed :: "string option \<Rightarrow> string" where
  "bracketed p = (case p of None \<Rightarrow> [] | Some s \<Rightarrow> ''<'' @ s @ ''>'')"

definition somes :: "'a option list \<Rightarrow> 'a list" where
  "somes xs = concat (map (\<lambda>x. case x of None \<Rightarrow> [] | Some y \<Rightarrow> [y]) xs)"

definition rebuild :: "log_record_builder \<Rightarrow> attribute list \<Rightarrow> string" where
  "rebuild b as = bracketed (field_of as (lb_priority b)) @ join (somes (map (field_of as) (tl (lb_ids b))))"

lemma somes_simps [simp]: "somes [] = []" "somes (None # xs) = somes xs" "somes (Some x # xs) = x # somes xs"
  by (simp_all add: somes_def)

lemma join_snoc: "xs \<noteq> [] \<Longrightarrow> join (xs @ [x]) = join xs @ '' '' @ x"
  by (induction xs rule: join.induct) simp_all

text \<open>
  \<open>fields b xs\<close>: the attributes of the builder are those of \<open>xs\<close>, in the order of the identifiers.
\<close>

definition fields :: "log_record_builder \<Rightarrow> string option list \<Rightarrow> bool" where
  "fields b xs \<longleftrightarrow> distinct (lb_ids b) \<and> xs = map (field_of (lb_attrs b)) (lb_ids b)
     \<and> (\<forall>i \<in> set (lb_ids b). field_of (lb_attrs b) i = None \<longrightarrow> \<not> attr_contains i (lb_attrs b))"

lemma field_of_insert_other: "attrid a \<noteq> i \<Longrightarrow> field_of (attr_insert a as) i = field_of as i"
  using find_one_insert_other[of a i as] unfolding field_of_def by (auto split: sum.split) (metis Inl_Inr_False obj_sumE)+

lemma field_of_insert_new:
  "\<not> attr_contains (attrid a) as \<Longrightarrow> field_of (attr_insert a as) (attrid a) = Some (attr_chars a)"
  by (simp add: field_of_def find_one_insert_new)

lemma lb_insert_same [simp]: "lb_ids (lb_insert a b) = lb_ids b" "lb_attrs (lb_insert a b) = attr_insert a (lb_attrs b)"
  by (simp_all add: lb_insert_def lb_ids_def)

lemma fields_insert:
  assumes "fields b xs" and "k < 9" and "lb_ids b ! k = attrid a" and "xs ! k = None"
  shows "fields (lb_insert a b) (xs[k := Some (attr_chars a)])"
proof -
  have len: "length (lb_ids b) = 9"
    by (simp add: lb_ids_def)
  have mem: "attrid a \<in> set (lb_ids b)"
    using assms(2,3) len nth_mem by metis
  have "field_of (lb_attrs b) (attrid a) = None"
    using assms len by (simp add: fields_def)
  then have free: "\<not> attr_contains (attrid a) (lb_attrs b)"
    using assms(1) mem by (simp add: fields_def)
  have "map (field_of (attr_insert a (lb_attrs b))) (lb_ids b) = xs[k := Some (attr_chars a)]"
  proof (rule nth_equalityI)
    fix j assume j: "j < length (map (field_of (attr_insert a (lb_attrs b))) (lb_ids b))"
    then have "j < 9"
      using len by simp
    moreover have "lb_ids b ! j = attrid a \<longleftrightarrow> j = k"
      using assms(1-3) len \<open>j < 9\<close> by (metis fields_def nth_eq_iff_index_eq)
    ultimately show "map (field_of (attr_insert a (lb_attrs b))) (lb_ids b) ! j = xs[k := Some (attr_chars a)] ! j"
      using field_of_insert_new[OF free] field_of_insert_other[of a "lb_ids b ! j"] assms(1,2) len
      by (cases "j = k") (auto simp: fields_def)
  qed (use assms(1) in \<open>simp add: fields_def\<close>)
  moreover have "\<not> attr_contains i (attr_insert a (lb_attrs b))"
    if "i \<in> set (lb_ids b)" "field_of (attr_insert a (lb_attrs b)) i = None" for i
  proof (cases "i = attrid a")
    case True
    with that(2) field_of_insert_new[OF free] show ?thesis
      by simp
  next
    case False
    then show ?thesis
      using that assms(1) field_of_insert_other[of a i "lb_attrs b"] by (simp add: fields_def)
  qed
  ultimately show ?thesis
    using assms(1) by (simp add: fields_def)
qed

lemma fields_adds:
  assumes "fields b [p, v, t, h, n, i, m, d, g]"
  shows "p = None \<Longrightarrow> fields (add_priority w b) [Some (dec_nat (unat w)), v, t, h, n, i, m, d, g]"
    and "v = None \<Longrightarrow> fields (add_version w b) [p, Some (dec_nat (unat w)), t, h, n, i, m, d, g]"
    and "t = None \<Longrightarrow> fields (add_timestamp x b) [p, v, Some x, h, n, i, m, d, g]"
    and "h = None \<Longrightarrow> fields (add_hostname x b) [p, v, t, Some x, n, i, m, d, g]"
    and "n = None \<Longrightarrow> fields (add_appname x b) [p, v, t, h, Some x, i, m, d, g]"
    and "i = None \<Longrightarrow> fields (add_procid x b) [p, v, t, h, n, Some x, m, d, g]"
    and "m = None \<Longrightarrow> fields (add_msgid x b) [p, v, t, h, n, i, Some x, d, g]"
    and "d = None \<Longrightarrow> fields (add_structured_data x b) [p, v, t, h, n, i, m, Some x, g]"
    and "g = None \<Longrightarrow> fields (add_message x b) [p, v, t, h, n, i, m, d, Some x]"
proof -
  have w: "unat (ucast w :: u64) = unat w"
    using unsigned_less[of w, where ?'a = nat] by (simp add: unsigned_ucast_eq take_bit_nat_eq_self)
  note facts = fields_insert[OF assms, of 0] fields_insert[OF assms, of 1] fields_insert[OF assms, of 2]
    fields_insert[OF assms, of 3] fields_insert[OF assms, of 4] fields_insert[OF assms, of 5]
    fields_insert[OF assms, of 6] fields_insert[OF assms, of 7] fields_insert[OF assms, of 8]
  show "p = None \<Longrightarrow> fields (add_priority w b) [Some (dec_nat (unat w)), v, t, h, n, i, m, d, g]"
    using facts(1)[of "Unsigned_Integer (lb_priority b) (ucast w)"] by (simp add: log_adds lb_ids_def w)
  show "v = None \<Longrightarrow> fields (add_version w b) [p, Some (dec_nat (unat w)), t, h, n, i, m, d, g]"
    using facts(2)[of "Unsigned_Integer (lb_version b) (ucast w)"] by (simp add: log_adds lb_ids_def w)
  show "t = None \<Longrightarrow> fields (add_timestamp x b) [p, v, Some x, h, n, i, m, d, g]"
    using facts(3)[of "String_Attr (lb_timestamp b) x"] by (simp add: log_adds lb_ids_def eval_nat_numeral)
  show "h = None \<Longrightarrow> fields (add_hostname x b) [p, v, t, Some x, n, i, m, d, g]"
    using facts(4)[of "String_Attr (lb_hostname b) x"] by (simp add: log_adds lb_ids_def eval_nat_numeral)
  show "n = None \<Longrightarrow> fields (add_appname x b) [p, v, t, h, Some x, i, m, d, g]"
    using facts(5)[of "String_Attr (lb_appname b) x"] by (simp add: log_adds lb_ids_def eval_nat_numeral)
  show "i = None \<Longrightarrow> fields (add_procid x b) [p, v, t, h, n, Some x, m, d, g]"
    using facts(6)[of "String_Attr (lb_procid b) x"] by (simp add: log_adds lb_ids_def eval_nat_numeral)
  show "m = None \<Longrightarrow> fields (add_msgid x b) [p, v, t, h, n, i, Some x, d, g]"
    using facts(7)[of "String_Attr (lb_msgid b) x"] by (simp add: log_adds lb_ids_def eval_nat_numeral)
  show "d = None \<Longrightarrow> fields (add_structured_data x b) [p, v, t, h, n, i, m, Some x, g]"
    using facts(8)[of "String_Attr (lb_sd b) x"] by (simp add: log_adds lb_ids_def eval_nat_numeral)
  show "g = None \<Longrightarrow> fields (add_message x b) [p, v, t, h, n, i, m, d, Some x]"
    using facts(9)[of "String_Attr (lb_message b) x"] by (simp add: log_adds lb_ids_def eval_nat_numeral)
qed

text \<open>
  \<open>restorable b pre t\<close>: the attributes of \<open>b\<close> are those of the text \<open>pre\<close>, and what is needed to put the
  rest \<open>t\<close> after them is known.
\<close>

definition restorable :: "log_record_builder \<Rightarrow> string \<Rightarrow> string \<Rightarrow> bool" where
  "restorable b pre t \<longleftrightarrow> (\<exists>p fs sp. fields b (p # fs @ [None]) \<and> pre = bracketed p @ join (somes fs) @ sp
     \<and> (sp = '' '' \<and> somes fs \<noteq> [] \<or> sp = [] \<and> (t = [] \<or> somes fs = []))
     \<and> (bracketed p @ join (somes fs) = [] \<or> last (bracketed p @ join (somes fs)) \<noteq> CHR '' ''))"

text \<open>
  What reading the header comes to: the index to restore and the attributes agree, and after
  success they agree with the index too.
\<close>

definition header_done :: "string \<Rightarrow> string \<Rightarrow> unit result \<times> message_state \<Rightarrow> bool" where
  "header_done T suf q \<longleftrightarrow> (\<exists>pre t u v. T = pre @ t \<and> T = u @ v \<and> ms_restore (snd q) = length pre
     \<and> ms_parser (snd q) = text_at u v suf \<and> restorable (ms_builder (snd q)) pre t
     \<and> ((\<exists>e. fst q = Inl (Syslog_Error e)) \<or> fst q = Inr () \<and> u = pre \<and> v = t))"

lemma header_doneI:
  assumes "q = (r, st)" and "ms_parser st = text_at u v suf" and "ms_restore st = length pre"
    and "T = pre @ t" and "T = u @ v" and "restorable (ms_builder st) pre t"
    and "(\<exists>e. r = Inl (Syslog_Error e)) \<or> r = Inr () \<and> u = pre \<and> v = t"
  shows "header_done T suf q"
  unfolding header_done_def using assms by (intro exI[of _ pre] exI[of _ t] exI[of _ u] exI[of _ v]) auto

context field_reader
begin

lemma on_parser_reads:
  assumes "ms_parser st = text_at pre t suf"
  obtains (refused) e where "on_parser read st = (Inl (Syslog_Error e), st)"
  | (field) x sp r where "on_parser read st = (Inr x, st\<lparr>ms_parser := text_at (pre @ x @ sp) r suf\<rparr>)"
      "t = x @ sp @ r" "spaced sp r" "x \<noteq> []" "last x \<noteq> CHR '' ''"
proof -
  from reads[of pre t suf] show thesis
  proof (elim disjE exE conjE)
    assume "refused (read (text_at pre t suf)) (text_at pre t suf)"
    then obtain e where "read (text_at pre t suf) = (Inl (Syslog_Error e), text_at pre t suf)"
      by (auto simp: refused_def)
    then have "on_parser read st = (Inl (Syslog_Error e), st)"
      using assms by (simp add: on_parser_def)
    then show thesis
      by (rule refused)
  next
    fix x sp r assume "read (text_at pre t suf) = (Inr x, text_at (pre @ x @ sp) r suf)" "t = x @ sp @ r" "spaced sp r"
      "x \<noteq> []" "last x \<noteq> CHR '' ''"
    then show thesis
      using assms by (intro field) (simp_all add: on_parser_def)
  qed
qed

end

lemma message_steps:
  "seqS (build_with f) m st = m (st\<lparr>ms_builder := f (ms_builder st)\<rparr>)"
  "seqS save_index m st = m (st\<lparr>ms_restore := sp_index (ms_parser st)\<rparr>)"
  "save_index st = (Inr (), st\<lparr>ms_restore := sp_index (ms_parser st)\<rparr>)"
  by (simp_all add: build_with_def save_index_def act_simps)

lemma bind_Inl: "m st = (Inl e, st') \<Longrightarrow> bindS m f st = (Inl e, st')"
  and bind_Inr: "m st = (Inr x, st') \<Longrightarrow> bindS m f st = f x st'"
  by (simp_all add: act_simps)

lemma bracketed_last:
  "last (bracketed (Some s) @ w) = (if w = [] then CHR ''>'' else last w)" "last (bracketed (Some s)) = CHR ''>''"
  by (simp_all add: bracketed_def)

lemma read_rfc3164_header_done:
  assumes "ms_parser st = text_at pre t suf" and "pre = bracketed (Some s)" and "ms_restore st = length pre"
    and "fields (ms_builder st) [Some s, None, None, None, None, None, None, None, None]"
  shows "header_done (pre @ t) suf (read_rfc3164_header st)"
  using assms(1)
proof (cases rule: rfc3164_timestamp.on_parser_reads)
  case (refused e)
  have run: "read_rfc3164_header st = (Inl (Syslog_Error e), st)"
    unfolding read_rfc3164_header_def by (rule bind_Inl) (rule refused)
  show ?thesis
    by (rule header_doneI[where u = pre and v = t and pre = pre and t = t, OF run])
      (use assms in \<open>auto simp: restorable_def bracketed_last intro!: exI[of _ "Some s"] exI[of _ "replicate 7 None"] simp: eval_nat_numeral\<close>)
next
  case (field x sp r)
  let ?b = "add_timestamp x (ms_builder st)"
  let ?st = "st\<lparr>ms_parser := text_at (pre @ x @ sp) r suf, ms_builder := ?b, ms_restore := length (pre @ x @ sp)\<rparr>"
  have f: "fields ?b [Some s, None, Some x, None, None, None, None, None, None]"
    using fields_adds(3)[OF assms(4)] by simp
  have run: "read_rfc3164_header st = bindS (on_parser read_token) (\<lambda>hostname. seqS (build_with (add_hostname hostname)) save_index) ?st"
    unfolding read_rfc3164_header_def by (subst bind_Inr, rule field(1)) (simp add: message_steps)
  have "ms_parser ?st = text_at (pre @ x @ sp) r suf"
    by simp
  then show ?thesis
  proof (cases rule: token.on_parser_reads)
    case (refused e)
    have run1: "read_rfc3164_header st = (Inl (Syslog_Error e), ?st)"
      unfolding run by (rule bind_Inl) (rule refused)
    show ?thesis
      by (rule header_doneI[where u = "pre @ x @ sp" and v = r and pre = "pre @ x @ sp" and t = r, OF run1])
        (use f field assms(2) in \<open>auto simp: restorable_def bracketed_last spaced_def
           intro!: exI[of _ "Some s"] exI[of _ "[None, Some x, None, None, None, None, None]"]\<close>)
  next
    case host: (field y sp' r')
    then have sp: "sp = '' ''"
      using field(3) by (auto simp: spaced_def)
    have g: "fields (add_hostname y ?b) [Some s, None, Some x, Some y, None, None, None, None, None]"
      using fields_adds(4)[OF f] by simp
    have run1: "read_rfc3164_header st = (Inr (), ?st\<lparr>ms_parser := text_at (pre @ x @ sp @ y @ sp') r' suf,
        ms_builder := add_hostname y ?b, ms_restore := length (pre @ x @ sp @ y @ sp')\<rparr>)"
      unfolding run by (subst bind_Inr, rule host(1)) (simp add: message_steps)
    show ?thesis
      by (rule header_doneI[where u = "pre @ x @ sp @ y @ sp'" and v = r' and pre = "pre @ x @ sp @ y @ sp'" and t = r', OF run1])
        (use g host field assms(2) sp in \<open>auto simp: restorable_def bracketed_last spaced_def
          intro!: exI[of _ "Some s"] exI[of _ "[None, Some x, Some y, None, None, None, None]"]\<close>)
  qed
qed

text \<open>
  Five tokens make up the rest of the header of version 1: all of them are read, or the index to
  restore is still before the version number.
\<close>

fun read_tokens :: "nat \<Rightarrow> (message_state, string list) act" where
  "read_tokens 0 = returnS []"
| "read_tokens (Suc n) = bindS (on_parser read_token) (\<lambda>x. bindS (read_tokens n) (\<lambda>xs. returnS (x # xs)))"

lemma read_tokens_text:
  assumes "ms_parser st = text_at pre t suf"
  obtains (refused) e u v where "read_tokens n st = (Inl (Syslog_Error e), st\<lparr>ms_parser := text_at (pre @ u) v suf\<rparr>)" "t = u @ v"
  | (tokens) xs sp r where "read_tokens n st = (Inr xs, st\<lparr>ms_parser := text_at (pre @ join xs @ sp) r suf\<rparr>)"
      "t = join xs @ sp @ r" "length xs = n" "xs \<noteq> [] \<Longrightarrow> spaced sp r" "xs = [] \<Longrightarrow> sp = []"
      "xs \<noteq> [] \<Longrightarrow> join xs \<noteq> [] \<and> last (join xs) \<noteq> CHR '' ''"
  using assms
proof (induction n arbitrary: st pre t thesis)
  case 0
  then show ?case
    by (intro "0.prems"(2)[of "[]" "[]" t]) (simp_all add: act_simps)
next
  case (Suc n)
  from Suc.prems(3) show ?case
  proof (cases rule: token.on_parser_reads)
    case (refused e)
    then show ?thesis
      using Suc.prems(3) by (intro Suc.prems(1)[of e "[]" t]) (simp_all add: act_simps)
  next
    case (field x sp r)
    let ?st = "st\<lparr>ms_parser := text_at (pre @ x @ sp) r suf\<rparr>"
    have st: "ms_parser ?st = text_at (pre @ x @ sp) r suf"
      by simp
    show ?thesis
    proof (rule Suc.IH[OF _ _ st])
      fix e u v assume "read_tokens n ?st = (Inl (Syslog_Error e), ?st\<lparr>ms_parser := text_at ((pre @ x @ sp) @ u) v suf\<rparr>)" "r = u @ v"
      then show thesis
        using field by (intro Suc.prems(1)[of e "x @ sp @ u" v]) (simp_all add: act_simps)
    next
      fix xs sp' r' assume xs: "read_tokens n ?st = (Inr xs, ?st\<lparr>ms_parser := text_at ((pre @ x @ sp) @ join xs @ sp') r' suf\<rparr>)"
        "r = join xs @ sp' @ r'" "length xs = n" "xs \<noteq> [] \<Longrightarrow> spaced sp' r'" "xs = [] \<Longrightarrow> sp' = []"
        "xs \<noteq> [] \<Longrightarrow> join xs \<noteq> [] \<and> last (join xs) \<noteq> CHR '' ''"
      show thesis
      proof (cases xs)
        case Nil
        then show ?thesis
          using field xs by (intro Suc.prems(2)[of "[x]" sp r]) (simp_all add: act_simps)
      next
        case (Cons y ys)
        then have "sp = '' ''"
          using field(3) xs(2,6) by (auto simp: spaced_def)
        then show ?thesis
          using field xs Cons by (intro Suc.prems(2)[of "x # xs" sp' r']) (simp_all add: act_simps)
      qed
    qed
  qed
qed

lemma read_rfc5424_header_tokens:
  "read_rfc5424_header version = bindS (read_tokens 5) (\<lambda>xs.
     seqS (build_with (add_version version))
    (seqS (build_with (add_timestamp (xs ! 0)))
    (seqS (build_with (add_hostname (xs ! 1)))
    (seqS (build_with (add_appname (xs ! 2)))
    (seqS (build_with (add_procid (xs ! 3)))
    (seqS (build_with (add_msgid (xs ! 4)))
    (seqS save_index
    (bindS (on_parser read_rfc5424_structured_data) (\<lambda>sd.
     seqS (build_with (add_structured_data sd)) save_index)))))))))"
proof -
  have assoc: "bindS (bindS m f) g = bindS m (\<lambda>x. bindS (f x) g)" for m :: "(message_state, 'x) act" and f :: "'x \<Rightarrow> (message_state, 'y) act" and g :: "'y \<Rightarrow> (message_state, 'z) act"
    by (auto simp: act_simps fun_eq_iff split: prod.split sum.split)
  have ret: "bindS (returnS x) f = f x" for x :: 'x and f :: "'x \<Rightarrow> (message_state, 'y) act"
    by (auto simp: act_simps)
  show ?thesis
    by (simp add: read_rfc5424_header_def eval_nat_numeral assoc ret)
qed

lemma read_rfc5424_header_done:
  assumes "ms_parser st = text_at (pre @ ''1'' @ sp) t suf" and "pre = bracketed (Some s)" and "ms_restore st = length pre"
    and "spaced sp t" and "fields (ms_builder st) [Some s, None, None, None, None, None, None, None, None]"
  shows "header_done (pre @ ''1'' @ sp @ t) suf (read_rfc5424_header 1 st)"
  using assms(1)
proof (cases rule: read_tokens_text[where n = 5])
  case (refused e u v)
  have run: "read_rfc5424_header 1 st = (Inl (Syslog_Error e), st\<lparr>ms_parser := text_at ((pre @ ''1'' @ sp) @ u) v suf\<rparr>)"
    unfolding read_rfc5424_header_tokens by (rule bind_Inl) (rule refused(1))
  show ?thesis
    by (rule header_doneI[where u = "(pre @ ''1'' @ sp) @ u" and v = v and pre = pre and t = "''1'' @ sp @ t", OF run])
      (use assms refused(2) in \<open>auto simp: restorable_def bracketed_last intro!: exI[of _ "Some s"] exI[of _ "replicate 7 None"] simp: eval_nat_numeral\<close>)
next
  case (tokens xs sp' r)
  then obtain a b c d e where xs: "xs = [a, b, c, d, e]"
    by (auto simp: eval_nat_numeral length_Suc_conv)
  have sp: "sp = '' ''"
    using assms(4) tokens(2,6) xs by (auto simp: spaced_def)
  let ?P = "pre @ join (''1'' # xs) @ sp'"
  let ?b = "add_msgid e (add_procid d (add_appname c (add_hostname b (add_timestamp a (add_version 1 (ms_builder st))))))"
  let ?st = "st\<lparr>ms_parser := text_at ?P r suf, ms_builder := ?b, ms_restore := length ?P\<rparr>"
  have one: "dec_nat (unat (1 :: u32)) = ''1''"
    by code_simp
  have f: "fields ?b [Some s, Some ''1'', Some a, Some b, Some c, Some d, Some e, None, None]"
    using fields_adds(2)[OF assms(5), of 1] one fields_adds by simp
  have run: "read_rfc5424_header 1 st = bindS (on_parser read_rfc5424_structured_data)
      (\<lambda>sd. seqS (build_with (add_structured_data sd)) save_index) ?st"
    unfolding read_rfc5424_header_tokens by (subst bind_Inr, rule tokens(1)) (simp add: message_steps xs sp)
  have T: "pre @ ''1'' @ sp @ t = ?P @ r"
    by (simp add: tokens(2) xs sp)
  have lastP: "last (join (''1'' # xs)) \<noteq> CHR '' ''" "join (''1'' # xs) \<noteq> []"
    using tokens(6) xs by (auto simp: last_append)
  have spr: "spaced sp' r"
    using tokens(4) xs by simp
  have "ms_parser ?st = text_at ?P r suf"
    by simp
  then show ?thesis
  proof (cases rule: structured_data.on_parser_reads)
    case (refused msg)
    have run1: "read_rfc5424_header 1 st = (Inl (Syslog_Error msg), ?st)"
      unfolding run by (rule bind_Inl) (rule refused)
    have "restorable ?b ?P r"
      unfolding restorable_def using f assms(2) lastP spr
      by (intro exI[of _ "Some s"] exI[of _ "[Some ''1'', Some a, Some b, Some c, Some d, Some e, None]"] exI[of _ sp'])
        (auto simp: xs bracketed_last spaced_def)
    then show ?thesis
      unfolding T by (intro header_doneI[where u = ?P and v = r and pre = ?P and t = r, OF run1]) simp_all
  next
    case (field x sp'' r')
    let ?Q = "pre @ join (''1'' # xs @ [x]) @ sp''"
    have sp': "sp' = '' ''"
      using spr field by (auto simp: spaced_def)
    have g: "fields (add_structured_data x ?b) [Some s, Some ''1'', Some a, Some b, Some c, Some d, Some e, Some x, None]"
      using fields_adds(8)[OF f] by simp
    have run1: "read_rfc5424_header 1 st = (Inr (), ?st\<lparr>ms_parser := text_at ?Q r' suf,
        ms_builder := add_structured_data x ?b, ms_restore := length ?Q\<rparr>)"
      unfolding run by (subst bind_Inr, rule field(1)) (simp add: message_steps xs sp')
    have "restorable (add_structured_data x ?b) ?Q r'"
      unfolding restorable_def using g assms(2) field(3,4,5)
      by (intro exI[of _ "Some s"] exI[of _ "[Some ''1'', Some a, Some b, Some c, Some d, Some e, Some x]"] exI[of _ sp''])
        (auto simp: xs bracketed_last spaced_def)
    moreover have "pre @ ''1'' @ sp @ t = ?Q @ r'"
      by (simp add: tokens(2) field(2) xs sp sp')
    ultimately show ?thesis
      by (intro header_doneI[where u = ?Q and v = r' and pre = ?Q and t = r', OF run1]) simp_all
  qed
qed

text \<open>
  The messages of a version that is not known: the version number is dropped.
\<close>

definition other_version :: "string \<Rightarrow> string \<Rightarrow> bool" where
  "other_version msg text \<longleftrightarrow> (\<exists>n v sp r. msg = ''<'' @ dec_nat n @ ''>'' @ dec_nat v @ sp @ r \<and> spaced sp r
     \<and> n \<le> 191 \<and> 2 \<le> v \<and> v < 1000 \<and> text = ''<'' @ dec_nat n @ ''>'' @ r)"

definition header_dropped :: "string \<Rightarrow> string \<Rightarrow> unit result \<times> message_state \<Rightarrow> bool" where
  "header_dropped T suf q \<longleftrightarrow> (\<exists>n v sp r. T = ''<'' @ dec_nat n @ ''>'' @ dec_nat v @ sp @ r \<and> spaced sp r
     \<and> n \<le> 191 \<and> 2 \<le> v \<and> v < 1000 \<and> fst q = Inr () \<and> ms_parser (snd q) = text_at (''<'' @ dec_nat n @ ''>'' @ dec_nat v @ sp) r suf
     \<and> fields (ms_builder (snd q)) [Some (dec_nat n), None, None, None, None, None, None, None, None])"

lemma read_header_outcome:
  assumes "ms_parser st = text_at [] T suf" and "ms_restore st = 0"
    and "fields (ms_builder st) [None, None, None, None, None, None, None, None, None]"
  shows "header_done T suf (read_header st) \<or> header_dropped T suf (read_header st)"
proof (cases rule: read_priority_cases[of "[]" T suf])
  case refused
  then obtain e where "on_parser read_priority st = (Inl (Syslog_Error e), st)"
    using assms(1) by (auto simp: refused_def on_parser_def)
  then have run: "read_header st = (Inl (Syslog_Error e), st)"
    unfolding read_header_def by (rule bind_Inl)
  have "restorable (ms_builder st) [] T"
    unfolding restorable_def using assms(3)
    by (intro exI[of _ None] exI[of _ "replicate 7 None"] exI[of _ "[]"]) (simp add: eval_nat_numeral bracketed_def)
  then show ?thesis
    using assms by (intro disjI1 header_doneI[where u = "[]" and v = T and pre = "[]" and t = T, OF run]) simp_all
next
  case (priority n r)
  let ?d = "dec_nat (unat n)"
  let ?pre = "bracketed (Some ?d)" and ?b = "add_priority n (ms_builder st)"
  let ?st = "st\<lparr>ms_parser := text_at ?pre r suf, ms_builder := ?b, ms_restore := length ?pre\<rparr>"
  have b: "bracketed (Some ?d) = ''<'' @ ?d @ ''>''"
    by (simp add: bracketed_def)
  have f: "fields ?b [Some ?d, None, None, None, None, None, None, None, None]"
    using fields_adds(1)[OF assms(3)] by simp
  have first: "on_parser read_priority st = (Inr n, st\<lparr>ms_parser := text_at ?pre r suf\<rparr>)"
    using priority(3) assms(1) by (simp add: on_parser_def b)
  let ?rest = "\<lambda>version. if version = 0 then read_rfc3164_header
     else if version = 1 then read_rfc5424_header version else returnS ()"
  have run: "read_header st = bindS (catch_syslog (on_parser read_version) (seqS restore_index (returnS 0))) ?rest ?st"
    unfolding read_header_def by (subst bind_Inr, rule first) (simp add: message_steps)
  have T: "T = ?pre @ r"
    by (simp add: priority(1) b)
  have n: "unat n \<le> 191"
    using priority(2) by (simp add: word_le_nat_alt)
  show ?thesis
  proof (cases rule: read_version_cases[of ?pre r suf])
    case refused
    then obtain e where "on_parser read_version ?st = (Inl (Syslog_Error e), ?st)"
      by (auto simp: refused_def on_parser_def)
    then have "catch_syslog (on_parser read_version) (seqS restore_index (returnS 0)) ?st = (Inr 0, ?st)"
      by (simp add: catch_syslog_def restore_index_def act_simps text_at_def)
    then have "read_header st = read_rfc3164_header ?st"
      unfolding run by (subst bind_Inr, assumption) simp
    then show ?thesis
      unfolding T using f by (intro disjI1) (simp, rule read_rfc3164_header_done[where s = ?d], simp_all)
  next
    case (version v sp r')
    let ?st1 = "?st\<lparr>ms_parser := text_at (?pre @ dec_nat (unat v) @ sp) r' suf\<rparr>"
    have "on_parser read_version ?st = (Inr v, ?st1)"
      using version(5) by (simp add: on_parser_def)
    then have "catch_syslog (on_parser read_version) (seqS restore_index (returnS 0)) ?st = (Inr v, ?st1)"
      by (simp add: catch_syslog_def)
    then have run1: "read_header st = ?rest v ?st1"
      unfolding run by (rule bind_Inr)
    show ?thesis
    proof (cases "v = 1")
      case True
      then have one: "dec_nat (unat v) = ''1''"
        by simp code_simp
      have "header_done (?pre @ ''1'' @ sp @ r') suf (read_rfc5424_header 1 ?st1)"
        by (rule read_rfc5424_header_done[where s = ?d]) (use one f version(2) in simp_all)
      then show ?thesis
        unfolding run1 T version(1) one using True by simp
    next
      case False
      then have "unat v \<noteq> 0" "unat v \<noteq> 1"
        using version(3) unat_eq_zero[of v] word_unat_eq_iff[of v 1] by simp_all
      then have "header_dropped T suf (Inr (), ?st1)"
        unfolding header_dropped_def using version(1,2,4) T n f b
        by (intro exI[of _ "unat n"] exI[of _ "unat v"] exI[of _ sp] exI[of _ r']) simp
      then show ?thesis
        unfolding run1 using False version(3) by (simp add: returnS_def)
    qed
  qed
qed

lemma rebuild_fields:
  "fields b (p # fs) \<Longrightarrow> rebuild b (lb_attrs b) = bracketed p @ join (somes fs)"
  by (simp add: fields_def rebuild_def lb_ids_def)

lemma fields_message:
  assumes "fields b (p # fs @ [None])"
  shows "fields (add_message x b) (p # fs @ [Some x])"
proof -
  have "length (p # fs @ [None]) = length (lb_ids b)"
    using assms by (simp only: fields_def length_map)
  then have "length fs = 7"
    by (simp add: lb_ids_def)
  then obtain v t h n i m d where "fs = [v, t, h, n, i, m, d]"
    by (auto simp: eval_nat_numeral length_Suc_conv)
  with assms fields_adds(9)[of b p v t h n i m d None x] show ?thesis
    by simp
qed

lemma add_message_ids [simp]: "lb_ids (add_message x b) = lb_ids b" "lb_priority (add_message x b) = lb_priority b"
  by (simp_all add: add_message_def lb_insert_def lb_ids_def)

lemma rebuild_same: "lb_ids b = lb_ids b' \<Longrightarrow> rebuild b as = rebuild b' as"
  by (simp add: rebuild_def lb_ids_def)

lemma somes_append [simp]: "somes (xs @ ys) = somes xs @ somes ys"
  by (simp add: somes_def)

text \<open>
  The end of \<^verbatim>\<open>read_message\<close>: what is left becomes the message where it is needed.
\<close>

definition add_rest :: "(message_state, unit) act" where
  "add_rest = bindS (on_parser after_space) (\<lambda>space.
     bindS (on_parser (getS at_end)) (\<lambda>e.
     if space then bindS (on_parser read_remaining) (\<lambda>msg. build_with (add_message msg))
     else if \<not> e then bindS (on_parser read_remaining) (\<lambda>msg. build_with (add_message msg))
     else returnS ()))"

lemma after_space_text: "after_space (text_at pre t suf) = (Inr (pre \<noteq> [] \<and> last pre = CHR '' ''), text_at pre t suf)"
  by (cases pre rule: rev_cases) (auto simp: after_space_def act_simps nth_append)

lemma read_remaining_text: "read_remaining (text_at pre t suf) = (Inr t, text_at (pre @ t) [] suf)"
  by (simp add: read_remaining_def act_simps text_at_def)

lemma add_rest_text:
  assumes "ms_parser st = text_at pre t suf"
  shows "\<exists>p. add_rest st = (Inr (), st\<lparr>ms_parser := p, ms_builder :=
    (if pre \<noteq> [] \<and> last pre = CHR '' '' \<or> t \<noteq> [] then add_message t (ms_builder st) else ms_builder st)\<rparr>)"
  using assms by (auto simp: add_rest_def on_parser_def act_simps after_space_text read_remaining_text build_with_def)

lemma restorable_rebuild:
  assumes "restorable b pre t"
  shows "rebuild b (lb_attrs (if pre \<noteq> [] \<and> last pre = CHR '' '' \<or> t \<noteq> [] then add_message t b else b)) = pre @ t"
proof -
  from assms obtain p fs sp where f: "fields b (p # fs @ [None])" and pre: "pre = bracketed p @ join (somes fs) @ sp"
    and sp: "sp = '' '' \<and> somes fs \<noteq> [] \<or> sp = [] \<and> (t = [] \<or> somes fs = [])"
    and fin: "bracketed p @ join (somes fs) = [] \<or> last (bracketed p @ join (somes fs)) \<noteq> CHR '' ''"
    by (auto simp: restorable_def)
  have none: "rebuild b (lb_attrs b) = bracketed p @ join (somes fs)"
    using rebuild_fields[OF f] by simp
  have some: "rebuild b (lb_attrs (add_message t b)) = bracketed p @ join (somes fs @ [t])"
    using rebuild_fields[OF fields_message[OF f, of t]] rebuild_same[of "add_message t b" b] by simp
  show ?thesis
    using sp
  proof (elim disjE conjE)
    assume "sp = '' ''" "somes fs \<noteq> []"
    then show ?thesis
      using some pre by (simp add: join_snoc)
  next
    assume "sp = []" "t = []"
    then show ?thesis
      using none pre fin by auto
  next
    assume "sp = []" "somes fs = []"
    then show ?thesis
      using some none pre fin by auto
  qed
qed

lemma read_message_add_rest:
  "read_message = seqS save_index (seqS (catch_syslog read_header restore_index) add_rest)"
  by (simp add: read_message_def add_rest_def)

lemma header_done_message:
  assumes "header_done T suf (read_header st)" and "ms_parser st = text_at [] T suf" and "ms_restore st = 0"
  shows "\<exists>st'. read_message st = (Inr (), st') \<and> rebuild (ms_builder st') (lb_attrs (ms_builder st')) = T"
proof -
  obtain q st1 where run: "read_header st = (q, st1)"
    by (cases "read_header st")
  from assms(1) run obtain pre t u v where T: "T = pre @ t" "T = u @ v" and r: "ms_restore st1 = length pre"
    and p: "ms_parser st1 = text_at u v suf" and b: "restorable (ms_builder st1) pre t"
    and q: "(\<exists>e. q = Inl (Syslog_Error e)) \<or> q = Inr () \<and> u = pre \<and> v = t"
    unfolding header_done_def by auto metis+
  have index: "(text_at u v suf)\<lparr>sp_index := length pre\<rparr> = text_at pre t suf"
    using T by (simp add: text_at_def flip: append_assoc) (metis length_append)
  have st: "st\<lparr>ms_restore := sp_index (ms_parser st)\<rparr> = st"
    using assms(2,3) by simp
  from q have "\<exists>st2. catch_syslog read_header restore_index st = (Inr (), st2)
      \<and> ms_parser st2 = text_at pre t suf \<and> ms_builder st2 = ms_builder st1"
    using run p r index by (auto simp: catch_syslog_def restore_index_def act_simps)
  then obtain st2 where st2: "catch_syslog read_header restore_index st = (Inr (), st2)"
    "ms_parser st2 = text_at pre t suf" "ms_builder st2 = ms_builder st1"
    by blast
  obtain p' where "add_rest st2 = (Inr (), st2\<lparr>ms_parser := p', ms_builder :=
      (if pre \<noteq> [] \<and> last pre = CHR '' '' \<or> t \<noteq> [] then add_message t (ms_builder st2) else ms_builder st2)\<rparr>)" (is "_ = (_, ?st3)")
    using add_rest_text[OF st2(2)] by blast
  then have "read_message st = (Inr (), ?st3)"
    unfolding read_message_add_rest message_steps st using st2(1) by (simp add: seqS_def bind_Inr)
  moreover have "rebuild (ms_builder ?st3) (lb_attrs (ms_builder ?st3)) = T"
    using restorable_rebuild[OF b] T(1) st2(3) rebuild_same[of "add_message t (ms_builder st1)" "ms_builder st1"]
    by (cases "pre \<noteq> [] \<and> last pre = CHR '' '' \<or> t \<noteq> []") auto
  ultimately show ?thesis
    by blast
qed

lemma header_dropped_message:
  assumes "header_dropped T suf (read_header st)" and "ms_parser st = text_at [] T suf" and "ms_restore st = 0"
  shows "\<exists>st'. read_message st = (Inr (), st') \<and> other_version T (rebuild (ms_builder st') (lb_attrs (ms_builder st')))"
proof -
  from assms(1) obtain n v sp r st1 where T: "T = ''<'' @ dec_nat n @ ''>'' @ dec_nat v @ sp @ r" "spaced sp r" "n \<le> 191" "2 \<le> v" "v < 1000"
    and run: "read_header st = (Inr (), st1)" and p: "ms_parser st1 = text_at (''<'' @ dec_nat n @ ''>'' @ dec_nat v @ sp) r suf"
    and f: "fields (ms_builder st1) (Some (dec_nat n) # replicate 7 None @ [None])"
    by (cases "read_header st") (auto simp: header_dropped_def eval_nat_numeral)
  have st: "st\<lparr>ms_restore := sp_index (ms_parser st)\<rparr> = st"
    using assms(2,3) by simp
  have digits: "last (dec_nat v) \<noteq> CHR '' ''"
    using dec_nat_digits[of v] not_digit_space last_in_set[OF dec_nat_not_Nil[of v]] by (metis list_all_iff)
  let ?pre = "''<'' @ dec_nat n @ ''>'' @ dec_nat v @ sp"
  let ?c = "?pre \<noteq> [] \<and> last ?pre = CHR '' '' \<or> r \<noteq> []"
  obtain p' where add: "add_rest st1 = (Inr (), st1\<lparr>ms_parser := p', ms_builder := (if ?c then add_message r (ms_builder st1) else ms_builder st1)\<rparr>)" (is "_ = (_, ?st3)")
    using add_rest_text[OF p] by blast
  then have "read_message st = (Inr (), ?st3)"
    unfolding read_message_add_rest message_steps st using run by (simp add: seqS_def bind_Inr catch_syslog_def)
  moreover have "rebuild (ms_builder ?st3) (lb_attrs (ms_builder ?st3)) = ''<'' @ dec_nat n @ ''>'' @ r"
  proof (cases ?c)
    case True
    then show ?thesis
      using rebuild_fields[OF fields_message[OF f, of r]] by (simp add: bracketed_def eval_nat_numeral)
  next
    case False
    then have "r = []"
      by simp
    with False show ?thesis
      using rebuild_fields[OF f] by (simp add: bracketed_def eval_nat_numeral)
  qed
  moreover have "other_version T (''<'' @ dec_nat n @ ''>'' @ r)"
    using T unfolding other_version_def by blast
  ultimately show ?thesis
    by (intro exI[of _ ?st3]) simp
qed

text \<open>
  Whatever holds of the builder and of every builder with one more field holds in the end.
\<close>

definition keeps_builder :: "(log_record_builder \<Rightarrow> bool) \<Rightarrow> (message_state, 'a) act \<Rightarrow> bool" where
  "keeps_builder P m \<longleftrightarrow> (\<forall>st. P (ms_builder st) \<longrightarrow> P (ms_builder (snd (m st))))"

lemma builder_bind: "keeps_builder P m \<Longrightarrow> (\<And>x. keeps_builder P (f x)) \<Longrightarrow> keeps_builder P (bindS m f)"
  by (fastforce simp: keeps_builder_def act_simps split: prod.split sum.split)

lemma builder_seq: "keeps_builder P m \<Longrightarrow> keeps_builder P n \<Longrightarrow> keeps_builder P (seqS m n)"
  unfolding seqS_def by (rule builder_bind)

lemma builder_catch: "keeps_builder P m \<Longrightarrow> keeps_builder P h \<Longrightarrow> keeps_builder P (catch_syslog m h)"
  by (fastforce simp: keeps_builder_def catch_syslog_def split: prod.split sum.split exn.split)

lemma builder_other: "keeps_builder P (on_parser m)" "keeps_builder P save_index" "keeps_builder P restore_index" "keeps_builder P (returnS x)"
  by (simp_all add: keeps_builder_def on_parser_def save_index_def restore_index_def act_simps split: prod.split)

lemma builder_if: "keeps_builder P m \<Longrightarrow> keeps_builder P n \<Longrightarrow> keeps_builder P (if c then m else n)"
  by simp

lemma builder_build: "(\<And>b. P b \<Longrightarrow> P (f b)) \<Longrightarrow> keeps_builder P (build_with f)"
  by (simp add: keeps_builder_def build_with_def act_simps)

lemma builder_message:
  fixes s ids ch
  defines "P \<equiv> \<lambda>b'. lb_ok s b' \<and> lb_ids b' = ids \<and> lb_channel b' = ch"
  shows "keeps_builder P read_message"
proof -
  have adds: "P b' \<Longrightarrow> P (add_priority p b')" "P b' \<Longrightarrow> P (add_version p b')" "P b' \<Longrightarrow> P (add_timestamp t b')"
    "P b' \<Longrightarrow> P (add_hostname t b')" "P b' \<Longrightarrow> P (add_appname t b')" "P b' \<Longrightarrow> P (add_procid t b')"
    "P b' \<Longrightarrow> P (add_msgid t b')" "P b' \<Longrightarrow> P (add_structured_data t b')" "P b' \<Longrightarrow> P (add_message t b')" for b' p t
    unfolding P_def by (simp_all add: log_adds_ok) (simp_all add: log_adds lb_insert_def lb_ids_def)
  show ?thesis
    unfolding read_message_def read_header_def read_rfc3164_header_def read_rfc5424_header_def
    by (intro builder_bind builder_seq builder_catch builder_if builder_other builder_build adds)
qed

lemma fields_empty:
  assumes "lb_ok s b" and "lb_attrs b = []"
  shows "fields b [None, None, None, None, None, None, None, None, None]"
  using assms by (simp add: fields_def lb_ok_def lb_known_def field_of_def find_one_def lb_ids_def)

lemma field_of_timestamp:
  assumes "lb_ok s b"
  shows "rebuild b (attr_insert (Timestamp attrid_ts sec nsec) as) = rebuild b as"
proof -
  have "list_all (\<lambda>i. 0 \<le> sint i) (lb_ids b)"
    using assms by (simp add: lb_ok_def lb_known_def)
  then have "attrid_ts \<noteq> i" if "i \<in> set (lb_ids b)" for i
    using that by (auto simp: list_all_iff wire_constants)
  then have "field_of (attr_insert (Timestamp attrid_ts sec nsec) as) i = field_of as i" if "i \<in> set (lb_ids b)" for i
    using that by (intro field_of_insert_other) simp
  then show ?thesis
    by (simp add: rebuild_def lb_ids_def)
qed

lemma syslog_read_outcome:
  assumes "lb_ok s b" and "lb_attrs b = []"
  shows "\<exists>r b'. syslog_read (Inr (sec, nsec)) msg b = (Inr r, b') \<and> lb_ids b' = lb_ids b \<and> lb_channel b' = lb_channel b
    \<and> lb_attrs b' = [] \<and> lb_ok s b'
    \<and> (rebuild b (rec_attributes r) = deframe msg \<or> other_version (deframe msg) (rebuild b (rec_attributes r)))
    \<and> (0 < sint sec \<and> 0 \<le> sint nsec \<and> sint nsec < 2000000000 \<and> - 64 \<le> sint (lb_channel b)
      \<and> contents_len (rec_attributes r) < 2 ^ 31 \<longrightarrow> record_plain s r)"
proof -
  let ?st = "\<lparr>ms_parser = syslog_parser_init msg (length msg), ms_builder = b, ms_restore = 0\<rparr>"
  let ?T = "deframe msg"
  obtain suf where p: "ms_parser ?st = text_at [] ?T suf"
    using syslog_parser_init_text[of msg] by auto
  have "header_done ?T suf (read_header ?st) \<or> header_dropped ?T suf (read_header ?st)"
    using p fields_empty[OF assms] by (intro read_header_outcome) simp_all
  then obtain st' where run: "read_message ?st = (Inr (), st')"
    and told: "rebuild (ms_builder st') (lb_attrs (ms_builder st')) = ?T
      \<or> other_version ?T (rebuild (ms_builder st') (lb_attrs (ms_builder st')))"
    using header_done_message[OF _ p] header_dropped_message[OF _ p] by fastforce
  let ?b = "ms_builder st'"
  have "lb_ok s ?b \<and> lb_ids ?b = lb_ids b \<and> lb_channel ?b = lb_channel b"
    using builder_message[of s "lb_ids b" "lb_channel b"] assms(1) run unfolding keeps_builder_def
    by (metis message_state.select_convs(2) snd_conv)
  then have ok: "lb_ok s ?b" and ids: "lb_ids ?b = lb_ids b" "lb_channel ?b = lb_channel b"
    by simp_all
  let ?r = "\<lparr>rec_channel = lb_channel ?b, rec_attributes = attr_insert (Timestamp attrid_ts sec nsec) (lb_attrs ?b)\<rparr>"
  have build: "log_build (Inr (sec, nsec)) ?b = (Inr ?r, ?b\<lparr>lb_attrs := []\<rparr>)"
    by (simp add: log_build_def)
  have "rebuild b (rec_attributes ?r) = rebuild ?b (lb_attrs ?b)"
    using field_of_timestamp[OF ok] rebuild_same[OF ids(1)] by simp
  moreover have "lb_ok s (?b\<lparr>lb_attrs := []\<rparr>)"
    using ok by (simp add: lb_ok_def lb_known_def lb_ids_def attrs_wf_def)
  moreover have "record_plain s ?r" if "0 < sint sec" "0 \<le> sint nsec" "sint nsec < 2000000000"
    "- 64 \<le> sint (lb_channel b)" "contents_len (rec_attributes ?r) < 2 ^ 31"
    using log_build_ok(1)[OF ok that(1-3) _ build that(5)] that(4) ids by simp
  ultimately show ?thesis
    using run build told ids by (intro exI[of _ ?r] exI[of _ "?b\<lparr>lb_attrs := []\<rparr>"]) (auto simp: syslog_read_def lb_ids_def)
qed

section \<open>From the message to whoever reads the record\<close>

text \<open>
  The constructor of \<^verbatim>\<open>syslog_udp_event_reader\<close>: a channel without further attributes, and the builder.
\<close>

definition syslog_reader_init :: "(session_builder, log_record_builder) act" where
  "syslog_reader_init = bindS (define_channel ''log'' []) log_record_builder_init"

lemma syslog_reader_known:
  assumes "announces sb s" and "syslog_reader_init sb = (Inr b, sb')"
  shows "\<exists>s'. announces sb' s' \<and> lb_ok s' b \<and> lb_attrs b = [] \<and> get_channel_label s' (lb_channel b) = Inr ''log''
    \<and> 0 \<le> sint (lb_channel b)"
proof -
  from assms(2) obtain c sb1 where c: "define_channel ''log'' [] sb = (Inr c, sb1)"
    and b: "log_record_builder_init c sb1 = (Inr b, sb')"
    by (auto simp: syslog_reader_init_def bindS_Inr)
  have "channel_attributes_ok s []"
    by (simp add: channel_attributes_ok_def attrs_wf_def)
  note chan = define_channel_announces[OF assms(1) this c]
  from log_record_builder_known[OF chan(1) b] obtain s' where s': "announces sb' s'" "lb_known s' b"
    "chan_labels s' = chan_labels (add_chan c ''log'' s)"
    by auto
  have "0 \<le> sint c"
    using assms(1) chan(2) by (simp add: announces_def)
  then have "get_channel_label s' c = Inr ''log''"
    using s'(3) by (simp add: get_channel_label_def add_chan_def)
  with s' \<open>0 \<le> sint c\<close> log_record_builder_init_ids(2,3)[OF b] show ?thesis
    by (intro exI[of _ s']) (simp add: lb_ok_def attrs_wf_def)
qed

section \<open>Properties\<close>

text \<open>
  C13: every message is read without an error and without access beyond the buffer, and the record
  holds all of it: put together again, its attributes are the message without its end of line.
  The exception is a message whose version number is neither missing nor 1, where the version is
  dropped and the rest becomes the message attribute.
\<close>

theorem syslog_reconstructed:
  assumes "lb_ok s b" and "lb_attrs b = []"
  shows "\<exists>r b'. syslog_read (Inr (sec, nsec)) msg b = (Inr r, b') \<and> lb_attrs b' = [] \<and> lb_ok s b'
    \<and> (rebuild b (rec_attributes r) = deframe msg \<or> other_version (deframe msg) (rebuild b (rec_attributes r)))"
  using syslog_read_outcome[OF assms, of sec nsec msg] by blast

definition sample_reader :: "log_record_builder result \<times> session_builder" where
  "sample_reader = syslog_reader_init sample_builder"

definition sample_log :: log_record_builder where
  "sample_log = \<lparr>lb_channel = 0, lb_priority = 0, lb_version = 1, lb_timestamp = 2, lb_hostname = 3, lb_appname = 4,
     lb_procid = 5, lb_msgid = 6, lb_sd = 7, lb_message = 8, lb_attrs = []\<rparr>"

lemma sample_reader_log: "syslog_reader_init sample_builder = (Inr sample_log, snd sample_reader)"
  unfolding sample_reader_def by (rule run_result) code_simp

definition sample_syslog :: string where
  "sample_syslog = ''<34>Oct 11 22:14:15 mymachine su: failed'' @ [CHR 0x0A]"

lemma syslog_reconstructed_witness:
  "\<exists>r b'. syslog_read (Inr (1, 0)) sample_syslog sample_log = (Inr r, b')
    \<and> rebuild sample_log (rec_attributes r) = ''<34>Oct 11 22:14:15 mymachine su: failed''"
proof -
  obtain s where "lb_ok s sample_log" "lb_attrs sample_log = []"
    using syslog_reader_known[OF sample_builder_announces sample_reader_log] by blast
  from syslog_reconstructed[OF this, of 1 0 sample_syslog] obtain r b' where
    r: "syslog_read (Inr (1, 0)) sample_syslog sample_log = (Inr r, b')"
    by blast
  have "(case fst (syslog_read (Inr (1, 0)) sample_syslog sample_log) of Inl _ \<Rightarrow> False
      | Inr r \<Rightarrow> rebuild sample_log (rec_attributes r) = ''<34>Oct 11 22:14:15 mymachine su: failed'')"
    by code_simp
  with r show ?thesis
    by simp
qed

text \<open>
  The timestamps of RFC 3164 that are accepted are exactly the texts of fifteen characters that
  \<open>timestamp_ok\<close> describes, followed by a space or the end of the message; anything else is refused and
  the parser is left as it was. The hours go up to 59, and a month name is compared up to its first null
  character only.
\<close>

lemma timestamp_accepted:
  "(\<exists>s sp r. t = s @ sp @ r \<and> timestamp_ok s \<and> spaced sp r
      \<and> read_rfc3164_timestamp (text_at pre t suf) = (Inr s, text_at (pre @ s @ sp) r suf))
   \<or> (\<nexists>s sp r. t = s @ sp @ r \<and> timestamp_ok s \<and> spaced sp r)
      \<and> refused (read_rfc3164_timestamp (text_at pre t suf)) (text_at pre t suf)"
  by (cases rule: read_timestamp_cases[of pre t suf]) blast+

lemma odd_timestamps:
  "timestamp_ok ''Jan  1 59:00:00''" "timestamp_ok ([CHR ''J'', CHR 0x00, CHR ''!''] @ '' 31 00:00:00'')"
  by code_simp+

text \<open>
  RFC 5424 allows several elements of structured data; more than one is refused.
\<close>

lemma structured_data_elements:
  "fst (read_rfc5424_structured_data (text_at [] ''[a][b] text'' [])) = Inl (Syslog_Error (quoted '' ''))"
  by code_simp

text \<open>
  C12: the log record of a message can be read by anyone who has read the session record: both are
  written, the session record read in a new session announces the attribute types and the channel,
  the log record is read back as it was built, whatever follows, its channel has the label
  of a log, and the message is in it.
\<close>

theorem syslog_end_to_end:
  assumes "announces sb s" and "syslog_reader_init sb = (Inr b, sb')" and "contents_len (sb_attributes sb') < 2 ^ 31"
    and "syslog_read (Inr (sec, nsec)) msg b = (Inr r, b')" and "contents_len (rec_attributes r) < 2 ^ 31"
    and "0 < sint sec" and "0 \<le> sint nsec" and "sint nsec < 2000000000"
  shows "\<exists>srec bs s'. record_write (session_build sb') = Inr srec \<and> record_write r = Inr bs
    \<and> record_parse new_session (srec @ bs @ rest) = (Inr (session_build sb', bs @ rest), s')
    \<and> record_parse s' (bs @ rest) = (Inr (r, rest), s')
    \<and> get_channel_label s' (rec_channel r) = Inr ''log''
    \<and> (rebuild b (rec_attributes r) = deframe msg \<or> other_version (deframe msg) (rebuild b (rec_attributes r)))"
proof -
  obtain s' where s': "announces sb' s'" "lb_ok s' b" "lb_attrs b = []" "get_channel_label s' (lb_channel b) = Inr ''log''"
    and "0 \<le> sint (lb_channel b)"
    using syslog_reader_known[OF assms(1,2)] by blast
  obtain srec where srec: "record_write (session_build sb') = Inr srec"
    "\<And>rest. record_parse new_session (srec @ rest) = (Inr (session_build sb', rest), s')"
    using session_build_read[OF s'(1) assms(3)] by blast
  have r: "record_plain s' r" "rec_channel r = lb_channel b"
    "rebuild b (rec_attributes r) = deframe msg \<or> other_version (deframe msg) (rebuild b (rec_attributes r))"
    using syslog_read_outcome[OF s'(2,3), of sec nsec msg] assms(4-8) \<open>0 \<le> sint (lb_channel b)\<close>
    by (auto simp: syslog_read_def log_build_def split: prod.splits sum.splits)
  then obtain bs where "record_write r = Inr bs" "\<And>rest. record_parse s' (bs @ rest) = (Inr (r, rest), s')"
    using record_write_parse[of s' r s'] by (auto simp: record_plain_def)
  with srec r s'(4) show ?thesis
    by auto
qed

lemma syslog_end_to_end_witness:
  "\<exists>r bs s'. fst (syslog_read (Inr (1, 0)) sample_syslog sample_log) = Inr r \<and> record_write r = Inr bs
    \<and> record_parse s' bs = (Inr (r, []), s') \<and> get_channel_label s' (rec_channel r) = Inr ''log''"
proof -
  obtain r b' where r: "syslog_read (Inr (1, 0)) sample_syslog sample_log = (Inr r, b')"
    using syslog_read_outcome[of _ sample_log 1 0 sample_syslog] syslog_reader_known[OF sample_builder_announces sample_reader_log] by blast
  have "(case fst (syslog_read (Inr (1, 0)) sample_syslog sample_log) of Inl _ \<Rightarrow> False
      | Inr r \<Rightarrow> contents_len (rec_attributes r) < 1000)"
    by code_simp
  with r have "contents_len (rec_attributes r) < 2 ^ 31"
    by simp
  moreover have "contents_len (sb_attributes (snd sample_reader)) < 1000"
    by code_simp
  ultimately show ?thesis
    using syslog_end_to_end[OF sample_builder_announces sample_reader_log _ r, of "[]"] r by fastforce
qed

end
