(* ===== verification/Ntp_Message.thy ===== *)
theory Ntp_Message
  imports Prelude "HOL-Library.Mapping"
begin

text \<open>
  NTP control messages (\<^verbatim>\<open>endpoints/clock/ntp_datagram.cc\<close>) and responses of several fragments
  (\<^verbatim>\<open>ntp_response.cc\<close>). The loops over the fragments follow the offsets that the fragments announce, so
  they need not end; the lemmas say when they do and what they return.
\<close>

section \<open>Datagrams\<close>

type_synonym ntp_datagram = octets

definition ntp_datagram :: "octets \<Rightarrow> ntp_datagram result" where
  "ntp_datagram content = (if length content < 12 then Inl (Ntp_Error ''datagram too short'') else Inr content)"

definition ntp_request :: "u32 \<Rightarrow> u16 \<Rightarrow> u16 \<Rightarrow> ntp_datagram" where
  "ntp_request opcode seqnum associd =
     [0x16, ucast opcode, ucast (drop_bit 8 seqnum AND 0xff), ucast (seqnum AND 0xff), 0, 0,
      ucast (drop_bit 8 associd AND 0xff), ucast (associd AND 0xff), 0, 0, 0, 0]"

definition be16 :: "octet \<Rightarrow> octet \<Rightarrow> u16" where
  "be16 a b = push_bit 8 (ucast a) OR ucast b"

definition is_response :: "ntp_datagram \<Rightarrow> bool" where
  "is_response d \<longleftrightarrow> d ! 1 AND 0x80 \<noteq> 0"

definition dg_more :: "ntp_datagram \<Rightarrow> bool" where
  "dg_more d \<longleftrightarrow> d ! 1 AND 0x20 \<noteq> 0"

definition dg_opcode :: "ntp_datagram \<Rightarrow> octet" where
  "dg_opcode d = d ! 1 AND 0x1f"

definition dg_seqnum :: "ntp_datagram \<Rightarrow> u16" where
  "dg_seqnum d = be16 (d ! 2) (d ! 3)"

definition dg_status :: "ntp_datagram \<Rightarrow> u16" where
  "dg_status d = be16 (d ! 4) (d ! 5)"

definition dg_associd :: "ntp_datagram \<Rightarrow> u16" where
  "dg_associd d = be16 (d ! 6) (d ! 7)"

definition dg_offset :: "ntp_datagram \<Rightarrow> u64" where
  "dg_offset d = push_bit 8 (ucast (d ! 8)) OR ucast (d ! 9)"

definition dg_count :: "ntp_datagram \<Rightarrow> u64" where
  "dg_count d = push_bit 8 (ucast (d ! 10)) OR ucast (d ! 11)"

text \<open>
  \<^verbatim>\<open>substr\<close> takes what there is where the datagram is shorter than it announces.
\<close>

definition dg_payload :: "ntp_datagram \<Rightarrow> octets" where
  "dg_payload d = take (unat (dg_count d)) (drop 12 d)"

definition responds_to :: "ntp_datagram \<Rightarrow> ntp_datagram \<Rightarrow> bool" where
  "responds_to d request =
     (if \<not> is_response d then False
      else if dg_opcode d \<noteq> dg_opcode request then False
      else if dg_seqnum d \<noteq> dg_seqnum request then False
      else if dg_associd d \<noteq> dg_associd request then False
      else True)"

section \<open>Responses\<close>

text \<open>
  The fragments by offset. The key has type \<^verbatim>\<open>uint16_t\<close>, so the offset of the next fragment is truncated
  to 16 bits when it is looked up.
\<close>

type_synonym ntp_response = "u16 \<rightharpoonup> ntp_datagram"

definition response_add :: "ntp_datagram \<Rightarrow> ntp_response \<Rightarrow> ntp_response" where
  "response_add d m = m(ucast (dg_offset d) \<mapsto> d)"

partial_function (option) complete_loop :: "ntp_response \<Rightarrow> u64 \<Rightarrow> bool option" where
  "complete_loop m offset =
     (case m (ucast offset) of
        None \<Rightarrow> Some False
      | Some d \<Rightarrow> if dg_more d then complete_loop m (offset + dg_count d) else Some True)"

definition response_complete :: "ntp_response \<Rightarrow> bool option" where
  "response_complete m = complete_loop m 0"

partial_function (option) payload_loop :: "ntp_response \<Rightarrow> octets \<Rightarrow> octets result option" where
  "payload_loop m payload =
     (case m (of_nat (length payload)) of
        None \<Rightarrow> Some (Inl (Ntp_Error ''incomplete NTP response''))
      | Some d \<Rightarrow>
          (let payload' = payload @ dg_payload d in
           if dg_more d then payload_loop m payload' else Some (Inr payload')))"

definition response_payload :: "ntp_response \<Rightarrow> octets result option" where
  "response_payload m = payload_loop m []"

partial_function (option) text_loop :: "ntp_response \<Rightarrow> string \<Rightarrow> string result option" where
  "text_loop m payload =
     (case m (of_nat (length payload)) of
        None \<Rightarrow> Some (Inl (Ntp_Error ''incomplete NTP response''))
      | Some d \<Rightarrow>
          (let payload' = payload @ map char_of_octet (dg_payload d) in
           if dg_more d then text_loop m payload' else Some (Inr payload')))"

definition response_text_payload :: "ntp_response \<Rightarrow> string result option" where
  "response_text_payload m = text_loop m []"

declare complete_loop.simps [code] payload_loop.simps [code] text_loop.simps [code]

definition response_associd :: "ntp_response \<Rightarrow> u16 result" where
  "response_associd m =
     (case m 0 of None \<Rightarrow> Inl (Ntp_Error ''incomplete NTP response'') | Some d \<Rightarrow> Inr (dg_associd d))"

definition response_status :: "ntp_response \<Rightarrow> u16 result" where
  "response_status m =
     (case m 0 of None \<Rightarrow> Inl (Ntp_Error ''incomplete NTP response'') | Some d \<Rightarrow> Inr (dg_status d))"

section \<open>Where the loop over the fragments goes\<close>

text \<open>
  \<open>walk m k\<close> is the offset after \<open>k\<close> rounds, if none of them ends the loop.
\<close>

fun walk :: "ntp_response \<Rightarrow> nat \<Rightarrow> u64 \<Rightarrow> u64 option" where
  "walk m 0 offset = Some offset"
| "walk m (Suc k) offset =
     (case m (ucast offset) of
        None \<Rightarrow> None
      | Some d \<Rightarrow> if dg_more d then walk m k (offset + dg_count d) else None)"

lemma complete_loop_ends: "walk m k offset = None \<Longrightarrow> \<exists>b. complete_loop m offset = Some b"
proof (induction k arbitrary: offset)
  case (Suc k)
  then show ?case
    by (subst complete_loop.simps) (auto split: option.splits)
qed simp

lemma complete_loop_result:
  "complete_loop m offset = Some b \<Longrightarrow> \<exists>k. walk m k offset = None"
proof (induction rule: complete_loop.raw_induct[rotated, consumes 1])
  case (1 loop m offset b)
  show ?case
  proof (cases "m (ucast offset)")
    case None
    then show ?thesis
      by (intro exI[of _ 1]) simp
  next
    case (Some d)
    show ?thesis
    proof (cases "dg_more d")
      case True
      with 1(2) Some have "loop m (offset + dg_count d) = Some b"
        by simp
      then obtain k where "walk m k (offset + dg_count d) = None"
        using 1(1) by blast
      with Some True show ?thesis
        by (intro exI[of _ "Suc k"]) simp
    next
      case False
      with Some show ?thesis
        by (intro exI[of _ 1]) simp
    qed
  qed
qed

lemma complete_loop_terminates: "(\<exists>b. complete_loop m offset = Some b) \<longleftrightarrow> (\<exists>k. walk m k offset = None)"
  using complete_loop_ends complete_loop_result by blast

lemma walk_empty_fragment:
  "m (ucast offset) = Some d \<Longrightarrow> dg_more d \<Longrightarrow> dg_count d = 0 \<Longrightarrow> walk m k offset = Some offset"
  by (induction k) simp_all

text \<open>
  The characters are those of the octets.
\<close>

lemma text_loop_payload: "payload_loop m p = Some r \<Longrightarrow>
  text_loop m (map char_of_octet p) = Some (case r of Inl e \<Rightarrow> Inl e | Inr q \<Rightarrow> Inr (map char_of_octet q))"
proof (induction arbitrary: rule: payload_loop.raw_induct[rotated, consumes 1])
  case (1 loop m p r)
  show ?case
  proof (cases "m (of_nat (length p))")
    case None
    with 1(2) show ?thesis
      by (subst text_loop.simps) (auto split: sum.split)
  next
    case (Some d)
    with 1(2) have "if dg_more d then loop m (p @ dg_payload d) = Some r else r = Inr (p @ dg_payload d)"
      by (auto simp: Let_def split: if_splits)
    with 1(1)[of m "p @ dg_payload d" r] Some show ?thesis
      by (subst text_loop.simps) (auto simp: Let_def split: if_splits)
  qed
qed

text \<open>
  Fragments as a server should send them: each datagram has the content it announces, and a
  fragment that is not the last has some, all of it below the largest offset.
\<close>

definition fragments_ok :: "ntp_response \<Rightarrow> bool" where
  "fragments_ok m \<longleftrightarrow> (\<forall>offset d. m offset = Some d \<longrightarrow> 12 + unat (dg_count d) \<le> length d
     \<and> (dg_more d \<longrightarrow> 0 < unat (dg_count d) \<and> unat offset + unat (dg_count d) < 65536))"

lemma loops_end:
  assumes "fragments_ok m"
  shows "length p < 65536 \<Longrightarrow> \<exists>b r. complete_loop m (of_nat (length p)) = Some b \<and> payload_loop m p = Some r
    \<and> (if b then \<exists>q. r = Inr q else r = Inl (Ntp_Error ''incomplete NTP response''))"
proof (induction "65536 - length p" arbitrary: p rule: less_induct)
  case less
  have key: "ucast (of_nat (length p) :: u64) = (of_nat (length p) :: u16)"
    by (intro bit_word_eqI) (simp add: bit_simps)
  show ?case
  proof (cases "m (of_nat (length p))")
    case None
    then show ?thesis
      by (subst complete_loop.simps, subst payload_loop.simps, intro exI[of _ False]) (simp add: key)
  next
    case (Some d)
    have u: "unat (of_nat (length p) :: u16) = length p"
      using less.prems by (simp add: unat_of_nat)
    from assms Some have d: "12 + unat (dg_count d) \<le> length d"
      "dg_more d \<Longrightarrow> 0 < unat (dg_count d) \<and> length p + unat (dg_count d) < 65536"
      unfolding fragments_ok_def using u by metis+
    have len: "length (p @ dg_payload d) = length p + unat (dg_count d)"
      using d(1) by (simp add: dg_payload_def)
    show ?thesis
    proof (cases "dg_more d")
      case True
      have "of_nat (length (p @ dg_payload d)) = of_nat (length p) + dg_count d"
        unfolding len by simp
      moreover have "\<exists>b r. complete_loop m (of_nat (length (p @ dg_payload d))) = Some b \<and> payload_loop m (p @ dg_payload d) = Some r
          \<and> (if b then \<exists>q. r = Inr q else r = Inl (Ntp_Error ''incomplete NTP response''))"
        using d(2)[OF True] len less.prems by (intro less.hyps) (simp_all, linarith)
      ultimately show ?thesis
        using Some True by (subst complete_loop.simps, subst payload_loop.simps) (simp add: key Let_def)
    next
      case False
      with Some show ?thesis
        by (subst complete_loop.simps, subst payload_loop.simps, intro exI[of _ True]) (simp add: key Let_def)
    qed
  qed
qed

section \<open>Properties\<close>

text \<open>
  C31: the loops over the fragments of a response end when the fragments are as a server should send
  them, and they agree: a response is complete if and only if its payload can be read, as octets and as
  characters; otherwise both raise the error for an incomplete response.
\<close>

theorem response_loops_end:
  assumes "fragments_ok m"
  shows "\<exists>b r. response_complete m = Some b \<and> response_payload m = Some r
    \<and> response_text_payload m = Some (case r of Inl e \<Rightarrow> Inl e | Inr q \<Rightarrow> Inr (map char_of_octet q))
    \<and> (if b then \<exists>q. r = Inr q else r = Inl (Ntp_Error ''incomplete NTP response''))"
proof -
  obtain b r where "complete_loop m 0 = Some b" and r: "payload_loop m [] = Some r"
    and "if b then \<exists>q. r = Inr q else r = Inl (Ntp_Error ''incomplete NTP response'')"
    using loops_end[OF assms, of "[]"] by auto
  with text_loop_payload[OF r] show ?thesis
    unfolding response_complete_def response_payload_def response_text_payload_def
    by (intro exI[of _ b] exI[of _ r]) simp
qed

text \<open>
  Two fragments, the second of which has arrived first.
\<close>

definition sample_response :: ntp_response where
  "sample_response =
     response_add [0x16, 0xa2, 0, 1, 0, 0, 0, 7, 0, 0, 0, 1, 0x61]
       (response_add [0x16, 0x82, 0, 1, 0, 0, 0, 7, 0, 1, 0, 1, 0x62] Map.empty)"

lemma sample_response_ok: "fragments_ok sample_response"
proof -
  have eq: "sample_response = [0 \<mapsto> [0x16, 0xa2, 0, 1, 0, 0, 0, 7, 0, 0, 0, 1, 0x61], 1 \<mapsto> [0x16, 0x82, 0, 1, 0, 0, 0, 7, 0, 1, 0, 1, 0x62]]"
    by (auto simp: sample_response_def response_add_def dg_offset_def)
  show ?thesis
    unfolding fragments_ok_def eq by (auto simp: dg_count_def dg_more_def split: if_splits)
qed

lemma response_loops_end_witness:
  "\<exists>r. response_complete sample_response = Some True \<and> response_payload sample_response = Some (Inr r)"
proof -
  have "response_complete sample_response = Some True"
    unfolding response_complete_def
    by (subst complete_loop.simps, subst complete_loop.simps)
      (simp add: sample_response_def response_add_def dg_offset_def dg_count_def dg_more_def)
  with response_loops_end[OF sample_response_ok] show ?thesis
    by auto
qed

text \<open>
  One datagram is enough to stop the client for good: after a fragment at offset zero that announces
  more fragments and no content, the test whether the response is complete does not end.
\<close>

lemma empty_fragment_hangs:
  assumes "ntp_datagram content = Inr d" and "dg_offset d = 0" and "dg_more d" and "dg_count d = 0"
  shows "response_complete (response_add d m) = None"
proof -
  have "walk (response_add d m) k 0 = Some 0" for k
    using assms by (intro walk_empty_fragment[of _ _ d]) (simp_all add: response_add_def)
  then show ?thesis
    using complete_loop_terminates[of "response_add d m" 0] by (auto simp: response_complete_def)
qed

lemma empty_fragment_hangs_witness:
  "response_complete (response_add [0x16, 0xa2, 0, 1, 0, 0, 0, 7, 0, 0, 0, 0] Map.empty) = None"
  by (rule empty_fragment_hangs[of "[0x16, 0xa2, 0, 1, 0, 0, 0, 7, 0, 0, 0, 0]"])
    (simp_all add: ntp_datagram_def dg_offset_def dg_more_def dg_count_def)

end
