(* ===== verification/Ntp_Peer.thy ===== *)
theory Ntp_Peer
  imports Ntp_Message Session_Builder
begin

text \<open>
  The variables of an NTP peer (\<^verbatim>\<open>endpoints/clock/ntp_peer.cc\<close>) and the attribute made of them
  (\<^verbatim>\<open>ntp_assoc_attr_builder.cc\<close>). The lemmas give what is parsed of a list of variables and the value of
  decimal numbers, with and without a fraction.
\<close>

section \<open>Parsing\<close>

type_synonym variables = "string \<rightharpoonup> string"

definition add_variable :: "string \<Rightarrow> variables \<Rightarrow> variables" where
  "add_variable varstr vs =
     (case find_char (CHR ''='') varstr of
        None \<Rightarrow> vs
      | Some k \<Rightarrow> vs(take k varstr \<mapsto> drop (k + 1) varstr))"

lemma find_char_less: "find_char c s = Some j \<Longrightarrow> j < length s"
  by (induction s arbitrary: j) (auto split: if_splits)

text \<open>
  \<open>s\<close> is what is left of the payload: \<^verbatim>\<open>i\<close> is zero and \<^verbatim>\<open>j\<close> the place of the next comma.
\<close>

function peer_loop :: "string \<Rightarrow> variables \<Rightarrow> variables" where
  "peer_loop s vs =
     (case find_char (CHR '','') s of
        None \<Rightarrow> vs
      | Some j \<Rightarrow>
          (let i = length (takeWhile is_space s) in
           peer_loop (drop (j + 1) s) (add_variable (take (j - i) (drop i s)) vs)))"
  by pat_completeness auto
termination
  by (relation "measure (\<lambda>(s, vs). length s)") (auto dest: find_char_less)

declare peer_loop.simps [simp del]

record ntp_peer =
  peer_associd :: u16
  peer_status :: u16
  peer_variables :: variables

text \<open>
  A loop over the fragments that does not end has no side effect, so C++ gives it no meaning.
\<close>

definition or_endless :: "'a result option \<Rightarrow> 'a result" where
  "or_endless r = (case r of None \<Rightarrow> Inl (Undefined_Behaviour ''endless loop'') | Some r \<Rightarrow> r)"

definition ntp_peer :: "ntp_response \<Rightarrow> ntp_peer result" where
  "ntp_peer m =
     bindE (response_associd m) (\<lambda>associd.
     bindE (response_status m) (\<lambda>status.
     bindE (or_endless (response_text_payload m)) (\<lambda>payload.
       Inr \<lparr>peer_associd = associd, peer_status = status, peer_variables = peer_loop payload Map.empty\<rparr>)))"

section \<open>Values\<close>

definition get_string :: "ntp_peer \<Rightarrow> string \<Rightarrow> string" where
  "get_string p name = (case peer_variables p name of None \<Rightarrow> [] | Some s \<Rightarrow> s)"

definition get_quoted_string :: "ntp_peer \<Rightarrow> string \<Rightarrow> string result" where
  "get_quoted_string p name =
     (case peer_variables p name of
        None \<Rightarrow> Inr []
      | Some s \<Rightarrow>
          (if length s < 2 \<or> s ! 0 \<noteq> CHR 0x22 \<or> s ! (length s - 1) \<noteq> CHR 0x22
           then Inl (Ntp_Error ''quoted string expected'')
           else Inr (take (length s - 2) (drop 1 s))))"

definition push_digit :: "char \<Rightarrow> int \<Rightarrow> int result" where
  "push_digit c v = bindE (long_result (v * 10)) (\<lambda>v. long_result (v + int (digit_val c)))"

fun decimal_loop :: "string \<Rightarrow> int \<Rightarrow> (int \<times> string) result" where
  "decimal_loop [] v = Inr (v, [])"
| "decimal_loop (c # s) v =
     (if is_digit c then bindE (push_digit c v) (decimal_loop s) else Inr (v, c # s))"

text \<open>
  The loop over the fraction stops after six digits; \<open>shift\<close> is the number of digits still wanted.
\<close>

fun fraction_loop :: "string \<Rightarrow> int \<Rightarrow> nat \<Rightarrow> (int \<times> nat) result" where
  "fraction_loop [] v shift = Inr (v, shift)"
| "fraction_loop (c # s) v shift =
     (if is_digit c \<and> shift \<noteq> 0 then bindE (push_digit c v) (\<lambda>v. fraction_loop s v (shift - 1)) else Inr (v, shift))"

fun shift_loop :: "nat \<Rightarrow> int \<Rightarrow> int result" where
  "shift_loop 0 v = Inr v"
| "shift_loop (Suc n) v = bindE (long_result (v * 10)) (shift_loop n)"

definition sign_of :: "string \<Rightarrow> bool \<times> string" where
  "sign_of s = (if s \<noteq> [] \<and> hd s = CHR ''-'' then (True, tl s) else (False, s))"

definition integer_value :: "string \<Rightarrow> int result" where
  "integer_value s =
     (case sign_of s of (negative, s) \<Rightarrow>
        bindE (decimal_loop s 0) (\<lambda>(v, _). Inr (if negative then - v else v)))"

definition get_integer :: "ntp_peer \<Rightarrow> string \<Rightarrow> int result" where
  "get_integer p name = (case peer_variables p name of None \<Rightarrow> Inr 0 | Some s \<Rightarrow> integer_value s)"

definition fixed_value :: "string \<Rightarrow> int result" where
  "fixed_value s =
     (case sign_of s of (negative, s) \<Rightarrow>
        bindE (decimal_loop s 0) (\<lambda>(v, s).
        bindE (if s \<noteq> [] \<and> hd s = CHR ''.'' then fraction_loop (tl s) v 6 else Inr (v, 6)) (\<lambda>(v, shift).
        bindE (shift_loop shift v) (\<lambda>v. Inr (if negative then - v else v)))))"

definition get_fixed :: "ntp_peer \<Rightarrow> string \<Rightarrow> int result" where
  "get_fixed p name = (case peer_variables p name of None \<Rightarrow> Inr 0 | Some s \<Rightarrow> fixed_value s)"

section \<open>Attributes\<close>

record ntp_assoc_attr_builder =
  na_associd :: i32
  na_status :: i32
  na_srchost :: i32
  na_srcaddr :: i32
  na_srcport :: i32
  na_stratum :: i32
  na_delay :: i32
  na_offset :: i32
  na_jitter :: i32
  na_assoc :: i32
  na_attrs :: "attribute list"

definition ntp_assoc_attr_builder_init :: "(session_builder, ntp_assoc_attr_builder) act" where
  "ntp_assoc_attr_builder_init =
     bindS (define_attribute ''ntp_associd'' type_unsigned_integer) (\<lambda>associd.
     bindS (define_attribute ''ntp_status'' type_unsigned_integer) (\<lambda>status.
     bindS (define_attribute ''ntp_srchost'' type_string) (\<lambda>srchost.
     bindS (define_attribute ''ntp_srcaddr'' type_string) (\<lambda>srcaddr.
     bindS (define_attribute ''ntp_srcport'' type_unsigned_integer) (\<lambda>srcport.
     bindS (define_attribute ''ntp_stratum'' type_unsigned_integer) (\<lambda>stratum.
     bindS (define_attribute ''ntp_delay'' type_signed_integer) (\<lambda>delay.
     bindS (define_attribute ''ntp_offset'' type_signed_integer) (\<lambda>offset.
     bindS (define_attribute ''ntp_jitter'' type_signed_integer) (\<lambda>jitter.
     bindS (define_attribute ''ntp_assoc'' type_compound) (\<lambda>assoc.
     returnS \<lparr>na_associd = associd, na_status = status, na_srchost = srchost, na_srcaddr = srcaddr,
       na_srcport = srcport, na_stratum = stratum, na_delay = delay, na_offset = offset,
       na_jitter = jitter, na_assoc = assoc, na_attrs = []\<rparr>))))))))))"

text \<open>
  The attribute list under construction refers to members of the builder, each of which has its own
  identifier: to assign a member changes what an earlier reference to it shows. A reference may be
  left from an association that could not be completed.
\<close>

definition refer :: "attribute \<Rightarrow> attribute list \<Rightarrow> attribute list" where
  "refer a as = attr_insert a (map (\<lambda>x. if attrid x = attrid a then a else x) as)"

definition na_insert :: "attribute \<Rightarrow> ntp_assoc_attr_builder \<Rightarrow> ntp_assoc_attr_builder" where
  "na_insert a b = b\<lparr>na_attrs := refer a (na_attrs b)\<rparr>"

definition na_add_associd :: "u16 \<Rightarrow> ntp_assoc_attr_builder \<Rightarrow> ntp_assoc_attr_builder" where
  "na_add_associd v b = na_insert (Unsigned_Integer (na_associd b) (ucast v)) b"

definition na_add_status :: "u16 \<Rightarrow> ntp_assoc_attr_builder \<Rightarrow> ntp_assoc_attr_builder" where
  "na_add_status v b = na_insert (Unsigned_Integer (na_status b) (ucast v)) b"

definition na_add_srchost :: "string \<Rightarrow> ntp_assoc_attr_builder \<Rightarrow> ntp_assoc_attr_builder" where
  "na_add_srchost s b = na_insert (String_Attr (na_srchost b) s) b"

definition na_add_srcaddr :: "string \<Rightarrow> ntp_assoc_attr_builder \<Rightarrow> ntp_assoc_attr_builder" where
  "na_add_srcaddr s b = na_insert (String_Attr (na_srcaddr b) s) b"

definition na_add_srcport :: "u16 \<Rightarrow> ntp_assoc_attr_builder \<Rightarrow> ntp_assoc_attr_builder" where
  "na_add_srcport v b = na_insert (Unsigned_Integer (na_srcport b) (ucast v)) b"

definition na_add_stratum :: "u32 \<Rightarrow> ntp_assoc_attr_builder \<Rightarrow> ntp_assoc_attr_builder" where
  "na_add_stratum v b = na_insert (Unsigned_Integer (na_stratum b) (ucast v)) b"

definition na_add_delay :: "i64 \<Rightarrow> ntp_assoc_attr_builder \<Rightarrow> ntp_assoc_attr_builder" where
  "na_add_delay v b = na_insert (Signed_Integer (na_delay b) v) b"

definition na_add_offset :: "i64 \<Rightarrow> ntp_assoc_attr_builder \<Rightarrow> ntp_assoc_attr_builder" where
  "na_add_offset v b = na_insert (Signed_Integer (na_offset b) v) b"

definition na_add_jitter :: "i64 \<Rightarrow> ntp_assoc_attr_builder \<Rightarrow> ntp_assoc_attr_builder" where
  "na_add_jitter v b = na_insert (Signed_Integer (na_jitter b) v) b"

definition na_build :: "ntp_assoc_attr_builder \<Rightarrow> attribute \<times> ntp_assoc_attr_builder" where
  "na_build b = (Compound (na_assoc b) (na_attrs b), b\<lparr>na_attrs := []\<rparr>)"

text \<open>
  An attribute that is added if there is the variable for it. An exception leaves in the builder
  what was added before.
\<close>

definition when_known ::
  "ntp_peer \<Rightarrow> string \<Rightarrow> (ntp_assoc_attr_builder, unit) act \<Rightarrow> (ntp_assoc_attr_builder, unit) act" where
  "when_known p name m = (if peer_variables p name \<noteq> None then m else returnS ())"

definition peer_build :: "ntp_peer \<Rightarrow> (ntp_assoc_attr_builder, unit) act" where
  "peer_build p =
     seqS (modifyS (na_add_associd (peer_associd p)))
    (seqS (modifyS (na_add_status (peer_status p)))
    (seqS (when_known p ''srchost'' (bindS (liftS (get_quoted_string p ''srchost'')) (\<lambda>s. modifyS (na_add_srchost s))))
    (seqS (if peer_variables p ''srcaddr'' \<noteq> None then modifyS (na_add_srcaddr (get_string p ''srcaddr''))
           else when_known p ''srcadr'' (modifyS (na_add_srcaddr (get_string p ''srcadr''))))
    (seqS (when_known p ''srcport'' (bindS (liftS (get_integer p ''srcport'')) (\<lambda>n.
            let srcport = word_of_int n :: u16 in
            if srcport \<noteq> 123 then modifyS (na_add_srcport srcport) else returnS ())))
    (seqS (when_known p ''stratum'' (bindS (liftS (get_integer p ''stratum'')) (\<lambda>n. modifyS (na_add_stratum (word_of_int n)))))
    (seqS (when_known p ''delay'' (bindS (liftS (get_fixed p ''delay'')) (\<lambda>n. modifyS (na_add_delay (word_of_int n)))))
    (seqS (when_known p ''offset'' (bindS (liftS (get_fixed p ''offset'')) (\<lambda>n. modifyS (na_add_offset (word_of_int n)))))
          (when_known p ''jitter'' (bindS (liftS (get_fixed p ''jitter'')) (\<lambda>n. modifyS (na_add_jitter (word_of_int n))))))))))))"

section \<open>What is parsed\<close>

lemma add_variable_pair:
  "CHR ''='' \<notin> set n \<Longrightarrow> add_variable (n @ CHR ''='' # v) vs = vs(n \<mapsto> v)"
  by (simp add: add_variable_def find_char_append)

lemma not_space: "\<not> is_space (CHR '','')" "\<not> is_space (CHR ''='')"
  by (simp_all add: is_space_def)

lemma takeWhile_space_comma: "takeWhile is_space (t @ CHR '','' # s) = takeWhile is_space t"
  by (induction t) (simp_all add: not_space)

lemma peer_loop_comma:
  "CHR '','' \<notin> set t \<Longrightarrow> peer_loop (t @ CHR '','' # s) vs = peer_loop s (add_variable (dropWhile is_space t) vs)"
  by (subst peer_loop.simps)
    (simp add: find_char_append takeWhile_space_comma length_takeWhile_le dropWhile_eq_drop)

lemma peer_loop_rest: "CHR '','' \<notin> set t \<Longrightarrow> peer_loop t vs = vs"
  by (subst peer_loop.simps) (simp add: find_char_None)

text \<open>
  An item of the list: white space, the name and the value of a variable.
\<close>

type_synonym item = "string \<times> string \<times> string"

fun item_text :: "item \<Rightarrow> string" where
  "item_text (w, n, v) = w @ n @ CHR ''='' # v"

fun item_ok :: "item \<Rightarrow> bool" where
  "item_ok (w, n, v) \<longleftrightarrow> list_all is_space w \<and> \<not> is_space (hd (n @ ''='')) \<and> CHR ''='' \<notin> set n
     \<and> CHR '','' \<notin> set n \<and> CHR '','' \<notin> set v"

lemma peer_loop_item:
  assumes "item_ok (w, n, v)"
  shows "peer_loop (item_text (w, n, v) @ CHR '','' # s) vs = peer_loop s (vs(n \<mapsto> v))"
proof -
  have "CHR '','' \<notin> set w"
    using assms not_space by (auto simp: list_all_iff)
  moreover have "dropWhile is_space (item_text (w, n, v)) = n @ CHR ''='' # v"
    using assms by (cases n) (simp_all add: dropWhile_append list_all_iff not_space)
  ultimately show ?thesis
    using assms peer_loop_comma[of "item_text (w, n, v)" s vs] by (simp add: add_variable_pair)
qed

lemma peer_loop_items:
  "list_all item_ok xs \<Longrightarrow> CHR '','' \<notin> set rest \<Longrightarrow>
   peer_loop (concat (map (\<lambda>x. item_text x @ '','') xs) @ rest) vs = vs ++ map_of (rev (map snd xs))"
proof (induction xs arbitrary: vs)
  case Nil
  then show ?case
    by (simp add: peer_loop_rest)
next
  case (Cons x xs)
  obtain w n v where x: "x = (w, n, v)"
    by (cases x)
  with Cons x peer_loop_item[of w n v "concat (map (\<lambda>x. item_text x @ '','') xs) @ rest" vs] show ?case
    by (simp add: map_add_assoc)
qed


section \<open>The value of decimal numbers\<close>

lemma push_digit_value:
  "is_digit c \<Longrightarrow> n < 10 ^ 17 \<Longrightarrow> push_digit c (int n) = Inr (int (n * 10 + digit_val c))"
  using digit_val_less[of c] by (simp add: push_digit_def long_result_def)

lemma ten_times: "n * (10 * 10 ^ k) + m < 10 ^ 18 \<Longrightarrow> n < 10 ^ 17" for n :: nat
proof -
  assume "n * (10 * 10 ^ k) + m < 10 ^ 18"
  moreover have "n * (10 * 1) \<le> n * (10 * 10 ^ k)"
    by (intro mult_le_mono2) simp
  ultimately have "n * (10 * 1) < 10 ^ 18"
    by (rule order_le_less_trans[OF _ add_lessD1, rotated])
  then show ?thesis
    by simp
qed

lemma push_digits_bound:
  fixes n :: nat
  assumes "n * 10 ^ length (c # cs) + dec_val (c # cs) < 10 ^ 18"
  shows "n < 10 ^ 17" and "(n * 10 + digit_val c) * 10 ^ length cs + dec_val cs < 10 ^ 18"
proof -
  show "n < 10 ^ 17"
    using assms unfolding length_Cons power_Suc by (rule ten_times)
  show "(n * 10 + digit_val c) * 10 ^ length cs + dec_val cs < 10 ^ 18"
    using assms by (simp add: dec_val_Cons algebra_simps)
qed

lemma decimal_loop_value:
  "list_all is_digit ds \<Longrightarrow> n * 10 ^ length ds + dec_val ds < 10 ^ 18 \<Longrightarrow> s = [] \<or> \<not> is_digit (hd s) \<Longrightarrow>
   decimal_loop (ds @ s) (int n) = Inr (int (n * 10 ^ length ds + dec_val ds), s)"
proof (induction ds arbitrary: n)
  case Nil
  then show ?case
    by (cases s) simp_all
next
  case (Cons c ds)
  note bound = push_digits_bound[OF Cons.prems(2)]
  from Cons.IH[OF _ bound(2)] Cons.prems bound(1) show ?case
    by (simp add: push_digit_value dec_val_Cons algebra_simps)
qed

lemma fraction_loop_value:
  "list_all is_digit ds \<Longrightarrow> n * 10 ^ length ds + dec_val ds < 10 ^ 18 \<Longrightarrow> length ds \<le> k \<Longrightarrow>
   s = [] \<or> \<not> is_digit (hd s) \<or> length ds = k \<Longrightarrow>
   fraction_loop (ds @ s) (int n) k = Inr (int (n * 10 ^ length ds + dec_val ds), k - length ds)"
proof (induction ds arbitrary: n k)
  case Nil
  then show ?case
    by (cases s) auto
next
  case (Cons c ds)
  note bound = push_digits_bound[OF Cons.prems(2)]
  from Cons.IH[OF _ bound(2), of "k - 1"] Cons.prems bound(1) show ?case
    by (cases k) (auto simp: push_digit_value dec_val_Cons algebra_simps)
qed

lemma shift_loop_value: "n * 10 ^ k < 10 ^ 18 \<Longrightarrow> shift_loop k (int n) = Inr (int (n * 10 ^ k))"
proof (induction k arbitrary: n)
  case (Suc k)
  have "n < 10 ^ 17"
    using Suc.prems ten_times[of n k 0] unfolding power_Suc by simp
  with Suc.IH[of "n * 10"] Suc.prems show ?case
    by (simp add: long_result_def algebra_simps)
qed simp

lemma dec_val_replicate: "dec_val (s @ replicate k (CHR ''0'')) = dec_val s * 10 ^ k"
  using dec_val_zeros[of k "[]"] by (simp add: dec_val_append)

lemma fraction_padded: "take 6 (s @ ''000000'') = take 6 s @ replicate (6 - length s) (CHR ''0'')"
proof -
  have "''000000'' = replicate 6 (CHR ''0'')"
    by (simp add: numeral_eq_Suc)
  then show ?thesis
    by simp
qed

lemma digit_signs: "\<not> is_digit (CHR ''.'')" "\<not> is_digit (CHR ''-'')"
  by (simp_all add: is_digit_def)

lemma unsigned_fixed_value:
  assumes "list_all is_digit ds" and "length ds \<le> 12" and "list_all is_digit fs"
  shows "bindE (decimal_loop (ds @ CHR ''.'' # fs) 0) (\<lambda>(v, s).
    bindE (if s \<noteq> [] \<and> hd s = CHR ''.'' then fraction_loop (tl s) v 6 else Inr (v, 6)) (\<lambda>(v, shift).
    bindE (shift_loop shift v) (\<lambda>v. Inr (f v))))
    = Inr (f (int (dec_val ds * 10 ^ 6 + dec_val (take 6 (fs @ ''000000'')))))"
proof -
  let ?f = "take 6 fs" and ?k = "length (take 6 fs)"
  have "dec_val ds < 10 ^ 12"
    using dec_val_bound[OF assms(1)] power_increasing[OF assms(2), of "10 :: nat"] by simp
  moreover have "list_all is_digit ?f"
    using assms(3) by (auto simp: list_all_iff dest: in_set_takeD)
  then have "dec_val ?f < 10 ^ ?k"
    by (rule dec_val_bound)
  ultimately have bound: "dec_val ds * 10 ^ ?k + dec_val ?f < 10 ^ 12 * 10 ^ ?k"
  proof -
    have "dec_val ds * 10 ^ ?k + 10 ^ ?k \<le> 10 ^ 12 * 10 ^ ?k"
      using mult_le_mono1[of "dec_val ds + 1" "10 ^ 12" "10 ^ ?k"] \<open>dec_val ds < 10 ^ 12\<close> by simp
    with \<open>dec_val ?f < 10 ^ ?k\<close> show ?thesis
      by linarith
  qed
  have le: "10 ^ 12 * 10 ^ ?k \<le> (10 ^ 18 :: nat)"
    using power_increasing[of "12 + ?k" 18 "10 :: nat"] by (simp add: power_add)
  have d: "decimal_loop (ds @ CHR ''.'' # fs) 0 = Inr (int (dec_val ds), CHR ''.'' # fs)"
    using decimal_loop_value[OF assms(1), of 0 "CHR ''.'' # fs"] \<open>dec_val ds < 10 ^ 12\<close> digit_signs by simp
  have f: "fraction_loop (?f @ drop 6 fs) (int (dec_val ds)) 6 = Inr (int (dec_val ds * 10 ^ ?k + dec_val ?f), 6 - ?k)"
    using fraction_loop_value[OF \<open>list_all is_digit ?f\<close>, of "dec_val ds" 6 "drop 6 fs"] bound le by (cases "length fs \<le> 6") (simp_all add: min_def)
  have s: "shift_loop (6 - ?k) (int (dec_val ds * 10 ^ ?k + dec_val ?f)) = Inr (int ((dec_val ds * 10 ^ ?k + dec_val ?f) * 10 ^ (6 - ?k)))"
  proof (rule shift_loop_value)
    have "(dec_val ds * 10 ^ ?k + dec_val ?f) * 10 ^ (6 - ?k) < 10 ^ 12 * 10 ^ ?k * 10 ^ (6 - ?k)"
      using bound by simp
    also have "\<dots> = 10 ^ 18"
      by (simp flip: power_add)
    finally show "(dec_val ds * 10 ^ ?k + dec_val ?f) * 10 ^ (6 - ?k) < 10 ^ 18" .
  qed
  have "10 ^ ?k * 10 ^ (6 - ?k) = (10 ^ 6 :: nat)"
    by (simp flip: power_add)
  then have "(dec_val ds * 10 ^ ?k + dec_val ?f) * 10 ^ (6 - ?k) = dec_val ds * 10 ^ 6 + dec_val (take 6 (fs @ ''000000''))"
    by (simp only: fraction_padded dec_val_replicate add_mult_distrib mult.assoc) (simp add: min_def)
  then show ?thesis
    using d f s by simp
qed

section \<open>Properties\<close>

text \<open>
  The variables of a peer are those of a list of items each of which ends in a comma, without the white
  space in front of their names, the last value for each name; what follows the last comma is lost, so
  a list written with commas between its items loses the last of them.
\<close>

lemma peer_variables_parsed:
  assumes "response_text_payload m = Some (Inr (concat (map (\<lambda>x. item_text x @ '','') xs) @ rest))"
    and "list_all item_ok xs" and "CHR '','' \<notin> set rest" and "m 0 = Some d"
  shows "ntp_peer m = Inr \<lparr>peer_associd = dg_associd d, peer_status = dg_status d,
    peer_variables = map_of (rev (map snd xs))\<rparr>"
  using assms by (simp add: ntp_peer_def response_associd_def response_status_def or_endless_def peer_loop_items)

lemma peer_variables_parsed_witness:
  "map_option peer_variables (case ntp_peer [0 \<mapsto> [0x16, 0x82, 0, 1, 0, 0, 0, 7, 0, 0, 0, 9] @ map octet_of_char ''a=1, b=22'']
     of Inl e \<Rightarrow> None | Inr p \<Rightarrow> Some p) = Some [''a'' \<mapsto> ''1'']"
proof -
  let ?m = "[0 \<mapsto> [0x16, 0x82, 0, 1, 0, 0, 0, 7, 0, 0, 0, 9] @ map octet_of_char ''a=1, b=22''] :: ntp_response"
  have t: "response_text_payload ?m = Some (Inr (concat (map (\<lambda>x. item_text x @ '','') [([], ''a'', ''1'')]) @ '' b=22''))"
    unfolding response_text_payload_def by (subst text_loop.simps) (simp add: dg_payload_def dg_count_def dg_more_def)
  show ?thesis
    using peer_variables_parsed[OF t, of "the (?m 0)"] by (simp add: is_space_def)
qed

text \<open>
  The value of a decimal number with up to twelve digits before the point is the number of millionths,
  rounded towards zero, with its sign.
\<close>

lemma fixed_value_decimal:
  assumes "list_all is_digit ds" and "length ds \<le> 12" and "list_all is_digit fs"
  shows "fixed_value (ds @ CHR ''.'' # fs) = Inr (int (dec_val ds * 10 ^ 6 + dec_val (take 6 (fs @ ''000000''))))
    \<and> fixed_value (CHR ''-'' # ds @ CHR ''.'' # fs) = Inr (- int (dec_val ds * 10 ^ 6 + dec_val (take 6 (fs @ ''000000''))))"
proof -
  have "sign_of (ds @ CHR ''.'' # fs) = (False, ds @ CHR ''.'' # fs)"
    using assms(1) digit_signs by (cases ds) (auto simp: sign_of_def)
  moreover have "sign_of (CHR ''-'' # ds @ CHR ''.'' # fs) = (True, ds @ CHR ''.'' # fs)"
    by (simp add: sign_of_def)
  ultimately show ?thesis
    using unsigned_fixed_value[OF assms, of id] unsigned_fixed_value[OF assms, of uminus] by (simp add: fixed_value_def)
qed

lemma fixed_value_decimal_witness: "fixed_value ''-1.5'' = Inr (- 1500000)"
  using fixed_value_decimal[of "''1''" "''5''"] by (simp add: is_digit_def digit_val_def dec_val_def)

end
