(* ===== verification/Ntp_Client.thy ===== *)
theory Ntp_Client
  imports Ntp_Peer
begin

text \<open>
  The NTP client (\<^verbatim>\<open>endpoints/clock/ntp_client.cc\<close>): the request for the list of associations, the requests
  for their variables with the responses to them, and the attributes made of what was received. The
  lemmas give the invariant of the client whatever arrives from the network, and what becomes of it if
  nothing arrives.
\<close>

section \<open>State\<close>

text \<open>
  \<open>nc_incoming\<close> is what the calls of \<^verbatim>\<open>wait\<close> and \<^verbatim>\<open>recv\<close> will give together: nothing within the time
  limit, a datagram, or an exception; nothing more once it is used up. \<open>nc_send_results\<close> is the
  same for \<^verbatim>\<open>send\<close>, and \<open>nc_sent\<close> is what was sent. \<open>nc_peers\<close> is in the order of its keys; its
  value is \<open>None\<close> for a null pointer.
\<close>

datatype net_event = Silence | Received octets | Net_Error exn

record ntp_client =
  nc_seqnum :: u16
  nc_requests :: "u16 \<rightharpoonup> ntp_datagram"
  nc_responses :: "u16 \<rightharpoonup> ntp_response"
  nc_peers :: "(u16 \<times> ntp_peer option) list"
  nc_incoming :: "net_event list"
  nc_send_results :: "exn option list"
  nc_sent :: "ntp_datagram list"

definition ntp_client_init :: "net_event list \<Rightarrow> exn option list \<Rightarrow> ntp_client" where
  "ntp_client_init incoming results =
     \<lparr>nc_seqnum = 1, nc_requests = Map.empty, nc_responses = Map.empty, nc_peers = [],
      nc_incoming = incoming, nc_send_results = results, nc_sent = []\<rparr>"

definition nc_send :: "ntp_datagram \<Rightarrow> (ntp_client, unit) act" where
  "nc_send d c =
     (case nc_send_results c of
        [] \<Rightarrow> (Inr (), c\<lparr>nc_sent := nc_sent c @ [d]\<rparr>)
      | None # es \<Rightarrow> (Inr (), c\<lparr>nc_send_results := es, nc_sent := nc_sent c @ [d]\<rparr>)
      | Some e # es \<Rightarrow> (Inl e, c\<lparr>nc_send_results := es\<rparr>))"

text \<open>
  The buffer has 4096 octets.
\<close>

definition nc_recv :: "(ntp_client, ntp_datagram option) act" where
  "nc_recv c =
     (case nc_incoming c of
        [] \<Rightarrow> (Inr None, c)
      | Silence # es \<Rightarrow> (Inr None, c\<lparr>nc_incoming := es\<rparr>)
      | Net_Error e # es \<Rightarrow> (Inl e, c\<lparr>nc_incoming := es\<rparr>)
      | Received content # es \<Rightarrow>
          (bindE (ntp_datagram (take 4096 content)) (\<lambda>d. Inr (Some d)), c\<lparr>nc_incoming := es\<rparr>))"

section \<open>One association\<close>

text \<open>
  Assignment to a member of a \<^verbatim>\<open>std::map\<close>.
\<close>

fun map_assign :: "'k::linorder \<Rightarrow> 'v \<Rightarrow> ('k \<times> 'v) list \<Rightarrow> ('k \<times> 'v) list" where
  "map_assign k v [] = [(k, v)]"
| "map_assign k v ((j, w) # xs) =
     (if k < j then (k, v) # (j, w) # xs else if k = j then (k, v) # xs else (j, w) # map_assign k v xs)"

definition complete_result :: "ntp_response \<Rightarrow> bool result" where
  "complete_result m = or_endless (map_option Inr (response_complete m))"

definition handle_fragment :: "ntp_datagram \<Rightarrow> (ntp_client, unit) act" where
  "handle_fragment d c =
     (case (nc_requests c (dg_seqnum d), nc_responses c (dg_seqnum d)) of
        (Some request, Some m) \<Rightarrow>
          (if responds_to d request then
             (let m' = response_add d m; c1 = c\<lparr>nc_responses := (nc_responses c)(dg_seqnum d \<mapsto> m')\<rparr> in
              case complete_result m' of
                Inl e \<Rightarrow> (Inl e, c1)
              | Inr False \<Rightarrow> (Inr (), c1)
              | Inr True \<Rightarrow>
                  (case ntp_peer m' of
                     Inl e \<Rightarrow> (Inl e, c1)
                   | Inr p \<Rightarrow> (Inr (), c1\<lparr>nc_peers := map_assign (dg_associd request) (Some p) (nc_peers c1)\<rparr>)))
           else (Inr (), c))
      | _ \<Rightarrow> (Inr (), c))"

lemma handle_fragment_incoming: "nc_incoming (snd (handle_fragment d c)) = nc_incoming c"
  by (auto simp: handle_fragment_def Let_def split: option.splits sum.splits bool.splits)

lemma nc_recv_shrinks: "nc_recv c = (Inr (Some d), c') \<Longrightarrow> length (nc_incoming c') < length (nc_incoming c)"
  by (auto simp: nc_recv_def split: list.splits net_event.splits)

lemma handle_fragment_shrinks:
  "(Inr (Some d), c1) = nc_recv c \<Longrightarrow> (r, c2) = handle_fragment d c1 \<Longrightarrow> length (nc_incoming c2) < length (nc_incoming c)"
  using handle_fragment_incoming[of d c1] nc_recv_shrinks[of c d c1] by (cases "handle_fragment d c1") simp

function receive_loop :: "u16 \<Rightarrow> (ntp_client, unit) act" where
  "receive_loop seqnum c =
     (case nc_responses c seqnum of
        None \<Rightarrow> (Inl (Undefined_Behaviour ''null pointer''), c)
      | Some m \<Rightarrow>
          (case complete_result m of
             Inl e \<Rightarrow> (Inl e, c)
           | Inr True \<Rightarrow> (Inr (), c)
           | Inr False \<Rightarrow>
               (case nc_recv c of
                  (Inl e, c1) \<Rightarrow> (Inl e, c1)
                | (Inr None, c1) \<Rightarrow> (Inr (), c1)
                | (Inr (Some d), c1) \<Rightarrow>
                    (case handle_fragment d c1 of
                       (Inl e, c2) \<Rightarrow> (Inl e, c2)
                     | (Inr _, c2) \<Rightarrow> receive_loop seqnum c2))))"
  by pat_completeness auto
termination
  by (relation "measure (\<lambda>(seqnum, c). length (nc_incoming c))") (auto dest: handle_fragment_shrinks)

declare receive_loop.simps [simp del]

definition update_peer :: "u16 \<Rightarrow> (ntp_client, unit) act" where
  "update_peer associd c =
     (let seqnum = nc_seqnum c; request = ntp_request 2 seqnum associd in
      seqS (modifyS (\<lambda>c. c\<lparr>nc_seqnum := seqnum + 1, nc_requests := (nc_requests c)(seqnum \<mapsto> request),
              nc_responses := (nc_responses c)(seqnum \<mapsto> Map.empty)\<rparr>))
     (seqS (nc_send request)
           (receive_loop seqnum)) c)"

section \<open>All associations\<close>

fun request_list :: "nat \<Rightarrow> ntp_datagram \<Rightarrow> (ntp_client, ntp_datagram option) act" where
  "request_list 0 request = returnS None"
| "request_list (Suc retries) request =
     seqS (nc_send request)
    (bindS nc_recv (\<lambda>response.
       case response of
         Some d \<Rightarrow> returnS (Some d)
       | None \<Rightarrow> request_list retries request))"

text \<open>
  The payload holds four octets for each association. The octet one past the end of a
  \<^verbatim>\<open>std::basic_string\<close> is zero; further ones must not be read.
\<close>

fun list_peers :: "octets \<Rightarrow> (u16 \<times> ntp_peer option) list \<Rightarrow> (u16 \<times> ntp_peer option) list result" where
  "list_peers (a # b # c # d # bs) ps = list_peers bs (map_assign (be16 a b) None ps)"
| "list_peers [a, b, c] ps = Inr (map_assign (be16 a b) None ps)"
| "list_peers [] ps = Inr ps"
| "list_peers _ ps = Inl (Undefined_Behaviour ''octet past the end'')"

definition peer_known :: "u16 \<Rightarrow> ntp_client \<Rightarrow> bool" where
  "peer_known k c \<longleftrightarrow> (case map_of (nc_peers c) k of Some (Some p) \<Rightarrow> True | _ \<Rightarrow> False)"

lemma peer_known_iff: "peer_known k c \<longleftrightarrow> (\<exists>p. map_of (nc_peers c) k = Some (Some p))"
  by (auto simp: peer_known_def split: option.splits)

definition next_key :: "u16 \<Rightarrow> (u16 \<times> 'v) list \<Rightarrow> u16 option" where
  "next_key k ps = (case dropWhile (\<lambda>(j, v). j \<le> k) ps of [] \<Rightarrow> None | (j, v) # _ \<Rightarrow> Some j)"

lemma next_key_less: "next_key k ps = Some j \<Longrightarrow> k < j"
  by (auto simp: next_key_def split: list.splits dest: hd_dropWhile[of _ ps, simplified] intro: leI)
    (metis (mono_tags, lifting) case_prod_conv hd_dropWhile leI list.distinct(1) list.sel(1))

lemma next_key_decreases: "next_key k ps = Some j \<Longrightarrow> 65536 - unat j < 65536 - unat k"
  using next_key_less[of k ps j] unsigned_less[of j, where ?'a = nat] by (simp add: word_less_nat_alt)

text \<open>
  \<open>visit_peers k missing\<close> is the loop over the peers from the one with key \<open>k\<close>.
\<close>

function visit_peers :: "u16 \<Rightarrow> nat \<Rightarrow> (ntp_client, nat) act" where
  "visit_peers k missing c =
     (case (if peer_known k c then (Inr (), c) else update_peer k c) of
        (Inl e, c1) \<Rightarrow> (Inl e, c1)
      | (Inr _, c1) \<Rightarrow>
          (let missing' = (if peer_known k c1 then missing else missing + 1) in
           case next_key k (nc_peers c1) of
             None \<Rightarrow> (Inr missing', c1)
           | Some j \<Rightarrow> visit_peers j missing' c1))"
  by pat_completeness auto
termination
  by (relation "measure (\<lambda>(k, missing, c). 65536 - unat k)") (auto dest: next_key_decreases)

declare visit_peers.simps [simp del]

definition visit_all :: "(ntp_client, nat) act" where
  "visit_all c = (case nc_peers c of [] \<Rightarrow> (Inr 0, c) | (k, _) # _ \<Rightarrow> visit_peers k 0 c)"

fun visit_rounds :: "nat \<Rightarrow> nat \<Rightarrow> (ntp_client, nat) act" where
  "visit_rounds 0 missing = returnS missing"
| "visit_rounds (Suc n) missing = bindS visit_all (\<lambda>missing. if missing = 0 then returnS missing else visit_rounds n missing)"

definition clear_peers :: "ntp_client \<Rightarrow> ntp_client" where
  "clear_peers c = c\<lparr>nc_requests := Map.empty, nc_responses := Map.empty, nc_peers := map_assign 0 None []\<rparr>"

definition update_peers :: "(ntp_client, bool) act" where
  "update_peers =
     seqS (modifyS clear_peers)
    (bindS (getS nc_seqnum) (\<lambda>seqnum.
     seqS (modifyS (\<lambda>c. c\<lparr>nc_seqnum := seqnum + 1\<rparr>))
    (bindS (request_list 5 (ntp_request 1 seqnum 0)) (\<lambda>response.
     seqS (case response of
             None \<Rightarrow> returnS ()
           | Some d \<Rightarrow> (\<lambda>c. case list_peers (dg_payload d) (nc_peers c) of
                 Inl e \<Rightarrow> (Inl e, c)
               | Inr ps \<Rightarrow> (Inr (), c\<lparr>nc_peers := ps\<rparr>)))
    (bindS (visit_rounds 3 0) (\<lambda>missing. returnS (missing = 0)))))))"

section \<open>Attributes\<close>

record ntp_attr_builder =
  nb_ntp :: i32
  nb_attrs :: "attribute list"

definition ntp_attr_builder_init :: "(session_builder, ntp_attr_builder) act" where
  "ntp_attr_builder_init =
     bindS (define_attribute ''ntp'' type_compound) (\<lambda>ntp. returnS \<lparr>nb_ntp = ntp, nb_attrs = []\<rparr>)"

definition add_assoc_attr :: "attribute \<Rightarrow> ntp_attr_builder \<Rightarrow> ntp_attr_builder" where
  "add_assoc_attr a b = b\<lparr>nb_attrs := attr_insert a (nb_attrs b)\<rparr>"

definition nb_build :: "ntp_attr_builder \<Rightarrow> attribute \<times> ntp_attr_builder" where
  "nb_build b = (Compound (nb_ntp b) (nb_attrs b), b\<lparr>nb_attrs := []\<rparr>)"

type_synonym ntp_builders = "ntp_attr_builder \<times> ntp_assoc_attr_builder"

definition on_assoc :: "(ntp_assoc_attr_builder, 'a) act \<Rightarrow> (ntp_builders, 'a) act" where
  "on_assoc m bs = (case m (snd bs) of (r, na) \<Rightarrow> (r, (fst bs, na)))"

definition add_assoc :: "ntp_builders \<Rightarrow> ntp_builders" where
  "add_assoc bs = (case na_build (snd bs) of (a, na) \<Rightarrow> (add_assoc_attr a (fst bs), na))"

fun build_peers :: "(u16 \<times> ntp_peer option) list \<Rightarrow> (ntp_builders, unit) act" where
  "build_peers [] = returnS ()"
| "build_peers ((k, None) # ps) = throwS (Undefined_Behaviour ''null pointer'')"
| "build_peers ((k, Some p) # ps) = seqS (on_assoc (peer_build p)) (seqS (modifyS add_assoc) (build_peers ps))"

definition nc_build :: "ntp_client \<Rightarrow> (ntp_builders, unit) act" where
  "nc_build c = build_peers (nc_peers c)"

section \<open>The map of peers\<close>

abbreviation keys :: "('k \<times> 'v) list \<Rightarrow> 'k list" where
  "keys ps \<equiv> map fst ps"

lemma map_assign_keys: "fst ` set (map_assign k v ps) = insert k (fst ` set ps)"
  by (induction k v ps rule: map_assign.induct) auto

lemma map_assign_sorted: "sorted_wrt (<) (keys ps) \<Longrightarrow> sorted_wrt (<) (keys (map_assign k v ps))"
proof (induction k v ps rule: map_assign.induct)
  case (2 k v j w xs)
  then have "\<forall>x \<in> fst ` set xs. j < x"
    by simp
  with 2 show ?case
    by (auto simp: map_assign_keys ball_simps(9)[symmetric] simp del: ball_simps dest: order_less_trans)
qed simp

lemma map_assign_lookup: "sorted_wrt (<) (keys ps) \<Longrightarrow> map_of (map_assign k v ps) = (map_of ps)(k \<mapsto> v)"
  by (induction k v ps rule: map_assign.induct) (auto simp: fun_eq_iff)

lemma map_assign_same_keys: "sorted_wrt (<) (keys ps) \<Longrightarrow> k \<in> set (keys ps) \<Longrightarrow> keys (map_assign k v ps) = keys ps"
  by (induction k v ps rule: map_assign.induct) auto

lemma next_key_None: "sorted_wrt (<) (keys ps) \<Longrightarrow> next_key k ps = None \<Longrightarrow> j \<in> set (keys ps) \<Longrightarrow> j \<le> k"
  by (induction ps) (auto simp: next_key_def split: if_splits list.splits)

lemma next_key_Some:
  "sorted_wrt (<) (keys ps) \<Longrightarrow> next_key k ps = Some i \<Longrightarrow>
   i \<in> set (keys ps) \<and> (\<forall>j\<in>set (keys ps). k < j \<longrightarrow> i \<le> j)"
  by (induction ps) (auto simp: next_key_def split: if_splits list.splits)

section \<open>The invariant of the client\<close>

lemma be16_octets: "be16 (ucast (drop_bit 8 v AND 0xff)) (ucast (v AND 0xff)) = v"
  unfolding be16_def by (intro bit_word_eqI) (auto simp: bit_simps mask_bits)

lemma request_fields [simp]:
  "dg_associd (ntp_request opcode seqnum associd) = associd"
  "dg_seqnum (ntp_request opcode seqnum associd) = seqnum"
  by (simp_all add: ntp_request_def dg_associd_def dg_seqnum_def be16_octets)

text \<open>
  Requests are about associations of the list, the fragments of a response are about the
  association of the request, and a peer that is known is the one of its key.
\<close>

definition client_ok :: "ntp_client \<Rightarrow> bool" where
  "client_ok c \<longleftrightarrow> sorted_wrt (<) (keys (nc_peers c))
     \<and> (\<forall>s r. nc_requests c s = Some r \<longrightarrow> dg_associd r \<in> set (keys (nc_peers c)))
     \<and> (\<forall>s m. nc_responses c s = Some m \<longrightarrow>
          (\<exists>r. nc_requests c s = Some r \<and> (\<forall>d \<in> ran m. dg_associd d = dg_associd r)))
     \<and> (\<forall>k p. map_of (nc_peers c) k = Some (Some p) \<longrightarrow> peer_associd p = k)"

definition advances :: "ntp_client \<Rightarrow> ntp_client \<Rightarrow> bool" where
  "advances c c' \<longleftrightarrow> (client_ok c \<longrightarrow> client_ok c' \<and> keys (nc_peers c') = keys (nc_peers c)
     \<and> (\<forall>k. peer_known k c \<longrightarrow> peer_known k c'))"

lemma advances_refl [simp, intro]: "advances c c"
  by (simp add: advances_def)

lemma advances_trans: "advances c c1 \<Longrightarrow> advances c1 c2 \<Longrightarrow> advances c c2"
  by (auto simp: advances_def)

lemma advances_same:
  "nc_peers c' = nc_peers c \<Longrightarrow> nc_requests c' = nc_requests c \<Longrightarrow> nc_responses c' = nc_responses c \<Longrightarrow> advances c c'"
  by (simp add: advances_def client_ok_def peer_known_def)

lemma nc_send_advances: "advances c (snd (nc_send d c))"
  by (auto simp: nc_send_def split: list.split option.split intro!: advances_same)

lemma nc_recv_advances: "advances c (snd (nc_recv c))"
  by (auto simp: nc_recv_def split: list.split net_event.split intro!: advances_same)

lemma handle_fragment_known:
  assumes "client_ok c" and "nc_requests c (dg_seqnum d) = Some request" and "nc_responses c (dg_seqnum d) = Some m"
    and "responds_to d request"
  shows "advances c (c\<lparr>nc_responses := (nc_responses c)(dg_seqnum d \<mapsto> response_add d m)\<rparr>)"
    and "ntp_peer (response_add d m) = Inr p \<Longrightarrow> peer_associd p = dg_associd request"
proof -
  have d: "dg_associd d = dg_associd request"
    using assms(4) by (simp add: responds_to_def split: if_splits)
  have m: "\<forall>e \<in> ran m. dg_associd e = dg_associd request"
    using assms(1-3) unfolding client_ok_def by (metis option.inject)
  have "\<forall>e \<in> ran (response_add d m). dg_associd e = dg_associd request"
    using d m by (auto simp: response_add_def ran_def split: if_splits)
  then show "advances c (c\<lparr>nc_responses := (nc_responses c)(dg_seqnum d \<mapsto> response_add d m)\<rparr>)"
    and "ntp_peer (response_add d m) = Inr p \<Longrightarrow> peer_associd p = dg_associd request"
    using assms(2) by (auto simp: advances_def client_ok_def peer_known_def ntp_peer_def response_associd_def
        ranI split: option.splits)
qed

lemma peer_assigned_advances:
  assumes "peer_associd p = k" and "k \<in> set (keys (nc_peers c))"
  shows "advances c (c\<lparr>nc_peers := map_assign k (Some p) (nc_peers c)\<rparr>)"
  using assms by (auto simp: advances_def client_ok_def peer_known_def map_assign_same_keys map_assign_lookup)

lemma handle_fragment_advances: "advances c (snd (handle_fragment d c))"
proof (cases "client_ok c")
  case True
  show ?thesis
  proof (cases "\<exists>request m. nc_requests c (dg_seqnum d) = Some request \<and> nc_responses c (dg_seqnum d) = Some m \<and> responds_to d request")
    case True
    then obtain request m where r: "nc_requests c (dg_seqnum d) = Some request" "nc_responses c (dg_seqnum d) = Some m"
      and "responds_to d request"
      by blast
    note known = handle_fragment_known[OF \<open>client_ok c\<close> this]
    let ?c = "c\<lparr>nc_responses := (nc_responses c)(dg_seqnum d \<mapsto> response_add d m)\<rparr>"
    have "dg_associd request \<in> set (keys (nc_peers ?c))"
      using \<open>client_ok c\<close> r(1) by (simp add: client_ok_def)
    then have "ntp_peer (response_add d m) = Inr p \<Longrightarrow>
        advances c (?c\<lparr>nc_peers := map_assign (dg_associd request) (Some p) (nc_peers ?c)\<rparr>)" for p
      using advances_trans[OF known(1) peer_assigned_advances] known(2) by blast
    with known(1) r \<open>responds_to d request\<close> show ?thesis
      by (simp add: handle_fragment_def Let_def split: sum.split bool.split)
  next
    case False
    then have "snd (handle_fragment d c) = c"
      by (auto simp: handle_fragment_def split: option.split)
    then show ?thesis
      by simp
  qed
qed (simp add: advances_def)

lemma receive_loop_advances: "advances c (snd (receive_loop seqnum c))"
proof (induction seqnum c rule: receive_loop.induct)
  case (1 seqnum c)
  obtain r c1 where recv: "nc_recv c = (r, c1)"
    by (cases "nc_recv c")
  then have a: "advances c c1"
    using nc_recv_advances[of c] by simp
  show ?case
  proof (cases "nc_responses c seqnum = None \<or> complete_result (the (nc_responses c seqnum)) \<noteq> Inr False")
    case True
    then show ?thesis
      by (subst receive_loop.simps) (auto split: option.split sum.split bool.split)
  next
    case False
    then obtain m where m: "nc_responses c seqnum = Some m" "complete_result m = Inr False"
      by auto
    show ?thesis
    proof (cases r)
      case (Inr o')
      show ?thesis
      proof (cases o')
        case (Some d)
        obtain r2 c2 where h: "handle_fragment d c1 = (r2, c2)"
          by (cases "handle_fragment d c1")
        then have a2: "advances c c2"
          using advances_trans[OF a] handle_fragment_advances[of c1 d] by simp
        show ?thesis
        proof (cases r2)
          case (Inr u)
          have "advances c2 (snd (receive_loop seqnum c2))"
            using "1.IH"[OF m refl recv[symmetric] \<open>r = Inr o'\<close> Some h[symmetric] Inr] by simp
          then show ?thesis
            using m recv \<open>r = Inr o'\<close> Some h Inr advances_trans[OF a2] by (subst receive_loop.simps) simp
        qed (use m recv \<open>r = Inr o'\<close> Some h a2 in \<open>subst receive_loop.simps, simp\<close>)
      qed (use m recv Inr a in \<open>subst receive_loop.simps, simp\<close>)
    qed (use m recv a in \<open>subst receive_loop.simps, simp\<close>)
  qed
qed

lemma update_peer_advances:
  assumes "k \<in> set (keys (nc_peers c))"
  shows "advances c (snd (update_peer k c))"
proof -
  let ?s = "nc_seqnum c"
  let ?c = "c\<lparr>nc_seqnum := ?s + 1, nc_requests := (nc_requests c)(?s \<mapsto> ntp_request 2 ?s k),
    nc_responses := (nc_responses c)(?s \<mapsto> Map.empty)\<rparr>"
  have a: "advances c ?c"
    using assms by (auto simp: advances_def client_ok_def peer_known_def split: if_splits)
  obtain r c1 where send: "nc_send (ntp_request 2 ?s k) ?c = (r, c1)"
    by (cases "nc_send (ntp_request 2 ?s k) ?c")
  then have a1: "advances c c1"
    using advances_trans[OF a] nc_send_advances[of ?c] by (metis snd_conv)
  show ?thesis
    using send a1 advances_trans[OF a1 receive_loop_advances[of c1 ?s]]
    by (cases r) (simp_all add: update_peer_def Let_def act_simps)
qed

section \<open>Visiting the peers\<close>

lemma visit_peers_advances:
  "k \<in> set (keys (nc_peers c)) \<Longrightarrow> client_ok c \<Longrightarrow> advances c (snd (visit_peers k missing c))
    \<and> (\<forall>n c'. visit_peers k missing c = (Inr n, c') \<longrightarrow> missing \<le> n
        \<and> (n = 0 \<longrightarrow> (\<forall>j\<in>set (keys (nc_peers c)). k \<le> j \<longrightarrow> peer_known j c')))"
proof (induction k missing c rule: visit_peers.induct)
  case (1 k missing c)
  obtain r c1 where r: "(if peer_known k c then (Inr (), c) else update_peer k c) = (r, c1)"
    by fastforce
  then have a: "advances c c1"
    using update_peer_advances[OF "1.prems"(1)] by (metis advances_refl snd_conv)
  with "1.prems"(2) have c1: "client_ok c1" "keys (nc_peers c1) = keys (nc_peers c)"
    by (simp_all add: advances_def)
  then have sorted: "sorted_wrt (<) (keys (nc_peers c1))"
    by (simp add: client_ok_def)
  show ?case
  proof (cases r)
    case (Inl e)
    with r have "visit_peers k missing c = (Inl e, c1)"
      by (subst visit_peers.simps) simp
    with a show ?thesis
      by simp
  next
    case (Inr u)
    let ?m = "if peer_known k c1 then missing else missing + 1"
    show ?thesis
    proof (cases "next_key k (nc_peers c1)")
      case None
      then have le: "j \<le> k" if "j \<in> set (keys (nc_peers c))" for j
        using next_key_None[OF sorted _, of k j] c1(2) that by simp
      have v: "visit_peers k missing c = (Inr ?m, c1)"
        using r Inr None by (subst visit_peers.simps) (simp add: Let_def)
      have "missing \<le> ?m"
        by simp
      moreover have "peer_known j c1" if "?m = 0" "j \<in> set (keys (nc_peers c))" "k \<le> j" for j
        using that le[of j] by (cases "j = k") (simp_all split: if_splits)
      ultimately show ?thesis
        using a unfolding v snd_conv prod.inject sum.inject by blast
    next
      case (Some j)
      have j: "j \<in> set (keys (nc_peers c))" "\<forall>i\<in>set (keys (nc_peers c)). k < i \<longrightarrow> j \<le> i"
        using next_key_Some[OF sorted Some] c1(2) by simp_all
      have eq: "visit_peers k missing c = visit_peers j ?m c1"
        using r Inr Some by (subst visit_peers.simps) (simp add: Let_def)
      from "1.IH"[OF r[symmetric] Inr refl Some] c1 j(1)
      have IH: "advances c1 (snd (visit_peers j ?m c1))"
        "\<And>n c'. visit_peers j ?m c1 = (Inr n, c') \<Longrightarrow> ?m \<le> n \<and> (n = 0 \<longrightarrow> (\<forall>i\<in>set (keys (nc_peers c)). j \<le> i \<longrightarrow> peer_known i c'))"
        by auto
      have "missing \<le> n \<and> (n = 0 \<longrightarrow> (\<forall>i\<in>set (keys (nc_peers c)). k \<le> i \<longrightarrow> peer_known i c'))"
        if v: "visit_peers j ?m c1 = (Inr n, c')" for n c'
      proof -
        have le: "?m \<le> n" and later: "n = 0 \<Longrightarrow> i \<in> set (keys (nc_peers c)) \<Longrightarrow> j \<le> i \<Longrightarrow> peer_known i c'" for i
          using IH(2)[OF v] by blast+
        have "peer_known k c1 \<Longrightarrow> peer_known k c'"
          using IH(1) c1(1) v by (simp add: advances_def)
        with le have first: "n = 0 \<Longrightarrow> peer_known k c'"
          by (simp split: if_splits)
        have "peer_known i c'" if "n = 0" "i \<in> set (keys (nc_peers c))" "k \<le> i" for i
        proof (cases "i = k")
          case False
          with that have "k < i"
            by simp
          with that j(2) have "j \<le> i"
            by blast
          with that later show ?thesis
            by blast
        qed (use first that(1) in simp)
        moreover have "missing \<le> n"
          using le by (simp split: if_splits)
        ultimately show ?thesis
          by blast
      qed
      with advances_trans[OF a IH(1)] show ?thesis
        unfolding eq by blast
    qed
  qed
qed

lemma visit_all_ok:
  assumes "client_ok c"
  shows "advances c (snd (visit_all c))"
    and "visit_all c = (Inr 0, c') \<Longrightarrow> j \<in> set (keys (nc_peers c)) \<Longrightarrow> peer_known j c'"
proof -
  show "advances c (snd (visit_all c))"
    using assms visit_peers_advances[of _ c 0] by (auto simp: visit_all_def split: list.split)
  show "visit_all c = (Inr 0, c') \<Longrightarrow> j \<in> set (keys (nc_peers c)) \<Longrightarrow> peer_known j c'"
  proof (cases "nc_peers c")
    case (Cons x xs)
    assume v: "visit_all c = (Inr 0, c')" and j: "j \<in> set (keys (nc_peers c))"
    have "fst x \<le> j"
      using assms Cons j by (auto simp: client_ok_def less_imp_le)
    moreover have "visit_peers (fst x) 0 c = (Inr 0, c')"
      using v Cons by (simp add: visit_all_def split: prod.splits)
    ultimately show ?thesis
      using visit_peers_advances[of "fst x" c 0] assms j Cons by auto
  qed simp
qed

lemma visit_rounds_ok:
  "client_ok c \<Longrightarrow> advances c (snd (visit_rounds i m c))
    \<and> (\<forall>c' j. visit_rounds i m c = (Inr 0, c') \<longrightarrow> m \<noteq> 0 \<or> i \<noteq> 0 \<longrightarrow> j \<in> set (keys (nc_peers c)) \<longrightarrow> peer_known j c')"
proof (induction i arbitrary: m c)
  case (Suc i)
  obtain r c1 where v: "visit_all c = (r, c1)"
    by (cases "visit_all c")
  then have a: "advances c c1"
    using visit_all_ok(1)[OF Suc.prems] by simp
  with Suc.prems have c1: "client_ok c1" "keys (nc_peers c1) = keys (nc_peers c)"
    by (simp_all add: advances_def)
  show ?case
  proof (cases r)
    case (Inr n)
    show ?thesis
    proof (cases "n = 0")
      case True
      have known: "j \<in> set (keys (nc_peers c)) \<Longrightarrow> peer_known j c1" for j
        using visit_all_ok(2)[OF Suc.prems] v Inr True by blast
      have "visit_rounds (Suc i) m c = (Inr 0, c1)"
        using v Inr True by (simp add: act_simps)
      with a known show ?thesis
        by simp
    next
      case False
      then have eq: "visit_rounds (Suc i) m c = visit_rounds i n c1"
        using v Inr by (simp add: bindS_def)
      with Suc.IH[OF c1(1), of n] False c1(2) show ?thesis
        using advances_trans[OF a] by auto
    qed
  qed (use v a in \<open>simp add: act_simps\<close>)
qed (simp add: returnS_def)

section \<open>The cycle\<close>

abbreviation nulls :: "('k \<times> 'v option) list \<Rightarrow> bool" where
  "nulls ps \<equiv> list_all (\<lambda>x. snd x = None) ps"

lemma map_assign_None: "nulls ps \<Longrightarrow> nulls (map_assign k None ps)"
  by (induction ps) (auto split: if_splits)

lemma list_peers_keys:
  "list_peers bs ps = Inr qs \<Longrightarrow> sorted_wrt (<) (keys ps) \<Longrightarrow> nulls ps \<Longrightarrow>
   sorted_wrt (<) (keys qs) \<and> nulls qs \<and> fst ` set ps \<subseteq> fst ` set qs"
proof (induction bs ps rule: list_peers.induct)
  case (1 a b c d bs ps)
  have "fst ` set (map_assign (be16 a b) None ps) \<subseteq> fst ` set qs"
    "sorted_wrt (<) (keys qs)" "nulls qs"
    using "1.IH" "1.prems" by (simp_all add: map_assign_None map_assign_sorted)
  then show ?case
    by (simp add: map_assign_keys)
next
  case (2 a b c ps)
  then show ?case
    using map_assign_keys[of "be16 a b" None ps] by (auto simp: map_assign_None map_assign_sorted)
qed simp_all

lemma request_list_same:
  "nc_peers (snd (request_list n request c)) = nc_peers c
    \<and> nc_requests (snd (request_list n request c)) = nc_requests c
    \<and> nc_responses (snd (request_list n request c)) = nc_responses c"
proof (induction n arbitrary: c)
  case (Suc n)
  obtain r c1 where send: "nc_send request c = (r, c1)"
    by (cases "nc_send request c")
  obtain r2 c2 where recv: "nc_recv c1 = (r2, c2)"
    by (cases "nc_recv c1")
  have c1: "nc_peers c1 = nc_peers c" "nc_requests c1 = nc_requests c" "nc_responses c1 = nc_responses c"
    using send by (auto simp: nc_send_def split: list.splits option.splits)
  have c2: "nc_peers c2 = nc_peers c1" "nc_requests c2 = nc_requests c1" "nc_responses c2 = nc_responses c1"
    using recv by (auto simp: nc_recv_def split: list.splits net_event.splits)
  show ?case
    using send recv Suc.IH[of c2] c1 c2 by (auto simp: act_simps split: sum.split option.split)
qed (simp add: returnS_def)

section \<open>Properties\<close>

text \<open>
  C30: whatever arrives from the network, an update that ends normally leaves the peers in the order of
  their keys, with association zero among them, and each peer that is known is the one for its key; if
  the update reports success then all of them are known.
\<close>

theorem update_peers_result:
  assumes "update_peers c = (Inr b, c')"
  shows "sorted_wrt (<) (map fst (nc_peers c')) \<and> 0 \<in> set (map fst (nc_peers c'))
    \<and> (\<forall>k p. map_of (nc_peers c') k = Some (Some p) \<longrightarrow> peer_associd p = k)
    \<and> (b \<longrightarrow> (\<forall>k \<in> set (map fst (nc_peers c')). \<exists>p. map_of (nc_peers c') k = Some (Some p)))"
proof -
  let ?c0 = "clear_peers c"
  let ?c1 = "?c0\<lparr>nc_seqnum := nc_seqnum ?c0 + 1\<rparr>"
  let ?q = "ntp_request 1 (nc_seqnum ?c0) 0"
  obtain c2 r where r: "request_list 5 ?q ?c1 = (Inr r, c2)"
    using assms by (auto simp: update_peers_def act_simps split: prod.splits sum.splits)
  have c2: "nc_peers c2 = [(0, None)]" "nc_requests c2 = Map.empty" "nc_responses c2 = Map.empty"
    using request_list_same[of 5 ?q ?c1] r by (simp_all add: clear_peers_def)
  obtain ps where ps: "(case r of None \<Rightarrow> Inr (nc_peers c2) | Some d \<Rightarrow> list_peers (dg_payload d) (nc_peers c2)) = Inr ps"
    and n: "bindS (visit_rounds 3 0) (\<lambda>missing. returnS (missing = 0)) (c2\<lparr>nc_peers := ps\<rparr>) = (Inr b, c')"
    using assms r by (auto simp: update_peers_def act_simps split: option.splits sum.splits)
  let ?c3 = "c2\<lparr>nc_peers := ps\<rparr>"
  have keys: "sorted_wrt (<) (keys ps) \<and> nulls ps \<and> 0 \<in> fst ` set ps"
  proof (cases r)
    case None
    with ps c2(1) have "ps = [(0, None)]"
      by simp
    then show ?thesis
      by simp
  next
    case (Some d)
    with ps c2(1) have "list_peers (dg_payload d) [(0, None)] = Inr ps"
      by simp
    from list_peers_keys[OF this] show ?thesis
      by auto
  qed
  then have "map_of ps k \<noteq> Some (Some p)" for k p
    by (auto simp: list_all_iff dest!: map_of_SomeD)
  then have ok: "client_ok ?c3"
    using keys c2 by (simp add: client_ok_def)
  obtain m where m: "visit_rounds 3 0 ?c3 = (Inr m, c')" "b = (m = 0)"
    using n by (auto simp: bindS_Inr returnS_def)
  have a: "advances ?c3 c'"
    using visit_rounds_ok[OF ok, of 3 0] m(1) by simp
  then have "client_ok c'" "keys (nc_peers c') = keys ps"
    using ok by (simp_all add: advances_def)
  moreover have "peer_known k c'" if "b" "k \<in> set (keys ps)" for k
    using visit_rounds_ok[OF ok, of 3 0] m that by auto
  ultimately show ?thesis
    using keys unfolding client_ok_def peer_known_iff by simp
qed

text \<open>
  A server with one association, number seven, which answers every request.
\<close>

definition sample_client :: ntp_client where
  "sample_client = ntp_client_init
     [Received [0x16, 0x81, 0, 1, 0, 0, 0, 0, 0, 0, 0, 4, 0, 7, 0x96, 0x14],
      Received ([0x16, 0x82, 0, 2, 0x06, 0x18, 0, 0, 0, 0, 0, 10] @ map octet_of_char ''stratum=2,''),
      Received ([0x16, 0x82, 0, 3, 0x96, 0x14, 0, 7, 0, 0, 0, 9] @ map octet_of_char ''offset=1,'')] []"

lemma sample_update: "fst (update_peers sample_client) = Inr True"
  by code_simp

lemma sample_update_keys: "map fst (nc_peers (snd (update_peers sample_client))) = [0, 7]"
  by code_simp

lemma update_peers_result_witness:
  "\<exists>p. map_of (nc_peers (snd (update_peers sample_client))) 7 = Some (Some p) \<and> peer_associd p = 7"
proof -
  let ?c = "snd (update_peers sample_client)"
  have "(7 :: u16) \<in> set (map fst (nc_peers ?c))"
    unfolding sample_update_keys by simp
  then obtain p where "map_of (nc_peers ?c) 7 = Some (Some p)"
    using update_peers_result[OF run_result[OF sample_update]] by blast
  with update_peers_result[OF run_result[OF sample_update]] show ?thesis
    by blast
qed

section \<open>Silence\<close>

definition quiet :: "ntp_client \<Rightarrow> bool" where
  "quiet c \<longleftrightarrow> list_all (\<lambda>e. e = Silence) (nc_incoming c) \<and> list_all (\<lambda>e. e = None) (nc_send_results c)"

lemma quiet_send: "quiet c \<Longrightarrow> \<exists>c'. nc_send d c = (Inr (), c') \<and> quiet c' \<and> nc_peers c' = nc_peers c \<and> nc_responses c' = nc_responses c"
  by (auto simp: nc_send_def quiet_def split: list.split option.split)

lemma quiet_recv: "quiet c \<Longrightarrow> \<exists>c'. nc_recv c = (Inr None, c') \<and> quiet c' \<and> nc_peers c' = nc_peers c"
  by (auto simp: nc_recv_def quiet_def split: list.split net_event.split)

lemma complete_result_empty: "complete_result Map.empty = Inr False"
  unfolding complete_result_def response_complete_def by (subst complete_loop.simps) (simp add: or_endless_def)

lemma quiet_update_peer:
  assumes "quiet c"
  shows "\<exists>c'. update_peer k c = (Inr (), c') \<and> quiet c' \<and> nc_peers c' = nc_peers c"
proof -
  let ?s = "nc_seqnum c"
  let ?c = "c\<lparr>nc_seqnum := ?s + 1, nc_requests := (nc_requests c)(?s \<mapsto> ntp_request 2 ?s k),
    nc_responses := (nc_responses c)(?s \<mapsto> Map.empty)\<rparr>"
  have "quiet ?c"
    using assms by (simp add: quiet_def)
  from quiet_send[OF this, of "ntp_request 2 ?s k"] obtain c1 where c1: "nc_send (ntp_request 2 ?s k) ?c = (Inr (), c1)"
    "quiet c1" "nc_peers c1 = nc_peers c" "nc_responses c1 ?s = Some Map.empty"
    by auto
  from quiet_recv[OF c1(2)] obtain c2 where c2: "nc_recv c1 = (Inr None, c2)" "quiet c2" "nc_peers c2 = nc_peers c1"
    by blast
  have "receive_loop ?s c1 = (Inr (), c2)"
    using c1(4) c2(1) by (subst receive_loop.simps) (simp add: complete_result_empty)
  with c1 c2 show ?thesis
    by (simp add: update_peer_def Let_def act_simps)
qed

lemma quiet_request_list:
  "quiet c \<Longrightarrow> \<exists>c'. request_list n request c = (Inr None, c') \<and> quiet c' \<and> nc_peers c' = nc_peers c"
proof (induction n arbitrary: c)
  case (Suc n)
  from quiet_send[OF Suc.prems] obtain c1 where c1: "nc_send request c = (Inr (), c1)" "quiet c1" "nc_peers c1 = nc_peers c"
    by blast
  from quiet_recv[OF c1(2)] obtain c2 where c2: "nc_recv c1 = (Inr None, c2)" "quiet c2" "nc_peers c2 = nc_peers c1"
    by blast
  from Suc.IH[OF c2(2)] c1 c2 show ?case
    by (auto simp: act_simps)
qed (simp add: returnS_def)

lemma quiet_visit_rounds:
  assumes "quiet c" and "nc_peers c = [(0, None)]" and "i \<noteq> 0 \<or> m = 1"
  shows "\<exists>c'. visit_rounds i m c = (Inr 1, c') \<and> nc_peers c' = [(0, None)]"
  using assms
proof (induction i arbitrary: c m)
  case (Suc i)
  from quiet_update_peer[OF Suc.prems(1)] obtain c1 where c1: "update_peer 0 c = (Inr (), c1)" "quiet c1" "nc_peers c1 = nc_peers c"
    by blast
  have "visit_peers 0 0 c = (Inr 1, c1)"
    using Suc.prems(2) c1 by (subst visit_peers.simps) (simp add: peer_known_def next_key_def)
  then have "visit_rounds (Suc i) m c = visit_rounds i 1 c1"
    using Suc.prems(2) by (simp add: bindS_def visit_all_def)
  with Suc.IH[OF c1(2), of 1] Suc.prems(2) c1(3) show ?case
    by simp
qed (simp add: returnS_def)

lemma quiet_update_peers:
  assumes "quiet c"
  shows "\<exists>c'. update_peers c = (Inr False, c') \<and> nc_peers c' = [(0, None)]"
proof -
  let ?c0 = "clear_peers c"
  let ?c1 = "?c0\<lparr>nc_seqnum := nc_seqnum ?c0 + 1\<rparr>"
  have "quiet ?c1"
    using assms by (simp add: quiet_def clear_peers_def)
  from quiet_request_list[OF this, of 5 "ntp_request 1 (nc_seqnum ?c0) 0"] obtain c2
    where c2: "request_list 5 (ntp_request 1 (nc_seqnum ?c0) 0) ?c1 = (Inr None, c2)" "quiet c2" "nc_peers c2 = [(0, None)]"
    by (auto simp: clear_peers_def)
  from quiet_visit_rounds[OF c2(2,3), of 3] obtain c3
    where c3: "visit_rounds 3 0 c2 = (Inr 1, c3)" "nc_peers c3 = [(0, None)]"
    by auto
  have "update_peers c = (Inr False, c3)"
    using c2(1) c3(1) by (simp add: update_peers_def act_simps)
  with c3(2) show ?thesis
    by blast
qed

end
