(* ===== verification/Local_Timezone.thy ===== *)
theory Local_Timezone
  imports Prelude "HOL-Library.Signed_Division"
begin

text \<open>
  The offset of local time from UTC (\<^verbatim>\<open>endpoints/clock/local_timezone.cc\<close>), with \<^verbatim>\<open>int\<close> arithmetic and its
  overflow. The lemmas relate the closed formula to the calendar, counted year by year.
\<close>

section \<open>The code\<close>

text \<open>
  The fields of \<^verbatim>\<open>struct tm\<close> that are used; \<^verbatim>\<open>tm_year\<close> counts from 1900.
\<close>

record tm =
  tm_sec :: int
  tm_min :: int
  tm_hour :: int
  tm_yday :: int
  tm_year :: int

text \<open>
  Each product is an \<^verbatim>\<open>int\<close>; the sum has type \<^verbatim>\<open>time_t\<close>, for which eight values of type \<^verbatim>\<open>int\<close> are too small
  to overflow. Division truncates. Adding to or subtracting from \<^verbatim>\<open>tm_year\<close> may overflow as well.
\<close>

definition init_tzoffset :: "int \<Rightarrow> tm \<Rightarrow> int result" where
  "init_tzoffset t tm =
     bindE (int_result (tm_min tm * 60)) (\<lambda>m.
     bindE (int_result (tm_hour tm * 3600)) (\<lambda>h.
     bindE (int_result (tm_yday tm * 86400)) (\<lambda>d.
     bindE (bindE (int_result (tm_year tm - 70)) (\<lambda>y. int_result (y * 31536000))) (\<lambda>y.
     bindE (bindE (int_result (tm_year tm - 69)) (\<lambda>y. int_result ((y sdiv 4) * 86400))) (\<lambda>y4.
     bindE (bindE (int_result (tm_year tm - 1)) (\<lambda>y. int_result ((y sdiv 100) * 86400))) (\<lambda>y100.
     bindE (bindE (int_result (tm_year tm + 299)) (\<lambda>y. int_result ((y sdiv 400) * 86400))) (\<lambda>y400.
       let lt = tm_sec tm + m + h + d + y + y4 - y100 + y400 in
       if t \<le> lt then long_result (lt - t)
       else bindE (long_result (t - lt)) (\<lambda>diff. Inr (- diff)))))))))"

text \<open>
  The abbreviation is what \<^verbatim>\<open>strftime\<close> writes; the name is the part after \<^verbatim>\<open>/zoneinfo/\<close> of the target of a
  symbolic link, of which \<^verbatim>\<open>readlink\<close> returns as much as fits into \<^verbatim>\<open>PATH_MAX\<close> characters.
\<close>

definition zoneinfo :: string where
  "zoneinfo = ''/zoneinfo/''"

definition init_tzname :: "string option \<Rightarrow> string" where
  "init_tzname link =
     (case link of
        None \<Rightarrow> []
      | Some target \<Rightarrow>
          (let buffer = take 4096 target; s = takeWhile (\<lambda>c. c \<noteq> CHR 0x00) buffer in
           if 0 < length buffer \<and> length buffer < 4096 then
             (case strstr s zoneinfo of None \<Rightarrow> [] | Some f \<Rightarrow> drop (f + length zoneinfo) s)
           else []))"

record local_timezone =
  lt_tzoffset :: int
  lt_tzabbrev :: string
  lt_tzname :: string

text \<open>
  \<open>ltm\<close> is the result of \<^verbatim>\<open>localtime_r\<close>.
\<close>

definition local_timezone :: "int \<Rightarrow> tm result \<Rightarrow> string \<Rightarrow> string option \<Rightarrow> local_timezone result" where
  "local_timezone t ltm abbrev link =
     bindE ltm (\<lambda>tm.
     bindE (init_tzoffset t tm) (\<lambda>tzoffset.
       Inr \<lparr>lt_tzoffset = tzoffset, lt_tzabbrev = abbrev, lt_tzname = init_tzname link\<rparr>))"

section \<open>The calendar\<close>

definition leap_year :: "nat \<Rightarrow> bool" where
  "leap_year y \<longleftrightarrow> 4 dvd y \<and> (\<not> 100 dvd y \<or> 400 dvd y)"

fun days_before :: "nat \<Rightarrow> nat" where
  "days_before 0 = 0"
| "days_before (Suc n) = days_before n + (if leap_year (1970 + n) then 366 else 365)"

text \<open>
  The seconds from the epoch to a time of day \<open>n\<close> years after 1970, where every day has 86400 seconds.
\<close>

definition local_seconds :: "nat \<Rightarrow> tm \<Rightarrow> int" where
  "local_seconds n tm = (int (days_before n) + tm_yday tm) * 86400 + tm_hour tm * 3600 + tm_min tm * 60 + tm_sec tm"

lemma leap_year_cases:
  "leap_year (1970 + n) \<longleftrightarrow> Suc (n + 1) mod 4 = 0 \<and> (Suc (n + 69) mod 100 \<noteq> 0 \<or> Suc (n + 369) mod 400 = 0)"
proof -
  have "(1970 + n) mod 4 = (n + 2) mod 4" "(1970 + n) mod 100 = (n + 70) mod 100" "(1970 + n) mod 400 = (n + 370) mod 400"
    using mod_add_left_eq[of 1970 4 n] mod_add_left_eq[of 1970 100 n] mod_add_left_eq[of 1970 400 n]
    by (simp_all add: add.commute)
  then show ?thesis
    by (simp add: leap_year_def dvd_eq_mod_eq_0 add.commute)
qed

lemma century_leap: "Suc (n + 69) mod 100 = 0 \<Longrightarrow> Suc (n + 1) mod 4 = 0" "Suc (n + 369) mod 400 = 0 \<Longrightarrow> Suc (n + 69) mod 100 = 0"
  by presburger+

lemma days_before_formula:
  "days_before n + (n + 69) div 100 = 365 * n + (n + 1) div 4 + (n + 369) div 400"
proof (induction n)
  case (Suc n)
  have "(Suc n + 1) div 4 = (n + 1) div 4 + (if Suc (n + 1) mod 4 = 0 then 1 else 0)"
    "(Suc n + 69) div 100 = (n + 69) div 100 + (if Suc (n + 69) mod 100 = 0 then 1 else 0)"
    "(Suc n + 369) div 400 = (n + 369) div 400 + (if Suc (n + 369) mod 400 = 0 then 1 else 0)"
    by (simp_all only: add_Suc div_Suc) (auto split: if_splits)
  with Suc century_leap[of n] show ?case
    by (simp only: days_before.simps leap_year_cases) (auto split: if_splits)
qed simp

definition tm_in_range :: "tm \<Rightarrow> bool" where
  "tm_in_range tm \<longleftrightarrow> 0 \<le> tm_sec tm \<and> tm_sec tm \<le> 60 \<and> 0 \<le> tm_min tm \<and> tm_min tm \<le> 59
     \<and> 0 \<le> tm_hour tm \<and> tm_hour tm \<le> 23 \<and> 0 \<le> tm_yday tm \<and> tm_yday tm \<le> 365"

lemma sdiv_nonneg: "0 \<le> a \<Longrightarrow> 0 < b \<Longrightarrow> a sdiv b = a div (b :: int)"
  by (simp add: signed_divide_int_def sgn_if)

section \<open>Properties\<close>

text \<open>
  The offset is local time minus universal time by the calendar, for every date from 1970 to 2038; from
  2039 on the number of seconds in the years overflows an \<^verbatim>\<open>int\<close>.
\<close>

lemma tzoffset_exact:
  assumes "tm_in_range tm" and "tm_year tm = 70 + int n" and "n < 2000" and "\<bar>t\<bar> < 2 ^ 62"
  shows "init_tzoffset t tm =
    (if n \<le> 68 then Inr (local_seconds n tm - t) else Inl (Undefined_Behaviour ''signed overflow''))"
proof -
  have small: "int_result (tm_min tm * 60) = Inr (tm_min tm * 60)" "int_result (tm_hour tm * 3600) = Inr (tm_hour tm * 3600)"
    "int_result (tm_yday tm * 86400) = Inr (tm_yday tm * 86400)"
    using assms(1) by (simp_all add: int_result_def tm_in_range_def)
  have year: "int_result (tm_year tm - 70) = Inr (int n)" "int_result (tm_year tm - 69) = Inr (int (n + 1))"
    "int_result (tm_year tm - 1) = Inr (int (n + 69))" "int_result (tm_year tm + 299) = Inr (int (n + 369))"
    using assms(2,3) by (simp_all add: int_result_def)
  show ?thesis
  proof (cases "n \<le> 68")
    case True
    have div: "int (n + 1) sdiv 4 = int ((n + 1) div 4)" "int (n + 69) sdiv 100 = int ((n + 69) div 100)"
      "int (n + 369) sdiv 400 = int ((n + 369) div 400)"
      by (simp_all add: sdiv_nonneg zdiv_int del: of_nat_add)
    have "(n + 1) div 4 \<le> 17" "(n + 69) div 100 \<le> 1" "(n + 369) div 400 \<le> 1"
      using True by linarith+
    then have prod: "int_result (int n * 31536000) = Inr (int n * 31536000)"
      "int_result (int ((n + 1) div 4) * 86400) = Inr (int ((n + 1) div 4) * 86400)"
      "int_result (int ((n + 69) div 100) * 86400) = Inr (int ((n + 69) div 100) * 86400)"
      "int_result (int ((n + 369) div 400) * 86400) = Inr (int ((n + 369) div 400) * 86400)"
      using True by (simp_all add: int_result_def)
    let ?lt = "tm_sec tm + tm_min tm * 60 + tm_hour tm * 3600 + tm_yday tm * 86400 + int n * 31536000
      + int ((n + 1) div 4) * 86400 - int ((n + 69) div 100) * 86400 + int ((n + 369) div 400) * 86400"
    have lt: "?lt = local_seconds n tm"
      using days_before_formula[of n] unfolding local_seconds_def by (simp add: algebra_simps)
    have "(n + 69) div 100 \<le> n"
      using \<open>(n + 69) div 100 \<le> 1\<close> by (cases "n = 0") simp_all
    then have "int ((n + 69) div 100) * 86400 \<le> int n * 31536000"
      by linarith
    then have "0 \<le> ?lt"
      using assms(1) unfolding tm_in_range_def by linarith
    moreover have "int n \<le> 68" "int ((n + 1) div 4) \<le> 17" "int ((n + 369) div 400) \<le> 1"
      using True \<open>(n + 1) div 4 \<le> 17\<close> \<open>(n + 369) div 400 \<le> 1\<close> by linarith+
    then have "?lt < 2 ^ 62"
      using assms(1) unfolding tm_in_range_def by simp
    ultimately have "0 \<le> ?lt" "?lt < 2 ^ 62"
      by blast+
    then show ?thesis
      using True assms(4) small year prod div lt by (auto simp: init_tzoffset_def Let_def long_result_def abs_less_iff)
  next
    case False
    then have "int_result (int n * 31536000) = Inl (Undefined_Behaviour ''signed overflow'')"
      by (simp add: int_result_def)
    with False small year show ?thesis
      by (simp add: init_tzoffset_def)
  qed
qed

lemma tzoffset_exact_witness:
  "init_tzoffset 0 \<lparr>tm_sec = 0, tm_min = 0, tm_hour = 1, tm_yday = 0, tm_year = 70\<rparr> = Inr 3600"
  using tzoffset_exact[of "\<lparr>tm_sec = 0, tm_min = 0, tm_hour = 1, tm_yday = 0, tm_year = 70\<rparr>" 0 0]
  by (simp add: tm_in_range_def local_seconds_def)

end
