(* ===== verification/Clock_Reader.thy ===== *)
theory Clock_Reader
  imports Ntp_Client Local_Timezone Log_Record
begin

text \<open>
  The records of the clock (\<^verbatim>\<open>endpoints/clock/clock_record_builder.cc\<close>, \<^verbatim>\<open>clock_event_reader.cc\<close>). The lemmas
  show that a record is well formed in the session whatever the NTP server sent, also after a read
  that failed.
\<close>

section \<open>The builder\<close>

record clock_record_builder =
  cb_channel :: i32
  cb_sync :: i32
  cb_esterror :: i32
  cb_maxerror :: i32
  cb_tzoffset :: i32
  cb_tzabbrev :: i32
  cb_tzname :: i32
  cb_attrs :: "attribute list"


text \<open>
  As in the builder of associations, the list refers to members, here also to the member of the builder of
  NTP attributes.
\<close>

definition cb_insert :: "attribute \<Rightarrow> clock_record_builder \<Rightarrow> clock_record_builder" where
  "cb_insert a b = b\<lparr>cb_attrs := refer a (cb_attrs b)\<rparr>"

definition cb_add_ts :: "(i64 \<times> i64) result \<Rightarrow> (clock_record_builder, i64 \<times> i64) act" where
  "cb_add_ts now b =
     (case now of
        Inl e \<Rightarrow> (Inl e, b)
      | Inr (sec, nsec) \<Rightarrow> (Inr (sec, nsec), cb_insert (Timestamp attrid_ts sec nsec) b))"

definition cb_add_sync :: "bool \<Rightarrow> clock_record_builder \<Rightarrow> clock_record_builder" where
  "cb_add_sync v b = cb_insert (Boolean (cb_sync b) v) b"

definition cb_add_esterror :: "i64 \<Rightarrow> clock_record_builder \<Rightarrow> clock_record_builder" where
  "cb_add_esterror v b = cb_insert (Signed_Integer (cb_esterror b) v) b"

definition cb_add_maxerror :: "i64 \<Rightarrow> clock_record_builder \<Rightarrow> clock_record_builder" where
  "cb_add_maxerror v b = cb_insert (Signed_Integer (cb_maxerror b) v) b"

definition cb_add_tzoffset :: "i64 \<Rightarrow> clock_record_builder \<Rightarrow> clock_record_builder" where
  "cb_add_tzoffset v b = cb_insert (Signed_Integer (cb_tzoffset b) v) b"

definition cb_add_tzabbrev :: "string \<Rightarrow> clock_record_builder \<Rightarrow> clock_record_builder" where
  "cb_add_tzabbrev s b = cb_insert (String_Attr (cb_tzabbrev b) s) b"

definition cb_add_tzname :: "string \<Rightarrow> clock_record_builder \<Rightarrow> clock_record_builder" where
  "cb_add_tzname s b = cb_insert (String_Attr (cb_tzname b) s) b"

definition cb_add_ntp :: "attribute \<Rightarrow> clock_record_builder \<Rightarrow> clock_record_builder" where
  "cb_add_ntp a b = cb_insert a b"

definition cb_build :: "clock_record_builder \<Rightarrow> hrecord \<times> clock_record_builder" where
  "cb_build b = (\<lparr>rec_channel = cb_channel b, rec_attributes = cb_attrs b\<rparr>, b\<lparr>cb_attrs := []\<rparr>)"

section \<open>The reader\<close>

record clock_reader =
  ck_poll :: int
  ck_first :: bool
  ck_assoc :: ntp_assoc_attr_builder
  ck_ntp :: ntp_attr_builder
  ck_clock :: clock_record_builder


text \<open>
  What the system does during one read: the sleep, the client with its socket and what it will
  receive, the time, the local time and the names of its zone, and the state of the kernel clock: whether it
  is synchronised, the estimated and the maximum error in microseconds.
\<close>

record clock_env =
  ce_sleep :: "int \<Rightarrow> unit result"
  ce_client :: "ntp_client result"
  ce_now :: "(i64 \<times> i64) result"
  ce_tm :: "tm result"
  ce_abbrev :: string
  ce_link :: "string option"
  ce_timex :: "bool \<times> int \<times> int"

text \<open>
  The product is a \<^verbatim>\<open>long\<close>, the argument of \<^verbatim>\<open>millisleep\<close> an \<^verbatim>\<open>int\<close>.
\<close>

definition sleep_time :: "int \<Rightarrow> int result" where
  "sleep_time poll = bindE (long_result (poll * 1000)) (\<lambda>ms. Inr (sint (word_of_int ms :: i32)))"

definition wait_poll :: "clock_env \<Rightarrow> (clock_reader, unit) act" where
  "wait_poll env rd =
     (if ck_first rd then (Inr (), rd\<lparr>ck_first := False\<rparr>)
      else (bindE (sleep_time (ck_poll rd)) (ce_sleep env), rd))"

text \<open>
  Every exception is caught and ignored. An access through a null pointer is no exception.
\<close>

fun caught :: "exn \<Rightarrow> unit result" where
  "caught (Undefined_Behaviour w) = Inl (Undefined_Behaviour w)"
| "caught _ = Inr ()"

definition ntp_status :: "clock_env \<Rightarrow> (clock_reader, unit) act" where
  "ntp_status env rd =
     (case ce_client env of
        Inl e \<Rightarrow> (caught e, rd)
      | Inr c \<Rightarrow>
          (case update_peers c of
             (Inl e, c') \<Rightarrow> (caught e, rd)
           | (Inr _, c') \<Rightarrow>
               (case nc_build c' (ck_ntp rd, ck_assoc rd) of
                  (r, nb, na) \<Rightarrow>
                    (case r of Inl e \<Rightarrow> caught e | Inr _ \<Rightarrow> Inr (), rd\<lparr>ck_ntp := nb, ck_assoc := na\<rparr>))))"

definition on_clock :: "(clock_record_builder, 'a) act \<Rightarrow> (clock_reader, 'a) act" where
  "on_clock m rd = (case m (ck_clock rd) of (r, b) \<Rightarrow> (r, rd\<lparr>ck_clock := b\<rparr>))"

definition add_ntp_attr :: "(clock_reader, unit) act" where
  "add_ntp_attr rd =
     (case nb_build (ck_ntp rd) of (a, nb) \<Rightarrow> (Inr (), rd\<lparr>ck_ntp := nb, ck_clock := cb_add_ntp a (ck_clock rd)\<rparr>))"

definition add_error :: "int \<Rightarrow> (i64 \<Rightarrow> clock_record_builder \<Rightarrow> clock_record_builder) \<Rightarrow> (clock_record_builder, unit) act" where
  "add_error us f = bindS (liftS (long_result (us * 1000))) (\<lambda>ns. modifyS (f (word_of_int ns)))"

definition clock_fields :: "clock_env \<Rightarrow> (clock_record_builder, hrecord) act" where
  "clock_fields env =
     bindS (cb_add_ts (ce_now env)) (\<lambda>ts.
     bindS (liftS (local_timezone (sint (fst ts)) (ce_tm env) (ce_abbrev env) (ce_link env))) (\<lambda>ltz.
     seqS (modifyS (cb_add_tzoffset (word_of_int (lt_tzoffset ltz))))
    (seqS (modifyS (cb_add_tzabbrev (lt_tzabbrev ltz)))
    (seqS (modifyS (cb_add_tzname (lt_tzname ltz)))
    (case ce_timex env of (clock_sync, esterror, maxerror) \<Rightarrow>
       seqS (modifyS (cb_add_sync clock_sync))
      (seqS (if clock_sync then seqS (add_error esterror cb_add_esterror) (add_error maxerror cb_add_maxerror) else returnS ())
            (\<lambda>b. case cb_build b of (r, b') \<Rightarrow> (Inr r, b'))))))))"

definition clock_read :: "clock_env \<Rightarrow> (clock_reader, hrecord) act" where
  "clock_read env =
     seqS (wait_poll env)
    (seqS (ntp_status env)
    (seqS add_ntp_attr
          (on_clock (clock_fields env))))"

section \<open>Lists of references\<close>

text \<open>
  What may be in a record of the clock: attributes of the classes of the session that define nothing. All that
  can prevent their being read is a negative integer of more than one octet.
\<close>

definition shift_at_most :: "exn option \<Rightarrow> bool" where
  "shift_at_most x \<longleftrightarrow> x = None \<or> x = Some (Undefined_Behaviour ''shift'')"


definition allowed :: "session_context \<Rightarrow> attribute \<Rightarrow> bool" where
  "allowed s a \<longleftrightarrow> attr_wf s a \<and> id_fault (attrid a) = None \<and> shift_at_most (content_fault a)
     \<and> attrid a \<noteq> attrid_attr_def \<and> attrid a \<noteq> attrid_chan_def"

definition built_ok :: "session_context \<Rightarrow> attribute list \<Rightarrow> bool" where
  "built_ok s as \<longleftrightarrow> sorted (map attr_key as) \<and> list_all (allowed s) as"

lemma built_ok_Nil [simp]: "built_ok s []"
  by (simp add: built_ok_def)






section \<open>The builder of associations\<close>










section \<open>The NTP attribute\<close>







section \<open>The reader\<close>



















section \<open>The types announced\<close>




section \<open>Properties\<close>


text \<open>
  An NTP server with one association, and a clock that is synchronised.
\<close>

definition sample_clock_env :: clock_env where
  "sample_clock_env = \<lparr>ce_sleep = (\<lambda>_. Inr ()), ce_client = Inr sample_client, ce_now = Inr (1, 0),
     ce_tm = Inr \<lparr>tm_sec = 1, tm_min = 0, tm_hour = 1, tm_yday = 0, tm_year = 70\<rparr>, ce_abbrev = ''CET'',
     ce_link = Some ''/usr/share/zoneinfo/Europe/Paris'', ce_timex = (True, 5, 7)\<rparr>"


definition sample_clock :: clock_reader where
  "sample_clock = \<lparr>ck_poll = 3600, ck_first = True,
     ck_assoc = \<lparr>na_associd = 0, na_status = 1, na_srchost = 2, na_srcaddr = 3, na_srcport = 4, na_stratum = 5, na_delay = 6,
       na_offset = 7, na_jitter = 8, na_assoc = 9, na_attrs = []\<rparr>,
     ck_ntp = \<lparr>nb_ntp = 10, nb_attrs = []\<rparr>,
     ck_clock = \<lparr>cb_channel = 0, cb_sync = 11, cb_esterror = 12, cb_maxerror = 13, cb_tzoffset = 14, cb_tzabbrev = 15,
       cb_tzname = 16, cb_attrs = []\<rparr>\<rparr>"








text \<open>
  C29: if the port of the NTP server is open but nothing answers, the first record of the clock is never
  made: the update reports failure, which is not looked at, and the association zero that is always on the
  list is used through a null pointer.
\<close>

theorem silent_server_null:
  assumes "ce_client env = Inr c" and "quiet c" and "ck_first rd"
  shows "fst (clock_read env rd) = Inl (Undefined_Behaviour ''null pointer'')"
proof -
  obtain c' where "update_peers c = (Inr False, c')" "nc_peers c' = [(0, None)]"
    using quiet_update_peers[OF assms(2)] by blast
  then show ?thesis
    using assms(1,3) by (simp add: clock_read_def seqS_def bindS_def wait_poll_def ntp_status_def nc_build_def throwS_def)
qed

lemma silent_server_null_witness:
  "fst (clock_read (sample_clock_env\<lparr>ce_client := Inr (ntp_client_init [] [])\<rparr>) sample_clock)
    = Inl (Undefined_Behaviour ''null pointer'')"
  by (rule silent_server_null[of _ "ntp_client_init [] []"]) (simp_all add: quiet_def ntp_client_init_def sample_clock_def)

end
