(* ===== verification/Leap_Second.thy ===== *)
theory Leap_Second
  imports Prelude "HOL-Library.Signed_Division"
begin

text \<open>
  Leap seconds: the correction of timestamps (\<^verbatim>\<open>horace/leap_second_corrector.cc\<close>) and the times at which
  the state of the clock is measured (\<^verbatim>\<open>horace/leap_second_monitor.cc\<close>). The lemmas compare what the
  corrector makes of the timestamps of packets, with the measurements it finds in its queue, with the
  time at which the packets arrived.
\<close>

section \<open>The corrector\<close>

text \<open>
  Times are values of \<^verbatim>\<open>long\<close>, none of them near its limits.
\<close>

record timespec =
  ts_sec :: int
  ts_nsec :: int

record timeval =
  tv_sec :: int
  tv_usec :: int

definition TIME_OK :: int where "TIME_OK = 0"
definition TIME_INS :: int where "TIME_INS = 1"
definition TIME_OOP :: int where "TIME_OOP = 3"
definition TIME_WAIT :: int where "TIME_WAIT = 4"

lemmas clock_states = TIME_OK_def TIME_INS_def TIME_OOP_def TIME_WAIT_def

text \<open>
  What \<^verbatim>\<open>ntp_adjtime\<close> returns; with \<^verbatim>\<open>STA_NANO\<close> the fraction is in nanoseconds.
\<close>

record timex =
  tx_state :: int
  tx_nano :: bool
  tx_time :: timeval

definition tx_reftime :: "timex \<Rightarrow> timeval" where
  "tx_reftime tmx =
     (if tx_nano tmx then (tx_time tmx)\<lparr>tv_usec := tv_usec (tx_time tmx) sdiv 1000\<rparr> else tx_time tmx)"

record clock_state =
  cs_index :: u64
  cs_time :: timeval
  cs_state :: int

record leap_second_corrector =
  lc_index :: u64
  lc_clock_states :: "clock_state list"

definition leap_second_corrector_init :: leap_second_corrector where
  "leap_second_corrector_init = \<lparr>lc_index = 0, lc_clock_states = []\<rparr>"

definition seconds_per_day :: int where "seconds_per_day = 86400"
definition first_second_of_day :: int where "first_second_of_day = 0"
definition last_second_of_day :: int where "last_second_of_day = seconds_per_day - 1"
definition leap_second_indicator :: int where "leap_second_indicator = 1000000000"

lemmas day_constants = seconds_per_day_def first_second_of_day_def last_second_of_day_def leap_second_indicator_def

definition add_indicator :: "timespec \<Rightarrow> timespec" where
  "add_indicator ts = ts\<lparr>ts_nsec := ts_nsec ts + leap_second_indicator\<rparr>"

definition step_back :: "timespec \<Rightarrow> timespec" where
  "step_back ts = ts\<lparr>ts_sec := ts_sec ts - 1, ts_nsec := ts_nsec ts + leap_second_indicator\<rparr>"

text \<open>
  The correction by a reference time and the state of the clock at that time.
\<close>

definition correct_by :: "int \<Rightarrow> timeval \<Rightarrow> int \<Rightarrow> timespec \<Rightarrow> timespec" where
  "correct_by refstate reftime second_of_day ts =
     (if refstate = TIME_WAIT then
        (if second_of_day = last_second_of_day then add_indicator ts else ts)
      else if refstate = TIME_OOP then
        (let uts_usec = ts_nsec ts sdiv 1000 in
         if ts_sec ts > tv_sec reftime \<or> ts_sec ts = tv_sec reftime \<and> uts_usec > tv_usec reftime then
           (if second_of_day = last_second_of_day then ts else step_back ts)
         else
           (if second_of_day = last_second_of_day then add_indicator ts else ts))
      else if refstate = TIME_INS then
        (if second_of_day = first_second_of_day then step_back ts else ts)
      else ts)"

definition correct :: "timex \<Rightarrow> timespec \<Rightarrow> leap_second_corrector \<Rightarrow> timespec \<times> leap_second_corrector" where
  "correct tmx ts lc =
     (let index = lc_index lc + 1;
          states = dropWhile (\<lambda>cs. cs_index cs < index) (lc_clock_states lc);
          second_of_day = ts_sec ts smod seconds_per_day in
      (if second_of_day \<noteq> last_second_of_day \<and> second_of_day \<noteq> first_second_of_day then ts
       else
         (case states of
            cs # _ \<Rightarrow> correct_by (cs_state cs) (cs_time cs) second_of_day ts
          | [] \<Rightarrow> correct_by (tx_state tmx) (tx_reftime tmx) second_of_day ts),
       \<lparr>lc_index = index, lc_clock_states = states\<rparr>))"

definition record_clock_state :: "timex \<Rightarrow> u64 \<Rightarrow> leap_second_corrector \<Rightarrow> leap_second_corrector" where
  "record_clock_state tmx index lc =
     lc\<lparr>lc_clock_states := lc_clock_states lc @
       [\<lparr>cs_index = index, cs_time = tx_reftime tmx, cs_state = tx_state tmx\<rparr>]\<rparr>"

section \<open>A clock with a leap second\<close>

text \<open>
  True time is counted in nanoseconds from the epoch, leap seconds included from \<open>leap\<close> on, the
  number of POSIX seconds before a midnight: the leap second is the one that begins at \<open>leap\<close>. The
  POSIX clock repeats the last second of the day.
\<close>

definition billion :: int where
  "billion = 1000000000"

definition posix_at :: "int \<Rightarrow> int \<Rightarrow> int" where
  "posix_at leap x = (if x < leap * billion then x else x - billion)"

definition state_at :: "int \<Rightarrow> int \<Rightarrow> int" where
  "state_at leap x = (if x < leap * billion then TIME_INS else if x < (leap + 1) * billion then TIME_OOP else TIME_WAIT)"

definition timespec_of :: "int \<Rightarrow> timespec" where
  "timespec_of p = \<lparr>ts_sec = p div billion, ts_nsec = p mod billion\<rparr>"

definition timex_at :: "int \<Rightarrow> bool \<Rightarrow> int \<Rightarrow> timex" where
  "timex_at leap nano x =
     (let p = posix_at leap x in
      \<lparr>tx_state = state_at leap x, tx_nano = nano,
       tx_time = \<lparr>tv_sec = p div billion, tv_usec = (if nano then p mod billion else p mod billion div 1000)\<rparr>\<rparr>)"

text \<open>
  The timestamp that tells a time within the leap second from the second before.
\<close>

definition utc_at :: "int \<Rightarrow> int \<Rightarrow> timespec" where
  "utc_at leap x =
     (if leap * billion \<le> x \<and> x < (leap + 1) * billion then add_indicator (timespec_of (posix_at leap x))
      else timespec_of (posix_at leap x))"

text \<open>
  A reference time is good for a packet if it is later than the packet and, for the packets of the second
  before the leap second, by no more than a second less a microsecond (a reference that is later by a second
  less a nanosecond can be equal in microseconds). No other midnight is near.
\<close>

definition in_time :: "int \<Rightarrow> int \<Rightarrow> int \<Rightarrow> bool" where
  "in_time leap x ref \<longleftrightarrow> 0 < leap \<and> leap mod seconds_per_day = 0
     \<and> (leap - last_second_of_day) * billion \<le> x \<and> x < (leap + last_second_of_day) * billion
     \<and> x \<le> ref
     \<and> (ref - x \<le> billion - 1000 \<or> x < (leap - 1) * billion \<or> leap * billion \<le> x)"

lemma tx_reftime_at:
  "tx_reftime (timex_at leap nano x) = \<lparr>tv_sec = posix_at leap x div billion, tv_usec = posix_at leap x mod billion div 1000\<rparr>"
  by (simp add: tx_reftime_def timex_at_def Let_def billion_def signed_divide_int_def sgn_if)

lemma state_at_timex: "tx_state (timex_at leap nano x) = state_at leap x"
  by (simp add: timex_at_def Let_def)

lemma second_of_day:
  assumes "0 < leap" and "leap mod seconds_per_day = 0" and "leap - last_second_of_day \<le> s" and "s < leap + last_second_of_day"
  shows "s smod seconds_per_day = last_second_of_day \<longleftrightarrow> s = leap - 1"
    and "s smod seconds_per_day = first_second_of_day \<longleftrightarrow> s = leap"
proof -
  have "86400 \<le> leap"
    using assms(1,2) by (intro zdvd_imp_le) (auto simp: seconds_per_day_def)
  then have "0 \<le> s"
    using assms(3) by (simp add: day_constants)
  then have eq: "s smod seconds_per_day = s mod seconds_per_day"
    by (simp add: signed_modulo_int_def signed_divide_int_def sgn_if seconds_per_day_def minus_div_mult_eq_mod)
  have "s mod seconds_per_day = (s - leap) mod seconds_per_day"
    using assms(2) by (metis diff_zero mod_diff_right_eq)
  also have "\<dots> = (if s < leap then s - leap + seconds_per_day else s - leap)"
  proof (cases "s < leap")
    case True
    then have "(s - leap + seconds_per_day) mod seconds_per_day = s - leap + seconds_per_day"
      using assms(3) by (intro mod_pos_pos_trivial) (simp_all add: day_constants)
    with True show ?thesis
      by simp
  next
    case False
    then show ?thesis
      using assms(4) by (simp add: day_constants)
  qed
  finally show "s smod seconds_per_day = last_second_of_day \<longleftrightarrow> s = leap - 1"
    and "s smod seconds_per_day = first_second_of_day \<longleftrightarrow> s = leap"
    unfolding eq using assms(3,4) by (auto simp: day_constants)
qed

lemma split_billion: "p = p div billion * billion + p mod billion" "0 \<le> p mod billion" "p mod billion < billion"
  by (simp_all add: billion_def)

lemma seconds_bounds:
  "a * billion \<le> p \<Longrightarrow> a \<le> p div billion" "p < b * billion \<Longrightarrow> p div billion < b"
  using split_billion[of p] by (simp_all add: billion_def)

lemma seconds_eq: "a * billion \<le> p \<Longrightarrow> p < (a + 1) * billion \<Longrightarrow> p div billion = a"
  using seconds_bounds(1)[of a p] seconds_bounds(2)[of p "a + 1"] by linarith

lemma same_second: "p div billion = q div billion \<Longrightarrow> p mod billion - q mod billion = p - q"
  using split_billion(1)[of p] split_billion(1)[of q] by (metis add_diff_cancel_left)

text \<open>
  The tests of the corrector, in nanoseconds.
\<close>

lemma later_iff:
  assumes "q + 1000 \<le> p \<or> p \<le> q"
  shows "(q div billion < p div billion \<or> p div billion = q div billion \<and> q mod billion div 1000 < p mod billion div 1000)
    \<longleftrightarrow> q < p"
proof (cases "p \<le> q")
  case True
  then have "p div billion \<le> q div billion"
    by (simp add: billion_def zdiv_mono1)
  moreover have "p mod billion div 1000 \<le> q mod billion div 1000" if "p div billion = q div billion"
    using same_second[OF that] True by (intro zdiv_mono1) simp_all
  ultimately show ?thesis
    using True by fastforce
next
  case False
  with assms have p: "q + 1000 \<le> p"
    by simp
  then have "q div billion \<le> p div billion"
    by (simp add: billion_def zdiv_mono1)
  moreover have "q mod billion div 1000 < p mod billion div 1000" if "p div billion = q div billion"
  proof -
    have "(q mod billion + 1000) div 1000 \<le> p mod billion div 1000"
      using same_second[OF that] p by (intro zdiv_mono1) simp_all
    then show ?thesis
      by simp
  qed
  ultimately show ?thesis
    using False by fastforce
qed

lemma correct_by_exact:
  assumes "in_time leap x ref"
  shows "(let ts = timespec_of (posix_at leap x); s = ts_sec ts smod seconds_per_day in
      if s \<noteq> last_second_of_day \<and> s \<noteq> first_second_of_day then ts
      else correct_by (state_at leap ref) (tx_reftime (timex_at leap nano ref)) s ts) = utc_at leap x"
proof -
  let ?p = "posix_at leap x"
  have "(leap - last_second_of_day) * billion \<le> ?p" "?p < (leap + last_second_of_day) * billion"
    using assms by (auto simp: posix_at_def in_time_def billion_def day_constants)
  note s = second_of_day[OF _ _ seconds_bounds(1)[OF this(1)] seconds_bounds(2)[OF this(2)]]
  have day: "0 < leap" "leap mod seconds_per_day = 0"
    using assms by (simp_all add: in_time_def)
  note s = s[OF day]
  have n: "p mod billion sdiv 1000 = p mod billion div 1000" for p
    by (simp add: billion_def signed_divide_int_def sgn_if)
  consider (early) "x < (leap - 1) * billion" | (before) "ref < leap * billion" 
    | (leap) "leap * billion \<le> ref" "ref < (leap + 1) * billion" "(leap - 1) * billion \<le> x"
    | (after) "(leap + 1) * billion \<le> ref" "(leap - 1) * billion \<le> x"
    by linarith
  then show ?thesis
  proof cases
    case early
    then have "x < leap * billion"
      by (simp add: billion_def)
    with early have "?p div billion < leap - 1"
      by (simp add: posix_at_def seconds_bounds)
    with \<open>x < leap * billion\<close> s show ?thesis
      by (simp add: timespec_of_def utc_at_def Let_def)
  next
    case before
    then have "x < leap * billion" and "state_at leap ref = TIME_INS"
      using assms by (simp_all add: in_time_def state_at_def)
    then have "?p div billion < leap"
      by (simp add: posix_at_def seconds_bounds)
    then have "?p div billion smod seconds_per_day \<noteq> first_second_of_day"
      using s(2) by simp
    with \<open>x < leap * billion\<close> \<open>state_at leap ref = TIME_INS\<close> show ?thesis
      by (simp add: correct_by_def timespec_of_def utc_at_def clock_states Let_def)
  next
    case leap
    then have st: "state_at leap ref = TIME_OOP" and q: "posix_at leap ref = ref - billion"
      by (simp_all add: state_at_def posix_at_def)
    have last: "?p div billion = leap - 1"
      using assms leap by (intro seconds_eq) (auto simp: posix_at_def in_time_def billion_def)
    have "posix_at leap ref + 1000 \<le> ?p \<or> ?p \<le> posix_at leap ref"
      using assms leap by (auto simp: posix_at_def in_time_def)
    note later = later_iff[OF this]
    have "posix_at leap ref < ?p \<longleftrightarrow> x < leap * billion"
      using assms leap by (auto simp: posix_at_def in_time_def)
    with later s last st leap assms show ?thesis
      by (auto simp: correct_by_def timespec_of_def utc_at_def clock_states Let_def n tx_reftime_at in_time_def)
  next
    case after
    then have st: "state_at leap ref = TIME_WAIT" and x: "leap * billion \<le> x"
      using assms by (auto simp: state_at_def in_time_def billion_def)
    have "?p div billion = leap - 1 \<longleftrightarrow> x < (leap + 1) * billion"
    proof
      assume "?p div billion = leap - 1"
      then show "x < (leap + 1) * billion"
        using x split_billion[of ?p] by (simp add: posix_at_def billion_def)
    next
      assume "x < (leap + 1) * billion"
      then show "?p div billion = leap - 1"
        using x by (intro seconds_eq) (simp_all add: posix_at_def billion_def)
    qed
    with s st x show ?thesis
      by (auto simp: correct_by_def timespec_of_def utc_at_def clock_states Let_def)
  qed
qed


section \<open>A queue of packets\<close>

text \<open>
  The kernel stamps a packet as it queues it, the monitor has the number of packets queued so far recorded
  with the state of the clock (\<^verbatim>\<open>basic_packet_socket::measure\<close>), and the reader takes the oldest
  packet of the queue and has its timestamp corrected. Each event has the true time of it.
\<close>

datatype packet_event = Stamp int | Measure int | Correct int

fun corrected_run :: "int \<Rightarrow> bool \<Rightarrow> packet_event list \<Rightarrow> timespec list \<Rightarrow> u64 \<Rightarrow> leap_second_corrector \<Rightarrow> timespec list" where
  "corrected_run leap nano [] q packets lc = []"
| "corrected_run leap nano (Stamp x # es) q packets lc =
     corrected_run leap nano es (q @ [timespec_of (posix_at leap x)]) (packets + 1) lc"
| "corrected_run leap nano (Measure r # es) q packets lc =
     corrected_run leap nano es q packets (record_clock_state (timex_at leap nano r) packets lc)"
| "corrected_run leap nano (Correct y # es) q packets lc =
     (case q of
        [] \<Rightarrow> corrected_run leap nano es [] packets lc
      | ts # q' \<Rightarrow>
          fst (correct (timex_at leap nano y) ts lc)
            # corrected_run leap nano es q' packets (snd (correct (timex_at leap nano y) ts lc)))"

text \<open>
  The packets that are read, each with the time of the first measurement after it, or of its correction if
  there was none before that.
\<close>

definition measured_at :: "int \<Rightarrow> int \<times> int option \<Rightarrow> int \<times> int option" where
  "measured_at r = (\<lambda>(x, ref). (x, Some (case ref of None \<Rightarrow> r | Some r' \<Rightarrow> r')))"

fun references :: "packet_event list \<Rightarrow> (int \<times> int option) list \<Rightarrow> (int \<times> int) list" where
  "references [] q = []"
| "references (Stamp x # es) q = references es (q @ [(x, None)])"
| "references (Measure r # es) q = references es (map (measured_at r) q)"
| "references (Correct y # es) q =
     (case q of
        [] \<Rightarrow> references es []
      | (x, ref) # q' \<Rightarrow> (x, (case ref of None \<Rightarrow> y | Some r \<Rightarrow> r)) # references es q')"

definition clock_state_at :: "int \<Rightarrow> bool \<Rightarrow> int \<times> nat \<Rightarrow> clock_state" where
  "clock_state_at leap nano = (\<lambda>(r, j).
     \<lparr>cs_index = of_nat j, cs_time = tx_reftime (timex_at leap nano r), cs_state = state_at leap r\<rparr>)"

definition first_measurement :: "nat \<Rightarrow> (int \<times> nat) list \<Rightarrow> int option" where
  "first_measurement n ms = map_option fst (find (\<lambda>m. n \<le> snd m) ms)"

text \<open>
  The queue of the corrector has, for every packet that is queued, its first measurement.
\<close>

definition represents :: "int \<Rightarrow> bool \<Rightarrow> nat \<Rightarrow> (int \<times> nat) list \<Rightarrow> (int \<times> int option) list \<Rightarrow> timespec list \<Rightarrow> u64
    \<Rightarrow> leap_second_corrector \<Rightarrow> bool" where
  "represents leap nano n ms pend q packets lc \<longleftrightarrow>
     lc_index lc = of_nat n \<and> packets = of_nat (n + length pend)
     \<and> lc_clock_states lc = map (clock_state_at leap nano) ms \<and> (\<forall>m\<in>set ms. snd m \<le> n + length pend)
     \<and> q = map (\<lambda>p. timespec_of (posix_at leap (fst p))) pend
     \<and> (\<forall>i<length pend. snd (pend ! i) = first_measurement (n + i + 1) ms)"

lemma first_measurement_append:
  "first_measurement n (ms @ [(r, j)]) = (case first_measurement n ms of None \<Rightarrow> if n \<le> j then Some r else None | r' \<Rightarrow> r')"
  by (induction ms) (auto simp: first_measurement_def)

lemma first_measurement_none: "\<forall>m\<in>set ms. snd m < n \<Longrightarrow> first_measurement n ms = None"
  by (auto simp: first_measurement_def find_None_iff not_le)

lemma first_measurement_dropWhile:
  "k \<le> n \<Longrightarrow> first_measurement n (dropWhile (\<lambda>m. snd m < k) ms) = first_measurement n ms"
  by (induction ms) (auto simp: first_measurement_def)

lemma first_measurement_hd:
  "first_measurement n ms = (case dropWhile (\<lambda>m. snd m < n) ms of [] \<Rightarrow> None | m # _ \<Rightarrow> Some (fst m))"
  by (induction ms) (auto simp: first_measurement_def)

lemma represents_stamp:
  assumes "represents leap nano n ms pend q packets lc"
  shows "represents leap nano n ms (pend @ [(x, None)]) (q @ [timespec_of (posix_at leap x)]) (packets + 1) lc"
proof -
  have "first_measurement (n + length pend + 1) ms = None"
    using assms by (intro first_measurement_none) (auto simp: represents_def less_Suc_eq_le)
  with assms show ?thesis
    by (auto simp: represents_def nth_append less_Suc_eq)
qed

lemma represents_measure:
  assumes "represents leap nano n ms pend q packets lc"
  shows "represents leap nano n (ms @ [(r, n + length pend)]) (map (measured_at r) pend) q packets
    (record_clock_state (timex_at leap nano r) packets lc)"
proof -
  have "snd (measured_at r p) = Some (case snd p of None \<Rightarrow> r | Some r' \<Rightarrow> r')" "fst (measured_at r p) = fst p" for p
    by (simp_all add: measured_at_def split_beta)
  with assms show ?thesis
    by (auto simp: represents_def record_clock_state_def clock_state_at_def first_measurement_append timex_at_def Let_def
        split: option.splits)
qed

lemma represents_correct:
  assumes "represents leap nano n ms ((x, ref) # pend) (ts # q) packets lc"
    and "n + length pend + 1 < 2 ^ 64" and "in_time leap x (case ref of None \<Rightarrow> y | Some r \<Rightarrow> r)"
  shows "fst (correct (timex_at leap nano y) ts lc) = utc_at leap x"
    and "represents leap nano (n + 1) (dropWhile (\<lambda>m. snd m < n + 1) ms) pend q packets
      (snd (correct (timex_at leap nano y) ts lc))"
proof -
  define ds where "ds = dropWhile (\<lambda>m. snd m < n + 1) ms"
  have ms: "\<forall>m\<in>set ms. snd m < 2 ^ 64"
    using assms(1,2) by (force simp: represents_def)
  have "cs_index (clock_state_at leap nano m) < of_nat n + 1 \<longleftrightarrow> snd m < n + 1" if "m \<in> set ms" for m
  proof -
    have "snd m < 2 ^ 64" "n + 1 < 2 ^ 64"
      using ms assms(2) that by simp_all
    then have "unat (of_nat (snd m) :: u64) = snd m" "unat (of_nat (n + 1) :: u64) = n + 1"
      unfolding unat_of_nat by simp_all
    then show ?thesis
      by (simp add: clock_state_at_def split_beta word_less_nat_alt add.commute)
  qed
  then have states: "dropWhile (\<lambda>cs. cs_index cs < of_nat n + 1) (lc_clock_states lc)
      = map (clock_state_at leap nano) ds"
    using assms(1) by (simp add: ds_def represents_def dropWhile_map o_def cong: dropWhile_cong)
  have ref: "ref = (case ds of [] \<Rightarrow> None | m # _ \<Rightarrow> Some (fst m))"
    using assms(1) unfolding ds_def represents_def first_measurement_hd[symmetric] by (auto simp: nth_Cons split: nat.splits)
  have ts: "ts = timespec_of (posix_at leap x)" and index: "lc_index lc = of_nat n"
    using assms(1) by (simp_all add: represents_def)
  have "fst (correct (timex_at leap nano y) ts lc) =
    (let s = ts_sec ts smod seconds_per_day; r = (case ref of None \<Rightarrow> y | Some r \<Rightarrow> r) in
      if s \<noteq> last_second_of_day \<and> s \<noteq> first_second_of_day then ts
      else correct_by (state_at leap r) (tx_reftime (timex_at leap nano r)) s ts)"
    unfolding correct_def Let_def index states ref
    by (cases ds) (simp_all add: clock_state_at_def split_beta state_at_timex)
  also have "\<dots> = utc_at leap x"
    using correct_by_exact[OF assms(3), of nano] unfolding Let_def ts .
  finally show "fst (correct (timex_at leap nano y) ts lc) = utc_at leap x" .
  have "snd (pend ! i) = first_measurement (n + 1 + i + 1) ms" if "i < length pend" for i
    using assms(1) that unfolding represents_def by (auto dest!: spec[of _ "i + 1"] simp: add_ac)
  with assms(1) show "represents leap nano (n + 1) (dropWhile (\<lambda>m. snd m < n + 1) ms) pend q packets
      (snd (correct (timex_at leap nano y) ts lc))"
    using states by (auto simp: ds_def represents_def correct_def Let_def index first_measurement_dropWhile add_ac
        dest!: set_dropWhileD)
qed

lemma represents_run:
  assumes "represents leap nano n ms pend q packets lc" and "n + length pend + length es < 2 ^ 64"
    and "\<forall>(x, r)\<in>set (references es pend). in_time leap x r"
  shows "corrected_run leap nano es q packets lc = map (\<lambda>(x, r). utc_at leap x) (references es pend)"
  using assms
proof (induction leap nano es q packets lc arbitrary: n ms pend rule: corrected_run.induct)
  case (1 leap nano q packets lc)
  then show ?case
    by simp
next
  case (2 leap nano x es q packets lc)
  show ?case
    using 2(1)[OF represents_stamp[OF 2(2)]] 2(3,4) by simp
next
  case (3 leap nano r es q packets lc)
  show ?case
    using 3(1)[OF represents_measure[OF 3(2)]] 3(3,4) by simp
next
  case (4 leap nano y es q packets lc)
  show ?case
  proof (cases pend)
    case Nil
    with 4(3) have "q = []"
      by (simp add: represents_def)
    with 4(1)[OF this] 4(3-5) Nil show ?thesis
      by simp
  next
    case (Cons p pend')
    obtain x ref where p: "p = (x, ref)"
      by force
    obtain ts q' where q: "q = ts # q'"
      using 4(3) Cons by (simp add: represents_def)
    note rep = represents_correct[OF 4(3)[unfolded Cons p q]]
    have "in_time leap x (case ref of None \<Rightarrow> y | Some r \<Rightarrow> r)" "n + length pend' + 1 < 2 ^ 64"
      using 4(4,5) Cons p by simp_all
    note rep = rep[OF this(2,1)]
    show ?thesis
      using 4(2)[OF q rep(2)] rep(1) 4(4,5) Cons p q by (auto split: option.splits)
  qed
qed

section \<open>The monitor\<close>

text \<open>
  One pass of the loop of \<^verbatim>\<open>leap_second_monitor::_run\<close>, as the sleeps (in milliseconds) and the
  measurements it makes; the loop ends when a sleep throws, as the program terminates.
\<close>

datatype monitor_action = Sleep int | Measure_all

definition tod_msec :: "timex \<Rightarrow> int" where
  "tod_msec tmx = (tv_sec (tx_reftime tmx) smod seconds_per_day) * 1000 + tv_usec (tx_reftime tmx) sdiv 1000"

definition monitor_pass :: "timex \<Rightarrow> monitor_action list" where
  "monitor_pass tmx =
     (let rem_msec = seconds_per_day * 1000 - tod_msec tmx in
      (if tod_msec tmx \<ge> 1000 \<and> rem_msec > 750 \<and> tx_state tmx \<noteq> TIME_OOP then [Sleep (rem_msec - 750)] else [])
      @ [Measure_all, Sleep 500, Measure_all, Sleep 500, Measure_all, Sleep 2000])"

text \<open>
  The measurements are of all the objects attached at the time, in the order of their addresses.
\<close>

definition attach :: "nat \<Rightarrow> nat set \<Rightarrow> nat set" where
  "attach obj measurables = insert obj measurables"

definition detach :: "nat \<Rightarrow> nat set \<Rightarrow> nat set" where
  "detach obj measurables = measurables - {obj}"

definition measure_all :: "(nat \<Rightarrow> 's \<Rightarrow> 's) \<Rightarrow> nat set \<Rightarrow> 's \<Rightarrow> 's" where
  "measure_all measure_obj measurables s = fold measure_obj (sorted_list_of_set measurables) s"

text \<open>
  The times of the measurements of a pass that begins at \<open>t\<close>, where every sleep takes longer than it was
  asked to, by one of the delays.
\<close>

fun measurement_times :: "int list \<Rightarrow> int \<Rightarrow> monitor_action list \<Rightarrow> int list" where
  "measurement_times ds t [] = []"
| "measurement_times ds t (Measure_all # as) = t # measurement_times ds t as"
| "measurement_times [] t (Sleep n # as) = measurement_times [] (t + n * 1000000) as"
| "measurement_times (d # ds) t (Sleep n # as) = measurement_times ds (t + n * 1000000 + d) as"

lemma tod_msec_at:
  assumes "0 < leap" and "leap mod seconds_per_day = 0" and "(leap - seconds_per_day) * billion \<le> t" and "t < leap * billion"
  shows "tod_msec (timex_at leap nano t) = t div 1000000 - (leap - seconds_per_day) * 1000"
proof -
  define s where "s = t div billion"
  have "86400 \<le> leap"
    using assms(1,2) by (intro zdvd_imp_le) (auto simp: seconds_per_day_def)
  moreover have s: "leap - seconds_per_day \<le> s" "s < leap"
    using seconds_bounds assms(3,4) by (simp_all add: s_def)
  ultimately have "0 \<le> s"
    by (simp add: seconds_per_day_def)
  then have "s smod seconds_per_day = s mod seconds_per_day"
    by (simp add: signed_modulo_int_def signed_divide_int_def sgn_if seconds_per_day_def minus_div_mult_eq_mod)
  also have "\<dots> = (s - (leap - seconds_per_day)) mod seconds_per_day"
    using assms(2) by (metis diff_zero mod_diff_right_eq mod_self minus_mod_self2)
  also have "\<dots> = s - (leap - seconds_per_day)"
    using s by (intro mod_pos_pos_trivial) simp_all
  finally have sec: "s smod seconds_per_day = s - (leap - seconds_per_day)" .
  have "t mod billion div 1000 sdiv 1000 = t mod billion div 1000000"
    by (simp add: billion_def signed_divide_int_def sgn_if flip: zdiv_zmult2_eq)
  moreover have "t div 1000000 = t div billion * 1000 + t mod billion div 1000000"
    using div_mult_self1[of 1000000 "t mod billion" "t div billion * 1000"] split_billion(1)[of t]
    by (simp add: billion_def algebra_simps)
  ultimately show ?thesis
    using sec assms(4) by (simp add: tod_msec_def tx_reftime_at posix_at_def s_def algebra_simps)
qed

text \<open>
  A pass that begins on the day before a leap second, not in the first second of it nor later than 750 ms before
  its end, measures at 23:59:59.250, half a second later and half a second after that.
\<close>

lemma measurement_times_pass:
  assumes "0 < leap" and "leap mod seconds_per_day = 0" and "(leap - last_second_of_day) * billion \<le> t"
    and "t < leap * billion - 750000000"
    and m: "m = leap * billion - 750000000 + t mod 1000000 + d\<^sub>1"
  shows "measurement_times (d\<^sub>1 # d\<^sub>2 # d\<^sub>3 # ds) t (monitor_pass (timex_at leap nano t))
    = [m, m + 500000000 + d\<^sub>2, m + 1000000000 + d\<^sub>2 + d\<^sub>3]"
proof -
  have "(leap - seconds_per_day) * billion \<le> t" "t < leap * billion"
    using assms(3,4) by (simp_all add: billion_def day_constants)
  note tod = tod_msec_at[OF assms(1,2) this, of nano]
  have "(leap - seconds_per_day) * 1000 + 1000 \<le> t div 1000000" "t div 1000000 < leap * 1000 - 750"
    using assms(3,4) by (simp_all add: billion_def day_constants)
  moreover have "state_at leap t \<noteq> TIME_OOP"
    using assms(4) by (simp add: state_at_def clock_states billion_def)
  moreover have "t + (leap * 1000 - t div 1000000 - 750) * 1000000 = leap * billion - 750000000 + t mod 1000000"
    using minus_div_mult_eq_mod[of t 1000000] by (simp add: billion_def algebra_simps)
  ultimately show ?thesis
    by (cases ds) (simp_all add: monitor_pass_def tod state_at_timex Let_def m algebra_simps)
qed

text \<open>
  Events in the order of their times. The reference of a packet is no earlier than the packet, and no later
  than any measurement that follows it.
\<close>

fun event_time :: "packet_event \<Rightarrow> int" where
  "event_time (Stamp x) = x"
| "event_time (Measure r) = r"
| "event_time (Correct y) = y"

definition in_order :: "packet_event list \<Rightarrow> bool" where
  "in_order es = sorted_wrt (<) (map event_time es)"

definition pending_ok :: "int set \<Rightarrow> packet_event list \<Rightarrow> (int \<times> int option) list \<Rightarrow> bool" where
  "pending_ok ms es q \<longleftrightarrow>
     (\<forall>m\<in>ms. Measure m \<in> set es \<or> (\<forall>e\<in>set es. m < event_time e))
     \<and> (\<forall>(x, ref)\<in>set q. (\<forall>e\<in>set es. x < event_time e)
          \<and> (\<forall>r. ref = Some r \<longrightarrow> x \<le> r \<and> (\<forall>e\<in>set es. r < event_time e))
          \<and> (\<forall>m\<in>ms. x \<le> m \<longrightarrow> Measure m \<in> set es \<or> (\<exists>r. ref = Some r \<and> r \<le> m)))"

lemma pending_ok_stamp:
  assumes "in_order (Stamp y # es)" and "pending_ok ms (Stamp y # es) q"
  shows "pending_ok ms es (q @ [(y, None)])"
  using assms by (auto simp: pending_ok_def in_order_def)

lemma pending_ok_measure:
  assumes "in_order (Measure m # es)" and "pending_ok ms (Measure m # es) q"
  shows "pending_ok ms es (map (measured_at m) q)"
  using assms by (fastforce simp: pending_ok_def in_order_def measured_at_def split: option.splits)

lemma pending_ok_correct:
  assumes "in_order (Correct y # es)" and "pending_ok ms (Correct y # es) ((x, ref) # q)"
  defines "r \<equiv> (case ref of None \<Rightarrow> y | Some r \<Rightarrow> r)"
  shows "pending_ok ms es q" and "x \<le> r" and "\<forall>m\<in>ms. x \<le> m \<longrightarrow> r \<le> m"
  using assms by (fastforce simp: pending_ok_def in_order_def split: option.splits)+

lemma references_within:
  assumes "in_order es" and "pending_ok ms es pend" and "(x, r) \<in> set (references es pend)"
  shows "x \<le> r \<and> (x \<in> fst ` set pend \<or> Stamp x \<in> set es) \<and> (\<forall>m\<in>ms. x \<le> m \<longrightarrow> r \<le> m)"
  using assms
proof (induction es pend rule: references.induct)
  case (1 q)
  then show ?case
    by simp
next
  case (2 y es q)
  show ?case
    using 2(1)[OF _ pending_ok_stamp[OF 2(2,3)]] 2(2,4) by (auto simp: in_order_def)
next
  case (3 m es q)
  show ?case
    using 3(1)[OF _ pending_ok_measure[OF 3(2,3)]] 3(2,4) by (force simp: in_order_def measured_at_def)
next
  case (4 y es q)
  show ?case
  proof (cases q)
    case Nil
    with 4 show ?thesis
      by (auto simp: in_order_def pending_ok_def)
  next
    case (Cons p q')
    obtain x' ref where p: "p = (x', ref)"
      by force
    note ok = pending_ok_correct[OF 4(3) 4(4)[unfolded Cons p]]
    show ?thesis
      using 4(2)[OF Cons p[symmetric] _ ok(1)] ok(2,3) 4(3,5) Cons p by (auto simp: in_order_def)
  qed
qed

text \<open>
  What the monitor is for: where it measures in the night of a leap second, the time at which a packet is read
  does not matter.
\<close>

lemma monitored_in_time:
  assumes "in_order es" and "0 < leap" and "leap mod seconds_per_day = 0"
    and "(leap - last_second_of_day) * billion \<le> t" and "t < leap * billion - 750000000"
    and "0 \<le> d\<^sub>1" "d\<^sub>1 \<le> 740000000" "0 \<le> d\<^sub>2" "d\<^sub>2 \<le> 490000000" "0 \<le> d\<^sub>3" "d\<^sub>3 \<le> 490000000"
    and "\<forall>m\<in>set (measurement_times [d\<^sub>1, d\<^sub>2, d\<^sub>3] t (monitor_pass (timex_at leap nano t))). Measure m \<in> set es"
    and "\<forall>x. Stamp x \<in> set es \<longrightarrow> (leap - last_second_of_day) * billion \<le> x \<and> x < (leap + last_second_of_day) * billion"
  shows "\<forall>(x, r)\<in>set (references es []). in_time leap x r"
proof safe
  fix x r
  assume r: "(x, r) \<in> set (references es [])"
  define m where "m = leap * billion - 750000000 + t mod 1000000 + d\<^sub>1"
  have ms: "measurement_times [d\<^sub>1, d\<^sub>2, d\<^sub>3] t (monitor_pass (timex_at leap nano t))
    = [m, m + 500000000 + d\<^sub>2, m + 1000000000 + d\<^sub>2 + d\<^sub>3]" (is "_ = ?ms")
    by (rule measurement_times_pass) (use assms m_def in simp_all)
  have "pending_ok (set ?ms) es []"
    using assms(12) unfolding ms pending_ok_def by auto
  note within = references_within[OF assms(1) this r]
  have m_bounds: "leap * billion - 750000000 \<le> m" "m \<le> leap * billion - 9000000"
    using pos_mod_bound[of 1000000 t] pos_mod_sign[of 1000000 t] assms(6,7) by (simp_all add: m_def)
  have "k < x \<or> r \<le> k" if "k \<in> set ?ms" for k
    using within that by (meson not_le)
  then have "m < x \<or> r \<le> m" "m + 500000000 + d\<^sub>2 < x \<or> r \<le> m + 500000000 + d\<^sub>2"
    "m + 1000000000 + d\<^sub>2 + d\<^sub>3 < x \<or> r \<le> m + 1000000000 + d\<^sub>2 + d\<^sub>3"
    by simp_all
  then consider "m + 1000000000 + d\<^sub>2 + d\<^sub>3 < x" | "m + 500000000 + d\<^sub>2 < x" "r \<le> m + 1000000000 + d\<^sub>2 + d\<^sub>3"
    | "m < x" "r \<le> m + 500000000 + d\<^sub>2" | "r \<le> m"
    by blast
  then have "r - x \<le> billion - 1000 \<or> x < (leap - 1) * billion \<or> leap * billion \<le> x"
    by cases (use m_bounds assms(8-11) in \<open>simp_all add: billion_def, linarith+\<close>)
  with within assms(2,3,13) show "in_time leap x r"
    by (simp add: in_time_def)
qed

lemma represents_init: "represents leap nano 0 [] [] [] 0 leap_second_corrector_init"
  by (simp add: represents_def leap_second_corrector_init_def)

text \<open>
  C5: On the night of a leap second the timestamps of packets are corrected to UTC with the leap second
  indicator, exactly and however late the packets are read, when a pass of the monitor began on the day before
  (from its second second to 750 ms before its end): the packets are stamped by a clock that repeats the last
  second of the day, within a day of the leap second on either side, and the sleeps of the monitor are late by
  at most 740 ms, 490 ms and 490 ms. Other measurements may come at any time.
\<close>

lemma leap_second_night_exact:
  assumes "in_order es" and "0 < leap" and "leap mod seconds_per_day = 0"
    and "(leap - last_second_of_day) * billion \<le> t" and "t < leap * billion - 750000000"
    and "0 \<le> d\<^sub>1" "d\<^sub>1 \<le> 740000000" "0 \<le> d\<^sub>2" "d\<^sub>2 \<le> 490000000" "0 \<le> d\<^sub>3" "d\<^sub>3 \<le> 490000000"
    and "\<forall>m\<in>set (measurement_times [d\<^sub>1, d\<^sub>2, d\<^sub>3] t (monitor_pass (timex_at leap nano t))). Measure m \<in> set es"
    and "\<forall>x. Stamp x \<in> set es \<longrightarrow> (leap - last_second_of_day) * billion \<le> x \<and> x < (leap + last_second_of_day) * billion"
    and "length es < 2 ^ 64"
  shows "corrected_run leap nano es [] 0 leap_second_corrector_init = map (\<lambda>(x, r). utc_at leap x) (references es [])"
  by (rule represents_run[OF represents_init _ monitored_in_time[OF assms(1-13)]]) (use assms(14) in simp)

lemma leap_second_night_exact_witness:
  "corrected_run 86400 True
     [Stamp 86399100000000, Measure 86399250000000, Stamp 86399900000000, Measure 86399950000000, Stamp 86400100000000,
      Measure 86400650000000, Stamp 86400900000000, Correct 90000000000000, Correct 90001000000000, Correct 90002000000000,
      Correct 90003000000000] [] 0 leap_second_corrector_init
   = [\<lparr>ts_sec = 86399, ts_nsec = 100000000\<rparr>, \<lparr>ts_sec = 86399, ts_nsec = 900000000\<rparr>,
      \<lparr>ts_sec = 86399, ts_nsec = 1100000000\<rparr>, \<lparr>ts_sec = 86399, ts_nsec = 1900000000\<rparr>]" (is "corrected_run _ _ ?es _ _ _ = _")
proof -
  have "measurement_times [0, 200000000, 200000000] 43200000000000 (monitor_pass (timex_at 86400 True 43200000000000))
      = [86399250000000, 86399950000000, 86400650000000]"
    by code_simp
  then have "corrected_run 86400 True ?es [] 0 leap_second_corrector_init = map (\<lambda>(x, r). utc_at 86400 x) (references ?es [])"
    by (intro leap_second_night_exact[where t = 43200000000000 and d\<^sub>1 = 0 and d\<^sub>2 = 200000000 and d\<^sub>3 = 200000000])
      (auto simp: in_order_def day_constants billion_def)
  also have "\<dots> = [\<lparr>ts_sec = 86399, ts_nsec = 100000000\<rparr>, \<lparr>ts_sec = 86399, ts_nsec = 900000000\<rparr>,
      \<lparr>ts_sec = 86399, ts_nsec = 1100000000\<rparr>, \<lparr>ts_sec = 86399, ts_nsec = 1900000000\<rparr>]"
    by code_simp
  finally show ?thesis .
qed

end
