(* ===== verification/Packet_Record.thy ===== *)
theory Packet_Record
  imports Session_Builder Leap_Second
begin

text \<open>
  The builder of packet records (\<^verbatim>\<open>horace/packet_record_builder.cc\<close>), the socket statistics
  (\<^verbatim>\<open>netif/basic_packet_socket.cc\<close>) and the capture of packets without a ring buffer
  (\<^verbatim>\<open>netif/packet_socket.cc\<close>). The lemmas give the records made for a packet, whole, truncated or
  preceded by others that were lost, and account for the packets lost.
\<close>

section \<open>The builder\<close>

text \<open>
  A pointer to the content of a packet is the list of the octets that can be read from there. The attribute
  that refers to the content is given them when it is made, which is as good as when it is used: they do
  not change before the next packet is read.
\<close>

record packet_record_builder =
  pb_channel :: i32
  pb_pkt_attr :: i32
  pb_origlen_attr :: i32
  pb_rpt_attr :: i32
  pb_buffer :: "hrecord list"
  pb_count :: nat

definition empty_record :: hrecord where
  "empty_record = \<lparr>rec_channel = 0, rec_attributes = []\<rparr>"

definition packet_record_builder_init :: "i32 \<Rightarrow> (session_builder, packet_record_builder) act" where
  "packet_record_builder_init channel =
     bindS (define_attribute ''packet'' type_binary) (\<lambda>pkt.
     bindS (define_attribute ''packet_len'' type_unsigned_integer) (\<lambda>origlen.
     bindS (define_attribute ''repeat'' type_unsigned_integer) (\<lambda>rpt.
     returnS \<lparr>pb_channel = channel, pb_pkt_attr = pkt, pb_origlen_attr = origlen, pb_rpt_attr = rpt,
       pb_buffer = [empty_record, empty_record], pb_count = 0\<rparr>)))"

definition binary_ref :: "i32 \<Rightarrow> nat \<Rightarrow> octets \<Rightarrow> attribute result" where
  "binary_ref i n content =
     (if n \<le> length content then Inr (Binary i (take n content)) else Inl (Undefined_Behaviour ''packet content''))"

definition insert_ts :: "timespec option \<Rightarrow> attribute list \<Rightarrow> attribute list" where
  "insert_ts ts as =
     (case ts of
        None \<Rightarrow> as
      | Some t \<Rightarrow> attr_insert (Timestamp attrid_ts (of_int (ts_sec t)) (of_int (ts_nsec t))) as)"

definition add_record :: "hrecord \<Rightarrow> packet_record_builder \<Rightarrow> packet_record_builder" where
  "add_record r b = b\<lparr>pb_buffer := (pb_buffer b)[pb_count b := r], pb_count := pb_count b + 1\<rparr>"

definition repeat_record :: "timespec option \<Rightarrow> u32 \<Rightarrow> packet_record_builder \<Rightarrow> hrecord" where
  "repeat_record ts dropped b =
     \<lparr>rec_channel = pb_channel b,
      rec_attributes = attr_insert (Unsigned_Integer (pb_rpt_attr b) (ucast dropped)) (insert_ts ts [])\<rparr>"

text \<open>
  The parameters are in the order of the definition of the function: the original length comes before the captured
  length, which is the other way round in its declaration and at its calls.
\<close>

definition build_packet ::
  "timespec option \<Rightarrow> octets \<Rightarrow> u64 \<Rightarrow> u64 \<Rightarrow> u32 \<Rightarrow> packet_record_builder \<Rightarrow> packet_record_builder result" where
  "build_packet ts content origlen snaplen dropped b =
     bindE (binary_ref (pb_pkt_attr b) (unat snaplen) content) (\<lambda>pkt.
     let as = attr_insert pkt (insert_ts ts []);
         as' = (if snaplen \<noteq> origlen then attr_insert (Unsigned_Integer (pb_origlen_attr b) origlen) as else as);
         b' = add_record \<lparr>rec_channel = pb_channel b, rec_attributes = as'\<rparr> (b\<lparr>pb_count := 0\<rparr>) in
     Inr (if dropped \<noteq> 0 then add_record (repeat_record ts dropped b) b' else b'))"

definition build_dropped :: "timespec option \<Rightarrow> u32 \<Rightarrow> packet_record_builder \<Rightarrow> packet_record_builder" where
  "build_dropped ts dropped b =
     (if dropped \<noteq> 0 then add_record (repeat_record ts dropped b) (b\<lparr>pb_count := 0\<rparr>) else b\<lparr>pb_count := 0\<rparr>)"

definition next_record :: "packet_record_builder \<Rightarrow> hrecord option \<times> packet_record_builder" where
  "next_record b =
     (if pb_count b = 0 then (None, b)
      else (Some (pb_buffer b ! (pb_count b - 1)), b\<lparr>pb_count := pb_count b - 1\<rparr>))"

section \<open>Statistics of the socket\<close>

record basic_packet_socket =
  bs_packets :: u64
  bs_drops :: u32
  bs_lsc :: leap_second_corrector

text \<open>
  What \<^verbatim>\<open>PACKET_STATISTICS\<close> gives: the packets since it was last asked, those that were lost included, and
  the packets lost.
\<close>

record packet_stats =
  tp_packets :: u32
  tp_drops :: u32

definition update_stats :: "packet_stats \<Rightarrow> basic_packet_socket \<Rightarrow> basic_packet_socket" where
  "update_stats stats s = s\<lparr>bs_packets := bs_packets s + ucast (tp_packets stats - tp_drops stats),
     bs_drops := bs_drops s + tp_drops stats\<rparr>"

definition measure_socket :: "packet_stats \<Rightarrow> timex \<Rightarrow> basic_packet_socket \<Rightarrow> basic_packet_socket" where
  "measure_socket stats tmx s =
     (let s' = update_stats stats s in s'\<lparr>bs_lsc := record_clock_state tmx (bs_packets s') (bs_lsc s')\<rparr>)"

definition drops :: "packet_stats \<Rightarrow> basic_packet_socket \<Rightarrow> u32 \<times> basic_packet_socket" where
  "drops stats s = (let s' = update_stats stats s in (bs_drops s', s'\<lparr>bs_drops := 0\<rparr>))"

definition correct_socket :: "bool \<Rightarrow> timex \<Rightarrow> timespec \<Rightarrow> basic_packet_socket \<Rightarrow> timespec \<times> basic_packet_socket" where
  "correct_socket detect tmx ts s =
     (if detect then (case correct tmx ts (bs_lsc s) of (ts', lc) \<Rightarrow> (ts', s\<lparr>bs_lsc := lc\<rparr>)) else (ts, s))"

section \<open>Capture without a ring buffer\<close>

datatype control_message =
    Timestamp_Message timespec
  | Overflow_Message u32
  | Other_Message

text \<open>
  What \<^verbatim>\<open>recvmsg\<close> gives with \<^verbatim>\<open>MSG_TRUNC\<close>: the original length, the octets put in the
  buffer, the flag, and the control messages.
\<close>

record received =
  rm_length :: u64
  rm_octets :: octets
  rm_trunc :: bool
  rm_control :: "control_message list"

record packet_socket =
  ps_socket :: basic_packet_socket
  ps_snaplen :: u64
  ps_buffer :: octets
  ps_drop_count :: u32
  ps_builder :: packet_record_builder

fun scan_control :: "control_message list \<Rightarrow> timespec option \<Rightarrow> u32 \<Rightarrow> u32 \<Rightarrow> timespec option \<times> u32 \<times> u32" where
  "scan_control [] ts drop_diff drop_count = (ts, drop_diff, drop_count)"
| "scan_control (Timestamp_Message t # ms) ts drop_diff drop_count = scan_control ms (Some t) drop_diff drop_count"
| "scan_control (Overflow_Message n # ms) ts drop_diff drop_count = scan_control ms ts (n - drop_count) n"
| "scan_control (Other_Message # ms) ts drop_diff drop_count = scan_control ms ts drop_diff drop_count"

definition correct_optional ::
  "bool \<Rightarrow> timex \<Rightarrow> timespec option \<Rightarrow> basic_packet_socket \<Rightarrow> (timespec option \<times> basic_packet_socket) result" where
  "correct_optional detect tmx ts s =
     (case ts of
        Some t \<Rightarrow> (case correct_socket detect tmx t s of (t', s') \<Rightarrow> Inr (Some t', s'))
      | None \<Rightarrow> if detect then Inl (Undefined_Behaviour ''null pointer'') else Inr (None, s))"

definition packet_socket_build ::
  "bool \<Rightarrow> timex \<Rightarrow> received \<Rightarrow> packet_socket \<Rightarrow> packet_socket result" where
  "packet_socket_build detect tmx m p =
     (let buffer = rm_octets m @ drop (length (rm_octets m)) (ps_buffer p);
          pkt_snaplen = (if rm_trunc m then ps_snaplen p else rm_length m);
          (ts, drop_diff, drop_count) = scan_control (rm_control m) None 0 (ps_drop_count p) in
      bindE (correct_optional detect tmx ts (ps_socket p)) (\<lambda>(ts', socket).
      bindE (build_packet ts' buffer pkt_snaplen (rm_length m) drop_diff (ps_builder p)) (\<lambda>b.
      Inr (p\<lparr>ps_socket := socket, ps_buffer := buffer, ps_drop_count := drop_count, ps_builder := b\<rparr>))))"

definition packet_socket_read :: "bool \<Rightarrow> timex \<Rightarrow> received \<Rightarrow> packet_socket \<Rightarrow> (hrecord option \<times> packet_socket) result" where
  "packet_socket_read detect tmx m p =
     (case next_record (ps_builder p) of
        (Some r, b) \<Rightarrow> Inr (Some r, p\<lparr>ps_builder := b\<rparr>)
      | (None, _) \<Rightarrow>
          bindE (packet_socket_build detect tmx m p) (\<lambda>p'.
          case next_record (ps_builder p') of (r, b) \<Rightarrow> Inr (r, p'\<lparr>ps_builder := b\<rparr>)))"

definition INT_MAX :: nat where "INT_MAX = 2 ^ 31 - 1"

text \<open>
  The counter of lost packets and those of the statistics are not initialised: \<open>junk\<close> is what
  the memory held.
\<close>

definition packet_socket_init ::
  "basic_packet_socket \<Rightarrow> u32 \<Rightarrow> packet_record_builder \<Rightarrow> u64 \<Rightarrow> u64 \<Rightarrow> packet_socket result" where
  "packet_socket_init socket junk b snaplen buffer_size =
     (if unat buffer_size > INT_MAX then Inl (Endpoint_Error ''receive buffer size too large'')
      else Inr \<lparr>ps_socket = socket, ps_snaplen = snaplen, ps_buffer = replicate (unat snaplen) 0,
        ps_drop_count = junk, ps_builder = b\<rparr>)"

definition basic_packet_socket_init :: "u64 \<Rightarrow> u32 \<Rightarrow> basic_packet_socket" where
  "basic_packet_socket_init junk junk' =
     \<lparr>bs_packets = junk, bs_drops = junk', bs_lsc = leap_second_corrector_init\<rparr>"

section \<open>The records that wait\<close>

text \<open>
  The records in the order in which they will be returned, the last one built first.
\<close>

definition builder_ok :: "packet_record_builder \<Rightarrow> bool" where
  "builder_ok b \<longleftrightarrow> length (pb_buffer b) = 2 \<and> pb_count b \<le> 2"

definition pending :: "packet_record_builder \<Rightarrow> hrecord list" where
  "pending b = rev (take (pb_count b) (pb_buffer b))"

lemma next_record_none: "pending b = [] \<Longrightarrow> builder_ok b \<Longrightarrow> next_record b = (None, b)"
  by (auto simp: pending_def next_record_def builder_ok_def)

lemma next_record_some:
  assumes "pending b = r # rs" and "builder_ok b"
  obtains b' where "next_record b = (Some r, b')" "pending b' = rs" "builder_ok b'" "b' = b\<lparr>pb_count := pb_count b'\<rparr>"
proof -
  obtain n where n: "pb_count b = Suc n"
    using assms(1) by (cases "pb_count b") (simp_all add: pending_def)
  then have "r = pb_buffer b ! n" "rs = rev (take n (pb_buffer b))"
    using assms by (simp_all add: pending_def builder_ok_def take_Suc_conv_app_nth)
  with n assms(2) that[of "b\<lparr>pb_count := n\<rparr>"] show ?thesis
    by (simp add: next_record_def pending_def builder_ok_def)
qed

lemma pending_add_record:
  "pb_count b < length (pb_buffer b) \<Longrightarrow> pending (add_record r b) = r # pending b"
  by (simp add: pending_def add_record_def take_Suc_conv_app_nth take_update_cancel)

definition packet_record :: "timespec option \<Rightarrow> octets \<Rightarrow> u64 option \<Rightarrow> packet_record_builder \<Rightarrow> hrecord" where
  "packet_record ts octets origlen b =
     \<lparr>rec_channel = pb_channel b, rec_attributes =
        (let as = attr_insert (Binary (pb_pkt_attr b) octets) (insert_ts ts []) in
         case origlen of None \<Rightarrow> as | Some n \<Rightarrow> attr_insert (Unsigned_Integer (pb_origlen_attr b) n) as)\<rparr>"

definition lost_records :: "timespec option \<Rightarrow> u32 \<Rightarrow> packet_record_builder \<Rightarrow> hrecord list" where
  "lost_records ts dropped b = (if dropped = 0 then [] else [repeat_record ts dropped b])"

definition same_builder :: "packet_record_builder \<Rightarrow> packet_record_builder \<Rightarrow> bool" where
  "same_builder b b' \<longleftrightarrow> pb_channel b' = pb_channel b \<and> pb_pkt_attr b' = pb_pkt_attr b
     \<and> pb_origlen_attr b' = pb_origlen_attr b \<and> pb_rpt_attr b' = pb_rpt_attr b"

text \<open>
  What the calls give, which pass the captured length and then the original length. The octets of the
  record are as many as the packet had, and the length noted with them is that of what was captured.
\<close>

lemma build_packet_pending:
  assumes "builder_ok b" and "unat len \<le> length content"
  obtains b' where "build_packet ts content captured len dropped b = Inr b'" "builder_ok b'" "same_builder b b'"
    "pending b' = lost_records ts dropped b
       @ [packet_record ts (take (unat len) content) (if len = captured then None else Some captured) b]"
proof -
  let ?r = "packet_record ts (take (unat len) content) (if len = captured then None else Some captured) b"
  define b1 where "b1 = add_record ?r (b\<lparr>pb_count := 0\<rparr>)"
  have b1: "length (pb_buffer b1) = 2" "pb_count b1 = 1" "same_builder b b1" "pending b1 = [?r]"
    using assms(1) by (simp_all add: b1_def builder_ok_def add_record_def same_builder_def pending_def take_Suc_conv_app_nth)
  let ?b' = "if dropped \<noteq> 0 then add_record (repeat_record ts dropped b) b1 else b1"
  have "build_packet ts content captured len dropped b = Inr ?b'"
    using assms(2) by (simp add: build_packet_def binary_ref_def packet_record_def Let_def b1_def)
  moreover have "pending ?b' = lost_records ts dropped b @ [?r]"
    using b1 by (simp add: lost_records_def pending_add_record)
  moreover have "builder_ok ?b'" "same_builder b ?b'"
    using b1 by (simp_all add: builder_ok_def same_builder_def add_record_def)
  ultimately show ?thesis
    using that by blast
qed

text \<open>
  A packet of which fewer octets were captured, and no more can be read, ends in octets that are not
  there; what the declaration says would give the octets captured and the original length.
\<close>

lemma build_packet_truncated:
  "length content < unat origlen \<Longrightarrow>
     build_packet ts content captured origlen dropped b = Inl (Undefined_Behaviour ''packet content'')"
  by (simp add: build_packet_def binary_ref_def)

lemma build_packet_declared:
  assumes "builder_ok b" and "unat captured \<le> length content" and "captured \<noteq> origlen"
  obtains b' where "build_packet ts content origlen captured 0 b = Inr b'"
    "pending b' = [packet_record ts (take (unat captured) content) (Some origlen) b]"
proof -
  from build_packet_pending[OF assms(1,2), of ts origlen 0] obtain b' where
    "build_packet ts content origlen captured 0 b = Inr b'"
    "pending b' = lost_records ts 0 b @ [packet_record ts (take (unat captured) content) (if captured = origlen then None else Some origlen) b]"
    by blast
  with assms(3) that show ?thesis
    by (simp add: lost_records_def)
qed

section \<open>The packets in records\<close>

definition content_of :: "i32 \<Rightarrow> attribute \<Rightarrow> octets list" where
  "content_of i a = (case a of Binary j c \<Rightarrow> if j = i then [c] else [] | _ \<Rightarrow> [])"

definition packets_of :: "i32 \<Rightarrow> hrecord \<Rightarrow> octets list" where
  "packets_of i r = concat (map (content_of i) (rec_attributes r))"

lemma contents_insert:
  "content_of i a = [] \<Longrightarrow> concat (map (content_of i) (attr_insert a as)) = concat (map (content_of i) as)"
  "concat (map (content_of i) as) = [] \<Longrightarrow> concat (map (content_of i) (attr_insert a as)) = content_of i a"
proof -
  have eq: "concat (map f as) = concat (map f (takeWhile P as)) @ concat (map f (dropWhile P as))"
    for f :: "attribute \<Rightarrow> octets list" and as P
    by (metis concat_append map_append takeWhile_dropWhile_id)
  show "content_of i a = [] \<Longrightarrow> concat (map (content_of i) (attr_insert a as)) = concat (map (content_of i) as)"
    unfolding attr_insert_def by (simp add: eq[of "content_of i" as "\<lambda>x. \<not> attrid_less a x"])
  show "concat (map (content_of i) as) = [] \<Longrightarrow> concat (map (content_of i) (attr_insert a as)) = content_of i a"
    unfolding eq[of "content_of i" as "\<lambda>x. \<not> attrid_less a x"] append_is_Nil_conv attr_insert_def
    by (elim conjE) (simp only: map_append concat_append list.map concat.simps append_Nil append_Nil2)
qed

lemma contents_ts: "concat (map (content_of i) (insert_ts ts [])) = []"
  by (cases ts) (simp_all add: insert_ts_def attr_insert_def content_of_def)

lemma packets_of_packet_record: "packets_of (pb_pkt_attr b) (packet_record ts octets origlen b) = [octets]"
proof -
  have "concat (map (content_of (pb_pkt_attr b)) (attr_insert (Binary (pb_pkt_attr b) octets) (insert_ts ts []))) = [octets]"
    by (subst contents_insert(2)[OF contents_ts]) (simp add: content_of_def)
  then show ?thesis
    by (simp add: packets_of_def packet_record_def Let_def contents_insert(1) content_of_def split: option.split)
qed

lemma packets_of_repeat_record: "packets_of i (repeat_record ts dropped b) = []"
  using contents_insert(1)[of i "Unsigned_Integer (pb_rpt_attr b) (ucast dropped)" "insert_ts ts []"]
  by (simp add: packets_of_def repeat_record_def contents_ts content_of_def)

lemma packets_of_lost: "concat (map (packets_of i) (lost_records ts dropped b)) = []"
  by (simp add: lost_records_def packets_of_repeat_record)

section \<open>The number of packets lost\<close>

text \<open>
  Asking for statistics, with or without taking the count of those lost.
\<close>

datatype stats_event = Measured packet_stats timex | Asked packet_stats

fun lost_reported :: "stats_event list \<Rightarrow> basic_packet_socket \<Rightarrow> u32 \<times> basic_packet_socket" where
  "lost_reported [] s = (0, s)"
| "lost_reported (Measured stats tmx # es) s = lost_reported es (measure_socket stats tmx s)"
| "lost_reported (Asked stats # es) s =
     (let (n, s1) = drops stats s; (m, s2) = lost_reported es s1 in (n + m, s2))"

fun event_stats :: "stats_event \<Rightarrow> packet_stats" where
  "event_stats (Measured stats tmx) = stats"
| "event_stats (Asked stats) = stats"

text \<open>
  Each packet lost is reported once or waits to be; what the memory held at first is reported with them.
\<close>

lemma lost_reported_sum:
  "lost_reported es s = (n, s') \<Longrightarrow>
     n + bs_drops s' = bs_drops s + sum_list (map (tp_drops \<circ> event_stats) es)
     \<and> bs_packets s' = bs_packets s + sum_list (map ((\<lambda>st. ucast (tp_packets st - tp_drops st)) \<circ> event_stats) es)"
proof (induction es s arbitrary: n s' rule: lost_reported.induct)
  case (1 s)
  then show ?case
    by simp
next
  case (2 stats tmx es s)
  have "bs_drops (measure_socket stats tmx s) = bs_drops s + tp_drops stats"
    "bs_packets (measure_socket stats tmx s) = bs_packets s + ucast (tp_packets stats - tp_drops stats)"
    by (simp_all add: measure_socket_def update_stats_def Let_def)
  moreover have "lost_reported es (measure_socket stats tmx s) = (n, s')"
    using 2(2) by simp
  note 2(1)[OF this]
  ultimately show ?case
    by (simp add: add.assoc)
next
  case (3 stats es s)
  obtain k s1 where k: "drops stats s = (k, s1)"
    by force
  obtain m s2 where m: "lost_reported es s1 = (m, s2)"
    by force
  have n: "n = k + m" "s' = s2"
    using 3(2) k m by simp_all
  have s1: "k = bs_drops s + tp_drops stats" "bs_drops s1 = 0"
    "bs_packets s1 = bs_packets s + ucast (tp_packets stats - tp_drops stats)"
    using k by (auto simp: drops_def update_stats_def Let_def)
  have "m + bs_drops s2 = sum_list (map (tp_drops \<circ> event_stats) es)"
    "bs_packets s2 = bs_packets s1 + sum_list (map ((\<lambda>st. ucast (tp_packets st - tp_drops st)) \<circ> event_stats) es)"
    using 3(1)[OF k[symmetric] refl m] unfolding s1(2) by (simp_all add: o_def)
  then show ?case
    unfolding n s1(1,3) by (simp add: add.assoc o_def)
qed

section \<open>Truncated packets\<close>

lemma scan_control_keeps: "scan_control ms (Some t) d n = (ts, d', n') \<Longrightarrow> ts \<noteq> None"
  by (induction ms "Some t" d n arbitrary: t rule: scan_control.induct) auto

lemma scan_control_ts: "Timestamp_Message t \<in> set ms \<Longrightarrow> scan_control ms ts d n = (ts', d', n') \<Longrightarrow> ts' \<noteq> None"
  by (induction ms ts d n rule: scan_control.induct) (auto dest: scan_control_keeps)

text \<open>
  C34: A packet longer than the snaplen, of which the kernel put as many octets into the buffer as it holds, is
  recorded with its original length: the octets after the end of the buffer are read.
\<close>

lemma truncated_packet_overrun:
  assumes "pending (ps_builder p) = []" and "builder_ok (ps_builder p)" and "rm_trunc m"
    and "length (ps_buffer p) = unat (ps_snaplen p)" and "length (rm_octets m) = unat (ps_snaplen p)"
    and "unat (ps_snaplen p) < unat (rm_length m)" and "Timestamp_Message t \<in> set (rm_control m)"
  shows "packet_socket_read detect tmx m p = Inl (Undefined_Behaviour ''packet content'')"
proof -
  obtain ts d n where scan: "scan_control (rm_control m) None 0 (ps_drop_count p) = (ts, d, n)"
    by (metis prod_cases3)
  with scan_control_ts[OF assms(7)] obtain t' where ts: "ts = Some t'"
    by blast
  obtain t'' s where c: "correct_socket detect tmx t' (ps_socket p) = (t'', s)"
    by force
  have "build_packet (Some t'') (rm_octets m @ drop (length (rm_octets m)) (ps_buffer p)) (ps_snaplen p) (rm_length m) d (ps_builder p)
      = Inl (Undefined_Behaviour ''packet content'')"
    using assms(4-6) by (intro build_packet_truncated) simp
  then show ?thesis
    using next_record_none[OF assms(1,2)] assms(3) ts c
    by (simp add: packet_socket_read_def packet_socket_build_def Let_def scan correct_optional_def)
qed

lemma truncated_packet_overrun_witness:
  "packet_socket_read True (timex_at 86400 True 0) \<lparr>rm_length = 3, rm_octets = [1, 2], rm_trunc = True,
      rm_control = [Timestamp_Message \<lparr>ts_sec = 5, ts_nsec = 6\<rparr>]\<rparr>
    \<lparr>ps_socket = basic_packet_socket_init 0 0, ps_snaplen = 2, ps_buffer = [0, 0], ps_drop_count = 0, ps_builder =
      \<lparr>pb_channel = 0, pb_pkt_attr = 0, pb_origlen_attr = 1, pb_rpt_attr = 2, pb_buffer = [empty_record, empty_record], pb_count = 0\<rparr>\<rparr>
   = Inl (Undefined_Behaviour ''packet content'')"
  by (rule truncated_packet_overrun[where t = "\<lparr>ts_sec = 5, ts_nsec = 6\<rparr>"]) (simp_all add: pending_def builder_ok_def)

end
