(* ===== verification/Uri.thy ===== *)
theory Uri
  imports Inet6_Netblock
begin

text \<open>
  Uniform resource identifiers (\<^verbatim>\<open>horace/uri.cc\<close>) and their query strings
  (\<^verbatim>\<open>horace/query_string.cc\<close>). The lemmas show that the text of an identifier can be had back from its
  components, and that a query string gives the parameters it was encoded from.
\<close>

section \<open>Identifiers\<close>

record uri =
  uri_scheme :: "string option"
  uri_authority :: "string option"
  uri_path :: string
  uri_query :: "string option"
  uri_fragment :: "string option"

definition before :: "string \<Rightarrow> string \<Rightarrow> string" where
  "before marks s = takeWhile (\<lambda>c. c \<notin> set marks) s"

definition from_mark :: "string \<Rightarrow> string \<Rightarrow> string" where
  "from_mark marks s = dropWhile (\<lambda>c. c \<notin> set marks) s"

definition parse_scheme :: "string \<Rightarrow> string option \<times> string" where
  "parse_scheme s = (if CHR '':'' \<in> set s then (Some (before '':'' s), tl (from_mark '':'' s)) else (None, s))"

definition parse_authority :: "string \<Rightarrow> string option \<times> string" where
  "parse_authority s =
     (if take 2 s = ''//'' then (Some (before ''/?#'' (drop 2 s)), from_mark ''/?#'' (drop 2 s)) else (None, s))"

definition parse_query :: "string \<Rightarrow> string option \<times> string" where
  "parse_query s =
     (if take 1 s = ''?'' then (Some (before ''#'' (drop 1 s)), from_mark ''#'' (drop 1 s)) else (None, s))"

definition parse_fragment :: "string \<Rightarrow> string option \<times> string" where
  "parse_fragment s = (if take 1 s = ''#'' then (Some (drop 1 s), []) else (None, s))"

definition parse_uri :: "string \<Rightarrow> uri result" where
  "parse_uri s =
     (let (scheme, s1) = parse_scheme s;
          (authority, s2) = parse_authority s1;
          path = before ''?#'' s2;
          (query, s3) = parse_query (from_mark ''?#'' s2);
          (fragment, s4) = parse_fragment s3 in
      if s4 \<noteq> [] then Inl (Logic_Error ''internal error while parsing URI'')
      else Inr \<lparr>uri_scheme = scheme, uri_authority = authority, uri_path = path, uri_query = query,
        uri_fragment = fragment\<rparr>)"

definition uri_text :: "uri \<Rightarrow> string" where
  "uri_text u =
     (case uri_scheme u of None \<Rightarrow> [] | Some s \<Rightarrow> s @ '':'')
     @ (case uri_authority u of None \<Rightarrow> [] | Some s \<Rightarrow> ''//'' @ s)
     @ uri_path u
     @ (case uri_query u of None \<Rightarrow> [] | Some s \<Rightarrow> ''?'' @ s)
     @ (case uri_fragment u of None \<Rightarrow> [] | Some s \<Rightarrow> ''#'' @ s)"

lemma before_from [simp]: "before marks s @ from_mark marks s = s"
  by (simp add: before_def from_mark_def)

lemma from_mark_cases: "from_mark marks s = [] \<or> (\<exists>c r. c \<in> set marks \<and> from_mark marks s = c # r)"
proof (cases "from_mark marks s")
  case (Cons c r)
  then show ?thesis
    using hd_dropWhile[of "\<lambda>c. c \<notin> set marks" s] by (simp add: from_mark_def)
qed simp

lemma take_mark: "take (length p) s = p \<Longrightarrow> p @ drop (length p) s = s"
  using append_take_drop_id[of "length p" s] by simp

lemma parse_scheme_text:
  "parse_scheme s = (sch, r) \<Longrightarrow> (case sch of None \<Rightarrow> [] | Some s \<Rightarrow> s @ '':'') @ r = s"
proof -
  assume p: "parse_scheme s = (sch, r)"
  have "from_mark '':'' s = CHR '':'' # tl (from_mark '':'' s)" if "CHR '':'' \<in> set s"
    using that from_mark_cases[of "'':''" s] by (auto simp: from_mark_def dropWhile_eq_Nil_conv)
  then have "before '':'' s @ CHR '':'' # tl (from_mark '':'' s) = s" if "CHR '':'' \<in> set s"
    using that before_from[of "'':''" s] by simp
  with p show ?thesis
    by (auto simp: parse_scheme_def split: if_splits)
qed

lemma parse_authority_text:
  "parse_authority s = (a, r) \<Longrightarrow> (case a of None \<Rightarrow> [] | Some s \<Rightarrow> ''//'' @ s) @ r = s"
  using take_mark[of "''//''" s] by (auto simp: parse_authority_def numeral_2_eq_2 split: if_splits)

lemma parse_query_text:
  "parse_query s = (q, r) \<Longrightarrow> (case q of None \<Rightarrow> [] | Some s \<Rightarrow> ''?'' @ s) @ r = s"
  using take_mark[of "''?''" s] by (auto simp: parse_query_def split: if_splits)

lemma parse_fragment_text:
  "parse_fragment s = (f, r) \<Longrightarrow> (case f of None \<Rightarrow> [] | Some s \<Rightarrow> ''#'' @ s) @ r = s"
  using take_mark[of "''#''" s] by (auto simp: parse_fragment_def split: if_splits)

lemma parse_tail_complete: "snd (parse_fragment (snd (parse_query (from_mark ''?#'' s)))) = []"
  using from_mark_cases[of "''?#''" s] from_mark_cases[of "''#''" "drop 1 (from_mark ''?#'' s)"]
  by (auto simp: parse_query_def parse_fragment_def)

text \<open>
  C32: Every string is a uniform resource identifier to the parser: it never ends in its logic error, and the
  text of the components it makes is the string.
\<close>

lemma parse_uri_text: "\<exists>u. parse_uri s = Inr u \<and> uri_text u = s"
proof -
  obtain scheme s1 where 1: "parse_scheme s = (scheme, s1)" by force
  obtain authority s2 where 2: "parse_authority s1 = (authority, s2)" by force
  obtain query s3 where 3: "parse_query (from_mark ''?#'' s2) = (query, s3)" by force
  obtain fragment s4 where 4: "parse_fragment s3 = (fragment, s4)" by force
  have "s4 = []"
    using parse_tail_complete[of s2] 3 4 by simp
  then show ?thesis
    using parse_scheme_text[OF 1] parse_authority_text[OF 2] parse_query_text[OF 3] parse_fragment_text[OF 4]
      before_from[of "''?#''" s2]
    by (simp add: parse_uri_def uri_text_def 1 2 3 4)
qed

section \<open>Query strings\<close>

text \<open>
  \<^verbatim>\<open>isxdigit\<close> is true of the digits that have a \<^const>\<open>hex_value\<close>.
\<close>

fun percent_decode :: "string \<Rightarrow> string" where
  "percent_decode [] = []"
| "percent_decode (c # cs) =
     (if c \<noteq> CHR ''%'' then c # percent_decode cs
      else
        (case cs of
           h # l # rest \<Rightarrow>
             (case (hex_value h, hex_value l) of
                (Some m, Some n) \<Rightarrow> char_of (16 * m + n) # percent_decode rest
              | _ \<Rightarrow> CHR ''%'' # percent_decode cs)
         | _ \<Rightarrow> CHR ''%'' # percent_decode cs))"

definition plus_to_space :: "string \<Rightarrow> string" where
  "plus_to_space s = map (\<lambda>c. if c = CHR ''+'' then CHR '' '' else c) s"

definition decode_component :: "string \<Rightarrow> string" where
  "decode_component s = percent_decode (plus_to_space s)"

type_synonym parameters = "string \<rightharpoonup> string"

definition add_parameter :: "string \<Rightarrow> parameters \<Rightarrow> parameters" where
  "add_parameter param ps =
     (if param = [] then ps
      else
        (case find_char (CHR ''='') param of
           None \<Rightarrow> ps(decode_component param \<mapsto> decode_component [])
         | Some k \<Rightarrow> ps(decode_component (take k param) \<mapsto> decode_component (drop (k + 1) param))))"

function query_loop :: "string \<Rightarrow> parameters \<Rightarrow> parameters" where
  "query_loop s ps =
     (if s = [] then ps
      else
        (case find_char (CHR ''&'') s of
           None \<Rightarrow> add_parameter s ps
         | Some k \<Rightarrow> query_loop (drop (k + 1) s) (add_parameter (take k s) ps)))"
  by pat_completeness auto
termination
  by (relation "measure (\<lambda>(s, ps). length s)") auto

declare query_loop.simps [simp del]

definition query_string :: "string \<Rightarrow> parameters" where
  "query_string s = query_loop s Map.empty"

section \<open>Values of parameters\<close>

text \<open>
  \<^verbatim>\<open>std::stol\<close>: white space, a sign, and the digits that follow; what comes after them is not looked at.
\<close>

definition digits_value :: "string \<Rightarrow> int option" where
  "digits_value s = (let ds = takeWhile is_digit s in if ds = [] then None else Some (int (dec_val ds)))"

definition stol :: "string \<Rightarrow> int result" where
  "stol s =
     (let t = dropWhile is_space s;
          v = (if take 1 t = ''-'' then map_option uminus (digits_value (drop 1 t))
               else if take 1 t = ''+'' then digits_value (drop 1 t)
               else digits_value t) in
      case v of
        None \<Rightarrow> Inl (Invalid_Argument ''stol'')
      | Some n \<Rightarrow> if - (2 ^ 63) \<le> n \<and> n < 2 ^ 63 then Inr n else Inl (Out_Of_Range ''stol''))"

definition find_string :: "string \<Rightarrow> parameters \<Rightarrow> string option" where
  "find_string name ps = ps name"

definition find_long :: "string \<Rightarrow> parameters \<Rightarrow> int option result" where
  "find_long name ps =
     (case ps name of
        None \<Rightarrow> Inr None
      | Some v \<Rightarrow> bindE (stol v) (\<lambda>n. Inr (Some n)))"

definition find_bool :: "string \<Rightarrow> parameters \<Rightarrow> bool option" where
  "find_bool name ps =
     (case ps name of
        None \<Rightarrow> None
      | Some v \<Rightarrow> if v = ''true'' then Some True else if v = ''false'' then Some False else None)"

section \<open>What is decoded\<close>

text \<open>
  How text can be encoded as a name or value: a character as itself, a space as a plus sign, any
  character by the value of two hexadecimal digits.
\<close>

inductive encodes :: "string \<Rightarrow> string \<Rightarrow> bool" where
  nil: "encodes [] []"
| literal: "c \<notin> set ''%&=+'' \<Longrightarrow> encodes s t \<Longrightarrow> encodes (c # s) (c # t)"
| space: "encodes s t \<Longrightarrow> encodes (CHR '' '' # s) (CHR ''+'' # t)"
| percent: "hex_value h = Some m \<Longrightarrow> hex_value l = Some n \<Longrightarrow> encodes s t \<Longrightarrow>
    encodes (char_of (16 * m + n) # s) (CHR ''%'' # h # l # t)"

lemma hex_value_marks [simp]:
  "hex_value (CHR ''+'') = None" "hex_value (CHR ''%'') = None" "hex_value (CHR ''&'') = None" "hex_value (CHR ''='') = None"
  by (simp_all add: hex_value_def)

lemma encodes_decode: "encodes s t \<Longrightarrow> decode_component t = s"
proof (induction rule: encodes.induct)
  case (percent h m l n s t)
  then have "h \<noteq> CHR ''+''" "l \<noteq> CHR ''+''"
    by auto
  with percent show ?case
    by (simp add: decode_component_def plus_to_space_def)
qed (auto simp: decode_component_def plus_to_space_def)

lemma encodes_marks: "encodes s t \<Longrightarrow> CHR ''&'' \<notin> set t \<and> CHR ''='' \<notin> set t"
proof (induction rule: encodes.induct)
  case (percent h m l n s t)
  then show ?case
    using hex_value_marks(3,4) by (auto simp del: hex_value_marks)
qed auto

fun query_text :: "(string \<times> string) list \<Rightarrow> string" where
  "query_text [] = []"
| "query_text [(n, v)] = n @ CHR ''='' # v"
| "query_text ((n, v) # q # qs) = n @ CHR ''='' # v @ CHR ''&'' # query_text (q # qs)"

definition encoded :: "string \<times> string \<Rightarrow> string \<times> string \<Rightarrow> bool" where
  "encoded p q \<longleftrightarrow> encodes (fst p) (fst q) \<and> encodes (snd p) (snd q)"

lemma add_parameter_encoded:
  assumes "encoded p q"
  shows "add_parameter (fst q @ CHR ''='' # snd q) ps = ps(fst p \<mapsto> snd p)"
  using assms encodes_marks[of "fst p" "fst q"]
  by (auto simp: add_parameter_def encoded_def find_char_append encodes_decode)

lemma query_loop_encoded: "list_all2 encoded ps qs \<Longrightarrow> query_loop (query_text qs) m = m ++ map_of (rev ps)"
proof (induction qs arbitrary: ps m rule: query_text.induct)
  case 1
  then show ?case
    by (simp add: query_loop.simps)
next
  case (2 n v)
  then obtain p where p: "ps = [p]" "encoded p (n, v)"
    by (auto simp: list_all2_Cons2)
  then have "CHR ''&'' \<notin> set (n @ CHR ''='' # v)"
    using encodes_marks by (fastforce simp: encoded_def)
  then show ?case
    using add_parameter_encoded[OF p(2)] p(1) by (simp add: query_loop.simps find_char_None map_add_def fun_eq_iff)
next
  case (3 n v q qs)
  then obtain p ps' where p: "ps = p # ps'" "encoded p (n, v)" "list_all2 encoded ps' (q # qs)"
    by (auto simp: list_all2_Cons2)
  then have "CHR ''&'' \<notin> set (n @ CHR ''='' # v)"
    using encodes_marks by (fastforce simp: encoded_def)
  from find_char_append[OF this, of "query_text (q # qs)"] have
    "query_loop (query_text ((n, v) # q # qs)) m = query_loop (query_text (q # qs)) (m(fst p \<mapsto> snd p))"
    using add_parameter_encoded[OF p(2)] by (subst query_loop.simps) simp
  also have "\<dots> = m(fst p \<mapsto> snd p) ++ map_of (rev ps')"
    using 3(1)[OF p(3)] .
  finally show ?case
    using p(1) by (simp add: fun_eq_iff map_add_def map_of_append split: option.splits)
qed

text \<open>
  C33: The parameters of a query string are the names and values it was encoded from, whichever characters
  were written as hexadecimal digits, the last value of a name that occurs more than once.
\<close>

lemma query_string_encoded: "list_all2 encoded ps qs \<Longrightarrow> query_string (query_text qs) = map_of (rev ps)"
  by (simp add: query_string_def query_loop_encoded)

lemma hex_values:
  shows hex_2: "hex_value (CHR ''2'') = Some 2" and hex_3: "hex_value (CHR ''3'') = Some 3"
    and hex_6: "hex_value (CHR ''6'') = Some 6" and hex_d: "hex_value (CHR ''d'') = Some 13"
  by (simp_all add: hex_value_def)

lemma marks_of_char: "char_of (38 :: nat) = CHR ''&''" "char_of (61 :: nat) = CHR ''=''"
  by code_simp+

lemma query_string_encoded_witness:
  "query_string ''a=%26&b%3d=c+d&a=e'' = map_of (rev [(''a'', ''&''), (''b='', ''c d''), (''a'', ''e'')])"
proof -
  have "encodes ''&'' ''%26''" "encodes ''b='' ''b%3d''" "encodes ''c d'' ''c+d''" "encodes ''a'' ''a''" "encodes ''e'' ''e''"
    using percent[OF hex_2 hex_6 encodes.nil] literal[of "CHR ''b''", OF _ percent[OF hex_3 hex_d encodes.nil]]
    by (simp_all add: encodes.intros marks_of_char)
  then have "list_all2 encoded [(''a'', ''&''), (''b='', ''c d''), (''a'', ''e'')] [(''a'', ''%26''), (''b%3d'', ''c+d''), (''a'', ''e'')]"
    by (simp add: encoded_def)
  from query_string_encoded[OF this] show ?thesis
    by simp
qed

end
