(* ===== verification/Endpoints.thy ===== *)
theory Endpoints
  imports Uri Filestore
begin

text \<open>
  The constructors of endpoints (\<^verbatim>\<open>horace/endpoint.cc\<close> and the classes derived from it under
  \<^verbatim>\<open>endpoints\<close>): what they make of the name of an endpoint and its parameters. The lemmas give the
  options read back from names with them.
\<close>

section \<open>The driver of an endpoint\<close>

definition is_alpha :: "char \<Rightarrow> bool" where
  "is_alpha c \<longleftrightarrow> is_alnum c \<and> \<not> is_digit c"

definition endpoint_prefix :: "string \<Rightarrow> string result" where
  "endpoint_prefix name =
     (case find_char (CHR '':'') name of
        None \<Rightarrow> Inl (Endpoint_Error (''missing prefix in endpoint '' @ name))
      | Some index \<Rightarrow>
          (let prefix = take index name in
           if prefix = [] \<or> \<not> is_alpha (prefix ! 0) then Inl (Endpoint_Error (''invalid prefix in endpoint '' @ name))
           else if list_ex (\<lambda>c. \<not> is_alnum c \<and> c \<notin> set ''+.-'') prefix
             then Inl (Endpoint_Error (''invalid prefix in endpoint '' @ name))
           else Inr prefix))"

text \<open>
  Loading the driver and finding \<^verbatim>\<open>make_endpoint\<close> in it, by the pathname of the driver, is a parameter.
\<close>

definition endpoint_make :: "string \<Rightarrow> (string \<Rightarrow> (string \<Rightarrow> 'e result) result) \<Rightarrow> string \<Rightarrow> 'e result" where
  "endpoint_make libdir load name =
     bindE (endpoint_prefix name) (\<lambda>prefix.
     bindE (load (libdir @ ''/endpoints/'' @ prefix @ ''.so'')) (\<lambda>maker.
     maker name))"

section \<open>Options\<close>

definition value_or :: "'a option \<Rightarrow> 'a \<Rightarrow> 'a" where
  "value_or x d = (case x of None \<Rightarrow> d | Some y \<Rightarrow> y)"

text \<open>
  Values of type \<^verbatim>\<open>long\<close> are assigned to unsigned members modulo \<open>2 ^ 64\<close>.
\<close>

definition size_of_long :: "int \<Rightarrow> u64" where
  "size_of_long n = of_int n"

definition long_option :: "string \<Rightarrow> int \<Rightarrow> parameters option \<Rightarrow> int result" where
  "long_option name d query =
     (case query of
        None \<Rightarrow> Inr d
      | Some ps \<Rightarrow> bindE (find_long name ps) (\<lambda>v. Inr (value_or v d)))"

definition bool_option :: "string \<Rightarrow> bool \<Rightarrow> parameters option \<Rightarrow> bool" where
  "bool_option name d query = (case query of None \<Rightarrow> d | Some ps \<Rightarrow> value_or (find_bool name ps) d)"

definition query_parameters :: "uri \<Rightarrow> parameters option" where
  "query_parameters u = map_option query_string (uri_query u)"

definition clock_endpoint :: "string \<Rightarrow> int result" where
  "clock_endpoint name =
     bindE (parse_uri name) (\<lambda>u. long_option ''poll'' 3600 (query_parameters u))"

definition unix_endpoint :: "string \<Rightarrow> (string \<times> int) result" where
  "unix_endpoint name =
     bindE (parse_uri name) (\<lambda>u.
     bindE (long_option ''snaplen'' 262144 (query_parameters u)) (\<lambda>snaplen.
     Inr (uri_path u, snaplen)))"

record tcp_endpoint =
  te_hostname :: string
  te_portname :: string
  te_retry :: int
  te_diode :: bool

definition host_and_port :: "string \<Rightarrow> string \<times> string" where
  "host_and_port s =
     (if CHR '':'' \<notin> set s then (s, ''40960'')
      else
        (let portname = rev (takeWhile (\<lambda>c. c \<noteq> CHR '':'') (rev s)) in
         (take (length s - length portname - 1) s, portname)))"

text \<open>
  The syslog endpoint separates host and port in the same way, with another default port; the null
  endpoint has no options and no path.
\<close>

definition syslog_udp_endpoint :: "string \<Rightarrow> (string \<times> string) result" where
  "syslog_udp_endpoint name =
     bindE (parse_uri name) (\<lambda>u.
     let hostportname = value_or (uri_authority u) [] in
     if CHR '':'' \<notin> set hostportname then Inr (hostportname, ''syslog'') else Inr (host_and_port hostportname))"

definition null_endpoint :: "string \<Rightarrow> unit result" where
  "null_endpoint name =
     bindE (parse_uri name) (\<lambda>u.
     if uri_path u \<noteq> [] then Inl (Endpoint_Error ''null endpoint name must have empty path'') else Inr ())"

definition tcp_endpoint :: "string \<Rightarrow> tcp_endpoint result" where
  "tcp_endpoint name =
     bindE (parse_uri name) (\<lambda>u.
     let (hostname, portname) = host_and_port (value_or (uri_authority u) []);
         query = query_parameters u in
     bindE (long_option ''retry'' 30 query) (\<lambda>retry.
     Inr \<lparr>te_hostname = hostname, te_portname = portname, te_retry = retry,
       te_diode = bool_option ''diode'' False query\<rparr>))"

record 'c file_endpoint =
  fe_pathname :: string
  fe_filesize :: u64
  fe_nodelete :: bool
  fe_fschecker :: "'c option"

text \<open>
  Opening the directory and making the checker of free space from its pathname and two percentages
  are parameters.
\<close>

definition space_checker :: "(string \<Rightarrow> string \<Rightarrow> string \<Rightarrow> 'c result) \<Rightarrow> string \<Rightarrow> parameters option \<Rightarrow> 'c option result" where
  "space_checker mk pathname query =
     (case query of
        None \<Rightarrow> Inr None
      | Some ps \<Rightarrow>
          (case (find_string ''hwm'' ps, find_string ''lwm'' ps) of
             (Some hwm, Some lwm) \<Rightarrow> bindE (mk pathname hwm lwm) (\<lambda>c. Inr (Some c))
           | (Some hwm, None) \<Rightarrow> Inl (Endpoint_Error ''horace+file endpoint with hwm but not lwm'')
           | (None, Some lwm) \<Rightarrow> Inl (Endpoint_Error ''horace+file endpoint with lwm but not hwm'')
           | (None, None) \<Rightarrow> Inr None))"

definition file_endpoint ::
  "(string \<Rightarrow> unit result) \<Rightarrow> (string \<Rightarrow> string \<Rightarrow> string \<Rightarrow> 'c result) \<Rightarrow> string \<Rightarrow> 'c file_endpoint result" where
  "file_endpoint open_dir mk name =
     bindE (parse_uri name) (\<lambda>u.
     bindE (open_dir (uri_path u)) (\<lambda>_.
     let query = query_parameters u in
     bindE (long_option ''filesize'' 16777216 query) (\<lambda>filesize.
     let nodelete = bool_option ''nodelete'' False query in
     bindE (space_checker mk (uri_path u) query) (\<lambda>checker.
     Inr \<lparr>fe_pathname = uri_path u, fe_filesize = size_of_long filesize, fe_nodelete = nodelete, fe_fschecker = checker\<rparr>))))"

text \<open>
  The interface is found from its name, unless that is empty; \<^verbatim>\<open>find<long long>\<close> reads as
  \<^verbatim>\<open>find<long>\<close> does.
\<close>

record 'i netif_endpoint =
  ne_if :: "'i option"
  ne_method :: string
  ne_snaplen :: int
  ne_capacity :: u64
  ne_promiscuous :: bool

definition string_option :: "string \<Rightarrow> string \<Rightarrow> parameters option \<Rightarrow> string" where
  "string_option name d query = (case query of None \<Rightarrow> d | Some ps \<Rightarrow> value_or (find_string name ps) d)"

definition netif_endpoint :: "(string \<Rightarrow> 'i result) \<Rightarrow> string \<Rightarrow> 'i netif_endpoint result" where
  "netif_endpoint find_interface name =
     bindE (parse_uri name) (\<lambda>u.
     bindE (if uri_path u = [] then Inr None else bindE (find_interface (uri_path u)) (\<lambda>i. Inr (Some i))) (\<lambda>iface.
     let query = query_parameters u;
         capture_method = string_option ''capture'' [] query in
     bindE (long_option ''snaplen'' 262144 query) (\<lambda>snaplen.
     bindE (long_option ''capacity'' 16777216 query) (\<lambda>capacity.
     Inr \<lparr>ne_if = iface, ne_method = capture_method, ne_snaplen = snaplen, ne_capacity = size_of_long capacity,
       ne_promiscuous = bool_option ''promiscuous'' False query\<rparr>))))"

section \<open>Names with options\<close>

lemma takeWhile_dec_nat: "takeWhile is_digit (dec_nat n) = dec_nat n"
  using dec_nat_digits[of n] by (simp only: takeWhile_eq_all_conv list_all_iff)

lemma digits_value_dec_nat: "digits_value (dec_nat n) = Some (int n)"
  by (simp add: digits_value_def takeWhile_dec_nat Let_def)

lemma dec_nat_hd: "\<exists>c cs. dec_nat n = c # cs \<and> is_digit c"
  using dec_nat_digits[of n] by (cases "dec_nat n") auto

lemma is_digit_not_space: "is_digit c \<Longrightarrow> \<not> is_space c \<and> c \<noteq> CHR ''-'' \<and> c \<noteq> CHR ''+''"
  by (auto simp: is_digit_def is_space_def)

lemma stol_dec_int: "- (2 ^ 63) \<le> n \<Longrightarrow> n < 2 ^ 63 \<Longrightarrow> stol (dec_int n) = Inr n"
proof -
  assume n: "- (2 ^ 63) \<le> n" "n < 2 ^ 63"
  show ?thesis
  proof (cases "n < 0")
    case True
    then have "dropWhile is_space (dec_int n) = CHR ''-'' # dec_nat (nat (- n))"
      by (simp add: dec_int_def is_space_def)
    with True n show ?thesis
      by (simp add: stol_def digits_value_dec_nat)
  next
    case False
    obtain c cs where c: "dec_nat (nat n) = c # cs" "is_digit c"
      using dec_nat_hd by blast
    then have "dropWhile is_space (dec_int n) = dec_nat (nat n)" "take 1 (dec_nat (nat n)) = [c]"
      using False is_digit_not_space[OF c(2)] by (simp_all add: dec_int_def)
    with False n is_digit_not_space[OF c(2)] show ?thesis
      by (simp add: stol_def digits_value_dec_nat)
  qed
qed

lemma encodes_plain: "\<forall>c\<in>set s. c \<notin> set ''%&=+'' \<Longrightarrow> encodes s s"
proof (induction s)
  case (Cons c s)
  then show ?case
    using encodes.literal[of c s s] by simp
qed (rule encodes.nil)

lemma encodes_dec_int: "encodes (dec_int n) (dec_int n)"
  using dec_nat_digits[of "nat n"] dec_nat_digits[of "nat (- n)"]
  by (intro encodes_plain) (auto simp: dec_int_def list_all_iff is_digit_def)

lemma before_append:
  assumes "set s \<inter> set marks = {}"
  shows "before marks s = s" "from_mark marks s = []"
    and "c \<in> set marks \<Longrightarrow> before marks (s @ c # t) = s" "c \<in> set marks \<Longrightarrow> from_mark marks (s @ c # t) = c # t"
  using assms by (induction s) (auto simp: before_def from_mark_def)

lemma host_and_port_append: "CHR '':'' \<notin> set p \<Longrightarrow> host_and_port (h @ CHR '':'' # p) = (h, p)"
  by (simp add: host_and_port_def takeWhile_append)

text \<open>
  The options of a TCP endpoint are those of its name: the host up to the last colon, the port, the number
  of seconds as decimal text and the flag.
\<close>

lemma tcp_endpoint_options:
  assumes "set host \<inter> set ''/?#'' = {}" and "set portname \<inter> set '':/?#'' = {}"
    and "- (2 ^ 63) \<le> retry" and "retry < 2 ^ 63"
  shows "tcp_endpoint (''horace+tcp://'' @ host @ '':'' @ portname @ ''?retry='' @ dec_int retry @ ''&diode=''
      @ (if diode then ''true'' else ''false''))
    = Inr \<lparr>te_hostname = host, te_portname = portname, te_retry = retry, te_diode = diode\<rparr>"
proof -
  let ?flag = "if diode then ''true'' else ''false''"
  let ?query = "''retry='' @ dec_int retry @ ''&diode='' @ ?flag"
  let ?rest = "host @ '':'' @ portname @ ''?'' @ ?query"
  have scheme: "parse_scheme (''horace+tcp://'' @ ?rest) = (Some ''horace+tcp'', ''//'' @ ?rest)"
    by (simp add: parse_scheme_def before_def from_mark_def)
  have "set (host @ '':'' @ portname) \<inter> set ''/?#'' = {}"
    using assms(1,2) by auto
  note authority_end = before_append(3,4)[OF this, of "CHR ''?''" ?query]
  have authority: "parse_authority (''//'' @ ?rest) = (Some (host @ '':'' @ portname), ''?'' @ ?query)"
    using authority_end by (simp add: parse_authority_def)
  have no_fragment: "set ?query \<inter> set ''#'' = {}"
    using dec_nat_digits[of "nat retry"] dec_nat_digits[of "nat (- retry)"]
    by (auto simp: dec_int_def list_all_iff is_digit_def)
  have query: "parse_query (''?'' @ ?query) = (Some ?query, [])"
    using before_append(1,2)[OF no_fragment] by (simp add: parse_query_def)
  have path: "before ''?#'' (''?'' @ ?query) = []" "from_mark ''?#'' (''?'' @ ?query) = ''?'' @ ?query"
    by (simp_all add: before_def from_mark_def)
  have uri: "parse_uri (''horace+tcp://'' @ ?rest) = Inr \<lparr>uri_scheme = Some ''horace+tcp'',
      uri_authority = Some (host @ '':'' @ portname), uri_path = [], uri_query = Some ?query, uri_fragment = None\<rparr>"
    unfolding parse_uri_def scheme authority path query prod.case Let_def by (simp add: parse_fragment_def)
  have "encodes ''retry'' ''retry''" "encodes ''diode'' ''diode''" "encodes ?flag ?flag"
    by (auto intro!: encodes_plain)
  then have "list_all2 encoded [(''retry'', dec_int retry), (''diode'', ?flag)] [(''retry'', dec_int retry), (''diode'', ?flag)]"
    by (simp add: encoded_def encodes_dec_int)
  from query_loop_encoded[OF this, of Map.empty]
  have params: "query_string ?query = map_of (rev [(''retry'', dec_int retry), (''diode'', ?flag)])"
    unfolding query_string_def query_text.simps empty_map_add append_Cons append_Nil .
  have port: "host_and_port (host @ '':'' @ portname) = (host, portname)"
    using host_and_port_append[of portname host] assms(2) by simp
  have eq: "''horace+tcp://'' @ host @ '':'' @ portname @ ''?retry='' @ dec_int retry @ ''&diode='' @ ?flag
      = ''horace+tcp://'' @ ?rest"
    by simp
  show ?thesis
    unfolding eq tcp_endpoint_def uri using stol_dec_int[OF assms(3,4)]
    by (simp add: value_or_def port[simplified] query_parameters_def params[simplified] long_option_def bool_option_def
        find_long_def find_bool_def)
qed

lemma tcp_endpoint_options_witness:
  "tcp_endpoint ''horace+tcp://example.com:40961?retry=60&diode=true''
    = Inr \<lparr>te_hostname = ''example.com'', te_portname = ''40961'', te_retry = 60, te_diode = True\<rparr>"
proof -
  have "dec_int 60 = ''60''"
    by code_simp
  then show ?thesis
    using tcp_endpoint_options[of "''example.com''" "''40961''" 60 True] by simp
qed

text \<open>
  A host that is an IPv6 address in brackets is cut at its last colon if no port follows.
\<close>

lemma tcp_endpoint_bracketed:
  "tcp_endpoint ''horace+tcp://[::1]'' = Inr \<lparr>te_hostname = ''[:'', te_portname = ''1]'', te_retry = 30, te_diode = False\<rparr>"
  by code_simp

end
