(* ===== verification/Packet_Ring.thy ===== *)
theory Packet_Ring
  imports Packet_Record Endpoints
begin

text \<open>
  Capture with a ring buffer that is shared with the kernel (\<^verbatim>\<open>netif/ring_buffer_v1.cc\<close>,
  \<^verbatim>\<open>ring_buffer_v2.cc\<close> and \<^verbatim>\<open>ring_buffer_v3.cc\<close>), and the choice of the
  method (\<^verbatim>\<open>netif/netif_endpoint.cc\<close>). The lemmas show that the frames are apart and inside the
  buffer, and that what is read are the packets the kernel put there, in order, each once, with
  their slots given back only after them.
\<close>

section \<open>Geometry\<close>

text \<open>
  The length of the header of a frame and the size of a page are parameters. The members of the
  geometry have 32 bits; the arithmetic on \<^verbatim>\<open>snaplen\<close> is that of \<^verbatim>\<open>size_t\<close>.
\<close>

definition TPACKET_ALIGN :: "u64 \<Rightarrow> u64" where
  "TPACKET_ALIGN x = (x + 15) AND NOT 15"

definition ETH_HLEN :: u64 where "ETH_HLEN = 14"

definition frame_size_for :: "u64 \<Rightarrow> u64 \<Rightarrow> u32" where
  "frame_size_for hdrlen snaplen = ucast (TPACKET_ALIGN (hdrlen + ETH_HLEN) + TPACKET_ALIGN (snaplen - ETH_HLEN))"

partial_function (option) block_size_loop :: "u32 \<Rightarrow> u32 \<Rightarrow> u32 option" where
  "block_size_loop frame_size block_size =
     (if block_size < frame_size * 3 then block_size_loop frame_size (push_bit 1 block_size) else Some block_size)"

record geometry =
  tp_block_size :: u32
  tp_block_nr :: u32
  tp_frame_size :: u32
  tp_frame_nr :: u32
  frames_per_block :: u32

text \<open>
  No result is a loop that does not end.
\<close>

definition ring_geometry :: "u64 \<Rightarrow> u32 \<Rightarrow> u64 \<Rightarrow> u64 \<Rightarrow> geometry result option" where
  "ring_geometry hdrlen page snaplen buffer_size =
     (let frame_size = frame_size_for hdrlen snaplen in
      case block_size_loop frame_size page of
        None \<Rightarrow> None
      | Some block_size \<Rightarrow> Some
          (if frame_size = 0 then Inl (Undefined_Behaviour ''division by zero'')
           else
             (let frames = block_size div frame_size;
                  block_nr = ucast (buffer_size div ucast block_size);
                  frame_nr = block_nr * frames in
              if frame_nr = 0 then Inl (Endpoint_Error ''buffer capacity insufficient for snaplen'')
              else Inr \<lparr>tp_block_size = block_size, tp_block_nr = block_nr, tp_frame_size = frame_size,
                tp_frame_nr = frame_nr, frames_per_block = frames\<rparr>)))"

definition rx_ring_size :: "geometry \<Rightarrow> u64" where
  "rx_ring_size g = ucast (tp_block_nr g * tp_block_size g)"

section \<open>Rings of frames\<close>

text \<open>
  A frame as the kernel fills it: the two flags of its status, the time (microseconds or
  nanoseconds), the lengths, and the octets from the start of the packet.
\<close>

record frame =
  fr_user :: bool
  fr_losing :: bool
  fr_sec :: u32
  fr_subsec :: u32
  fr_len :: u32
  fr_snaplen :: u32
  fr_content :: octets

text \<open>
  The version of the protocol decides what the fraction of the time is.
\<close>

datatype ring_version = Ring_V1 | Ring_V2

fun frame_ts :: "ring_version \<Rightarrow> frame \<Rightarrow> timespec" where
  "frame_ts Ring_V1 f = \<lparr>ts_sec = uint (fr_sec f), ts_nsec = uint (fr_subsec f * 1000)\<rparr>"
| "frame_ts Ring_V2 f = \<lparr>ts_sec = uint (fr_sec f), ts_nsec = uint (fr_subsec f)\<rparr>"

text \<open>
  The frames by their offset in the mapping, the index of the next frame, and the frame that was read last.
\<close>

record ring_buffer =
  rb_version :: ring_version
  rb_geometry :: geometry
  rb_frames :: "nat \<Rightarrow> frame"
  rb_frame_idx :: nat
  rb_last :: "nat option"
  rb_socket :: basic_packet_socket
  rb_builder :: packet_record_builder

definition frame_offset :: "geometry \<Rightarrow> nat \<Rightarrow> nat" where
  "frame_offset g idx =
     (let buffer_idx = idx div unat (frames_per_block g);
          frame_idx_diff = idx mod unat (frames_per_block g) in
      buffer_idx * unat (tp_block_size g) + frame_idx_diff * unat (tp_frame_size g))"

definition release_last :: "ring_buffer \<Rightarrow> ring_buffer" where
  "release_last r =
     (case rb_last r of
        None \<Rightarrow> r
      | Some off \<Rightarrow> r\<lparr>rb_frames := (rb_frames r)(off := (rb_frames r off)\<lparr>fr_user := False, fr_losing := False\<rparr>),
          rb_last := None\<rparr>)"

text \<open>
  \<open>stats\<close> is what the socket would say of its statistics, \<open>tmx\<close> what the clock would. No record means that
  the frame is not ready yet: the code waits.
\<close>

definition ring_take :: "bool \<Rightarrow> timex \<Rightarrow> packet_stats \<Rightarrow> ring_buffer \<Rightarrow> (hrecord option \<times> ring_buffer) result" where
  "ring_take detect tmx stats r =
     (let off = frame_offset (rb_geometry r) (rb_frame_idx r);
          f = rb_frames r off in
      if unat (rx_ring_size (rb_geometry r)) < off + unat (tp_frame_size (rb_geometry r))
        then Inl (Undefined_Behaviour ''ring buffer'')
      else if \<not> fr_user f then Inr (None, r)
      else
        (let (drop_count, socket) = (if fr_losing f then drops stats (rb_socket r) else (0, rb_socket r));
             (ts, socket') = correct_socket detect tmx (frame_ts (rb_version r) f) socket;
             idx = rb_frame_idx r + 1;
             r' = r\<lparr>rb_last := Some off, rb_frame_idx := if idx = unat (tp_frame_nr (rb_geometry r)) then 0 else idx,
               rb_socket := socket'\<rparr> in
         bindE (build_packet (Some ts) (fr_content f) (ucast (fr_snaplen f)) (ucast (fr_len f)) drop_count (rb_builder r)) (\<lambda>b.
         case next_record b of (rec, b') \<Rightarrow> Inr (rec, r'\<lparr>rb_builder := b'\<rparr>))))"

definition ring_read :: "bool \<Rightarrow> timex \<Rightarrow> packet_stats \<Rightarrow> ring_buffer \<Rightarrow> (hrecord option \<times> ring_buffer) result" where
  "ring_read detect tmx stats r =
     (case next_record (rb_builder r) of
        (Some rec, b) \<Rightarrow> Inr (Some rec, r\<lparr>rb_builder := b\<rparr>)
      | (None, _) \<Rightarrow> ring_take detect tmx stats (release_last r))"

section \<open>The loop over block sizes\<close>

lemma unat_triple: "3 * unat fs < 2 ^ 32 \<Longrightarrow> unat (fs * 3 :: u32) = 3 * unat fs"
  by (simp add: unat_word_ariths)

lemma unat_power: "p < 32 \<Longrightarrow> unat (2 ^ p :: u32) = 2 ^ p"
proof -
  assume "p < 32"
  then have "(2 :: nat) ^ p < 2 ^ 32"
    by (intro power_strict_increasing) simp_all
  then show ?thesis
    using unat_of_nat[of "2 ^ p", where 'a = 32] by simp
qed

lemma block_size_loop_ends:
  assumes "3 * unat fs \<le> 2 ^ 31" and "p \<le> 31"
  shows "\<exists>q. p \<le> q \<and> q \<le> 31 \<and> block_size_loop fs (2 ^ p) = Some (2 ^ q) \<and> 3 * unat fs \<le> 2 ^ q
    \<and> (q = p \<or> 2 ^ (q - 1) < 3 * unat fs)"
  using assms(2)
proof (induction p rule: inc_induct)
  case base
  have "\<not> 2 ^ 31 < fs * 3"
    using assms(1) unat_triple[of fs] unat_power[of 31] by (simp add: word_less_nat_alt)
  then show ?case
    using assms(1) by (intro exI[of _ 31]) (subst block_size_loop.simps, simp)
next
  case (step p)
  have less: "2 ^ p < fs * 3 \<longleftrightarrow> 2 ^ p < 3 * unat fs"
    using assms(1) step(2) unat_triple[of fs] unat_power[of p] by (simp add: word_less_nat_alt)
  show ?case
  proof (cases "2 ^ p < 3 * unat fs")
    case True
    have "push_bit 1 (2 ^ p) = (2 ^ Suc p :: u32)"
      by (simp add: push_bit_eq_mult mult.commute)
    with True less have "block_size_loop fs (2 ^ p) = block_size_loop fs (2 ^ Suc p)"
      by (subst block_size_loop.simps) (simp only: if_True)
    with step(3) True show ?thesis
      by (metis Suc_leD diff_Suc_1)
  next
    case False
    with less have "block_size_loop fs (2 ^ p) = Some (2 ^ p)"
      by (subst block_size_loop.simps) simp
    with False step(2) show ?thesis
      by (intro exI[of _ p]) simp
  qed
qed

lemma block_size_loop_result:
  assumes "block_size_loop fs bs = Some y"
  shows "\<not> y < fs * 3 \<and> (\<exists>n. y = push_bit n bs)"
proof (rule block_size_loop.raw_induct[OF _ assms])
  fix loop fs bs y
  assume ih: "\<And>fs bs y. loop fs bs = Some y \<Longrightarrow> \<not> y < fs * 3 \<and> (\<exists>n. y = push_bit n bs)"
    and y: "(if bs < fs * 3 then loop fs (push_bit 1 bs) else Some bs) = Some y"
  show "\<not> y < fs * 3 \<and> (\<exists>n. y = push_bit n bs)"
  proof (cases "bs < fs * 3")
    case True
    with y ih[of fs "push_bit 1 bs" y] obtain n where "\<not> y < fs * 3" "y = push_bit n (push_bit 1 bs)"
      by auto
    then show ?thesis
      by (metis push_bit_push_bit)
  next
    case False
    then show ?thesis
      using y by (auto intro: exI[of _ 0])
  qed
qed

lemma power_high: "\<not> n < 32 \<Longrightarrow> (2 ^ n :: u32) = 0"
  by (simp add: exp_eq_zero_iff)

text \<open>
  Three frames of more than half the range of 32 bits: the size is shifted until it is zero and stays so.
\<close>

lemma block_size_loop_hangs:
  assumes "2 ^ 31 < unat (fs * 3)" and "p < 32"
  shows "block_size_loop fs (2 ^ p) = None"
proof (rule ccontr)
  assume "block_size_loop fs (2 ^ p) \<noteq> None"
  then obtain y where "block_size_loop fs (2 ^ p) = Some y"
    by auto
  then obtain n where y: "\<not> y < fs * 3" "y = push_bit n (2 ^ p)"
    using block_size_loop_result by blast
  have "y = (if n + p < 32 then 2 ^ (n + p) else 0)"
    unfolding y(2) push_bit_eq_mult by (simp flip: power_add add: add.commute power_high)
  moreover have "unat (2 ^ (n + p) :: u32) \<le> 2 ^ 31" if "n + p < 32"
    using that unat_power[OF that] power_increasing[of "n + p" 31 "2 :: nat"] by simp
  ultimately show False
    using y(1) assms(1) by (auto simp: word_less_nat_alt split: if_splits)
qed

section \<open>Frames apart and inside\<close>

definition geometry_ok :: "geometry \<Rightarrow> bool" where
  "geometry_ok g \<longleftrightarrow> 0 < unat (tp_frame_size g) \<and> 0 < unat (frames_per_block g) \<and> 0 < unat (tp_frame_nr g)
     \<and> unat (frames_per_block g) * unat (tp_frame_size g) \<le> unat (tp_block_size g)
     \<and> unat (tp_frame_nr g) = unat (tp_block_nr g) * unat (frames_per_block g)
     \<and> unat (rx_ring_size g) = unat (tp_block_nr g) * unat (tp_block_size g)"

lemma and_not_15: "x AND NOT 15 = push_bit 4 (drop_bit 4 x)" for x :: u64
proof -
  have "x AND NOT (mask 4) = push_bit 4 (drop_bit 4 x)"
    by (auto intro!: bit_word_eqI simp: bit_simps)
  moreover have "mask 4 = (15 :: u64)"
    by (simp add: mask_eq_exp_minus_1)
  ultimately show ?thesis
    by (simp only:)
qed

lemma TPACKET_ALIGN_nat:
  assumes "unat x + 15 < 2 ^ 64"
  shows "unat (TPACKET_ALIGN x) = (unat x + 15) div 16 * 16"
proof -
  have x: "unat (x + 15) = unat x + 15"
    using assms by (simp add: unat_word_ariths)
  have "unat (TPACKET_ALIGN x) = take_bit 64 (push_bit 4 (drop_bit 4 (take_bit 64 (unat (x + 15)))))"
    unfolding TPACKET_ALIGN_def and_not_15 by (simp add: unsigned_push_bit_eq unsigned_drop_bit_eq)
  also have "\<dots> = (unat x + 15) div 16 * 16"
    using assms by (simp add: x push_bit_eq_mult drop_bit_eq_div take_bit_nat_eq_self)
  finally show ?thesis .
qed

lemma frame_size_for_nat:
  assumes "unat hdrlen \<le> 2 ^ 16" and "14 \<le> unat snaplen" and "unat snaplen \<le> 2 ^ 31"
  shows "unat hdrlen + unat snaplen \<le> unat (frame_size_for hdrlen snaplen)"
    and "unat (frame_size_for hdrlen snaplen) \<le> unat hdrlen + unat snaplen + 30"
proof -
  have h: "unat (hdrlen + ETH_HLEN) = unat hdrlen + 14" and s: "unat (snaplen - ETH_HLEN) = unat snaplen - 14"
    using assms by (simp_all add: ETH_HLEN_def unat_word_ariths unat_sub word_le_nat_alt)
  have ah: "unat (TPACKET_ALIGN (hdrlen + ETH_HLEN)) = (unat hdrlen + 29) div 16 * 16"
    and as: "unat (TPACKET_ALIGN (snaplen - ETH_HLEN)) = (unat snaplen + 1) div 16 * 16"
    using assms by (simp_all add: TPACKET_ALIGN_nat h s)
  have sum: "unat (frame_size_for hdrlen snaplen) = ((unat hdrlen + 29) div 16 * 16 + (unat snaplen + 1) div 16 * 16) mod 2 ^ 64 mod 2 ^ 32"
    by (simp add: frame_size_for_def unsigned_ucast_eq take_bit_eq_mod unat_word_ariths ah as)
  have "(unat hdrlen + 29) div 16 * 16 + (unat snaplen + 1) div 16 * 16 \<le> unat hdrlen + unat snaplen + 30"
    using div_times_less_eq_dividend[of "unat hdrlen + 29" 16] div_times_less_eq_dividend[of "unat snaplen + 1" 16]
    by linarith
  moreover have "unat hdrlen + unat snaplen \<le> (unat hdrlen + 29) div 16 * 16 + (unat snaplen + 1) div 16 * 16"
    by presburger
  moreover have "(unat hdrlen + 29) div 16 * 16 + (unat snaplen + 1) div 16 * 16 < 2 ^ 32"
    using calculation(1) assms(1,3) by simp
  ultimately show "unat hdrlen + unat snaplen \<le> unat (frame_size_for hdrlen snaplen)"
    and "unat (frame_size_for hdrlen snaplen) \<le> unat hdrlen + unat snaplen + 30"
    unfolding sum by simp_all
qed

lemma unat_widen: "unat (ucast (w :: u32) :: u64) = unat w"
proof -
  have "unat w < 2 ^ 32"
    using unsigned_less[of w, where ?'a = nat] by simp
  then have "unat w < 2 ^ 64"
    by (rule order_less_trans) simp
  then show ?thesis
    by (simp add: unsigned_ucast_eq take_bit_nat_eq_self)
qed

lemma ring_geometry_ok:
  assumes "ring_geometry hdrlen page snaplen buffer_size = Some (Inr g)" and "unat buffer_size < 2 ^ 32"
  shows "geometry_ok g" and "unat (rx_ring_size g) \<le> unat buffer_size" and "tp_frame_size g = frame_size_for hdrlen snaplen"
    and "block_size_loop (tp_frame_size g) page = Some (tp_block_size g)"
proof -
  let ?fs = "frame_size_for hdrlen snaplen"
  obtain bs where bs: "block_size_loop ?fs page = Some bs"
    using assms(1) by (cases "block_size_loop ?fs page") (simp_all add: ring_geometry_def Let_def)
  define frames where "frames = bs div ?fs"
  define nr :: u32 where "nr = ucast (buffer_size div ucast bs)"
  have g: "?fs \<noteq> 0" "nr * frames \<noteq> 0" "g = \<lparr>tp_block_size = bs, tp_block_nr = nr, tp_frame_size = ?fs,
      tp_frame_nr = nr * frames, frames_per_block = frames\<rparr>"
    using assms(1) bs by (simp_all add: ring_geometry_def Let_def frames_def nr_def split: if_splits)
  have "frames \<noteq> 0"
    using g(2) by auto
  then have frames: "0 < unat frames"
    by (simp add: unat_gt_0)
  have frames': "unat frames * unat ?fs \<le> unat bs"
    using div_times_less_eq_dividend[of "unat bs" "unat ?fs"] by (simp add: frames_def unat_div)
  have "unat (buffer_size div ucast bs) = unat buffer_size div unat bs"
    by (simp add: unat_div unat_widen)
  moreover from this have "unat (buffer_size div ucast bs) < 2 ^ 32"
    using assms(2) div_le_dividend[of "unat buffer_size" "unat bs"] by linarith
  ultimately have nr: "unat nr = unat buffer_size div unat bs"
    by (simp add: nr_def unsigned_ucast_eq take_bit_nat_eq_self)
  then have ring: "unat nr * unat bs \<le> unat buffer_size"
    by simp
  have "unat frames \<le> unat bs"
    by (simp add: frames_def unat_div)
  then have "unat nr * unat frames < 2 ^ 32"
    using ring assms(2) mult_le_mono2[of "unat frames" "unat bs" "unat nr"] by linarith
  then have "unat (nr * frames) = unat nr * unat frames"
    by (simp add: unat_word_ariths)
  moreover have "unat (rx_ring_size g) = unat nr * unat bs"
    using ring assms(2) by (simp add: g(3) rx_ring_size_def unat_widen unat_word_ariths)
  moreover have "0 < unat ?fs" "0 < unat (nr * frames)"
    using g(1,2) by (simp_all add: unat_gt_0)
  ultimately show "geometry_ok g" and "unat (rx_ring_size g) \<le> unat buffer_size" and "tp_frame_size g = ?fs"
    and "block_size_loop (tp_frame_size g) page = Some (tp_block_size g)"
    using frames frames' ring bs by (simp_all add: geometry_ok_def g(3))
qed

lemma frame_offset_block:
  assumes "geometry_ok g" and "i div unat (frames_per_block g) = b"
  shows "frame_offset g i + unat (tp_frame_size g) \<le> (b + 1) * unat (tp_block_size g)"
proof -
  let ?k = "i mod unat (frames_per_block g)"
  have "?k + 1 \<le> unat (frames_per_block g)"
    using assms(1) mod_less_divisor[of "unat (frames_per_block g)" i] by (simp add: geometry_ok_def Suc_le_eq)
  then have "(?k + 1) * unat (tp_frame_size g) \<le> unat (tp_block_size g)"
    using assms(1) mult_le_mono1[of "?k + 1" "unat (frames_per_block g)" "unat (tp_frame_size g)"]
    unfolding geometry_ok_def by linarith
  then show ?thesis
    using assms(2) by (simp add: frame_offset_def algebra_simps)
qed

lemma frame_offset_inside:
  assumes "geometry_ok g" and "i < unat (tp_frame_nr g)"
  shows "frame_offset g i + unat (tp_frame_size g) \<le> unat (rx_ring_size g)"
proof -
  have "i div unat (frames_per_block g) + 1 \<le> unat (tp_block_nr g)"
    using assms by (simp add: geometry_ok_def Suc_le_eq less_mult_imp_div_less)
  from mult_le_mono1[OF this, of "unat (tp_block_size g)"] frame_offset_block[OF assms(1) refl] show ?thesis
    using assms(1) by (simp add: geometry_ok_def) (meson order_trans)
qed

lemma frame_offset_apart:
  assumes "geometry_ok g" and "i < j"
  shows "frame_offset g i + unat (tp_frame_size g) \<le> frame_offset g j"
proof -
  let ?f = "unat (frames_per_block g)"
  show ?thesis
  proof (cases "i div ?f = j div ?f")
    case True
    then have "i mod ?f + 1 \<le> j mod ?f"
      using assms(2) by (metis Suc_eq_plus1 Suc_leI div_mult_mod_eq nat_add_left_cancel_less)
    from mult_le_mono1[OF this, of "unat (tp_frame_size g)"] True show ?thesis
      by (simp add: frame_offset_def algebra_simps)
  next
    case False
    then have "i div ?f + 1 \<le> j div ?f"
      using assms(2) div_le_mono[of i j ?f] by linarith
    from mult_le_mono1[OF this, of "unat (tp_block_size g)"] frame_offset_block[OF assms(1) refl, of i] show ?thesis
      by (simp add: frame_offset_def)
  qed
qed

lemma ring_geometry_insufficient:
  assumes "ring_geometry hdrlen page snaplen buffer_size = Some (Inl e)" and "0 < unat (frame_size_for hdrlen snaplen)"
    and "block_size_loop (frame_size_for hdrlen snaplen) page = Some bs" and "3 * unat (frame_size_for hdrlen snaplen) \<le> unat bs"
    and "unat buffer_size < 2 ^ 32"
  shows "e = Endpoint_Error ''buffer capacity insufficient for snaplen''" and "unat buffer_size < unat bs"
proof -
  let ?fs = "frame_size_for hdrlen snaplen"
  have "?fs \<noteq> 0"
    using assms(2) by (simp add: unat_gt_0)
  then have e: "e = Endpoint_Error ''buffer capacity insufficient for snaplen''"
    "ucast (buffer_size div ucast bs) * (bs div ?fs) = 0"
    using assms(1,3) by (simp_all add: ring_geometry_def Let_def split: if_splits)
  show "e = Endpoint_Error ''buffer capacity insufficient for snaplen''"
    by (rule e)
  show "unat buffer_size < unat bs"
  proof (rule ccontr)
    assume "\<not> unat buffer_size < unat bs"
    moreover have "0 < unat bs"
      using assms(2,4) by linarith
    ultimately have "0 < unat buffer_size div unat bs"
      by (simp add: div_greater_zero_iff)
    moreover have "0 < unat bs div unat ?fs"
      using assms(2,4) by (simp add: div_greater_zero_iff)
    moreover have "unat buffer_size div unat bs * (unat bs div unat ?fs) < 2 ^ 32"
    proof -
      have "unat buffer_size div unat bs * (unat bs div unat ?fs) \<le> unat buffer_size div unat bs * unat bs"
        by (intro mult_le_mono2) simp
      also have "\<dots> \<le> unat buffer_size"
        by simp
      finally show ?thesis
        using assms(5) by linarith
    qed
    moreover have "unat buffer_size div unat bs < 2 ^ 32"
      using assms(5) div_le_dividend[of "unat buffer_size" "unat bs"] by linarith
    moreover from this have "unat (ucast (buffer_size div ucast bs) :: u32) = unat buffer_size div unat bs"
      by (simp add: unat_div unat_widen unsigned_ucast_eq take_bit_nat_eq_self)
    ultimately have "unat (ucast (buffer_size div ucast bs) * (bs div ?fs)) \<noteq> 0"
      by (simp only: unat_word_ariths unat_div) (simp add: mod_simps)
    with e(2) show False
      by simp
  qed
qed

text \<open>
  C8: For a length of packets from 14 octets to half a gigabyte and a capacity of less than 4 GiB the search
  for a size of blocks ends, with blocks of at least three frames that have room for header and packet, or
  with the error that the capacity is insufficient, which it then is for six frames and for a page; the
  frames are inside the memory mapped, which is no more than was asked for, and none overlaps another.
\<close>

lemma ring_geometry_bounds:
  assumes "unat hdrlen \<le> 2 ^ 16" and "14 \<le> unat snaplen" and "unat snaplen \<le> 2 ^ 29" and "unat capacity < 2 ^ 32" and "p \<le> 31"
  shows "\<exists>res. ring_geometry hdrlen (2 ^ p) snaplen capacity = Some res \<and>
    (case res of
       Inl e \<Rightarrow> e = Endpoint_Error ''buffer capacity insufficient for snaplen''
         \<and> unat capacity < max (2 ^ p) (6 * unat (frame_size_for hdrlen snaplen))
     | Inr g \<Rightarrow> unat hdrlen + unat snaplen \<le> unat (tp_frame_size g) \<and> 3 \<le> unat (frames_per_block g)
         \<and> unat (rx_ring_size g) \<le> unat capacity
         \<and> (\<forall>i. i < unat (tp_frame_nr g) \<longrightarrow> frame_offset g i + unat (tp_frame_size g) \<le> unat (rx_ring_size g))
         \<and> (\<forall>i j. i < j \<longrightarrow> frame_offset g i + unat (tp_frame_size g) \<le> frame_offset g j))"
proof -
  let ?fs = "frame_size_for hdrlen snaplen"
  have "unat snaplen \<le> 2 ^ 31"
    using assms(3) by simp
  note fs = frame_size_for_nat[OF assms(1,2) this]
  have "3 * unat ?fs \<le> 2 ^ 31"
    using fs(2) assms(1,3) by simp
  from block_size_loop_ends[OF this assms(5)] obtain q where q: "q \<le> 31" "block_size_loop ?fs (2 ^ p) = Some (2 ^ q)"
      "3 * unat ?fs \<le> 2 ^ q" "q = p \<or> 2 ^ (q - 1) < 3 * unat ?fs"
    by blast
  have bs: "unat (2 ^ q :: u32) = 2 ^ q"
    using q(1) by (intro unat_power) simp
  obtain res where res: "ring_geometry hdrlen (2 ^ p) snaplen capacity = Some res"
    using q(2) by (simp add: ring_geometry_def Let_def)
  show ?thesis
  proof (cases res)
    case (Inl e)
    have "e = Endpoint_Error ''buffer capacity insufficient for snaplen''" "unat capacity < 2 ^ q"
      using ring_geometry_insufficient[OF res[unfolded Inl] _ q(2) _ assms(4)] fs(1) assms(2) q(3) bs by simp_all
    moreover have "(2 :: nat) ^ q \<le> max (2 ^ p) (6 * unat ?fs)"
    proof (cases "q = p")
      case False
      then have "(2 :: nat) ^ q = 2 * 2 ^ (q - 1)" if "0 < q"
        using that by (cases q) simp_all
      then show ?thesis
        using q(3,4) False fs(1) assms(2) by (cases "q = 0") auto
    qed simp
    ultimately show ?thesis
      using res Inl by (auto intro: less_le_trans)
  next
    case (Inr g)
    note g = ring_geometry_ok[OF res[unfolded Inr] assms(4)]
    have "tp_block_size g = 2 ^ q"
      using g(3,4) q(2) by simp
    moreover have "frames_per_block g = tp_block_size g div tp_frame_size g"
      using res Inr by (auto simp: ring_geometry_def Let_def split: option.splits if_splits)
    ultimately have "unat (frames_per_block g) = 2 ^ q div unat ?fs"
      by (simp add: unat_div bs g(3))
    then have "3 \<le> unat (frames_per_block g)"
      using q(3) fs(1) assms(2) by (simp add: less_eq_div_iff_mult_less_eq)
    then show ?thesis
      using res Inr g fs(1) frame_offset_inside[OF g(1)] frame_offset_apart[OF g(1)] by simp
  qed
qed

lemma ring_geometry_bounds_witness:
  "unat (66 - 14 :: u64) \<le> 2 ^ 16 \<and> (\<exists>res. ring_geometry 52 (2 ^ 12) 65536 16777216 = Some res \<and>
    (case res of
       Inl e \<Rightarrow> e = Endpoint_Error ''buffer capacity insufficient for snaplen''
         \<and> unat (16777216 :: u64) < max (2 ^ 12) (6 * unat (frame_size_for 52 65536))
     | Inr g \<Rightarrow> unat (52 :: u64) + unat (65536 :: u64) \<le> unat (tp_frame_size g) \<and> 3 \<le> unat (frames_per_block g)
         \<and> unat (rx_ring_size g) \<le> unat (16777216 :: u64)
         \<and> (\<forall>i. i < unat (tp_frame_nr g) \<longrightarrow> frame_offset g i + unat (tp_frame_size g) \<le> unat (rx_ring_size g))
         \<and> (\<forall>i j. i < j \<longrightarrow> frame_offset g i + unat (tp_frame_size g) \<le> frame_offset g j)))"
  using ring_geometry_bounds[of 52 65536 16777216 12] by simp

text \<open>
  With a length of a gigabyte the loop does not end, and a capacity of 4 GiB leaves nothing to be mapped.
\<close>

lemma ring_geometry_hangs: "ring_geometry 52 (2 ^ 12) (2 ^ 30) capacity = None"
proof -
  have fs: "2 ^ 30 + 52 \<le> unat (frame_size_for 52 (2 ^ 30))" "unat (frame_size_for 52 (2 ^ 30)) \<le> 2 ^ 30 + 82"
    using frame_size_for_nat[of 52 "2 ^ 30"] by simp_all
  then have "2 ^ 31 < unat (frame_size_for 52 (2 ^ 30) * 3)"
    by (simp add: unat_triple)
  from block_size_loop_hangs[OF this, of 12] show ?thesis
    by (simp add: ring_geometry_def Let_def)
qed

lemma ring_geometry_wraps:
  "ring_geometry 52 (2 ^ 12) 65536 (2 ^ 32) = Some (Inr \<lparr>tp_block_size = 2 ^ 18, tp_block_nr = 2 ^ 14,
     tp_frame_size = 65616, tp_frame_nr = 3 * 2 ^ 14, frames_per_block = 3\<rparr>)" (is "_ = Some (Inr ?g)")
  "rx_ring_size \<lparr>tp_block_size = 2 ^ 18, tp_block_nr = 2 ^ 14, tp_frame_size = 65616, tp_frame_nr = 3 * 2 ^ 14,
     frames_per_block = 3\<rparr> = 0"
proof -
  have "TPACKET_ALIGN (52 + ETH_HLEN) = 80" "TPACKET_ALIGN (65536 - ETH_HLEN) = 65536"
    by (simp_all add: TPACKET_ALIGN_def ETH_HLEN_def)
  then have fs: "frame_size_for 52 65536 = 65616"
    by (simp add: frame_size_for_def)
  have "block_size_loop 65616 (2 ^ 12) = Some (2 ^ 18)"
    by (simp add: block_size_loop.simps)
  then show "ring_geometry 52 (2 ^ 12) 65536 (2 ^ 32) = Some (Inr ?g)"
    by (simp add: ring_geometry_def Let_def fs)
  show "rx_ring_size ?g = 0"
    by (simp add: rx_ring_size_def)
qed

section \<open>The ring shared with the kernel\<close>

text \<open>
  The kernel puts each packet into the slot after the one it used last, if that is free, and else drops
  it. It has an index \<open>k\<close> of its own.
\<close>

datatype ring_event = Deliver frame | Read packet_stats timex

definition next_index :: "geometry \<Rightarrow> nat \<Rightarrow> nat" where
  "next_index g k = (k + 1) mod unat (tp_frame_nr g)"

definition kernel_put :: "frame \<Rightarrow> nat \<Rightarrow> ring_buffer \<Rightarrow> ring_buffer option" where
  "kernel_put f k r =
     (let off = frame_offset (rb_geometry r) k in
      if fr_user (rb_frames r off) then None
      else Some (r\<lparr>rb_frames := (rb_frames r)(off := f\<lparr>fr_user := True\<rparr>)\<rparr>))"

text \<open>
  The packets the kernel had room for and the records that were read.
\<close>

fun ring_run :: "bool \<Rightarrow> ring_event list \<Rightarrow> nat \<Rightarrow> ring_buffer \<Rightarrow> (frame list \<times> hrecord list) result" where
  "ring_run detect [] k r = Inr ([], [])"
| "ring_run detect (Deliver f # es) k r =
     (case kernel_put f k r of
        None \<Rightarrow> ring_run detect es k r
      | Some r' \<Rightarrow> bindE (ring_run detect es (next_index (rb_geometry r) k) r') (\<lambda>(fs, recs). Inr (f # fs, recs)))"
| "ring_run detect (Read stats tmx # es) k r =
     bindE (ring_read detect tmx stats r) (\<lambda>(rec, r').
     bindE (ring_run detect es k r') (\<lambda>(fs, recs).
     Inr (fs, (case rec of None \<Rightarrow> recs | Some x \<Rightarrow> x # recs))))"

definition slot :: "ring_buffer \<Rightarrow> nat \<Rightarrow> nat" where
  "slot r i = frame_offset (rb_geometry r) ((rb_frame_idx r + i) mod unat (tp_frame_nr (rb_geometry r)))"

abbreviation slots :: "ring_buffer \<Rightarrow> nat" where
  "slots r \<equiv> unat (tp_frame_nr (rb_geometry r))"

definition whole :: "frame \<Rightarrow> bool" where
  "whole f \<longleftrightarrow> fr_len f = fr_snaplen f \<and> unat (fr_len f) \<le> length (fr_content f)"

definition packet :: "frame \<Rightarrow> octets" where
  "packet f = take (unat (fr_len f)) (fr_content f)"

text \<open>
  The packets \<open>q\<close> that wait are in the slots from the next to be read on; the slot of the packet read last is
  the only other one that the kernel may not use, and it is the last in turn.
\<close>

definition ring_inv :: "nat \<Rightarrow> frame list \<Rightarrow> ring_buffer \<Rightarrow> bool" where
  "ring_inv k q r \<longleftrightarrow> geometry_ok (rb_geometry r) \<and> builder_ok (rb_builder r)
     \<and> rb_frame_idx r < slots r \<and> length q \<le> slots r \<and> k = (rb_frame_idx r + length q) mod slots r
     \<and> (rb_last r = None \<or> rb_last r = Some (slot r (slots r - 1)) \<and> length q < slots r)
     \<and> (\<forall>i<length q. rb_frames r (slot r i) = q ! i \<and> fr_user (q ! i) \<and> whole (q ! i))
     \<and> (\<forall>i<(slots r). length q \<le> i \<longrightarrow> (fr_user (rb_frames r (slot r i)) \<longleftrightarrow> rb_last r = Some (slot r i)))"

lemma frame_offset_inj: "geometry_ok g \<Longrightarrow> frame_offset g i = frame_offset g j \<longleftrightarrow> i = j"
proof -
  assume g: "geometry_ok g"
  then have "0 < unat (tp_frame_size g)"
    by (simp add: geometry_ok_def)
  with frame_offset_apart[OF g, of i j] frame_offset_apart[OF g, of j i] show ?thesis
    by (cases i j rule: linorder_cases) auto
qed

lemma mod_apart: "i < j \<Longrightarrow> j < n \<Longrightarrow> (a + i) mod n \<noteq> (a + j) mod (n :: nat)"
  using mod_eq_dvd_iff_nat[of "a + i" "a + j" n] nat_dvd_not_less[of "j - i" n] by auto

lemma slot_inj:
  assumes "geometry_ok (rb_geometry r)" and "i < slots r" and "j < slots r"
  shows "slot r i = slot r j \<longleftrightarrow> i = j"
  using assms(2,3) mod_apart[of i j "slots r" "rb_frame_idx r"] mod_apart[of j i "slots r" "rb_frame_idx r"]
  by (cases i j rule: linorder_cases) (auto simp: slot_def frame_offset_inj[OF assms(1)])

lemma slot_cong: "rb_geometry r' = rb_geometry r \<Longrightarrow> rb_frame_idx r' = rb_frame_idx r \<Longrightarrow> slot r' = slot r"
  by (simp add: slot_def fun_eq_iff)

lemma ring_inv_full:
  assumes "ring_inv k q r" and "kernel_put f k r = Some r'"
  shows "length q < slots r" and "frame_offset (rb_geometry r) k = slot r (length q)" and "rb_last r \<noteq> Some (slot r (length q))"
proof -
  have off: "frame_offset (rb_geometry r) k = slot r (length q)"
    using assms(1) by (simp add: ring_inv_def slot_def)
  then have free: "\<not> fr_user (rb_frames r (slot r (length q)))"
    using assms(2) by (simp add: kernel_put_def Let_def split: if_splits)
  show "length q < slots r"
  proof (rule ccontr)
    assume "\<not> length q < slots r"
    then have "slot r (length q) = slot r 0" "0 < length q"
      using assms(1) by (auto simp: ring_inv_def slot_def)
    with free assms(1) show False
      by (simp add: ring_inv_def)
  qed
  with free assms(1) show "rb_last r \<noteq> Some (slot r (length q))"
    by (auto simp: ring_inv_def)
  show "frame_offset (rb_geometry r) k = slot r (length q)"
    by (rule off)
qed

lemma ring_inv_put:
  assumes "ring_inv k q r" and "kernel_put f k r = Some r'" and "whole f"
  shows "ring_inv (next_index (rb_geometry r) k) (q @ [f\<lparr>fr_user := True\<rparr>]) r'" and "rb_builder r' = rb_builder r"
    and "rb_geometry r' = rb_geometry r"
proof -
  note full = ring_inv_full[OF assms(1,2)]
  have r': "r' = r\<lparr>rb_frames := (rb_frames r)(slot r (length q) := f\<lparr>fr_user := True\<rparr>)\<rparr>"
    using assms(2) by (simp add: kernel_put_def Let_def full(2) split: if_splits)
  then have slot: "slot r' = slot r"
    by (intro slot_cong) simp_all
  have g: "geometry_ok (rb_geometry r)"
    using assms(1) by (simp add: ring_inv_def)
  have other: "rb_frames r' (slot r i) = rb_frames r (slot r i)" if "i < slots r" "i \<noteq> length q" for i
    using that full(1) slot_inj[OF g] by (simp add: r')
  have k: "k = (rb_frame_idx r + length q) mod slots r"
    and last: "rb_last r = None \<or> rb_last r = Some (slot r (slots r - 1))"
    using assms(1) unfolding ring_inv_def by blast+
  have "next_index (rb_geometry r) k = (rb_frame_idx r + length (q @ [f\<lparr>fr_user := True\<rparr>])) mod slots r"
    unfolding next_index_def k mod_add_left_eq by simp
  moreover have "rb_last r = None \<or> rb_last r = Some (slot r (slots r - 1)) \<and> length (q @ [f\<lparr>fr_user := True\<rparr>]) < slots r"
    using last full(1,3) by (cases "length q = slots r - 1") auto
  moreover have "\<forall>i<length (q @ [f\<lparr>fr_user := True\<rparr>]). rb_frames r' (slot r i) = (q @ [f\<lparr>fr_user := True\<rparr>]) ! i
      \<and> fr_user ((q @ [f\<lparr>fr_user := True\<rparr>]) ! i) \<and> whole ((q @ [f\<lparr>fr_user := True\<rparr>]) ! i)"
  proof (intro allI impI)
    fix i
    assume i: "i < length (q @ [f\<lparr>fr_user := True\<rparr>])"
    show "rb_frames r' (slot r i) = (q @ [f\<lparr>fr_user := True\<rparr>]) ! i
      \<and> fr_user ((q @ [f\<lparr>fr_user := True\<rparr>]) ! i) \<and> whole ((q @ [f\<lparr>fr_user := True\<rparr>]) ! i)"
    proof (cases "i = length q")
      case True
      then show ?thesis
        using assms(3) by (auto simp: r' whole_def)
    next
      case False
      with i have "i < length q"
        by simp
      with other[of i] full(1) assms(1) show ?thesis
        by (simp add: nth_append ring_inv_def)
    qed
  qed
  moreover have "\<forall>i<(slots r). length (q @ [f\<lparr>fr_user := True\<rparr>]) \<le> i \<longrightarrow>
      (fr_user (rb_frames r' (slot r i)) \<longleftrightarrow> rb_last r = Some (slot r i))"
    using assms(1) other by (simp add: ring_inv_def)
  ultimately show "ring_inv (next_index (rb_geometry r) k) (q @ [f\<lparr>fr_user := True\<rparr>]) r'"
    using assms(1) full(1) unfolding ring_inv_def slot by (simp add: r')
  show "rb_builder r' = rb_builder r" "rb_geometry r' = rb_geometry r"
    by (simp_all add: r')
qed

lemma ring_inv_release:
  assumes "ring_inv k q r"
  shows "ring_inv k q (release_last r)" and "rb_last (release_last r) = None" and "rb_builder (release_last r) = rb_builder r"
    and "rb_geometry (release_last r) = rb_geometry r"
proof -
  show "rb_last (release_last r) = None" "rb_builder (release_last r) = rb_builder r" "rb_geometry (release_last r) = rb_geometry r"
    by (simp_all add: release_last_def split: option.split)
  show "ring_inv k q (release_last r)"
  proof (cases "rb_last r")
    case None
    with assms show ?thesis
      by (simp add: release_last_def)
  next
    case (Some off)
    have g: "geometry_ok (rb_geometry r)" and n: "length q < slots r" and off: "off = slot r (slots r - 1)"
      using assms Some by (auto simp: ring_inv_def)
    let ?r = "release_last r"
    have r: "?r = r\<lparr>rb_frames := (rb_frames r)(off := (rb_frames r off)\<lparr>fr_user := False, fr_losing := False\<rparr>), rb_last := None\<rparr>"
      by (simp add: release_last_def Some)
    have slot: "slot ?r = slot r"
      by (intro slot_cong) (simp_all add: r)
    have other: "rb_frames ?r (slot r i) = rb_frames r (slot r i)" if "i < slots r" "i \<noteq> slots r - 1" for i
      using that slot_inj[OF g, of i "slots r - 1"] by (simp add: r off)
    have free: "\<not> fr_user (rb_frames ?r off)"
      by (simp add: r)
    have "fr_user (rb_frames ?r (slot r i)) \<longleftrightarrow> False" if "i < slots r" "length q \<le> i" for i
      using that assms free other[of i] slot_inj[OF g, of i "slots r - 1"] Some off
      by (cases "i = slots r - 1") (auto simp: ring_inv_def)
    moreover have "rb_frames ?r (slot r i) = q ! i \<and> fr_user (q ! i) \<and> whole (q ! i)" if "i < length q" for i
      using that n assms other[of i] by (simp add: ring_inv_def)
    ultimately show ?thesis
      using assms unfolding ring_inv_def slot by (simp add: r)
  qed
qed

lemma ring_take_none:
  assumes "ring_inv k [] r" and "rb_last r = None"
  shows "ring_take detect tmx stats r = Inr (None, r)"
proof -
  have "geometry_ok (rb_geometry r)" "rb_frame_idx r < slots r" "\<not> fr_user (rb_frames r (slot r 0))"
    using assms by (auto simp: ring_inv_def)
  with frame_offset_inside[of "rb_geometry r" "rb_frame_idx r"] show ?thesis
    by (simp add: ring_take_def Let_def slot_def)
qed

lemma ring_inv_take:
  assumes "ring_inv k (f # q) r" and "rb_last r = None" and "builder_ok b"
    and idx: "idx = (if rb_frame_idx r + 1 = slots r then 0 else rb_frame_idx r + 1)"
  shows "ring_inv k q (r\<lparr>rb_last := Some (frame_offset (rb_geometry r) (rb_frame_idx r)), rb_frame_idx := idx,
    rb_socket := s, rb_builder := b\<rparr>)" (is "ring_inv k q ?r")
proof -
  have g: "geometry_ok (rb_geometry r)" and n: "rb_frame_idx r < slots r" "length q < slots r"
    and k: "k = (rb_frame_idx r + length (f # q)) mod slots r"
    and fs: "\<forall>i<length (f # q). rb_frames r (slot r i) = (f # q) ! i \<and> fr_user ((f # q) ! i) \<and> whole ((f # q) ! i)"
    and free: "\<forall>i<(slots r). length (f # q) \<le> i \<longrightarrow> \<not> fr_user (rb_frames r (slot r i))"
    using assms(1,2) by (auto simp: ring_inv_def)
  have idx': "idx = (rb_frame_idx r + 1) mod slots r"
    using n(1) idx by auto
  have slot: "slot ?r i = slot r (Suc i)" for i
    by (simp add: slot_def idx' mod_add_left_eq)
  have off: "frame_offset (rb_geometry r) (rb_frame_idx r) = slot r 0" "slot r (slots r) = slot r 0"
    using n(1) by (simp_all add: slot_def)
  have "idx < slots r"
    using n(1) idx by auto
  moreover have "k = (idx + length q) mod slots r"
    unfolding k idx' mod_add_left_eq by simp
  moreover have "slot ?r (slots r - 1) = slot r 0"
    using n(1) off(2) by (simp add: slot)
  moreover have "rb_frames r (slot r (Suc i)) = q ! i \<and> fr_user (q ! i) \<and> whole (q ! i)" if "i < length q" for i
    using fs that by fastforce
  moreover have "fr_user (rb_frames r (slot r (Suc i))) \<longleftrightarrow> slot r 0 = slot r (Suc i)" if "i < slots r" "length q \<le> i" for i
  proof (cases "Suc i = slots r")
    case True
    then show ?thesis
      using fs off(2) by auto
  next
    case False
    with that have "Suc i < slots r"
      by simp
    then show ?thesis
      using free that slot_inj[OF g, of 0 "Suc i"] by auto
  qed
  ultimately show ?thesis
    using g n(2) assms(3) unfolding ring_inv_def slot by (simp add: off)
qed

lemma ring_take_some:
  assumes "ring_inv k (f # q) r" and "rb_last r = None" and "pending (rb_builder r) = []"
  obtains rec r' where "ring_take detect tmx stats r = Inr (Some rec, r')" "ring_inv k q r'"
    "packets_of (pb_pkt_attr (rb_builder r)) rec @ concat (map (packets_of (pb_pkt_attr (rb_builder r))) (pending (rb_builder r'))) = [packet f]"
    "length (pending (rb_builder r')) \<le> 1" "rb_geometry r' = rb_geometry r" "pb_pkt_attr (rb_builder r') = pb_pkt_attr (rb_builder r)"
proof -
  let ?off = "frame_offset (rb_geometry r) (rb_frame_idx r)" and ?id = "pb_pkt_attr (rb_builder r)"
  have g: "geometry_ok (rb_geometry r)" "rb_frame_idx r < slots r" and b: "builder_ok (rb_builder r)"
    and f: "rb_frames r ?off = f" "fr_user f" "whole f"
    using assms(1) by (auto simp: ring_inv_def slot_def)
  obtain n s where d: "(if fr_losing f then drops stats (rb_socket r) else (0, rb_socket r)) = (n, s)"
    by force
  obtain ts s' where c: "correct_socket detect tmx (frame_ts (rb_version r) f) s = (ts, s')"
    by force
  have len: "unat (ucast (fr_len f) :: u64) = unat (fr_len f)" "fr_snaplen f = fr_len f" "unat (fr_len f) \<le> length (fr_content f)"
    using f(3) by (auto simp: whole_def unat_widen)
  then obtain b1 where b1: "build_packet (Some ts) (fr_content f) (ucast (fr_len f)) (ucast (fr_len f)) n (rb_builder r) = Inr b1"
      "builder_ok b1" "same_builder (rb_builder r) b1"
      "pending b1 = lost_records (Some ts) n (rb_builder r) @ [packet_record (Some ts) (packet f) None (rb_builder r)]"
    using build_packet_pending[OF b, of "ucast (fr_len f)" "fr_content f" "Some ts" "ucast (fr_len f)" n]
    by (auto simp: packet_def)
  have content: "concat (map (packets_of ?id) (pending b1)) = [packet f]"
    unfolding b1(4) by (simp add: packets_of_lost packets_of_packet_record)
  obtain rec recs where recs: "pending b1 = rec # recs"
    using b1(4) by (cases "lost_records (Some ts) n (rb_builder r)") auto
  with b1(4) have "length recs \<le> 1"
    by (auto simp: lost_records_def split: if_splits)
  obtain b2 where b2: "next_record b1 = (Some rec, b2)" "pending b2 = recs" "builder_ok b2" "b2 = b1\<lparr>pb_count := pb_count b2\<rparr>"
    using next_record_some[OF recs b1(2)] by blast
  have attr: "pb_pkt_attr b2 = ?id"
    using b1(3) by (subst b2(4)) (simp add: same_builder_def)
  let ?r = "r\<lparr>rb_last := Some ?off, rb_frame_idx := (if rb_frame_idx r + 1 = slots r then 0 else rb_frame_idx r + 1),
    rb_socket := s', rb_builder := b2\<rparr>"
  have "ring_take detect tmx stats r = Inr (Some rec, ?r)"
    using frame_offset_inside[OF g] f(2) by (simp add: ring_take_def Let_def f(1) d c len(2) b1(1) b2(1))
  moreover have "ring_inv k q ?r"
    by (rule ring_inv_take[OF assms(1,2) b2(3) refl])
  moreover have "packets_of ?id rec @ concat (map (packets_of ?id) (pending b2)) = [packet f]"
    using content by (simp add: recs b2(2))
  ultimately show ?thesis
    using that \<open>length recs \<le> 1\<close> attr b2(2) by simp
qed

text \<open>
  The packets not yet returned, and a bound on the number of reads they take.
\<close>

definition waiting :: "i32 \<Rightarrow> frame list \<Rightarrow> ring_buffer \<Rightarrow> octets list" where
  "waiting i q r = concat (map (packets_of i) (pending (rb_builder r))) @ map packet q"

definition reads_left :: "frame list \<Rightarrow> ring_buffer \<Rightarrow> nat" where
  "reads_left q r = length (pending (rb_builder r)) + 2 * length q"

definition packets_read :: "i32 \<Rightarrow> hrecord option \<Rightarrow> octets list" where
  "packets_read i rec = (case rec of None \<Rightarrow> [] | Some x \<Rightarrow> packets_of i x)"

lemma packets_prepend: "concat (map (packets_of i) (case rec of None \<Rightarrow> recs | Some x \<Rightarrow> x # recs))
    = packets_read i rec @ concat (map (packets_of i) recs)"
  by (simp add: packets_read_def split: option.split)

lemma ring_read_step:
  assumes "ring_inv k q r" and "i = pb_pkt_attr (rb_builder r)"
  obtains rec r' q' where "ring_read detect tmx stats r = Inr (rec, r')" "ring_inv k q' r'"
    "packets_read i rec @ waiting i q' r' = waiting i q r" "reads_left q' r' \<le> reads_left q r - 1"
    "rb_geometry r' = rb_geometry r" "pb_pkt_attr (rb_builder r') = i"
proof (cases "pending (rb_builder r)")
  case (Cons x xs)
  have ok: "builder_ok (rb_builder r)"
    using assms(1) by (simp add: ring_inv_def)
  obtain b where b: "next_record (rb_builder r) = (Some x, b)" "pending b = xs" "builder_ok b" "b = (rb_builder r)\<lparr>pb_count := pb_count b\<rparr>"
    using next_record_some[OF Cons ok] by blast
  have "slot (r\<lparr>rb_builder := b\<rparr>) = slot r"
    by (intro slot_cong) simp_all
  then have "ring_inv k q (r\<lparr>rb_builder := b\<rparr>)"
    using assms(1) b(3) by (simp add: ring_inv_def)
  moreover have "pb_pkt_attr b = i"
    by (subst b(4)) (simp add: assms(2))
  ultimately show ?thesis
    using that[of "Some x" "r\<lparr>rb_builder := b\<rparr>" q] b(1,2) Cons
    by (simp add: ring_read_def waiting_def packets_read_def reads_left_def)
next
  case empty: Nil
  note rel = ring_inv_release[OF assms(1)]
  have "next_record (rb_builder r) = (None, rb_builder r)"
    using next_record_none[OF empty] assms(1) by (simp add: ring_inv_def)
  then have read: "ring_read detect tmx stats r = ring_take detect tmx stats (release_last r)"
    by (simp add: ring_read_def)
  show ?thesis
  proof (cases q)
    case Nil
    with ring_take_none[OF rel(1)[unfolded Nil] rel(2)] rel that[of None "release_last r" "[]"] assms(2) empty show ?thesis
      by (simp add: read waiting_def packets_read_def reads_left_def)
  next
    case (Cons f q')
    obtain rec r' where t: "ring_take detect tmx stats (release_last r) = Inr (Some rec, r')" "ring_inv k q' r'"
      "packets_of i rec @ concat (map (packets_of i) (pending (rb_builder r'))) = [packet f]"
      "length (pending (rb_builder r')) \<le> 1" "rb_geometry r' = rb_geometry r" "pb_pkt_attr (rb_builder r') = i"
      using ring_take_some[OF rel(1)[unfolded Cons] rel(2), of detect tmx stats] empty rel(3,4) assms(2) by metis
    from t(3) have "packets_of i rec @ waiting i q' r' = waiting i q r"
      using empty Cons by (simp add: waiting_def flip: append_assoc)
    with t that[of "Some rec" r' q'] read Cons empty show ?thesis
      by (simp add: packets_read_def reads_left_def)
  qed
qed

lemma ring_run_packets:
  assumes "ring_inv k q r" and "i = pb_pkt_attr (rb_builder r)" and "\<forall>f. Deliver f \<in> set es \<longrightarrow> whole f"
  shows "\<exists>fs recs w. ring_run detect es k r = Inr (fs, recs) \<and> concat (map (packets_of i) recs) @ w = waiting i q r @ map packet fs
    \<and> (\<forall>n. es = map (\<lambda>(stats, tmx). Read stats tmx) n \<longrightarrow> reads_left q r \<le> length n \<longrightarrow> w = [] \<and> fs = [])"
  using assms
proof (induction detect es k r arbitrary: q rule: ring_run.induct)
  case (1 detect k r)
  then show ?case
    by (auto simp: reads_left_def waiting_def)
next
  case (2 detect f es k r)
  show ?case
  proof (cases "kernel_put f k r")
    case None
    with 2(1)[OF None 2(3,4)] 2(5) show ?thesis
      by (auto simp: Cons_eq_map_conv)
  next
    case (Some r')
    have "whole f"
      using 2(5) by simp
    note put = ring_inv_put[OF 2(3) Some this]
    obtain fs recs w where run: "ring_run detect es (next_index (rb_geometry r) k) r' = Inr (fs, recs)"
      "concat (map (packets_of i) recs) @ w = waiting i (q @ [f\<lparr>fr_user := True\<rparr>]) r' @ map packet fs"
      using 2(2)[OF Some put(1)] 2(4,5) put(2) by auto
    have "waiting i (q @ [f\<lparr>fr_user := True\<rparr>]) r' = waiting i q r @ [packet f]"
      by (simp add: waiting_def put(2) packet_def)
    with run Some show ?thesis
      by (auto simp: Cons_eq_map_conv)
  qed
next
  case (3 detect stats tmx es k r)
  obtain rec r' q' where step: "ring_read detect tmx stats r = Inr (rec, r')" "ring_inv k q' r'"
    "packets_read i rec @ waiting i q' r' = waiting i q r" "reads_left q' r' \<le> reads_left q r - 1"
    "rb_geometry r' = rb_geometry r" "pb_pkt_attr (rb_builder r') = i"
    using ring_read_step[OF 3(2,3)] by blast
  obtain fs recs w where run: "ring_run detect es k r' = Inr (fs, recs)"
    "concat (map (packets_of i) recs) @ w = waiting i q' r' @ map packet fs"
    "\<forall>n. es = map (\<lambda>(stats, tmx). Read stats tmx) n \<longrightarrow> reads_left q' r' \<le> length n \<longrightarrow> w = [] \<and> fs = []"
    using 3(1)[OF step(1) refl step(2)] step(6) 3(4) by auto
  have "ring_run detect (Read stats tmx # es) k r = Inr (fs, (case rec of None \<Rightarrow> recs | Some x \<Rightarrow> x # recs))"
    by (simp add: step(1) run(1))
  moreover have "concat (map (packets_of i) (case rec of None \<Rightarrow> recs | Some x \<Rightarrow> x # recs)) @ w = waiting i q r @ map packet fs"
    unfolding packets_prepend using run(2) step(3) by (metis append_assoc)
  moreover have "\<forall>n. Read stats tmx # es = map (\<lambda>(stats, tmx). Read stats tmx) n \<longrightarrow> reads_left q r \<le> length n \<longrightarrow> w = [] \<and> fs = []"
    using run(3) step(4) by (auto simp: Cons_eq_map_conv)
  ultimately show ?case
    by blast
qed

lemma reads_left_bound: "ring_inv k q r \<Longrightarrow> reads_left q r \<le> 2 + 2 * slots r"
  by (simp add: ring_inv_def reads_left_def pending_def builder_ok_def)

lemma ring_run_drained:
  assumes "ring_inv k q r" and "i = pb_pkt_attr (rb_builder r)" and "\<forall>f. Deliver f \<in> set es \<longrightarrow> whole f"
    and "2 + 2 * slots r \<le> length n"
  shows "\<exists>fs recs. ring_run detect (es @ map (\<lambda>(stats, tmx). Read stats tmx) n) k r = Inr (fs, recs)
    \<and> concat (map (packets_of i) recs) = waiting i q r @ map packet fs"
  using assms
proof (induction detect es k r arbitrary: q rule: ring_run.induct)
  case (1 detect k r)
  have "\<forall>f. Deliver f \<in> set (map (\<lambda>(stats, tmx). Read stats tmx) n) \<longrightarrow> whole f"
    by auto
  from ring_run_packets[OF 1(1,2) this, of detect] reads_left_bound[OF 1(1)] 1(4) show ?case
    by fastforce
next
  case (2 detect f es k r)
  show ?case
  proof (cases "kernel_put f k r")
    case None
    with 2(1)[OF None 2(3,4) _ 2(6)] 2(5) show ?thesis
      by auto
  next
    case (Some r')
    have "whole f"
      using 2(5) by simp
    note put = ring_inv_put[OF 2(3) Some this]
    obtain fs recs where run:
      "ring_run detect (es @ map (\<lambda>(stats, tmx). Read stats tmx) n) (next_index (rb_geometry r) k) r' = Inr (fs, recs)"
      "concat (map (packets_of i) recs) = waiting i (q @ [f\<lparr>fr_user := True\<rparr>]) r' @ map packet fs"
      using 2(2)[OF Some put(1)] 2(4,5,6) put(2,3) by auto
    have "waiting i (q @ [f\<lparr>fr_user := True\<rparr>]) r' = waiting i q r @ [packet f]"
      by (simp add: waiting_def put(2) packet_def)
    with run Some show ?thesis
      by simp
  qed
next
  case (3 detect stats tmx es k r)
  obtain rec r' q' where step: "ring_read detect tmx stats r = Inr (rec, r')" "ring_inv k q' r'"
    "packets_read i rec @ waiting i q' r' = waiting i q r" "rb_geometry r' = rb_geometry r" "pb_pkt_attr (rb_builder r') = i"
    using ring_read_step[OF 3(2,3)] by blast
  obtain fs recs where run: "ring_run detect (es @ map (\<lambda>(stats, tmx). Read stats tmx) n) k r' = Inr (fs, recs)"
    "concat (map (packets_of i) recs) = waiting i q' r' @ map packet fs"
    using 3(1)[OF step(1) refl step(2)] step(4,5) 3(4,5) by auto
  have "concat (map (packets_of i) (case rec of None \<Rightarrow> recs | Some x \<Rightarrow> x # recs)) = waiting i q r @ map packet fs"
    unfolding packets_prepend using run(2) step(3) by (metis append_assoc)
  then show ?case
    by (simp add: step(1) run(1))
qed

definition ring_buffer_init ::
  "ring_version \<Rightarrow> geometry \<Rightarrow> (nat \<Rightarrow> frame) \<Rightarrow> basic_packet_socket \<Rightarrow> packet_record_builder \<Rightarrow> ring_buffer" where
  "ring_buffer_init v g frames socket b =
     \<lparr>rb_version = v, rb_geometry = g, rb_frames = frames, rb_frame_idx = 0, rb_last = None, rb_socket = socket, rb_builder = b\<rparr>"

lemma ring_inv_init:
  "geometry_ok g \<Longrightarrow> \<forall>off. \<not> fr_user (frames off) \<Longrightarrow> builder_ok b \<Longrightarrow> ring_inv 0 [] (ring_buffer_init v g frames socket b)"
proof -
  assume "geometry_ok g"
  then have "0 < unat (tp_frame_nr g)"
    unfolding geometry_ok_def by blast
  with \<open>geometry_ok g\<close> show "\<forall>off. \<not> fr_user (frames off) \<Longrightarrow> builder_ok b \<Longrightarrow> ?thesis"
    by (simp add: ring_inv_def ring_buffer_init_def)
qed

text \<open>
  C6: Between a kernel that fills the slots in turn, and drops a packet when its slot is taken, and the reader
  of the ring every packet that was accepted is read, once and in the order of arrival, however puts and reads
  are interleaved: after enough reads the records that have packets have exactly these. (The packets are
  whole, in a ring of less than 4 GiB that is empty at first.)
\<close>

lemma ring_delivers:
  assumes "ring_geometry hdrlen page snaplen capacity = Some (Inr g)" and "unat capacity < 2 ^ 32"
    and "\<forall>off. \<not> fr_user (frames off)" and "builder_ok b" and "pending b = []"
    and "\<forall>f. Deliver f \<in> set es \<longrightarrow> whole f" and "2 + 2 * unat (tp_frame_nr g) \<le> length n"
  shows "\<exists>fs recs. ring_run detect (es @ map (\<lambda>(stats, tmx). Read stats tmx) n) 0 (ring_buffer_init v g frames socket b)
      = Inr (fs, recs) \<and> concat (map (packets_of (pb_pkt_attr b)) recs) = map packet fs"
  using ring_run_drained[OF ring_inv_init[OF ring_geometry_ok(1)[OF assms(1,2)] assms(3,4)] refl assms(6), where n = n and detect = detect]
    assms(5,7) by (simp add: ring_buffer_init_def waiting_def)

lemma ring_delivers_witness:
  "\<exists>g. ring_geometry 52 (2 ^ 12) 14 4096 = Some (Inr g) \<and>
    (\<exists>fs recs. ring_run True ([Deliver \<lparr>fr_user = False, fr_losing = True, fr_sec = 1, fr_subsec = 2, fr_len = 2, fr_snaplen = 2,
        fr_content = [1, 2, 3]\<rparr>] @ map (\<lambda>(stats, tmx). Read stats tmx) (replicate 104 (\<lparr>tp_packets = 2, tp_drops = 1\<rparr>, timex_at 86400 True 0)))
        0 (ring_buffer_init Ring_V2 g (\<lambda>_. \<lparr>fr_user = False, fr_losing = False, fr_sec = 0, fr_subsec = 0, fr_len = 0,
          fr_snaplen = 0, fr_content = []\<rparr>) (basic_packet_socket_init 0 0)
          \<lparr>pb_channel = 0, pb_pkt_attr = 0, pb_origlen_attr = 1, pb_rpt_attr = 2, pb_buffer = [empty_record, empty_record], pb_count = 0\<rparr>)
      = Inr (fs, recs) \<and> concat (map (packets_of 0) recs) = map packet fs)"
proof -
  let ?b = "\<lparr>pb_channel = 0, pb_pkt_attr = 0, pb_origlen_attr = 1, pb_rpt_attr = 2, pb_buffer = [empty_record, empty_record], pb_count = 0\<rparr>"
  let ?g = "\<lparr>tp_block_size = 2 ^ 12, tp_block_nr = 1, tp_frame_size = 80, tp_frame_nr = 51, frames_per_block = 51\<rparr>"
  have "frame_size_for 52 14 = 80"
    by (simp add: frame_size_for_def TPACKET_ALIGN_def ETH_HLEN_def)
  then have g: "ring_geometry 52 (2 ^ 12) 14 4096 = Some (Inr ?g)"
    by (simp add: ring_geometry_def block_size_loop.simps)
  have b: "builder_ok ?b" "pending ?b = []"
    by (simp_all add: builder_ok_def pending_def)
  have "unat (4096 :: u64) < 2 ^ 32"
    by simp
  note run = ring_delivers[OF g this _ b, where v = Ring_V2 and detect = True and socket = "basic_packet_socket_init 0 0" and
      frames = "\<lambda>_. \<lparr>fr_user = False, fr_losing = False, fr_sec = 0, fr_subsec = 0, fr_len = 0, fr_snaplen = 0, fr_content = []\<rparr>" and
      es = "[Deliver \<lparr>fr_user = False, fr_losing = True, fr_sec = 1, fr_subsec = 2, fr_len = 2, fr_snaplen = 2, fr_content = [1, 2, 3]\<rparr>]" and
      n = "replicate 104 (\<lparr>tp_packets = 2, tp_drops = 1\<rparr>, timex_at 86400 True 0)"]
  show ?thesis
    by (intro exI[of _ ?g] conjI g, use run in \<open>simp add: whole_def del: map_replicate\<close>)
qed

section \<open>Rings of blocks\<close>

text \<open>
  A block of version 3 has the two flags of its status and the frames that the offsets in it lead to.
\<close>

record block =
  bk_user :: bool
  bk_losing :: bool
  bk_frames :: "frame list"

text \<open>
  The blocks by their offset in the mapping; \<open>r3_frame\<close> is the pointer to the next frame of the block, as its
  place in the chain.
\<close>

record ring_buffer_v3 =
  r3_geometry :: geometry
  r3_blocks :: "nat \<Rightarrow> block"
  r3_block_idx :: nat
  r3_frame_idx :: nat
  r3_last_block :: "nat option"
  r3_block :: nat
  r3_frame :: "nat option"
  r3_socket :: basic_packet_socket
  r3_builder :: packet_record_builder

definition block_offset :: "geometry \<Rightarrow> nat \<Rightarrow> nat" where
  "block_offset g idx = idx * unat (tp_block_size g)"

definition ring_buffer_v3_init ::
  "geometry \<Rightarrow> (nat \<Rightarrow> block) \<Rightarrow> basic_packet_socket \<Rightarrow> packet_record_builder \<Rightarrow> ring_buffer_v3" where
  "ring_buffer_v3_init g blocks socket b =
     \<lparr>r3_geometry = g, r3_blocks = blocks, r3_block_idx = 0, r3_frame_idx = 0, r3_last_block = None, r3_block = 0,
      r3_frame = None, r3_socket = socket, r3_builder = b\<rparr>"

definition release_block :: "ring_buffer_v3 \<Rightarrow> ring_buffer_v3" where
  "release_block r =
     (case r3_last_block r of
        None \<Rightarrow> r
      | Some off \<Rightarrow> r\<lparr>r3_blocks := (r3_blocks r)(off := (r3_blocks r off)\<lparr>bk_user := False, bk_losing := False\<rparr>),
          r3_last_block := None\<rparr>)"

definition advance_frame :: "ring_buffer_v3 \<Rightarrow> ring_buffer_v3" where
  "advance_frame r =
     (let idx = r3_frame_idx r + 1 in
      if idx = length (bk_frames (r3_blocks r (r3_block r))) then
        (let block_idx = (if r3_block_idx r + 1 = unat (tp_block_nr (r3_geometry r)) then 0 else r3_block_idx r + 1) in
         r\<lparr>r3_frame_idx := 0, r3_frame := None, r3_last_block := Some (r3_block r), r3_block_idx := block_idx,
           r3_block := block_offset (r3_geometry r) block_idx\<rparr>)
      else r\<lparr>r3_frame_idx := idx, r3_frame := map_option Suc (r3_frame r)\<rparr>)"

definition return_next :: "ring_buffer_v3 \<Rightarrow> (hrecord option \<times> ring_buffer_v3) result" where
  "return_next r = (case next_record (r3_builder r) of (rec, b) \<Rightarrow> Inr (rec, r\<lparr>r3_builder := b\<rparr>))"

definition read_frame :: "bool \<Rightarrow> timex \<Rightarrow> nat \<Rightarrow> ring_buffer_v3 \<Rightarrow> (hrecord option \<times> ring_buffer_v3) result" where
  "read_frame detect tmx i r =
     (let fs = bk_frames (r3_blocks r (r3_block r)) in
      if length fs \<le> i then Inl (Undefined_Behaviour ''ring buffer'')
      else
        (let f = fs ! i;
             (ts, socket) = correct_socket detect tmx (frame_ts Ring_V2 f) (r3_socket r);
             r' = advance_frame (r\<lparr>r3_socket := socket\<rparr>) in
         bindE (build_packet (Some ts) (fr_content f) (ucast (fr_snaplen f)) (ucast (fr_len f)) 0 (r3_builder r)) (\<lambda>b.
         return_next (r'\<lparr>r3_builder := b\<rparr>))))"

text \<open>
  \<open>now\<close> is what \<^verbatim>\<open>clock_gettime\<close> gives. A block that is not ready is no record.
\<close>

definition ring_read_v3 ::
  "bool \<Rightarrow> timex \<Rightarrow> packet_stats \<Rightarrow> timespec result \<Rightarrow> ring_buffer_v3 \<Rightarrow> (hrecord option \<times> ring_buffer_v3) result" where
  "ring_read_v3 detect tmx stats now r =
     (case next_record (r3_builder r) of
        (Some rec, b) \<Rightarrow> Inr (Some rec, r\<lparr>r3_builder := b\<rparr>)
      | (None, _) \<Rightarrow>
          (case r3_frame r of
             Some i \<Rightarrow> read_frame detect tmx i r
           | None \<Rightarrow>
               (let r1 = release_block r;
                    blk = r3_blocks r1 (r3_block r1) in
                if \<not> bk_user blk then Inr (None, r1)
                else if bk_frames blk = [] then Inl (Runtime_Error ''encountered empty ring buffer block'')
                else
                  (let r2 = r1\<lparr>r3_frame := Some 0\<rparr>;
                       (n, socket) = (if bk_losing blk then drops stats (r3_socket r2) else (0, r3_socket r2)) in
                   if n \<noteq> 0 then bindE now (\<lambda>ts.
                     return_next (r2\<lparr>r3_socket := socket, r3_builder := build_dropped (Some ts) n (r3_builder r2)\<rparr>))
                   else read_frame detect tmx 0 (r2\<lparr>r3_socket := socket\<rparr>)))))"

section \<open>The choice of a method\<close>

text \<open>
  A method fails with the exception of its constructor; what \<open>open_method\<close> gives is not otherwise looked at.
\<close>

definition try_methods :: "(string \<Rightarrow> 's result) \<Rightarrow> string list \<Rightarrow> string \<Rightarrow> 's result" where
  "try_methods open_method names fallback =
     foldr (\<lambda>name other. case open_method name of Inr s \<Rightarrow> Inr s | Inl e \<Rightarrow> other) names (open_method fallback)"

definition make_basic_packet_socket :: "(string \<Rightarrow> 's result) \<Rightarrow> string \<Rightarrow> 's result" where
  "make_basic_packet_socket open_method name =
     (if name = [] then try_methods open_method [''ringv3'', ''ringv2'', ''ringv1''] ''packet''
      else if name \<in> {''ringv3'', ''ringv2'', ''ringv1'', ''packet''} then open_method name
      else Inl (Endpoint_Error ''unrecognised capture _method''))"

section \<open>The packets of a block\<close>

fun reads_v3 :: "bool \<Rightarrow> (timex \<times> packet_stats \<times> timespec result) list \<Rightarrow> ring_buffer_v3 \<Rightarrow> (hrecord list \<times> ring_buffer_v3) result" where
  "reads_v3 detect [] r = Inr ([], r)"
| "reads_v3 detect ((tmx, stats, now) # xs) r =
     bindE (ring_read_v3 detect tmx stats now r) (\<lambda>(rec, r').
     bindE (reads_v3 detect xs r') (\<lambda>(recs, r'').
     Inr (case rec of None \<Rightarrow> recs | Some x \<Rightarrow> x # recs, r'')))"

text \<open>
  The reader is at frame \<open>i\<close> of a block with the frames \<open>fs\<close>, with nothing left in the builder.
\<close>

definition at_frame :: "i32 \<Rightarrow> frame list \<Rightarrow> nat \<Rightarrow> ring_buffer_v3 \<Rightarrow> bool" where
  "at_frame pkt fs i r \<longleftrightarrow> builder_ok (r3_builder r) \<and> pending (r3_builder r) = [] \<and> pb_pkt_attr (r3_builder r) = pkt
     \<and> r3_frame_idx r = i \<and> i < length fs \<and> bk_frames (r3_blocks r (r3_block r)) = fs"

text \<open>
  The reader has done with the block at \<open>off\<close>: it is kept, and the next block is the one after it.
\<close>

definition block_done :: "geometry \<Rightarrow> (nat \<Rightarrow> block) \<Rightarrow> nat \<Rightarrow> nat \<Rightarrow> ring_buffer_v3 \<Rightarrow> bool" where
  "block_done g blocks idx off r \<longleftrightarrow> r3_geometry r = g \<and> r3_blocks r = blocks \<and> r3_last_block r = Some off \<and> r3_frame r = None
     \<and> r3_frame_idx r = 0 \<and> r3_block_idx r = (if idx + 1 = unat (tp_block_nr g) then 0 else idx + 1)
     \<and> r3_block r = block_offset g (r3_block_idx r) \<and> pending (r3_builder r) = []"

lemma read_frame_packet:
  assumes "at_frame pkt fs i r" and "whole (fs ! i)"
  obtains rec r' where "read_frame detect tmx i r = Inr (Some rec, r')" "packets_of pkt rec = [packet (fs ! i)]"
    "Suc i < length fs \<Longrightarrow> at_frame pkt fs (Suc i) r' \<and> r3_frame r' = map_option Suc (r3_frame r)
      \<and> r3_geometry r' = r3_geometry r \<and> r3_blocks r' = r3_blocks r \<and> r3_block r' = r3_block r \<and> r3_block_idx r' = r3_block_idx r"
    "Suc i = length fs \<Longrightarrow> block_done (r3_geometry r) (r3_blocks r) (r3_block_idx r) (r3_block r) r'"
proof -
  let ?f = "fs ! i" and ?b = "r3_builder r"
  have b: "builder_ok ?b" and i: "i < length fs" "r3_frame_idx r = i" "bk_frames (r3_blocks r (r3_block r)) = fs" "pb_pkt_attr ?b = pkt"
    using assms(1) by (simp_all add: at_frame_def)
  obtain ts s where c: "correct_socket detect tmx (frame_ts Ring_V2 ?f) (r3_socket r) = (ts, s)"
    by force
  have len: "unat (ucast (fr_len ?f) :: u64) = unat (fr_len ?f)" "fr_snaplen ?f = fr_len ?f" "unat (fr_len ?f) \<le> length (fr_content ?f)"
    using assms(2) by (auto simp: whole_def unat_widen)
  then obtain b1 where b1: "build_packet (Some ts) (fr_content ?f) (ucast (fr_len ?f)) (ucast (fr_len ?f)) 0 ?b = Inr b1"
      "builder_ok b1" "same_builder ?b b1" "pending b1 = [packet_record (Some ts) (packet ?f) None ?b]"
    using build_packet_pending[OF b, of "ucast (fr_len ?f)" "fr_content ?f" "Some ts" "ucast (fr_len ?f)" 0]
    by (auto simp: packet_def lost_records_def)
  obtain b2 where b2: "next_record b1 = (Some (packet_record (Some ts) (packet ?f) None ?b), b2)" "pending b2 = []" "builder_ok b2"
      "b2 = b1\<lparr>pb_count := pb_count b2\<rparr>"
    using next_record_some[OF b1(4,2)] by blast
  have attr: "pb_pkt_attr b2 = pkt"
    using b1(3) i(4) by (subst b2(4)) (simp add: same_builder_def)
  define r' where "r' = (advance_frame (r\<lparr>r3_socket := s\<rparr>))\<lparr>r3_builder := b2\<rparr>"
  have "read_frame detect tmx i r = Inr (Some (packet_record (Some ts) (packet ?f) None ?b), r')"
    using i by (simp add: read_frame_def Let_def c len(2) b1(1) return_next_def b2(1) r'_def del: frame_ts.simps)
  moreover have "packets_of pkt (packet_record (Some ts) (packet ?f) None ?b) = [packet ?f]"
    using packets_of_packet_record[of ?b] i(4) by simp
  moreover have "at_frame pkt fs (Suc i) r' \<and> r3_frame r' = map_option Suc (r3_frame r)
      \<and> r3_geometry r' = r3_geometry r \<and> r3_blocks r' = r3_blocks r \<and> r3_block r' = r3_block r \<and> r3_block_idx r' = r3_block_idx r"
    if "Suc i < length fs"
    using that i b2(2,3) attr by (simp add: at_frame_def r'_def advance_frame_def Let_def)
  moreover have "block_done (r3_geometry r) (r3_blocks r) (r3_block_idx r) (r3_block r) r'" if "Suc i = length fs"
    using that i b2(2) by (simp add: block_done_def r'_def advance_frame_def Let_def)
  ultimately show ?thesis
    using that by blast
qed

lemma reads_v3_frames:
  assumes "at_frame pkt fs i r" and "r3_frame r = Some i" and "\<forall>f\<in>set fs. whole f" and "length xs = length fs - i"
  shows "\<exists>recs r'. reads_v3 detect xs r = Inr (recs, r') \<and> concat (map (packets_of pkt) recs) = map packet (drop i fs)
    \<and> block_done (r3_geometry r) (r3_blocks r) (r3_block_idx r) (r3_block r) r'"
  using assms
proof (induction xs arbitrary: i r)
  case Nil
  then show ?case
    by (simp add: at_frame_def)
next
  case (Cons x xs)
  obtain tmx stats now where x: "x = (tmx, stats, now)"
    by (cases x)
  have i: "i < length fs" and b: "builder_ok (r3_builder r)" "pending (r3_builder r) = []"
    using Cons.prems(1) by (simp_all add: at_frame_def)
  then have "whole (fs ! i)"
    using Cons.prems(3) by simp
  then obtain rec r' where step: "read_frame detect tmx i r = Inr (Some rec, r')" "packets_of pkt rec = [packet (fs ! i)]"
    "Suc i < length fs \<Longrightarrow> at_frame pkt fs (Suc i) r' \<and> r3_frame r' = map_option Suc (r3_frame r)
      \<and> r3_geometry r' = r3_geometry r \<and> r3_blocks r' = r3_blocks r \<and> r3_block r' = r3_block r \<and> r3_block_idx r' = r3_block_idx r"
    "Suc i = length fs \<Longrightarrow> block_done (r3_geometry r) (r3_blocks r) (r3_block_idx r) (r3_block r) r'"
    using read_frame_packet[OF Cons.prems(1), of detect tmx] by blast
  have read: "ring_read_v3 detect tmx stats now r = Inr (Some rec, r')"
    using next_record_none[OF b(2,1)] Cons.prems(2) step(1) by (simp add: ring_read_v3_def)
  have drop: "drop i fs = fs ! i # drop (Suc i) fs"
    using i by (rule Cons_nth_drop_Suc[symmetric])
  show ?case
  proof (cases "Suc i = length fs")
    case True
    have "xs = []"
      using Cons.prems(4) unfolding True[symmetric] by simp
    with step(2) step(4)[OF True] read True show ?thesis
      by (simp add: x drop)
  next
    case False
    with i have "Suc i < length fs"
      by simp
    note next_frame = step(3)[OF this]
    have "\<exists>recs r''. reads_v3 detect xs r' = Inr (recs, r'') \<and> concat (map (packets_of pkt) recs) = map packet (drop (Suc i) fs)
        \<and> block_done (r3_geometry r') (r3_blocks r') (r3_block_idx r') (r3_block r') r''"
      using next_frame Cons.prems by (intro Cons.IH) simp_all
    with step(2) read next_frame show ?thesis
      by (auto simp: x drop)
  qed
qed

text \<open>
  The reader waits for a block, and the block read last is not the same one.
\<close>

definition before_block :: "i32 \<Rightarrow> ring_buffer_v3 \<Rightarrow> bool" where
  "before_block pkt r \<longleftrightarrow> builder_ok (r3_builder r) \<and> pending (r3_builder r) = [] \<and> pb_pkt_attr (r3_builder r) = pkt
     \<and> r3_frame r = None \<and> r3_frame_idx r = 0 \<and> r3_last_block r \<noteq> Some (r3_block r)"

definition losses_to_report :: "packet_stats \<Rightarrow> ring_buffer_v3 \<Rightarrow> u32" where
  "losses_to_report stats r =
     (if bk_losing (r3_blocks r (r3_block r)) then fst (drops stats (r3_socket r)) else 0)"

text \<open>
  C7: A block of a version 3 ring that is ready gives its packets, one for each read and in the order of the
  block, after a record of the losses if there are any to report; the block before it is given back to the
  kernel by the first of these reads, and the block itself is not given back by any of them. The reader then
  waits for the next block in turn. (The packets are whole.)
\<close>

lemma block_packets:
  assumes "before_block pkt r" and "r3_blocks r (r3_block r) = blk" and "bk_user blk" and "bk_frames blk \<noteq> []"
    and "\<forall>f\<in>set (bk_frames blk). whole f" and "losses_to_report stats r = n"
    and "length xs + 1 = length (bk_frames blk) + (if n = 0 then 0 else 1)"
  shows "\<exists>recs r'. reads_v3 detect ((tmx, stats, Inr now) # xs) r = Inr (recs, r')
    \<and> concat (map (packets_of pkt) recs) = map packet (bk_frames blk)
    \<and> (n \<noteq> 0 \<longrightarrow> recs \<noteq> [] \<and> hd recs = repeat_record (Some now) n (r3_builder r))
    \<and> block_done (r3_geometry r) (r3_blocks (release_block r)) (r3_block_idx r) (r3_block r) r'
    \<and> bk_user (r3_blocks r' (r3_block r))"
proof -
  let ?fs = "bk_frames blk" and ?b = "r3_builder r" and ?off = "r3_block r"
  have b: "builder_ok ?b" "pending ?b = []" "pb_pkt_attr ?b = pkt"
    and r: "r3_frame r = None" "r3_frame_idx r = 0" "r3_last_block r \<noteq> Some ?off"
    using assms(1) by (simp_all add: before_block_def)
  let ?r1 = "release_block r"
  have r1: "r3_blocks ?r1 ?off = blk" "r3_block ?r1 = ?off" "r3_builder ?r1 = ?b" "r3_socket ?r1 = r3_socket r"
    "r3_geometry ?r1 = r3_geometry r" "r3_block_idx ?r1 = r3_block_idx r" "r3_frame_idx ?r1 = 0"
    using r assms(2) by (auto simp: release_block_def split: option.split)
  have none: "next_record ?b = (None, ?b)"
    using next_record_none[OF b(2,1)] .
  have "fst (if bk_losing blk then drops stats (r3_socket r) else (0, r3_socket r)) = n"
    using assms(2,6) by (auto simp: losses_to_report_def)
  from run_result[OF this]
  obtain s where s: "(if bk_losing blk then drops stats (r3_socket r) else (0, r3_socket r)) = (n, s)"
    by (rule that)
  define r2 where "r2 = ?r1\<lparr>r3_frame := Some 0, r3_socket := s\<rparr>"
  have r2: "r3_geometry r2 = r3_geometry r" "r3_blocks r2 = r3_blocks ?r1" "r3_block r2 = ?off" "r3_block_idx r2 = r3_block_idx r"
    "r3_frame r2 = Some 0" "r3_builder r2 = ?b" "r3_frame_idx r2 = 0"
    by (simp_all add: r2_def r1)
  have at: "at_frame pkt ?fs 0 (r2\<lparr>r3_builder := c\<rparr>)" if "builder_ok c" "pending c = []" "pb_pkt_attr c = pkt" for c
    using that assms(4) by (simp add: at_frame_def r2 r1(1))
  have read: "ring_read_v3 detect tmx stats (Inr now) r = (if n \<noteq> 0 then return_next (r2\<lparr>r3_builder := build_dropped (Some now) n ?b\<rparr>)
      else read_frame detect tmx 0 r2)"
    using s unfolding ring_read_v3_def none r(1) Let_def r1 by (cases "bk_losing blk") (simp_all add: r1 assms(3,4) r2_def)
  show ?thesis
  proof (cases "n = 0")
    case True
    have "ring_read_v3 detect tmx stats (Inr now) r2 = read_frame detect tmx 0 r2"
      by (simp add: ring_read_v3_def r2 none)
    then have "reads_v3 detect ((tmx, stats, Inr now) # xs) r = reads_v3 detect ((tmx, stats, Inr now) # xs) r2"
      using read True by simp
    moreover have "at_frame pkt ?fs 0 r2"
      using b assms(4) by (simp add: at_frame_def r2 r1(1))
    from reads_v3_frames[OF this r2(5) assms(5), of "(tmx, stats, Inr now) # xs" detect] assms(7) True
    obtain recs r' where "reads_v3 detect ((tmx, stats, Inr now) # xs) r2 = Inr (recs, r')"
      "concat (map (packets_of pkt) recs) = map packet ?fs"
      "block_done (r3_geometry r) (r3_blocks ?r1) (r3_block_idx r) ?off r'"
      by (auto simp: r2)
    ultimately show ?thesis
      using True assms(3) r1(1) by (auto simp: block_done_def)
  next
    case False
    define c where "c = build_dropped (Some now) n ?b"
    have c: "pending c = [repeat_record (Some now) n ?b]" "builder_ok c" "pb_pkt_attr c = pkt"
      using False b pending_add_record[of "?b\<lparr>pb_count := 0\<rparr>"]
      by (simp_all add: c_def build_dropped_def builder_ok_def pending_def add_record_def take_Suc_conv_app_nth)
    obtain c' where c': "next_record c = (Some (repeat_record (Some now) n ?b), c')" "pending c' = []" "builder_ok c'"
      "c' = c\<lparr>pb_count := pb_count c'\<rparr>"
      using next_record_some[OF c(1,2)] by blast
    have "pb_pkt_attr c' = pkt"
      by (subst c'(4)) (simp add: c(3))
    note at = at[OF c'(3,2) this]
    have read: "ring_read_v3 detect tmx stats (Inr now) r = Inr (Some (repeat_record (Some now) n ?b), r2\<lparr>r3_builder := c'\<rparr>)"
      using read False c'(1) by (simp add: return_next_def c_def)
    from reads_v3_frames[OF at _ assms(5), of xs detect] assms(7) False
    obtain recs r' where "reads_v3 detect xs (r2\<lparr>r3_builder := c'\<rparr>) = Inr (recs, r')"
      "concat (map (packets_of pkt) recs) = map packet ?fs"
      "block_done (r3_geometry r) (r3_blocks ?r1) (r3_block_idx r) ?off r'"
      by (auto simp: r2)
    with read False assms(3) r1(1) show ?thesis
      by (auto simp: block_done_def packets_of_repeat_record)
  qed
qed

definition example_ring :: ring_buffer_v3 where
  "example_ring = ring_buffer_v3_init
     \<lparr>tp_block_size = 4096, tp_block_nr = 2, tp_frame_size = 96, tp_frame_nr = 84, frames_per_block = 42\<rparr>
     (\<lambda>off. if off = 0 then \<lparr>bk_user = True, bk_losing = True, bk_frames = [\<lparr>fr_user = False, fr_losing = False, fr_sec = 1,
          fr_subsec = 2, fr_len = 2, fr_snaplen = 2, fr_content = [1, 2, 3]\<rparr>]\<rparr>
        else \<lparr>bk_user = False, bk_losing = False, bk_frames = []\<rparr>)
     (basic_packet_socket_init 0 0)
     \<lparr>pb_channel = 0, pb_pkt_attr = 0, pb_origlen_attr = 1, pb_rpt_attr = 2, pb_buffer = [empty_record, empty_record], pb_count = 0\<rparr>"

lemma block_packets_witness:
  "\<exists>recs r'. reads_v3 True [(timex_at 86400 True 0, \<lparr>tp_packets = 2, tp_drops = 1\<rparr>, Inr \<lparr>ts_sec = 1, ts_nsec = 2\<rparr>),
      (timex_at 86400 True 0, \<lparr>tp_packets = 0, tp_drops = 0\<rparr>, Inr \<lparr>ts_sec = 1, ts_nsec = 3\<rparr>)] example_ring = Inr (recs, r')
    \<and> concat (map (packets_of 0) recs) = [[1, 2]] \<and> bk_user (r3_blocks r' 0)"
proof -
  let ?blk = "r3_blocks example_ring 0"
  have at: "before_block 0 example_ring" "r3_block example_ring = 0"
    by (simp_all add: before_block_def example_ring_def ring_buffer_v3_init_def builder_ok_def pending_def)
  moreover have blk: "?blk = \<lparr>bk_user = True, bk_losing = True, bk_frames = [\<lparr>fr_user = False, fr_losing = False, fr_sec = 1,
      fr_subsec = 2, fr_len = 2, fr_snaplen = 2, fr_content = [1, 2, 3]\<rparr>]\<rparr>"
    by (simp add: example_ring_def ring_buffer_v3_init_def)
  moreover have "losses_to_report \<lparr>tp_packets = 2, tp_drops = 1\<rparr> example_ring = 1"
    by (simp add: losses_to_report_def at(2) blk)
      (simp add: example_ring_def ring_buffer_v3_init_def drops_def update_stats_def basic_packet_socket_init_def)
  ultimately show ?thesis
    using block_packets[of 0 example_ring ?blk "\<lparr>tp_packets = 2, tp_drops = 1\<rparr>" 1
        "[(timex_at 86400 True 0, \<lparr>tp_packets = 0, tp_drops = 0\<rparr>, Inr \<lparr>ts_sec = 1, ts_nsec = 3\<rparr>)]" True "timex_at 86400 True 0"
        "\<lparr>ts_sec = 1, ts_nsec = 2\<rparr>"]
    by (fastforce simp: whole_def packet_def)
qed

end
