(* ===== verification/Netif.thy ===== *)
theory Netif
  imports Packet_Ring
begin

text \<open>
  Network interfaces (\<^verbatim>\<open>netif/interface.cc\<close>) and the reader of their packets
  (\<^verbatim>\<open>netif/netif_event_reader.cc\<close>): the channel it defines and how it sets up its socket.
\<close>

section \<open>Interfaces\<close>

record interface =
  if_ifindex :: u32
  if_linktype :: i32
  if_hwtype :: u16
  if_hwaddr :: octets

definition ENODEV :: nat where "ENODEV = 19"
definition IFNAMSIZ :: nat where "IFNAMSIZ = 16"
definition ARPHRD_ETHER :: u16 where "ARPHRD_ETHER = 1"
definition ETH_ALEN :: nat where "ETH_ALEN = 6"
definition linktype_ethernet :: i32 where "linktype_ethernet = 1"

text \<open>
  For any interface the hardware type is not initialised: \<open>junk\<close> is what the memory held.
\<close>

definition interface_any :: "u16 \<Rightarrow> interface" where
  "interface_any junk = \<lparr>if_ifindex = 0, if_linktype = - 1, if_hwtype = junk, if_hwaddr = []\<rparr>"

definition isany :: "interface \<Rightarrow> bool" where
  "isany i \<longleftrightarrow> if_ifindex i = 0"

text \<open>
  \<open>get_index\<close> and \<open>get_hwaddr\<close> are the answers of the system to the two requests, the second with the address
  family and the octets of a socket address. The name is a C string in them.
\<close>

definition interface_named :: "(string \<Rightarrow> u32 result) \<Rightarrow> (string \<Rightarrow> (u16 \<times> octets) result) \<Rightarrow> string \<Rightarrow> interface result" where
  "interface_named get_index get_hwaddr ifname =
     (let name = takeWhile (\<lambda>c. c \<noteq> CHR 0x00) ifname in
      if length name \<ge> IFNAMSIZ then Inl (Libc_Error ENODEV)
      else
        bindE (get_index name) (\<lambda>index.
        bindE (get_hwaddr name) (\<lambda>(hwtype, addr).
        Inr (if hwtype = ARPHRD_ETHER
             then \<lparr>if_ifindex = index, if_linktype = linktype_ethernet, if_hwtype = hwtype, if_hwaddr = take ETH_ALEN addr\<rparr>
             else \<lparr>if_ifindex = index, if_linktype = - 1, if_hwtype = hwtype, if_hwaddr = []\<rparr>))))"

section \<open>The reader of an interface\<close>

definition interface_attributes :: "interface \<Rightarrow> string \<Rightarrow> (session_builder, attribute list) act" where
  "interface_attributes iface name =
     bindS (define_attribute ''if_index'' type_unsigned_integer) (\<lambda>i1.
     let as1 = attr_insert (Unsigned_Integer i1 (scast (if_ifindex iface))) [] in
     bindS (define_attribute ''if_name'' type_string) (\<lambda>i2.
     let as2 = attr_insert (String_Attr i2 name) as1 in
     bindS (define_attribute ''if_hwtype'' type_unsigned_integer) (\<lambda>i3.
     let as3 = attr_insert (Unsigned_Integer i3 (ucast (if_hwtype iface))) as2 in
     bindS (define_attribute ''if_hwaddr'' type_binary) (\<lambda>i4.
     let as4 = attr_insert (Binary i4 (if_hwaddr iface)) as3 in
     bindS (define_attribute ''if_linktype'' type_unsigned_integer) (\<lambda>i5.
     returnS (attr_insert (Unsigned_Integer i5 (scast (if_linktype iface))) as4))))))"

text \<open>
  What is done with the new socket.
\<close>

datatype socket_setup = Bind_To interface | Set_Promiscuous interface

definition setup_socket :: "interface \<Rightarrow> bool \<Rightarrow> socket_setup list result" where
  "setup_socket iface promiscuous =
     (let bound = (if isany iface then [] else [Bind_To iface]) in
      if promiscuous then
        (if isany iface then Inl (Endpoint_Error ''cannot enable promiscuous mode for all interfaces.'')
         else Inr (bound @ [Set_Promiscuous iface]))
      else Inr bound)"

text \<open>
  The socket is opened with the method, the builder and the options of the endpoint, and then set up, which may
  fail.
\<close>

definition netif_event_reader_init ::
  "(packet_record_builder \<Rightarrow> int \<Rightarrow> u64 \<Rightarrow> string \<Rightarrow> 's result) \<Rightarrow> ('s \<Rightarrow> socket_setup \<Rightarrow> 's result) \<Rightarrow> u16 \<Rightarrow> string
    \<Rightarrow> interface netif_endpoint \<Rightarrow> (session_builder, 's) act" where
  "netif_event_reader_init open_method apply_setup junk name ep =
     (let iface = (case ne_if ep of None \<Rightarrow> interface_any junk | Some i \<Rightarrow> i) in
      bindS (interface_attributes iface name) (\<lambda>attrs.
      bindS (define_channel ''packets'' attrs) (\<lambda>channel.
      bindS (packet_record_builder_init channel) (\<lambda>b.
      bindS (liftS (make_basic_packet_socket (open_method b (ne_snaplen ep) (ne_capacity ep)) (ne_method ep))) (\<lambda>s.
      bindS (liftS (setup_socket iface (ne_promiscuous ep))) (\<lambda>steps.
      liftS (foldl (\<lambda>res step. bindE res (\<lambda>s. apply_setup s step)) (Inr s) steps)))))))"

section \<open>The identifiers of a reader\<close>

lemma define_attribute_counts:
  assumes "define_attribute label ty sb = (Inr i, sb')"
  shows "i = sb_attr_count sb" "sb_attr_count sb' = i + 1" "sb_chan_count sb' = sb_chan_count sb"
  using assms by (auto simp: define_attribute_def increment_def Let_def split: if_splits)

lemma define_channel_counts:
  assumes "define_channel label as sb = (Inr i, sb')"
  shows "i = sb_chan_count sb" "sb_attr_count sb' = sb_attr_count sb"
  using assms by (auto simp: define_channel_def increment_def Let_def split: if_splits)

lemma interface_attributes_counts:
  assumes "interface_attributes iface name sb = (Inr as, sb')"
  shows "sb_attr_count sb' = sb_attr_count sb + 5" "sb_chan_count sb' = sb_chan_count sb"
proof -
  obtain i1 sb1 i2 sb2 i3 sb3 i4 sb4 i5 where
    "define_attribute ''if_index'' type_unsigned_integer sb = (Inr i1, sb1)"
    "define_attribute ''if_name'' type_string sb1 = (Inr i2, sb2)"
    "define_attribute ''if_hwtype'' type_unsigned_integer sb2 = (Inr i3, sb3)"
    "define_attribute ''if_hwaddr'' type_binary sb3 = (Inr i4, sb4)"
    "define_attribute ''if_linktype'' type_unsigned_integer sb4 = (Inr i5, sb')"
    using assms unfolding interface_attributes_def Let_def bindS_Inr returnS_Inr by blast
  note this[THEN define_attribute_counts(1)] this[THEN define_attribute_counts(2)] this[THEN define_attribute_counts(3)]
  then show "sb_attr_count sb' = sb_attr_count sb + 5" "sb_chan_count sb' = sb_chan_count sb"
    by simp_all
qed

text \<open>
  The builder of packet records starts empty, with the channel and the three identifiers after those of the
  interface.
\<close>

lemma packet_builder_ids:
  assumes "interface_attributes iface name sb = (Inr as, sb1)" and "define_channel ''packets'' as sb1 = (Inr channel, sb2)"
    and "packet_record_builder_init channel sb2 = (Inr b, sb3)"
  shows "pb_channel b = sb_chan_count sb" "pb_pkt_attr b = sb_attr_count sb + 5" "pb_origlen_attr b = sb_attr_count sb + 6"
    "pb_rpt_attr b = sb_attr_count sb + 7" "builder_ok b" "pending b = []"
proof -
  obtain i1 sb4 i2 sb5 i3 where defs: "define_attribute ''packet'' type_binary sb2 = (Inr i1, sb4)"
    "define_attribute ''packet_len'' type_unsigned_integer sb4 = (Inr i2, sb5)"
    "define_attribute ''repeat'' type_unsigned_integer sb5 = (Inr i3, sb3)"
    and b: "b = \<lparr>pb_channel = channel, pb_pkt_attr = i1, pb_origlen_attr = i2, pb_rpt_attr = i3,
      pb_buffer = [empty_record, empty_record], pb_count = 0\<rparr>"
    using assms(3) unfolding packet_record_builder_init_def bindS_Inr returnS_Inr by blast
  have "i1 = sb_attr_count sb + 5" "channel = sb_chan_count sb"
    using interface_attributes_counts[OF assms(1)] define_channel_counts[OF assms(2)] define_attribute_counts(1)[OF defs(1)]
    by simp_all
  moreover have "i2 = i1 + 1" "i3 = i2 + 1"
    using defs[THEN define_attribute_counts(1)] defs[THEN define_attribute_counts(2)] by simp_all
  ultimately show "pb_channel b = sb_chan_count sb" "pb_pkt_attr b = sb_attr_count sb + 5" "pb_origlen_attr b = sb_attr_count sb + 6"
    "pb_rpt_attr b = sb_attr_count sb + 7" "builder_ok b" "pending b = []"
    unfolding b by (simp_all add: builder_ok_def pending_def)
qed

lemma interface_named_long: "IFNAMSIZ \<le> length (takeWhile (\<lambda>c. c \<noteq> CHR 0x00) name) \<Longrightarrow>
    interface_named get_index get_hwaddr name = Inl (Libc_Error ENODEV)"
  by (simp add: interface_named_def)

text \<open>
  The kind of link of an interface that is not known, minus one, is the greatest of the unsigned values of its
  attribute.
\<close>

lemma unknown_linktype: "scast (if_linktype (interface_any junk)) = (- 1 :: u64)"
  by (simp add: interface_any_def)

end
