(* ===== verification/Capture.thy ===== *)
theory Capture
  imports Address_Filter Endpoints Secure_Hash
begin

text \<open>
  The program \<^verbatim>\<open>horace-capture\<close> (\<^verbatim>\<open>src/horace-capture.cc\<close>) with the detection of the time
  system (\<^verbatim>\<open>horace/time_system_detector.cc\<close>), the termination flag (\<^verbatim>\<open>horace/terminate_flag.cc\<close>)
  and the threads of the event sources (\<^verbatim>\<open>horace/event_source.cc\<close>). The lemmas show in which order
  sessions, sources and the flag are dealt with, over any number of sessions.
\<close>

section \<open>The time system\<close>

text \<open>
  What \<^verbatim>\<open>gmtime_r\<close> gives for the time 946684800.
\<close>

record tm =
  tm_sec :: int
  tm_min :: int
  tm_hour :: int
  tm_mday :: int
  tm_mon :: int
  tm_year :: int
  tm_isdst :: int

definition detector_time :: int where
  "detector_time = (30 * 365 + 7) * 86400"

definition detect_time_system :: "(int \<Rightarrow> tm) \<Rightarrow> string result" where
  "detect_time_system gmtime =
     (let tms = gmtime detector_time in
      if tm_sec tms = 0 \<and> tm_min tms = 0 \<and> tm_hour tms = 0 \<and> tm_mday tms = 1 \<and> tm_mon tms = 0 \<and> tm_year tms = 100
        \<and> tm_isdst tms = 0 then Inr ''posix''
      else if tm_sec tms = 38 \<and> tm_min tms = 59 \<and> tm_hour tms = 23 \<and> tm_mday tms = 31 \<and> tm_mon tms = 11 \<and> tm_year tms = 99
        \<and> tm_isdst tms = 0 then Inr ''tai-10''
      else Inl (Horace_Error ''time system not recognised''))"

text \<open>
  The result is whether leap seconds are to be detected.
\<close>

definition validate_time_system :: "string \<Rightarrow> string \<Rightarrow> bool result" where
  "validate_time_system detected time_system =
     (let mismatch = Inl (Horace_Error (''system configured to use '' @ detected @ '' time'')) in
      if time_system = ''posix'' then (if detected \<noteq> time_system then mismatch else Inr False)
      else if time_system = ''utc'' then (if detected \<noteq> ''posix'' then mismatch else Inr True)
      else if time_system = ''tai-10'' then (if detected \<noteq> time_system then mismatch else Inr False)
      else Inl (Horace_Error ''time system not recognised''))"

section \<open>The termination flag\<close>

text \<open>
  The flag and the number of octets in its pipe.
\<close>

record terminate_flag =
  tf_terminating :: bool
  tf_pipe :: nat

definition terminate_flag_init :: terminate_flag where
  "terminate_flag_init = \<lparr>tf_terminating = False, tf_pipe = 0\<rparr>"

definition set_terminating :: "bool \<Rightarrow> terminate_flag \<Rightarrow> terminate_flag" where
  "set_terminating terminating f =
     (let changed = (terminating \<noteq> tf_terminating f);
          f' = f\<lparr>tf_terminating := terminating\<rparr> in
      if changed then (if terminating then f'\<lparr>tf_pipe := tf_pipe f + 1\<rparr> else f'\<lparr>tf_pipe := 0\<rparr>) else f')"

definition poll_flag :: "terminate_flag \<Rightarrow> unit result" where
  "poll_flag f = assertE (\<not> tf_terminating f) Terminate_Exception"

text \<open>
  A sleep ends with the exception if the pipe can be read; the other outcomes of \<^verbatim>\<open>poll\<close> are the end of the
  time, an interruption, and an error.
\<close>

definition millisleep :: "nat option \<Rightarrow> nat \<Rightarrow> terminate_flag \<Rightarrow> unit result" where
  "millisleep failure eintr f =
     (case failure of
        Some e \<Rightarrow> if e \<noteq> eintr then Inl (Libc_Error e) else Inr ()
      | None \<Rightarrow> if 0 < tf_pipe f then Inl Terminate_Exception else Inr ())"

section \<open>The thread of an event source\<close>

text \<open>
  An endpoint is a reader or not; the pointer to a reader is not checked.
\<close>

definition event_source_init :: "('sb, 'r) act option \<Rightarrow> ('sb, 'r) act" where
  "event_source_init make_reader =
     (case make_reader of
        None \<Rightarrow> throwS (Undefined_Behaviour ''null pointer'')
      | Some mk \<Rightarrow> mk)"

text \<open>
  The loop over what the flag and the reader give: the exception that ended it, if it did, and the state of the
  writer.
\<close>

fun source_capture :: "(hrecord \<Rightarrow> ('w, unit) act) \<Rightarrow> (bool \<times> hrecord result) list \<Rightarrow> 'w \<Rightarrow> exn option \<times> 'w" where
  "source_capture write_rec [] w = (None, w)"
| "source_capture write_rec ((terminating, rd) # xs) w =
     (if terminating then (Some Terminate_Exception, w)
      else
        (case rd of
           Inl e \<Rightarrow> (Some e, w)
         | Inr r \<Rightarrow>
             (case write_rec r w of
                (Inl e, w') \<Rightarrow> (Some e, w')
              | (Inr _, w') \<Rightarrow> source_capture write_rec xs w')))"

section \<open>Options\<close>

datatype capture_option =
    Option_D string
  | Option_h
  | Option_k string
  | Option_R string
  | Option_S string
  | Option_T string
  | Option_v
  | Option_x string
  | Option_Unknown

record capture_options =
  co_hashfn_name :: "string option"
  co_keyfile :: "string option"
  co_sigdelay :: int
  co_srcid :: string
  co_time_system :: string
  co_addrfilt :: address_filter
  co_severity :: int

definition log_warning :: int where "log_warning = 4"
definition log_debug :: int where "log_debug = 7"

definition default_options :: "string \<Rightarrow> string \<Rightarrow> capture_options" where
  "default_options hostname detected =
     \<lparr>co_hashfn_name = None, co_keyfile = None, co_sigdelay = 0, co_srcid = hostname, co_time_system = detected,
      co_addrfilt = address_filter_init, co_severity = log_warning\<rparr>"

text \<open>
  No options are the request for help.
\<close>

fun parse_options :: "capture_option list \<Rightarrow> capture_options \<Rightarrow> capture_options option result" where
  "parse_options [] co = Inr (Some co)"
| "parse_options (Option_D name # opts) co = parse_options opts (co\<lparr>co_hashfn_name := Some name\<rparr>)"
| "parse_options (Option_h # opts) co = Inr None"
| "parse_options (Option_k name # opts) co = parse_options opts (co\<lparr>co_keyfile := Some name\<rparr>)"
| "parse_options (Option_R arg # opts) co = bindE (stol arg) (\<lambda>n. parse_options opts (co\<lparr>co_sigdelay := n\<rparr>))"
| "parse_options (Option_S arg # opts) co = parse_options opts (co\<lparr>co_srcid := arg\<rparr>)"
| "parse_options (Option_T arg # opts) co = parse_options opts (co\<lparr>co_time_system := arg\<rparr>)"
| "parse_options (Option_v # opts) co =
     parse_options opts (if co_severity co < log_debug then co\<lparr>co_severity := co_severity co + 1\<rparr> else co)"
| "parse_options (Option_x arg # opts) co =
     (case exclude_option arg (co_addrfilt co) of
        (Inl e, _) \<Rightarrow> Inl e
      | (Inr _, f) \<Rightarrow> parse_options opts (co\<lparr>co_addrfilt := f\<rparr>))"
| "parse_options (Option_Unknown # opts) co = parse_options opts co"

section \<open>Preparation\<close>

record ('k, 'e) capture_setup =
  cs_hashfn :: "hash_algorithm option"
  cs_keypair :: "'k option"
  cs_source :: string
  cs_leap_seconds :: bool
  cs_sources :: "'e list"
  cs_destination :: 'e

fun make_endpoints :: "(string \<Rightarrow> 'e result) \<Rightarrow> string list \<Rightarrow> 'e list result" where
  "make_endpoints mk [] = Inr []"
| "make_endpoints mk (name # names) = bindE (mk name) (\<lambda>ep. bindE (make_endpoints mk names) (\<lambda>eps. Inr (ep # eps)))"

definition optionE :: "('a \<Rightarrow> 'b result) \<Rightarrow> 'a option \<Rightarrow> 'b option result" where
  "optionE f x = (case x of None \<Rightarrow> Inr None | Some a \<Rightarrow> bindE (f a) (\<lambda>b. Inr (Some b)))"

text \<open>
  A missing endpoint ends the program as an exception does: a message and the status 1.
\<close>

definition prepare_capture ::
  "(string \<Rightarrow> 'k result) \<Rightarrow> (string \<Rightarrow> 'e result) \<Rightarrow> string \<Rightarrow> capture_options \<Rightarrow> string list \<Rightarrow> ('k, 'e) capture_setup result" where
  "prepare_capture load_keypair make_endpoint detected co names =
     bindE (optionE hash_make (co_hashfn_name co)) (\<lambda>hashfn.
     bindE (optionE load_keypair (co_keyfile co)) (\<lambda>kp.
     bindE (source_id (co_srcid co)) (\<lambda>vsrcid.
     bindE (validate_time_system detected (co_time_system co)) (\<lambda>leap.
     bindE (make_endpoints make_endpoint names) (\<lambda>eps.
     if length eps < 1 then Inl (Runtime_Error ''Source endpoint not specified.'')
     else if length eps < 2 then Inl (Runtime_Error ''Destination endpoint not specified.'')
     else Inr \<lparr>cs_hashfn = hashfn, cs_keypair = kp, cs_source = vsrcid, cs_leap_seconds = leap,
       cs_sources = butlast eps, cs_destination = last eps\<rparr>)))))"

section \<open>Sessions\<close>

text \<open>
  What the main thread does, the sources by their number.
\<close>

datatype capture_action =
    Make_Writer
  | Start_Monitor
  | Start_Signer
  | Make_Source nat
  | Begin_Session
  | Start_Source nat
  | Terminating bool
  | Stop_Source nat
  | Stop_Signer
  | Stop_Monitor
  | End_Session

definition SIGALRM :: int where "SIGALRM = 14"
definition SIGTERM :: int where "SIGTERM = 15"

definition if_signer :: "bool \<Rightarrow> 'a \<Rightarrow> 'a list" where
  "if_signer signer a = (if signer then [a] else [])"

definition session_start :: "nat \<Rightarrow> bool \<Rightarrow> capture_action list" where
  "session_start n signer =
     [Start_Monitor] @ if_signer signer Start_Signer @ map Make_Source [0..<n] @ [Begin_Session] @ map Start_Source [0..<n]"

definition session_stop :: "nat \<Rightarrow> bool \<Rightarrow> capture_action list" where
  "session_stop n signer =
     [Terminating True] @ map Stop_Source [0..<n] @ if_signer signer Stop_Signer @ [Stop_Monitor, End_Session]"

text \<open>
  \<open>ws\<close> are the answers of the destination to whether it is writable, \<open>ss\<close> the results of waiting for signals,
  with \<open>-1\<close> for none in time. No result is to wait for more of them.
\<close>

fun wait_loop :: "bool list \<Rightarrow> int list \<Rightarrow> (bool list \<times> int list) result option" where
  "wait_loop [] ss = None"
| "wait_loop (True # ws) ss = Some (Inr (ws, ss))"
| "wait_loop (False # ws) [] = None"
| "wait_loop (False # ws) (s # ss) = (if s \<noteq> -1 then Some (Inl Terminate_Exception) else wait_loop ws ss)"

fun wait_writable :: "bool list \<Rightarrow> int list \<Rightarrow> (bool list \<times> int list) result option" where
  "wait_writable [] ss = None"
| "wait_writable (True # ws) ss = Some (Inr (ws, ss))"
| "wait_writable (False # ws) ss = wait_loop ws ss"

fun drain_alarms :: "int \<Rightarrow> int list \<Rightarrow> int list option" where
  "drain_alarms raised ss =
     (if raised = SIGALRM then (case ss of [] \<Rightarrow> None | s # ss' \<Rightarrow> drain_alarms s ss') else Some ss)"

declare drain_alarms.simps [simp del]

lemma drain_alarms_shorter: "drain_alarms raised ss = Some ss' \<Longrightarrow> length ss' \<le> length ss"
  by (induction raised ss rule: drain_alarms.induct) (force simp: drain_alarms.simps split: if_splits list.splits)

lemma wait_loop_shorter: "wait_loop ws ss = Some (Inr (ws', ss')) \<Longrightarrow> length ss' \<le> length ss"
  by (induction ws ss rule: wait_loop.induct) (auto split: if_splits)

lemma wait_writable_shorter: "wait_writable ws ss = Some (Inr (ws', ss')) \<Longrightarrow> length ss' \<le> length ss"
  by (cases "(ws, ss)" rule: wait_writable.cases) (auto dest: wait_loop_shorter)

function capture_sessions :: "nat \<Rightarrow> bool \<Rightarrow> bool list \<Rightarrow> int list \<Rightarrow> capture_action list \<times> unit result option" where
  "capture_sessions n signer ws ss =
     (case wait_writable ws ss of
        None \<Rightarrow> ([Make_Writer], None)
      | Some (Inl e) \<Rightarrow> ([Make_Writer], Some (Inl e))
      | Some (Inr (ws', [])) \<Rightarrow> (Make_Writer # session_start n signer, None)
      | Some (Inr (ws', raised # ss')) \<Rightarrow>
          (let session = Make_Writer # session_start n signer @ session_stop n signer in
           if raised \<noteq> SIGALRM then (session, Some (Inr ()))
           else
             (case drain_alarms raised ss' of
                None \<Rightarrow> (session @ [Terminating False], None)
              | Some ss'' \<Rightarrow>
                  (let rest = capture_sessions n signer ws' ss'' in
                   (session @ Terminating False # fst rest, snd rest)))))"
  by pat_completeness auto
termination
  by (relation "measure (\<lambda>(n, signer, ws, ss). length ss)")
    (auto dest!: wait_writable_shorter drain_alarms_shorter)

declare capture_sessions.simps [simp del]

section \<open>The order of actions\<close>

text \<open>
  What is going on: the flag, whether a session, the monitor and the signer are running, and the sources that
  there are and that run. An action that is not in order has no result.
\<close>

record watch =
  wt_flag :: bool
  wt_session :: bool
  wt_monitor :: bool
  wt_signer :: bool
  wt_sources :: "nat list"
  wt_running :: "nat list"

definition idle :: watch where
  "idle = \<lparr>wt_flag = False, wt_session = False, wt_monitor = False, wt_signer = False, wt_sources = [], wt_running = []\<rparr>"

fun watch_action :: "capture_action \<Rightarrow> watch \<Rightarrow> watch option" where
  "watch_action Make_Writer w =
     (if \<not> wt_flag w \<and> \<not> wt_session w \<and> \<not> wt_monitor w \<and> \<not> wt_signer w \<and> wt_running w = []
      then Some (w\<lparr>wt_sources := []\<rparr>) else None)"
| "watch_action Start_Monitor w = (if \<not> wt_flag w \<and> \<not> wt_monitor w then Some (w\<lparr>wt_monitor := True\<rparr>) else None)"
| "watch_action Start_Signer w = (if \<not> wt_flag w \<and> \<not> wt_signer w then Some (w\<lparr>wt_signer := True\<rparr>) else None)"
| "watch_action (Make_Source k) w =
     (if wt_monitor w \<and> \<not> wt_session w \<and> k \<notin> set (wt_sources w) then Some (w\<lparr>wt_sources := wt_sources w @ [k]\<rparr>) else None)"
| "watch_action Begin_Session w = (if \<not> wt_flag w \<and> \<not> wt_session w then Some (w\<lparr>wt_session := True\<rparr>) else None)"
| "watch_action (Start_Source k) w =
     (if \<not> wt_flag w \<and> wt_session w \<and> k \<in> set (wt_sources w) \<and> k \<notin> set (wt_running w)
      then Some (w\<lparr>wt_running := wt_running w @ [k]\<rparr>) else None)"
| "watch_action (Terminating b) w = (if b \<or> wt_running w = [] then Some (w\<lparr>wt_flag := b\<rparr>) else None)"
| "watch_action (Stop_Source k) w =
     (if wt_flag w \<and> k \<in> set (wt_running w) then Some (w\<lparr>wt_running := remove1 k (wt_running w)\<rparr>) else None)"
| "watch_action Stop_Signer w = (if wt_flag w \<and> wt_signer w then Some (w\<lparr>wt_signer := False\<rparr>) else None)"
| "watch_action Stop_Monitor w = (if wt_flag w \<and> wt_monitor w then Some (w\<lparr>wt_monitor := False\<rparr>) else None)"
| "watch_action End_Session w =
     (if wt_session w \<and> wt_running w = [] \<and> \<not> wt_signer w then Some (w\<lparr>wt_session := False\<rparr>) else None)"

fun watch_actions :: "capture_action list \<Rightarrow> watch \<Rightarrow> watch option" where
  "watch_actions [] w = Some w"
| "watch_actions (a # as) w = (case watch_action a w of None \<Rightarrow> None | Some w' \<Rightarrow> watch_actions as w')"

lemma watch_append: "watch_actions (as @ bs) w = (case watch_actions as w of None \<Rightarrow> None | Some w' \<Rightarrow> watch_actions bs w')"
  by (induction as arbitrary: w) (auto split: option.split)

lemma watch_sources:
  "distinct (wt_sources w @ ks) \<Longrightarrow> wt_monitor w \<Longrightarrow> \<not> wt_session w \<Longrightarrow>
     watch_actions (map Make_Source ks) w = Some (w\<lparr>wt_sources := wt_sources w @ ks\<rparr>)"
  by (induction ks arbitrary: w) auto

lemma watch_starts:
  "distinct (wt_running w @ ks) \<Longrightarrow> wt_session w \<Longrightarrow> \<not> wt_flag w \<Longrightarrow> set ks \<subseteq> set (wt_sources w) \<Longrightarrow>
     watch_actions (map Start_Source ks) w = Some (w\<lparr>wt_running := wt_running w @ ks\<rparr>)"
  by (induction ks arbitrary: w) auto

lemma watch_stops: "wt_running w = ks \<Longrightarrow> wt_flag w \<Longrightarrow> watch_actions (map Stop_Source ks) w = Some (w\<lparr>wt_running := []\<rparr>)"
  by (induction ks arbitrary: w) auto

definition capturing :: "nat \<Rightarrow> bool \<Rightarrow> watch" where
  "capturing n signer = \<lparr>wt_flag = False, wt_session = True, wt_monitor = True, wt_signer = signer, wt_sources = [0..<n],
     wt_running = [0..<n]\<rparr>"

lemma watch_session_start: "watch_actions (session_start n signer) idle = Some (capturing n signer)"
  by (simp add: session_start_def if_signer_def watch_append watch_sources watch_starts idle_def capturing_def)

lemma watch_session_stop:
  "watch_actions (session_stop n signer) (capturing n signer) = Some (idle\<lparr>wt_flag := True, wt_sources := [0..<n]\<rparr>)"
  by (simp add: session_stop_def if_signer_def watch_append watch_stops idle_def capturing_def)

lemma watch_make_writer: "watch_actions (Make_Writer # as) (idle\<lparr>wt_sources := ks\<rparr>) = watch_actions as idle"
  by (simp add: idle_def)

lemma watch_session:
  "watch_actions (Make_Writer # session_start n signer @ session_stop n signer) (idle\<lparr>wt_sources := ks\<rparr>)
    = Some (idle\<lparr>wt_flag := True, wt_sources := [0..<n]\<rparr>)"
  unfolding watch_make_writer by (simp add: watch_append watch_session_start watch_session_stop)

lemma watch_restart: "watch_actions (Terminating False # as) (idle\<lparr>wt_flag := True, wt_sources := ks\<rparr>)
    = watch_actions as (idle\<lparr>wt_sources := ks\<rparr>)"
  by (simp add: idle_def)

definition orderly :: "capture_action list \<Rightarrow> unit result option \<Rightarrow> watch \<Rightarrow> bool" where
  "orderly as res w0 \<longleftrightarrow> (\<exists>w. watch_actions as w0 = Some w \<and>
     (res = Some (Inr ()) \<longrightarrow> \<not> wt_session w \<and> \<not> wt_monitor w \<and> \<not> wt_signer w \<and> wt_running w = []))"

lemma capture_sessions_watch:
  "orderly (fst (capture_sessions n signer ws ss)) (snd (capture_sessions n signer ws ss)) (idle\<lparr>wt_sources := ks\<rparr>)"
proof (induction n signer ws ss arbitrary: ks rule: capture_sessions.induct)
  case (1 n signer ws ss)
  have started: "watch_actions (Make_Writer # session_start n signer) (idle\<lparr>wt_sources := ks\<rparr>) = Some (capturing n signer)"
    unfolding watch_make_writer by (rule watch_session_start)
  have made: "watch_actions [Make_Writer] (idle\<lparr>wt_sources := ks\<rparr>) = Some idle"
    unfolding watch_make_writer by simp
  note session = watch_session[of n signer ks]
  consider (blocked) "wait_writable ws ss = None" | (thrown) e where "wait_writable ws ss = Some (Inl e)"
    | (waiting) ws' where "wait_writable ws ss = Some (Inr (ws', []))"
    | (raised) ws' raised ss' where "wait_writable ws ss = Some (Inr (ws', raised # ss'))"
    by (metis list.exhaust not_None_eq sum.exhaust surj_pair)
  then show ?case
  proof cases
    case blocked
    then show ?thesis
      by (subst (1 2) capture_sessions.simps) (simp add: orderly_def made[simplified])
  next
    case thrown
    then show ?thesis
      by (subst (1 2) capture_sessions.simps) (simp add: orderly_def made[simplified])
  next
    case waiting
    then show ?thesis
      by (subst (1 2) capture_sessions.simps) (simp add: orderly_def started del: watch_actions.simps)
  next
    case raised
    let ?session = "Make_Writer # session_start n signer @ session_stop n signer"
    consider (ends) "raised \<noteq> SIGALRM" | (drains) "raised = SIGALRM" "drain_alarms raised ss' = None"
      | (again) ss'' where "raised = SIGALRM" "drain_alarms raised ss' = Some ss''"
      by blast
    then show ?thesis
    proof cases
      case ends
      with raised have "capture_sessions n signer ws ss = (?session, Some (Inr ()))"
        by (subst capture_sessions.simps) simp
      with session show ?thesis
        by (simp add: orderly_def idle_def del: watch_actions.simps)
    next
      case drains
      with raised have "capture_sessions n signer ws ss = (?session @ [Terminating False], None)"
        by (subst capture_sessions.simps) simp
      then show ?thesis
        using session watch_restart[of "[]" "[0..<n]"] unfolding orderly_def
        by (simp only: fst_conv snd_conv watch_append) simp
    next
      case again
      let ?rest = "capture_sessions n signer ws' ss''"
      have eq: "capture_sessions n signer ws ss = (?session @ Terminating False # fst ?rest, snd ?rest)"
        using raised again by (subst capture_sessions.simps) (simp add: Let_def)
      have "orderly (fst ?rest) (snd ?rest) (idle\<lparr>wt_sources := [0..<n]\<rparr>)"
        using 1[OF raised refl refl refl refl _ again(2)] again(1) by simp
      then show ?thesis
        using session watch_restart[of "fst ?rest" "[0..<n]"] unfolding orderly_def eq
        by (simp only: fst_conv snd_conv watch_append) simp
    qed
  qed
qed

text \<open>
  C9: Over any number of suspensions and whatever the destination and the signals are, the program keeps the
  order of things: sources are made while the leap second monitor runs and started in a session with the flag
  clear, each of them once; they are stopped with the flag set, all of them, and the signer with them,
  before the session ends; the flag is clear again before the next writer is made. When the program ends without
  an exception nothing is left running.
\<close>

lemma capture_sessions_orderly:
  "\<exists>w. watch_actions (fst (capture_sessions n signer ws ss)) idle = Some w
     \<and> (snd (capture_sessions n signer ws ss) = Some (Inr ()) \<longrightarrow> \<not> wt_session w \<and> \<not> wt_monitor w \<and> \<not> wt_signer w \<and> wt_running w = [])"
  using capture_sessions_watch[of n signer ws ss "[]"] by (simp add: orderly_def idle_def)

lemma capture_sessions_orderly_witness:
  "snd (capture_sessions 2 True [True, False, True] [SIGALRM, -1, SIGTERM]) = Some (Inr ())
   \<and> (\<exists>w. watch_actions (fst (capture_sessions 2 True [True, False, True] [SIGALRM, -1, SIGTERM])) idle = Some w
     \<and> wt_running w = [])"
proof -
  have "snd (capture_sessions 2 True [True, False, True] [SIGALRM, -1, SIGTERM]) = Some (Inr ())"
    by (simp add: capture_sessions.simps drain_alarms.simps SIGALRM_def SIGTERM_def Let_def)
  with capture_sessions_orderly[of 2 True "[True, False, True]" "[SIGALRM, -1, SIGTERM]"] show ?thesis
    by blast
qed

text \<open>
  The signal that ends the emptying of the queue after a suspension is lost, whichever it is: capture goes on.
\<close>

lemma signal_after_suspension_lost:
  "s \<noteq> SIGALRM \<Longrightarrow> capture_sessions n signer (True # ws) (SIGALRM # s # ss)
    = (Make_Writer # session_start n signer @ session_stop n signer @ Terminating False # fst (capture_sessions n signer ws ss),
       snd (capture_sessions n signer ws ss))"
  by (subst capture_sessions.simps) (simp add: drain_alarms.simps Let_def)

section \<open>The flag and its pipe\<close>

text \<open>
  The pipe can be read when the flag is set, and has one octet in it.
\<close>

lemma pipe_follows_flag:
  "tf_pipe (fold set_terminating bs terminate_flag_init) = (if tf_terminating (fold set_terminating bs terminate_flag_init) then 1 else 0)"
proof -
  have "tf_pipe f = (if tf_terminating f then 1 else 0) \<Longrightarrow>
      tf_pipe (fold set_terminating bs f) = (if tf_terminating (fold set_terminating bs f) then 1 else 0)" for f
    by (induction bs arbitrary: f) (auto simp: set_terminating_def Let_def)
  then show ?thesis
    by (simp add: terminate_flag_init_def)
qed

lemma millisleep_throws: "millisleep None eintr (fold set_terminating bs terminate_flag_init) = Inl Terminate_Exception
    \<longleftrightarrow> tf_terminating (fold set_terminating bs terminate_flag_init)"
  by (simp add: millisleep_def pipe_follows_flag)

end
