(* ===== verification/Mongodb.thy ===== *)
theory Mongodb
  imports Session_Writer "HOL-Library.List_Lexorder" "HOL-Library.Char_ord"
begin

text \<open>
  Sessions in a MongoDB database: \<^verbatim>\<open>mongodb_session_writer\<close> (\<^verbatim>\<open>endpoints/mongodb/\<close>), the translation of
  records into documents and the handlers over the operations of the client library, which are a
  parameter. The contract of these operations is a locale; under it the events that the writer
  has accepted are in the database, and none is replaced by an event that contradicts it.
\<close>

section \<open>Documents\<close>

text \<open>
  A document is its fields in the order in which they were appended. Field names and strings are
  passed to the library as C strings, which a null character ends. The writer ignores whether
  appending succeeded; documents are taken to stay below the limit of the library.
\<close>

datatype bson =
    Bson_Int64 i64
  | Bson_Int32 i32
  | Bson_Utf8 string
  | Bson_Binary octets
  | Bson_Bool bool
  | Bson_Document "(string \<times> bson) list"
  | Bson_Array "(string \<times> bson) list"

type_synonym bson_doc = "(string \<times> bson) list"

definition c_string :: "string \<Rightarrow> string" where
  "c_string s = takeWhile (\<lambda>c. c \<noteq> CHR 0x00) s"

definition bson_timestamp :: "i64 \<Rightarrow> i64 \<Rightarrow> bson" where
  "bson_timestamp s n = Bson_Document [(''sec'', Bson_Int64 s), (''nsec'', Bson_Int32 (ucast n))]"

text \<open>
  \<^verbatim>\<open>std::map\<close> of lists: the labels in ascending order, each with its attributes in order of insertion.
\<close>

fun mapE :: "('a \<Rightarrow> 'b result) \<Rightarrow> 'a list \<Rightarrow> 'b list result" where
  "mapE f [] = Inr []"
| "mapE f (x # xs) = bindE (f x) (\<lambda>y. bindE (mapE f xs) (\<lambda>ys. Inr (y # ys)))"

lemma mapE_cong [fundef_cong]:
  "xs = ys \<Longrightarrow> (\<And>x. x \<in> set ys \<Longrightarrow> f x = g x) \<Longrightarrow> mapE f xs = mapE g ys"
  by (induction xs arbitrary: ys) auto

definition group_by_label :: "string list \<Rightarrow> 'a list \<Rightarrow> (string \<times> 'a list) list" where
  "group_by_label labels xs =
     map (\<lambda>l. (l, map snd (filter (\<lambda>p. fst p = l) (zip labels xs)))) (sort (remdups labels))"

lemma group_by_label_set: "g \<in> set (group_by_label ls xs) \<Longrightarrow> set (snd g) \<subseteq> set xs"
  by (auto simp: group_by_label_def) (erule set_zip_rightD)

definition bson_group :: "bson list \<Rightarrow> bson" where
  "bson_group vs = (if length vs = 1 then hd vs else Bson_Array (zip (map dec_nat [0..<length vs]) vs))"

function bson_value :: "session_context \<Rightarrow> attribute \<Rightarrow> bson result" where
  "bson_value ctx (Unsigned_Integer _ v) = Inr (Bson_Int64 v)"
| "bson_value ctx (Signed_Integer _ v) = Inr (Bson_Int64 v)"
| "bson_value ctx (String_Attr _ s) = Inr (Bson_Utf8 (c_string s))"
| "bson_value ctx (Binary _ bs) = Inr (Bson_Binary bs)"
| "bson_value ctx (Timestamp _ s n) = Inr (bson_timestamp s n)"
| "bson_value ctx (Boolean _ b) = Inr (Bson_Bool b)"
| "bson_value ctx (Compound _ as) =
     bindE (mapE (\<lambda>a. get_attr_label ctx (attrid a)) as) (\<lambda>labels.
     bindE (mapE (\<lambda>g. bindE (mapE (bson_value ctx) (snd g)) (\<lambda>vs. Inr (c_string (fst g), bson_group vs)))
         (group_by_label labels as)) (\<lambda>fields.
       Inr (Bson_Document fields)))"
| "bson_value ctx (Unrecognised _ _) = Inl (Horace_Error ''cannot convert attribute to BSON'')"
  by pat_completeness auto
termination
proof (relation "measure (size \<circ> snd)", goal_cases)
  case (2 ctx i as ls g a)
  then have "a \<in> set as"
    using group_by_label_set by blast
  then show ?case
    by (simp add: size_list_estimation' le_imp_less_Suc)
qed simp

definition append_bson :: "session_context \<Rightarrow> attribute \<Rightarrow> bson_doc \<Rightarrow> bson_doc result" where
  "append_bson ctx a doc =
     bindE (get_attr_label ctx (attrid a)) (\<lambda>label.
     bindE (bson_value ctx a) (\<lambda>v. Inr (doc @ [(c_string label, v)])))"

fun append_all :: "session_context \<Rightarrow> attribute list \<Rightarrow> bson_doc \<Rightarrow> bson_doc result" where
  "append_all ctx [] doc = Inr doc"
| "append_all ctx (a # as) doc = bindE (append_bson ctx a doc) (append_all ctx as)"

definition session_id :: "string \<Rightarrow> i64 \<times> i64 \<Rightarrow> bson_doc" where
  "session_id source ts =
     [(''source'', Bson_Utf8 (c_string source)), (''ts'', bson_timestamp (fst ts) (snd ts))]"

definition event_id :: "string \<Rightarrow> i64 \<times> i64 \<Rightarrow> u64 \<Rightarrow> bson_doc" where
  "event_id source ts n = session_id source ts @ [(''seqnum'', Bson_Int64 n)]"

section \<open>The client library\<close>

text \<open>
  The operations that the writer calls, on a database \<open>'db\<close> and a named collection. A bulk operation
  is the replacements added to it, each with the document as filter and as replacement; the
  library permits that it is executed only once.
\<close>

record 'db mongo_ops =
  mongo_find :: "string \<Rightarrow> bson_doc \<Rightarrow> 'db \<Rightarrow> bool"
  mongo_insert_one :: "string \<Rightarrow> bson_doc \<Rightarrow> ('db, unit) act"
  mongo_update_one :: "string \<Rightarrow> bson_doc \<Rightarrow> bson_doc \<Rightarrow> ('db, unit) act"
  mongo_replace_one :: "bson_doc \<Rightarrow> unit result"
  mongo_execute :: "string \<Rightarrow> bson_doc list \<Rightarrow> ('db, unit) act"

record mongo_bulk =
  bulk_collection :: string
  bulk_docs :: "bson_doc list"
  bulk_executed :: bool

section \<open>The session writer\<close>

text \<open>
  Opening the database: \<open>uri\<close> is what the library makes of the identifier, the name of a database if it has one.
\<close>

definition mongodb_database :: "string option result \<Rightarrow> string result" where
  "mongodb_database uri =
     bindE uri (\<lambda>dbname.
       let name = (case dbname of None \<Rightarrow> [] | Some n \<Rightarrow> c_string n) in
       if name = [] then Inl (Endpoint_Error ''MongoDB database name not specified'') else Inr name)"

text \<open>
  \<open>mw_ts\<close> is not initialised: \<open>junk\<close> is what it contains. \<open>mw_channel\<close> is only ever set to zero.
\<close>

record 'db mongo_writer =
  mw_db :: 'db
  mw_ts :: "i64 \<times> i64"
  mw_session :: session_context
  mw_bulk :: "mongo_bulk option"
  mw_count :: u32
  mw_channel :: i32

definition mongo_writer_init :: "'db \<Rightarrow> i64 \<times> i64 \<Rightarrow> 'db mongo_writer" where
  "mongo_writer_init db junk = \<lparr>mw_db = db, mw_ts = junk, mw_session = new_session, mw_bulk = None,
     mw_count = 0, mw_channel = 0\<rparr>"

definition on_db :: "('db, 'a) act \<Rightarrow> ('db mongo_writer, 'a) act" where
  "on_db m w = (case m (mw_db w) of (x, db) \<Rightarrow> (x, w\<lparr>mw_db := db\<rparr>))"

definition on_session :: "(session_context, 'a) act \<Rightarrow> ('db mongo_writer, 'a) act" where
  "on_session m w = (case m (mw_session w) of (x, ctx) \<Rightarrow> (x, w\<lparr>mw_session := ctx\<rparr>))"

definition mongo_sync :: "'db mongo_ops \<Rightarrow> ('db mongo_writer, unit) act" where
  "mongo_sync ops w =
     (case mw_bulk w of
        None \<Rightarrow> (Inr (), w)
      | Some b \<Rightarrow>
          if bulk_executed b then (Inl (Undefined_Behaviour ''bulk operation executed again''), w)
          else case on_db (mongo_execute ops (bulk_collection b) (bulk_docs b)) w of
            (Inl e, w') \<Rightarrow> (Inl e, w'\<lparr>mw_bulk := Some (b\<lparr>bulk_executed := True\<rparr>)\<rparr>)
          | (Inr _, w') \<Rightarrow> (Inr (), w'\<lparr>mw_bulk := None, mw_count := 0, mw_channel := 0\<rparr>))"

text \<open>
  The test for another channel calls \<^verbatim>\<open>sync\<close>, not \<^verbatim>\<open>_sync\<close>: that is the function of the system that
  writes file systems to disk, and the bulk operation stays as it is.
\<close>

definition write_bulk :: "'db mongo_ops \<Rightarrow> string \<Rightarrow> bson_doc \<Rightarrow> ('db mongo_writer, unit) act" where
  "write_bulk ops label doc =
     seqS (modifyS (\<lambda>w. if mw_bulk w = None
         then w\<lparr>mw_bulk := Some \<lparr>bulk_collection = c_string label, bulk_docs = [], bulk_executed = False\<rparr>\<rparr> else w))
    (seqS (liftS (mongo_replace_one ops doc))
    (seqS (modifyS (\<lambda>w. w\<lparr>mw_bulk := map_option (\<lambda>b. b\<lparr>bulk_docs := bulk_docs b @ [doc]\<rparr>) (mw_bulk w),
         mw_count := mw_count w + 1\<rparr>))
    (bindS (getS mw_count) (\<lambda>n. if 1 \<le> n then mongo_sync ops else returnS ()))))"

definition define_with :: "(session_context \<Rightarrow> session_context result) \<Rightarrow> (session_context, unit) act" where
  "define_with f ctx = (case f ctx of Inl e \<Rightarrow> (Inl e, ctx) | Inr ctx' \<Rightarrow> (Inr (), ctx'))"

definition channel_field :: "attribute list \<Rightarrow> session_context \<Rightarrow> (string \<times> bson) result" where
  "channel_field content ctx =
     bindE (bindE (find_one attrid_chan_id content) as_signed_integer) (\<lambda>chanid.
     bindE (bindE (find_one attrid_chan_label content) as_string) (\<lambda>_.
     bindE (append_all ctx content []) (\<lambda>fields.
       Inr (''channel'' @ dec_int (sint chanid), Bson_Document fields))))"

fun session_fields :: "attribute list \<Rightarrow> bson_doc \<Rightarrow> bson_doc \<Rightarrow> (session_context, bson_doc \<times> bson_doc) act" where
  "session_fields [] session channels = returnS (session, channels)"
| "session_fields (a # as) session channels =
     (if attrid a = attrid_attr_def then
        bindS (liftS (as_compound a)) (\<lambda>content.
        seqS (define_with (handle_attr_def content)) (session_fields as session channels))
      else if attrid a \<noteq> attrid_chan_def then
        bindS (\<lambda>ctx. (append_bson ctx a session, ctx)) (\<lambda>session'. session_fields as session' channels)
      else
        bindS (liftS (as_compound a)) (\<lambda>content.
        seqS (define_with (handle_channel_def content))
          (bindS (\<lambda>ctx. (channel_field content ctx, ctx)) (\<lambda>field.
             session_fields as session (channels @ [field])))))"

definition record_ts :: "hrecord \<Rightarrow> (i64 \<times> i64) result" where
  "record_ts r = bindE (record_find_one attrid_ts r) as_timestamp"

text \<open>
  The documents of session and event, and of the end of a session with the filter that selects the session.
\<close>

definition session_document :: "string \<Rightarrow> i64 \<times> i64 \<Rightarrow> hrecord \<Rightarrow> (session_context, bson_doc) act" where
  "session_document source ts r =
     bindS (session_fields (rec_attributes r) [(''_id'', Bson_Document (session_id source ts))] [])
       (\<lambda>(session, channels). returnS (session @ [(''channels'', Bson_Document channels)]))"

definition mongo_start :: "'db mongo_ops \<Rightarrow> string \<Rightarrow> hrecord \<Rightarrow> ('db mongo_writer, unit) act" where
  "mongo_start ops source r =
     bindS (liftS (record_ts r)) (\<lambda>ts.
     seqS (modifyS (\<lambda>w. w\<lparr>mw_ts := ts, mw_session := new_session\<rparr>))
       (bindS (on_session (session_document source ts r)) (\<lambda>doc.
        bindS (getS (mongo_find ops ''sessions'' doc \<circ> mw_db)) (\<lambda>found.
          if found then returnS () else on_db (mongo_insert_one ops ''sessions'' doc)))))"

definition mongo_end :: "'db mongo_ops \<Rightarrow> string \<Rightarrow> hrecord \<Rightarrow> ('db mongo_writer, unit) act" where
  "mongo_end ops source r =
     bindS (liftS (record_ts r)) (\<lambda>_.
     bindS (getS mw_ts) (\<lambda>ts.
     bindS (\<lambda>w. (append_all (mw_session w) (rec_attributes r) [], w)) (\<lambda>fields.
       on_db (mongo_update_one ops ''sessions'' [(''_id'', Bson_Document (session_id source ts))]
         [(''$set'', Bson_Document [(''_end'', Bson_Document fields)])]))))"

definition event_document :: "string \<Rightarrow> i64 \<times> i64 \<Rightarrow> session_context \<Rightarrow> hrecord \<Rightarrow> bson_doc result" where
  "event_document source ts ctx r =
     bindE (event_seqnum r) (\<lambda>n.
       append_all ctx (rec_attributes r) [(''_id'', Bson_Document (event_id source ts n))])"

definition mongo_event :: "'db mongo_ops \<Rightarrow> string \<Rightarrow> hrecord \<Rightarrow> ('db mongo_writer, unit) act" where
  "mongo_event ops source r =
     bindS (\<lambda>w. (event_document source (mw_ts w) (mw_session w) r, w)) (\<lambda>doc.
     bindS (\<lambda>w. (get_channel_label (mw_session w) (rec_channel r), w)) (\<lambda>label.
       write_bulk ops label doc))"

text \<open>
  The handlers for signatures and other control records are those of the base class, which do nothing.
\<close>

definition with_source :: "(string \<Rightarrow> hrecord \<Rightarrow> ('d, unit) act) \<Rightarrow> hrecord \<Rightarrow> ('d, unit) sw_act" where
  "with_source m r = bindS (getS srcid) (\<lambda>source. on_sub (m source r))"

definition mongo_handlers :: "'db mongo_ops \<Rightarrow> 'db mongo_writer handlers" where
  "mongo_handlers ops =
     \<lparr>handle_session_start = with_source (mongo_start ops),
      handle_session_end = with_source (mongo_end ops),
      handle_sync = (\<lambda>r. on_sub (mongo_sync ops)),
      handle_signature = no_action,
      handle_control = no_action,
      handle_event = with_source (mongo_event ops)\<rparr>"

section \<open>The contract of the library\<close>

text \<open>
  \<open>contents\<close> gives the document with each identifier in each collection, \<open>matches\<close> is the comparison of
  a filter with a document. A filter with an identifier selects only the document that has it, and no
  two documents have the same, so that a replacement which inserts where nothing matches fails when
  another document has the identifier. An operation that fails has had its effect or none.
\<close>

type_synonym mongo_store = "string \<Rightarrow> bson \<rightharpoonup> bson_doc"

definition store :: "string \<Rightarrow> bson \<Rightarrow> bson_doc \<Rightarrow> mongo_store \<Rightarrow> mongo_store" where
  "store c v d m = m(c := (m c)(v \<mapsto> d))"

lemma store_other: "c' \<noteq> c \<or> v' \<noteq> v \<Longrightarrow> store c v d m c' v' = m c' v'"
  by (auto simp: store_def)

definition free_for :: "(bson_doc \<Rightarrow> bson_doc \<Rightarrow> bool) \<Rightarrow> mongo_store \<Rightarrow> string \<Rightarrow> bson \<Rightarrow> bson_doc \<Rightarrow> bool" where
  "free_for matches m c v d \<longleftrightarrow> (case m c v of None \<Rightarrow> True | Some old \<Rightarrow> matches d old)"

locale document_store =
  fixes ops :: "'db mongo_ops" and contents :: "'db \<Rightarrow> mongo_store" and matches :: "bson_doc \<Rightarrow> bson_doc \<Rightarrow> bool"
  assumes find_ok: "mongo_find ops c f db \<Longrightarrow> map_of f ''_id'' = Some v \<Longrightarrow>
      \<exists>d. contents db c v = Some d \<and> matches f d"
    and insert_ok: "mongo_insert_one ops c d db = (Inr (), db') \<Longrightarrow> map_of d ''_id'' = Some v \<Longrightarrow>
      contents db c v = None \<and> contents db' = store c v d (contents db)"
    and replace_ok: "mongo_execute ops c [d] db = (Inr (), db') \<Longrightarrow> map_of d ''_id'' = Some v \<Longrightarrow>
      free_for matches (contents db) c v d \<and> contents db' = store c v d (contents db)"
    and replace_failed: "mongo_execute ops c [d] db = (Inl e, db') \<Longrightarrow> map_of d ''_id'' = Some v \<Longrightarrow>
      contents db' = contents db \<or> free_for matches (contents db) c v d \<and> contents db' = store c v d (contents db)"
    and update_ok: "mongo_update_one ops c [(''_id'', v)] u db = (Inr (), db') \<Longrightarrow> c' \<noteq> c \<or> v' \<noteq> v \<Longrightarrow>
      contents db' c' v' = contents db c' v'"

section \<open>The events accepted, as documents\<close>

definition session_data :: "string \<Rightarrow> hrecord \<Rightarrow> ((i64 \<times> i64) \<times> session_context) result" where
  "session_data source r =
     bindE (record_ts r) (\<lambda>ts. case session_document source ts r new_session of
        (Inl e, _) \<Rightarrow> Inl e
      | (Inr _, ctx) \<Rightarrow> Inr (ts, ctx))"

definition event_entry :: "string \<Rightarrow> hrecord \<Rightarrow> hrecord \<Rightarrow> (string \<times> bson \<times> bson_doc) result" where
  "event_entry source r e =
     bindE (session_data source r) (\<lambda>(ts, ctx).
     bindE (event_document source ts ctx e) (\<lambda>doc.
     bindE (get_channel_label ctx (rec_channel e)) (\<lambda>label.
     bindE (event_seqnum e) (\<lambda>n.
       Inr (c_string label, Bson_Document (event_id source ts n), doc)))))"

fun event_entries :: "string \<Rightarrow> progress \<Rightarrow> hrecord list \<Rightarrow> (string \<times> bson \<times> bson_doc) result list" where
  "event_entries source p [] = []"
| "event_entries source p (r # rs) =
     (if is_event r then
        [case in_force p of None \<Rightarrow> Inl (Horace_Error ''no session in progress'') | Some s \<Rightarrow> event_entry source s r]
      else []) @ event_entries source (progress_step p r) rs"

text \<open>
  The specification: each document goes to its collection and identifier, where nothing is or
  something that it matches.
\<close>

fun store_all :: "(bson_doc \<Rightarrow> bson_doc \<Rightarrow> bool) \<Rightarrow> (string \<times> bson \<times> bson_doc) result list \<Rightarrow> mongo_store \<Rightarrow> mongo_store option"
where
  "store_all matches [] m = Some m"
| "store_all matches (Inl e # es) m = None"
| "store_all matches (Inr (c, v, d) # es) m =
     (if free_for matches m c v d then store_all matches es (store c v d m) else None)"

lemma store_all_append:
  "store_all matches (es @ fs) m = Option.bind (store_all matches es m) (store_all matches fs)"
  by (induction matches es m rule: store_all.induct) auto

lemma event_entries_append:
  "event_entries source p (rs @ rs') = event_entries source p rs @ event_entries source (foldl progress_step p rs) rs'"
  by (induction rs arbitrary: p) auto

text \<open>
  What is found afterwards is the last document that was written there.
\<close>

definition entry_map :: "(string \<times> bson \<times> bson_doc) result list \<Rightarrow> mongo_store" where
  "entry_map es = (\<lambda>c v. map_of (rev (concat (map (\<lambda>x. case x of Inl _ \<Rightarrow> [] | Inr (c, v, d) \<Rightarrow> [((c, v), d)]) es))) (c, v))"

lemma store_all_result: "store_all matches es m = Some m' \<Longrightarrow> m' c = m c ++ entry_map es c"
proof (induction matches es m rule: store_all.induct)
  case (3 matches c' v d es m)
  then have "m' c = store c' v d m c ++ entry_map es c"
    by (auto split: if_splits)
  then show ?case
    by (auto simp: fun_eq_iff store_def entry_map_def map_add_def split: option.splits)
qed (auto simp: entry_map_def map_add_def)

lemma entry_map_append: "entry_map (es @ fs) c = entry_map es c ++ entry_map fs c"
  by (auto simp: entry_map_def fun_eq_iff map_add_def split: option.splits)

lemma map_add_at: "f v = g v \<Longrightarrow> (f ++ h) v = (g ++ h) v"
  by (simp add: map_add_def split: option.split)

lemma map_add_twice: "m ++ (m ++ m') = m ++ m'" "m ++ m = m"
  by (auto simp: fun_eq_iff map_add_def split: option.splits)

section \<open>What the handlers leave\<close>

lemma append_all_prefix: "append_all ctx as doc = Inr doc' \<Longrightarrow> \<exists>t. doc' = doc @ t"
  by (induction as arbitrary: doc) (auto simp: append_bson_def, force)

lemma session_fields_prefix:
  "session_fields as doc chans ctx = (Inr (doc', chans'), ctx') \<Longrightarrow> \<exists>t. doc' = doc @ t"
proof (induction as arbitrary: doc chans ctx)
  case (Cons a as)
  obtain doc1 chans1 ctx1 where "session_fields as doc1 chans1 ctx1 = (Inr (doc', chans'), ctx')"
    and "\<exists>t. doc1 = doc @ t"
  proof (cases "attrid a = attrid_attr_def \<or> attrid a = attrid_chan_def")
    case True
    with Cons.prems that[of doc] show ?thesis
      by (auto simp: act_Inr wire_constants split: if_splits)
  next
    case False
    with Cons.prems that show ?thesis
      by (auto simp: act_Inr append_bson_def)
  qed
  with Cons.IH show ?case
    by fastforce
qed (simp add: returnS_def)

lemma session_document_id:
  assumes "session_document source ts r ctx = (Inr doc, ctx')"
  shows "map_of doc ''_id'' = Some (Bson_Document (session_id source ts))"
proof -
  from assms obtain s c where "session_fields (rec_attributes r) [(''_id'', Bson_Document (session_id source ts))] [] ctx
      = (Inr (s, c), ctx')" and doc: "doc = s @ [(''channels'', Bson_Document c)]"
    by (auto simp: session_document_def act_Inr)
  from session_fields_prefix[OF this(1)] doc show ?thesis
    by auto
qed

lemma event_document_id:
  "event_document source ts ctx r = Inr doc \<Longrightarrow> event_seqnum r = Inr n \<Longrightarrow>
     map_of doc ''_id'' = Some (Bson_Document (event_id source ts n))"
  by (auto simp: event_document_def dest!: append_all_prefix)

lemma event_id_not_session [simp]: "event_id source ts n \<noteq> session_id source' ts'"
  by (simp add: event_id_def session_id_def)

lemma event_id_inject [simp]:
  "event_id source ts n = event_id source' ts' n' \<longleftrightarrow>
     n = n' \<and> session_id source ts = session_id source' ts'"
  by (auto simp: event_id_def)

definition idle :: "'db mongo_writer \<Rightarrow> bool" where
  "idle w \<longleftrightarrow> mw_bulk w = None \<and> mw_count w = 0"

lemma mongo_sync_idle: "idle w \<Longrightarrow> mongo_sync ops w = (Inr (), w)"
  by (simp add: idle_def mongo_sync_def)

lemma write_bulk_Inr:
  assumes "write_bulk ops label doc w = (Inr (), w')" and "idle w"
  shows "\<exists>db'. mongo_execute ops (c_string label) [doc] (mw_db w) = (Inr (), db') \<and> idle w' \<and> mw_db w' = db'
    \<and> mw_ts w' = mw_ts w \<and> mw_session w' = mw_session w"
  using assms by (auto simp: write_bulk_def act_Inr idle_def mongo_sync_def on_db_def split: prod.splits sum.splits if_splits)

text \<open>
  A failed execution leaves the bulk operation behind, and the next event, of whatever channel, is
  added to it and has it executed once more.
\<close>

lemma write_bulk_failed:
  assumes "mongo_execute ops (c_string label) [doc] (mw_db w) = (Inl e, db')" and "idle w"
    and "mongo_replace_one ops doc = Inr ()" and "mongo_replace_one ops doc2 = Inr ()"
  shows "\<exists>w'. write_bulk ops label doc w = (Inl e, w') \<and>
    fst (write_bulk ops label2 doc2 w') = Inl (Undefined_Behaviour ''bulk operation executed again'')"
  using assms by (simp add: write_bulk_def act_simps idle_def mongo_sync_def on_db_def)

text \<open>
  A document that the library refuses leaves the bulk operation behind too, so that the next event
  goes to the collection of the channel of the refused one.
\<close>

lemma write_bulk_misplaced:
  assumes "mongo_replace_one ops doc = Inl e" and "idle w" and "mongo_replace_one ops doc2 = Inr ()"
    and "mongo_execute ops (c_string label) [doc2] (mw_db w) = (Inr (), db')"
  shows "\<exists>w' w''. write_bulk ops label doc w = (Inl e, w') \<and>
    write_bulk ops label2 doc2 w' = (Inr (), w'') \<and> mw_db w'' = db'"
  using assms by (auto simp: write_bulk_def act_simps idle_def mongo_sync_def on_db_def)

section \<open>The writer over a document store\<close>

lemma with_source_base: "with_source m r s = (Inr (), s') \<Longrightarrow> same_base s s' \<and> m (srcid s) r (sub s) = (Inr (), sub s')"
  by (auto simp: with_source_def act_Inr dest!: on_sub_base)

interpretation mongo: passive_handlers "mongo_handlers ops" for ops
  by unfold_locales (auto simp: mongo_handlers_def no_action_def returnS_def dest: with_source_base on_sub_base)

text \<open>
  The state of the writer after records that were all accepted: nothing is outstanding, the session
  is that of the session record in force, and the events in the database are those of the specification.
\<close>

definition same_events :: "mongo_store \<Rightarrow> mongo_store \<Rightarrow> bool" where
  "same_events m m' \<longleftrightarrow> (\<forall>c source ts n. m c (Bson_Document (event_id source ts n)) = m' c (Bson_Document (event_id source ts n)))"

lemma same_eventsD: "same_events m m' \<Longrightarrow> m c (Bson_Document (event_id source ts n)) = m' c (Bson_Document (event_id source ts n))"
  unfolding same_events_def by blast

lemma same_events_store: "same_events m m' \<Longrightarrow> same_events (store c v d m) (store c v d m')"
  unfolding same_events_def store_def by simp

lemma same_events_session: "same_events (store c (Bson_Document (session_id source ts)) d m) m' \<longleftrightarrow> same_events m m'"
  unfolding same_events_def store_def by (simp add: fun_upd_def) blast

lemma same_events_other:
  assumes "same_events m m'" and "\<And>c' v'. c' \<noteq> c \<or> v' \<noteq> Bson_Document (session_id source ts) \<Longrightarrow> m1 c' v' = m c' v'"
  shows "same_events m1 m'"
  using assms unfolding same_events_def by simp

lemma on_db_Inr: "on_db m w = (Inr x, w') \<longleftrightarrow> (\<exists>db. m (mw_db w) = (Inr x, db) \<and> w' = w\<lparr>mw_db := db\<rparr>)"
  by (auto simp: on_db_def split: prod.splits)

lemma on_session_Inr:
  "on_session m w = (Inr x, w') \<longleftrightarrow> (\<exists>ctx. m (mw_session w) = (Inr x, ctx) \<and> w' = w\<lparr>mw_session := ctx\<rparr>)"
  by (auto simp: on_session_def split: prod.splits)

definition writer_agrees :: "('db \<Rightarrow> mongo_store) \<Rightarrow> mongo_store \<Rightarrow> 'db mongo_writer session_writer \<Rightarrow> bool" where
  "writer_agrees contents m s \<longleftrightarrow> idle (sub s)
     \<and> (\<forall>r. srec s = Some r \<longrightarrow> session_data (srcid s) r = Inr (mw_ts (sub s), mw_session (sub s)))
     \<and> same_events (contents (mw_db (sub s))) m"

context document_store
begin

lemma start_agrees:
  assumes "mongo_start ops source r w = (Inr (), w')" and "same_events (contents (mw_db w)) m" and "idle w"
  shows "session_data source r = Inr (mw_ts w', mw_session w') \<and> idle w' \<and> same_events (contents (mw_db w')) m"
proof -
  from assms(1) obtain ts where ts: "record_ts r = Inr ts"
    by (auto simp: mongo_start_def act_Inr)
  with assms(1) obtain doc ctx where doc: "session_document source ts r new_session = (Inr doc, ctx)"
    and last: "(if mongo_find ops ''sessions'' doc (mw_db w) then returnS () else on_db (mongo_insert_one ops ''sessions'' doc))
      (w\<lparr>mw_ts := ts, mw_session := ctx\<rparr>) = (Inr (), w')"
    unfolding mongo_start_def by (auto simp: act_Inr on_session_Inr simp del: split_paired_Ex split_paired_All)
  from last have w': "w' = w\<lparr>mw_ts := ts, mw_session := ctx\<rparr> \<or>
      (\<exists>db. mongo_insert_one ops ''sessions'' doc (mw_db w) = (Inr (), db)
        \<and> w' = w\<lparr>mw_ts := ts, mw_session := ctx, mw_db := db\<rparr>)"
    by (simp add: returnS_def on_db_Inr split: if_splits)
  from ts doc w' have "session_data source r = Inr (mw_ts w', mw_session w')"
    by (auto simp: session_data_def)
  moreover from w' have "idle w' \<and> same_events (contents (mw_db w')) m"
    using insert_ok[OF _ session_document_id[OF doc]] assms(2,3) by (auto simp: idle_def same_events_session)
  ultimately show ?thesis
    by blast
qed

lemma end_agrees:
  assumes "mongo_end ops source r w = (Inr (), w')" and "same_events (contents (mw_db w)) m" and "idle w"
  shows "mw_ts w' = mw_ts w \<and> mw_session w' = mw_session w \<and> idle w' \<and> same_events (contents (mw_db w')) m"
proof -
  from assms(1) obtain u db where "mongo_update_one ops ''sessions''
      [(''_id'', Bson_Document (session_id source (mw_ts w)))] u (mw_db w) = (Inr (), db)" and w': "w' = w\<lparr>mw_db := db\<rparr>"
    by (auto simp: mongo_end_def act_Inr on_db_Inr)
  from same_events_other[OF assms(2) update_ok[OF this(1)]] assms(3) w' show ?thesis
    by (simp add: idle_def)
qed

lemma event_agrees:
  assumes "mongo_event ops source r w = (Inr (), w')" and "same_events (contents (mw_db w)) m" and "idle w"
    and "session_data source s = Inr (mw_ts w, mw_session w)"
  shows "\<exists>m'. store_all matches [event_entry source s r] m = Some m'
    \<and> mw_ts w' = mw_ts w \<and> mw_session w' = mw_session w \<and> idle w' \<and> same_events (contents (mw_db w')) m'"
proof -
  from assms(1) obtain doc label where doc: "event_document source (mw_ts w) (mw_session w) r = Inr doc"
    and label: "get_channel_label (mw_session w) (rec_channel r) = Inr label"
    and wb: "write_bulk ops label doc w = (Inr (), w')"
    by (auto simp: mongo_event_def act_Inr)
  from doc obtain n where n: "event_seqnum r = Inr n"
    by (auto simp: event_document_def)
  define v where "v = Bson_Document (event_id source (mw_ts w) n)"
  from write_bulk_Inr[OF wb assms(3)]
  have ex: "mongo_execute ops (c_string label) [doc] (mw_db w) = (Inr (), mw_db w')"
    and w': "mw_ts w' = mw_ts w" "mw_session w' = mw_session w" "idle w'"
    by auto
  from replace_ok[OF ex event_document_id[OF doc n]]
  have f: "free_for matches (contents (mw_db w)) (c_string label) v doc"
    and c: "contents (mw_db w') = store (c_string label) v doc (contents (mw_db w))"
    by (simp_all add: v_def)
  have e: "event_entry source s r = Inr (c_string label, v, doc)"
    using assms(4) doc label n by (simp add: event_entry_def v_def)
  from f assms(2) have "free_for matches m (c_string label) v doc"
    by (simp add: free_for_def v_def same_eventsD[OF assms(2)])
  moreover from c assms(2) have "same_events (contents (mw_db w')) (store (c_string label) v doc m)"
    by (simp add: same_events_store)
  ultimately show ?thesis
    using w' by (simp add: e)
qed

lemma write_agrees:
  assumes "write_record (mongo_handlers ops) r s = (Inr (), s')" and "writer_agrees contents m s"
  shows "\<exists>m'. store_all matches (event_entries (srcid s) (progress_of s) [r]) m = Some m' \<and> writer_agrees contents m' s'"
proof -
  from assms(2) have i: "idle (sub s)" and e: "same_events (contents (mw_db (sub s))) m"
    and sd: "\<And>r. srec s = Some r \<Longrightarrow> session_data (srcid s) r = Inr (mw_ts (sub s), mw_session (sub s))"
    by (auto simp: writer_agrees_def)
  from assms(1) have g: "write_guard r s = Inr ()"
    by (auto simp: write_record_def act_Inr)
  have "is_event r \<Longrightarrow> rec_channel r \<notin> {channel_session, channel_end, channel_sync, channel_signature}"
    by (auto simp: is_event_def channel_constants)
  then consider (session) "rec_channel r = channel_session" | (end_rec) "rec_channel r = channel_end"
    | (sync) "rec_channel r = channel_sync" | (event) "is_event r" "rec_channel r \<notin> {channel_session, channel_end, channel_sync, channel_signature}"
    | (control) "\<not> is_event r" "rec_channel r \<notin> {channel_session, channel_end, channel_sync}"
    by blast
  then show ?thesis
  proof cases
    case session
    then have "\<not> is_event r"
      by (simp add: is_event_def channel_constants)
    moreover from assms(1) session have p: "process_session_record (mongo_handlers ops) r s = (Inr (), s')"
      by (auto simp: write_record_def act_Inr)
    then consider "s' = s" | "with_source (mongo_start ops) r (s\<lparr>srec := Some r, seqnum := 0, ended := False\<rparr>) = (Inr (), s')"
      by (auto simp: process_session_record_def act_Inr mongo_handlers_def split: if_splits)
    then have "writer_agrees contents m s'"
      using assms(2) start_agrees[OF _ e i]
      by cases (auto simp: writer_agrees_def same_base_def dest!: with_source_base)
    ultimately show ?thesis
      by simp
  next
    case end_rec
    then have "\<not> is_event r"
      by (simp add: is_event_def channel_constants)
    moreover from assms(1) end_rec obtain s1 where "with_source (mongo_end ops) r s = (Inr (), s1)" "s' = s1\<lparr>ended := True\<rparr>"
      by (auto simp: write_record_def process_end_record_def act_Inr mongo_handlers_def channel_constants)
    then have "writer_agrees contents m s'"
      using sd end_agrees[OF _ e i] by (auto simp: writer_agrees_def same_base_def dest!: with_source_base)
    ultimately show ?thesis
      by simp
  next
    case sync
    then have "\<not> is_event r"
      by (simp add: is_event_def channel_constants)
    moreover from assms(1) sync obtain s1 rep where "on_sub (mongo_sync ops) s = (Inr (), s1)" "s' = s1\<lparr>reply := rep\<rparr>"
      by (auto simp: write_record_def process_sync_record_def act_Inr mongo_handlers_def channel_constants)
    then have "writer_agrees contents m s'"
      using assms(2) mongo_sync_idle[OF i] by (auto simp: writer_agrees_def on_sub_def)
    ultimately show ?thesis
      by simp
  next
    case event
    with g obtain q where q: "srec s = Some q"
      by (auto simp: write_guard_def split: if_splits)
    from assms(1) event obtain s1 n where s1: "with_source (mongo_event ops) r s = (Inr (), s1)" "s' = s1\<lparr>seqnum := n\<rparr>"
      by (auto simp: write_record_def act_Inr mongo_handlers_def)
    with event_agrees[OF _ e i sd[OF q]] event q sd show ?thesis
      by (fastforce simp: writer_agrees_def same_base_def progress_of_def dest!: with_source_base)
  next
    case control
    with assms(1) have "s' = s"
      by (auto simp: write_record_def act_Inr mongo_handlers_def no_action_def split: if_splits)
    with control assms(2) show ?thesis
      by simp
  qed
qed

text \<open>
  An event whose identifier is taken by a document it does not match is refused and nothing is
  overwritten; but the writer is of no use afterwards.
\<close>

lemma contradiction_refused:
  assumes "mongo_event ops source r w = (x, w')" and "idle w"
    and "event_document source (mw_ts w) (mw_session w) r = Inr d" and "event_seqnum r = Inr n"
    and "get_channel_label (mw_session w) (rec_channel r) = Inr label" and "mongo_replace_one ops d = Inr ()"
    and "contents (mw_db w) (c_string label) (Bson_Document (event_id source (mw_ts w) n)) = Some old"
    and "\<not> matches d old"
  shows "\<exists>e. x = Inl e \<and> contents (mw_db w') = contents (mw_db w)
    \<and> (\<forall>b. mw_bulk w' = Some b \<longrightarrow> bulk_executed b) \<and> mw_bulk w' \<noteq> None"
proof -
  note i = event_document_id[OF assms(3,4)]
  obtain y db' where ex: "mongo_execute ops (c_string label) [d] (mw_db w) = (y, db')"
    by fastforce
  have nf: "\<not> free_for matches (contents (mw_db w)) (c_string label) (Bson_Document (event_id source (mw_ts w) n)) d"
    using assms(7,8) by (simp add: free_for_def)
  with replace_ok[OF _ i] ex obtain e where e: "y = Inl e"
    by (cases y) auto
  with replace_failed[OF _ i] ex nf have "contents db' = contents (mw_db w)"
    by blast
  with assms e ex show ?thesis
    by (auto simp: mongo_event_def write_bulk_def act_simps idle_def mongo_sync_def on_db_def)
qed

lemma event_entries_snoc:
  "event_entries source p (r # rs) = event_entries source p [r] @ event_entries source (progress_step p r) rs"
  by simp

lemma write_records_agree:
  assumes "write_records (mongo_handlers ops) rs s = (Inr (), s')" and "writer_agrees contents m s"
  shows "\<exists>m'. store_all matches (event_entries (srcid s) (progress_of s) rs) m = Some m' \<and> writer_agrees contents m' s'"
  using assms
proof (induction rs arbitrary: s m)
  case (Cons r rs)
  then obtain s1 where s1: "write_record (mongo_handlers ops) r s = (Inr (), s1)"
    and rs: "write_records (mongo_handlers ops) rs s1 = (Inr (), s')"
    by (auto simp: act_Inr)
  from write_agrees[OF s1 Cons.prems(2)] obtain m1
    where m1: "store_all matches (event_entries (srcid s) (progress_of s) [r]) m = Some m1" "writer_agrees contents m1 s1"
    by blast
  from Cons.IH[OF rs m1(2)] mongo.write_progress[OF s1] m1(1) show ?case
    unfolding event_entries_snoc[of "srcid s" "progress_of s" r rs] by (simp add: store_all_append)
qed (simp add: returnS_def)

end

section \<open>A database in memory\<close>

text \<open>
  An executable store with the contract: documents with distinct identifiers, a filter matches a
  document that has its fields, and a replacement or an insertion that would give an identifier twice fails.
\<close>

type_synonym memory = "((string \<times> bson) \<times> bson_doc) list"

definition memory_contents :: "memory \<Rightarrow> mongo_store" where
  "memory_contents db c v = map_of db (c, v)"

definition has_fields :: "bson_doc \<Rightarrow> bson_doc \<Rightarrow> bool" where
  "has_fields f d = list_all (\<lambda>p. map_of d (fst p) = Some (snd p)) f"

definition memory_put :: "string \<Rightarrow> bson_doc \<Rightarrow> (bson_doc \<Rightarrow> bool) \<Rightarrow> (memory, unit) act" where
  "memory_put c d allowed db =
     (case map_of d ''_id'' of
        None \<Rightarrow> (Inl (Endpoint_Error ''no identifier''), db)
      | Some v \<Rightarrow>
          (case map_of db (c, v) of
             None \<Rightarrow> (Inr (), ((c, v), d) # db)
           | Some old \<Rightarrow> if allowed old then (Inr (), ((c, v), d) # db)
               else (Inl (Endpoint_Error ''duplicate key''), db)))"

fun memory_execute :: "string \<Rightarrow> bson_doc list \<Rightarrow> (memory, unit) act" where
  "memory_execute c [] = returnS ()"
| "memory_execute c (d # ds) = seqS (memory_put c d (has_fields d)) (memory_execute c ds)"

definition memory_update :: "string \<Rightarrow> bson_doc \<Rightarrow> bson_doc \<Rightarrow> (memory, unit) act" where
  "memory_update c f u db =
     (case map_of f ''_id'' of
        None \<Rightarrow> (Inr (), db)
      | Some v \<Rightarrow> (Inr (), case map_of db (c, v) of
            None \<Rightarrow> db
          | Some d \<Rightarrow> ((c, v), d @ u) # db))"

definition memory_ops :: "memory mongo_ops" where
  "memory_ops =
     \<lparr>mongo_find = (\<lambda>c f db. case map_of f ''_id'' of
          None \<Rightarrow> False
        | Some v \<Rightarrow> (case map_of db (c, v) of None \<Rightarrow> False | Some d \<Rightarrow> has_fields f d)),
      mongo_insert_one = (\<lambda>c d. memory_put c d (\<lambda>_. False)),
      mongo_update_one = memory_update,
      mongo_replace_one = (\<lambda>d. Inr ()),
      mongo_execute = memory_execute\<rparr>"

lemma memory_contents_Cons [simp]: "memory_contents (((c, v), d) # db) = store c v d (memory_contents db)"
  by (auto simp: memory_contents_def store_def fun_eq_iff)

interpretation in_memory: document_store memory_ops memory_contents has_fields
  by unfold_locales
    (auto simp: memory_ops_def memory_put_def memory_update_def free_for_def memory_contents_def[symmetric]
      act_simps store_other split: option.splits if_splits)

section \<open>Properties\<close>

text \<open>
  A session with one channel, two events in it, and the event that contradicts the second.
\<close>

definition sample_log_session :: hrecord where
  "sample_log_session = \<lparr>rec_channel = channel_session,
     rec_attributes = [
       Compound attrid_attr_def [Signed_Integer attrid_attr_id 0, String_Attr attrid_attr_label ''text'',
         Unsigned_Integer attrid_type (ucast type_string)],
       Compound attrid_chan_def [Signed_Integer attrid_chan_id 0, String_Attr attrid_chan_label ''log''],
       String_Attr attrid_source ''a'', Timestamp attrid_ts 1 0]\<rparr>"

definition sample_log_event :: "u64 \<Rightarrow> string \<Rightarrow> hrecord" where
  "sample_log_event n t = \<lparr>rec_channel = 0,
     rec_attributes = [Unsigned_Integer attrid_seqnum n, String_Attr 0 t]\<rparr>"

definition sample_mongo :: "memory mongo_writer session_writer" where
  "sample_mongo = session_writer_init ''a'' (mongo_writer_init [] (0, 0))"

text \<open>
  C35: the events of sessions written to a database are in it. If a writer has accepted a sequence of
  records, then every event in it has a document in the collection named by the label of its channel,
  with the fields its attributes have in the session in force, under the identifier made of source,
  timestamp of the session and sequence number; each was put where no document had that identifier
  or where it matched the document that had it; and no other document of an event was touched.
\<close>

theorem mongodb_keeps_events:
  assumes "document_store ops contents matches"
    and "write_records (mongo_handlers ops) rs (session_writer_init source (mongo_writer_init db junk)) = (Inr (), s')"
  shows "\<exists>m. store_all matches (event_entries source progress_init rs) (contents db) = Some m
    \<and> same_events (contents (mw_db (sub s'))) m"
  using document_store.write_records_agree[OF assms, of "contents db"]
  by (auto simp: writer_agrees_def session_writer_init_def mongo_writer_init_def idle_def same_events_def
      progress_of_def progress_init_def)

theorem mongodb_keeps_events_witness:
  "\<exists>m. store_all has_fields (event_entries ''a'' progress_init
        [sample_log_session, sample_log_event 0 ''x'', sample_log_event 1 ''y'']) (memory_contents []) = Some m
    \<and> same_events (memory_contents (mw_db (sub (snd (write_records (mongo_handlers memory_ops)
        [sample_log_session, sample_log_event 0 ''x'', sample_log_event 1 ''y''] sample_mongo))))) m"
  unfolding sample_mongo_def
  by (rule mongodb_keeps_events[OF in_memory.document_store_axioms run_result]) code_simp

text \<open>
  C36: a session may be sent again. If a writer has accepted some of the records of a session, and
  another writer, for instance after a failure, accepts all of them, then the events in the database
  are those of what was there before with the last document written under each identifier, as if the
  records had been written once.
\<close>

theorem mongodb_resend:
  assumes "document_store ops contents matches"
    and "write_records (mongo_handlers ops) rs (session_writer_init source (mongo_writer_init db junk)) = (Inr (), s1)"
    and "write_records (mongo_handlers ops) (rs @ rs') (session_writer_init source (mongo_writer_init (mw_db (sub s1)) junk')) = (Inr (), s2)"
  shows "same_events (contents (mw_db (sub s2)))
    (\<lambda>c. contents db c ++ entry_map (event_entries source progress_init (rs @ rs')) c)"
proof -
  have start: "writer_agrees contents (contents d) (session_writer_init source (mongo_writer_init d j))" for d j
    by (simp add: writer_agrees_def session_writer_init_def mongo_writer_init_def idle_def same_events_def)
  have p: "progress_of (session_writer_init source d) = progress_init" "srcid (session_writer_init source d) = source"
    for d :: "'a mongo_writer"
    by (simp_all add: progress_of_def progress_init_def session_writer_init_def)
  from document_store.write_records_agree[OF assms(1,2) start] p obtain m1
    where m1: "store_all matches (event_entries source progress_init rs) (contents db) = Some m1"
      and e1: "same_events (contents (mw_db (sub s1))) m1"
    by (auto simp: writer_agrees_def)
  from document_store.write_records_agree[OF assms(1,3) start] p obtain m2
    where m2: "store_all matches (event_entries source progress_init (rs @ rs')) (contents (mw_db (sub s1))) = Some m2"
      and e2: "same_events (contents (mw_db (sub s2))) m2"
    by (auto simp: writer_agrees_def)
  let ?e = "event_entries source progress_init rs" and ?e' = "event_entries source progress_init (rs @ rs')"
  have twice: "contents db c ++ entry_map ?e c ++ entry_map ?e' c = contents db c ++ entry_map ?e' c" for c
    by (simp add: event_entries_append entry_map_append map_add_assoc) (simp add: map_add_twice flip: map_add_assoc)
  show ?thesis
    unfolding same_events_def
  proof (intro allI)
    fix c source' ts n
    let ?v = "Bson_Document (event_id source' ts n)"
    have "contents (mw_db (sub s2)) c ?v = (contents (mw_db (sub s1)) c ++ entry_map ?e' c) ?v"
      using same_eventsD[OF e2] by (simp add: store_all_result[OF m2])
    also have "\<dots> = (m1 c ++ entry_map ?e' c) ?v"
      using same_eventsD[OF e1] by (rule map_add_at)
    finally show "contents (mw_db (sub s2)) c ?v = (contents db c ++ entry_map ?e' c) ?v"
      by (simp add: store_all_result[OF m1] twice)
  qed
qed

theorem mongodb_resend_witness:
  "let rs = [sample_log_session, sample_log_event 0 ''x'']; rs' = [sample_log_event 1 ''y''];
      s1 = snd (write_records (mongo_handlers memory_ops) rs sample_mongo);
      s2 = snd (write_records (mongo_handlers memory_ops) (rs @ rs') (session_writer_init ''a'' (mongo_writer_init (mw_db (sub s1)) (0, 0)))) in
    same_events (memory_contents (mw_db (sub s2)))
      (\<lambda>c. memory_contents [] c ++ entry_map (event_entries ''a'' progress_init (rs @ rs')) c)"
  unfolding Let_def sample_mongo_def
  by (rule mongodb_resend[OF in_memory.document_store_axioms run_result run_result]) code_simp+

end
