(* ===== verification/Attribute_Store.thy ===== *)
theory Attribute_Store
  imports Attribute
begin

text \<open>
  Who owns attributes: the constructors, assignments and insertions of \<^verbatim>\<open>attribute_list\<close>
  (\<^verbatim>\<open>horace/attribute_list.cc\<close>, \<^verbatim>\<open>horace/attribute_list.h\<close>) over an explicit store. A list has pointers
  to all its attributes and, apart, to those it must delete. The other theories treat a list as the
  sequence of its attributes: the refinement below justifies this, and that nothing is deleted twice,
  used after it was deleted, or left behind.
\<close>

section \<open>The store\<close>

text \<open>
  A cell holds one attribute object with all that the object itself owns. Addresses are not used again,
  so that an access to a deleted object is seen.
\<close>

record attr_list =
  al_attributes :: "nat list"
  al_owned :: "nat list"

record attr_store =
  cells :: "nat \<rightharpoonup> attribute"
  next_cell :: nat
  vars :: "nat \<rightharpoonup> attr_list"

definition empty_list :: attr_list where
  "empty_list = \<lparr>al_attributes = [], al_owned = []\<rparr>"

lemma empty_list_simps [simp]: "al_attributes empty_list = []" "al_owned empty_list = []"
  by (simp_all add: empty_list_def)

definition new_cell :: "attribute \<Rightarrow> (attr_store, nat) act" where
  "new_cell a s = (Inr (next_cell s), s\<lparr>cells := (cells s)(next_cell s \<mapsto> a), next_cell := next_cell s + 1\<rparr>)"

definition delete_cell :: "nat \<Rightarrow> (attr_store, unit) act" where
  "delete_cell p s =
     (if cells s p = None then (Inl (Undefined_Behaviour ''object deleted twice''), s)
      else (Inr (), s\<lparr>cells := (cells s)(p := None)\<rparr>))"

fun delete_cells :: "nat list \<Rightarrow> (attr_store, unit) act" where
  "delete_cells [] = returnS ()"
| "delete_cells (p # ps) = seqS (delete_cell p) (delete_cells ps)"

definition read_cell :: "nat \<Rightarrow> (attr_store, attribute) act" where
  "read_cell p s = (case cells s p of
     None \<Rightarrow> (Inl (Undefined_Behaviour ''dangling pointer''), s)
   | Some a \<Rightarrow> (Inr a, s))"

definition get_var :: "nat \<Rightarrow> (attr_store, attr_list) act" where
  "get_var n s = (case vars s n of
     None \<Rightarrow> (Inl (Undefined_Behaviour ''no such object''), s)
   | Some l \<Rightarrow> (Inr l, s))"

definition set_var :: "nat \<Rightarrow> attr_list \<Rightarrow> (attr_store, unit) act" where
  "set_var n l = modifyS (\<lambda>s. s\<lparr>vars := (vars s)(n \<mapsto> l)\<rparr>)"

section \<open>Operations\<close>

text \<open>
  The copy constructor, the move constructor, the two assignments and the destructor. A list that is
  assigned to itself stays as it is.
\<close>

fun clone_all :: "nat list \<Rightarrow> (attr_store, nat list) act" where
  "clone_all [] = returnS []"
| "clone_all (p # ps) =
     bindS (read_cell p) (\<lambda>a. bindS (new_cell a) (\<lambda>q. bindS (clone_all ps) (\<lambda>qs. returnS (q # qs))))"

definition copy_construct :: "nat \<Rightarrow> nat \<Rightarrow> (attr_store, unit) act" where
  "copy_construct n m =
     bindS (get_var m) (\<lambda>that. bindS (clone_all (al_attributes that)) (\<lambda>qs.
       set_var n \<lparr>al_attributes = qs, al_owned = qs\<rparr>))"

definition move_construct :: "nat \<Rightarrow> nat \<Rightarrow> (attr_store, unit) act" where
  "move_construct n m = bindS (get_var m) (\<lambda>that. seqS (set_var m empty_list) (set_var n that))"

definition clear_list :: "nat \<Rightarrow> (attr_store, unit) act" where
  "clear_list n = bindS (get_var n) (\<lambda>l. seqS (delete_cells (al_owned l)) (set_var n empty_list))"

definition copy_assign :: "nat \<Rightarrow> nat \<Rightarrow> (attr_store, unit) act" where
  "copy_assign n m =
     (if n = m then returnS () else seqS (clear_list n) (copy_construct n m))"

definition move_assign :: "nat \<Rightarrow> nat \<Rightarrow> (attr_store, unit) act" where
  "move_assign n m =
     (if n = m then returnS () else seqS (clear_list n) (move_construct n m))"

definition destroy :: "nat \<Rightarrow> (attr_store, unit) act" where
  "destroy n = bindS (get_var n) (\<lambda>l. seqS (delete_cells (al_owned l)) (modifyS (\<lambda>s. s\<lparr>vars := (vars s)(n := None)\<rparr>)))"

text \<open>
  Insertion: \<^verbatim>\<open>std::upper_bound\<close> compares the new attribute with those in the list, which must exist.
\<close>

fun read_cells :: "nat list \<Rightarrow> (attr_store, attribute list) act" where
  "read_cells [] = returnS []"
| "read_cells (p # ps) = bindS (read_cell p) (\<lambda>a. bindS (read_cells ps) (\<lambda>as. returnS (a # as)))"

definition insert_pointer :: "nat \<Rightarrow> nat \<Rightarrow> bool \<Rightarrow> (attr_store, unit) act" where
  "insert_pointer n p owned =
     bindS (get_var n) (\<lambda>l. bindS (read_cell p) (\<lambda>a. bindS (read_cells (al_attributes l)) (\<lambda>as.
       let k = length (takeWhile (\<lambda>x. \<not> attrid_less a x) as) in
       set_var n \<lparr>al_attributes = take k (al_attributes l) @ p # drop k (al_attributes l),
         al_owned = (if owned then al_owned l @ [p] else al_owned l)\<rparr>)))"

definition insert_owned :: "nat \<Rightarrow> attribute \<Rightarrow> (attr_store, unit) act" where
  "insert_owned n a = bindS (new_cell a) (\<lambda>p. insert_pointer n p True)"

definition insert_ref :: "nat \<Rightarrow> nat \<Rightarrow> (attr_store, unit) act" where
  "insert_ref n p = insert_pointer n p False"

text \<open>
  The constructor that reads a list: \<open>parsed\<close> is what reading gives for one attribute after the other. An
  exception leaves the constructor before there is an object whose destructor could run.
\<close>

fun parse_into :: "attribute result list \<Rightarrow> nat \<Rightarrow> (attr_store, unit) act" where
  "parse_into [] n = returnS ()"
| "parse_into (Inl e # xs) n = seqS (modifyS (\<lambda>s. s\<lparr>vars := (vars s)(n := None)\<rparr>)) (throwS e)"
| "parse_into (Inr a # xs) n = seqS (insert_owned n a) (parse_into xs n)"

definition parse_construct :: "nat \<Rightarrow> attribute result list \<Rightarrow> (attr_store, unit) act" where
  "parse_construct n parsed = seqS (set_var n empty_list) (parse_into parsed n)"

section \<open>Programs\<close>

datatype list_op =
    New nat
  | Copy_New nat nat
  | Move_New nat nat
  | Copy_Assign nat nat
  | Move_Assign nat nat
  | Insert_Owned nat attribute
  | Insert_Ref nat nat
  | Destroy nat

fun run_op :: "list_op \<Rightarrow> (attr_store, unit) act" where
  "run_op (New n) = set_var n empty_list"
| "run_op (Copy_New n m) = copy_construct n m"
| "run_op (Move_New n m) = move_construct n m"
| "run_op (Copy_Assign n m) = copy_assign n m"
| "run_op (Move_Assign n m) = move_assign n m"
| "run_op (Insert_Owned n a) = insert_owned n a"
| "run_op (Insert_Ref n p) = insert_ref n p"
| "run_op (Destroy n) = destroy n"

fun run_ops :: "list_op list \<Rightarrow> (attr_store, unit) act" where
  "run_ops [] = returnS ()"
| "run_ops (x # xs) = seqS (run_op x) (run_ops xs)"

text \<open>
  The specification: variables with attribute lists as values. A constructor makes a variable that is
  not yet in use, the other operations need one that is; \<open>fixed\<close> are the attributes of the caller,
  which outlive the lists.
\<close>

type_synonym list_env = "nat \<rightharpoonup> attribute list"

fun value_op :: "(nat \<rightharpoonup> attribute) \<Rightarrow> list_op \<Rightarrow> list_env \<Rightarrow> list_env option" where
  "value_op fixed (New n) env = (if env n = None then Some (env(n \<mapsto> [])) else None)"
| "value_op fixed (Copy_New n m) env =
     (if env n = None then map_option (\<lambda>as. env(n \<mapsto> as)) (env m) else None)"
| "value_op fixed (Move_New n m) env =
     (if env n = None then map_option (\<lambda>as. env(m \<mapsto> [], n \<mapsto> as)) (env m) else None)"
| "value_op fixed (Copy_Assign n m) env =
     (if env n = None then None else map_option (\<lambda>as. env(n \<mapsto> as)) (env m))"
| "value_op fixed (Move_Assign n m) env =
     (if env n = None then None else map_option (\<lambda>as. if n = m then env else env(m \<mapsto> [], n \<mapsto> as)) (env m))"
| "value_op fixed (Insert_Owned n a) env = map_option (\<lambda>as. env(n \<mapsto> attr_insert a as)) (env n)"
| "value_op fixed (Insert_Ref n p) env =
     Option.bind (fixed p) (\<lambda>a. map_option (\<lambda>as. env(n \<mapsto> attr_insert a as)) (env n))"
| "value_op fixed (Destroy n) env = (if env n = None then None else Some (env(n := None)))"

fun value_ops :: "(nat \<rightharpoonup> attribute) \<Rightarrow> list_op list \<Rightarrow> list_env \<Rightarrow> list_env option" where
  "value_ops fixed [] env = Some env"
| "value_ops fixed (x # xs) env = Option.bind (value_op fixed x env) (value_ops fixed xs)"

section \<open>The invariant\<close>

text \<open>
  Every cell that is not one of the caller is owned by exactly one list, once; a list refers to its own
  cells and those of the caller.
\<close>

definition owned_by :: "attr_store \<Rightarrow> nat \<Rightarrow> nat list" where
  "owned_by s n = (case vars s n of None \<Rightarrow> [] | Some l \<Rightarrow> al_owned l)"

definition store_ok :: "(nat \<rightharpoonup> attribute) \<Rightarrow> attr_store \<Rightarrow> bool" where
  "store_ok fixed s \<longleftrightarrow>
     fixed \<subseteq>\<^sub>m cells s
     \<and> (\<forall>p. p \<in> dom (cells s) \<longleftrightarrow> p \<in> dom fixed \<or> (\<exists>n. p \<in> set (owned_by s n)))
     \<and> (\<forall>n. distinct (owned_by s n) \<and> set (owned_by s n) \<inter> dom fixed = {})
     \<and> (\<forall>n m. n \<noteq> m \<longrightarrow> set (owned_by s n) \<inter> set (owned_by s m) = {})
     \<and> (\<forall>n l. vars s n = Some l \<longrightarrow> set (al_attributes l) \<subseteq> set (al_owned l) \<union> dom fixed)
     \<and> (\<forall>p \<in> dom (cells s). p < next_cell s)"

definition list_value :: "attr_store \<Rightarrow> attr_list \<Rightarrow> attribute list" where
  "list_value s l = map (\<lambda>p. the (cells s p)) (al_attributes l)"

definition env_of :: "attr_store \<Rightarrow> list_env" where
  "env_of s n = map_option (list_value s) (vars s n)"

section \<open>What the operations do\<close>

lemma delete_cells_ok:
  "distinct ps \<Longrightarrow> set ps \<subseteq> dom (cells s) \<Longrightarrow> delete_cells ps s = (Inr (), s\<lparr>cells := cells s |` (- set ps)\<rparr>)"
proof (induction ps arbitrary: s)
  case (Cons p ps)
  let ?s = "s\<lparr>cells := (cells s)(p := None)\<rparr>"
  have d: "delete_cell p s = (Inr (), ?s)"
    using Cons.prems by (auto simp: delete_cell_def)
  have "delete_cells ps ?s = (Inr (), ?s\<lparr>cells := cells ?s |` (- set ps)\<rparr>)"
    using Cons.prems by (intro Cons.IH) auto
  moreover have "(cells s)(p := None) |` (- set ps) = cells s |` (- set (p # ps))"
    by (auto simp: fun_eq_iff restrict_map_def)
  ultimately show ?case
    by (simp add: seqS_def bindS_def d)
qed (simp add: returnS_def restrict_map_def)

lemma read_cells_ok:
  "set ps \<subseteq> dom (cells s) \<Longrightarrow> read_cells ps s = (Inr (map (\<lambda>p. the (cells s p)) ps), s)"
  by (induction ps) (auto simp: act_simps read_cell_def)

lemma clone_all_ok:
  assumes "set ps \<subseteq> dom (cells s)" and "\<forall>p \<in> dom (cells s). p < next_cell s"
  shows "\<exists>s'. clone_all ps s = (Inr [next_cell s..<next_cell s + length ps], s') \<and> vars s' = vars s
    \<and> next_cell s' = next_cell s + length ps
    \<and> cells s \<subseteq>\<^sub>m cells s' \<and> dom (cells s') = dom (cells s) \<union> set [next_cell s..<next_cell s + length ps]
    \<and> map (\<lambda>q. the (cells s' q)) [next_cell s..<next_cell s + length ps] = map (\<lambda>p. the (cells s p)) ps"
  using assms
proof (induction ps arbitrary: s)
  case (Cons p ps)
  from Cons.prems(1) obtain a where a: "cells s p = Some a"
    by auto
  let ?s = "s\<lparr>cells := (cells s)(next_cell s \<mapsto> a), next_cell := next_cell s + 1\<rparr>"
  have fresh: "next_cell s \<notin> dom (cells s)"
    using Cons.prems(2) by blast
  have "set ps \<subseteq> dom (cells ?s)" and "\<forall>p \<in> dom (cells ?s). p < next_cell ?s"
    using Cons.prems by (auto simp: less_Suc_eq)
  from Cons.IH[OF this] obtain s' where s': "clone_all ps ?s = (Inr [next_cell ?s..<next_cell ?s + length ps], s')"
    "vars s' = vars ?s" "next_cell s' = next_cell ?s + length ps" "cells ?s \<subseteq>\<^sub>m cells s'"
    "dom (cells s') = dom (cells ?s) \<union> set [next_cell ?s..<next_cell ?s + length ps]"
    "map (\<lambda>q. the (cells s' q)) [next_cell ?s..<next_cell ?s + length ps] = map (\<lambda>p. the (cells ?s p)) ps"
    by blast
  have vals: "map (\<lambda>p. the (cells ?s p)) ps = map (\<lambda>p. the (cells s p)) ps"
    using Cons.prems(1) fresh by auto
  have cell: "cells s' (next_cell s) = Some a"
    using s'(4) by (auto simp: map_le_def dest: bspec[where x = "next_cell s"])
  have "cells s \<subseteq>\<^sub>m cells ?s"
    using fresh by (auto simp: map_le_def)
  then have le: "cells s \<subseteq>\<^sub>m cells s'"
    using s'(4) by (rule map_le_trans)
  have e: "[next_cell s..<next_cell s + length (p # ps)] = next_cell s # [next_cell ?s..<next_cell ?s + length ps]"
    using upt_conv_Cons[of "next_cell s" "next_cell s + length (p # ps)"] by (simp del: upt_Suc)
  have run: "clone_all (p # ps) s = (Inr (next_cell s # [next_cell ?s..<next_cell ?s + length ps]), s')"
    using s'(1) a by (simp add: bindS_def read_cell_def new_cell_def returnS_def)
  have dom: "dom (cells s') = dom (cells s) \<union> set (next_cell s # [next_cell ?s..<next_cell ?s + length ps])"
    unfolding s'(5) by auto
  have vals': "map (\<lambda>q. the (cells s' q)) (next_cell s # [next_cell ?s..<next_cell ?s + length ps]) = map (\<lambda>p. the (cells s p)) (p # ps)"
    unfolding list.map(2) s'(6) vals cell using a by simp
  show ?case
    unfolding e using s'(2,3) run dom vals' le by (intro exI[of _ s'] conjI) simp_all
qed (simp add: returnS_def)

lemma store_okD:
  assumes "store_ok fixed s"
  shows "fixed \<subseteq>\<^sub>m cells s" and "p \<in> dom (cells s) \<longleftrightarrow> p \<in> dom fixed \<or> (\<exists>n. p \<in> set (owned_by s n))"
    and "distinct (owned_by s n)" and "set (owned_by s n) \<inter> dom fixed = {}"
    and "n \<noteq> m \<Longrightarrow> set (owned_by s n) \<inter> set (owned_by s m) = {}"
    and "vars s n = Some l \<Longrightarrow> set (al_attributes l) \<subseteq> set (al_owned l) \<union> dom fixed"
    and "\<forall>p \<in> dom (cells s). p < next_cell s"
  using assms unfolding store_ok_def by blast+

lemma owned_by_Some [simp]: "vars s n = Some l \<Longrightarrow> owned_by s n = al_owned l"
  by (simp add: owned_by_def)

lemma attributes_live:
  assumes "store_ok fixed s" and "vars s n = Some l"
  shows "set (al_attributes l) \<subseteq> dom (cells s)"
proof
  fix p
  assume "p \<in> set (al_attributes l)"
  with store_okD(6)[OF assms] assms(2) have "p \<in> dom fixed \<or> p \<in> set (owned_by s n)"
    by auto
  then show "p \<in> dom (cells s)"
    using store_okD(2)[OF assms(1)] by blast
qed

lemma owned_live: "store_ok fixed s \<Longrightarrow> set (owned_by s n) \<subseteq> dom (cells s)"
  using store_okD(2) by blast

lemma other_owner:
  "(P \<longleftrightarrow> F \<or> (\<exists>n. R n)) \<Longrightarrow> \<not> (R k \<and> F) \<Longrightarrow> (\<And>m. m \<noteq> k \<Longrightarrow> \<not> (R m \<and> R k)) \<Longrightarrow>
     (P \<and> \<not> R k) \<longleftrightarrow> F \<or> (\<exists>m. m \<noteq> k \<and> R m)"
  by metis

lemma clear_list_ok:
  assumes "store_ok fixed s" and "vars s n = Some l"
  shows "\<exists>s'. clear_list n s = (Inr (), s') \<and> store_ok fixed s' \<and> vars s' = (vars s)(n \<mapsto> empty_list)
    \<and> env_of s' = (env_of s)(n \<mapsto> []) \<and> delete_cells (al_owned l) s = (Inr (), s'\<lparr>vars := vars s\<rparr>)"
proof -
  let ?s = "s\<lparr>cells := cells s |` (- set (al_owned l)), vars := (vars s)(n \<mapsto> empty_list)\<rparr>"
  have own: "owned_by ?s m = (if m = n then [] else owned_by s m)" for m
    by (simp add: owned_by_def empty_list_def)
  have "set (al_owned l) \<subseteq> dom (cells s)" "distinct (al_owned l)"
    using owned_live[OF assms(1), of n] store_okD(3)[OF assms(1), of n] assms(2) by auto
  then have del: "delete_cells (al_owned l) s = (Inr (), s\<lparr>cells := cells s |` (- set (al_owned l))\<rparr>)"
    by (simp add: delete_cells_ok)
  moreover have "store_ok fixed ?s"
    unfolding store_ok_def own
  proof (intro conjI allI ballI impI)
    show "fixed \<subseteq>\<^sub>m cells ?s"
      using store_okD(1,4)[OF assms(1)] assms(2) by (auto simp: map_le_def restrict_map_def) (metis disjoint_iff domI owned_by_Some)
  next
    fix p
    have "p \<in> dom (cells ?s) \<longleftrightarrow> p \<in> dom (cells s) \<and> p \<notin> set (owned_by s n)"
      using assms(2) by (auto simp: restrict_map_def split: if_splits)
    also have "\<dots> \<longleftrightarrow> p \<in> dom fixed \<or> (\<exists>m. m \<noteq> n \<and> p \<in> set (owned_by s m))"
      by (rule other_owner[where R = "\<lambda>m. p \<in> set (owned_by s m)"]) (use store_okD[OF assms(1)] in blast)+
    also have "(\<exists>m. m \<noteq> n \<and> p \<in> set (owned_by s m)) \<longleftrightarrow> (\<exists>m. p \<in> set (if m = n then [] else owned_by s m))"
      by (intro iff_exI) simp
    finally show "p \<in> dom (cells ?s) \<longleftrightarrow> p \<in> dom fixed \<or> (\<exists>m. p \<in> set (if m = n then [] else owned_by s m))" .
  next
    fix p
    assume "p \<in> dom (cells ?s)"
    then show "p < next_cell ?s"
      using store_okD(7)[OF assms(1)] by (auto simp: restrict_map_def split: if_splits)
  next
    fix m l'
    assume "vars ?s m = Some l'"
    then show "set (al_attributes l') \<subseteq> set (al_owned l') \<union> dom fixed"
      using store_okD(6)[OF assms(1)] by (auto simp: empty_list_def split: if_splits)
  qed (use store_okD[OF assms(1)] in auto)
  moreover have "env_of ?s = (env_of s)(n \<mapsto> [])"
  proof
    fix m
    show "env_of ?s m = ((env_of s)(n \<mapsto> [])) m"
    proof (cases "m = n \<or> vars s m = None")
      case False
      then obtain l' where l': "vars s m = Some l'" "m \<noteq> n"
        by auto
      have "set (al_attributes l') \<inter> set (al_owned l) = {}"
        using store_okD(6)[OF assms(1) l'(1)] store_okD(4)[OF assms(1), of n] store_okD(5)[OF assms(1) l'(2)] l'(1) assms(2)
        by simp blast
      then have "map (\<lambda>p. the ((cells s |` (- set (al_owned l))) p)) (al_attributes l') = map (\<lambda>p. the (cells s p)) (al_attributes l')"
        by (auto simp: restrict_map_def)
      with l' show ?thesis
        by (simp add: env_of_def list_value_def)
    qed (auto simp: env_of_def list_value_def empty_list_def)
  qed
  ultimately show ?thesis
    using assms(2) by (intro exI[of _ ?s]) (simp add: clear_list_def bindS_def seqS_def get_var_def set_var_def modifyS_def)
qed

lemma list_value_vars [simp]: "list_value (s\<lparr>vars := v\<rparr>) = list_value s"
  by (simp add: list_value_def fun_eq_iff)

lemma list_value_empty [simp]: "list_value s empty_list = []"
  by (simp add: list_value_def empty_list_def)

lemma env_of_None: "env_of s n = None \<longleftrightarrow> vars s n = None"
  by (simp add: env_of_def)

lemma env_of_Some: "env_of s n = Some as \<longleftrightarrow> (\<exists>l. vars s n = Some l \<and> list_value s l = as)"
  by (auto simp: env_of_def)

text \<open>
  A list gets further cells, all of them new.
\<close>

lemma extend_list_ok:
  fixes s s' :: attr_store
  assumes ok: "store_ok fixed s" and le: "cells s \<subseteq>\<^sub>m cells s'" and dom: "dom (cells s') = dom (cells s) \<union> set qs"
    and new: "distinct qs" "set qs \<inter> dom (cells s) = {}" and k: "\<forall>p \<in> dom (cells s'). p < next_cell s'"
    and attrs: "set as \<subseteq> set (owned_by s n) \<union> set qs \<union> dom fixed"
    and vars: "vars s' = (vars s)(n \<mapsto> \<lparr>al_attributes = as, al_owned = owned_by s n @ qs\<rparr>)"
  shows "store_ok fixed s' \<and> env_of s' = (env_of s)(n \<mapsto> map (\<lambda>p. the (cells s' p)) as)"
proof -
  have own: "owned_by s' m = owned_by s m @ (if m = n then qs else [])" for m
    by (simp add: owned_by_def vars)
  have disj: "set (owned_by s m) \<inter> set qs = {}" "dom fixed \<inter> set qs = {}" for m
    using owned_live[OF ok, of m] new(2) store_okD(2)[OF ok] by (blast, blast)
  have "store_ok fixed s'"
    unfolding store_ok_def own
  proof (intro conjI allI impI)
    show "fixed \<subseteq>\<^sub>m cells s'"
      using map_le_trans[OF store_okD(1)[OF ok] le] .
  next
    fix p
    have "(\<exists>m. p \<in> set (owned_by s m @ (if m = n then qs else []))) \<longleftrightarrow> (\<exists>m. p \<in> set (owned_by s m)) \<or> p \<in> set qs"
      by auto
    then show "p \<in> dom (cells s') \<longleftrightarrow> p \<in> dom fixed \<or> (\<exists>m. p \<in> set (owned_by s m @ (if m = n then qs else [])))"
      unfolding dom using store_okD(2)[OF ok, of p] by blast
  next
    fix m l
    assume "vars s' m = Some l"
    with attrs store_okD(6)[OF ok, of m] show "set (al_attributes l) \<subseteq> set (al_owned l) \<union> dom fixed"
      by (auto simp: vars split: if_splits)
  next
    fix m m' :: nat
    assume "m \<noteq> m'"
    from store_okD(5)[OF ok this] this disj show "set (owned_by s m @ (if m = n then qs else [])) \<inter> set (owned_by s m' @ (if m' = n then qs else [])) = {}"
      by (auto simp: disjoint_iff)
  next
    fix m
    show "set (owned_by s m @ (if m = n then qs else [])) \<inter> dom fixed = {}"
      using store_okD(4)[OF ok, of m] disj(2) by (cases "m = n") (simp_all, blast)
    show "distinct (owned_by s m @ (if m = n then qs else []))"
      using store_okD(3)[OF ok, of m] disj(1)[of m] new(1) by auto
  qed (use k in blast)
  moreover have "env_of s' m = ((env_of s)(n \<mapsto> map (\<lambda>p. the (cells s' p)) as)) m" for m
  proof (cases "m = n \<or> vars s m = None")
    case False
    then obtain l where l: "vars s m = Some l" "m \<noteq> n"
      by auto
    have "\<forall>p \<in> set (al_attributes l). cells s' p = cells s p"
      using attributes_live[OF ok l(1)] le unfolding map_le_def by (metis subsetD)
    then show ?thesis
      using l by (simp add: env_of_def list_value_def vars)
  qed (auto simp: env_of_def list_value_def vars)
  ultimately show ?thesis
    by auto
qed

lemma copy_construct_ok:
  assumes "store_ok fixed s" and "vars s m = Some that" and "owned_by s n = []"
  shows "\<exists>s'. copy_construct n m s = (Inr (), s') \<and> store_ok fixed s' \<and> env_of s' = (env_of s)(n \<mapsto> list_value s that)"
proof -
  define qs where "qs = [next_cell s..<next_cell s + length (al_attributes that)]"
  from clone_all_ok[OF attributes_live[OF assms(1,2)] store_okD(7)[OF assms(1)]]
  obtain s1 where s1: "clone_all (al_attributes that) s = (Inr qs, s1)" "vars s1 = vars s"
    "next_cell s1 = next_cell s + length (al_attributes that)" "cells s \<subseteq>\<^sub>m cells s1"
    "dom (cells s1) = dom (cells s) \<union> set qs" "map (\<lambda>q. the (cells s1 q)) qs = list_value s that"
    unfolding qs_def list_value_def by blast
  let ?s = "s1\<lparr>vars := (vars s1)(n \<mapsto> \<lparr>al_attributes = qs, al_owned = qs\<rparr>)\<rparr>"
  have "store_ok fixed ?s \<and> env_of ?s = (env_of s)(n \<mapsto> map (\<lambda>p. the (cells ?s p)) qs)"
  proof (rule extend_list_ok[OF assms(1)])
    have "p < next_cell ?s" if "p \<in> dom (cells s) \<union> set qs" for p
      using that
    proof
      assume "p \<in> dom (cells s)"
      with store_okD(7)[OF assms(1)] have "p < next_cell s"
        by blast
      then show ?thesis
        by (simp add: s1(3))
    qed (simp add: qs_def s1(3))
    then show "\<forall>p \<in> dom (cells ?s). p < next_cell ?s"
      using s1(5) by simp
    have "p \<notin> dom (cells s)" if "p \<in> set qs" for p
      using that bspec[OF store_okD(7)[OF assms(1)], of p] by (auto simp only: qs_def set_upt atLeastLessThan_iff not_le[symmetric])
    then show "set qs \<inter> dom (cells s) = {}"
      by blast
  qed (use s1 assms(3) in \<open>auto simp: qs_def\<close>)
  moreover have "copy_construct n m s = (Inr (), ?s)"
    using assms(2) s1(1) by (simp add: copy_construct_def bindS_def get_var_def set_var_def modifyS_def)
  ultimately show ?thesis
    using s1(6) by auto
qed

lemma rearrange_ok:
  assumes ok: "store_ok fixed s" and "cells s' = cells s" and "next_cell s' = next_cell s"
    and f: "\<And>k. f (f k) = k" and own: "\<And>k. owned_by s' k = owned_by s (f k)"
    and "\<And>k l. vars s' k = Some l \<Longrightarrow> set (al_attributes l) \<subseteq> set (al_owned l) \<union> dom fixed"
  shows "store_ok fixed s'"
proof -
  have "(\<exists>k. p \<in> set (owned_by s (f k))) \<longleftrightarrow> (\<exists>k. p \<in> set (owned_by s k))" for p
    using f by metis
  moreover have "k \<noteq> m \<Longrightarrow> f k \<noteq> f m" for k m
    using f by metis
  ultimately show ?thesis
    using store_okD(1-5,7)[OF ok] assms(2,3,6) unfolding store_ok_def own by presburger
qed

lemma move_construct_ok:
  assumes ok: "store_ok fixed s" and that: "vars s m = Some that" and n: "owned_by s n = []" "n \<noteq> m"
  shows "\<exists>s'. move_construct n m s = (Inr (), s') \<and> store_ok fixed s' \<and> env_of s' = (env_of s)(m \<mapsto> [], n \<mapsto> list_value s that)"
proof -
  let ?s = "s\<lparr>vars := (vars s)(m \<mapsto> empty_list, n \<mapsto> that)\<rparr>"
  have own: "owned_by ?s k = owned_by s (if k = n then m else if k = m then n else k)" for k
    using n that by (auto simp: owned_by_def empty_list_def)
  have "store_ok fixed ?s"
  proof (rule rearrange_ok[OF ok _ _ _ own])
    show "vars ?s k = Some l \<Longrightarrow> set (al_attributes l) \<subseteq> set (al_owned l) \<union> dom fixed" for k l
      using store_okD(6)[OF ok] that by (auto simp: empty_list_def split: if_splits)
  qed auto
  moreover have "env_of ?s = (env_of s)(m \<mapsto> [], n \<mapsto> list_value s that)"
    by (auto simp: fun_eq_iff env_of_def)
  moreover have "move_construct n m s = (Inr (), ?s)"
    using that by (simp add: move_construct_def act_simps get_var_def set_var_def)
  ultimately show ?thesis
    by blast
qed

lemma destroy_ok:
  assumes "store_ok fixed s" and "vars s n = Some l"
  shows "\<exists>s'. destroy n s = (Inr (), s') \<and> store_ok fixed s' \<and> env_of s' = (env_of s)(n := None)"
proof -
  from clear_list_ok[OF assms] obtain s1 where s1: "store_ok fixed s1" "vars s1 = (vars s)(n \<mapsto> empty_list)"
    "env_of s1 = (env_of s)(n \<mapsto> [])" "delete_cells (al_owned l) s = (Inr (), s1\<lparr>vars := vars s\<rparr>)"
    by blast
  let ?s = "s1\<lparr>vars := (vars s)(n := None)\<rparr>"
  have own: "owned_by ?s k = owned_by s1 k" for k
    using s1(2) by (simp add: owned_by_def empty_list_def)
  have "store_ok fixed ?s"
  proof (rule rearrange_ok[OF s1(1), where f = "\<lambda>k. k"])
    show "vars ?s k = Some l' \<Longrightarrow> set (al_attributes l') \<subseteq> set (al_owned l') \<union> dom fixed" for k l'
      using store_okD(6)[OF s1(1), of k l'] s1(2) by (auto split: if_splits)
  qed (use own in auto)
  moreover have "env_of ?s = (env_of s)(n := None)"
  proof
    fix k
    from s1(3) have "env_of s1 k = ((env_of s)(n \<mapsto> [])) k"
      by simp
    then show "env_of ?s k = ((env_of s)(n := None)) k"
      using s1(2) by (cases "k = n") (simp_all add: env_of_def)
  qed
  moreover have "destroy n s = (Inr (), ?s)"
    using assms(2) s1(4) by (simp add: destroy_def act_simps get_var_def)
  ultimately show ?thesis
    by blast
qed

lemma insert_position:
  assumes "cells s p = Some a" and "k = length (takeWhile (\<lambda>x. \<not> attrid_less a x) (list_value s l))"
  shows "map (\<lambda>q. the (cells s q)) (take k (al_attributes l) @ p # drop k (al_attributes l)) = attr_insert a (list_value s l)"
proof -
  have "attr_insert a (list_value s l) = take k (list_value s l) @ a # drop k (list_value s l)"
    unfolding attr_insert_def assms(2) takeWhile_eq_take[symmetric] dropWhile_eq_drop[symmetric] ..
  then show ?thesis
    using assms(1) by (simp add: list_value_def take_map drop_map)
qed

lemma insert_pointer_eq:
  assumes "vars s n = Some l" and "set (al_attributes l) \<subseteq> dom (cells s)" and "cells s p = Some a"
  shows "\<exists>k. insert_pointer n p b s = (Inr (), s\<lparr>vars := (vars s)(n \<mapsto>
      \<lparr>al_attributes = take k (al_attributes l) @ p # drop k (al_attributes l),
       al_owned = (if b then al_owned l @ [p] else al_owned l)\<rparr>)\<rparr>)
    \<and> map (\<lambda>q. the (cells s q)) (take k (al_attributes l) @ p # drop k (al_attributes l)) = attr_insert a (list_value s l)"
proof -
  let ?k = "length (takeWhile (\<lambda>x. \<not> attrid_less a x) (list_value s l))"
  have "read_cells (al_attributes l) s = (Inr (list_value s l), s)"
    using read_cells_ok[OF assms(2)] by (simp add: list_value_def)
  with assms have "insert_pointer n p b s = (Inr (), s\<lparr>vars := (vars s)(n \<mapsto>
      \<lparr>al_attributes = take ?k (al_attributes l) @ p # drop ?k (al_attributes l),
       al_owned = (if b then al_owned l @ [p] else al_owned l)\<rparr>)\<rparr>)"
    by (simp add: insert_pointer_def act_simps get_var_def read_cell_def set_var_def Let_def)
  with insert_position[OF assms(3) refl] show ?thesis
    by blast
qed

lemma set_take_drop: "set (take k xs @ p # drop k xs) = insert p (set xs)"
  by (metis append_take_drop_id insert_commute list.simps(15) set_append Un_insert_right)

lemma insert_ref_ok:
  assumes ok: "store_ok fixed s" and l: "vars s n = Some l" and p: "fixed p = Some a"
  shows "\<exists>s'. insert_ref n p s = (Inr (), s') \<and> store_ok fixed s' \<and> env_of s' = (env_of s)(n \<mapsto> attr_insert a (list_value s l))"
proof -
  have pa: "cells s p = Some a"
    using store_okD(1)[OF ok] p by (auto simp: map_le_def dest: bspec)
  from insert_pointer_eq[OF l attributes_live[OF ok l] pa, of False] obtain k where
    run: "insert_ref n p s = (Inr (), s\<lparr>vars := (vars s)(n \<mapsto>
      \<lparr>al_attributes = take k (al_attributes l) @ p # drop k (al_attributes l), al_owned = al_owned l\<rparr>)\<rparr>)" (is "_ = (_, ?s)")
    and v: "map (\<lambda>q. the (cells s q)) (take k (al_attributes l) @ p # drop k (al_attributes l)) = attr_insert a (list_value s l)"
    unfolding insert_ref_def by auto
  have "store_ok fixed ?s \<and> env_of ?s = (env_of s)(n \<mapsto> map (\<lambda>q. the (cells ?s q)) (take k (al_attributes l) @ p # drop k (al_attributes l)))"
  proof (rule extend_list_ok[OF ok, where qs = "[]"])
    show "set (take k (al_attributes l) @ p # drop k (al_attributes l)) \<subseteq> set (owned_by s n) \<union> set [] \<union> dom fixed"
      unfolding set_take_drop using store_okD(6)[OF ok l] l p by auto
  qed (use store_okD(7)[OF ok] l in auto)
  with run v show ?thesis
    by simp
qed

lemma insert_owned_ok:
  assumes ok: "store_ok fixed s" and l: "vars s n = Some l"
  shows "\<exists>s'. insert_owned n a s = (Inr (), s') \<and> store_ok fixed s' \<and> env_of s' = (env_of s)(n \<mapsto> attr_insert a (list_value s l))
    \<and> cells s' = (cells s)(next_cell s \<mapsto> a) \<and> next_cell s' = next_cell s + 1"
proof -
  let ?p = "next_cell s"
  let ?s1 = "s\<lparr>cells := (cells s)(?p \<mapsto> a), next_cell := ?p + 1\<rparr>"
  have fresh: "?p \<notin> dom (cells s)"
    using bspec[OF store_okD(7)[OF ok], of ?p] by auto
  have live: "set (al_attributes l) \<subseteq> dom (cells ?s1)"
    using attributes_live[OF ok l] by auto
  have same: "list_value ?s1 l = list_value s l"
    using attributes_live[OF ok l] fresh by (auto simp: list_value_def)
  from insert_pointer_eq[of ?s1 n l ?p a True] l live obtain k where
    run: "insert_owned n a s = (Inr (), ?s1\<lparr>vars := (vars s)(n \<mapsto>
      \<lparr>al_attributes = take k (al_attributes l) @ ?p # drop k (al_attributes l), al_owned = al_owned l @ [?p]\<rparr>)\<rparr>)" (is "_ = (_, ?s)")
    and v: "map (\<lambda>q. the (cells ?s1 q)) (take k (al_attributes l) @ ?p # drop k (al_attributes l)) = attr_insert a (list_value s l)"
    unfolding insert_owned_def new_cell_def bindS_def same[symmetric] by auto
  have "store_ok fixed ?s \<and> env_of ?s = (env_of s)(n \<mapsto> map (\<lambda>q. the (cells ?s q)) (take k (al_attributes l) @ ?p # drop k (al_attributes l)))"
  proof (rule extend_list_ok[OF ok, where qs = "[?p]"])
    show "set (take k (al_attributes l) @ ?p # drop k (al_attributes l)) \<subseteq> set (owned_by s n) \<union> set [?p] \<union> dom fixed"
      unfolding set_take_drop using store_okD(6)[OF ok l] l by auto
    show "cells s \<subseteq>\<^sub>m cells ?s"
      using fresh by (auto simp: map_le_def)
    show "\<forall>p \<in> dom (cells ?s). p < next_cell ?s"
      using store_okD(7)[OF ok] by (auto simp: less_Suc_eq)
    show "set [?p] \<inter> dom (cells s) = {}"
      using fresh by simp
  qed (use l in auto)
  with run v show ?thesis
    by simp
qed

lemma new_ok:
  assumes "store_ok fixed s" and "vars s n = None"
  shows "store_ok fixed (s\<lparr>vars := (vars s)(n \<mapsto> empty_list)\<rparr>) \<and> env_of (s\<lparr>vars := (vars s)(n \<mapsto> empty_list)\<rparr>) = (env_of s)(n \<mapsto> [])"
proof -
  have "store_ok fixed (s\<lparr>vars := (vars s)(n \<mapsto> empty_list)\<rparr>)"
  proof (rule rearrange_ok[OF assms(1), where f = "\<lambda>k. k"])
    show "vars (s\<lparr>vars := (vars s)(n \<mapsto> empty_list)\<rparr>) k = Some l \<Longrightarrow> set (al_attributes l) \<subseteq> set (al_owned l) \<union> dom fixed" for k l
      using store_okD(6)[OF assms(1)] by (auto simp: empty_list_def split: if_splits)
  qed (use assms(2) in \<open>auto simp: owned_by_def empty_list_def\<close>)
  then show ?thesis
    by (auto simp: env_of_def fun_eq_iff)
qed

lemma owned_by_None: "vars s n = None \<Longrightarrow> owned_by s n = []" "vars s n = Some empty_list \<Longrightarrow> owned_by s n = []"
  by (simp_all add: owned_by_def empty_list_def)

text \<open>
  Each operation on the store is the operation on values.
\<close>

lemma run_op_ok:
  assumes ok: "store_ok fixed s" and op: "value_op fixed x (env_of s) = Some env"
  shows "\<exists>s'. run_op x s = (Inr (), s') \<and> store_ok fixed s' \<and> env_of s' = env"
proof (cases x)
  case (New n)
  with op new_ok[OF ok, of n] show ?thesis
    by (auto simp: env_of_None set_var_def modifyS_def split: if_splits)
next
  case (Copy_New n m)
  with op copy_construct_ok[OF ok, of m _ n] owned_by_None(1) show ?thesis
    by (auto simp: env_of_None env_of_Some split: if_splits)
next
  case (Move_New n m)
  with op obtain l where "vars s m = Some l" "vars s n = None" "env = (env_of s)(m \<mapsto> [], n \<mapsto> list_value s l)"
    by (auto simp: env_of_None env_of_Some split: if_splits)
  moreover from this have "n \<noteq> m"
    by auto
  ultimately show ?thesis
    using Move_New move_construct_ok[OF ok, of m l n] owned_by_None(1) by simp
next
  case (Insert_Owned n a)
  with op obtain l where "vars s n = Some l" "env = (env_of s)(n \<mapsto> attr_insert a (list_value s l))"
    by (auto simp: env_of_Some)
  with insert_owned_ok[OF ok, of n l a] Insert_Owned show ?thesis
    by auto
next
  case (Insert_Ref n p)
  with op insert_ref_ok[OF ok] show ?thesis
    by (auto simp: env_of_Some bind_eq_Some_conv)
next
  case (Destroy n)
  with op destroy_ok[OF ok] show ?thesis
    by (auto simp: env_of_None split: if_splits)
next
  case (Copy_Assign n m)
  with op obtain l l' where l: "vars s n = Some l" "vars s m = Some l'" and env: "env = (env_of s)(n \<mapsto> list_value s l')"
    by (auto simp: env_of_None env_of_Some split: if_splits)
  show ?thesis
  proof (cases "n = m")
    case True
    with l env have "env = env_of s"
      by (auto simp: env_of_def)
    with True Copy_Assign ok show ?thesis
      by (simp add: copy_assign_def returnS_def)
  next
    case False
    from clear_list_ok[OF ok l(1)] obtain s1 where s1: "clear_list n s = (Inr (), s1)" "store_ok fixed s1"
      "vars s1 = (vars s)(n \<mapsto> empty_list)" "env_of s1 = (env_of s)(n \<mapsto> [])"
      by blast
    have that: "vars s1 m = Some l'"
      using s1(3) l False by simp
    moreover have "list_value s1 l' = list_value s l'"
      using fun_cong[OF s1(4), of m] that l False by (simp add: env_of_def)
    moreover have "owned_by s1 n = []"
      using s1(3) owned_by_None(2) by simp
    ultimately show ?thesis
      using copy_construct_ok[OF s1(2) that, of n] Copy_Assign False s1(1,4) env
      by (auto simp: copy_assign_def seqS_def bindS_def)
  qed
next
  case (Move_Assign n m)
  with op obtain l l' where l: "vars s n = Some l" "vars s m = Some l'"
    and env: "env = (if n = m then env_of s else (env_of s)(m \<mapsto> [], n \<mapsto> list_value s l'))"
    by (auto simp: env_of_None env_of_Some split: if_splits)
  show ?thesis
  proof (cases "n = m")
    case True
    with env Move_Assign ok show ?thesis
      by (simp add: move_assign_def returnS_def)
  next
    case False
    from clear_list_ok[OF ok l(1)] obtain s1 where s1: "clear_list n s = (Inr (), s1)" "store_ok fixed s1"
      "vars s1 = (vars s)(n \<mapsto> empty_list)" "env_of s1 = (env_of s)(n \<mapsto> [])"
      by blast
    have that: "vars s1 m = Some l'"
      using s1(3) l False by simp
    moreover have "list_value s1 l' = list_value s l'"
      using fun_cong[OF s1(4), of m] that l False by (simp add: env_of_def)
    moreover have "owned_by s1 n = []"
      using s1(3) owned_by_None(2) by simp
    moreover have "(env_of s)(n \<mapsto> [], m \<mapsto> [], n \<mapsto> list_value s l') = (env_of s)(m \<mapsto> [], n \<mapsto> list_value s l')"
      using False by (simp add: fun_upd_twist)
    ultimately show ?thesis
      using move_construct_ok[OF s1(2) that _ False] Move_Assign False s1(1,4) env
      by (auto simp: move_assign_def seqS_def bindS_def)
  qed
qed

lemma run_ops_ok:
  "store_ok fixed s \<Longrightarrow> value_ops fixed xs (env_of s) = Some env \<Longrightarrow>
     \<exists>s'. run_ops xs s = (Inr (), s') \<and> store_ok fixed s' \<and> env_of s' = env"
proof (induction xs arbitrary: s)
  case (Cons x xs)
  from Cons.prems(2) obtain env1 where v: "value_op fixed x (env_of s) = Some env1" "value_ops fixed xs env1 = Some env"
    by (auto simp: bind_eq_Some_conv)
  from run_op_ok[OF Cons.prems(1) v(1)] obtain s1 where "run_op x s = (Inr (), s1)" "store_ok fixed s1" "env_of s1 = env1"
    by blast
  with Cons.IH v(2) show ?case
    by (auto simp: seqS_def bindS_def)
qed (simp add: returnS_def)

section \<open>Properties\<close>

text \<open>
  The caller's attributes are in the store from the start, at the first addresses.
\<close>

definition start_store :: "attribute list \<Rightarrow> attr_store" where
  "start_store as = \<lparr>cells = map_of (enumerate 0 as), next_cell = length as, vars = Map.empty\<rparr>"

lemma start_store_ok: "store_ok (map_of (enumerate 0 as)) (start_store as) \<and> env_of (start_store as) = Map.empty"
  by (auto simp: store_ok_def start_store_def owned_by_def env_of_def dom_map_of_conv_image_fst enumerate_eq_zip
      dest!: set_zip_leftD map_of_SomeD)

text \<open>
  C37: attribute lists behave as values. Whatever sequence of constructions, copies, moves,
  assignments (also of a list to itself), insertions with and without ownership and destructions a
  program makes, each variable has the list that the same operations on values give it; no attribute is
  deleted twice or used after it was deleted; and once all lists are destroyed, every attribute they
  made is deleted and those of the caller are as they were.
\<close>

theorem attribute_lists_are_values:
  assumes "value_ops (map_of (enumerate 0 as)) xs Map.empty = Some env"
  shows "\<exists>s. run_ops xs (start_store as) = (Inr (), s) \<and> env_of s = env
    \<and> (env = Map.empty \<longrightarrow> cells s = cells (start_store as))"
proof -
  let ?fixed = "map_of (enumerate 0 as)"
  from run_ops_ok[of ?fixed "start_store as" xs env] start_store_ok[of as] assms obtain s
    where s: "run_ops xs (start_store as) = (Inr (), s)" "store_ok ?fixed s" "env_of s = env"
    by auto
  have "cells s = ?fixed" if "env = Map.empty"
  proof -
    have "owned_by s n = []" for n
      using fun_cong[OF s(3), of n] that owned_by_None(1) by (auto simp: env_of_None[symmetric])
    then have "p \<in> dom (cells s) \<longleftrightarrow> p \<in> dom ?fixed" for p
      using store_okD(2)[OF s(2), of p] by (metis empty_iff list.set(1))
    then have "dom (cells s) = dom ?fixed"
      by blast
    with store_okD(1)[OF s(2)] show ?thesis
      by (simp add: map_le_antisym map_le_def)
  qed
  with s show ?thesis
    by (auto simp: start_store_def)
qed

theorem attribute_lists_are_values_witness:
  "\<exists>s. run_ops [New 0, Insert_Owned 0 (Boolean 5 True), Insert_Ref 0 0, Copy_New 1 0, Copy_Assign 1 1, New 2,
      Move_Assign 2 0, Copy_Assign 0 2, Destroy 1, Destroy 2, Destroy 0] (start_store [Boolean 4 False]) = (Inr (), s)
    \<and> env_of s = Map.empty \<and> (Map.empty = (Map.empty :: list_env) \<longrightarrow> cells s = cells (start_store [Boolean 4 False]))"
  by (rule attribute_lists_are_values) (simp add: enumerate_eq_zip fun_eq_iff)

text \<open>
  An attribute list whose reading fails is never destroyed, and the attributes read before the error
  stay in the store for good.
\<close>

lemma parse_into_leak:
  "store_ok fixed s \<Longrightarrow> vars s n = Some l \<Longrightarrow>
     \<exists>s'. parse_into (map Inr as @ [Inl e]) n s = (Inl e, s') \<and> vars s' n = None
       \<and> dom (cells s') = dom (cells s) \<union> {next_cell s..<next_cell s + length as}"
proof (induction as arbitrary: s l)
  case Nil
  then show ?case
    by (simp add: act_simps)
next
  case (Cons a as)
  from insert_owned_ok[OF Cons.prems, of a] obtain s1 where s1: "insert_owned n a s = (Inr (), s1)" "store_ok fixed s1"
    "env_of s1 = (env_of s)(n \<mapsto> attr_insert a (list_value s l))" "cells s1 = (cells s)(next_cell s \<mapsto> a)"
    "next_cell s1 = next_cell s + 1"
    by blast
  obtain l1 where "vars s1 n = Some l1"
    using fun_cong[OF s1(3), of n] by (auto simp: env_of_def)
  from Cons.IH[OF s1(2) this] obtain s' where s': "parse_into (map Inr as @ [Inl e]) n s1 = (Inl e, s')" "vars s' n = None"
    "dom (cells s') = dom (cells s1) \<union> {next_cell s1..<next_cell s1 + length as}"
    by blast
  have "dom (cells s') = dom (cells s) \<union> {next_cell s..<next_cell s + length (a # as)}"
    unfolding s'(3) s1(4,5) by auto
  with s' s1(1) show ?case
    by (simp add: seqS_def bindS_def)
qed

lemma parse_leak:
  assumes "store_ok fixed s" and "vars s n = None"
  shows "\<exists>s'. parse_construct n (map Inr as @ [Inl e]) s = (Inl e, s') \<and> vars s' n = None
    \<and> dom (cells s') = dom (cells s) \<union> {next_cell s..<next_cell s + length as}"
  using parse_into_leak[OF conjunct1[OF new_ok[OF assms]], of n empty_list as e]
  by (simp add: parse_construct_def act_simps set_var_def)

end
