(* ===== verification/Descriptor.thy ===== *)
theory Descriptor
  imports File_Descriptor
begin

text \<open>
  The rest of \<^verbatim>\<open>horace/file_descriptor.h\<close>, \<^verbatim>\<open>file_descriptor.cc\<close> and \<^verbatim>\<open>socket_descriptor.cc\<close>: the
  operations that are one call of the system, accepting and connecting, and the ownership of
  descriptors by objects that can be moved but not copied. The lemmas say that no descriptor is
  closed twice, closed while another object has it, or left open.
\<close>

unbundle bit_operations_syntax

section \<open>Calls that succeed or fail\<close>

text \<open>
  \<open>Some e\<close> is a return of -1 with that \<^verbatim>\<open>errno\<close>.
\<close>

definition checked_call :: "nat option \<Rightarrow> unit result" where
  "checked_call r = (case r of None \<Rightarrow> Inr () | Some e \<Rightarrow> Inl (Libc_Error e))"

definition fd_fsync :: "nat option \<Rightarrow> unit result" where "fd_fsync = checked_call"
definition fd_unlock :: "nat option \<Rightarrow> unit result" where "fd_unlock = checked_call"
definition socket_bind :: "nat option \<Rightarrow> unit result" where "socket_bind = checked_call"
definition socket_listen :: "nat option \<Rightarrow> unit result" where "socket_listen = checked_call"
definition socket_shutdown :: "nat option \<Rightarrow> unit result" where "socket_shutdown = checked_call"
definition socket_setsockopt :: "nat option \<Rightarrow> unit result" where "socket_setsockopt = checked_call"

definition socket_getsockopt :: "nat + 'a \<Rightarrow> 'a result" where
  "socket_getsockopt r = (case r of Inl e \<Rightarrow> Inl (Libc_Error e) | Inr v \<Rightarrow> Inr v)"

text \<open>
  What is thrown after \<^verbatim>\<open>POLLERR\<close>: the error that the socket has, or the one of asking for it.
\<close>

definition handle_pollerror :: "nat + nat \<Rightarrow> unit result" where
  "handle_pollerror so_error = bindE (socket_getsockopt so_error) (\<lambda>e. Inl (Libc_Error e))"

text \<open>
  The flag that makes calls return instead of blocking; \<open>getfl\<close> is \<open>None\<close> for an error with \<^verbatim>\<open>errno\<close> \<open>e\<close>.
\<close>

definition O_NONBLOCK :: i32 where "O_NONBLOCK = 0x800"

definition is_interruptible :: "i32 \<Rightarrow> bool" where
  "is_interruptible flags \<longleftrightarrow> flags AND O_NONBLOCK \<noteq> 0"

definition set_interruptible :: "nat \<Rightarrow> bool \<Rightarrow> i32 \<Rightarrow> (i32 \<Rightarrow> nat option) \<Rightarrow> i32 result" where
  "set_interruptible e enable flags setfl =
     (if flags = - 1 then Inl (Libc_Error e)
      else
        let flags' = (if enable then flags OR O_NONBLOCK else flags AND NOT O_NONBLOCK) in
        case setfl flags' of None \<Rightarrow> Inr flags' | Some e' \<Rightarrow> Inl (Libc_Error e'))"

lemma bit_nonblock: "bit O_NONBLOCK n \<longleftrightarrow> n = 11"
proof -
  have "O_NONBLOCK = 2 ^ 11"
    by (simp add: O_NONBLOCK_def)
  then have "bit O_NONBLOCK n \<longleftrightarrow> bit (2 ^ 11 :: i32) n"
    by (rule arg_cong)
  also have "\<dots> \<longleftrightarrow> n = 11"
    unfolding bit_exp_iff by auto
  finally show ?thesis .
qed

lemma set_interruptible_flags:
  assumes "set_interruptible e enable flags setfl = Inr flags'"
  shows "is_interruptible flags' = enable" and "n \<noteq> 11 \<Longrightarrow> bit flags' n = bit flags n"
proof -
  from assms have f: "flags' = (if enable then flags OR O_NONBLOCK else flags AND NOT O_NONBLOCK)"
    by (auto simp: set_interruptible_def Let_def split: if_splits option.splits)
  have "is_interruptible w \<longleftrightarrow> bit w 11" for w
    unfolding is_interruptible_def bit_eq_iff[of "w AND O_NONBLOCK" 0] by (auto simp: bit_and_iff bit_nonblock)
  then show "is_interruptible flags' = enable"
    by (simp add: f bit_or_iff bit_and_iff bit_not_iff bit_nonblock)
  show "n \<noteq> 11 \<Longrightarrow> bit flags' n = bit flags n"
    by (auto simp: f bit_or_iff bit_and_iff bit_not_iff bit_nonblock dest: bit_imp_le_length)
qed

section \<open>Polling, accepting and connecting\<close>

text \<open>
  \<^verbatim>\<open>ready\<close> asks without waiting, again if a signal interrupts it. \<open>Sys_Count\<close> answers \<^verbatim>\<open>accept\<close> with the new
  descriptor.
\<close>

fun fd_ready :: "nat \<Rightarrow> trace \<Rightarrow> (nat result \<times> trace) option" where
  "fd_ready events (Sys_Fail e # es) =
     (if e \<noteq> EINTR then Some (Inl (Libc_Error e), es) else fd_ready events es)"
| "fd_ready events (Sys_Poll m term revents # es) =
     (if m \<noteq> events then None else Some (Inr revents, es))"
| "fd_ready events _ = None"

function socket_accept :: "nat \<Rightarrow> trace \<Rightarrow> (nat result \<times> trace) option" where
  "socket_accept so es =
     (case es of
        Sys_Count fd # es1 \<Rightarrow> Some (Inr fd, es1)
      | Sys_Fail e # es1 \<Rightarrow>
          (if e = EWOULDBLOCK \<or> e = EAGAIN
           then (case fd_wait (Some so) POLLIN es1 of
                   None \<Rightarrow> None
                 | Some (Inl x, es2) \<Rightarrow> Some (Inl x, es2)
                 | Some (Inr _, es2) \<Rightarrow> socket_accept so es2)
           else Some (Inl (Libc_Error e), es1))
      | _ \<Rightarrow> None)"
  by pat_completeness auto
termination
  by (relation "measure (\<lambda>(so, es). length es)") (auto dest: fd_wait_shrinks)

declare socket_accept.simps [simp del]

definition EINPROGRESS :: nat where "EINPROGRESS = 115"

text \<open>
  Connecting waits once; whether the connection was made is known only from \<^verbatim>\<open>POLLERR\<close>. \<open>Sys_Count\<close> is success.
\<close>

definition socket_connect :: "nat \<Rightarrow> trace \<Rightarrow> (unit result \<times> trace) option" where
  "socket_connect so es =
     (case es of
        Sys_Count _ # es1 \<Rightarrow> Some (Inr (), es1)
      | Sys_Fail e # es1 \<Rightarrow>
          (if e = EINPROGRESS
           then (case fd_wait (Some so) POLLOUT es1 of
                   None \<Rightarrow> None
                 | Some (Inl x, es2) \<Rightarrow> Some (Inl x, es2)
                 | Some (Inr _, es2) \<Rightarrow> Some (Inr (), es2))
           else Some (Inl (Libc_Error e), es1))
      | _ \<Rightarrow> None)"

lemma socket_connect_refused:
  assumes "revents AND POLLERR \<noteq> 0"
  shows "socket_connect so (Sys_Fail EINPROGRESS # Sys_Poll POLLOUT False revents # es) = Some (Inl (Libc_Error so), es)"
  using assms by (simp add: socket_connect_def fd_wait_def)

lemma socket_accept_retries:
  assumes "revents AND POLLERR = 0"
  shows "socket_accept so (concat (replicate n [Sys_Fail EAGAIN, Sys_Poll POLLIN False revents]) @ Sys_Count fd # es) = Some (Inr fd, es)"
proof (induction n)
  case 0
  show ?case
    by (simp add: socket_accept.simps)
next
  case (Suc n)
  then show ?case
    using assms by (subst socket_accept.simps) (simp add: fd_wait_def errno_constants)
qed

section \<open>Ownership\<close>

text \<open>
  \<open>open_fds\<close> are the descriptors that are open, \<open>fd_objects\<close> the raw descriptor in each object that
  exists, -1 if it has none. Closing a descriptor that is not open is undefined here: another part of
  the program may have it by then.
\<close>

record fd_state =
  open_fds :: "int set"
  fd_objects :: "nat \<rightharpoonup> int"

definition fd_state_init :: fd_state where
  "fd_state_init = \<lparr>open_fds = {}, fd_objects = Map.empty\<rparr>"

definition put_object :: "nat \<Rightarrow> int \<Rightarrow> fd_state \<Rightarrow> fd_state" where
  "put_object n fd s = s\<lparr>fd_objects := (fd_objects s)(n \<mapsto> fd)\<rparr>"

definition fd_default :: "nat \<Rightarrow> (fd_state, unit) act" where
  "fd_default n = modifyS (put_object n (- 1))"

text \<open>
  The constructor that opens a file, and that of a socket: \<open>r\<close> is the new descriptor or the error.
\<close>

definition fd_open :: "nat \<Rightarrow> nat + int \<Rightarrow> (fd_state, unit) act" where
  "fd_open n r =
     (case r of
        Inl e \<Rightarrow> throwS (Libc_Error e)
      | Inr fd \<Rightarrow> modifyS (\<lambda>s. put_object n fd (s\<lparr>open_fds := insert fd (open_fds s)\<rparr>)))"

definition fd_of :: "nat \<Rightarrow> (fd_state, int) act" where
  "fd_of n s = (case fd_objects s n of
      None \<Rightarrow> (Inl (Undefined_Behaviour ''no such object''), s)
    | Some fd \<Rightarrow> (Inr fd, s))"

definition fd_move_construct :: "nat \<Rightarrow> nat \<Rightarrow> (fd_state, unit) act" where
  "fd_move_construct n m = bindS (fd_of m) (\<lambda>fd. modifyS (\<lambda>s. put_object m (- 1) (put_object n fd s)))"

definition fd_move_assign :: "nat \<Rightarrow> nat \<Rightarrow> (fd_state, unit) act" where
  "fd_move_assign n m = bindS (fd_of n) (\<lambda>fd. bindS (fd_of m) (\<lambda>fd'. modifyS (\<lambda>s. put_object m fd (put_object n fd' s))))"

definition fd_destroy :: "nat \<Rightarrow> (fd_state, unit) act" where
  "fd_destroy n =
     bindS (fd_of n) (\<lambda>fd s.
       if fd \<noteq> - 1 \<and> fd \<notin> open_fds s then (Inl (Undefined_Behaviour ''descriptor closed twice''), s)
       else (Inr (), s\<lparr>open_fds := open_fds s - {fd}, fd_objects := (fd_objects s)(n := None)\<rparr>))"

datatype fd_op =
    Fd_Default nat
  | Fd_Open nat "nat + int"
  | Fd_Move_New nat nat
  | Fd_Move_Assign nat nat
  | Fd_Destroy nat

fun run_fd_op :: "fd_op \<Rightarrow> (fd_state, unit) act" where
  "run_fd_op (Fd_Default n) = fd_default n"
| "run_fd_op (Fd_Open n r) = fd_open n r"
| "run_fd_op (Fd_Move_New n m) = fd_move_construct n m"
| "run_fd_op (Fd_Move_Assign n m) = fd_move_assign n m"
| "run_fd_op (Fd_Destroy n) = fd_destroy n"

text \<open>
  A program makes objects that do not exist yet and uses those that do, and the system gives a descriptor
  that is not open.
\<close>

fun fd_op_ok :: "fd_op \<Rightarrow> fd_state \<Rightarrow> bool" where
  "fd_op_ok (Fd_Default n) s \<longleftrightarrow> fd_objects s n = None"
| "fd_op_ok (Fd_Open n r) s \<longleftrightarrow> fd_objects s n = None \<and> (case r of Inl e \<Rightarrow> True | Inr fd \<Rightarrow> 0 \<le> fd \<and> fd \<notin> open_fds s)"
| "fd_op_ok (Fd_Move_New n m) s \<longleftrightarrow> fd_objects s n = None \<and> fd_objects s m \<noteq> None"
| "fd_op_ok (Fd_Move_Assign n m) s \<longleftrightarrow> fd_objects s n \<noteq> None \<and> fd_objects s m \<noteq> None"
| "fd_op_ok (Fd_Destroy n) s \<longleftrightarrow> fd_objects s n \<noteq> None"

inductive fd_reachable :: "fd_state \<Rightarrow> bool" where
  fd_start: "fd_reachable fd_state_init"
| fd_step: "fd_reachable s \<Longrightarrow> fd_op_ok x s \<Longrightarrow> fd_reachable (snd (run_fd_op x s))"

text \<open>
  Every open descriptor is that of exactly one object.
\<close>

definition fd_owned :: "fd_state \<Rightarrow> bool" where
  "fd_owned s \<longleftrightarrow>
     (\<forall>fd. fd \<in> open_fds s \<longleftrightarrow> fd \<noteq> - 1 \<and> (\<exists>n. fd_objects s n = Some fd))
     \<and> (\<forall>n m fd. fd_objects s n = Some fd \<longrightarrow> fd_objects s m = Some fd \<longrightarrow> fd \<noteq> - 1 \<longrightarrow> n = m)"

lemma fd_ownedD:
  assumes "fd_owned s"
  shows "fd \<in> open_fds s \<longleftrightarrow> fd \<noteq> - 1 \<and> (\<exists>n. fd_objects s n = Some fd)"
    and "fd_objects s n = Some fd \<Longrightarrow> fd_objects s m = Some fd \<Longrightarrow> fd \<noteq> - 1 \<Longrightarrow> n = m"
  using assms unfolding fd_owned_def by blast+

lemma put_object_simps [simp]:
  "open_fds (put_object n fd s) = open_fds s" "fd_objects (put_object n fd s) = (fd_objects s)(n \<mapsto> fd)"
  by (simp_all add: put_object_def)

lemma run_fd_op_owned:
  assumes own: "fd_owned s" and ok: "fd_op_ok x s"
  shows "fd_owned (snd (run_fd_op x s)) \<and> (fst (run_fd_op x s) = Inr () \<or> (\<exists>e. fst (run_fd_op x s) = Inl (Libc_Error e)))"
proof (cases x)
  case (Fd_Default n)
  with ok own show ?thesis
    unfolding fd_owned_def by (auto simp: fd_default_def modifyS_def) (metis option.distinct(1))
next
  case (Fd_Open n r)
  show ?thesis
  proof (cases r)
    case (Inl e)
    with Fd_Open own show ?thesis
      by (simp add: fd_open_def throwS_def)
  next
    case (Inr fd)
    with Fd_Open ok own show ?thesis
      unfolding fd_owned_def by (auto simp: fd_open_def modifyS_def) (metis option.distinct(1))
  qed
next
  case (Fd_Move_New n m)
  then obtain fd where fd: "fd_objects s m = Some fd" "fd_objects s n = None" "n \<noteq> m"
    using ok by (cases "n = m") auto
  with Fd_Move_New own show ?thesis
    unfolding fd_owned_def by (auto simp: fd_move_construct_def fd_of_def act_simps)
      (metis option.distinct(1) option.inject)
next
  case (Fd_Move_Assign n m)
  then obtain fd fd' where fd: "fd_objects s n = Some fd" "fd_objects s m = Some fd'"
    using ok by auto
  with Fd_Move_Assign own show ?thesis
    unfolding fd_owned_def by (auto simp: fd_move_assign_def fd_of_def act_simps split: if_splits)
      (metis option.inject)
next
  case (Fd_Destroy n)
  then obtain fd where fd: "fd_objects s n = Some fd"
    using ok by auto
  with own have live: "fd \<noteq> - 1 \<longrightarrow> fd \<in> open_fds s"
    using fd_ownedD(1)[OF own, of fd] by blast
  let ?s = "s\<lparr>open_fds := open_fds s - {fd}, fd_objects := (fd_objects s)(n := None)\<rparr>"
  have members: "f \<in> open_fds s \<and> f \<noteq> fd \<longleftrightarrow> f \<noteq> - 1 \<and> (\<exists>k. k \<noteq> n \<and> fd_objects s k = Some f)" for f
  proof
    assume f: "f \<in> open_fds s \<and> f \<noteq> fd"
    with fd_ownedD(1)[OF own, of f] obtain k where "f \<noteq> - 1" "fd_objects s k = Some f"
      by blast
    with f fd show "f \<noteq> - 1 \<and> (\<exists>k. k \<noteq> n \<and> fd_objects s k = Some f)"
      by (intro conjI exI[of _ k]) auto
  next
    assume "f \<noteq> - 1 \<and> (\<exists>k. k \<noteq> n \<and> fd_objects s k = Some f)"
    then obtain k where k: "f \<noteq> - 1" "k \<noteq> n" "fd_objects s k = Some f"
      by blast
    then have "f \<in> open_fds s"
      using fd_ownedD(1)[OF own, of f] by blast
    moreover have "f \<noteq> fd"
      using fd_ownedD(2)[OF own k(3) _ k(1), of n] fd k(2) by blast
    ultimately show "f \<in> open_fds s \<and> f \<noteq> fd"
      by blast
  qed
  have others: "(\<exists>k. ((fd_objects s)(n := None)) k = Some f) \<longleftrightarrow> (\<exists>k. k \<noteq> n \<and> fd_objects s k = Some f)" for f
    by (intro iff_exI) simp
  have "k = m" if "((fd_objects s)(n := None)) k = Some f" "((fd_objects s)(n := None)) m = Some f" "f \<noteq> - 1" for k m f
    using that(1,2) fd_ownedD(2)[OF own _ _ that(3), of k m] by (auto split: if_splits)
  then have inj: "\<forall>k m f. ((fd_objects s)(n := None)) k = Some f \<longrightarrow> ((fd_objects s)(n := None)) m = Some f \<longrightarrow> f \<noteq> - 1 \<longrightarrow> k = m"
    by blast
  have sel: "open_fds ?s = open_fds s - {fd}" "fd_objects ?s = (fd_objects s)(n := None)"
    by simp_all
  have "fd_owned ?s"
    unfolding fd_owned_def sel others using members inj by blast
  with Fd_Destroy fd live show ?thesis
    by (auto simp: fd_destroy_def fd_of_def bindS_def)
qed

lemma fd_reachable_owned: "fd_reachable s \<Longrightarrow> fd_owned s"
proof (induction rule: fd_reachable.induct)
  case fd_start
  show ?case
    by (simp add: fd_owned_def fd_state_init_def)
qed (use run_fd_op_owned in blast)

lemma descriptors_never_closed_twice:
  "fd_reachable s \<Longrightarrow> fd_op_ok x s \<Longrightarrow> fst (run_fd_op x s) = Inr () \<or> (\<exists>e. fst (run_fd_op x s) = Inl (Libc_Error e))"
  using run_fd_op_owned fd_reachable_owned by blast

lemma descriptors_not_leaked:
  assumes "fd_reachable s" and "fd_objects s = Map.empty"
  shows "open_fds s = {}"
  using fd_ownedD(1)[OF fd_reachable_owned[OF assms(1)]] assms(2) by auto

end
