(* ===== verification/Lockfile.thy ===== *)
theory Lockfile
  imports File_Descriptor
begin

text \<open>
  The lock on a filestore (\<^verbatim>\<open>horace/lockfile.cc\<close>): constructor and destructor of a lockfile as the
  system calls they make, each a step of its own since other processes run in between. The file
  behind the pathname is told apart from the pathname, because the destructor removes the latter.
  The lemmas say when the lock excludes, and that it does not always.
\<close>

section \<open>State\<close>

text \<open>
  What each of the processes that use the lockfile has: no object, a descriptor open on a file,
  the lock on it, or the object within its destructor after the lock was released. \<open>lf_path\<close> is the file
  that the pathname names, if it exists.
\<close>

datatype lock_object =
    No_Lockfile
  | File_Opened nat
  | Lock_Held nat
  | Lock_Released nat

record lock_state =
  lf_path :: "nat option"
  lf_next :: nat
  lf_objects :: "nat \<Rightarrow> lock_object"

definition lock_init :: lock_state where
  "lock_init = \<lparr>lf_path = None, lf_next = 0, lf_objects = (\<lambda>_. No_Lockfile)\<rparr>"

definition set_object :: "nat \<Rightarrow> lock_object \<Rightarrow> lock_state \<Rightarrow> lock_state" where
  "set_object p x s = s\<lparr>lf_objects := (lf_objects s)(p := x)\<rparr>"

definition locked :: "nat \<Rightarrow> lock_state \<Rightarrow> bool" where
  "locked i s \<longleftrightarrow> (\<exists>p. lf_objects s p = Lock_Held i)"

section \<open>Operations\<close>

text \<open>
  The constructor opens the file, which is created if the pathname does not exist, and tries to lock it. If the
  lock is held through another descriptor it throws, and the descriptor is closed.
\<close>

definition open_lockfile :: "nat \<Rightarrow> lock_state \<Rightarrow> lock_state" where
  "open_lockfile p s =
     (case lf_path s of
        Some i \<Rightarrow> set_object p (File_Opened i) s
      | None \<Rightarrow> set_object p (File_Opened (lf_next s)) (s\<lparr>lf_path := Some (lf_next s), lf_next := lf_next s + 1\<rparr>))"

definition try_lock :: "nat \<Rightarrow> nat \<Rightarrow> (lock_state, unit) act" where
  "try_lock p i s =
     (if locked i s then (Inl (Endpoint_Error ''filestore is locked for writing''), set_object p No_Lockfile s)
      else (Inr (), set_object p (Lock_Held i) s))"

text \<open>
  The destructor releases the lock and then removes the pathname, whatever it names by then; the
  descriptor is closed last.
\<close>

definition release_lock :: "nat \<Rightarrow> nat \<Rightarrow> lock_state \<Rightarrow> lock_state" where
  "release_lock p i s = set_object p (Lock_Released i) s"

definition remove_lockfile :: "nat \<Rightarrow> lock_state \<Rightarrow> lock_state" where
  "remove_lockfile p s = set_object p No_Lockfile (s\<lparr>lf_path := None\<rparr>)"

text \<open>
  A process may also end without running the destructor: then its descriptor is closed, which
  releases the lock.
\<close>

inductive lock_step :: "lock_state \<Rightarrow> lock_state \<Rightarrow> bool" where
  opens: "lf_objects s p = No_Lockfile \<Longrightarrow> lock_step s (open_lockfile p s)"
| locks: "lf_objects s p = File_Opened i \<Longrightarrow> lock_step s (snd (try_lock p i s))"
| releases: "lf_objects s p = Lock_Held i \<Longrightarrow> lock_step s (release_lock p i s)"
| removes: "lf_objects s p = Lock_Released i \<Longrightarrow> lock_step s (remove_lockfile p s)"
| ends: "lock_step s (set_object p No_Lockfile s)"

inductive lock_reachable :: "lock_state \<Rightarrow> bool" where
  start: "lock_reachable lock_init"
| step: "lock_reachable s \<Longrightarrow> lock_step s s' \<Longrightarrow> lock_reachable s'"

text \<open>
  The same, as long as the pathname is only removed while no other process has the file open.
\<close>

definition alone :: "nat \<Rightarrow> lock_state \<Rightarrow> bool" where
  "alone p s \<longleftrightarrow> (\<forall>q. q \<noteq> p \<longrightarrow> lf_objects s q = No_Lockfile)"

inductive calm_reachable :: "lock_state \<Rightarrow> bool" where
  calm_start: "calm_reachable lock_init"
| calm_opens: "calm_reachable s \<Longrightarrow> lf_objects s p = No_Lockfile \<Longrightarrow> calm_reachable (open_lockfile p s)"
| calm_locks: "calm_reachable s \<Longrightarrow> lf_objects s p = File_Opened i \<Longrightarrow> calm_reachable (snd (try_lock p i s))"
| calm_releases: "calm_reachable s \<Longrightarrow> lf_objects s p = Lock_Held i \<Longrightarrow> calm_reachable (release_lock p i s)"
| calm_removes: "calm_reachable s \<Longrightarrow> lf_objects s p = Lock_Released i \<Longrightarrow> alone p s \<Longrightarrow>
     calm_reachable (remove_lockfile p s)"
| calm_ends: "calm_reachable s \<Longrightarrow> calm_reachable (set_object p No_Lockfile s)"

inductive_cases lock_stepE: "lock_step s s'"

section \<open>Exclusion\<close>

lemma set_object_simps [simp]:
  "lf_objects (set_object p x s) = (lf_objects s)(p := x)" "lf_path (set_object p x s) = lf_path s"
  "lf_next (set_object p x s) = lf_next s"
  by (simp_all add: set_object_def)

text \<open>
  A file is never locked twice; and as long as no pathname is removed under an open file, all open files
  are the one that the pathname names.
\<close>

definition one_holder :: "lock_state \<Rightarrow> bool" where
  "one_holder s \<longleftrightarrow> (\<forall>p q i. lf_objects s p = Lock_Held i \<longrightarrow> lf_objects s q = Lock_Held i \<longrightarrow> p = q)"

fun file_of :: "lock_object \<Rightarrow> nat option" where
  "file_of No_Lockfile = None"
| "file_of (File_Opened i) = Some i"
| "file_of (Lock_Held i) = Some i"
| "file_of (Lock_Released i) = Some i"

definition same_file :: "lock_state \<Rightarrow> bool" where
  "same_file s \<longleftrightarrow> (\<forall>p. file_of (lf_objects s p) \<in> {None, lf_path s})"

lemma one_holder_step: "lock_step s s' \<Longrightarrow> one_holder s \<Longrightarrow> one_holder s'"
  unfolding one_holder_def
  by (erule lock_stepE) (auto simp: open_lockfile_def try_lock_def release_lock_def remove_lockfile_def locked_def
      split: option.splits if_splits)

lemma calm_step: "calm_reachable s \<Longrightarrow> lock_reachable s"
  by (induction rule: calm_reachable.induct) (blast intro: start step opens locks releases removes ends)+

lemma reachable_one_holder: "lock_reachable s \<Longrightarrow> one_holder s"
proof (induction rule: lock_reachable.induct)
  case (step s s')
  with one_holder_step show ?case
    by blast
qed (simp add: one_holder_def lock_init_def)

lemma calm_same_file: "calm_reachable s \<Longrightarrow> same_file s"
proof (induction rule: calm_reachable.induct)
  case (calm_locks s p i)
  then have "lf_path s = Some i"
    unfolding same_file_def by (metis empty_iff file_of.simps(2) insert_iff option.distinct(1))
  with calm_locks show ?case
    by (simp add: same_file_def try_lock_def)
next
  case (calm_releases s p i)
  then have "lf_path s = Some i"
    unfolding same_file_def by (metis empty_iff file_of.simps(3) insert_iff option.distinct(1))
  with calm_releases show ?case
    by (simp add: same_file_def release_lock_def)
next
  case (calm_opens s p)
  then show ?case
    by (cases "lf_path s") (simp_all add: same_file_def open_lockfile_def)
qed (simp_all add: same_file_def remove_lockfile_def alone_def lock_init_def)

section \<open>Properties\<close>

text \<open>
  C38: one process at a time holds the lock on a filestore, as long as no process is between the
  release of its lock and the removal of the pathname while another has the file open. This includes
  processes that end without running the destructor.
\<close>

theorem lock_excludes:
  assumes "calm_reachable s" and "lf_objects s p = Lock_Held i" and "lf_objects s q = Lock_Held j"
  shows "p = q"
proof -
  from calm_same_file[OF assms(1)] have "file_of (lf_objects s k) \<in> {None, lf_path s}" for k
    by (simp add: same_file_def)
  from this[of p] this[of q] assms(2,3) have "Some i = Some j"
    by auto
  then have "i = j"
    by simp
  with assms(2,3) reachable_one_holder[OF calm_step[OF assms(1)]] show ?thesis
    unfolding one_holder_def by blast
qed

definition sample_held :: lock_state where
  "sample_held = snd (try_lock 4 0 (open_lockfile 4 lock_init))"

theorem lock_excludes_witness: "(4::nat) = 4 \<and> lf_objects sample_held 4 = Lock_Held 0"
proof (intro conjI)
  have "calm_reachable sample_held"
    unfolding sample_held_def by (intro calm_locks calm_opens calm_start) (simp_all add: lock_init_def open_lockfile_def)
  moreover show h: "lf_objects sample_held 4 = Lock_Held 0"
    by (simp add: sample_held_def lock_init_def open_lockfile_def try_lock_def locked_def)
  ultimately show "(4::nat) = 4"
    by (intro lock_excludes)
qed

text \<open>
  Without that restriction two processes can hold the lock: one removes the pathname after another
  has locked the same file, and a third creates the file anew.
\<close>

lemma lock_race:
  "\<exists>s. lock_reachable s \<and> lf_objects s 2 = Lock_Held 0 \<and> lf_objects s 3 = Lock_Held 1"
proof -
  let ?s1 = "open_lockfile 1 lock_init"
  let ?s2 = "snd (try_lock 1 0 ?s1)"
  let ?s3 = "open_lockfile 2 ?s2"
  let ?s4 = "release_lock 1 0 ?s3"
  let ?s5 = "snd (try_lock 2 0 ?s4)"
  let ?s6 = "remove_lockfile 1 ?s5"
  let ?s7 = "open_lockfile 3 ?s6"
  let ?s8 = "snd (try_lock 3 1 ?s7)"
  note defs = lock_init_def open_lockfile_def try_lock_def release_lock_def remove_lockfile_def locked_def
  have "lock_reachable ?s2"
    by (intro step[OF step[OF start opens] locks]) (simp_all add: defs)
  then have "lock_reachable ?s4"
    by (intro step[OF step[OF _ opens] releases]) (simp_all add: defs)
  then have "lock_reachable ?s6"
    by (intro step[OF step[OF _ locks] removes]) (simp_all add: defs)
  then have "lock_reachable ?s8"
    by (intro step[OF step[OF _ opens] locks]) (simp_all add: defs)
  moreover have "lf_objects ?s8 2 = Lock_Held 0 \<and> lf_objects ?s8 3 = Lock_Held 1"
    by (simp add: defs)
  ultimately show ?thesis
    by blast
qed

end
