(* ===== verification/Keypair.thy ===== *)
theory Keypair
  imports Prelude
begin

text \<open>
  Key files: \<^verbatim>\<open>horace/keypair.cc\<close> and \<^verbatim>\<open>horace/ed25519_keypair.cc\<close> read what \<^verbatim>\<open>src/horace-genkey.cc\<close>
  writes. The generator of keys and the conversions to and from hexadecimal are functions of the
  cryptographic library and parameters here.
\<close>

section \<open>Reading\<close>

record keypair =
  kp_public :: octets
  kp_secret :: octets

text \<open>
  \<open>hex2bin\<close> is given the size of the buffer; it is \<open>None\<close> where the function reports an error.
\<close>

definition hex_field ::
  "(nat \<Rightarrow> string \<Rightarrow> octets option) \<Rightarrow> nat \<Rightarrow> string \<Rightarrow> string \<Rightarrow> octets result" where
  "hex_field hex2bin n name hex =
     (case hex2bin n hex of
        None \<Rightarrow> Inl (Runtime_Error (''malformed '' @ name))
      | Some bs \<Rightarrow> if length bs \<noteq> n then Inl (Runtime_Error (''undersized '' @ name)) else Inr bs)"

definition ed25519_keypair :: "(nat \<Rightarrow> string \<Rightarrow> octets option) \<Rightarrow> string \<Rightarrow> keypair result" where
  "ed25519_keypair hex2bin content =
     (case find_char (CHR '':'') content of
        None \<Rightarrow> Inl (Runtime_Error ''malformed keyfile'')
      | Some f1 \<Rightarrow>
          (case find_char (CHR '':'') (drop (f1 + 1) content) of
             None \<Rightarrow> Inl (Runtime_Error ''malformed keyfile'')
           | Some n \<Rightarrow>
               bindE (hex_field hex2bin 32 ''public key'' (take n (drop (f1 + 1) content))) (\<lambda>pk.
               bindE (hex_field hex2bin 64 ''private key'' (drop (f1 + 1 + n + 1) content)) (\<lambda>sk.
                 Inr \<lparr>kp_public = pk, kp_secret = sk\<rparr>))))"

definition ed25519_algorithm :: string where
  "ed25519_algorithm = ''ed25519''"

text \<open>
  A file that cannot be read gives an empty line.
\<close>

definition keypair_load :: "(nat \<Rightarrow> string \<Rightarrow> octets option) \<Rightarrow> string option \<Rightarrow> keypair result" where
  "keypair_load hex2bin file =
     (let line = (case file of None \<Rightarrow> [] | Some s \<Rightarrow> takeWhile (\<lambda>c. c \<noteq> CHR 0x0A) s) in
      case find_char (CHR '':'') line of
        None \<Rightarrow> Inl (Runtime_Error ''malformed keyfile'')
      | Some f \<Rightarrow>
          if take f line = ed25519_algorithm then ed25519_keypair hex2bin line
          else Inl (Runtime_Error ''unrecognised algorithm in keyfile''))"

section \<open>Writing\<close>

datatype genkey_result =
    Genkey_Help
  | Genkey_Exit nat string
  | Genkey_Output string

fun genkey_options :: "(char \<times> string) list \<Rightarrow> string option \<Rightarrow> genkey_result + string option" where
  "genkey_options [] alg = Inr alg"
| "genkey_options ((c, arg) # opts) alg =
     (if c = CHR ''A'' then genkey_options opts (Some arg)
      else if c = CHR ''h'' then Inl Genkey_Help
      else genkey_options opts alg)"

lemma genkey_options_help: "genkey_options opts alg = Inl r \<Longrightarrow> r = Genkey_Help"
  by (induction opts alg rule: genkey_options.induct) (auto split: if_splits)

definition keyfile_text :: "(octets \<Rightarrow> string) \<Rightarrow> octets \<times> octets \<Rightarrow> string" where
  "keyfile_text bin2hex keys = ''ed25519:'' @ bin2hex (fst keys) @ '':'' @ bin2hex (snd keys) @ [CHR 0x0A]"

definition genkey_main :: "(octets \<Rightarrow> string) \<Rightarrow> octets \<times> octets \<Rightarrow> (char \<times> string) list \<Rightarrow> genkey_result" where
  "genkey_main bin2hex keys opts =
     (case genkey_options opts None of
        Inl r \<Rightarrow> r
      | Inr alg \<Rightarrow>
          let name = (case alg of None \<Rightarrow> ''ed25519'' | Some a \<Rightarrow> a) in
          if name \<noteq> ''ed25519'' then Genkey_Exit 1 ''signing algorithm not recognised''
          else Genkey_Output (keyfile_text bin2hex keys))"

section \<open>Round trip\<close>

text \<open>
  What the conversions are documented to do: digits and the first letters, and back.
\<close>

definition hex_chars :: "char set" where
  "hex_chars = set ''0123456789abcdef''"

lemma takeWhile_to_end: "c \<notin> set l \<Longrightarrow> takeWhile (\<lambda>x. x \<noteq> c) (l @ [c]) = l"
  by (induction l) auto

lemma drop_past: "drop (length a + 1) (a @ c # b) = b" "drop (length a + 1 + length b + 1) (a @ c # b @ d # s) = s"
  by simp_all

locale hex_codec =
  fixes bin2hex :: "octets \<Rightarrow> string" and hex2bin :: "nat \<Rightarrow> string \<Rightarrow> octets option"
  assumes hex_only: "set (bin2hex bs) \<subseteq> hex_chars"
    and hex_inverse: "length bs \<le> n \<Longrightarrow> hex2bin n (bin2hex bs) = Some bs"
begin

lemma no_separators: "CHR '':'' \<notin> set (bin2hex bs)" "CHR 0x0A \<notin> set (bin2hex bs)"
  using hex_only[of bs] by (auto simp: hex_chars_def)

lemma keyfile_line:
  "takeWhile (\<lambda>c. c \<noteq> CHR 0x0A) (keyfile_text bin2hex keys) =
     ''ed25519'' @ CHR '':'' # bin2hex (fst keys) @ CHR '':'' # bin2hex (snd keys)"
proof -
  let ?line = "''ed25519'' @ CHR '':'' # bin2hex (fst keys) @ CHR '':'' # bin2hex (snd keys)"
  have "CHR 0x0A \<notin> set ?line"
    using no_separators by simp
  moreover have "keyfile_text bin2hex keys = ?line @ [CHR 0x0A]"
    by (simp add: keyfile_text_def)
  ultimately show ?thesis
    using takeWhile_to_end by metis
qed

lemma keyfile_load:
  assumes "length (fst keys) = 32" and "length (snd keys) = 64"
  shows "keypair_load hex2bin (Some (keyfile_text bin2hex keys)) = Inr \<lparr>kp_public = fst keys, kp_secret = snd keys\<rparr>"
proof -
  let ?p = "bin2hex (fst keys)" and ?s = "bin2hex (snd keys)"
  let ?line = "''ed25519'' @ CHR '':'' # ?p @ CHR '':'' # ?s"
  have f1: "find_char (CHR '':'') ?line = Some 7"
    using find_char_append[of "CHR '':''" "''ed25519''"] by simp
  have f2: "find_char (CHR '':'') (?p @ CHR '':'' # ?s) = Some (length ?p)"
    using no_separators by (intro find_char_append)
  have d: "drop (7 + 1) ?line = ?p @ CHR '':'' # ?s" "drop (7 + 1 + length ?p + 1) ?line = ?s" "take 7 ?line = ''ed25519''"
  proof -
    have n: "length ''ed25519'' = 7"
      by simp
    show "drop (7 + 1) ?line = ?p @ CHR '':'' # ?s" "drop (7 + 1 + length ?p + 1) ?line = ?s"
      using drop_past[where a = "''ed25519''" and c = "CHR '':''"] unfolding n by blast+
  qed simp
  have "ed25519_keypair hex2bin ?line = Inr \<lparr>kp_public = fst keys, kp_secret = snd keys\<rparr>"
    unfolding ed25519_keypair_def f1 option.case d f2 using assms by (simp add: hex_field_def hex_inverse)
  then show ?thesis
    unfolding keypair_load_def option.case keyfile_line Let_def f1 d ed25519_algorithm_def by simp
qed

end

section \<open>Properties\<close>

text \<open>
  An executable codec with the contract.
\<close>

definition hex_text :: "octets \<Rightarrow> string" where
  "hex_text bs = concat (map hex_octet bs)"

definition hex_val :: "char \<Rightarrow> nat" where
  "hex_val c = (if is_digit c then digit_val c else of_char c - 87)"

fun of_hex :: "string \<Rightarrow> octets option" where
  "of_hex [] = Some []"
| "of_hex [c] = None"
| "of_hex (c # d # s) =
     (if c \<in> hex_chars \<and> d \<in> hex_chars
      then map_option (\<lambda>bs. of_nat (hex_val c * 16 + hex_val d) # bs) (of_hex s) else None)"

definition of_hex_bounded :: "nat \<Rightarrow> string \<Rightarrow> octets option" where
  "of_hex_bounded n s = (case of_hex s of None \<Rightarrow> None | Some bs \<Rightarrow> if length bs \<le> n then Some bs else None)"

lemma hex_digits:
  assumes "d < 16"
  shows "hex_digit d \<in> hex_chars \<and> hex_val (hex_digit d) = d"
proof -
  have "list_all (\<lambda>d. hex_digit d \<in> hex_chars \<and> hex_val (hex_digit d) = d) [0..<16]"
    by code_simp
  moreover have "d \<in> set [0..<16]"
    using assms by simp
  ultimately show ?thesis
    unfolding list_all_iff by blast
qed

lemma of_hex_text: "of_hex (hex_text bs) = Some bs"
proof (induction bs)
  case (Cons b bs)
  have "unat b div 16 < 16" "unat b mod 16 < 16"
    using unat_octet_lt[of b] by simp_all
  note d = hex_digits[OF this(1)] hex_digits[OF this(2)]
  have "(word_of_nat (unat b div 16 * 16 + unat b mod 16) :: octet) = b"
    by (simp only: div_mult_mod_eq of_nat_unat ucast_id)
  with d Cons show ?case
    by (simp add: hex_text_def hex_octet_def)
qed (simp add: hex_text_def)

interpretation reference_hex: hex_codec hex_text of_hex_bounded
proof
  show "set (hex_text bs) \<subseteq> hex_chars" for bs
  proof (induction bs)
    case (Cons b bs)
    have "unat b div 16 < 16" "unat b mod 16 < 16"
      using unat_octet_lt[of b] by simp_all
    with Cons hex_digits show ?case
      by (simp add: hex_text_def hex_octet_def)
  qed (simp add: hex_text_def)
qed (simp add: of_hex_bounded_def of_hex_text)

text \<open>
  C40: what \<^verbatim>\<open>horace genkey\<close> prints for a keypair is a key file that gives this keypair, whatever options
  it was given other than for help or another algorithm.
\<close>

theorem keyfile_roundtrip:
  assumes "hex_codec bin2hex hex2bin" and "length pk = 32" and "length sk = 64"
    and "genkey_main bin2hex (pk, sk) opts = Genkey_Output text"
  shows "keypair_load hex2bin (Some text) = Inr \<lparr>kp_public = pk, kp_secret = sk\<rparr>"
proof -
  have "text = keyfile_text bin2hex (pk, sk)"
    using assms(4) by (auto simp: genkey_main_def Let_def split: sum.splits if_splits dest: genkey_options_help)
  with hex_codec.keyfile_load[OF assms(1), of "(pk, sk)"] assms(2,3) show ?thesis
    by simp
qed

theorem keyfile_roundtrip_witness:
  "keypair_load of_hex_bounded (Some (keyfile_text hex_text (replicate 32 0x1f, replicate 64 0xa0))) =
     Inr \<lparr>kp_public = replicate 32 0x1f, kp_secret = replicate 64 0xa0\<rparr>"
  by (rule keyfile_roundtrip[OF reference_hex.hex_codec_axioms, where opts = "[(CHR ''A'', ''ed25519'')]"])
    (simp_all add: genkey_main_def)

text \<open>
  A key file is only accepted with keys of the right length.
\<close>

lemma keypair_load_lengths:
  "keypair_load hex2bin file = Inr kp \<Longrightarrow> length (kp_public kp) = 32 \<and> length (kp_secret kp) = 64"
  by (auto simp: keypair_load_def ed25519_keypair_def hex_field_def Let_def split: option.splits if_splits)

end
