(* ===== verification/Unix_Socket.thy ===== *)
theory Unix_Socket
  imports Packet_Record File_Descriptor
begin

text \<open>
  Datagrams from a socket in the file system: \<^verbatim>\<open>endpoints/unix/unix_socket.cc\<close> and
  \<^verbatim>\<open>endpoints/unix/unix_event_reader.cc\<close>. Binding replaces a socket that nobody listens on. The system is
  the state of the pathname and the outcome of \<^verbatim>\<open>connect\<close>, with what POSIX says of them.
\<close>

section \<open>The pathname\<close>

datatype path_state =
    No_File
  | Listening_Socket
  | Dead_Socket
  | Other_File

definition ENAMETOOLONG :: nat where "ENAMETOOLONG = 36"
definition EADDRINUSE :: nat where "EADDRINUSE = 98"
definition ECONNREFUSED :: nat where "ECONNREFUSED = 111"

lemmas socket_errors = ENAMETOOLONG_def EADDRINUSE_def ECONNREFUSED_def

text \<open>
  Length of \<^verbatim>\<open>sun_path\<close>.
\<close>

definition sun_path_size :: nat where "sun_path_size = 108"

record unix_socket =
  us_path :: path_state
  us_pathname :: string
  us_snaplen :: u64
  us_buffer :: octets
  us_lsc :: leap_second_corrector
  us_builder :: packet_record_builder

definition unix_socket_init :: "path_state \<Rightarrow> packet_record_builder \<Rightarrow> u64 \<Rightarrow> unix_socket" where
  "unix_socket_init path b snaplen =
     \<lparr>us_path = path, us_pathname = [], us_snaplen = snaplen, us_buffer = replicate (unat snaplen) 0,
      us_lsc = leap_second_corrector_init, us_builder = b\<rparr>"

section \<open>Binding\<close>

text \<open>
  The result of \<^verbatim>\<open>lstat\<close> is not tested: if it fails, the mode that is looked at is \<open>junk\<close>. The exception
  that says that the address is in use is thrown where the handler for failures of \<open>connect\<close> catches it.
\<close>

definition is_socket :: "bool \<Rightarrow> path_state \<Rightarrow> bool" where
  "is_socket junk path =
     (case path of No_File \<Rightarrow> junk | Listening_Socket \<Rightarrow> True | Dead_Socket \<Rightarrow> True | Other_File \<Rightarrow> False)"

definition connect_attempt :: "(path_state \<Rightarrow> unit result) \<Rightarrow> (unix_socket, unit) act" where
  "connect_attempt connect u =
     (case bindE (connect (us_path u)) (\<lambda>_. Inl (Libc_Error EADDRINUSE)) of
        Inl (Libc_Error e) \<Rightarrow> (Inr (), if e = ECONNREFUSED then u\<lparr>us_path := No_File\<rparr> else u)
      | r \<Rightarrow> (r, u))"

definition system_bind :: "(unix_socket, unit) act" where
  "system_bind u =
     (if us_path u = No_File then (Inr (), u\<lparr>us_path := Listening_Socket\<rparr>) else (Inl (Libc_Error EADDRINUSE), u))"

definition unix_bind :: "(path_state \<Rightarrow> unit result) \<Rightarrow> bool \<Rightarrow> string \<Rightarrow> (unix_socket, unit) act" where
  "unix_bind connect junk pathname =
     (if sun_path_size \<le> length (takeWhile (\<lambda>c. c \<noteq> CHR 0x00) pathname) then throwS (Libc_Error ENAMETOOLONG)
      else
        seqS (bindS (getS (\<lambda>u. is_socket junk (us_path u))) (\<lambda>sock. if sock then connect_attempt connect else returnS ()))
        (seqS system_bind
          (modifyS (\<lambda>u. u\<lparr>us_pathname := pathname\<rparr>))))"

text \<open>
  The destructor removes the pathname if the socket was bound to one.
\<close>

definition unix_close :: "unix_socket \<Rightarrow> path_state" where
  "unix_close u = (if us_pathname u \<noteq> [] then No_File else us_path u)"

section \<open>Reading\<close>

definition unix_build :: "bool \<Rightarrow> timex \<Rightarrow> timespec result \<Rightarrow> received \<Rightarrow> unix_socket \<Rightarrow> unix_socket result" where
  "unix_build detect tmx now m u =
     (let buffer = rm_octets m @ drop (length (rm_octets m)) (us_buffer u);
          pkt_snaplen = (if rm_trunc m then us_snaplen u else rm_length m) in
      bindE now (\<lambda>ts.
      let (ts', lsc) = (if detect then correct tmx ts (us_lsc u) else (ts, us_lsc u)) in
      bindE (build_packet (Some ts') buffer pkt_snaplen (rm_length m) 0 (us_builder u)) (\<lambda>b.
      Inr (u\<lparr>us_buffer := buffer, us_lsc := lsc, us_builder := b\<rparr>))))"

definition unix_read ::
  "bool \<Rightarrow> timex \<Rightarrow> timespec result \<Rightarrow> received \<Rightarrow> unix_socket \<Rightarrow> (hrecord option \<times> unix_socket) result" where
  "unix_read detect tmx now m u =
     (case next_record (us_builder u) of
        (Some r, b) \<Rightarrow> Inr (Some r, u\<lparr>us_builder := b\<rparr>)
      | (None, _) \<Rightarrow>
          bindE (unix_build detect tmx now m u) (\<lambda>u'.
          case next_record (us_builder u') of (r, b) \<Rightarrow> Inr (r, u'\<lparr>us_builder := b\<rparr>)))"

section \<open>The event reader\<close>

definition unix_event_reader_init ::
  "path_state \<Rightarrow> (path_state \<Rightarrow> unit result) \<Rightarrow> bool \<Rightarrow> string \<Rightarrow> u64 \<Rightarrow> (session_builder, unix_socket) act" where
  "unix_event_reader_init path connect junk pathname snaplen =
     bindS (define_attribute ''pathname'' type_string) (\<lambda>i.
     bindS (define_channel ''unix'' (attr_insert (String_Attr i pathname) [])) (\<lambda>channel.
     bindS (packet_record_builder_init channel) (\<lambda>b.
     case unix_bind connect junk pathname (unix_socket_init path b snaplen) of
       (Inl e, _) \<Rightarrow> throwS e
     | (Inr _, u) \<Rightarrow> returnS u)))"

section \<open>What binding and reading do\<close>

text \<open>
  \<^verbatim>\<open>connect\<close> on a datagram socket: refused by a socket that nobody has open, and never refused by one
  that somebody has, or where there is nothing.
\<close>

definition connect_ok :: "(path_state \<Rightarrow> unit result) \<Rightarrow> bool" where
  "connect_ok connect \<longleftrightarrow> connect Dead_Socket = Inl (Libc_Error ECONNREFUSED)
     \<and> (\<forall>path \<in> {Listening_Socket, No_File}. connect path \<noteq> Inl (Libc_Error ECONNREFUSED)
        \<and> (connect path = Inr () \<or> (\<exists>e. connect path = Inl (Libc_Error e))))"

lemma connect_attempt_ok:
  assumes "connect_ok connect" and "us_path u \<noteq> Other_File"
  shows "connect_attempt connect u = (Inr (), if us_path u = Dead_Socket then u\<lparr>us_path := No_File\<rparr> else u)"
  using assms by (cases "us_path u")
    (auto simp: connect_attempt_def connect_ok_def socket_errors split: sum.splits exn.splits)

lemma unix_read_whole:
  assumes "builder_ok (us_builder u)" and "pending (us_builder u) = []" and "\<not> rm_trunc m"
    and "rm_length m = of_nat (length (rm_octets m))" and "length (rm_octets m) < 2 ^ 64"
  shows "\<exists>u'. unix_read False tmx (Inr ts) m u = Inr (Some (packet_record (Some ts) (rm_octets m) None (us_builder u)), u')
    \<and> builder_ok (us_builder u') \<and> pending (us_builder u') = [] \<and> same_builder (us_builder u) (us_builder u')"
proof -
  let ?buffer = "rm_octets m @ drop (length (rm_octets m)) (us_buffer u)"
  have n: "unat (rm_length m) = length (rm_octets m)"
    using assms(4,5) by (simp add: unat_of_nat_64)
  from build_packet_pending[OF assms(1), of "rm_length m" ?buffer "Some ts" "rm_length m" 0] n obtain b' where
    b': "build_packet (Some ts) ?buffer (rm_length m) (rm_length m) 0 (us_builder u) = Inr b'" "builder_ok b'"
      "same_builder (us_builder u) b'" "pending b' = [packet_record (Some ts) (rm_octets m) None (us_builder u)]"
    by (auto simp: lost_records_def)
  from next_record_some[OF b'(4,2)] obtain b'' where "next_record b' = (Some (packet_record (Some ts) (rm_octets m) None (us_builder u)), b'')"
    "pending b'' = []" "builder_ok b''" "b'' = b'\<lparr>pb_count := pb_count b''\<rparr>"
    by blast
  note n' = this
  have "same_builder (us_builder u) b''"
    using b'(3) by (subst n'(4)) (simp add: same_builder_def)
  moreover have "unix_read False tmx (Inr ts) m u = Inr (Some (packet_record (Some ts) (rm_octets m) None (us_builder u)),
      u\<lparr>us_buffer := ?buffer, us_builder := b''\<rparr>)"
    using b'(1) n'(1) assms(3) next_record_none[OF assms(2,1)] by (simp add: unix_read_def unix_build_def Let_def)
  ultimately show ?thesis
    using n'(2,3) by (intro exI[of _ "u\<lparr>us_buffer := ?buffer, us_builder := b''\<rparr>"]) simp
qed

section \<open>Properties\<close>

text \<open>
  C39: binding takes the place of nothing but a socket that nobody has open, and does not depend on
  the result of \<^verbatim>\<open>lstat\<close> that is used unchecked. It succeeds exactly if there is no file with the
  pathname or only such a socket; otherwise it fails because the address is in use, the file is left
  alone, and neither does the destructor remove it.
\<close>

theorem unix_bind_replaces_dead:
  assumes "connect_ok connect" and "length (takeWhile (\<lambda>c. c \<noteq> CHR 0x00) pathname) < sun_path_size" and "pathname \<noteq> []"
  shows "unix_bind connect junk pathname (unix_socket_init path b snaplen) =
      (if path = No_File \<or> path = Dead_Socket
       then (Inr (), (unix_socket_init path b snaplen)\<lparr>us_path := Listening_Socket, us_pathname := pathname\<rparr>)
       else (Inl (Libc_Error EADDRINUSE), unix_socket_init path b snaplen))
    \<and> unix_close (snd (unix_bind connect junk pathname (unix_socket_init path b snaplen))) =
      (if path = No_File \<or> path = Dead_Socket then No_File else path)"
proof -
  let ?u = "unix_socket_init path b snaplen"
  have p: "us_path ?u = path" "us_pathname ?u = []"
    by (simp_all add: unix_socket_init_def)
  have "unix_bind connect junk pathname ?u =
      (if path = No_File \<or> path = Dead_Socket
       then (Inr (), ?u\<lparr>us_path := Listening_Socket, us_pathname := pathname\<rparr>) else (Inl (Libc_Error EADDRINUSE), ?u))"
    using connect_attempt_ok[OF assms(1), of ?u] assms(2) p
    by (cases path; cases junk) (simp_all add: unix_bind_def act_simps is_socket_def system_bind_def)
  with assms(3) p show ?thesis
    by (simp add: unix_close_def)
qed

definition sample_connect :: "path_state \<Rightarrow> unit result" where
  "sample_connect path = (case path of Listening_Socket \<Rightarrow> Inr () | No_File \<Rightarrow> Inl (Libc_Error 2) | _ \<Rightarrow> Inl (Libc_Error ECONNREFUSED))"

definition idle_builder :: packet_record_builder where
  "idle_builder = \<lparr>pb_channel = 0, pb_pkt_attr = 0, pb_origlen_attr = 1, pb_rpt_attr = 2,
     pb_buffer = [empty_record, empty_record], pb_count = 0\<rparr>"

theorem unix_bind_replaces_dead_witness:
  "unix_bind sample_connect True ''/run/log'' (unix_socket_init Dead_Socket idle_builder 100) =
      (if Dead_Socket = No_File \<or> Dead_Socket = Dead_Socket
       then (Inr (), (unix_socket_init Dead_Socket idle_builder 100)\<lparr>us_path := Listening_Socket, us_pathname := ''/run/log''\<rparr>)
       else (Inl (Libc_Error EADDRINUSE), unix_socket_init Dead_Socket idle_builder 100))
    \<and> unix_close (snd (unix_bind sample_connect True ''/run/log'' (unix_socket_init Dead_Socket idle_builder 100))) =
      (if Dead_Socket = No_File \<or> Dead_Socket = Dead_Socket then No_File else Dead_Socket)"
  by (rule unix_bind_replaces_dead) (simp_all add: connect_ok_def sample_connect_def socket_errors sun_path_size_def)

end
