(* ===== verification/Platform.thy ===== *)
theory Platform
  imports Prelude
begin

text \<open>
  What the programs ask of the system: the name of the host (\<^verbatim>\<open>horace/hostname.cc\<close>), waiting for signals
  (\<^verbatim>\<open>horace/signal_set.cc\<close>), the entries of a directory and the names of files that change in it
  (\<^verbatim>\<open>horace+file/directory.cc\<close>, \<^verbatim>\<open>directory_maker.cc\<close>, \<^verbatim>\<open>directory_watcher.cc\<close>), and the program that
  starts the others (\<^verbatim>\<open>src/horace.cc\<close>). The calls of the system are parameters.
\<close>

section \<open>The name of the host\<close>

text \<open>
  \<open>gethost\<close> is what \<^verbatim>\<open>gethostname\<close> puts in a buffer of that size, up to the first null character, or \<open>None\<close> if
  it reports an error. The loop ends only with a name that fits.
\<close>

partial_function (option) hostname_loop :: "(nat \<Rightarrow> string option) \<Rightarrow> nat \<Rightarrow> string option" where
  "hostname_loop gethost len =
     (case gethost (len - 1) of
        None \<Rightarrow> hostname_loop gethost (len * 2)
      | Some name \<Rightarrow> if length name < len - 2 then Some name else hostname_loop gethost (len * 2))"

definition hostname :: "(nat \<Rightarrow> string option) \<Rightarrow> (string \<Rightarrow> string option) \<Rightarrow> string option" where
  "hostname gethost canonical =
     map_option (\<lambda>name. case canonical name of Some c \<Rightarrow> c | None \<Rightarrow> name) (hostname_loop gethost 64)"

text \<open>
  A name that does not fit is reported as an error or cut off.
\<close>

definition gives_name :: "string \<Rightarrow> (nat \<Rightarrow> string option) \<Rightarrow> bool" where
  "gives_name name gethost \<longleftrightarrow>
     (\<forall>k. if length name < k then gethost k = Some name else gethost k \<in> {None, Some (take k name)})"

lemma hostname_loop_ends:
  assumes "gives_name name gethost" and "3 \<le> len"
  shows "hostname_loop gethost len = Some name"
  using assms(2)
proof (induction "length name + 3 - len" arbitrary: len rule: less_induct)
  case less
  show ?case
  proof (cases "length name + 2 < len")
    case True
    then have "gethost (len - 1) = Some name"
      using assms(1) by (auto simp: gives_name_def split: if_splits dest: spec[of _ "len - 1"])
    moreover have "length name < len - 2"
      using True by simp
    ultimately show ?thesis
      by (subst hostname_loop.simps) simp
  next
    case False
    then have again: "hostname_loop gethost (len * 2) = Some name"
      using less.prems by (intro less.hyps) auto
    have "gethost (len - 1) \<in> {None, Some name, Some (take (len - 1) name)}"
      using assms(1) unfolding gives_name_def by (metis insertI1 insertI2 insertE singletonD)
    with False again less.prems show ?thesis
      by (subst hostname_loop.simps) (auto split: option.split)
  qed
qed

lemma hostname_untruncated:
  "gives_name name gethost \<Longrightarrow> canonical name = None \<Longrightarrow> hostname gethost canonical = Some name"
  by (simp add: hostname_def hostname_loop_ends)

section \<open>Waiting for a signal\<close>

definition milliwait_timeout :: "int \<Rightarrow> int \<times> int" where
  "milliwait_timeout timeout = (timeout div 1000, (timeout mod 1000) * 1000000)"

text \<open>
  \<open>wait\<close> is the outcome of \<^verbatim>\<open>sigtimedwait\<close>: a signal, or the error.
\<close>

definition milliwait :: "(int \<times> int \<Rightarrow> nat + int) \<Rightarrow> nat \<Rightarrow> int \<Rightarrow> int result" where
  "milliwait wait again timeout =
     (case wait (milliwait_timeout timeout) of
        Inr raised \<Rightarrow> Inr raised
      | Inl e \<Rightarrow> if e \<noteq> again then Inl (Libc_Error e) else Inr (- 1))"

lemma milliwait_timeout_valid:
  "0 \<le> timeout \<Longrightarrow> 0 \<le> fst (milliwait_timeout timeout) \<and> snd (milliwait_timeout timeout) \<in> {0..999000000}
     \<and> fst (milliwait_timeout timeout) * 1000000000 + snd (milliwait_timeout timeout) = timeout * 1000000"
proof -
  assume "0 \<le> timeout"
  have "timeout div 1000 * 1000 + timeout mod 1000 = timeout"
    by simp
  then have "timeout div 1000 * 1000000000 + timeout mod 1000 * 1000000 = timeout * 1000000"
    by linarith
  moreover have "timeout mod 1000 < 1000" "0 \<le> timeout mod 1000"
    by simp_all
  ultimately show ?thesis
    using \<open>0 \<le> timeout\<close> by (auto simp: milliwait_timeout_def)
qed

section \<open>Directories\<close>

text \<open>
  A directory that is read: the entries that \<^verbatim>\<open>readdir\<close> will give, and the one it gave last.
\<close>

record directory =
  dir_rest :: "string list"
  dir_entry :: "string option"

definition directory_open :: "string list result \<Rightarrow> directory result" where
  "directory_open entries = bindE entries (\<lambda>es. Inr \<lparr>dir_rest = es, dir_entry = None\<rparr>)"

definition readdir :: "directory \<Rightarrow> directory" where
  "readdir d = (case dir_rest d of [] \<Rightarrow> d\<lparr>dir_entry := None\<rparr> | e # es \<Rightarrow> \<lparr>dir_rest = es, dir_entry = Some e\<rparr>)"

definition directory_more :: "(directory, bool) act" where
  "directory_more d = (let d' = (if dir_entry d = None then readdir d else d) in (Inr (dir_entry d' \<noteq> None), d'))"

definition directory_read :: "(directory, string) act" where
  "directory_read d =
     (let d' = (if dir_entry d = None then readdir d else d) in
      case dir_entry d' of
        None \<Rightarrow> (Inl (Runtime_Error ''end of directory''), d')
      | Some e \<Rightarrow> (Inr e, d'\<lparr>dir_entry := None\<rparr>))"

definition entries :: "directory \<Rightarrow> string list" where
  "entries d = (case dir_entry d of None \<Rightarrow> [] | Some e \<Rightarrow> [e]) @ dir_rest d"

lemma directory_more_entries: "\<exists>d'. directory_more d = (Inr (entries d \<noteq> []), d') \<and> entries d' = entries d"
  by (auto simp: directory_more_def readdir_def entries_def Let_def split: option.splits list.splits)

lemma directory_read_entries:
  "entries d = e # es \<Longrightarrow> \<exists>d'. directory_read d = (Inr e, d') \<and> entries d' = es"
  "entries d = [] \<Longrightarrow> fst (directory_read d) = Inl (Runtime_Error ''end of directory'')"
  by (auto simp: directory_read_def readdir_def entries_def Let_def split: option.splits list.splits)

definition EEXIST :: nat where "EEXIST = 17"

text \<open>
  Making a directory: it does no harm that there is one already, or something else of that name.
\<close>

definition directory_maker :: "nat option \<Rightarrow> unit result" where
  "directory_maker mkdir_error =
     (case mkdir_error of
        None \<Rightarrow> Inr ()
      | Some e \<Rightarrow> if e \<noteq> EEXIST then Inl (Libc_Error e) else Inr ())"

section \<open>Changes in a directory\<close>

text \<open>
  The buffer of the watcher holds events as the system writes them: a header of 16 octets, of which the last
  four are the length of the name with its padding. \<open>dw_reads\<close> is what further reads will give; the
  process is told to terminate while it waits for more.
\<close>

record directory_watcher =
  dw_buffer :: octets
  dw_count :: nat
  dw_index :: nat
  dw_reads :: "octets list"

definition inotify_header :: nat where "inotify_header = 16"
definition watcher_buffer_size :: nat where "watcher_buffer_size = inotify_header + 255 + 1"

definition directory_watcher_init :: "octets list \<Rightarrow> directory_watcher" where
  "directory_watcher_init reads =
     \<lparr>dw_buffer = replicate watcher_buffer_size 0, dw_count = 0, dw_index = 0, dw_reads = reads\<rparr>"

definition word32_at :: "octets \<Rightarrow> nat \<Rightarrow> nat" where
  "word32_at bs i = unat (bs ! i) + 2 ^ 8 * unat (bs ! (i + 1)) + 2 ^ 16 * unat (bs ! (i + 2)) + 2 ^ 24 * unat (bs ! (i + 3))"

definition event_filename :: "octets \<Rightarrow> nat \<Rightarrow> string" where
  "event_filename bs i = map char_of_octet (takeWhile (\<lambda>b. b \<noteq> 0) (drop (i + inotify_header) bs))"

definition next_filename :: "(directory_watcher, string) act" where
  "next_filename w =
     (Inr (event_filename (dw_buffer w) (dw_index w)),
      w\<lparr>dw_index := dw_index w + inotify_header + word32_at (dw_buffer w) (dw_index w + 12)\<rparr>)"

definition fill_watcher :: "octets \<Rightarrow> octets list \<Rightarrow> directory_watcher \<Rightarrow> directory_watcher" where
  "fill_watcher bs reads w =
     \<lparr>dw_buffer = bs @ drop (length bs) (dw_buffer w), dw_count = length bs, dw_index = 0, dw_reads = reads\<rparr>"

fun watcher_loop :: "octets list \<Rightarrow> (directory_watcher, string) act" where
  "watcher_loop [] w = (if dw_index w < dw_count w then next_filename w else (Inl Terminate_Exception, w))"
| "watcher_loop (bs # reads) w =
     (if dw_index w < dw_count w then next_filename w else watcher_loop reads (fill_watcher bs reads w))"

definition watcher_read :: "(directory_watcher, string) act" where
  "watcher_read w = watcher_loop (dw_reads w) w"

section \<open>What a watcher reports\<close>

text \<open>
  An event as the system writes it; the name ends with at least one null character.
\<close>

definition event_octets :: "octets \<Rightarrow> string \<Rightarrow> nat \<Rightarrow> octets" where
  "event_octets header name pad =
     header @ (let n = length name + pad in [of_nat n, of_nat (n div 2 ^ 8), of_nat (n div 2 ^ 16), of_nat (n div 2 ^ 24)])
       @ map octet_of_char name @ replicate pad 0"

definition event_ok :: "octets \<times> string \<times> nat \<Rightarrow> bool" where
  "event_ok e \<longleftrightarrow> (case e of (header, name, pad) \<Rightarrow>
     length header = 12 \<and> CHR 0x00 \<notin> set name \<and> 0 < pad \<and> length name + pad < 2 ^ 32)"

definition encode_event :: "octets \<times> string \<times> nat \<Rightarrow> octets" where
  "encode_event e = (case e of (header, name, pad) \<Rightarrow> event_octets header name pad)"

definition event_name :: "octets \<times> string \<times> nat \<Rightarrow> string" where
  "event_name e = fst (snd e)"

lemma word32_of_nat:
  assumes "n < 2 ^ 32" and "drop i bs = xs @ [of_nat n, of_nat (n div 2 ^ 8), of_nat (n div 2 ^ 16), of_nat (n div 2 ^ 24)] @ ys"
  shows "word32_at bs (i + length xs) = n"
proof -
  have "drop (i + length xs) bs = drop (length xs) (drop i bs)"
    by (simp add: add.commute)
  then have d: "drop (i + length xs) bs = of_nat n # of_nat (n div 2 ^ 8) # of_nat (n div 2 ^ 16) # of_nat (n div 2 ^ 24) # ys"
    by (simp add: assms(2))
  then have "i + length xs \<le> length bs"
    by (cases "i + length xs \<le> length bs") auto
  from nth_drop[OF this] d have nth: "bs ! (i + length xs + k) =
      (of_nat n # of_nat (n div 2 ^ 8) # of_nat (n div 2 ^ 16) # of_nat (n div 2 ^ 24) # ys) ! k" for k
    by simp
  have u: "unat (of_nat m :: octet) = m mod 256" for m
    by (simp add: unat_of_nat)
  define a b c where "a = n div 256" and "b = a div 256" and "c = b div 256"
  have div: "n div 2 ^ 8 = a" "n div 2 ^ 16 = b" "n div 2 ^ 24 = c"
    by (simp_all add: a_def b_def c_def div_mult2_eq[symmetric])
  have "c < 256"
    using assms(1) by (simp add: div[symmetric] less_mult_imp_div_less)
  moreover have "n = 256 * a + n mod 256" "a = 256 * b + a mod 256" "b = 256 * c + b mod 256"
    by (simp_all add: a_def b_def c_def)
  ultimately have "n mod 256 + 256 * (a mod 256) + 65536 * (b mod 256) + 16777216 * (c mod 256) = n"
    by simp
  with nth[of 0] nth[of 1] nth[of 2] nth[of 3] show ?thesis
    unfolding div by (simp add: word32_at_def u)
qed

lemma event_filename_event:
  assumes "drop i bs = encode_event e @ ys" and "event_ok e"
  shows "event_filename bs i = event_name e"
    and "inotify_header + word32_at bs (i + 12) = length (encode_event e)"
proof -
  obtain header name pad where e: "e = (header, name, pad)"
    by (cases e)
  define n where "n = length name + pad"
  let ?len = "[of_nat n, of_nat (n div 2 ^ 8), of_nat (n div 2 ^ 16), of_nat (n div 2 ^ 24)] :: octets"
  have ok: "length header = 12" "CHR 0x00 \<notin> set name" "0 < pad" "n < 2 ^ 32"
    using assms(2) by (auto simp: e event_ok_def n_def)
  have d: "drop i bs = header @ ?len @ map octet_of_char name @ replicate pad 0 @ ys"
    using assms(1) by (simp add: e encode_event_def event_octets_def n_def Let_def)
  from word32_of_nat[OF ok(4) d] ok(1) have "word32_at bs (i + 12) = n"
    by simp
  then show "inotify_header + word32_at bs (i + 12) = length (encode_event e)"
    using ok(1) by (simp add: e encode_event_def event_octets_def n_def Let_def inotify_header_def)
  have zero: "octet_of_char c = 0 \<Longrightarrow> c = CHR 0x00" for c
    using char_of_octet_of_char[of c] by (simp add: char_of_octet_def char_of_def)
  have "drop (i + inotify_header) bs = drop inotify_header (drop i bs)"
    by (simp add: add.commute)
  also have "\<dots> = map octet_of_char name @ replicate pad 0 @ ys"
    unfolding d using ok(1) by (simp add: inotify_header_def)
  finally have "takeWhile (\<lambda>b. b \<noteq> 0) (drop (i + inotify_header) bs) = map octet_of_char name"
    using ok(2,3) zero by (cases pad) (auto simp: takeWhile_append2 takeWhile_tail)
  then show "event_filename bs i = event_name e"
    by (simp add: event_filename_def e event_name_def comp_def)
qed

definition watcher_holds :: "directory_watcher \<Rightarrow> (octets \<times> string \<times> nat) list \<Rightarrow> bool" where
  "watcher_holds w es \<longleftrightarrow> list_all event_ok es \<and> (\<exists>ys. drop (dw_index w) (dw_buffer w) = concat (map encode_event es) @ ys)
     \<and> dw_count w = dw_index w + length (concat (map encode_event es))"

lemma encode_event_nonempty: "event_ok e \<Longrightarrow> 0 < length (encode_event e)"
  by (cases e) (auto simp: event_ok_def encode_event_def event_octets_def Let_def)

lemma next_filename_holds:
  assumes "watcher_holds w (e # es)"
  shows "dw_index w < dw_count w \<and> (\<exists>w'. next_filename w = (Inr (event_name e), w') \<and> watcher_holds w' es \<and> dw_reads w' = dw_reads w)"
proof -
  from assms obtain ys where ys: "drop (dw_index w) (dw_buffer w) = encode_event e @ concat (map encode_event es) @ ys"
    and ok: "event_ok e" "list_all event_ok es" and c: "dw_count w = dw_index w + length (encode_event e) + length (concat (map encode_event es))"
    by (auto simp: watcher_holds_def)
  note f = event_filename_event[OF ys ok(1)]
  let ?w = "w\<lparr>dw_index := dw_index w + length (encode_event e)\<rparr>"
  have "drop (dw_index ?w) (dw_buffer ?w) = concat (map encode_event es) @ ys"
    using arg_cong[OF ys, of "drop (length (encode_event e))"] by (simp add: add.commute)
  with ok(2) c have "watcher_holds ?w es"
    by (auto simp: watcher_holds_def)
  moreover have "next_filename w = (Inr (event_name e), ?w)"
    using f by (simp add: next_filename_def add.assoc)
  ultimately show ?thesis
    using c encode_event_nonempty[OF ok(1)] by auto
qed

fun watch :: "nat \<Rightarrow> (directory_watcher, string list) act" where
  "watch 0 = returnS []"
| "watch (Suc n) = bindS watcher_read (\<lambda>f. bindS (watch n) (\<lambda>fs. returnS (f # fs)))"

text \<open>
  Every name is reported once and in order, however the events are distributed over the reads, and then
  the watcher waits.
\<close>

lemma watcher_reports:
  assumes "watcher_holds w es" and "dw_reads w = map (concat \<circ> map encode_event) ess"
    and "list_all (list_all event_ok) ess" and "n = length es + length (concat ess)"
  shows "\<exists>w'. watch n w = (Inr (map event_name (es @ concat ess)), w') \<and> fst (watcher_read w') = Inl Terminate_Exception"
  using assms
proof (induction n arbitrary: w es ess)
  case 0
  have "fst (watcher_loop (map (concat \<circ> map encode_event) ess) v) = Inl Terminate_Exception"
    if "dw_index v = dw_count v" "concat ess = []" for v ess
    using that
  proof (induction ess arbitrary: v)
    case (Cons e ess)
    then show ?case
      by (simp add: fill_watcher_def)
  qed simp
  with 0 show ?case
    by (simp add: returnS_def watcher_read_def watcher_holds_def comp_def)
next
  case (Suc n)
  show ?case
  proof (cases es)
    case (Cons e es')
    with Suc.prems(1) next_filename_holds obtain w1 where w1: "dw_index w < dw_count w"
      "next_filename w = (Inr (event_name e), w1)" "watcher_holds w1 es'" "dw_reads w1 = dw_reads w"
      by blast
    have "watcher_read w = (Inr (event_name e), w1)"
      using w1(1,2) by (cases "dw_reads w") (simp_all add: watcher_read_def)
    moreover obtain w' where "watch n w1 = (Inr (map event_name (es' @ concat ess)), w')" "fst (watcher_read w') = Inl Terminate_Exception"
      using Suc.IH[OF w1(3) _ Suc.prems(3)] w1(4) Suc.prems(2,4) Cons by auto
    ultimately show ?thesis
      using Cons by (simp add: bindS_def returnS_def)
  next
    case Nil
    with Suc.prems(4) have ne: "concat ess \<noteq> []"
      by (metis add_0 list.size(3) nat.distinct(1))
    have fetch: "\<exists>e es' ess' w1. concat ess = e # es' @ concat ess' \<and> watcher_loop (map (concat \<circ> map encode_event) ess) v = (Inr (event_name e), w1)
        \<and> watcher_holds w1 es' \<and> dw_reads w1 = map (concat \<circ> map encode_event) ess' \<and> list_all (list_all event_ok) ess'"
      if "dw_index v = dw_count v" "concat ess \<noteq> []" "list_all (list_all event_ok) ess" for v ess
      using that
    proof (induction ess arbitrary: v)
      case (Cons es1 ess)
      let ?v = "fill_watcher (concat (map encode_event es1)) (map (concat \<circ> map encode_event) ess) v"
      have h: "watcher_holds ?v es1"
        using Cons.prems(3) by (auto simp: watcher_holds_def fill_watcher_def)
      have l: "watcher_loop (map (concat \<circ> map encode_event) (es1 # ess)) v = watcher_loop (map (concat \<circ> map encode_event) ess) ?v"
        using Cons.prems(1) by simp
      show ?case
      proof (cases es1)
        case Nil
        then have "concat (es1 # ess) = concat ess"
          by simp
        from this[symmetric] show ?thesis
          unfolding l \<open>concat (es1 # ess) = concat ess\<close>
          by (intro Cons.IH) (use Cons.prems Nil in \<open>simp_all add: fill_watcher_def\<close>)
      next
        case (Cons e es')
        with h next_filename_holds obtain w1 where w1: "dw_index ?v < dw_count ?v" "next_filename ?v = (Inr (event_name e), w1)"
          "watcher_holds w1 es'" "dw_reads w1 = dw_reads ?v"
          by blast
        have "watcher_loop (map (concat \<circ> map encode_event) (es1 # ess)) v = (Inr (event_name e), w1)"
          unfolding l using w1(1,2) by (cases ess) simp_all
        moreover have "concat (es1 # ess) = e # es' @ concat ess" "dw_reads w1 = map (concat \<circ> map encode_event) ess"
          using w1(4) by (simp_all add: Cons fill_watcher_def)
        ultimately show ?thesis
          using w1(3) Cons.prems(3) by (metis list.pred_inject(2))
      qed
    qed simp
    from Nil Suc.prems(1) have "dw_index w = dw_count w"
      by (simp add: watcher_holds_def)
    from fetch[OF this ne Suc.prems(3)] obtain e es' ess' w1 where w1: "concat ess = e # es' @ concat ess'"
      "watcher_read w = (Inr (event_name e), w1)" "watcher_holds w1 es'"
      "dw_reads w1 = map (concat \<circ> map encode_event) ess'" "list_all (list_all event_ok) ess'"
      unfolding watcher_read_def Suc.prems(2) by blast
    moreover obtain w' where "watch n w1 = (Inr (map event_name (es' @ concat ess')), w')" "fst (watcher_read w') = Inl Terminate_Exception"
      using Suc.IH[OF w1(3-5)] Suc.prems(4) Nil w1(1) by auto
    ultimately show ?thesis
      using Nil by (simp add: bindS_def returnS_def)
  qed
qed

section \<open>Starting a program\<close>

datatype horace_result =
    Horace_Help
  | Horace_Version
  | Horace_Exit nat string
  | Horace_Exec string "string list"

fun horace_options :: "string \<Rightarrow> horace_result option" where
  "horace_options [] = None"
| "horace_options (c # cs) =
     (if c = CHR ''h'' then Some Horace_Help
      else if c = CHR ''V'' then Some Horace_Version
      else horace_options cs)"

lemma horace_options_exec: "horace_options opts = Some r \<Longrightarrow> r = Horace_Help \<or> r = Horace_Version"
  by (induction opts) (auto split: if_splits)

definition PATH_MAX :: nat where "PATH_MAX = 4096"

text \<open>
  \<open>opts\<close> are the option letters that \<^verbatim>\<open>getopt\<close> finds before the first argument, \<open>args\<close> the rest of the command line.
\<close>

definition horace_main :: "string \<Rightarrow> string \<Rightarrow> string \<Rightarrow> string list \<Rightarrow> horace_result" where
  "horace_main libexecdir pkgname opts args =
     (case horace_options opts of
        Some r \<Rightarrow> r
      | None \<Rightarrow>
          (case args of
             [] \<Rightarrow> Horace_Exit 1 ''Command not specified. See horace -h.''
           | cmd # rest \<Rightarrow>
               if CHR ''/'' \<in> set cmd then Horace_Exit 1 ''Command not recognised. See horace -h.''
               else
                 let dir = libexecdir @ ''/'' @ pkgname @ ''/bin/'';
                     pathname = dir @ ''horace-'' @ cmd in
                 if PATH_MAX \<le> length pathname then Horace_Exit 1 ''Command too long.''
                 else Horace_Exec pathname (drop (length dir) pathname # rest)))"

text \<open>
  What becomes of it when the system refuses with error \<open>e\<close>; \<open>absent\<close> tells whether there is no such file.
\<close>

definition horace_exec_failed :: "nat \<Rightarrow> bool \<Rightarrow> horace_result result" where
  "horace_exec_failed e absent =
     (if absent then Inr (Horace_Exit 1 ''Command not recognised. See horace -h.'') else Inl (Libc_Error e))"

text \<open>
  What is started is a file in the directory of the programs whose name begins with the prefix.
\<close>

lemma drop_prefix: "drop (length a) (a @ b) = b"
  by simp

lemma horace_main_exec:
  assumes "horace_main libexecdir pkgname opts args = Horace_Exec pathname argv"
  shows "\<exists>cmd. CHR ''/'' \<notin> set cmd \<and> pathname = libexecdir @ ''/'' @ pkgname @ ''/bin/horace-'' @ cmd
    \<and> argv = (''horace-'' @ cmd) # tl args \<and> length pathname < PATH_MAX"
proof -
  have h: "horace_options opts = None"
    using assms by (auto simp: horace_main_def split: option.splits dest: horace_options_exec)
  then obtain cmd rest where args: "args = cmd # rest"
    using assms by (cases args) (simp_all add: horace_main_def)
  let ?dir = "libexecdir @ ''/'' @ pkgname @ ''/bin/''"
  from assms h args have "CHR ''/'' \<notin> set cmd" "length (?dir @ ''horace-'' @ cmd) < PATH_MAX"
    "pathname = ?dir @ ''horace-'' @ cmd" "argv = drop (length ?dir) (?dir @ ''horace-'' @ cmd) # rest"
    by (simp_all only: horace_main_def option.case list.case Let_def split: if_splits) auto
  moreover have "drop (length ?dir) (?dir @ ''horace-'' @ cmd) = ''horace-'' @ cmd"
    by (rule drop_prefix)
  ultimately show ?thesis
    using args by (intro exI[of _ cmd]) simp
qed

end
