(* ===== verification/Spec2Isabelle.thy ===== *)
theory Spec2Isabelle
  imports New_Session_Writer Tcp_Session Forwarding Address_Filter Syslog_Record Clock_Reader Netif Capture Mongodb
    Attribute_Store Descriptor Lockfile Keypair Unix_Socket Platform
begin

text \<open>
  A model of libholmes-horace: the library \<^verbatim>\<open>horace/\<close>, its endpoints \<^verbatim>\<open>endpoints/\<close> and the programs
  \<^verbatim>\<open>src/\<close>. HORACE records events (network packets, log messages, the state of a clock) as a
  tamper-evident sequence of records. A capture program reads events from endpoints and passes them
  to a session writer, which numbers them, links them by a hash chain, has them signed and sends
  them to a destination endpoint: a filestore, a TCP connection or a database. A forwarding program
  moves records from one endpoint to another and acknowledges them with sync records, after which a
  spoolfile may be deleted.

  \<^bold>\<open>Conventions.\<close> A C++ function that may throw is a function into \<open>'a result\<close>, that is \<open>exn + 'a\<close>; a
  member function is an action \<open>('s, 'a) act\<close>, which returns the result and the state the object was
  left in, also after an exception. Integers of fixed width are words of that width; a signed shift,
  an access or an arithmetic operation that C++ leaves undefined is the value \<open>Undefined_Behaviour\<close> of
  \<open>exn\<close>, so that a theorem that an action ends otherwise also says that it is not reached. Octet strings
  are lists of \<open>8 word\<close>, character strings are HOL strings. What the kernel, the clock, a cryptographic
  library or another process does is an argument: a result, a list of results in the order of the
  calls, or a function. Where a loop need not end, the list of such results is the bound: a loop over
  the empty list raises what the code raises when it is told to terminate.

  \<^bold>\<open>Encoding.\<close> \<open>Octet_Stream\<close> (\<^verbatim>\<open>octet_reader\<close>, \<^verbatim>\<open>octet_writer\<close>), \<open>Base128\<close> (\<^verbatim>\<open>*_base128_integer\<close>) and
  \<open>Octet_Buffer\<close> (the buffering subclasses) are the lowest layer: every decoder inverts its encoder,
  consumes what it should, and buffering does not change what is read or written. \<open>Attribute\<close> and
  \<open>Attribute_Codec\<close> (\<^verbatim>\<open>attribute*.cc\<close>, \<^verbatim>\<open>attribute_list.cc\<close>) have one constructor per class, the canonical
  order, insertion, search, and the encodings; \<open>Attribute_Store\<close> refines lists of attributes to the
  pointers and the ownership that the C++ objects have, and justifies that the other theories treat
  them as values; \<open>Session_Context\<close> the definitions that give an attribute
  identifier its type; \<open>Record_Codec\<close> (\<^verbatim>\<open>record.cc\<close>) the records, with their round trip and with what a
  successful and a failed read can return.

  \<^bold>\<open>Sessions.\<close> \<open>Session_Builder\<close> and \<open>Log_Record\<close> make session records and log records, and prove that
  what they announce is what the reader of the session record knows. \<open>Session_Writer\<close> is the base class
  of the endpoint writers (\<^verbatim>\<open>simple_session_writer.cc\<close>) over the handlers of a derived class, with a locale
  for what a derived class must guarantee; \<open>New_Session_Writer\<close> is the numbering, the hash chain and the
  signing thread (\<^verbatim>\<open>new_session_writer.cc\<close>, \<^verbatim>\<open>event_signer.cc\<close>) over \<open>Secure_Hash\<close>. The digest is a parameter:
  the chain theorem says that two chains with one end are equal or exhibit a collision.

  \<^bold>\<open>Endpoints.\<close> \<open>File_Descriptor\<close> has the retry loops over traces of system call results,
  \<open>Descriptor\<close> the other calls and the ownership of descriptors, \<open>Lockfile\<close> the lock on a filestore among
  several processes. \<open>Filestore\<close>,
  \<open>File_Session_Writer\<close> and \<open>File_Session_Reader\<close> are \<^verbatim>\<open>endpoints/horace+file\<close>: names, scan, rollover to
  the next spoolfile, sync, the detection of the end of a spoolfile as a step relation between writer
  and reader, deletion and the listener. \<open>Tcp_Session\<close> is \<^verbatim>\<open>endpoints/horace+tcp\<close>.
  \<open>Mongodb\<close> is \<^verbatim>\<open>endpoints/mongodb\<close>: records as documents, and the writer over the contract
  \<open>document_store\<close> of the client library. \<open>Unix_Socket\<close> is \<^verbatim>\<open>endpoints/unix\<close>. \<open>Forwarding\<close> is
  \<^verbatim>\<open>horace-forward.cc\<close> over locales for a source and a destination, interpreted by recording wrappers and
  by the filestore reader. \<open>Inet_Netblock\<close>, \<open>Inet6_Netblock\<close> and \<open>Address_Filter\<close> are the option \<^verbatim>\<open>-x\<close> of
  \<^verbatim>\<open>horace-capture\<close>: two parsers characterised by grammars, and a compiler to packet filter programs
  that is correct for every machine with the documented meaning of its six instructions.
  \<open>Syslog_Parser\<close> and \<open>Syslog_Record\<close> are \<^verbatim>\<open>endpoints/syslog+udp\<close>. \<open>Local_Timezone\<close>, \<open>Ntp_Message\<close>,
  \<open>Ntp_Peer\<close>, \<open>Ntp_Client\<close> and \<open>Clock_Reader\<close> are \<^verbatim>\<open>endpoints/clock\<close>: the offset of local time, the
  fragments of NTP responses (whose loops may not end, so they are partial functions), the variables
  of peers, the client over a list of what it will receive, and the records of the clock. \<^verbatim>\<open>isspace\<close> and
  \<^verbatim>\<open>isdigit\<close> are those of the C locale; that they are not defined for negative \<^verbatim>\<open>char\<close> values is left aside.

  \<^bold>\<open>Packets.\<close> \<open>Leap_Second\<close> (\<^verbatim>\<open>leap_second_corrector.cc\<close>, \<^verbatim>\<open>leap_second_monitor.cc\<close>) compares the
  timestamps that are corrected with a clock that repeats the last second of a day, over any order of
  packets, measurements and reads. \<open>Packet_Record\<close>, \<open>Packet_Ring\<close> and \<open>Netif\<close> are the builder of packet
  records and \<^verbatim>\<open>endpoints/netif\<close>: the pointer to a packet is the list of octets that can be read from
  there, a ring is a function from offsets to frames or blocks, and the invariant of a ring relates it
  to the queue of packets that wait in it. The constants of the kernel's packet interface that depend
  on its headers are parameters.

  \<^bold>\<open>Programs.\<close> \<open>Uri\<close> and \<open>Endpoints\<close> are the names of endpoints with their options; \<open>Capture\<close> is
  \<^verbatim>\<open>horace-capture.cc\<close> with the termination flag and the detection of the time system, its session
  loop a function from answers and signals to the actions of the main thread. \<open>Keypair\<close> is the key files
  that \<^verbatim>\<open>horace-genkey.cc\<close> writes and the other programs read, over the contract \<open>hex_codec\<close> of the
  conversion to hexadecimal; \<open>Platform\<close> the host name, waiting for signals, directories and the choice of
  the program that \<^verbatim>\<open>horace.cc\<close> starts.

  \<^bold>\<open>Lemmas.\<close> Each theory gives the invariants of its state and the result of each operation on every
  branch; the properties rest on these through interpretations: \<open>codec\<close> (octet streams), \<open>octet_sink\<close> and
  \<open>octet_source\<close> (buffers), the locales of session writers and of forwarding, \<open>bpf_machine\<close>,
  \<open>field_reader\<close> (syslog fields), \<open>document_store\<close> and \<open>hex_codec\<close>. \<open>Prelude\<close> has the result type, the combinators of actions with their
  rules, and the lemmas on octets and decimal text.

  \<^bold>\<open>Bounds.\<close> Records are read back when their content is below 2 GiB, because the code keeps lengths in
  an \<^verbatim>\<open>int\<close>; base 128 integers up to 63 bits, because longer ones shift too far. Loops that recurse on a
  number take the number of characters or octets left, which each round reduces.

  \<^bold>\<open>Not modelled.\<close> Logging, help texts and the classes of exceptions, because they only print or carry a
  message; the resolution of addresses and the calls by which the TCP listener opens its sockets; the
  empty signal handler and abstract interfaces, which have no behaviour of their own; threads, but for
  the signing thread, the writer and reader of a spoolfile and the processes that use a lockfile, whose
  interleavings are step relations. The cryptographic primitives, the kernel and the MongoDB client
  library are not part of the repository: they are parameters, with what the code relies on as
  hypotheses.
\<close>

end
